(* ===== verification/Prelude.thy ===== *)
theory Prelude
  imports Main "HOL-Library.Mapping" "HOL-Library.AList_Mapping"
    "HOL-Library.Code_Target_Nat"
begin

text \<open>
  What the component theories share.

  \<^item> The Rust integers the sources use (\<open>usize\<close>, \<open>u64\<close>, \<open>u32\<close>) are natural numbers, with the
    saturating, wrapping and checked operations written out at their width; the program is
    built for 64-bit targets, so \<open>usize\<close> has 64 bits.
  \<^item> \<open>std::time::Duration\<close> is a number of nanoseconds of at most \<open>DURATION_MAX\<close>
    (\<open>u64\<close> seconds and \<open>u32\<close> nanoseconds), and \<open>Instant\<close> a number of nanoseconds since the
    monotonic clock's origin of at most \<open>INSTANT_MAX\<close> (\<open>i64\<close> seconds on 64-bit Unix).
  \<^item> \<open>BTreeMap\<close> and \<open>HashMap\<close> are \<^typ>\<open>('k, 'v) mapping\<close>, \<open>BTreeSet\<close> and \<open>HashSet\<close> are
    finite sets; \<open>set_first\<close> and \<open>sorted_list_of_set\<close> are the in-order views of a \<open>BTreeSet\<close>.
  \<^item> Generic lemmas on sums over finite maps, on sorted lists and on folds.
\<close>

section \<open>Machine integers\<close>

definition U32_MAX :: nat where
  "U32_MAX = 2 ^ 32 - 1"

definition U64_MAX :: nat where
  "U64_MAX = 2 ^ 64 - 1"

text \<open>\<open>saturating_add\<close> and \<open>saturating_mul\<close> on 64-bit values.\<close>

definition sat_add64 :: "nat \<Rightarrow> nat \<Rightarrow> nat" where
  "sat_add64 a b = min (a + b) U64_MAX"

text \<open>\<open>fetch_add\<close>, \<open>wrapping_add\<close> and \<open>fetch_sub\<close> on 64-bit values.\<close>

definition wrap_add64 :: "nat \<Rightarrow> nat \<Rightarrow> nat" where
  "wrap_add64 a b = (a + b) mod 2 ^ 64"

definition wrap_sub64 :: "nat \<Rightarrow> nat \<Rightarrow> nat" where
  "wrap_sub64 a b = (a + (2 ^ 64 - b mod 2 ^ 64)) mod 2 ^ 64"

lemma sat_add64_le_iff: "c \<le> U64_MAX \<Longrightarrow> c < U64_MAX \<or> a + b \<le> U64_MAX \<Longrightarrow>
    sat_add64 a b \<le> c \<longleftrightarrow> a + b \<le> c"
  by (auto simp: sat_add64_def min_def)

lemma wrap_add64_exact: "a + b \<le> U64_MAX \<Longrightarrow> wrap_add64 a b = a + b"
  by (simp add: wrap_add64_def U64_MAX_def)

lemma wrap_sub64_exact:
  assumes "b \<le> a" and "a \<le> U64_MAX"
  shows "wrap_sub64 a b = a - b"
proof -
  from assms have b: "b mod 2 ^ 64 = b" and "a < 2 ^ 64"
    by (simp_all add: U64_MAX_def)
  with assms(1) have "a + (2 ^ 64 - b mod 2 ^ 64) = (a - b) + 2 ^ 64"
    by simp
  moreover have "(a - b) mod 2 ^ 64 = a - b"
    using \<open>a < 2 ^ 64\<close> by simp
  ultimately show ?thesis
    by (simp add: wrap_sub64_def)
qed

section \<open>Durations and instants\<close>

type_synonym duration = nat
type_synonym instant = nat

definition NANOS_PER_SEC :: nat where
  "NANOS_PER_SEC = 1000000000"

definition DURATION_MAX :: duration where
  "DURATION_MAX = 2 ^ 64 * NANOS_PER_SEC - 1"

definition INSTANT_MAX :: instant where
  "INSTANT_MAX = 2 ^ 63 * NANOS_PER_SEC - 1"

definition dur_sat_add :: "duration \<Rightarrow> duration \<Rightarrow> duration" where
  "dur_sat_add a b = min (a + b) DURATION_MAX"

definition dur_checked_mul :: "duration \<Rightarrow> nat \<Rightarrow> duration option" where
  "dur_checked_mul d n = (if d * n \<le> DURATION_MAX then Some (d * n) else None)"

definition dur_sat_mul :: "duration \<Rightarrow> nat \<Rightarrow> duration" where
  "dur_sat_mul d n = min (d * n) DURATION_MAX"

definition inst_checked_add :: "instant \<Rightarrow> duration \<Rightarrow> instant option" where
  "inst_checked_add t d = (if t + d \<le> INSTANT_MAX then Some (t + d) else None)"

text \<open>\<open>Instant::saturating_duration_since\<close> and \<open>Duration::saturating_sub\<close>: zero below.\<close>

definition inst_since :: "instant \<Rightarrow> instant \<Rightarrow> duration" where
  "inst_since t u = t - u"

lemma inst_checked_add_SomeD:
  "inst_checked_add t d = Some u \<Longrightarrow> u = t + d \<and> u \<le> INSTANT_MAX"
  by (auto simp: inst_checked_add_def split: if_splits)

section \<open>Ordered sets\<close>

text \<open>\<open>BTreeSet::first\<close>.\<close>

definition set_first :: "nat set \<Rightarrow> nat option" where
  "set_first S = (if S = {} then None else Some (Min S))"

text \<open>A map entry that is dropped when its set becomes empty.\<close>

definition nonempty :: "'a set \<Rightarrow> 'a set option" where
  "nonempty S = (if S = {} then None else Some S)"

lemma set_first_empty [simp]: "set_first {} = None"
  by (simp add: set_first_def)

lemma set_first_None_iff [simp]: "set_first S = None \<longleftrightarrow> S = {}"
  by (simp add: set_first_def)

lemma set_first_SomeD:
  assumes "set_first S = Some s" and "finite S"
  shows "s \<in> S \<and> (\<forall>t \<in> S. s \<le> t)"
  using assms by (auto simp: set_first_def intro: Min_in split: if_splits)

lemma nonempty_None_iff [simp]: "nonempty S = None \<longleftrightarrow> S = {}"
  by (simp add: nonempty_def)

lemma nonempty_Some_iff [simp]: "nonempty S = Some T \<longleftrightarrow> T = S \<and> S \<noteq> {}"
  by (auto simp: nonempty_def)

section \<open>Finite maps\<close>

lemma lookup_delete': "Mapping.lookup (Mapping.delete k m) k' =
    (if k = k' then None else Mapping.lookup m k')"
  by simp

lemma lookup_update_fun [simp]:
  "Mapping.lookup (Mapping.update k v m) = (Mapping.lookup m)(k \<mapsto> v)"
  by (auto simp: fun_eq_iff lookup_update')

lemma lookup_delete_fun [simp]:
  "Mapping.lookup (Mapping.delete k m) = (Mapping.lookup m)(k := None)"
  by (auto simp: fun_eq_iff lookup_delete')

lemma lookup_empty_fun [simp]: "Mapping.lookup Mapping.empty = Map.empty"
  by (auto simp: fun_eq_iff)

lemmas lookup_simps = lookup_update' lookup_delete'

lemma mapping_lookup_inject: "Mapping.lookup m = Mapping.lookup m' \<longleftrightarrow> m = m'"
  by (metis mapping_eqI)

text \<open>A sum over a finite map, and how one update of the map changes it.\<close>

definition weight :: "('v \<Rightarrow> nat) \<Rightarrow> ('k \<rightharpoonup> 'v) \<Rightarrow> nat" where
  "weight f E = (\<Sum>s \<in> dom E. f (the (E s)))"

lemma weight_empty [simp]: "weight f Map.empty = 0"
  by (simp add: weight_def)

lemma weight_ge:
  assumes "finite (dom E)" and "E s = Some e"
  shows "f e \<le> weight f E"
  using member_le_sum [of s "dom E" "\<lambda>s. f (the (E s))"] assms
  by (auto simp: weight_def)

lemma weight_delete:
  assumes "finite (dom E)" and "E s = Some e"
  shows "weight f (E(s := None)) = weight f E - f e"
proof -
  have "weight f (E(s := None)) = (\<Sum>t \<in> dom E - {s}. f (the (E t)))"
    unfolding weight_def by (intro sum.cong) auto
  with assms show ?thesis
    by (simp add: weight_def sum_diff1_nat domI)
qed

lemma weight_insert:
  assumes "finite (dom E)" and "E s = None"
  shows "weight f (E(s \<mapsto> e)) = weight f E + f e"
proof -
  have "(\<Sum>t \<in> dom E. f (the ((E(s \<mapsto> e)) t))) = (\<Sum>t \<in> dom E. f (the (E t)))"
    using assms(2) by (intro sum.cong) auto
  moreover have "s \<notin> dom E" using assms(2) by auto
  ultimately show ?thesis
    using assms(1) by (simp add: weight_def)
qed

lemma weight_update:
  assumes "finite (dom E)" and "E s = Some e"
  shows "weight f (E(s \<mapsto> e')) = weight f E - f e + f e'"
proof -
  have "weight f ((E(s := None))(s \<mapsto> e')) = weight f (E(s := None)) + f e'"
    using assms(1) by (intro weight_insert) auto
  then show ?thesis
    using weight_delete [OF assms] by simp
qed

lemma weight_cong: "(\<And>s e. E s = Some e \<Longrightarrow> f e = g e) \<Longrightarrow> weight f E = weight g E"
  unfolding weight_def by (intro sum.cong) auto

lemma weight_mono: "(\<And>s e. E s = Some e \<Longrightarrow> f e \<le> g e) \<Longrightarrow> weight f E \<le> weight g E"
  unfolding weight_def by (intro sum_mono) auto

end
