(* ===== verification/Lease_Queue.thy ===== *)
theory Lease_Queue
  imports Prelude
begin

text \<open>
  The bounded queue of leased items, \<open>crates/tgin-runtime/src/queue.rs\<close>: its data and every
  operation of \<open>Inner\<close> and \<open>LeaseQueue\<close>. \<open>queue_inner\<close> is what the mutex guards,
  \<open>lease_queue\<close> adds the reservation totals (an object with an identity, \<open>lq_id\<close>, since a
  permit knows the \<open>Arc\<close> it was granted by) and the notification count of \<open>Notify\<close>
  (\<open>notify_waiters\<close> adds one: every future enabled before it resolves).
  Sequence numbers and byte counts are natural numbers; \<open>Lease_Queue_Inv\<close> shows that the
  byte counts stay within 64 bits and that no subtraction below zero happens.
\<close>

section \<open>Data\<close>

datatype ordering = Unordered | PerKey

datatype on_full = Backpressure | DropOldest

record queue_config =
  capacity :: nat
  capacity_bytes :: nat
  lease_timeout :: duration
  qc_ordering :: ordering
  qc_on_full :: on_full

type_synonym holder_id = string

text \<open>\<open>Permit\<close>: the reservation totals it holds room in are named by their identity.\<close>

record permit =
  evicted :: nat
  p_size :: nat
  p_reservations :: nat

datatype full = Full_Items | Full_Bytes | Full_TooLarge

record 'a lease =
  l_seq :: nat
  l_ack_id :: int
  l_item :: 'a

record queue_stats =
  st_available :: nat
  st_leased :: nat
  st_reserved :: nat
  st_bytes :: nat

record holding =
  h_holder :: holder_id
  h_deadline :: "instant option"

record 'a entry =
  e_item :: 'a
  e_key :: "nat option"
  e_ack_id :: int
  e_size :: nat
  e_lease :: "holding option"

definition to_lease :: "'a entry \<Rightarrow> nat \<Rightarrow> 'a lease" where
  "to_lease e seq = \<lparr>l_seq = seq, l_ack_id = e_ack_id e, l_item = e_item e\<rparr>"

record 'a queue_inner =
  q_cfg :: queue_config
  q_entries :: "(nat, 'a entry) mapping"
  q_available :: "nat set"
  q_eligible :: "nat set"
  q_queued_per_key :: "(nat, nat set) mapping"
  q_leases :: "(holder_id, nat set) mapping"
  q_leased_per_key :: "(nat, nat) mapping"
  q_next_seq :: nat
  q_bytes :: nat
  q_leased_bytes :: nat

section \<open>Operations on the guarded state\<close>

definition leased_count :: "'a queue_inner \<Rightarrow> nat" where
  "leased_count q = Mapping.size (q_entries q) - card (q_available q)"

definition room :: "'a queue_inner \<Rightarrow> nat \<times> nat \<Rightarrow> nat \<Rightarrow> nat \<Rightarrow> nat \<Rightarrow> full + unit" where
  "room q reserved items bytes sz =
     (case reserved of (reserved_items, reserved_bytes) \<Rightarrow>
        if sat_add64 items reserved_items \<ge> capacity (q_cfg q) then Inl Full_Items
        else if sat_add64 (sat_add64 bytes reserved_bytes) sz > capacity_bytes (q_cfg q)
        then Inl Full_Bytes
        else Inr ())"

definition holds :: "'a queue_inner \<Rightarrow> holder_id \<Rightarrow> nat \<Rightarrow> bool" where
  "holds q holder seq =
     (case Mapping.lookup (q_leases q) holder of None \<Rightarrow> False | Some seqs \<Rightarrow> seq \<in> seqs)"

definition eligible_of :: "'a queue_inner \<Rightarrow> nat \<Rightarrow> nat option" where
  "eligible_of q key =
     (case Mapping.lookup (q_leased_per_key q) key of
        Some _ \<Rightarrow> None
      | None \<Rightarrow>
          (case Mapping.lookup (q_queued_per_key q) key of
             None \<Rightarrow> None
           | Some seqs \<Rightarrow> set_first seqs))"

definition option_set_remove :: "nat option \<Rightarrow> nat set \<Rightarrow> nat set" where
  "option_set_remove x S = (case x of None \<Rightarrow> S | Some s \<Rightarrow> S - {s})"

definition option_set_insert :: "nat option \<Rightarrow> nat set \<Rightarrow> nat set" where
  "option_set_insert x S = (case x of None \<Rightarrow> S | Some s \<Rightarrow> insert s S)"

definition rekeyed ::
  "nat option \<Rightarrow> ('a queue_inner \<Rightarrow> 'a queue_inner) \<Rightarrow> 'a queue_inner \<Rightarrow> 'a queue_inner" where
  "rekeyed key change q =
     (case key of
        None \<Rightarrow> change q
      | Some k \<Rightarrow>
          (let old_first = eligible_of q k;
               q' = change q;
               new_first = eligible_of q' k
           in if old_first \<noteq> new_first
              then q'\<lparr>q_eligible :=
                     option_set_insert new_first (option_set_remove old_first (q_eligible q'))\<rparr>
              else q'))"

definition link :: "nat \<Rightarrow> nat option \<Rightarrow> 'a queue_inner \<Rightarrow> 'a queue_inner" where
  "link seq key q =
     (let q = q\<lparr>q_available := insert seq (q_available q)\<rparr> in
      case key of
        Some k \<Rightarrow> q\<lparr>q_queued_per_key :=
          Mapping.update k
            (insert seq (case Mapping.lookup (q_queued_per_key q) k of
                           None \<Rightarrow> {} | Some seqs \<Rightarrow> seqs))
            (q_queued_per_key q)\<rparr>
      | None \<Rightarrow> q\<lparr>q_eligible := insert seq (q_eligible q)\<rparr>)"

definition unlink :: "nat \<Rightarrow> nat option \<Rightarrow> 'a queue_inner \<Rightarrow> 'a queue_inner" where
  "unlink seq key q =
     (if seq \<notin> q_available q then q
      else
        (let q = q\<lparr>q_available := q_available q - {seq}\<rparr> in
         case key of
           Some k \<Rightarrow>
             (case Mapping.lookup (q_queued_per_key q) k of
                None \<Rightarrow> q
              | Some seqs \<Rightarrow>
                  (let seqs = seqs - {seq} in
                   q\<lparr>q_queued_per_key :=
                       (if seqs = {} then Mapping.delete k (q_queued_per_key q)
                        else Mapping.update k seqs (q_queued_per_key q))\<rparr>))
         | None \<Rightarrow> q\<lparr>q_eligible := q_eligible q - {seq}\<rparr>))"

text \<open>The closure \<open>start_lease\<close> hands to \<open>rekeyed\<close>.\<close>

definition count_lease :: "nat \<Rightarrow> nat option \<Rightarrow> 'a queue_inner \<Rightarrow> 'a queue_inner" where
  "count_lease seq key q =
     (let q = unlink seq key q in
      case key of
        Some k \<Rightarrow> q\<lparr>q_leased_per_key :=
          Mapping.update k
            ((case Mapping.lookup (q_leased_per_key q) k of None \<Rightarrow> 0 | Some n \<Rightarrow> n) + 1)
            (q_leased_per_key q)\<rparr>
      | None \<Rightarrow> q)"

definition start_lease ::
  "nat \<Rightarrow> holder_id \<Rightarrow> instant option \<Rightarrow> 'a queue_inner \<Rightarrow> 'a queue_inner" where
  "start_lease seq holder deadline q =
     (case Mapping.lookup (q_entries q) seq of
        None \<Rightarrow> q
      | Some e \<Rightarrow>
          rekeyed (e_key e) (count_lease seq (e_key e))
            (q\<lparr>q_entries := Mapping.update seq
                 (e\<lparr>e_lease := Some \<lparr>h_holder = holder, h_deadline = deadline\<rparr>\<rparr>) (q_entries q),
               q_leased_bytes := q_leased_bytes q + e_size e\<rparr>))"

text \<open>The two counters \<open>end_lease\<close> keeps: a key's leased items and a holder's leases.\<close>

definition uncount_key :: "nat option \<Rightarrow> (nat, nat) mapping \<Rightarrow> (nat, nat) mapping" where
  "uncount_key key m =
     (case key of
        None \<Rightarrow> m
      | Some k \<Rightarrow>
          (case Mapping.lookup m k of
             None \<Rightarrow> m
           | Some n \<Rightarrow> if n - 1 = 0 then Mapping.delete k m else Mapping.update k (n - 1) m))"

definition unhold ::
  "holder_id \<Rightarrow> nat \<Rightarrow> (holder_id, nat set) mapping \<Rightarrow> (holder_id, nat set) mapping" where
  "unhold holder seq m =
     (case Mapping.lookup m holder of
        None \<Rightarrow> m
      | Some seqs \<Rightarrow>
          if seqs - {seq} = {} then Mapping.delete holder m
          else Mapping.update holder (seqs - {seq}) m)"

definition end_lease :: "nat \<Rightarrow> 'a queue_inner \<Rightarrow> 'a queue_inner" where
  "end_lease seq q =
     (case Mapping.lookup (q_entries q) seq of
        None \<Rightarrow> q
      | Some e \<Rightarrow>
          (case e_lease e of
             None \<Rightarrow> q
           | Some hold \<Rightarrow>
               q\<lparr>q_entries := Mapping.update seq (e\<lparr>e_lease := None\<rparr>) (q_entries q),
                 q_leased_bytes := q_leased_bytes q - e_size e,
                 q_leased_per_key := uncount_key (e_key e) (q_leased_per_key q),
                 q_leases := unhold (h_holder hold) seq (q_leases q)\<rparr>))"

definition requeue :: "nat \<Rightarrow> 'a queue_inner \<Rightarrow> 'a queue_inner" where
  "requeue seq q =
     (case Mapping.lookup (q_entries q) seq of
        None \<Rightarrow> q
      | Some e \<Rightarrow> rekeyed (e_key e) (\<lambda>q. link seq (e_key e) (end_lease seq q)) q)"

text \<open>The entry removed is the one with its lease already ended.\<close>

definition remove_entry ::
  "nat \<Rightarrow> 'a queue_inner \<Rightarrow> 'a entry option \<times> 'a queue_inner" where
  "remove_entry seq q =
     (case Mapping.lookup (q_entries q) seq of
        None \<Rightarrow> (None, q)
      | Some e \<Rightarrow>
          (let q' = rekeyed (e_key e)
                 (\<lambda>q. let q1 = unlink seq (e_key e) (end_lease seq q)
                      in q1\<lparr>q_entries := Mapping.delete seq (q_entries q1)\<rparr>) q
           in (Some (e\<lparr>e_lease := None\<rparr>), q'\<lparr>q_bytes := q_bytes q' - e_size e\<rparr>)))"

section \<open>The queue\<close>

record 'a lease_queue =
  lq_inner :: "'a queue_inner"
  lq_id :: nat
  lq_res_items :: nat
  lq_res_bytes :: nat
  lq_notify :: nat

abbreviation lq_cfg :: "'a lease_queue \<Rightarrow> queue_config" where
  "lq_cfg Q \<equiv> q_cfg (lq_inner Q)"

abbreviation lq_entry :: "'a lease_queue \<Rightarrow> nat \<rightharpoonup> 'a entry" where
  "lq_entry Q \<equiv> Mapping.lookup (q_entries (lq_inner Q))"

definition notify_waiters :: "'a lease_queue \<Rightarrow> 'a lease_queue" where
  "notify_waiters Q = Q\<lparr>lq_notify := lq_notify Q + 1\<rparr>"

definition new_inner :: "queue_config \<Rightarrow> 'a queue_inner" where
  "new_inner cfg =
     \<lparr>q_cfg = cfg, q_entries = Mapping.empty, q_available = {}, q_eligible = {},
      q_queued_per_key = Mapping.empty, q_leases = Mapping.empty,
      q_leased_per_key = Mapping.empty, q_next_seq = 0, q_bytes = 0, q_leased_bytes = 0\<rparr>"

text \<open>\<open>LeaseQueue::new\<close>; \<open>qid\<close> is the identity of the fresh \<open>Arc\<close>.\<close>

definition new_queue :: "nat \<Rightarrow> queue_config \<Rightarrow> 'a lease_queue" where
  "new_queue qid cfg =
     \<lparr>lq_inner = new_inner cfg, lq_id = qid, lq_res_items = 0, lq_res_bytes = 0,
      lq_notify = 0\<rparr>"

text \<open>
  The eviction loop of \<open>try_reserve\<close>: it ends because every round removes an available
  item, which needs \<open>q_available\<close> to name entries only, so it is a partial function here and
  \<open>Lease_Queue_Inv\<close> shows that it returns. Like the code it keeps what it evicted so far
  when it fails.
\<close>

partial_function (option) evict_loop ::
  "nat \<times> nat \<Rightarrow> nat \<Rightarrow> nat \<Rightarrow> 'a queue_inner \<Rightarrow> ((full + nat) \<times> 'a queue_inner) option" where
  "evict_loop reserved sz n q =
     (case room q reserved (Mapping.size (q_entries q)) (q_bytes q) sz of
        Inr _ \<Rightarrow> Some (Inr n, q)
      | Inl full \<Rightarrow>
          (case set_first (q_available q) of
             None \<Rightarrow> Some (Inl full, q)
           | Some oldest \<Rightarrow> evict_loop reserved sz (n + 1) (snd (remove_entry oldest q))))"

declare evict_loop.simps [code]

definition make_room ::
  "nat \<times> nat \<Rightarrow> nat \<Rightarrow> 'a queue_inner \<Rightarrow> ((full + nat) \<times> 'a queue_inner) option" where
  "make_room reserved sz q =
     (case room q reserved (Mapping.size (q_entries q)) (q_bytes q) sz of
        Inr _ \<Rightarrow> Some (Inr 0, q)
      | Inl full \<Rightarrow>
          if qc_on_full (q_cfg q) = Backpressure then Some (Inl full, q)
          else
            (case room q reserved (leased_count q) (q_leased_bytes q) sz of
               Inl full' \<Rightarrow> Some (Inl full', q)
             | Inr _ \<Rightarrow> evict_loop reserved sz 0 q))"

definition try_reserve ::
  "nat \<Rightarrow> 'a lease_queue \<Rightarrow> ((full + permit) \<times> 'a lease_queue) option" where
  "try_reserve sz Q =
     (if sz > capacity_bytes (lq_cfg Q) then Some (Inl Full_TooLarge, Q)
      else
        (case make_room (lq_res_items Q, lq_res_bytes Q) sz (lq_inner Q) of
           None \<Rightarrow> None
         | Some (Inl full, q) \<Rightarrow> Some (Inl full, Q\<lparr>lq_inner := q\<rparr>)
         | Some (Inr n, q) \<Rightarrow>
             Some (Inr \<lparr>evicted = n, p_size = sz, p_reservations = lq_id Q\<rparr>,
                   Q\<lparr>lq_inner := q,
                     lq_res_items := wrap_add64 (lq_res_items Q) 1,
                     lq_res_bytes := wrap_add64 (lq_res_bytes Q) sz\<rparr>)))"

text \<open>Dropping a permit, seen from one queue: it changes the totals it was granted by.\<close>

definition drop_permit :: "permit \<Rightarrow> 'a lease_queue \<Rightarrow> 'a lease_queue" where
  "drop_permit p Q =
     (if p_reservations p = lq_id Q
      then Q\<lparr>lq_res_items := wrap_sub64 (lq_res_items Q) 1,
             lq_res_bytes := wrap_sub64 (lq_res_bytes Q) (p_size p)\<rparr>
      else Q)"

definition cancel :: "permit \<Rightarrow> 'a lease_queue \<Rightarrow> 'a lease_queue" where
  "cancel p Q = drop_permit p Q"

text \<open>\<open>ForeignPermit\<close> gives back the permit and the item.\<close>

definition commit_inner ::
  "nat \<Rightarrow> 'a \<Rightarrow> nat option \<Rightarrow> int \<Rightarrow> 'a queue_inner \<Rightarrow> nat \<times> 'a queue_inner" where
  "commit_inner sz item key ack_id q =
     (let seq = q_next_seq q
      in (seq,
          rekeyed key (link seq key)
            (q\<lparr>q_next_seq := seq + 1,
               q_entries := Mapping.update seq
                 \<lparr>e_item = item, e_key = key, e_ack_id = ack_id, e_size = sz, e_lease = None\<rparr>
                 (q_entries q),
               q_bytes := q_bytes q + sz\<rparr>)))"

definition commit ::
  "permit \<Rightarrow> 'a \<Rightarrow> nat option \<Rightarrow> int \<Rightarrow> 'a lease_queue \<Rightarrow>
     (permit \<times> 'a + nat) \<times> 'a lease_queue" where
  "commit p item key ack_id Q =
     (if p_reservations p \<noteq> lq_id Q then (Inl (p, item), Q)
      else
        (case commit_inner (p_size p) item key ack_id (lq_inner Q) of
           (seq, q) \<Rightarrow> (Inr seq, notify_waiters (drop_permit p (Q\<lparr>lq_inner := q\<rparr>)))))"

fun lease_loop ::
  "holder_id \<Rightarrow> instant option \<Rightarrow> nat list \<Rightarrow> 'a queue_inner \<Rightarrow>
     'a lease list \<times> 'a queue_inner" where
  "lease_loop holder deadline [] q = ([], q)"
| "lease_loop holder deadline (seq # seqs) q =
     (let q1 = start_lease seq holder deadline q;
          (ls, q2) = lease_loop holder deadline seqs q1
      in (case Mapping.lookup (q_entries q1) seq of
            None \<Rightarrow> (ls, q2)
          | Some e \<Rightarrow> (to_lease e seq # ls, q2)))"

definition candidates :: "'a queue_inner \<Rightarrow> nat set" where
  "candidates q =
     (case qc_ordering (q_cfg q) of Unordered \<Rightarrow> q_available q | PerKey \<Rightarrow> q_eligible q)"

definition lease_inner ::
  "holder_id \<Rightarrow> nat \<Rightarrow> instant \<Rightarrow> 'a queue_inner \<Rightarrow> 'a lease list \<times> 'a queue_inner" where
  "lease_inner holder max_items now q =
     (let picked = take max_items (sorted_list_of_set (candidates q)) in
      if picked = [] then ([], q)
      else
        (let deadline = inst_checked_add now (lease_timeout (q_cfg q));
             (ls, q') = lease_loop holder deadline picked q
         in (ls, q'\<lparr>q_leases :=
               Mapping.update holder
                 ((case Mapping.lookup (q_leases q') holder of None \<Rightarrow> {} | Some seqs \<Rightarrow> seqs)
                  \<union> set picked)
                 (q_leases q')\<rparr>)))"

definition lease ::
  "holder_id \<Rightarrow> nat \<Rightarrow> instant \<Rightarrow> 'a lease_queue \<Rightarrow> 'a lease list \<times> 'a lease_queue" where
  "lease holder max_items now Q =
     (case lease_inner holder max_items now (lq_inner Q) of (ls, q) \<Rightarrow> (ls, Q\<lparr>lq_inner := q\<rparr>))"

fun held_loop ::
  "int \<Rightarrow> instant option \<Rightarrow> nat list \<Rightarrow> 'a queue_inner \<Rightarrow> 'a lease list \<times> 'a queue_inner" where
  "held_loop min_ack_id deadline [] q = ([], q)"
| "held_loop min_ack_id deadline (seq # seqs) q =
     (case Mapping.lookup (q_entries q) seq of
        None \<Rightarrow> held_loop min_ack_id deadline seqs q
      | Some e \<Rightarrow>
          if e_ack_id e < min_ack_id then held_loop min_ack_id deadline seqs q
          else
            (let e' = (case e_lease e of
                         None \<Rightarrow> e
                       | Some hold \<Rightarrow> e\<lparr>e_lease := Some (hold\<lparr>h_deadline := deadline\<rparr>)\<rparr>);
                 (ls, q') = held_loop min_ack_id deadline seqs
                   (q\<lparr>q_entries := Mapping.update seq e' (q_entries q)\<rparr>)
             in (to_lease e' seq # ls, q')))"

definition held ::
  "holder_id \<Rightarrow> int \<Rightarrow> instant \<Rightarrow> 'a lease_queue \<Rightarrow> 'a lease list \<times> 'a lease_queue" where
  "held holder min_ack_id now Q =
     (case Mapping.lookup (q_leases (lq_inner Q)) holder of
        None \<Rightarrow> ([], Q)
      | Some seqs \<Rightarrow>
          (case held_loop min_ack_id (inst_checked_add now (lease_timeout (lq_cfg Q)))
                  (sorted_list_of_set seqs) (lq_inner Q) of
             (ls, q) \<Rightarrow> (ls, Q\<lparr>lq_inner := q\<rparr>)))"

text \<open>Removes the given items in order; the entries removed, and the state after.\<close>

fun remove_all :: "nat list \<Rightarrow> 'a queue_inner \<Rightarrow> 'a entry list \<times> 'a queue_inner" where
  "remove_all [] q = ([], q)"
| "remove_all (seq # seqs) q =
     (let (removed, q1) = remove_entry seq q;
          (es, q2) = remove_all seqs q1
      in (case removed of None \<Rightarrow> (es, q2) | Some e \<Rightarrow> (e # es, q2)))"

text \<open>
  \<open>ack_where\<close>: the number acked, the removed items in the order the callback gets them, and
  the queue after.
\<close>

definition ack_where ::
  "holder_id \<Rightarrow> ('a entry \<Rightarrow> bool) \<Rightarrow> 'a lease_queue \<Rightarrow> (nat \<times> 'a list) \<times> 'a lease_queue" where
  "ack_where holder pred Q =
     (case Mapping.lookup (q_leases (lq_inner Q)) holder of
        None \<Rightarrow> ((0, []), Q)
      | Some seqs \<Rightarrow>
          (let acked = filter (\<lambda>seq. case lq_entry Q seq of None \<Rightarrow> False | Some e \<Rightarrow> pred e)
                         (sorted_list_of_set seqs);
               (removed, q) = remove_all acked (lq_inner Q);
               freed_key = list_ex (\<lambda>e. e_key e \<noteq> None) removed;
               wake = (freed_key \<and> qc_ordering (q_cfg q) = PerKey);
               Q' = Q\<lparr>lq_inner := q\<rparr>
           in ((length acked, map e_item removed), if wake then notify_waiters Q' else Q')))"

definition ack_below_each ::
  "holder_id \<Rightarrow> int \<Rightarrow> 'a lease_queue \<Rightarrow> (nat \<times> 'a list) \<times> 'a lease_queue" where
  "ack_below_each holder ack_id Q = ack_where holder (\<lambda>e. e_ack_id e < ack_id) Q"

definition ack_all_each ::
  "holder_id \<Rightarrow> 'a lease_queue \<Rightarrow> (nat \<times> 'a list) \<times> 'a lease_queue" where
  "ack_all_each holder Q = ack_where holder (\<lambda>_. True) Q"

definition ack_seq :: "holder_id \<Rightarrow> nat \<Rightarrow> 'a lease_queue \<Rightarrow> bool \<times> 'a lease_queue" where
  "ack_seq holder seq Q =
     (if \<not> holds (lq_inner Q) holder seq then (False, Q)
      else
        (case remove_entry seq (lq_inner Q) of
           (removed, q) \<Rightarrow>
             (let wake = (qc_ordering (q_cfg q) = PerKey \<and>
                          (case removed of None \<Rightarrow> False | Some e \<Rightarrow> e_key e \<noteq> None));
                  Q' = Q\<lparr>lq_inner := q\<rparr>
              in (True, if wake then notify_waiters Q' else Q'))))"

definition release_seq :: "holder_id \<Rightarrow> nat \<Rightarrow> 'a lease_queue \<Rightarrow> bool \<times> 'a lease_queue" where
  "release_seq holder seq Q =
     (if \<not> holds (lq_inner Q) holder seq then (False, Q)
      else (True, notify_waiters (Q\<lparr>lq_inner := requeue seq (lq_inner Q)\<rparr>)))"

text \<open>
  The leases of every holder whose deadline has passed. The code visits the holders in the
  order of a \<open>HashMap\<close>; the model visits the items in seq order, and
  \<open>Lease_Queue_Inv\<close> shows that the order does not matter.
\<close>

definition expired_seqs :: "instant \<Rightarrow> 'a queue_inner \<Rightarrow> nat set" where
  "expired_seqs now q =
     Set.filter
       (\<lambda>seq. case Mapping.lookup (q_entries q) seq of
                None \<Rightarrow> False
              | Some e \<Rightarrow>
                  (case e_lease e of
                     None \<Rightarrow> False
                   | Some hold \<Rightarrow>
                       (case h_deadline hold of None \<Rightarrow> False | Some d \<Rightarrow> d \<le> now)))
       (\<Union>h \<in> Mapping.keys (q_leases q).
          case Mapping.lookup (q_leases q) h of None \<Rightarrow> {} | Some seqs \<Rightarrow> seqs)"

definition expire :: "instant \<Rightarrow> 'a lease_queue \<Rightarrow> nat \<times> 'a lease_queue" where
  "expire now Q =
     (let expired = sorted_list_of_set (expired_seqs now (lq_inner Q));
          Q' = Q\<lparr>lq_inner := fold requeue expired (lq_inner Q)\<rparr>
      in (length expired, if expired \<noteq> [] then notify_waiters Q' else Q'))"

definition stats :: "'a lease_queue \<Rightarrow> queue_stats" where
  "stats Q =
     \<lparr>st_available = card (q_available (lq_inner Q)), st_leased = leased_count (lq_inner Q),
      st_reserved = lq_res_items Q, st_bytes = q_bytes (lq_inner Q)\<rparr>"

text \<open>The loop of \<open>purge\<close> over the available items it took.\<close>

definition drop_entry :: "nat \<Rightarrow> 'a queue_inner \<Rightarrow> 'a queue_inner" where
  "drop_entry seq q =
     (case Mapping.lookup (q_entries q) seq of
        None \<Rightarrow> q
      | Some e \<Rightarrow> q\<lparr>q_entries := Mapping.delete seq (q_entries q),
                    q_bytes := q_bytes q - e_size e\<rparr>)"

definition purge :: "'a lease_queue \<Rightarrow> nat \<times> 'a lease_queue" where
  "purge Q =
     (let q = lq_inner Q;
          av = q_available q;
          q = q\<lparr>q_available := {}, q_eligible := {}, q_queued_per_key := Mapping.empty\<rparr>
      in (card av, Q\<lparr>lq_inner := fold drop_entry (sorted_list_of_set av) q\<rparr>))"

definition count_where :: "('a \<Rightarrow> bool) \<Rightarrow> 'a lease_queue \<Rightarrow> nat" where
  "count_where pred Q =
     length (filter (\<lambda>seq. case lq_entry Q seq of None \<Rightarrow> False | Some e \<Rightarrow> pred (e_item e))
       (Mapping.ordered_keys (q_entries (lq_inner Q))))"

definition purge_where :: "('a \<Rightarrow> bool) \<Rightarrow> 'a lease_queue \<Rightarrow> nat \<times> 'a lease_queue" where
  "purge_where pred Q =
     (let matched = filter
            (\<lambda>seq. case lq_entry Q seq of None \<Rightarrow> False | Some e \<Rightarrow> pred (e_item e))
            (sorted_list_of_set (q_available (lq_inner Q)))
      in (length matched, Q\<lparr>lq_inner := snd (remove_all matched (lq_inner Q))\<rparr>))"

definition drain_all :: "'a lease_queue \<Rightarrow> 'a list \<times> 'a lease_queue" where
  "drain_all Q =
     (let q = lq_inner Q
      in (List.map_filter (\<lambda>seq. map_option e_item (Mapping.lookup (q_entries q) seq))
            (Mapping.ordered_keys (q_entries q)),
          Q\<lparr>lq_inner := q\<lparr>q_available := {}, q_eligible := {},
              q_queued_per_key := Mapping.empty, q_leases := Mapping.empty,
              q_leased_per_key := Mapping.empty, q_bytes := 0, q_leased_bytes := 0,
              q_entries := Mapping.empty\<rparr>\<rparr>))"

definition set_config :: "queue_config \<Rightarrow> 'a lease_queue \<Rightarrow> 'a lease_queue" where
  "set_config cfg Q = notify_waiters (Q\<lparr>lq_inner := (lq_inner Q)\<lparr>q_cfg := cfg\<rparr>\<rparr>)"

end
