(* ===== verification/Lease_Queue_Inv.thy ===== *)
theory Lease_Queue_Inv
  imports Lease_Queue
begin

text \<open>
  The meaning of the lease queue's indexes in terms of its map of entries: which sequence
  numbers are unleased, queued or leased under a key, held by a holder or expiring when, and
  the invariant that the queue's own index sets, counters and candidate heads agree with it.
\<close>

section \<open>What the indexes mean\<close>

type_synonym 'a emap = "nat \<rightharpoonup> 'a entry"

definition unleased :: "'a emap \<Rightarrow> nat set" where
  "unleased E = {s. \<exists>e. E s = Some e \<and> e_lease e = None}"

definition queued_with :: "'a emap \<Rightarrow> nat \<Rightarrow> nat set" where
  "queued_with E k = {s. \<exists>e. E s = Some e \<and> e_lease e = None \<and> e_key e = Some k}"

definition leased_with :: "'a emap \<Rightarrow> nat \<Rightarrow> nat set" where
  "leased_with E k = {s. \<exists>e. E s = Some e \<and> e_lease e \<noteq> None \<and> e_key e = Some k}"

definition held_by :: "'a emap \<Rightarrow> holder_id \<Rightarrow> nat set" where
  "held_by E h = {s. \<exists>e hd. E s = Some e \<and> e_lease e = Some hd \<and> h_holder hd = h}"

definition keyless :: "'a emap \<Rightarrow> nat set" where
  "keyless E = {s. \<exists>e. E s = Some e \<and> e_lease e = None \<and> e_key e = None}"

definition first_of :: "'a emap \<Rightarrow> nat \<Rightarrow> nat option" where
  "first_of E k = (if leased_with E k \<noteq> {} then None else set_first (queued_with E k))"

definition elig :: "'a emap \<Rightarrow> nat set" where
  "elig E = keyless E \<union> {s. \<exists>k. first_of E k = Some s}"

definition leased_size :: "'a entry \<Rightarrow> nat" where
  "leased_size e = (if e_lease e = None then 0 else e_size e)"

lemmas emap_sets = unleased_def queued_with_def leased_with_def held_by_def keyless_def

definition positive :: "nat \<Rightarrow> nat option" where
  "positive n = (if n = 0 then None else Some n)"

text \<open>The indexes \<open>available\<close>, \<open>queued_per_key\<close> and \<open>leased_per_key\<close> describe \<open>E\<close>; with
  \<open>eligible\<close>, all four do.\<close>

definition idx3 :: "'a queue_inner \<Rightarrow> 'a emap \<Rightarrow> bool" where
  "idx3 q E \<longleftrightarrow>
     q_available q = unleased E \<and>
     (\<forall>k. Mapping.lookup (q_queued_per_key q) k = nonempty (queued_with E k)) \<and>
     (\<forall>k. Mapping.lookup (q_leased_per_key q) k = positive (card (leased_with E k)))"

definition idx :: "'a queue_inner \<Rightarrow> 'a emap \<Rightarrow> bool" where
  "idx q E \<longleftrightarrow> idx3 q E \<and> q_eligible q = elig E"

abbreviation emap_of :: "'a queue_inner \<Rightarrow> 'a emap" where
  "emap_of q \<equiv> Mapping.lookup (q_entries q)"

definition wf_core :: "'a queue_inner \<Rightarrow> bool" where
  "wf_core q \<longleftrightarrow>
     finite (dom (emap_of q)) \<and>
     idx q (emap_of q) \<and>
     q_bytes q = weight e_size (emap_of q) \<and>
     q_leased_bytes q = weight leased_size (emap_of q) \<and>
     (\<forall>s \<in> dom (emap_of q). s < q_next_seq q)"

definition wf_leases :: "'a queue_inner \<Rightarrow> bool" where
  "wf_leases q \<longleftrightarrow>
     (\<forall>h. Mapping.lookup (q_leases q) h = nonempty (held_by (emap_of q) h))"

definition wf_inner :: "'a queue_inner \<Rightarrow> bool" where
  "wf_inner q \<longleftrightarrow> wf_core q \<and> wf_leases q"

section \<open>Sets of the entry map under one update\<close>

lemma finite_emap_sets:
  assumes "finite (dom E)"
  shows "finite (unleased E)" "finite (queued_with E k)" "finite (leased_with E k)"
    "finite (held_by E h)" "finite (keyless E)"
  by (rule finite_subset [OF _ assms], auto simp: emap_sets)+

lemma unleased_upd: "unleased (E(s := x)) =
    (case x of Some e \<Rightarrow> if e_lease e = None then insert s (unleased E) else unleased E - {s}
             | None \<Rightarrow> unleased E - {s})"
  by (auto simp: unleased_def split: option.splits if_splits)

lemma queued_with_upd: "queued_with (E(s := x)) k =
    (case x of Some e \<Rightarrow> if e_lease e = None \<and> e_key e = Some k then insert s (queued_with E k)
                        else queued_with E k - {s}
             | None \<Rightarrow> queued_with E k - {s})"
  by (auto simp: queued_with_def split: option.splits if_splits)

lemma leased_with_upd: "leased_with (E(s := x)) k =
    (case x of Some e \<Rightarrow> if e_lease e \<noteq> None \<and> e_key e = Some k then insert s (leased_with E k)
                        else leased_with E k - {s}
             | None \<Rightarrow> leased_with E k - {s})"
  by (auto simp: leased_with_def split: option.splits if_splits)

lemma held_by_upd: "held_by (E(s := x)) h =
    (case x of Some e \<Rightarrow> if map_option h_holder (e_lease e) = Some h then insert s (held_by E h)
                        else held_by E h - {s}
             | None \<Rightarrow> held_by E h - {s})"
  by (auto simp: held_by_def split: option.splits if_splits)

lemma keyless_upd: "keyless (E(s := x)) =
    (case x of Some e \<Rightarrow> if e_lease e = None \<and> e_key e = None then insert s (keyless E)
                        else keyless E - {s}
             | None \<Rightarrow> keyless E - {s})"
  by (auto simp: keyless_def split: option.splits if_splits)

lemmas emap_upd = unleased_upd queued_with_upd leased_with_upd held_by_upd keyless_upd

text \<open>An update of an item of key \<open>k\<close> changes the eligible items of that key only.\<close>

definition has_key :: "'a emap \<Rightarrow> nat \<Rightarrow> nat option \<Rightarrow> bool" where
  "has_key E s key \<longleftrightarrow> (\<forall>e. E s = Some e \<longrightarrow> e_key e = key)"

lemma first_of_in: "finite (dom E) \<Longrightarrow> first_of E k = Some s \<Longrightarrow> s \<in> queued_with E k"
  using set_first_SomeD [of "queued_with E k" s] finite_emap_sets(2) [of E k]
  by (auto simp: first_of_def split: if_splits)

lemma queued_with_disjoint: "s \<in> queued_with E k \<Longrightarrow> s \<in> queued_with E k' \<Longrightarrow> k = k'"
  by (auto simp: queued_with_def)

lemma first_of_upd_other:
  assumes "has_key E s (Some k)" and "has_key (E(s := x)) s (Some k)" and "k' \<noteq> k"
  shows "first_of (E(s := x)) k' = first_of E k'"
proof -
  from assms have "queued_with (E(s := x)) k' = queued_with E k'"
    and "leased_with (E(s := x)) k' = leased_with E k'"
    by (auto simp: queued_with_def leased_with_def has_key_def)
  then show ?thesis by (simp add: first_of_def)
qed

lemma elig_upd_keyed:
  assumes fin: "finite (dom E)" and "has_key E s (Some k)" and "has_key (E(s := x)) s (Some k)"
  shows "elig (E(s := x)) =
    option_set_insert (first_of (E(s := x)) k) (option_set_remove (first_of E k) (elig E))"
proof -
  let ?E' = "E(s := x)"
  have keyl: "keyless ?E' = keyless E"
    using assms(2,3) by (auto simp: keyless_def has_key_def)
  have other: "\<And>k'. k' \<noteq> k \<Longrightarrow> first_of ?E' k' = first_of E k'"
    using first_of_upd_other assms(2,3) by blast
  have uniq: "first_of E k = Some t \<Longrightarrow> first_of E k' = Some t \<Longrightarrow> k' = k" for t k'
    using first_of_in [OF fin] queued_with_disjoint by metis
  have nokeyl: "first_of E k = Some t \<Longrightarrow> t \<notin> keyless E" for t
    using first_of_in [OF fin] by (fastforce simp: keyless_def queued_with_def)
  have split: "{t. \<exists>k'. first_of F k' = Some t} =
      {t. \<exists>k'. k' \<noteq> k \<and> first_of F k' = Some t} \<union> set_option (first_of F k)"
    for F :: "'a emap"
    by auto
  have "{t. \<exists>k'. first_of ?E' k' = Some t} =
      {t. \<exists>k'. k' \<noteq> k \<and> first_of E k' = Some t} \<union> set_option (first_of ?E' k)"
    by (simp add: split other cong: conj_cong)
  moreover have "{t. \<exists>k'. k' \<noteq> k \<and> first_of E k' = Some t} \<union> keyless E =
      option_set_remove (first_of E k) (elig E)"
  proof -
    have "(\<exists>k'. k' \<noteq> k \<and> first_of E k' = Some t) \<longleftrightarrow>
        (\<exists>k'. first_of E k' = Some t) \<and> first_of E k \<noteq> Some t" for t
      using uniq by metis
    then show ?thesis
      using nokeyl by (cases "first_of E k") (auto simp: option_set_remove_def elig_def)
  qed
  ultimately show ?thesis
    by (auto simp: elig_def keyl option_set_insert_def split: option.splits)
qed

lemma elig_upd_keyless:
  assumes "finite (dom E)" and "has_key E s None" and "has_key (E(s := x)) s None"
  shows "elig (E(s := x)) = (if s \<in> unleased (E(s := x)) then insert s (elig E) else elig E - {s})"
proof -
  have q: "queued_with (E(s := x)) k = queued_with E k" "s \<notin> queued_with E k"
    and l: "leased_with (E(s := x)) k = leased_with E k" for k
    using assms(2,3) by (auto simp: queued_with_def leased_with_def has_key_def)
  have "first_of (E(s := x)) k = first_of E k" for k
    by (simp add: first_of_def q l)
  moreover have "first_of E k \<noteq> Some s" for k
    using first_of_in [OF assms(1)] q(2) by blast
  ultimately show ?thesis
    using assms by (auto simp: elig_def keyless_upd unleased_upd has_key_def split: option.splits)
qed

section \<open>The index operations\<close>

lemma eligible_of_spec:
  assumes "idx3 q E" and "finite (dom E)"
  shows "eligible_of q k = first_of E k"
  using assms finite_emap_sets(3) [OF assms(2), of k]
  by (auto simp: eligible_of_def first_of_def idx3_def positive_def nonempty_def card_gt_0_iff
      split: option.splits if_splits)

lemma rekeyed_frame [simp]:
  "q_cfg (rekeyed key f q) = q_cfg (f q)"
  "q_entries (rekeyed key f q) = q_entries (f q)"
  "q_available (rekeyed key f q) = q_available (f q)"
  "q_queued_per_key (rekeyed key f q) = q_queued_per_key (f q)"
  "q_leases (rekeyed key f q) = q_leases (f q)"
  "q_leased_per_key (rekeyed key f q) = q_leased_per_key (f q)"
  "q_next_seq (rekeyed key f q) = q_next_seq (f q)"
  "q_bytes (rekeyed key f q) = q_bytes (f q)"
  "q_leased_bytes (rekeyed key f q) = q_leased_bytes (f q)"
  by (simp_all add: rekeyed_def Let_def split: option.splits)

lemma idx3_rekeyed [simp]: "idx3 (rekeyed key f q) E = idx3 (f q) E"
  by (simp add: idx3_def)

text \<open>
  The contract of \<open>rekeyed\<close>: a change of one item that keeps the three plain indexes right,
  and the keyless part of \<open>eligible\<close>, comes out with all four right.
\<close>

lemma rekeyed_idx:
  assumes "idx q E" and fin: "finite (dom E)" and f3: "idx3 (f q) (E(s := x))"
    and hk: "has_key E s key" "has_key (E(s := x)) s key"
    and "key \<noteq> None \<Longrightarrow> q_eligible (f q) = q_eligible q"
    and "key = None \<Longrightarrow> q_eligible (f q) =
           (if s \<in> unleased (E(s := x)) then insert s (q_eligible q) else q_eligible q - {s})"
  shows "idx (rekeyed key f q) (E(s := x))"
proof (cases key)
  case None
  then show ?thesis
    using assms elig_upd_keyless [of E s x] by (simp add: rekeyed_def idx_def)
next
  case (Some k)
  have q3: "idx3 q E" using assms(1) by (simp add: idx_def)
  have fin': "finite (dom (E(s := x)))" using fin by simp
  have "q_eligible (rekeyed key f q) = option_set_insert (first_of (E(s := x)) k)
      (option_set_remove (first_of E k) (elig E))"
  proof (cases "first_of E k = first_of (E(s := x)) k")
    case True
    have "first_of E k = Some t \<Longrightarrow> t \<in> elig E" for t
      by (auto simp: elig_def)
    then show ?thesis
      using Some True assms(1,6) eligible_of_spec [OF q3 fin] eligible_of_spec [OF f3 fin']
      by (auto simp: rekeyed_def idx_def option_set_insert_def option_set_remove_def
          split: option.splits)
  next
    case False
    then show ?thesis
      using Some assms(1,6) eligible_of_spec [OF q3 fin] eligible_of_spec [OF f3 fin']
      by (simp add: rekeyed_def idx_def)
  qed
  then show ?thesis
    using f3 elig_upd_keyed [OF fin] hk Some by (simp add: idx_def)
qed

lemma link_frame [simp]:
  "q_cfg (link s key q) = q_cfg q"
  "q_entries (link s key q) = q_entries q"
  "q_available (link s key q) = insert s (q_available q)"
  "q_leases (link s key q) = q_leases q"
  "q_leased_per_key (link s key q) = q_leased_per_key q"
  "q_next_seq (link s key q) = q_next_seq q"
  "q_bytes (link s key q) = q_bytes q"
  "q_leased_bytes (link s key q) = q_leased_bytes q"
  "q_eligible (link s key q) = (if key = None then insert s (q_eligible q) else q_eligible q)"
  by (simp_all add: link_def Let_def split: option.splits)

lemma link_queued: "Mapping.lookup (q_queued_per_key (link s key q)) k =
    (if key = Some k
     then Some (insert s (case Mapping.lookup (q_queued_per_key q) k of None \<Rightarrow> {} | Some S \<Rightarrow> S))
     else Mapping.lookup (q_queued_per_key q) k)"
  by (auto simp: link_def Let_def lookup_simps split: option.splits)

lemma unlink_frame [simp]:
  "q_cfg (unlink s key q) = q_cfg q"
  "q_entries (unlink s key q) = q_entries q"
  "q_available (unlink s key q) = q_available q - {s}"
  "q_leases (unlink s key q) = q_leases q"
  "q_leased_per_key (unlink s key q) = q_leased_per_key q"
  "q_next_seq (unlink s key q) = q_next_seq q"
  "q_bytes (unlink s key q) = q_bytes q"
  "q_leased_bytes (unlink s key q) = q_leased_bytes q"
  by (auto simp: unlink_def Let_def split: option.splits)

lemma unlink_absent: "s \<notin> q_available q \<Longrightarrow> unlink s key q = q"
  by (simp add: unlink_def)

lemma unlink_eligible: "q_eligible (unlink s key q) =
    (if key = None \<and> s \<in> q_available q then q_eligible q - {s} else q_eligible q)"
  by (auto simp: unlink_def Let_def split: option.splits)

lemma unlink_queued: "s \<in> q_available q \<Longrightarrow>
    Mapping.lookup (q_queued_per_key (unlink s key q)) k =
    (if key = Some k
     then (case Mapping.lookup (q_queued_per_key q) k of None \<Rightarrow> None | Some S \<Rightarrow> nonempty (S - {s}))
     else Mapping.lookup (q_queued_per_key q) k)"
  by (auto simp: unlink_def Let_def lookup_simps nonempty_def split: option.splits)

lemma uncount_key_spec: "Mapping.lookup (uncount_key key m) k =
    (if key = Some k
     then (case Mapping.lookup m k of None \<Rightarrow> None | Some n \<Rightarrow> positive (n - 1))
     else Mapping.lookup m k)"
  by (auto simp: uncount_key_def lookup_simps positive_def split: option.splits)

lemma unhold_spec: "Mapping.lookup (unhold h s m) h' =
    (if h = h'
     then (case Mapping.lookup m h of None \<Rightarrow> None | Some S \<Rightarrow> nonempty (S - {s}))
     else Mapping.lookup m h')"
  by (auto simp: unhold_def lookup_simps nonempty_def split: option.splits)

lemma wf_core_upd [simp]:
  "wf_core (q\<lparr>q_leases := x\<rparr>) = wf_core q"
  "wf_core (q\<lparr>q_cfg := c\<rparr>) = wf_core q"
  by (simp_all add: wf_core_def idx_def idx3_def)

lemma wf_coreD:
  assumes "wf_core q"
  shows "finite (dom (emap_of q))" "idx q (emap_of q)" "idx3 q (emap_of q)"
    "q_available q = unleased (emap_of q)" "q_eligible q = elig (emap_of q)"
    "q_bytes q = weight e_size (emap_of q)" "q_leased_bytes q = weight leased_size (emap_of q)"
    "\<And>s e. emap_of q s = Some e \<Longrightarrow> s < q_next_seq q"
  using assms by (auto simp: wf_core_def idx_def idx3_def)

lemma wf_innerD:
  assumes "wf_inner q"
  shows "wf_core q" "Mapping.lookup (q_leases q) h = nonempty (held_by (emap_of q) h)"
  using assms by (auto simp: wf_inner_def wf_leases_def)

lemma end_lease_frame [simp]:
  "q_cfg (end_lease s q) = q_cfg q"
  "q_available (end_lease s q) = q_available q"
  "q_eligible (end_lease s q) = q_eligible q"
  "q_queued_per_key (end_lease s q) = q_queued_per_key q"
  "q_next_seq (end_lease s q) = q_next_seq q"
  "q_bytes (end_lease s q) = q_bytes q"
  by (simp_all add: end_lease_def split: option.splits)

lemma clear_lease_id: "e_lease e = None \<Longrightarrow> e\<lparr>e_lease := None\<rparr> = e"
  by simp

lemma emap_end_lease: "emap_of q s = Some e \<Longrightarrow>
    emap_of (end_lease s q) = (emap_of q)(s \<mapsto> e\<lparr>e_lease := None\<rparr>)"
  by (cases "e_lease e") (auto simp: end_lease_def fun_eq_iff lookup_simps)

lemma end_lease_leased_per_key:
  assumes "wf_core q" and "emap_of q s = Some e"
  shows "Mapping.lookup (q_leased_per_key (end_lease s q)) k =
    positive (card (leased_with ((emap_of q)(s \<mapsto> e\<lparr>e_lease := None\<rparr>)) k))"
proof (cases "e_lease e")
  case None
  with assms show ?thesis
    using wf_coreD(3) [OF assms(1)] by (simp add: end_lease_def idx3_def fun_upd_idem)
next
  case (Some hold)
  let ?L = "leased_with (emap_of q) k"
  have fin: "finite ?L"
    using wf_coreD(1) [OF assms(1)] by (rule finite_emap_sets)
  have lk: "Mapping.lookup (q_leased_per_key q) k = positive (card ?L)"
    using wf_coreD(3) [OF assms(1)] by (simp add: idx3_def)
  have mem: "s \<in> ?L \<longleftrightarrow> e_key e = Some k"
    using assms(2) Some by (auto simp: leased_with_def)
  have "Mapping.lookup (q_leased_per_key (end_lease s q)) k =
      (if e_key e = Some k
       then (case positive (card ?L) of None \<Rightarrow> None | Some n \<Rightarrow> positive (n - 1))
       else positive (card ?L))"
    using assms(2) Some lk by (simp add: end_lease_def uncount_key_spec)
  also have "\<dots> = positive (card (?L - {s}))"
  proof (cases "e_key e = Some k")
    case True
    then have "card ?L \<noteq> 0" "card (?L - {s}) = card ?L - 1"
      using fin mem by (auto simp: card_Diff_singleton)
    then show ?thesis by (simp add: True positive_def)
  next
    case False
    then show ?thesis using mem by simp
  qed
  finally show ?thesis by (simp add: leased_with_upd)
qed

lemma end_lease_leases:
  assumes "wf_inner q" and "emap_of q s = Some e"
  shows "Mapping.lookup (q_leases (end_lease s q)) h =
    nonempty (held_by ((emap_of q)(s \<mapsto> e\<lparr>e_lease := None\<rparr>)) h)"
proof (cases "e_lease e")
  case None
  with assms show ?thesis
    by (simp add: end_lease_def wf_innerD(2) fun_upd_idem)
next
  case (Some hold)
  let ?H = "held_by (emap_of q) h"
  have mem: "s \<in> ?H \<longleftrightarrow> h_holder hold = h"
    using assms(2) Some by (auto simp: held_by_def)
  have "Mapping.lookup (q_leases (end_lease s q)) h = nonempty (?H - {s})"
    using assms(2) Some mem wf_innerD(2) [OF assms(1)]
    by (auto simp: end_lease_def unhold_spec nonempty_def)
  then show ?thesis by (simp add: held_by_upd)
qed

lemma end_lease_bytes:
  assumes "wf_core q" and "emap_of q s = Some e"
  shows "q_leased_bytes (end_lease s q) =
    weight leased_size ((emap_of q)(s \<mapsto> e\<lparr>e_lease := None\<rparr>))"
  using wf_coreD(1,7) [OF assms(1)] assms(2)
  by (cases "e_lease e") (simp_all add: end_lease_def weight_update leased_size_def fun_upd_idem)

lemma weight_size_lease [simp]:
  assumes "finite (dom E)" and "E s = Some e"
  shows "weight e_size (E(s \<mapsto> e\<lparr>e_lease := l\<rparr>)) = weight e_size E"
  using assms weight_ge [OF assms, of e_size] by (simp add: weight_update)

section \<open>The operations keep the invariant\<close>

text \<open>\<open>start_lease\<close>: the entry gets its lease; the caller records it in \<open>leases\<close>.\<close>

lemma count_lease_frame [simp]:
  "q_cfg (count_lease s key q) = q_cfg q"
  "q_entries (count_lease s key q) = q_entries q"
  "q_available (count_lease s key q) = q_available q - {s}"
  "q_queued_per_key (count_lease s key q) = q_queued_per_key (unlink s key q)"
  "q_eligible (count_lease s key q) = q_eligible (unlink s key q)"
  "q_leases (count_lease s key q) = q_leases q"
  "q_next_seq (count_lease s key q) = q_next_seq q"
  "q_bytes (count_lease s key q) = q_bytes q"
  "q_leased_bytes (count_lease s key q) = q_leased_bytes q"
  by (simp_all add: count_lease_def Let_def split: option.splits)

lemma count_lease_leased: "Mapping.lookup (q_leased_per_key (count_lease s key q)) k =
    (if key = Some k
     then Some ((case Mapping.lookup (q_leased_per_key q) k of None \<Rightarrow> 0 | Some n \<Rightarrow> n) + 1)
     else Mapping.lookup (q_leased_per_key q) k)"
  by (auto simp: count_lease_def Let_def lookup_simps split: option.splits)

lemma idx3_count_lease:
  assumes "idx3 q E" and "finite (dom E)" and "E s = Some e" and "e_lease e = None"
  shows "idx3 (count_lease s (e_key e) q) (E(s \<mapsto> e\<lparr>e_lease := Some hold\<rparr>))"
proof -
  have av: "s \<in> q_available q"
    using assms by (auto simp: idx3_def unleased_def)
  have "Mapping.lookup (q_queued_per_key (unlink s (e_key e) q)) k = nonempty (queued_with E k - {s})" for k
  proof -
    have "s \<in> queued_with E k \<longleftrightarrow> e_key e = Some k"
      using assms(3,4) by (auto simp: queued_with_def)
    then show ?thesis
      using assms(1) av by (auto simp: unlink_queued idx3_def nonempty_def)
  qed
  moreover have "Mapping.lookup (q_leased_per_key (count_lease s (e_key e) q)) k =
      positive (card (leased_with (E(s \<mapsto> e\<lparr>e_lease := Some hold\<rparr>)) k))" for k
  proof -
    have fin: "finite (leased_with E k)" using assms(2) by (rule finite_emap_sets)
    have "s \<notin> leased_with E k" using assms(3,4) by (auto simp: leased_with_def)
    with fin show ?thesis
      using assms(1) by (auto simp: count_lease_leased leased_with_upd idx3_def positive_def)
  qed
  ultimately show ?thesis
    using assms(1) by (auto simp: idx3_def unleased_upd queued_with_upd)
qed

lemma start_lease_core:
  assumes "wf_core q" and "emap_of q s = Some e" and "e_lease e = None"
  shows "wf_core (start_lease s h d q)"
    and "emap_of (start_lease s h d q) =
           (emap_of q)(s \<mapsto> e\<lparr>e_lease := Some \<lparr>h_holder = h, h_deadline = d\<rparr>\<rparr>)"
proof -
  let ?hold = "\<lparr>h_holder = h, h_deadline = d\<rparr>"
  let ?E = "emap_of q" and ?E' = "(emap_of q)(s \<mapsto> e\<lparr>e_lease := Some ?hold\<rparr>)"
  define q1 where "q1 = q\<lparr>q_entries := Mapping.update s (e\<lparr>e_lease := Some ?hold\<rparr>) (q_entries q),
               q_leased_bytes := q_leased_bytes q + e_size e\<rparr>"
  have st: "start_lease s h d q = rekeyed (e_key e) (count_lease s (e_key e)) q1"
    using assms(2) by (simp add: start_lease_def q1_def)
  have E': "emap_of q1 = ?E'"
    by (auto simp: q1_def fun_eq_iff lookup_simps)
  show "emap_of (start_lease s h d q) = ?E'"
    by (simp add: st E')
  note fin = wf_coreD(1) [OF assms(1)]
  have i: "idx q1 ?E"
    using wf_coreD(2) [OF assms(1)] by (simp add: q1_def idx_def idx3_def)
  have "s \<in> q_available q1"
    using wf_coreD(4) [OF assms(1)] assms(2,3) by (auto simp: q1_def unleased_def)
  then have "idx (rekeyed (e_key e) (count_lease s (e_key e)) q1) ?E'"
    using i fin assms(2,3) idx3_count_lease [of q1 ?E s e]
    by (intro rekeyed_idx) (auto simp: idx_def has_key_def unlink_eligible unleased_upd)
  moreover have "q_leased_bytes q1 = weight leased_size ?E'"
    using assms fin wf_coreD(7) [OF assms(1)]
    by (simp add: q1_def weight_update leased_size_def)
  moreover have "q_bytes q1 = weight e_size ?E'"
    using fin assms(2) wf_coreD(6) [OF assms(1)] by (simp add: q1_def)
  ultimately show "wf_core (start_lease s h d q)"
    using fin wf_coreD(8) [OF assms(1)] assms(2)
    by (auto simp: wf_core_def st E' q1_def split: if_splits)
qed

lemma start_lease_frame [simp]:
  "q_cfg (start_lease s h d q) = q_cfg q"
  "q_leases (start_lease s h d q) = q_leases q"
  "q_next_seq (start_lease s h d q) = q_next_seq q"
  "q_bytes (start_lease s h d q) = q_bytes q"
  by (simp_all add: start_lease_def split: option.splits)

text \<open>\<open>requeue\<close>: the entry loses its lease and keeps its place.\<close>

lemma elig_subset: "finite (dom E) \<Longrightarrow> elig E \<subseteq> unleased E"
  using first_of_in [of E] by (fastforce simp: elig_def keyless_def queued_with_def unleased_def)

lemma requeue_frame [simp]:
  "q_cfg (requeue s q) = q_cfg q"
  "q_next_seq (requeue s q) = q_next_seq q"
  "q_bytes (requeue s q) = q_bytes q"
  by (simp_all add: requeue_def split: option.splits)

lemma emap_requeue:
  "emap_of (requeue s q) = (case emap_of q s of
     None \<Rightarrow> emap_of q | Some e \<Rightarrow> (emap_of q)(s \<mapsto> e\<lparr>e_lease := None\<rparr>))"
  by (simp add: requeue_def emap_end_lease split: option.splits)

lemma requeue_wf:
  assumes wf: "wf_inner q"
  shows "wf_inner (requeue s q)"
proof (cases "emap_of q s")
  case None
  with wf show ?thesis by (simp add: requeue_def)
next
  case (Some e)
  let ?E = "emap_of q" and ?E' = "(emap_of q)(s \<mapsto> e\<lparr>e_lease := None\<rparr>)"
  note core = wf_innerD(1) [OF wf]
  note fin = wf_coreD(1) [OF core]
  have r: "requeue s q = rekeyed (e_key e) (\<lambda>q. link s (e_key e) (end_lease s q)) q"
    using Some by (simp add: requeue_def)
  have "idx3 (link s (e_key e) (end_lease s q)) ?E'"
    using wf_coreD(3) [OF core] Some end_lease_leased_per_key [OF core Some]
    by (auto simp: idx3_def link_queued unleased_upd queued_with_upd nonempty_def
        split: option.splits) (auto simp: queued_with_def split: if_splits)
  then have "idx (requeue s q) ?E'"
    unfolding r using wf_coreD(2) [OF core] fin Some
    by (intro rekeyed_idx) (auto simp: has_key_def unleased_upd)
  moreover have "emap_of (requeue s q) = ?E'"
    using Some by (simp add: emap_requeue)
  ultimately show ?thesis
    using fin Some wf_coreD(6,8) [OF core] end_lease_bytes [OF core Some]
      end_lease_leases [OF wf Some]
    by (auto simp: wf_inner_def wf_core_def wf_leases_def r)
qed

text \<open>\<open>remove\<close>: the entry is gone from every index.\<close>

lemma remove_entry_frame [simp]:
  "q_cfg (snd (remove_entry s q)) = q_cfg q"
  "q_next_seq (snd (remove_entry s q)) = q_next_seq q"
  by (simp_all add: remove_entry_def Let_def split: option.splits)

lemma emap_remove_entry: "emap_of (snd (remove_entry s q)) = (emap_of q)(s := None)"
  by (simp add: remove_entry_def Let_def emap_end_lease fun_upd_idem split: option.splits)

lemma fst_remove_entry:
  "fst (remove_entry s q) = map_option (\<lambda>e. e\<lparr>e_lease := None\<rparr>) (emap_of q s)"
  by (simp add: remove_entry_def Let_def split: option.splits)

lemma idx3_remove:
  assumes core: "wf_core q" and Some: "emap_of q s = Some e"
  shows "idx3 (unlink s (e_key e) (end_lease s q)) ((emap_of q)(s := None))"
proof -
  have av: "s \<in> q_available q \<longleftrightarrow> e_lease e = None"
    using wf_coreD(4) [OF core] Some by (auto simp: unleased_def)
  have mem: "s \<in> queued_with (emap_of q) k \<longleftrightarrow> e_lease e = None \<and> e_key e = Some k" for k
    using Some by (auto simp: queued_with_def)
  have "Mapping.lookup (q_queued_per_key (unlink s (e_key e) (end_lease s q))) k =
      nonempty (queued_with (emap_of q) k - {s})" for k
    using wf_coreD(3) [OF core] av mem
    by (cases "s \<in> q_available q") (auto simp: unlink_queued unlink_absent idx3_def nonempty_def)
  then show ?thesis
    using wf_coreD(3) [OF core] end_lease_leased_per_key [OF core Some]
    by (auto simp: idx3_def unleased_upd queued_with_upd leased_with_upd)
qed

lemma remove_entry_wf:
  assumes wf: "wf_inner q"
  shows "wf_inner (snd (remove_entry s q))"
proof (cases "emap_of q s")
  case None
  with wf show ?thesis by (simp add: remove_entry_def)
next
  case (Some e)
  let ?E' = "(emap_of q)(s := None)"
  let ?f = "\<lambda>q. let q1 = unlink s (e_key e) (end_lease s q)
                in q1\<lparr>q_entries := Mapping.delete s (q_entries q1)\<rparr>"
  note core = wf_innerD(1) [OF wf]
  note fin = wf_coreD(1) [OF core]
  let ?r = "rekeyed (e_key e) ?f q"
  have r: "snd (remove_entry s q) = ?r\<lparr>q_bytes := q_bytes ?r - e_size e\<rparr>"
    using Some by (simp add: remove_entry_def Let_def)
  have "s \<notin> q_available q \<Longrightarrow> s \<notin> q_eligible q"
    using elig_subset [OF fin] wf_coreD(4,5) [OF core] by auto
  moreover have "idx3 (?f q) ?E'"
    using idx3_remove [OF core Some] by (simp add: idx3_def Let_def)
  ultimately have "idx ?r ?E'"
    using wf_coreD(2) [OF core] fin Some
    by (intro rekeyed_idx) (auto simp: has_key_def unleased_upd unlink_eligible Let_def)
  moreover have "emap_of ?r = ?E'"
    using Some by (simp add: Let_def emap_end_lease)
  moreover have "weight leased_size ?E' = weight leased_size ((emap_of q)(s \<mapsto> e\<lparr>e_lease := None\<rparr>))"
    using fin Some by (simp add: weight_delete weight_update leased_size_def)
  moreover have "held_by ?E' h = held_by ((emap_of q)(s \<mapsto> e\<lparr>e_lease := None\<rparr>)) h" for h
    by (simp add: held_by_upd)
  ultimately show ?thesis
    using fin Some wf_coreD(6,8) [OF core] end_lease_bytes [OF core Some]
      end_lease_leases [OF wf Some]
    by (auto simp: wf_inner_def wf_core_def wf_leases_def r idx_def idx3_def weight_delete Let_def)
qed

text \<open>\<open>commit\<close>: a fresh entry, the newest of its key.\<close>

lemma commit_inner_wf:
  assumes wf: "wf_inner q"
  shows "wf_inner (snd (commit_inner sz item key ack q))"
    and "emap_of (snd (commit_inner sz item key ack q)) = (emap_of q)(q_next_seq q \<mapsto>
      \<lparr>e_item = item, e_key = key, e_ack_id = ack, e_size = sz, e_lease = None\<rparr>)"
    and "fst (commit_inner sz item key ack q) = q_next_seq q"
proof -
  let ?s = "q_next_seq q"
  let ?e = "\<lparr>e_item = item, e_key = key, e_ack_id = ack, e_size = sz, e_lease = None\<rparr>"
  let ?E = "emap_of q" and ?E' = "(emap_of q)(?s \<mapsto> ?e)"
  define q1 where "q1 = q\<lparr>q_next_seq := ?s + 1, q_entries := Mapping.update ?s ?e (q_entries q),
               q_bytes := q_bytes q + sz\<rparr>"
  have c: "commit_inner sz item key ack q = (?s, rekeyed key (link ?s key) q1)"
    by (simp add: commit_inner_def q1_def Let_def)
  show "fst (commit_inner sz item key ack q) = q_next_seq q" by (simp add: c)
  show E': "emap_of (snd (commit_inner sz item key ack q)) = ?E'" by (simp add: c q1_def)
  note core = wf_innerD(1) [OF wf]
  note fin = wf_coreD(1) [OF core]
  have fresh: "?E ?s = None"
    using wf_coreD(8) [OF core, of ?s] by (cases "?E ?s") auto
  then have "?s \<notin> leased_with ?E k" "?s \<notin> queued_with ?E k" for k
    by (auto simp: leased_with_def queued_with_def)
  then have "idx3 (link ?s key q1) ?E'"
    using wf_coreD(3) [OF core]
    by (auto simp: idx3_def q1_def link_queued unleased_upd queued_with_upd leased_with_upd
        nonempty_def split: option.splits)
  then have "idx (rekeyed key (link ?s key) q1) ?E'"
    using wf_coreD(2) [OF core] fin fresh
    by (intro rekeyed_idx) (auto simp: has_key_def unleased_upd q1_def idx_def idx3_def)
  moreover have "held_by ?E' h = held_by ?E h" for h
    using fresh by (auto simp: held_by_def)
  ultimately show "wf_inner (snd (commit_inner sz item key ack q))"
    using fin fresh wf_coreD(6,7,8) [OF core] wf_innerD(2) [OF wf]
    by (auto simp: wf_inner_def wf_core_def wf_leases_def c q1_def weight_insert leased_size_def
        less_Suc_eq)
qed

section \<open>What each operation does to the entries\<close>

definition lease_all :: "nat set \<Rightarrow> holding \<Rightarrow> 'a emap \<Rightarrow> 'a emap" where
  "lease_all S hold E = (\<lambda>s. if s \<in> S then map_option (\<lambda>e. e\<lparr>e_lease := Some hold\<rparr>) (E s) else E s)"

definition unlease_all :: "nat set \<Rightarrow> 'a emap \<Rightarrow> 'a emap" where
  "unlease_all S E = (\<lambda>s. if s \<in> S then map_option (\<lambda>e. e\<lparr>e_lease := None\<rparr>) (E s) else E s)"

definition drop_all :: "nat set \<Rightarrow> 'a emap \<Rightarrow> 'a emap" where
  "drop_all S E = (\<lambda>s. if s \<in> S then None else E s)"

lemma lease_all_empty [simp]: "lease_all {} hold E = E"
  by (simp add: lease_all_def)

lemma unlease_all_empty [simp]: "unlease_all {} E = E"
  by (simp add: unlease_all_def)

lemma drop_all_empty [simp]: "drop_all {} E = E"
  by (simp add: drop_all_def)

lemma dom_drop_all [simp]: "dom (drop_all S E) = dom E - S"
  by (auto simp: drop_all_def split: if_splits)

lemma unleased_drop_all [simp]: "unleased (drop_all S E) = unleased E - S"
  by (auto simp: drop_all_def unleased_def)

text \<open>Leasing.\<close>

lemma lease_loop_spec:
  assumes "wf_core q" and "distinct seqs" and "set seqs \<subseteq> unleased (emap_of q)"
  shows "wf_core (snd (lease_loop h d seqs q)) \<and>
    emap_of (snd (lease_loop h d seqs q)) =
      lease_all (set seqs) \<lparr>h_holder = h, h_deadline = d\<rparr> (emap_of q) \<and>
    fst (lease_loop h d seqs q) = map (\<lambda>s. to_lease (the (emap_of q s)) s) seqs \<and>
    q_leases (snd (lease_loop h d seqs q)) = q_leases q \<and>
    q_cfg (snd (lease_loop h d seqs q)) = q_cfg q \<and>
    q_next_seq (snd (lease_loop h d seqs q)) = q_next_seq q"
  using assms
proof (induction seqs arbitrary: q)
  case Nil
  then show ?case by simp
next
  case (Cons s seqs)
  let ?hold = "\<lparr>h_holder = h, h_deadline = d\<rparr>" and ?q1 = "start_lease s h d q"
  from Cons.prems(3) obtain e where e: "emap_of q s = Some e" "e_lease e = None"
    by (auto simp: unleased_def)
  note q1 = start_lease_core [OF Cons.prems(1) e, of h d]
  have "set seqs \<subseteq> unleased (emap_of ?q1)"
    using Cons.prems(2,3) by (auto simp: q1(2) unleased_upd)
  with Cons.IH [OF q1(1)] Cons.prems(2)
  have IH: "wf_core (snd (lease_loop h d seqs ?q1)) \<and>
    emap_of (snd (lease_loop h d seqs ?q1)) = lease_all (set seqs) ?hold (emap_of ?q1) \<and>
    fst (lease_loop h d seqs ?q1) = map (\<lambda>s. to_lease (the (emap_of ?q1 s)) s) seqs \<and>
    q_leases (snd (lease_loop h d seqs ?q1)) = q_leases q \<and>
    q_cfg (snd (lease_loop h d seqs ?q1)) = q_cfg q \<and>
    q_next_seq (snd (lease_loop h d seqs ?q1)) = q_next_seq q"
    by simp
  have "lease_all (set seqs) ?hold (emap_of ?q1) = lease_all (set (s # seqs)) ?hold (emap_of q)"
    using Cons.prems(2) e(1) by (auto simp: q1(2) lease_all_def)
  moreover have "map (\<lambda>t. to_lease (the (emap_of ?q1 t)) t) seqs =
      map (\<lambda>t. to_lease (the (emap_of q t)) t) seqs"
    using Cons.prems(2) by (auto simp: q1(2))
  moreover have "to_lease (e\<lparr>e_lease := Some ?hold\<rparr>) s = to_lease e s"
    by (simp add: to_lease_def)
  ultimately show ?case
    using IH e(1) q1(2) by (simp add: Let_def split_beta)
qed

definition picked :: "nat \<Rightarrow> 'a queue_inner \<Rightarrow> nat list" where
  "picked n q = take n (sorted_list_of_set (candidates q))"

lemma candidates_unleased: "wf_core q \<Longrightarrow> candidates q \<subseteq> unleased (emap_of q)"
  using elig_subset [of "emap_of q"] wf_coreD(1,4,5) [of q]
  by (cases "qc_ordering (q_cfg q)") (auto simp: candidates_def)

lemma finite_candidates: "wf_core q \<Longrightarrow> finite (candidates q)"
  using candidates_unleased finite_emap_sets(1) wf_coreD(1) finite_subset by metis

lemma picked_props:
  assumes "wf_core q"
  shows "distinct (picked n q)" "sorted (picked n q)" "set (picked n q) \<subseteq> unleased (emap_of q)"
    "set (picked n q) \<subseteq> candidates q"
  using candidates_unleased [OF assms] finite_candidates [OF assms] set_take_subset
  by (fastforce simp: picked_def sorted_wrt_take)+

lemma held_by_lease_all:
  assumes "S \<subseteq> unleased E"
  shows "held_by (lease_all S hold E) h =
    (if h = h_holder hold then held_by E h \<union> S else held_by E h)"
proof (rule set_eqI)
  fix s
  show "s \<in> held_by (lease_all S hold E) h \<longleftrightarrow>
      s \<in> (if h = h_holder hold then held_by E h \<union> S else held_by E h)"
  proof (cases "s \<in> S")
    case True
    with assms obtain e where "E s = Some e" "e_lease e = None"
      by (auto simp: unleased_def)
    with True show ?thesis by (auto simp: held_by_def lease_all_def)
  next
    case False
    then show ?thesis by (auto simp: held_by_def lease_all_def)
  qed
qed

lemma lease_inner_spec:
  assumes wf: "wf_inner q"
  shows "wf_inner (snd (lease_inner h n now q))"
    and "emap_of (snd (lease_inner h n now q)) =
      lease_all (set (picked n q))
        \<lparr>h_holder = h, h_deadline = inst_checked_add now (lease_timeout (q_cfg q))\<rparr> (emap_of q)"
    and "fst (lease_inner h n now q) = map (\<lambda>s. to_lease (the (emap_of q s)) s) (picked n q)"
    and "q_cfg (snd (lease_inner h n now q)) = q_cfg q"
    and "q_next_seq (snd (lease_inner h n now q)) = q_next_seq q"
proof -
  let ?d = "inst_checked_add now (lease_timeout (q_cfg q))" and ?S = "set (picked n q)"
  let ?q' = "snd (lease_loop h ?d (picked n q) q)"
  note core = wf_innerD(1) [OF wf]
  note sub = picked_props(3) [OF core, of n]
  note L = lease_loop_spec [OF core picked_props(1) [OF core] sub, of h ?d]
  have li: "lease_inner h n now q = (if picked n q = [] then ([], q)
      else (fst (lease_loop h ?d (picked n q) q),
        ?q'\<lparr>q_leases := Mapping.update h
          ((case Mapping.lookup (q_leases ?q') h of None \<Rightarrow> {} | Some S \<Rightarrow> S) \<union> ?S) (q_leases ?q')\<rparr>))"
    by (simp add: lease_inner_def Let_def picked_def split_beta)
  show "emap_of (snd (lease_inner h n now q)) =
      lease_all ?S \<lparr>h_holder = h, h_deadline = ?d\<rparr> (emap_of q)"
    and "fst (lease_inner h n now q) = map (\<lambda>s. to_lease (the (emap_of q s)) s) (picked n q)"
    and "q_cfg (snd (lease_inner h n now q)) = q_cfg q"
    and "q_next_seq (snd (lease_inner h n now q)) = q_next_seq q"
    using L by (auto simp: li)
  show "wf_inner (snd (lease_inner h n now q))"
  proof (cases "picked n q = []")
    case True
    with wf show ?thesis by (simp add: li)
  next
    case False
    have "(case nonempty (held_by (emap_of q) h) of None \<Rightarrow> {} | Some S \<Rightarrow> S) = held_by (emap_of q) h"
      by (simp add: nonempty_def)
    with False L wf_innerD(2) [OF wf] held_by_lease_all [OF sub]
    have "wf_leases (snd (lease_inner h n now q))"
      by (auto simp: li wf_leases_def nonempty_def)
    moreover have "wf_core (snd (lease_inner h n now q))"
      using L False by (simp add: li)
    ultimately show ?thesis by (simp add: wf_inner_def)
  qed
qed

text \<open>Renewing: only deadlines change.\<close>

definition same_shape :: "'a entry \<Rightarrow> 'a entry \<Rightarrow> bool" where
  "same_shape e e' \<longleftrightarrow> e_item e' = e_item e \<and> e_key e' = e_key e \<and> e_ack_id e' = e_ack_id e \<and>
     e_size e' = e_size e \<and> map_option h_holder (e_lease e') = map_option h_holder (e_lease e)"

lemma same_shape_sets:
  assumes "E s = Some e" and "same_shape e e'"
  shows "unleased (E(s \<mapsto> e')) = unleased E" "queued_with (E(s \<mapsto> e')) k = queued_with E k"
    "leased_with (E(s \<mapsto> e')) k = leased_with E k" "held_by (E(s \<mapsto> e')) h = held_by E h"
    "keyless (E(s \<mapsto> e')) = keyless E" "elig (E(s \<mapsto> e')) = elig E"
proof -
  have l: "e_lease e' = None \<longleftrightarrow> e_lease e = None"
    using assms(2) by (auto simp: same_shape_def)
  show u: "unleased (E(s \<mapsto> e')) = unleased E"
    using assms(1) l by (auto simp: unleased_def)
  show q: "queued_with (E(s \<mapsto> e')) k = queued_with E k" for k
    using assms l by (auto simp: queued_with_def same_shape_def)
  show lw: "leased_with (E(s \<mapsto> e')) k = leased_with E k" for k
    using assms l by (auto simp: leased_with_def same_shape_def)
  show "held_by (E(s \<mapsto> e')) h = held_by E h"
  proof -
    have "s \<in> held_by E h \<longleftrightarrow> map_option h_holder (e_lease e) = Some h"
      using assms(1) by (auto simp: held_by_def)
    with assms(2) show ?thesis by (auto simp: held_by_upd same_shape_def)
  qed
  show kl: "keyless (E(s \<mapsto> e')) = keyless E"
    using assms l by (auto simp: keyless_def same_shape_def)
  show "elig (E(s \<mapsto> e')) = elig E"
    by (simp add: elig_def kl first_of_def q lw)
qed

lemma same_shape_wf:
  assumes wf: "wf_inner q" and e: "emap_of q s = Some e" and shp: "same_shape e e'"
  shows "wf_inner (q\<lparr>q_entries := Mapping.update s e' (q_entries q)\<rparr>)"
proof -
  note core = wf_innerD(1) [OF wf]
  note fin = wf_coreD(1) [OF core]
  have "e_size e' = e_size e" "leased_size e' = leased_size e"
    using shp by (auto simp: same_shape_def leased_size_def)
  with weight_ge [OF fin e] weight_update [OF fin e]
  have "weight e_size ((emap_of q)(s \<mapsto> e')) = weight e_size (emap_of q)"
    "weight leased_size ((emap_of q)(s \<mapsto> e')) = weight leased_size (emap_of q)"
    by simp_all
  then show ?thesis
    using wf fin same_shape_sets [of "emap_of q" s e e', OF e shp] wf_coreD(8) [OF core e]
    by (simp add: wf_inner_def wf_core_def wf_leases_def idx_def idx3_def)
qed

definition renew :: "instant option \<Rightarrow> 'a entry \<Rightarrow> 'a entry" where
  "renew d e = e\<lparr>e_lease := map_option (\<lambda>hold. hold\<lparr>h_deadline := d\<rparr>) (e_lease e)\<rparr>"

lemma same_shape_renew: "same_shape e (renew d e)"
  by (simp add: same_shape_def renew_def option.map_comp comp_def)

lemma renew_alt: "(case e_lease e of None \<Rightarrow> e
    | Some hold \<Rightarrow> e\<lparr>e_lease := Some (hold\<lparr>h_deadline := d\<rparr>)\<rparr>) = renew d e"
  by (simp add: renew_def split: option.splits)

lemma to_lease_renew [simp]: "to_lease (renew d e) s = to_lease e s"
  by (simp add: to_lease_def renew_def)

definition renew_all :: "nat set \<Rightarrow> instant option \<Rightarrow> 'a emap \<Rightarrow> 'a emap" where
  "renew_all S d E = (\<lambda>s. if s \<in> S then map_option (renew d) (E s) else E s)"

lemma held_loop_spec:
  fixes m :: int and q :: "'a queue_inner"
  assumes "wf_inner q" and "distinct seqs" and "set seqs \<subseteq> dom (emap_of q)"
  defines "hits \<equiv> filter (\<lambda>s. m \<le> e_ack_id (the (emap_of q s))) seqs"
  shows "wf_inner (snd (held_loop m d seqs q)) \<and>
    emap_of (snd (held_loop m d seqs q)) = renew_all (set hits) d (emap_of q) \<and>
    fst (held_loop m d seqs q) = map (\<lambda>s. to_lease (the (emap_of q s)) s) hits \<and>
    q_cfg (snd (held_loop m d seqs q)) = q_cfg q \<and>
    q_next_seq (snd (held_loop m d seqs q)) = q_next_seq q"
  using assms(1-3) unfolding hits_def
proof (induction seqs arbitrary: q)
  case Nil
  then show ?case by (simp add: renew_all_def)
next
  case (Cons s seqs)
  from Cons.prems(3) obtain e where e: "emap_of q s = Some e" by auto
  show ?case
  proof (cases "e_ack_id e < m")
    case True
    with e Cons.IH [OF Cons.prems(1)] Cons.prems(2,3) show ?thesis by simp
  next
    case False
    let ?q1 = "q\<lparr>q_entries := Mapping.update s (renew d e) (q_entries q)\<rparr>"
    have wf1: "wf_inner ?q1"
      using same_shape_wf [OF Cons.prems(1) e same_shape_renew] .
    have fl: "filter (\<lambda>t. m \<le> e_ack_id (the (emap_of ?q1 t))) seqs =
        filter (\<lambda>t. m \<le> e_ack_id (the (emap_of q t))) seqs" (is "?f1 = ?f")
      using Cons.prems(2) by (intro filter_cong) auto
    have "set seqs \<subseteq> dom (emap_of ?q1)" using Cons.prems(3) by auto
    from Cons.IH [OF wf1 _ this, unfolded fl] Cons.prems(2)
    have IH: "wf_inner (snd (held_loop m d seqs ?q1))"
      "emap_of (snd (held_loop m d seqs ?q1)) = renew_all (set ?f) d (emap_of ?q1)"
      "fst (held_loop m d seqs ?q1) = map (\<lambda>t. to_lease (the (emap_of ?q1 t)) t) ?f"
      "q_cfg (snd (held_loop m d seqs ?q1)) = q_cfg q"
      "q_next_seq (snd (held_loop m d seqs ?q1)) = q_next_seq q"
      by (simp_all add: fun_upd_def)
    have "renew_all (set ?f) d (emap_of ?q1) = renew_all (insert s (set ?f)) d (emap_of q)"
      using Cons.prems(2) e by (auto simp: renew_all_def)
    moreover have "map (\<lambda>t. to_lease (the (emap_of ?q1 t)) t) ?f =
        map (\<lambda>t. to_lease (the (emap_of q t)) t) ?f"
      using Cons.prems(2) by auto
    ultimately have "emap_of (snd (held_loop m d seqs ?q1)) = renew_all (insert s (set ?f)) d (emap_of q)"
      "fst (held_loop m d seqs ?q1) = map (\<lambda>t. to_lease (the (emap_of q t)) t) ?f"
      using IH(2,3) by (simp_all only:)
    then show ?thesis
      using False e IH(1,4,5) by (simp add: renew_alt Let_def split_beta)
  qed
qed

text \<open>Removing and requeueing lists of items.\<close>

lemma remove_all_spec:
  assumes "wf_inner q" and "distinct seqs" and "set seqs \<subseteq> dom (emap_of q)"
  shows "wf_inner (snd (remove_all seqs q)) \<and>
    emap_of (snd (remove_all seqs q)) = drop_all (set seqs) (emap_of q) \<and>
    fst (remove_all seqs q) = map (\<lambda>s. (the (emap_of q s))\<lparr>e_lease := None\<rparr>) seqs \<and>
    q_cfg (snd (remove_all seqs q)) = q_cfg q \<and>
    q_next_seq (snd (remove_all seqs q)) = q_next_seq q"
  using assms
proof (induction seqs arbitrary: q)
  case Nil
  then show ?case by simp
next
  case (Cons s seqs)
  from Cons.prems(3) obtain e where e: "emap_of q s = Some e" by auto
  let ?q1 = "snd (remove_entry s q)"
  have "set seqs \<subseteq> dom (emap_of ?q1)"
    using Cons.prems(2,3) by (auto simp: emap_remove_entry)
  note IH = Cons.IH [OF remove_entry_wf [OF Cons.prems(1)] _ this]
  have "drop_all (set seqs) (emap_of ?q1) = drop_all (set (s # seqs)) (emap_of q)"
    by (auto simp: drop_all_def emap_remove_entry)
  moreover have "map (\<lambda>t. (the (emap_of ?q1 t))\<lparr>e_lease := None\<rparr>) seqs =
      map (\<lambda>t. (the (emap_of q t))\<lparr>e_lease := None\<rparr>) seqs"
    using Cons.prems(2) by (auto simp: emap_remove_entry)
  ultimately show ?case
    using IH Cons.prems(2) e
    by (simp add: Let_def split_beta fst_remove_entry)
qed

lemma fold_requeue_spec:
  assumes "wf_inner q"
  shows "wf_inner (fold requeue seqs q) \<and>
    emap_of (fold requeue seqs q) = unlease_all (set seqs) (emap_of q) \<and>
    q_cfg (fold requeue seqs q) = q_cfg q \<and>
    q_next_seq (fold requeue seqs q) = q_next_seq q"
  using assms
proof (induction seqs arbitrary: q)
  case Nil
  then show ?case by simp
next
  case (Cons s seqs)
  note IH = Cons.IH [OF requeue_wf [OF Cons.prems]]
  have "unlease_all (set seqs) (emap_of (requeue s q)) = unlease_all (set (s # seqs)) (emap_of q)"
    by (auto simp: unlease_all_def emap_requeue fun_eq_iff split: option.splits)
  with IH show ?case by simp
qed

end
