(* ===== verification/Lease_Queue_Ops.thy ===== *)
theory Lease_Queue_Ops
  imports Lease_Queue_Inv
begin

text \<open>
  The operations of \<open>LeaseQueue\<close> against their meaning on the entries alone: each one keeps
  the invariant of \<open>Lease_Queue_Inv\<close> and changes the entry map as an abstract operation
  does, the eviction loop of \<open>try_reserve\<close> included (it returns, and evicts the shortest
  prefix of the oldest unleased items that makes room).
\<close>

section \<open>Purging and draining\<close>

lemma drop_entry_frame [simp]:
  "q_cfg (drop_entry s q) = q_cfg q"
  "q_available (drop_entry s q) = q_available q"
  "q_eligible (drop_entry s q) = q_eligible q"
  "q_queued_per_key (drop_entry s q) = q_queued_per_key q"
  "q_leases (drop_entry s q) = q_leases q"
  "q_leased_per_key (drop_entry s q) = q_leased_per_key q"
  "q_next_seq (drop_entry s q) = q_next_seq q"
  "q_leased_bytes (drop_entry s q) = q_leased_bytes q"
  by (simp_all add: drop_entry_def split: option.splits)

lemma fold_drop_entry_frame [simp]:
  "q_cfg (fold drop_entry seqs q) = q_cfg q"
  "q_available (fold drop_entry seqs q) = q_available q"
  "q_eligible (fold drop_entry seqs q) = q_eligible q"
  "q_queued_per_key (fold drop_entry seqs q) = q_queued_per_key q"
  "q_leases (fold drop_entry seqs q) = q_leases q"
  "q_leased_per_key (fold drop_entry seqs q) = q_leased_per_key q"
  "q_next_seq (fold drop_entry seqs q) = q_next_seq q"
  "q_leased_bytes (fold drop_entry seqs q) = q_leased_bytes q"
  by (induction seqs arbitrary: q) simp_all

lemma emap_fold_drop_entry:
  "emap_of (fold drop_entry seqs q) = drop_all (set seqs) (emap_of q)"
proof (induction seqs arbitrary: q)
  case (Cons s seqs)
  have "emap_of (drop_entry s q) = drop_all {s} (emap_of q)"
    by (auto simp: drop_entry_def drop_all_def split: option.splits)
  with Cons.IH [of "drop_entry s q"] show ?case
    by (auto simp: drop_all_def fun_eq_iff)
qed simp

lemma bytes_fold_drop_entry:
  assumes "finite (dom (emap_of q))" and "q_bytes q = weight e_size (emap_of q)"
  shows "q_bytes (fold drop_entry seqs q) = weight e_size (drop_all (set seqs) (emap_of q))"
  using assms
proof (induction seqs arbitrary: q)
  case (Cons s seqs)
  have E1: "emap_of (drop_entry s q) = (emap_of q)(s := None)"
    by (auto simp: drop_entry_def fun_upd_idem split: option.splits)
  have "q_bytes (drop_entry s q) = weight e_size (emap_of (drop_entry s q))"
    using Cons.prems by (auto simp: drop_entry_def weight_delete split: option.splits)
  moreover have "finite (dom (emap_of (drop_entry s q)))"
    using Cons.prems(1) by (simp add: E1)
  ultimately have "q_bytes (fold drop_entry (s # seqs) q) =
      weight e_size (drop_all (set seqs) (emap_of (drop_entry s q)))"
    using Cons.IH by simp
  moreover have "drop_all (set seqs) (emap_of (drop_entry s q)) = drop_all (set (s # seqs)) (emap_of q)"
    by (auto simp: drop_all_def E1)
  ultimately show ?case by simp
qed simp

lemma weight_drop_all:
  assumes "finite (dom E)" and "\<And>s e. s \<in> S \<Longrightarrow> E s = Some e \<Longrightarrow> f e = 0"
  shows "weight f (drop_all S E) = weight f E"
proof -
  have "weight f (drop_all S E) = (\<Sum>s \<in> dom E - S. f (the (E s)))"
    unfolding weight_def dom_drop_all by (intro sum.cong) (auto simp: drop_all_def)
  also have "\<dots> = weight f E"
    unfolding weight_def using assms by (intro sum.mono_neutral_left) auto
  finally show ?thesis .
qed

lemma leased_sets_drop_all:
  assumes "S \<subseteq> unleased E"
  shows "leased_with (drop_all S E) k = leased_with E k" "held_by (drop_all S E) h = held_by E h"
  using assms by (auto simp: drop_all_def leased_with_def held_by_def unleased_def)

lemma no_unleased_sets:
  assumes "unleased E = {}"
  shows "queued_with E k = {}" "keyless E = {}" "elig E = {}"
proof -
  show q: "queued_with E k = {}" for k
    using assms by (auto simp: queued_with_def unleased_def)
  show "keyless E = {}"
    using assms by (auto simp: keyless_def unleased_def)
  then show "elig E = {}"
    by (simp add: elig_def first_of_def q)
qed

lemma purge_spec:
  assumes wf: "wf_inner (lq_inner Q)"
  shows "wf_inner (lq_inner (snd (purge Q)))"
    and "lq_entry (snd (purge Q)) = drop_all (unleased (lq_entry Q)) (lq_entry Q)"
    and "fst (purge Q) = card (unleased (lq_entry Q))"
    and "lq_cfg (snd (purge Q)) = lq_cfg Q"
    and "q_next_seq (lq_inner (snd (purge Q))) = q_next_seq (lq_inner Q)"
proof -
  let ?q = "lq_inner Q" and ?E = "lq_entry Q"
  let ?qc = "?q\<lparr>q_available := {}, q_eligible := {}, q_queued_per_key := Mapping.empty\<rparr>"
  let ?E' = "drop_all (unleased ?E) ?E"
  note core = wf_innerD(1) [OF wf]
  note fin = wf_coreD(1) [OF core]
  have av: "q_available ?q = unleased ?E" by (rule wf_coreD(4) [OF core])
  let ?q' = "fold drop_entry (sorted_list_of_set (unleased ?E)) ?qc"
  have p: "purge Q = (card (unleased ?E), Q\<lparr>lq_inner := ?q'\<rparr>)"
    by (simp only: purge_def Let_def av)
  have E': "emap_of ?q' = ?E'"
    using finite_emap_sets(1) [OF fin] by (simp add: emap_fold_drop_entry)
  show "lq_entry (snd (purge Q)) = ?E'" "fst (purge Q) = card (unleased ?E)"
    "lq_cfg (snd (purge Q)) = lq_cfg Q"
    "q_next_seq (lq_inner (snd (purge Q))) = q_next_seq (lq_inner Q)"
    by (simp_all add: p E')
  have nu: "unleased ?E' = {}" by simp
  have "q_bytes ?q' = weight e_size ?E'"
    using bytes_fold_drop_entry [of ?qc] fin wf_coreD(6) [OF core] finite_emap_sets(1) [OF fin]
    by simp
  moreover have "weight leased_size ?E' = weight leased_size ?E"
    using fin by (intro weight_drop_all) (auto simp: unleased_def leased_size_def)
  moreover have "idx ?q' ?E'"
    using wf_coreD(3) [OF core] no_unleased_sets [OF nu] leased_sets_drop_all [of _ ?E]
    by (simp add: idx_def idx3_def nu nonempty_def)
  ultimately show "wf_inner (lq_inner (snd (purge Q)))"
    using fin wf_coreD(7,8) [OF core] wf_innerD(2) [OF wf] leased_sets_drop_all [of _ ?E]
    by (auto simp: wf_inner_def wf_core_def wf_leases_def p E')
qed

lemma drain_all_spec:
  assumes wf: "wf_inner (lq_inner Q)"
  shows "wf_inner (lq_inner (snd (drain_all Q)))"
    and "lq_entry (snd (drain_all Q)) = Map.empty"
    and "fst (drain_all Q) =
      map (\<lambda>s. e_item (the (lq_entry Q s))) (sorted_list_of_set (dom (lq_entry Q)))"
proof -
  note fin = wf_coreD(1) [OF wf_innerD(1) [OF wf]]
  show "lq_entry (snd (drain_all Q)) = Map.empty"
    by (simp add: drain_all_def Let_def)
  have e: "unleased Map.empty = {}" "leased_with Map.empty k = {}" "held_by Map.empty h = {}" for k h
    by (auto simp: emap_sets)
  show "wf_inner (lq_inner (snd (drain_all Q)))"
    by (simp add: drain_all_def Let_def wf_inner_def wf_core_def wf_leases_def idx_def idx3_def e
        no_unleased_sets nonempty_def positive_def)
  have k: "Mapping.ordered_keys (q_entries (lq_inner Q)) = sorted_list_of_set (dom (lq_entry Q))"
    by (simp add: Mapping.ordered_keys_def keys_dom_lookup)
  have "List.map_filter (\<lambda>s. map_option e_item (E s)) xs = map (\<lambda>s. e_item (the (E s))) xs"
    if "set xs \<subseteq> dom E" for xs and E :: "'a emap"
    using that by (induction xs) (auto simp: List.map_filter_simps)
  then show "fst (drain_all Q) =
      map (\<lambda>s. e_item (the (lq_entry Q s))) (sorted_list_of_set (dom (lq_entry Q)))"
    using fin by (simp add: drain_all_def Let_def k)
qed

section \<open>Eviction\<close>

definition fits :: "queue_config \<Rightarrow> nat \<times> nat \<Rightarrow> nat \<Rightarrow> 'a emap \<Rightarrow> bool" where
  "fits cfg res sz E \<longleftrightarrow>
     sat_add64 (card (dom E)) (fst res) < capacity cfg \<and>
     sat_add64 (sat_add64 (weight e_size E) (snd res)) sz \<le> capacity_bytes cfg"

definition evict_oldest :: "nat \<Rightarrow> 'a emap \<Rightarrow> 'a emap" where
  "evict_oldest n E = drop_all (set (take n (sorted_list_of_set (unleased E)))) E"

lemma size_entries: "Mapping.size (q_entries q) = card (dom (emap_of q))"
  by (simp add: Mapping.size_def keys_dom_lookup)

lemma room_fits:
  assumes "wf_core q"
  shows "room q res (Mapping.size (q_entries q)) (q_bytes q) sz = Inr () \<longleftrightarrow>
    fits (q_cfg q) res sz (emap_of q)"
  using wf_coreD(6) [OF assms]
  by (cases res) (auto simp: room_def fits_def size_entries)

lemma room_Inr: "(room q res n b sz = Inr u) = (room q res n b sz = Inr ())"
  by simp

lemma leased_part:
  assumes "wf_core q"
  shows "leased_count q = card (dom (drop_all (unleased (emap_of q)) (emap_of q)))"
    and "q_leased_bytes q = weight e_size (drop_all (unleased (emap_of q)) (emap_of q))"
proof -
  let ?E = "emap_of q"
  note fin = wf_coreD(1) [OF assms]
  have sub: "unleased ?E \<subseteq> dom ?E" by (auto simp: unleased_def)
  show "leased_count q = card (dom (drop_all (unleased ?E) ?E))"
    using sub fin finite_subset [OF sub]
    by (simp add: leased_count_def size_entries wf_coreD(4) [OF assms] card_Diff_subset)
  have "weight leased_size ?E = weight leased_size (drop_all (unleased ?E) ?E)"
    using fin by (intro weight_drop_all [symmetric]) (auto simp: unleased_def leased_size_def)
  also have "\<dots> = weight e_size (drop_all (unleased ?E) ?E)"
    by (intro weight_cong) (auto simp: drop_all_def unleased_def leased_size_def split: if_splits)
  finally show "q_leased_bytes q = weight e_size (drop_all (unleased ?E) ?E)"
    by (simp add: wf_coreD(7) [OF assms])
qed

lemma evict_oldest_0 [simp]: "evict_oldest 0 E = E"
  by (simp add: evict_oldest_def)

lemma evict_oldest_Suc:
  assumes "finite (dom E)" and "unleased E \<noteq> {}"
  shows "evict_oldest (Suc n) E = evict_oldest n (E(Min (unleased E) := None))"
proof -
  have fin: "finite (unleased E)" by (rule finite_emap_sets(1) [OF assms(1)])
  have "unleased (E(Min (unleased E) := None)) = unleased E - {Min (unleased E)}"
    by (simp add: unleased_upd)
  then show ?thesis
    using sorted_list_of_set_nonempty [OF fin assms(2)]
    by (auto simp: evict_oldest_def drop_all_def fun_eq_iff)
qed

lemma evict_oldest_all:
  assumes "finite (dom E)" and "card (unleased E) \<le> n"
  shows "evict_oldest n E = drop_all (unleased E) E"
  using assms finite_emap_sets(1) [OF assms(1)]
  by (simp add: evict_oldest_def)

text \<open>
  The loop returns; it evicted the \<open>m\<close> oldest unleased items, no fewer would have made room,
  and it fails only with nothing left to evict.
\<close>

lemma evict_loop_spec:
  assumes "wf_inner q"
  shows "\<exists>m r q'. evict_loop res sz n q = Some (r, q') \<and> wf_inner q' \<and>
    q_cfg q' = q_cfg q \<and> q_next_seq q' = q_next_seq q \<and>
    emap_of q' = evict_oldest m (emap_of q) \<and> m \<le> card (unleased (emap_of q)) \<and>
    (\<forall>j < m. \<not> fits (q_cfg q) res sz (evict_oldest j (emap_of q))) \<and>
    (if fits (q_cfg q) res sz (evict_oldest m (emap_of q)) then r = Inr (n + m)
     else (\<exists>full. r = Inl full) \<and> unleased (emap_of q') = {})"
  using assms
proof (induction "card (unleased (emap_of q))" arbitrary: q n rule: less_induct)
  case less
  let ?E = "emap_of q"
  note core = wf_innerD(1) [OF less.prems]
  note fin = wf_coreD(1) [OF core]
  have finu: "finite (unleased ?E)" by (rule finite_emap_sets(1) [OF fin])
  show ?case
  proof (cases "room q res (Mapping.size (q_entries q)) (q_bytes q) sz")
    case (Inr u)
    then have "fits (q_cfg q) res sz ?E" using room_fits [OF core] by simp
    with Inr less.prems show ?thesis
      by (intro exI [of _ 0]) (simp add: evict_loop.simps [of res sz n q])
  next
    case (Inl full)
    then have nf: "\<not> fits (q_cfg q) res sz ?E"
      using room_fits [OF core, of res sz] by auto
    show ?thesis
    proof (cases "unleased ?E = {}")
      case True
      with Inl less.prems nf show ?thesis
        using wf_coreD(4) [OF core]
        by (intro exI [of _ 0]) (simp add: evict_loop.simps [of res sz n q])
    next
      case False
      let ?s = "Min (unleased ?E)"
      let ?q1 = "snd (remove_entry ?s q)"
      have E1: "emap_of ?q1 = ?E(?s := None)" by (rule emap_remove_entry)
      have u1: "unleased (emap_of ?q1) = unleased ?E - {?s}"
        by (simp add: E1 unleased_upd)
      have lt: "card (unleased (emap_of ?q1)) < card (unleased ?E)"
        unfolding u1 using False finu by (intro card_Diff1_less) simp_all
      have step: "evict_loop res sz n q = evict_loop res sz (n + 1) ?q1"
        using Inl False wf_coreD(4) [OF core]
        by (simp add: evict_loop.simps [of res sz n q] set_first_def)
      from less.hyps [OF lt remove_entry_wf [OF less.prems], of "n + 1"]
      obtain m r q' where IH: "evict_loop res sz (n + 1) ?q1 = Some (r, q')" "wf_inner q'"
        "q_cfg q' = q_cfg q" "q_next_seq q' = q_next_seq q"
        "emap_of q' = evict_oldest m (emap_of ?q1)" "m \<le> card (unleased (emap_of ?q1))"
        "\<forall>j < m. \<not> fits (q_cfg q) res sz (evict_oldest j (emap_of ?q1))"
        "if fits (q_cfg q) res sz (evict_oldest m (emap_of ?q1)) then r = Inr (n + 1 + m)
         else (\<exists>full. r = Inl full) \<and> unleased (emap_of q') = {}"
        by auto
      have sh: "evict_oldest (Suc j) ?E = evict_oldest j (emap_of ?q1)" for j
        using evict_oldest_Suc [OF fin False] by (simp add: E1)
      have "\<forall>j < Suc m. \<not> fits (q_cfg q) res sz (evict_oldest j ?E)"
        using IH(7) nf by (auto simp: less_Suc_eq_0_disj sh)
      with IH lt step show ?thesis
        by (intro exI [of _ "Suc m"] exI [of _ r] exI [of _ q']) (auto simp: sh)
    qed
  qed
qed

section \<open>Reserving\<close>

lemma room_not_too_large: "room q res n b sz \<noteq> Inl Full_TooLarge"
  by (cases res) (simp add: room_def)

lemma unleased_evict_oldest:
  "unleased (evict_oldest m E) = unleased E - set (take m (sorted_list_of_set (unleased E)))"
  by (simp add: evict_oldest_def)

lemma evict_oldest_exhausted:
  assumes "finite (dom E)" and "unleased (evict_oldest m E) = {}"
  shows "evict_oldest m E = drop_all (unleased E) E"
proof -
  have "set (take m (sorted_list_of_set (unleased E))) = unleased E"
    using assms set_take_subset [of m "sorted_list_of_set (unleased E)"]
      finite_emap_sets(1) [OF assms(1)]
    by (auto simp: unleased_evict_oldest)
  then show ?thesis by (simp add: evict_oldest_def)
qed

lemma evict_loop_not_too_large:
  assumes "wf_inner q"
  shows "evict_loop res sz n q \<noteq> Some (Inl Full_TooLarge, q')"
  using assms
proof (induction "card (unleased (emap_of q))" arbitrary: q n rule: less_induct)
  case less
  note core = wf_innerD(1) [OF less.prems]
  show ?case
  proof (cases "room q res (Mapping.size (q_entries q)) (q_bytes q) sz")
    case (Inl full)
    show ?thesis
    proof (cases "unleased (emap_of q) = {}")
      case True
      with Inl wf_coreD(4) [OF core] room_not_too_large [of q res] show ?thesis
        by (auto simp: evict_loop.simps [of res sz n q])
    next
      case False
      let ?q1 = "snd (remove_entry (Min (unleased (emap_of q))) q)"
      have "card (unleased (emap_of ?q1)) < card (unleased (emap_of q))"
        unfolding emap_remove_entry unleased_upd option.case
        using False finite_emap_sets(1) [OF wf_coreD(1) [OF core]]
        by (intro card_Diff1_less) simp_all
      from less.hyps [OF this remove_entry_wf [OF less.prems]] show ?thesis
        using Inl False wf_coreD(4) [OF core]
        by (simp add: evict_loop.simps [of res sz n q] set_first_def)
    qed
  qed (simp add: evict_loop.simps [of res sz n q])
qed

text \<open>
  What \<open>make_room\<close> does: it succeeds with the shortest eviction that makes room, or it leaves
  the queue as it was.
\<close>

definition makes_room ::
  "nat \<times> nat \<Rightarrow> nat \<Rightarrow> 'a queue_inner \<Rightarrow> full + nat \<Rightarrow> 'a queue_inner \<Rightarrow> bool" where
  "makes_room res sz q r q' \<longleftrightarrow>
     (case r of
        Inr m \<Rightarrow>
          wf_inner q' \<and> q_cfg q' = q_cfg q \<and> q_next_seq q' = q_next_seq q \<and>
          emap_of q' = evict_oldest m (emap_of q) \<and> m \<le> card (unleased (emap_of q)) \<and>
          fits (q_cfg q) res sz (emap_of q') \<and>
          (\<forall>j < m. \<not> fits (q_cfg q) res sz (evict_oldest j (emap_of q))) \<and>
          (0 < m \<longrightarrow> qc_on_full (q_cfg q) = DropOldest)
      | Inl _ \<Rightarrow>
          q' = q \<and> \<not> fits (q_cfg q) res sz (emap_of q) \<and>
          (qc_on_full (q_cfg q) = Backpressure \<or>
           \<not> fits (q_cfg q) res sz (drop_all (unleased (emap_of q)) (emap_of q))))"

lemma make_room_spec:
  assumes wf: "wf_inner q"
  shows "\<exists>r q'. make_room res sz q = Some (r, q') \<and> makes_room res sz q r q'"
proof (cases "room q res (Mapping.size (q_entries q)) (q_bytes q) sz")
  case (Inr u)
  then have "fits (q_cfg q) res sz (emap_of q)"
    using room_fits [OF wf_innerD(1) [OF wf]] by simp
  with Inr wf show ?thesis by (simp add: make_room_def makes_room_def)
next
  case (Inl full)
  note core = wf_innerD(1) [OF wf]
  let ?all = "drop_all (unleased (emap_of q)) (emap_of q)"
  have nf: "\<not> fits (q_cfg q) res sz (emap_of q)"
    using Inl room_fits [OF core, of res sz] by auto
  show ?thesis
  proof (cases "qc_on_full (q_cfg q) = Backpressure")
    case True
    with Inl nf show ?thesis by (simp add: make_room_def makes_room_def)
  next
    case False
    then have drop: "qc_on_full (q_cfg q) = DropOldest" by (cases "qc_on_full (q_cfg q)") auto
    have all: "room q res (leased_count q) (q_leased_bytes q) sz = Inr () \<longleftrightarrow>
        fits (q_cfg q) res sz ?all"
      using leased_part [OF core] by (cases res) (auto simp: room_def fits_def)
    show ?thesis
    proof (cases "room q res (leased_count q) (q_leased_bytes q) sz")
      case (Inl full')
      with \<open>room q res (Mapping.size (q_entries q)) (q_bytes q) sz = Inl full\<close> False nf all
      show ?thesis by (simp add: make_room_def makes_room_def)
    next
      case (Inr u)
      from evict_loop_spec [OF wf, of res sz 0, unfolded add_0] obtain m r q' where
        L: "evict_loop res sz 0 q = Some (r, q')" "wf_inner q'" "q_cfg q' = q_cfg q"
        "q_next_seq q' = q_next_seq q" "emap_of q' = evict_oldest m (emap_of q)"
        "m \<le> card (unleased (emap_of q))"
        "\<forall>j < m. \<not> fits (q_cfg q) res sz (evict_oldest j (emap_of q))"
        "if fits (q_cfg q) res sz (evict_oldest m (emap_of q)) then r = Inr m
         else (\<exists>full. r = Inl full) \<and> unleased (emap_of q') = {}"
        by blast
      have "fits (q_cfg q) res sz (evict_oldest m (emap_of q))"
      proof (rule ccontr)
        assume nfm: "\<not> fits (q_cfg q) res sz (evict_oldest m (emap_of q))"
        with L(5,8) have "unleased (evict_oldest m (emap_of q)) = {}" by auto
        from evict_oldest_exhausted [OF wf_coreD(1) [OF core] this] nfm Inr all
        show False by simp
      qed
      with L Inr Inl False drop show ?thesis
        by (simp add: make_room_def makes_room_def)
    qed
  qed
qed

lemma fits_bounds:
  assumes "fits cfg res sz E" and "capacity cfg \<le> U64_MAX" and "capacity_bytes cfg < U64_MAX"
  shows "card (dom E) + fst res + 1 \<le> capacity cfg"
    and "weight e_size E + snd res + sz \<le> capacity_bytes cfg"
  using assms by (auto simp: fits_def sat_add64_def min_def split: if_splits)

lemma try_reserve_returns:
  assumes "wf_inner (lq_inner Q)"
  shows "\<exists>r Q'. try_reserve sz Q = Some (r, Q')"
  using make_room_spec [OF assms, of "(lq_res_items Q, lq_res_bytes Q)" sz]
  by (auto simp: try_reserve_def split: sum.splits)

lemma try_reserve_Ok:
  assumes "wf_inner (lq_inner Q)" and "try_reserve sz Q = Some (Inr p, Q')"
  shows "makes_room (lq_res_items Q, lq_res_bytes Q) sz (lq_inner Q) (Inr (evicted p)) (lq_inner Q')"
    and "sz \<le> capacity_bytes (lq_cfg Q)" and "p_size p = sz" and "p_reservations p = lq_id Q"
    and "lq_res_items Q' = wrap_add64 (lq_res_items Q) 1"
    and "lq_res_bytes Q' = wrap_add64 (lq_res_bytes Q) sz"
    and "lq_id Q' = lq_id Q" and "lq_notify Q' = lq_notify Q"
  using make_room_spec [OF assms(1), of "(lq_res_items Q, lq_res_bytes Q)" sz] assms(2)
  by (auto simp: try_reserve_def split: if_splits option.splits sum.splits)

lemma try_reserve_Err:
  assumes "wf_inner (lq_inner Q)" and "try_reserve sz Q = Some (Inl full, Q')"
  shows "Q' = Q"
    and "full = Full_TooLarge \<longleftrightarrow> sz > capacity_bytes (lq_cfg Q)"
    and "full \<noteq> Full_TooLarge \<Longrightarrow>
      \<not> fits (lq_cfg Q) (lq_res_items Q, lq_res_bytes Q) sz (lq_entry Q) \<and>
      (qc_on_full (lq_cfg Q) = Backpressure \<or>
       \<not> fits (lq_cfg Q) (lq_res_items Q, lq_res_bytes Q) sz
            (drop_all (unleased (lq_entry Q)) (lq_entry Q)))"
proof -
  have mt: "makes_room (lq_res_items Q, lq_res_bytes Q) sz (lq_inner Q) (Inl f) q' \<Longrightarrow>
      Q\<lparr>lq_inner := q'\<rparr> = Q" for f q'
    by (simp add: makes_room_def)
  from make_room_spec [OF assms(1), of "(lq_res_items Q, lq_res_bytes Q)" sz] obtain r q' where
    M: "make_room (lq_res_items Q, lq_res_bytes Q) sz (lq_inner Q) = Some (r, q')"
    "makes_room (lq_res_items Q, lq_res_bytes Q) sz (lq_inner Q) r q'" by auto
  have ntm: "r \<noteq> Inl Full_TooLarge"
    using M(1) evict_loop_not_too_large [OF assms(1)]
    by (auto simp: make_room_def room_not_too_large split: sum.splits if_splits)
  show "Q' = Q" "full = Full_TooLarge \<longleftrightarrow> sz > capacity_bytes (lq_cfg Q)"
    using assms(2) M mt ntm by (auto simp: try_reserve_def split: if_splits sum.splits)
  show "\<not> fits (lq_cfg Q) (lq_res_items Q, lq_res_bytes Q) sz (lq_entry Q) \<and>
      (qc_on_full (lq_cfg Q) = Backpressure \<or>
       \<not> fits (lq_cfg Q) (lq_res_items Q, lq_res_bytes Q) sz
            (drop_all (unleased (lq_entry Q)) (lq_entry Q)))" if "full \<noteq> Full_TooLarge"
    using assms(2) M that by (auto simp: try_reserve_def makes_room_def split: if_splits sum.splits)
qed

end
