(* ===== verification/Lease_Queue_Holders.thy ===== *)
theory Lease_Queue_Holders
  imports Lease_Queue_Ops
begin

text \<open>
  What the operations a holder of leases calls do to the entries of a queue that satisfies the
  representation invariant: leasing, \<open>held\<close>, the acks, \<open>release_seq\<close>, \<open>expire\<close> and
  \<open>purge_where\<close>. Each keeps the invariant, and its effect is one of the set-wise updates
  \<open>renew_all\<close>, \<open>drop_all\<close> and \<open>unlease_all\<close> of the entry map.
\<close>

section \<open>The remaining operations on the entries\<close>

abbreviation wf_queue :: "'a lease_queue \<Rightarrow> bool" where
  "wf_queue Q \<equiv> wf_inner (lq_inner Q)"

lemma finite_entries: "wf_queue Q \<Longrightarrow> finite (dom (lq_entry Q))"
  by (rule wf_coreD(1)) (rule wf_innerD(1))

lemma lease_spec:
  assumes wf: "wf_queue Q"
  shows "wf_queue (snd (lease h n now Q))"
    and "lq_entry (snd (lease h n now Q)) =
      lease_all (set (picked n (lq_inner Q)))
        \<lparr>h_holder = h, h_deadline = inst_checked_add now (lease_timeout (lq_cfg Q))\<rparr> (lq_entry Q)"
    and "fst (lease h n now Q) =
      map (\<lambda>s. to_lease (the (lq_entry Q s)) s) (picked n (lq_inner Q))"
    and "lq_cfg (snd (lease h n now Q)) = lq_cfg Q"
    and "q_next_seq (lq_inner (snd (lease h n now Q))) = q_next_seq (lq_inner Q)"
  using lease_inner_spec [OF wf, of h n now] by (simp_all add: lease_def split_beta)

definition hits :: "holder_id \<Rightarrow> ('a entry \<Rightarrow> bool) \<Rightarrow> 'a emap \<Rightarrow> nat set" where
  "hits h pred E = {s. \<exists>e. E s = Some e \<and> s \<in> held_by E h \<and> pred e}"

lemma held_by_dom: "held_by E h \<subseteq> dom E"
  by (auto simp: held_by_def)

lemma finite_hits: "finite (dom E) \<Longrightarrow> finite (hits h pred E)"
  by (rule finite_subset [of _ "dom E"]) (auto simp: hits_def)

lemma filter_held:
  assumes "finite (dom E)"
  shows "filter (\<lambda>s. case E s of None \<Rightarrow> False | Some e \<Rightarrow> pred e) (sorted_list_of_set (held_by E h)) =
    sorted_list_of_set (hits h pred E)"
proof -
  let ?l = "filter (\<lambda>s. case E s of None \<Rightarrow> False | Some e \<Rightarrow> pred e) (sorted_list_of_set (held_by E h))"
  have "set ?l = hits h pred E"
    using finite_emap_sets(4) [OF assms, of h] by (auto simp: hits_def split: option.splits)
  moreover have "sorted ?l" "distinct ?l" by (simp_all add: sorted_wrt_filter)
  ultimately show ?thesis
    using finite_hits [OF assms, of h pred] sorted_distinct_set_unique
    by (metis distinct_sorted_list_of_set set_sorted_list_of_set sorted_sorted_list_of_set)
qed

lemma lookup_leases:
  assumes "wf_queue Q"
  shows "Mapping.lookup (q_leases (lq_inner Q)) h = nonempty (held_by (lq_entry Q) h)"
  using assms by (rule wf_innerD(2))

lemma holds_iff: "wf_queue Q \<Longrightarrow> holds (lq_inner Q) h s \<longleftrightarrow> s \<in> held_by (lq_entry Q) h"
  by (auto simp: holds_def lookup_leases nonempty_def)

lemma held_spec:
  fixes m :: int and h :: holder_id and Q :: "'a lease_queue"
  assumes wf: "wf_queue Q"
  defines "S \<equiv> hits h (\<lambda>e. m \<le> e_ack_id e) (lq_entry Q)"
  shows "wf_queue (snd (held h m now Q))"
    and "lq_entry (snd (held h m now Q)) =
      renew_all S (inst_checked_add now (lease_timeout (lq_cfg Q))) (lq_entry Q)"
    and "fst (held h m now Q) = map (\<lambda>s. to_lease (the (lq_entry Q s)) s) (sorted_list_of_set S)"
    and "lq_cfg (snd (held h m now Q)) = lq_cfg Q"
proof -
  let ?E = "lq_entry Q" and ?d = "inst_checked_add now (lease_timeout (lq_cfg Q))"
  let ?l = "sorted_list_of_set (held_by ?E h)"
  note fin = finite_entries [OF wf]
  have f: "filter (\<lambda>s. m \<le> e_ack_id (the (?E s))) ?l = sorted_list_of_set S"
    unfolding S_def filter_held [OF fin, symmetric]
    using finite_emap_sets(4) [OF fin, of h] held_by_dom [of ?E h]
    by (intro filter_cong) (auto split: option.splits)
  have set: "set ?l \<subseteq> dom ?E" "set (sorted_list_of_set S) = S"
    using finite_emap_sets(4) [OF fin, of h] held_by_dom [of ?E h] finite_hits [OF fin]
    by (auto simp: S_def)
  note L = held_loop_spec [OF wf distinct_sorted_list_of_set set(1), of m ?d, unfolded f set(2)]
  have e: "held_by ?E h = {} \<Longrightarrow> S = {}" by (auto simp: S_def hits_def)
  have h: "held h m now Q = (if held_by ?E h = {} then ([], Q)
      else (fst (held_loop m ?d ?l (lq_inner Q)), Q\<lparr>lq_inner := snd (held_loop m ?d ?l (lq_inner Q))\<rparr>))"
    by (simp add: held_def lookup_leases [OF wf] nonempty_def split_beta)
  show "wf_queue (snd (held h m now Q))" "lq_entry (snd (held h m now Q)) = renew_all S ?d ?E"
    "fst (held h m now Q) = map (\<lambda>s. to_lease (the (?E s)) s) (sorted_list_of_set S)"
    "lq_cfg (snd (held h m now Q)) = lq_cfg Q"
    using L wf e by (auto simp: h renew_all_def)
qed

lemma ack_where_spec:
  fixes h :: holder_id and pred :: "'a entry \<Rightarrow> bool" and Q :: "'a lease_queue"
  assumes wf: "wf_queue Q"
  defines "S \<equiv> hits h pred (lq_entry Q)"
  shows "wf_queue (snd (ack_where h pred Q))"
    and "lq_entry (snd (ack_where h pred Q)) = drop_all S (lq_entry Q)"
    and "fst (ack_where h pred Q) =
      (card S, map (\<lambda>s. e_item (the (lq_entry Q s))) (sorted_list_of_set S))"
    and "lq_cfg (snd (ack_where h pred Q)) = lq_cfg Q"
    and "lq_notify (snd (ack_where h pred Q)) = lq_notify Q +
      (if qc_ordering (lq_cfg Q) = PerKey \<and> (\<exists>s \<in> S. e_key (the (lq_entry Q s)) \<noteq> None) then 1 else 0)"
proof -
  let ?E = "lq_entry Q"
  note fin = finite_entries [OF wf]
  let ?l = "sorted_list_of_set S"
  have finS: "finite S" by (simp add: S_def finite_hits [OF fin])
  have set: "set ?l \<subseteq> dom ?E" "set ?l = S"
    using finS by (auto simp: S_def hits_def)
  note R = remove_all_spec [OF wf distinct_sorted_list_of_set set(1)]
  have e: "held_by ?E h = {} \<Longrightarrow> S = {}" by (auto simp: S_def hits_def)
  have freed: "list_ex (\<lambda>e. \<exists>k. e_key e = Some k) (map (\<lambda>s. the (?E s)\<lparr>e_lease := None\<rparr>) ?l) \<longleftrightarrow>
      (\<exists>s \<in> S. e_key (the (?E s)) \<noteq> None)"
    using finS by (simp add: list_ex_iff)
  have a: "ack_where h pred Q = (if held_by ?E h = {} then ((0, []), Q)
      else ((card S, map e_item (fst (remove_all ?l (lq_inner Q)))),
        let Q' = Q\<lparr>lq_inner := snd (remove_all ?l (lq_inner Q))\<rparr> in
        if (\<exists>s \<in> S. e_key (the (?E s)) \<noteq> None) \<and> qc_ordering (lq_cfg Q) = PerKey
        then notify_waiters Q' else Q'))"
    using R finS
    by (simp add: ack_where_def lookup_leases [OF wf] nonempty_def split_beta Let_def
        filter_held [OF fin] S_def [symmetric] freed)
  show "wf_queue (snd (ack_where h pred Q))"
    "lq_entry (snd (ack_where h pred Q)) = drop_all S ?E"
    "fst (ack_where h pred Q) = (card S, map (\<lambda>s. e_item (the (?E s))) (sorted_list_of_set S))"
    "lq_cfg (snd (ack_where h pred Q)) = lq_cfg Q"
    "lq_notify (snd (ack_where h pred Q)) = lq_notify Q +
      (if qc_ordering (lq_cfg Q) = PerKey \<and> (\<exists>s \<in> S. e_key (the (?E s)) \<noteq> None) then 1 else 0)"
    using R wf e set(2) by (auto simp: a notify_waiters_def Let_def comp_def)
qed

lemma ack_seq_spec:
  assumes wf: "wf_queue Q"
  shows "wf_queue (snd (ack_seq h s Q))"
    and "fst (ack_seq h s Q) \<longleftrightarrow> s \<in> held_by (lq_entry Q) h"
    and "lq_entry (snd (ack_seq h s Q)) =
      drop_all (if s \<in> held_by (lq_entry Q) h then {s} else {}) (lq_entry Q)"
    and "lq_cfg (snd (ack_seq h s Q)) = lq_cfg Q"
    and "lq_notify (snd (ack_seq h s Q)) = lq_notify Q +
      (if qc_ordering (lq_cfg Q) = PerKey \<and> s \<in> held_by (lq_entry Q) h \<and>
          e_key (the (lq_entry Q s)) \<noteq> None then 1 else 0)"
proof -
  have a: "ack_seq h s Q = (if s \<notin> held_by (lq_entry Q) h then (False, Q)
      else (True, let Q' = Q\<lparr>lq_inner := snd (remove_entry s (lq_inner Q))\<rparr> in
        if qc_ordering (lq_cfg Q) = PerKey \<and> e_key (the (lq_entry Q s)) \<noteq> None
        then notify_waiters Q' else Q'))"
    using held_by_dom [of "lq_entry Q" h]
    by (auto simp: ack_seq_def holds_iff [OF wf] split_beta Let_def fst_remove_entry
        split: option.splits)
  show "wf_queue (snd (ack_seq h s Q))" "fst (ack_seq h s Q) \<longleftrightarrow> s \<in> held_by (lq_entry Q) h"
    "lq_entry (snd (ack_seq h s Q)) =
      drop_all (if s \<in> held_by (lq_entry Q) h then {s} else {}) (lq_entry Q)"
    "lq_cfg (snd (ack_seq h s Q)) = lq_cfg Q"
    "lq_notify (snd (ack_seq h s Q)) = lq_notify Q +
      (if qc_ordering (lq_cfg Q) = PerKey \<and> s \<in> held_by (lq_entry Q) h \<and>
          e_key (the (lq_entry Q s)) \<noteq> None then 1 else 0)"
    using wf remove_entry_wf [OF wf]
    by (auto simp: a Let_def notify_waiters_def emap_remove_entry drop_all_def)
qed

lemma release_seq_spec:
  assumes wf: "wf_queue Q"
  shows "wf_queue (snd (release_seq h s Q))"
    and "fst (release_seq h s Q) \<longleftrightarrow> s \<in> held_by (lq_entry Q) h"
    and "lq_entry (snd (release_seq h s Q)) =
      unlease_all (if s \<in> held_by (lq_entry Q) h then {s} else {}) (lq_entry Q)"
    and "lq_cfg (snd (release_seq h s Q)) = lq_cfg Q"
    and "lq_notify (snd (release_seq h s Q)) =
      lq_notify Q + (if s \<in> held_by (lq_entry Q) h then 1 else 0)"
  using wf requeue_wf [OF wf] held_by_dom [of "lq_entry Q" h]
  by (auto simp: release_seq_def holds_iff notify_waiters_def emap_requeue unlease_all_def
      split: option.splits)

definition expired :: "instant \<Rightarrow> 'a emap \<Rightarrow> nat set" where
  "expired now E = {s. \<exists>e hold d. E s = Some e \<and> e_lease e = Some hold \<and>
     h_deadline hold = Some d \<and> d \<le> now}"

lemma expired_seqs_eq:
  assumes "wf_queue Q"
  shows "expired_seqs now (lq_inner Q) = expired now (lq_entry Q)"
proof -
  have "(\<Union>h \<in> Mapping.keys (q_leases (lq_inner Q)).
      case Mapping.lookup (q_leases (lq_inner Q)) h of None \<Rightarrow> {} | Some seqs \<Rightarrow> seqs) =
      {s. \<exists>h. s \<in> held_by (lq_entry Q) h}"
    by (auto simp: keys_dom_lookup lookup_leases [OF assms] nonempty_def dom_def split: if_splits)
  then show ?thesis
    by (fastforce simp: expired_seqs_def expired_def held_by_def split: option.splits)
qed

lemma finite_expired: "finite (dom E) \<Longrightarrow> finite (expired now E)"
  by (rule finite_subset [of _ "dom E"]) (auto simp: expired_def)

lemma expire_spec:
  assumes wf: "wf_queue Q"
  shows "wf_queue (snd (expire now Q))"
    and "fst (expire now Q) = card (expired now (lq_entry Q))"
    and "lq_entry (snd (expire now Q)) = unlease_all (expired now (lq_entry Q)) (lq_entry Q)"
    and "lq_cfg (snd (expire now Q)) = lq_cfg Q"
    and "lq_notify (snd (expire now Q)) =
      lq_notify Q + (if expired now (lq_entry Q) = {} then 0 else 1)"
  using wf fold_requeue_spec [OF wf] finite_expired [OF finite_entries [OF wf], of now]
  by (auto simp: expire_def expired_seqs_eq [OF wf] Let_def notify_waiters_def)

lemma purge_where_spec:
  fixes pred :: "'a \<Rightarrow> bool" and Q :: "'a lease_queue"
  assumes wf: "wf_queue Q"
  defines "S \<equiv> {s \<in> unleased (lq_entry Q). pred (e_item (the (lq_entry Q s)))}"
  shows "wf_queue (snd (purge_where pred Q))"
    and "fst (purge_where pred Q) = card S"
    and "lq_entry (snd (purge_where pred Q)) = drop_all S (lq_entry Q)"
    and "lq_cfg (snd (purge_where pred Q)) = lq_cfg Q"
proof -
  let ?E = "lq_entry Q"
  let ?l = "filter (\<lambda>s. case ?E s of None \<Rightarrow> False | Some e \<Rightarrow> pred (e_item e))
      (sorted_list_of_set (unleased ?E))"
  have av: "q_available (lq_inner Q) = unleased ?E"
    by (rule wf_coreD(4) [OF wf_innerD(1) [OF wf]])
  have set: "set ?l = S"
    using finite_emap_sets(1) [OF finite_entries [OF wf]]
    by (auto simp: S_def unleased_def split: option.splits)
  then have sub: "set ?l \<subseteq> dom ?E" by (auto simp: S_def unleased_def)
  have dist: "distinct ?l" by simp
  note R = remove_all_spec [OF wf dist sub]
  have p: "purge_where pred Q = (length ?l, Q\<lparr>lq_inner := snd (remove_all ?l (lq_inner Q))\<rparr>)"
    by (simp add: purge_where_def Let_def av)
  show "wf_queue (snd (purge_where pred Q))" "fst (purge_where pred Q) = card S"
    "lq_entry (snd (purge_where pred Q)) = drop_all S ?E"
    "lq_cfg (snd (purge_where pred Q)) = lq_cfg Q"
    using R set distinct_card [OF dist] by (simp_all add: p)
qed

end
