(* ===== verification/Lease_Queue_System.thy ===== *)
theory Lease_Queue_System
  imports Lease_Queue_Holders
begin

text \<open>
  The lease queue as a state machine: a queue, the permits outstanding, and one step per
  operation a producer, a holder or an operator can make. \<open>queue_reach ok\<close> is what can be
  reached when every configuration put in place satisfies \<open>ok\<close>.
\<close>

section \<open>Steps\<close>

datatype 'a qop =
    Reserve nat
  | Commit permit 'a "nat option" int
  | Cancel permit
  | Lease holder_id nat instant
  | Held holder_id int instant
  | AckBelow holder_id int
  | AckAll holder_id
  | AckSeq holder_id nat
  | ReleaseSeq holder_id nat
  | Expire instant
  | Purge
  | PurgeWhere "'a \<Rightarrow> bool"
  | DrainAll
  | SetConfig queue_config

type_synonym 'a queue_state = "'a lease_queue \<times> permit list"

inductive queue_step :: "'a qop \<Rightarrow> 'a queue_state \<Rightarrow> 'a queue_state \<Rightarrow> bool" where
  reserve_ok: "try_reserve sz Q = Some (Inr p, Q') \<Longrightarrow> queue_step (Reserve sz) (Q, ps) (Q', p # ps)"
| reserve_full: "try_reserve sz Q = Some (Inl full, Q') \<Longrightarrow> queue_step (Reserve sz) (Q, ps) (Q', ps)"
| commit_ok: "p \<in> set ps \<Longrightarrow>
    queue_step (Commit p item key ack) (Q, ps) (snd (commit p item key ack Q), remove1 p ps)"
| commit_foreign: "p_reservations p \<noteq> lq_id Q \<Longrightarrow>
    queue_step (Commit p item key ack) (Q, ps) (snd (commit p item key ack Q), ps)"
| cancel_ok: "p \<in> set ps \<Longrightarrow> queue_step (Cancel p) (Q, ps) (cancel p Q, remove1 p ps)"
| cancel_foreign: "p_reservations p \<noteq> lq_id Q \<Longrightarrow> queue_step (Cancel p) (Q, ps) (cancel p Q, ps)"
| lease_step: "queue_step (Lease h n now) (Q, ps) (snd (lease h n now Q), ps)"
| held_step: "queue_step (Held h m now) (Q, ps) (snd (held h m now Q), ps)"
| ack_below_step: "queue_step (AckBelow h a) (Q, ps) (snd (ack_below_each h a Q), ps)"
| ack_all_step: "queue_step (AckAll h) (Q, ps) (snd (ack_all_each h Q), ps)"
| ack_seq_step: "queue_step (AckSeq h s) (Q, ps) (snd (ack_seq h s Q), ps)"
| release_step: "queue_step (ReleaseSeq h s) (Q, ps) (snd (release_seq h s Q), ps)"
| expire_step: "queue_step (Expire now) (Q, ps) (snd (expire now Q), ps)"
| purge_step: "queue_step Purge (Q, ps) (snd (purge Q), ps)"
| purge_where_step: "queue_step (PurgeWhere pred) (Q, ps) (snd (purge_where pred Q), ps)"
| drain_step: "queue_step DrainAll (Q, ps) (snd (drain_all Q), ps)"
| config_step: "queue_step (SetConfig cfg) (Q, ps) (set_config cfg Q, ps)"

inductive_cases queue_stepE: "queue_step op (Q, ps) (Q', ps')"

definition op_ok :: "(queue_config \<Rightarrow> bool) \<Rightarrow> 'a qop \<Rightarrow> bool" where
  "op_ok ok op = (case op of SetConfig cfg \<Rightarrow> ok cfg | _ \<Rightarrow> True)"

inductive queue_reach :: "(queue_config \<Rightarrow> bool) \<Rightarrow> 'a queue_state \<Rightarrow> bool"
  for ok :: "queue_config \<Rightarrow> bool" where
  reach_new: "ok cfg \<Longrightarrow> queue_reach ok (new_queue qid cfg, [])"
| reach_step: "queue_reach ok st \<Longrightarrow> op_ok ok op \<Longrightarrow> queue_step op st st' \<Longrightarrow> queue_reach ok st'"

section \<open>What no operation of a holder or an operator touches\<close>

lemma res_frame [simp]:
  "lq_res_items (notify_waiters Q) = lq_res_items Q" "lq_res_bytes (notify_waiters Q) = lq_res_bytes Q"
  "lq_id (notify_waiters Q) = lq_id Q" "lq_inner (notify_waiters Q) = lq_inner Q"
  "lq_notify (notify_waiters Q) = Suc (lq_notify Q)"
  by (simp_all add: notify_waiters_def)

lemma res_frame_ops [simp]:
  "lq_res_items (snd (lease h n now Q)) = lq_res_items Q"
  "lq_res_items (snd (held h m now Q)) = lq_res_items Q"
  "lq_res_items (snd (ack_where h pred Q)) = lq_res_items Q"
  "lq_res_items (snd (ack_seq h s Q)) = lq_res_items Q"
  "lq_res_items (snd (release_seq h s Q)) = lq_res_items Q"
  "lq_res_items (snd (expire now Q)) = lq_res_items Q"
  "lq_res_items (snd (purge Q)) = lq_res_items Q"
  "lq_res_items (snd (purge_where prd Q)) = lq_res_items Q"
  "lq_res_items (snd (drain_all Q)) = lq_res_items Q"
  "lq_res_items (set_config cfg Q) = lq_res_items Q"
  by (simp_all add: lease_def held_def ack_where_def ack_seq_def release_seq_def expire_def
      purge_def purge_where_def drain_all_def set_config_def Let_def split_beta split: option.splits)

lemma res_bytes_frame_ops [simp]:
  "lq_res_bytes (snd (lease h n now Q)) = lq_res_bytes Q"
  "lq_res_bytes (snd (held h m now Q)) = lq_res_bytes Q"
  "lq_res_bytes (snd (ack_where h pred Q)) = lq_res_bytes Q"
  "lq_res_bytes (snd (ack_seq h s Q)) = lq_res_bytes Q"
  "lq_res_bytes (snd (release_seq h s Q)) = lq_res_bytes Q"
  "lq_res_bytes (snd (expire now Q)) = lq_res_bytes Q"
  "lq_res_bytes (snd (purge Q)) = lq_res_bytes Q"
  "lq_res_bytes (snd (purge_where prd Q)) = lq_res_bytes Q"
  "lq_res_bytes (snd (drain_all Q)) = lq_res_bytes Q"
  "lq_res_bytes (set_config cfg Q) = lq_res_bytes Q"
  by (simp_all add: lease_def held_def ack_where_def ack_seq_def release_seq_def expire_def
      purge_def purge_where_def drain_all_def set_config_def Let_def split_beta split: option.splits)

lemma id_frame_ops [simp]:
  "lq_id (snd (lease h n now Q)) = lq_id Q"
  "lq_id (snd (held h m now Q)) = lq_id Q"
  "lq_id (snd (ack_where h pred Q)) = lq_id Q"
  "lq_id (snd (ack_seq h s Q)) = lq_id Q"
  "lq_id (snd (release_seq h s Q)) = lq_id Q"
  "lq_id (snd (expire now Q)) = lq_id Q"
  "lq_id (snd (purge Q)) = lq_id Q"
  "lq_id (snd (purge_where prd Q)) = lq_id Q"
  "lq_id (snd (drain_all Q)) = lq_id Q"
  "lq_id (set_config cfg Q) = lq_id Q"
  by (simp_all add: lease_def held_def ack_where_def ack_seq_def release_seq_def expire_def
      purge_def purge_where_def drain_all_def set_config_def Let_def split_beta split: option.splits)

lemma cfg_drain [simp]: "lq_cfg (snd (drain_all Q)) = lq_cfg Q"
  by (simp add: drain_all_def Let_def)

lemma set_config_simps [simp]:
  "lq_entry (set_config cfg Q) = lq_entry Q" "lq_cfg (set_config cfg Q) = cfg"
  "lq_notify (set_config cfg Q) = Suc (lq_notify Q)"
  by (simp_all add: set_config_def)

lemma drop_permit_inner [simp]:
  "lq_inner (drop_permit p Q) = lq_inner Q" "lq_id (drop_permit p Q) = lq_id Q"
  "lq_notify (drop_permit p Q) = lq_notify Q"
  by (simp_all add: drop_permit_def)

lemma wf_set_config: "wf_queue Q \<Longrightarrow> wf_queue (set_config cfg Q)"
  by (simp add: set_config_def wf_inner_def wf_leases_def)

lemma wf_new: "wf_queue (new_queue qid cfg)"
proof -
  have e: "unleased Map.empty = {}" "leased_with Map.empty k = {}" "held_by Map.empty h = {}" for k h
    by (auto simp: emap_sets)
  show ?thesis
    by (simp add: new_queue_def new_inner_def wf_inner_def wf_core_def wf_leases_def idx_def
        idx3_def e no_unleased_sets nonempty_def positive_def)
qed

section \<open>The specification: a map from sequence numbers to entries\<close>

definition cands :: "queue_config \<Rightarrow> 'a emap \<Rightarrow> nat set" where
  "cands cfg E = (case qc_ordering cfg of Unordered \<Rightarrow> unleased E | PerKey \<Rightarrow> elig E)"

text \<open>
  \<open>spec_step own cfg next op E E'\<close>: what \<open>op\<close> may do to the entries \<open>E\<close> under configuration
  \<open>cfg\<close> when \<open>next\<close> is the next sequence number and \<open>own\<close> tells this queue's permits. No index
  is mentioned.
\<close>

fun spec_step :: "(permit \<Rightarrow> bool) \<Rightarrow> queue_config \<Rightarrow> nat \<Rightarrow> 'a qop \<Rightarrow> 'a emap \<Rightarrow> 'a emap \<Rightarrow> bool" where
  "spec_step own cfg nxt (Reserve sz) E E' =
     (\<exists>n. E' = evict_oldest n E \<and> (0 < n \<longrightarrow> qc_on_full cfg = DropOldest))"
| "spec_step own cfg nxt (Commit p item key ack) E E' =
     (E' = (if own p then E(nxt \<mapsto> \<lparr>e_item = item, e_key = key, e_ack_id = ack,
                                   e_size = p_size p, e_lease = None\<rparr>)
            else E))"
| "spec_step own cfg nxt (Cancel p) E E' = (E' = E)"
| "spec_step own cfg nxt (Lease h n now) E E' =
     (E' = lease_all (set (take n (sorted_list_of_set (cands cfg E))))
        \<lparr>h_holder = h, h_deadline = inst_checked_add now (lease_timeout cfg)\<rparr> E)"
| "spec_step own cfg nxt (Held h m now) E E' =
     (E' = renew_all (hits h (\<lambda>e. m \<le> e_ack_id e) E) (inst_checked_add now (lease_timeout cfg)) E)"
| "spec_step own cfg nxt (AckBelow h a) E E' = (E' = drop_all (hits h (\<lambda>e. e_ack_id e < a) E) E)"
| "spec_step own cfg nxt (AckAll h) E E' = (E' = drop_all (held_by E h) E)"
| "spec_step own cfg nxt (AckSeq h s) E E' = (E' = drop_all ({s} \<inter> held_by E h) E)"
| "spec_step own cfg nxt (ReleaseSeq h s) E E' = (E' = unlease_all ({s} \<inter> held_by E h) E)"
| "spec_step own cfg nxt (Expire now) E E' = (E' = unlease_all (expired now E) E)"
| "spec_step own cfg nxt Purge E E' = (E' = drop_all (unleased E) E)"
| "spec_step own cfg nxt (PurgeWhere pred) E E' =
     (E' = drop_all {s \<in> unleased E. pred (e_item (the (E s)))} E)"
| "spec_step own cfg nxt DrainAll E E' = (E' = Map.empty)"
| "spec_step own cfg nxt (SetConfig c) E E' = (E' = E)"

lemma candidates_cands: "wf_queue Q \<Longrightarrow> candidates (lq_inner Q) = cands (lq_cfg Q) (lq_entry Q)"
  by (frule wf_innerD(1)) (auto simp: candidates_def cands_def dest: wf_coreD(4,5) split: ordering.splits)

lemma hits_True [simp]: "hits h (\<lambda>_. True) E = held_by E h"
  by (auto simp: hits_def held_by_def)

lemma single_held: "(if s \<in> H then {s} else {}) = {s} \<inter> H"
  by auto

lemma commit_simps:
  assumes "wf_queue Q"
  shows "wf_queue (snd (commit p item key ack Q))"
    and "lq_entry (snd (commit p item key ack Q)) = (if p_reservations p = lq_id Q
      then (lq_entry Q)(q_next_seq (lq_inner Q) \<mapsto> \<lparr>e_item = item, e_key = key, e_ack_id = ack,
                        e_size = p_size p, e_lease = None\<rparr>)
      else lq_entry Q)"
    and "lq_notify (snd (commit p item key ack Q)) =
      (if p_reservations p = lq_id Q then Suc (lq_notify Q) else lq_notify Q)"
    and "lq_id (snd (commit p item key ack Q)) = lq_id Q"
    and "lq_cfg (snd (commit p item key ack Q)) = lq_cfg Q"
    and "lq_res_items (snd (commit p item key ack Q)) = lq_res_items (drop_permit p Q)"
    and "lq_res_bytes (snd (commit p item key ack Q)) = lq_res_bytes (drop_permit p Q)"
proof -
  have "q_cfg (snd (commit_inner (p_size p) item key ack q)) = q_cfg q" for q :: "'a queue_inner"
    by (simp add: commit_inner_def Let_def)
  with commit_inner_wf [OF assms, of "p_size p" item key ack] assms
  show "wf_queue (snd (commit p item key ack Q))"
    "lq_entry (snd (commit p item key ack Q)) = (if p_reservations p = lq_id Q
      then (lq_entry Q)(q_next_seq (lq_inner Q) \<mapsto> \<lparr>e_item = item, e_key = key, e_ack_id = ack,
                        e_size = p_size p, e_lease = None\<rparr>)
      else lq_entry Q)"
    "lq_notify (snd (commit p item key ack Q)) =
      (if p_reservations p = lq_id Q then Suc (lq_notify Q) else lq_notify Q)"
    "lq_id (snd (commit p item key ack Q)) = lq_id Q"
    "lq_cfg (snd (commit p item key ack Q)) = lq_cfg Q"
    "lq_res_items (snd (commit p item key ack Q)) = lq_res_items (drop_permit p Q)"
    "lq_res_bytes (snd (commit p item key ack Q)) = lq_res_bytes (drop_permit p Q)"
    by (simp_all add: commit_def split_beta drop_permit_def)
qed

lemma reserve_spec_step:
  assumes wf: "wf_queue Q" and t: "try_reserve sz Q = Some (r, Q')"
  shows "wf_queue Q' \<and> spec_step own (lq_cfg Q) nxt (Reserve sz) (lq_entry Q) (lq_entry Q') \<and>
    lq_cfg Q' = lq_cfg Q"
proof (cases r)
  case (Inl f)
  with try_reserve_Err(1) [OF wf] t have "Q' = Q" by simp
  with wf show ?thesis by (auto intro!: exI [of _ 0])
next
  case (Inr p)
  with try_reserve_Ok(1) [OF wf] t show ?thesis by (auto simp: makes_room_def)
qed

lemma step_refines:
  assumes wf: "wf_queue Q" and "queue_step op (Q, ps) (Q', ps')"
  shows "wf_queue Q' \<and>
    spec_step (\<lambda>p. p_reservations p = lq_id Q) (lq_cfg Q) (q_next_seq (lq_inner Q)) op
      (lq_entry Q) (lq_entry Q')"
  using assms(2)
proof (cases rule: queue_step.cases)
  case (reserve_ok sz p)
  with reserve_spec_step [OF wf] show ?thesis by blast
next
  case (reserve_full sz full)
  with reserve_spec_step [OF wf] show ?thesis by blast
qed (use wf in \<open>auto simp: commit_simps cancel_def lease_spec held_spec ack_below_each_def
    ack_all_each_def ack_where_spec ack_seq_spec release_seq_spec expire_spec purge_spec
    purge_where_spec drain_all_spec wf_set_config picked_def candidates_cands single_held\<close>)

end
