(* ===== verification/Lease_Queue_Props.thy ===== *)
theory Lease_Queue_Props
  imports Lease_Queue_System
begin

text \<open>
  The properties of the lease queue over its reachable states: the capacity bounds, what the
  indexes hold, exclusivity of keys, wake-ups, what can remove an item, and that a lease that
  ends leaves no trace.
\<close>

section \<open>Payloads\<close>

definition payload :: "'a entry \<Rightarrow> 'a \<times> nat option \<times> int \<times> nat" where
  "payload e = (e_item e, e_key e, e_ack_id e, e_size e)"

definition kept :: "'a emap \<Rightarrow> 'a emap \<Rightarrow> bool" where
  "kept E E' \<longleftrightarrow> (\<forall>s e'. E' s = Some e' \<longrightarrow> (\<exists>e. E s = Some e \<and> payload e' = payload e))"

lemma payload_lease [simp]:
  "payload (e\<lparr>e_lease := x\<rparr>) = payload e" "payload (renew d e) = payload e"
  by (simp_all add: payload_def renew_def)

lemma kept_refl [simp]: "kept E E"
  by (simp add: kept_def)

lemma kept_updates [simp]:
  "kept E (lease_all S hold E)" "kept E (unlease_all S E)" "kept E (renew_all S d E)"
  "kept E (drop_all S E)" "kept E (evict_oldest n E)" "kept E Map.empty"
  by (auto simp: kept_def lease_all_def unlease_all_def renew_all_def drop_all_def
      evict_oldest_def split: if_splits)

lemma kept_bounds:
  assumes "finite (dom E)" and "kept E E'"
  shows "card (dom E') \<le> card (dom E)" "weight e_size E' \<le> weight e_size E"
proof -
  from assms(2) have sub: "dom E' \<subseteq> dom E" by (auto simp: kept_def)
  with assms(1) show "card (dom E') \<le> card (dom E)" by (rule card_mono)
  have "weight e_size E' = (\<Sum>s \<in> dom E'. e_size (the (E s)))"
    using assms(2) unfolding weight_def
    by (intro sum.cong) (force simp: kept_def payload_def)+
  also have "\<dots> \<le> weight e_size E"
    unfolding weight_def by (rule sum_mono2 [OF assms(1) sub]) simp
  finally show "weight e_size E' \<le> weight e_size E" .
qed

lemma spec_step_kept:
  assumes "spec_step own cfg nxt op E E'" and "\<And>p item key ack. op = Commit p item key ack \<Longrightarrow> \<not> own p"
  shows "kept E E'"
  using assms by (cases op) auto

section \<open>The invariant of reachable states\<close>

definition bounded :: "nat \<Rightarrow> nat \<Rightarrow> queue_config \<Rightarrow> bool" where
  "bounded C B cfg \<longleftrightarrow> capacity cfg \<le> C \<and> capacity_bytes cfg \<le> B"

definition accounted :: "nat \<Rightarrow> nat \<Rightarrow> 'a queue_state \<Rightarrow> bool" where
  "accounted C B st \<longleftrightarrow> (case st of (Q, ps) \<Rightarrow>
     (\<forall>p \<in> set ps. p_reservations p = lq_id Q) \<and>
     lq_res_items Q = length ps \<and> lq_res_bytes Q = sum_list (map p_size ps) \<and>
     card (dom (lq_entry Q)) + length ps \<le> C \<and>
     weight e_size (lq_entry Q) + sum_list (map p_size ps) \<le> B)"

lemma accounted_kept:
  assumes "accounted C B (Q, ps)" and "finite (dom (lq_entry Q))" and "kept (lq_entry Q) (lq_entry Q')"
    and "lq_id Q' = lq_id Q" "lq_res_items Q' = lq_res_items Q" "lq_res_bytes Q' = lq_res_bytes Q"
  shows "accounted C B (Q', ps)"
  using assms(1,4-) kept_bounds [OF assms(2,3)] by (simp add: accounted_def)

lemma drop_permit_accounted:
  assumes "accounted C B (Q, ps)" and "p \<in> set ps" and "C \<le> U64_MAX" "B < U64_MAX"
  shows "lq_res_items (drop_permit p Q) = length (remove1 p ps)"
    "lq_res_bytes (drop_permit p Q) = sum_list (map p_size (remove1 p ps))"
    "sum_list (map p_size ps) = p_size p + sum_list (map p_size (remove1 p ps))"
    "length ps = Suc (length (remove1 p ps))"
proof -
  from assms(2) show s: "sum_list (map p_size ps) = p_size p + sum_list (map p_size (remove1 p ps))"
    by (rule sum_list_map_remove1)
  from assms(2) have "0 < length ps" by (cases ps) auto
  with assms(2) show l: "length ps = Suc (length (remove1 p ps))" by (simp add: length_remove1)
  show "lq_res_items (drop_permit p Q) = length (remove1 p ps)"
    "lq_res_bytes (drop_permit p Q) = sum_list (map p_size (remove1 p ps))"
    using assms s l by (auto simp: accounted_def drop_permit_def wrap_sub64_exact)
qed

lemma reserve_accounted:
  assumes inv: "accounted C B (Q, ps)" and wf: "wf_queue Q" and "bounded C B (lq_cfg Q)"
    and C: "C \<le> U64_MAX" "B < U64_MAX" and t: "try_reserve sz Q = Some (Inr p, Q')"
  shows "accounted C B (Q', p # ps)"
proof -
  note ok = try_reserve_Ok [OF wf t]
  from ok(1) have "fits (lq_cfg Q) (lq_res_items Q, lq_res_bytes Q) sz (lq_entry Q')"
    unfolding makes_room_def sum.case by blast
  from fits_bounds [OF this] assms(3) C
  have "card (dom (lq_entry Q')) + lq_res_items Q + 1 \<le> C"
    "weight e_size (lq_entry Q') + lq_res_bytes Q + sz \<le> B"
    by (auto simp: bounded_def)
  with inv ok C show ?thesis
    by (auto simp: accounted_def wrap_add64_exact)
qed

lemma commit_accounted:
  assumes inv: "accounted C B (Q, ps)" and wf: "wf_queue Q" and p: "p \<in> set ps"
    and C: "C \<le> U64_MAX" "B < U64_MAX"
  shows "accounted C B (snd (commit p item key ack Q), remove1 p ps)"
proof -
  note fin = finite_entries [OF wf]
  have fresh: "lq_entry Q (q_next_seq (lq_inner Q)) = None"
    using wf_coreD(8) [OF wf_innerD(1) [OF wf], of "q_next_seq (lq_inner Q)"]
    by (cases "lq_entry Q (q_next_seq (lq_inner Q))") auto
  from inv p have own: "p_reservations p = lq_id Q" by (simp add: accounted_def)
  have "q_next_seq (lq_inner Q) \<notin> dom (lq_entry Q)" using fresh by auto
  with inv own drop_permit_accounted [OF inv p C] set_remove1_subset [of p ps] fin
  show ?thesis
    by (auto simp: accounted_def commit_simps [OF wf] weight_insert [OF fin fresh])
qed

lemma step_accounted:
  assumes st: "queue_step op (Q, ps) (Q', ps')" and wf: "wf_queue Q"
    and inv: "accounted C B (Q, ps)" and b: "bounded C B (lq_cfg Q)"
    and C: "C \<le> U64_MAX" "B < U64_MAX"
  shows "accounted C B (Q', ps')"
proof -
  note ref = step_refines [OF wf st]
  have k: "kept (lq_entry Q) (lq_entry Q')"
    if "\<And>p item key ack. op = Commit p item key ack \<Longrightarrow> p_reservations p \<noteq> lq_id Q"
    using ref that spec_step_kept by blast
  note ak = accounted_kept [OF inv finite_entries [OF wf]]
  from st show ?thesis
  proof (cases rule: queue_step.cases)
    case (reserve_ok sz p)
    with reserve_accounted [OF inv wf b C] show ?thesis by simp
  next
    case (reserve_full sz full)
    with try_reserve_Err(1) [OF wf, of sz full Q'] inv show ?thesis by simp
  next
    case (commit_ok p item key ack)
    with commit_accounted [OF inv wf _ C] show ?thesis by simp
  next
    case (commit_foreign p item key ack)
    then show ?thesis using inv by (simp add: commit_def)
  next
    case (cancel_ok p)
    with inv drop_permit_accounted [OF inv _ C] set_remove1_subset [of p ps] show ?thesis
      by (auto simp: accounted_def cancel_def)
  next
    case (cancel_foreign p)
    then show ?thesis using inv by (simp add: cancel_def drop_permit_def)
  qed (use k in \<open>auto intro!: ak simp: ack_below_each_def ack_all_each_def\<close>)
qed

lemma step_cfg:
  assumes "queue_step op (Q, ps) (Q', ps')" and wf: "wf_queue Q"
  shows "lq_cfg Q' = (case op of SetConfig cfg \<Rightarrow> cfg | _ \<Rightarrow> lq_cfg Q)"
  using assms(1)
proof (cases rule: queue_step.cases)
  case (reserve_ok sz p)
  with reserve_spec_step [OF wf] show ?thesis by simp
next
  case (reserve_full sz full)
  with reserve_spec_step [OF wf] show ?thesis by simp
qed (use wf in \<open>simp_all add: commit_simps cancel_def lease_spec held_spec ack_below_each_def
    ack_all_each_def ack_where_spec ack_seq_spec release_seq_spec expire_spec purge_spec
    purge_where_spec\<close>)

lemma reach_wf:
  assumes "queue_reach ok (Q, ps)"
  shows "wf_queue Q \<and> ok (lq_cfg Q)"
  using assms
proof (induction "(Q, ps)" arbitrary: Q ps rule: queue_reach.induct)
  case (reach_new cfg qid)
  then show ?case using wf_new [of qid cfg] by (simp add: new_queue_def new_inner_def)
next
  case (reach_step st op)
  obtain Q0 ps0 where st: "st = (Q0, ps0)" by (cases st)
  with reach_step have q: "queue_step op (Q0, ps0) (Q, ps)" and wf: "wf_queue Q0" and "ok (lq_cfg Q0)"
    by auto
  with step_refines [OF wf q] step_cfg [OF q wf] reach_step(3) show ?case
    by (auto simp: op_ok_def split: qop.splits)
qed

lemma reach_accounted:
  assumes "queue_reach (bounded C B) (Q, ps)" and "C \<le> U64_MAX" "B < U64_MAX"
  shows "accounted C B (Q, ps)"
  using assms(1)
proof (induction "(Q, ps)" arbitrary: Q ps rule: queue_reach.induct)
  case (reach_new cfg qid)
  then show ?case by (simp add: accounted_def new_queue_def new_inner_def)
next
  case (reach_step st op)
  obtain Q0 ps0 where st: "st = (Q0, ps0)" by (cases st)
  with reach_step reach_wf [of "bounded C B" Q0 ps0] assms(2,3) show ?case
    by (blast intro: step_accounted)
qed

section \<open>A concrete run\<close>

text \<open>One producer, one holder, items of key 1: the run the witnesses below evaluate.\<close>

definition demo_cfg :: queue_config where
  "demo_cfg = \<lparr>capacity = 2, capacity_bytes = 10, lease_timeout = 5, qc_ordering = PerKey,
     qc_on_full = DropOldest\<rparr>"

definition demo_permit :: permit where
  "demo_permit = \<lparr>evicted = 0, p_size = 3, p_reservations = 7\<rparr>"

definition demo_new :: "nat lease_queue" where
  "demo_new = new_queue 7 demo_cfg"

definition demo_reserved :: "nat lease_queue" where
  "demo_reserved = demo_new\<lparr>lq_res_items := 1, lq_res_bytes := 3\<rparr>"

definition demo_queued :: "nat lease_queue" where
  "demo_queued = snd (commit demo_permit 42 (Some 1) 0 demo_reserved)"

definition demo_leased :: "nat lease_queue" where
  "demo_leased = snd (lease ''h'' 1 0 demo_queued)"

lemma demo_reserve: "try_reserve 3 demo_new = Some (Inr demo_permit, demo_reserved)"
  by (simp add: demo_new_def demo_reserved_def demo_permit_def try_reserve_def make_room_def
      room_def new_queue_def new_inner_def demo_cfg_def sat_add64_def wrap_add64_def U64_MAX_def
      Mapping.size_empty)

lemma demo_reach:
  assumes "ok demo_cfg"
  shows "queue_reach ok (demo_new, [])" "queue_reach ok (demo_reserved, [demo_permit])"
    "queue_reach ok (demo_queued, [])" "queue_reach ok (demo_leased, [])"
proof -
  show n: "queue_reach ok (demo_new, [])"
    unfolding demo_new_def using assms by (rule reach_new)
  show r: "queue_reach ok (demo_reserved, [demo_permit])"
    by (rule reach_step [OF n _ reserve_ok [OF demo_reserve]]) (simp add: op_ok_def)
  have "queue_step (Commit demo_permit 42 (Some 1) 0) (demo_reserved, [demo_permit]) (demo_queued, [])"
    unfolding demo_queued_def
    using commit_ok [of demo_permit "[demo_permit]" 42 "Some 1" 0 demo_reserved] by simp
  from reach_step [OF r _ this] show q: "queue_reach ok (demo_queued, [])"
    by (simp add: op_ok_def)
  show "queue_reach ok (demo_leased, [])"
    unfolding demo_leased_def by (rule reach_step [OF q _ lease_step]) (simp add: op_ok_def)
qed

lemma demo_bounded: "bounded 2 10 demo_cfg"
  by (simp add: bounded_def demo_cfg_def)

lemmas demo_states = demo_reach [of "bounded 2 10", OF demo_bounded]

section \<open>Properties\<close>

text \<open>
  C1. In every reachable state of a queue whose configurations allow at most \<open>C\<close> items and
  \<open>B\<close> bytes, the items queued, the items leased and the permits outstanding are at most \<open>C\<close>
  together, their bytes at most \<open>B\<close>, and the reservation totals count exactly the permits
  outstanding: no interleaving of reservations, commits, cancels, leases, acks and
  configuration changes overcommits the queue or leaks room.
\<close>

theorem queue_capacity:
  assumes "queue_reach (bounded C B) (Q, ps)" and "C \<le> U64_MAX" and "B < U64_MAX"
  shows "st_available (stats Q) + st_leased (stats Q) + st_reserved (stats Q) \<le> C \<and>
    st_bytes (stats Q) + lq_res_bytes Q \<le> B \<and>
    st_reserved (stats Q) = length ps \<and> lq_res_bytes Q = sum_list (map p_size ps)"
proof -
  note core = wf_innerD(1) [OF conjunct1 [OF reach_wf [OF assms(1)]]]
  have "card (unleased (lq_entry Q)) \<le> card (dom (lq_entry Q))"
    by (rule card_mono [OF wf_coreD(1) [OF core]]) (auto simp: unleased_def)
  with reach_accounted [OF assms] show ?thesis
    using wf_coreD(4,6) [OF core] by (simp add: accounted_def stats_def leased_count_def size_entries)
qed

theorem queue_capacity_witness:
  "queue_reach (bounded 2 10) (demo_reserved, [demo_permit]) \<and>
   st_reserved (stats demo_reserved) = 1 \<and> st_available (stats demo_reserved) \<le> 1"
  using demo_states(2)
    queue_capacity [OF demo_states(2)] by (simp add: U64_MAX_def)

text \<open>
  C2. Refinement: every step of a reachable queue does to the entries exactly what the
  specification \<open>spec_step\<close> says, which knows a map of entries and none of the indexes, and
  the candidates the code reads from its indexes afterwards are the ones the entries
  determine (all unleased items, or with ordering by key the keyless ones and the oldest
  queued item of every key that has nothing leased).
\<close>

theorem queue_refines:
  assumes "queue_reach ok (Q, ps)" and "queue_step op (Q, ps) (Q', ps')"
  shows "spec_step (\<lambda>p. p_reservations p = lq_id Q) (lq_cfg Q) (q_next_seq (lq_inner Q)) op
      (lq_entry Q) (lq_entry Q') \<and>
    candidates (lq_inner Q') = cands (lq_cfg Q') (lq_entry Q')"
  using step_refines [OF conjunct1 [OF reach_wf [OF assms(1)]] assms(2)] candidates_cands by blast

theorem queue_refines_witness:
  "queue_step (Lease ''h'' 1 0) (demo_queued, []) (demo_leased, []) \<and>
   candidates (lq_inner demo_leased) = cands (lq_cfg demo_leased) (lq_entry demo_leased)"
proof -
  have st: "queue_step (Lease ''h'' 1 0) (demo_queued, []) (demo_leased, [])"
    unfolding demo_leased_def by (rule lease_step)
  with queue_refines [OF demo_states(3) st] show ?thesis by blast
qed

definition room_for :: "nat \<Rightarrow> 'a lease_queue \<Rightarrow> 'a emap \<Rightarrow> bool" where
  "room_for sz Q = fits (lq_cfg Q) (lq_res_items Q, lq_res_bytes Q) sz"



subsection \<open>Wake-ups\<close>

lemma elig_empty_iff: "elig E = {} \<longleftrightarrow> keyless E = {} \<and> (\<forall>k. leased_with E k \<noteq> {} \<or> queued_with E k = {})"
  by (auto simp: elig_def first_of_def set_first_def)

lemma elig_empty_drop_unleased:
  assumes "elig E = {}" and "S \<subseteq> unleased E"
  shows "elig (drop_all S E) = {}"
proof -
  have "keyless (drop_all S E) \<subseteq> keyless E" "queued_with (drop_all S E) k \<subseteq> queued_with E k" for k
    by (auto simp: keyless_def queued_with_def drop_all_def split: if_splits)
  with assms leased_sets_drop_all(1) [OF assms(2)] show ?thesis
    unfolding elig_empty_iff by blast
qed

lemma elig_drop_keyless:
  assumes "\<And>s e. s \<in> S \<Longrightarrow> E s = Some e \<Longrightarrow> e_lease e \<noteq> None \<and> e_key e = None"
  shows "elig (drop_all S E) = elig E"
proof -
  have "keyless (drop_all S E) = keyless E" "queued_with (drop_all S E) k = queued_with E k"
    "leased_with (drop_all S E) k = leased_with E k" for k
    using assms by (force simp: keyless_def queued_with_def leased_with_def drop_all_def split: if_splits)+
  then show ?thesis by (simp add: elig_def first_of_def)
qed

lemma cands_drop_unleased:
  "cands cfg E = {} \<Longrightarrow> S \<subseteq> unleased E \<Longrightarrow> cands cfg (drop_all S E) = {}"
  by (auto simp: cands_def elig_empty_drop_unleased split: ordering.splits)

lemma cands_drop_leased:
  assumes "cands cfg E = {}" and "\<And>s. s \<in> S \<Longrightarrow> \<exists>h. s \<in> held_by E h"
    and "\<not> (qc_ordering cfg = PerKey \<and> (\<exists>s \<in> S. e_key (the (E s)) \<noteq> None))"
  shows "cands cfg (drop_all S E) = {}"
proof (cases "qc_ordering cfg")
  case Unordered
  with assms(1) show ?thesis by (simp add: cands_def)
next
  case PerKey
  with assms(2,3) have "elig (drop_all S E) = elig E"
    by (intro elig_drop_keyless) (fastforce simp: held_by_def)
  with PerKey assms(1) show ?thesis by (simp add: cands_def)
qed

lemma cands_renew: "cands cfg (renew_all S d E) = cands cfg E"
proof -
  have x: "(\<exists>e. renew_all S d E s = Some e \<and> P (e_lease e) (e_key e)) \<longleftrightarrow>
      (\<exists>e. E s = Some e \<and> P (e_lease e) (e_key e))" if "\<And>l k f. P (map_option f l) k = P l k" for s P
    using that by (cases "E s") (auto simp: renew_all_def renew_def)
  have "unleased (renew_all S d E) = unleased E"
    unfolding unleased_def by (rule Collect_cong, rule x [of "\<lambda>l _. l = None"]) simp
  moreover have "keyless (renew_all S d E) = keyless E"
    unfolding keyless_def by (rule Collect_cong, rule x [of "\<lambda>l k. l = None \<and> k = None"]) simp
  moreover have "queued_with (renew_all S d E) k = queued_with E k" for k
    unfolding queued_with_def by (rule Collect_cong, rule x [of "\<lambda>l k'. l = None \<and> k' = Some k"]) simp
  moreover have "leased_with (renew_all S d E) k = leased_with E k" for k
    unfolding leased_with_def by (rule Collect_cong, rule x [of "\<lambda>l k'. l \<noteq> None \<and> k' = Some k"]) simp
  ultimately show ?thesis by (simp add: cands_def elig_def first_of_def split: ordering.split)
qed

lemma hits_held: "s \<in> hits h pred E \<Longrightarrow> s \<in> held_by E h"
  by (auto simp: hits_def)

lemma notify_ops [simp]:
  "lq_notify (snd (lease h n now Q)) = lq_notify Q"
  "lq_notify (snd (held h m now Q)) = lq_notify Q"
  "lq_notify (snd (purge Q)) = lq_notify Q"
  "lq_notify (snd (purge_where prd Q)) = lq_notify Q"
  "lq_notify (snd (drain_all Q)) = lq_notify Q"
  by (simp_all add: lease_def held_def purge_def purge_where_def drain_all_def Let_def split_beta
      split: option.splits)

lemma ack_where_quiet:
  assumes wf: "wf_queue Q" and none: "cands (lq_cfg Q) (lq_entry Q) = {}"
    and "lq_notify (snd (ack_where h pred Q)) = lq_notify Q"
  shows "cands (lq_cfg Q) (lq_entry (snd (ack_where h pred Q))) = {}"
proof -
  from assms(3) have "\<not> (qc_ordering (lq_cfg Q) = PerKey \<and>
      (\<exists>s \<in> hits h pred (lq_entry Q). e_key (the (lq_entry Q s)) \<noteq> None))"
    by (auto simp: ack_where_spec [OF wf] split: if_splits)
  then show ?thesis
    unfolding ack_where_spec(2) [OF wf]
    by (intro cands_drop_leased [OF none]) (auto intro: hits_held)
qed

lemma ack_seq_quiet:
  assumes wf: "wf_queue Q" and none: "cands (lq_cfg Q) (lq_entry Q) = {}"
    and "lq_notify (snd (ack_seq h s Q)) = lq_notify Q"
  shows "cands (lq_cfg Q) (lq_entry (snd (ack_seq h s Q))) = {}"
proof -
  from assms(3) have "\<not> (qc_ordering (lq_cfg Q) = PerKey \<and>
      (\<exists>s \<in> {s} \<inter> held_by (lq_entry Q) h. e_key (the (lq_entry Q s)) \<noteq> None))"
    by (auto simp: ack_seq_spec [OF wf] split: if_splits)
  then show ?thesis
    unfolding ack_seq_spec(3) [OF wf] single_held
    by (intro cands_drop_leased [OF none]) auto
qed

text \<open>Where no item was a candidate and no waiter was notified, none is a candidate after.\<close>

lemma step_quiet:
  assumes st: "queue_step op (Q, ps) (Q', ps')" and wf: "wf_queue Q"
    and none: "cands (lq_cfg Q) (lq_entry Q) = {}" and quiet: "lq_notify Q' = lq_notify Q"
  shows "cands (lq_cfg Q') (lq_entry Q') = {}"
  using st
proof (cases rule: queue_step.cases)
  case (reserve_ok sz p)
  note ok = try_reserve_Ok(1) [OF wf reserve_ok(3), unfolded makes_room_def sum.case]
  have "set (take (evicted p) (sorted_list_of_set (unleased (lq_entry Q)))) \<subseteq> unleased (lq_entry Q)"
    using set_take_subset [of "evicted p"] finite_emap_sets(1) [OF finite_entries [OF wf]] by fastforce
  from cands_drop_unleased [OF none this] ok show ?thesis by (simp add: evict_oldest_def)
next
  case (reserve_full sz full)
  with try_reserve_Err(1) [OF wf, of sz full Q'] none show ?thesis by simp
next
  case (ack_below_step h a)
  with ack_where_quiet [OF wf none] quiet show ?thesis
    by (simp add: ack_below_each_def ack_where_spec(4) [OF wf])
next
  case (ack_all_step h)
  with ack_where_quiet [OF wf none] quiet show ?thesis
    by (simp add: ack_all_each_def ack_where_spec(4) [OF wf])
next
  case (ack_seq_step h s)
  with ack_seq_quiet [OF wf none] quiet show ?thesis
    by (simp add: ack_seq_spec(4) [OF wf])
next
  case (expire_step now)
  with none quiet show ?thesis by (auto simp: expire_spec [OF wf] split: if_splits)
next
  case (release_step h s)
  with none quiet show ?thesis by (auto simp: release_seq_spec [OF wf] split: if_splits)
next
  case (lease_step h n now)
  with none show ?thesis
    by (simp add: lease_spec [OF wf] picked_def candidates_cands [OF wf])
next
  case drain_step
  then show ?thesis
    using no_unleased_sets(3) [of Map.empty]
    by (auto simp: drain_all_spec [OF wf] cands_def unleased_def split: ordering.splits)
next
  case (purge_where_step pred)
  with cands_drop_unleased [OF none, of "{s \<in> unleased (lq_entry Q). pred (e_item (the (lq_entry Q s)))}"]
  show ?thesis by (simp add: purge_where_spec [OF wf])
qed (use none quiet cands_drop_unleased [OF none order_refl] in \<open>simp_all add: commit_simps [OF wf]
      cancel_def held_spec [OF wf] cands_renew purge_spec [OF wf] split: if_splits\<close>)

text \<open>
  C4. No wake-up is lost: whenever a step of a reachable queue makes an item leasable where
  no item was, it notifies the waiters.
\<close>

theorem no_lost_wakeup:
  assumes "queue_reach ok (Q, ps)" and "queue_step op (Q, ps) (Q', ps')"
    and "candidates (lq_inner Q) = {}" and "candidates (lq_inner Q') \<noteq> {}"
  shows "lq_notify Q' \<noteq> lq_notify Q"
proof -
  have wf: "wf_queue Q" using reach_wf [OF assms(1)] by simp
  with step_refines [OF wf assms(2)] assms(3,4) step_quiet [OF assms(2) wf] show ?thesis
    by (auto simp: candidates_cands)
qed

theorem no_lost_wakeup_witness:
  "candidates (lq_inner demo_leased) = {} \<and>
   candidates (lq_inner (snd (release_seq ''h'' 0 demo_leased))) \<noteq> {} \<and>
   lq_notify (snd (release_seq ''h'' 0 demo_leased)) \<noteq> lq_notify demo_leased"
proof -
  have c: "candidates (lq_inner demo_leased) = {}"
    "candidates (lq_inner (snd (release_seq ''h'' 0 demo_leased))) \<noteq> {}"
    by code_simp+
  with no_lost_wakeup [OF demo_states(4) release_step c] show ?thesis by blast
qed

subsection \<open>Keys\<close>

definition exclusive :: "'a emap \<Rightarrow> bool" where
  "exclusive E \<longleftrightarrow> (\<forall>k. \<forall>s \<in> leased_with E k. \<forall>t \<in> leased_with E k. s = t)"

lemma exclusive_mono:
  "exclusive E \<Longrightarrow> (\<And>k. leased_with E' k \<subseteq> leased_with E k) \<Longrightarrow> exclusive E'"
  unfolding exclusive_def by blast

lemma leased_with_updates:
  "leased_with (drop_all S E) k \<subseteq> leased_with E k"
  "leased_with (unlease_all S E) k \<subseteq> leased_with E k"
  "leased_with (renew_all S d E) k \<subseteq> leased_with E k"
  "leased_with (evict_oldest n E) k \<subseteq> leased_with E k"
  by (auto simp: leased_with_def drop_all_def unlease_all_def renew_all_def renew_def
      evict_oldest_def split: if_splits)

lemmas exclusive_updates = leased_with_updates [THEN exclusive_mono [rotated]]

text \<open>A leased item of a key is that key's only one, or the oldest queued one just leased.\<close>

lemma elig_of_key:
  assumes "finite (dom E)" and "s \<in> elig E" and "E s = Some e" and "e_key e = Some k"
  shows "leased_with E k = {}" and "\<And>t. t \<in> queued_with E k \<Longrightarrow> s \<le> t"
proof -
  from assms have "s \<notin> keyless E" by (auto simp: keyless_def)
  with assms(2) obtain k' where f: "first_of E k' = Some s" by (auto simp: elig_def)
  with first_of_in [OF assms(1) f] assms(3,4) have "k' = k" by (auto simp: queued_with_def)
  with f show "leased_with E k = {}" "\<And>t. t \<in> queued_with E k \<Longrightarrow> s \<le> t"
    using set_first_SomeD [of "queued_with E k" s] finite_emap_sets(2) [OF assms(1), of k]
    by (auto simp: first_of_def split: if_splits)
qed

lemma exclusive_lease:
  assumes fin: "finite (dom E)" and ex: "exclusive E" and sub: "S \<subseteq> elig E"
  shows "exclusive (lease_all S hold E)"
  unfolding exclusive_def
proof (intro allI ballI)
  fix k s t
  assume st: "s \<in> leased_with (lease_all S hold E) k" "t \<in> leased_with (lease_all S hold E) k"
  have c: "x \<in> leased_with E k \<or> x \<in> S \<and> x \<in> queued_with E k"
    if "x \<in> leased_with (lease_all S hold E) k" for x
    using that sub elig_subset [OF fin]
    by (force simp: leased_with_def queued_with_def lease_all_def unleased_def split: if_splits)
  have old: "leased_with E k = {}" if "x \<in> S" "x \<in> queued_with E k" for x
    using elig_of_key(1) [OF fin, of x] that sub by (auto simp: queued_with_def)
  have le: "x \<le> y" if "x \<in> S" "x \<in> queued_with E k" "y \<in> queued_with E k" for x y
    using elig_of_key(2) [OF fin, of x] that sub by (auto simp: queued_with_def)
  from c [OF st(1)] c [OF st(2)] ex old le show "s = t"
    unfolding exclusive_def by (metis empty_iff order_antisym)
qed

lemma spec_step_exclusive:
  assumes "spec_step own cfg nxt op E E'" and "exclusive E" and fin: "finite (dom E)"
    and "qc_ordering cfg = PerKey" and "E nxt = None"
  shows "exclusive E'"
proof (cases op)
  case (Lease h n now)
  have "set (take n (sorted_list_of_set (cands cfg E))) \<subseteq> elig E"
    using set_take_subset [of n "sorted_list_of_set (cands cfg E)"] assms(4)
      finite_subset [OF elig_subset [OF fin] finite_emap_sets(1) [OF fin]]
    by (auto simp: cands_def)
  from exclusive_lease [OF fin assms(2) this] assms(1) Lease show ?thesis by simp
next
  case (Commit p item key ack)
  have "leased_with (E(nxt \<mapsto> \<lparr>e_item = item, e_key = key, e_ack_id = ack,
      e_size = p_size p, e_lease = None\<rparr>)) k \<subseteq> leased_with E k" for k
    by (auto simp: leased_with_def split: if_splits)
  from exclusive_mono [OF assms(2) this] assms(1,2) Commit show ?thesis by (auto split: if_splits)
next
  case DrainAll
  with assms(1) show ?thesis by (simp add: exclusive_def leased_with_def)
qed (use assms(1,2) in \<open>auto intro: exclusive_updates\<close>)

lemma next_seq_fresh: "wf_queue Q \<Longrightarrow> lq_entry Q (q_next_seq (lq_inner Q)) = None"
  using wf_coreD(8) [OF wf_innerD(1), of "lq_inner Q" "q_next_seq (lq_inner Q)"]
  by (cases "lq_entry Q (q_next_seq (lq_inner Q))") auto

abbreviation by_key :: "queue_config \<Rightarrow> bool" where
  "by_key cfg \<equiv> qc_ordering cfg = PerKey"

lemma reach_exclusive:
  assumes "queue_reach by_key (Q, ps)"
  shows "exclusive (lq_entry Q)"
  using assms
proof (induction "(Q, ps)" arbitrary: Q ps rule: queue_reach.induct)
  case (reach_new cfg qid)
  then show ?case by (simp add: exclusive_def leased_with_def new_queue_def new_inner_def)
next
  case (reach_step st op)
  obtain Q0 ps0 where st: "st = (Q0, ps0)" by (cases st)
  have r: "wf_queue Q0" "by_key (lq_cfg Q0)" using reach_wf [of by_key] reach_step(1) st by auto
  have "spec_step (\<lambda>p. p_reservations p = lq_id Q0) (lq_cfg Q0) (q_next_seq (lq_inner Q0)) op
      (lq_entry Q0) (lq_entry Q)"
    using step_refines [OF r(1)] reach_step(4) st by blast
  then show ?case
    by (rule spec_step_exclusive [OF _ reach_step(2) [OF st] finite_entries [OF r(1)] r(2)
          next_seq_fresh [OF r(1)]])
qed

text \<open>
  C5. With ordering by key, no two items of one key are ever leased at the same time, whatever
  the holders, however many items a lease asks for.
\<close>

theorem per_key_exclusive:
  assumes "queue_reach by_key (Q, ps)" and "lq_entry Q s = Some e" and "lq_entry Q t = Some f"
    and "e_lease e \<noteq> None" and "e_lease f \<noteq> None"
    and "e_key e = Some k" and "e_key f = Some k"
  shows "s = t"
  using reach_exclusive [OF assms(1)] assms(2-) unfolding exclusive_def leased_with_def by blast

theorem per_key_exclusive_witness:
  "\<exists>e. lq_entry demo_leased 0 = Some e \<and> e_lease e \<noteq> None \<and> e_key e = Some 1 \<and>
     (\<forall>t \<in> {1, 2}. \<not> (\<exists>f. lq_entry demo_leased t = Some f \<and> e_lease f \<noteq> None \<and> e_key f = Some 1))"
proof -
  have r: "queue_reach by_key (demo_leased, [])" by (rule demo_reach) (simp add: demo_cfg_def)
  have e: "lq_entry demo_leased 0 = Some \<lparr>e_item = 42, e_key = Some 1, e_ack_id = 0, e_size = 3,
      e_lease = Some \<lparr>h_holder = ''h'', h_deadline = Some 5\<rparr>\<rparr>" by code_simp
  show ?thesis using per_key_exclusive [OF r e] by (fastforce simp: e)
qed

text \<open>
  \<open>lease\<close> hands out candidates oldest first, as many as asked for or all there are, each
  with its own sequence number, ack id and item; with ordering by key an item it hands out is
  the oldest one of its key in the whole queue, leased items included, so one key's items
  are handed out and settled strictly in the order they were committed.
\<close>

theorem lease_oldest_first:
  assumes "queue_reach by_key (Q, ps)"
  shows "map l_seq (fst (lease h n now Q)) = take n (sorted_list_of_set (candidates (lq_inner Q))) \<and>
    list_all (\<lambda>l. case lq_entry Q (l_seq l) of
        None \<Rightarrow> False
      | Some e \<Rightarrow> l_item l = e_item e \<and> l_ack_id l = e_ack_id e \<and> e_lease e = None \<and>
          (\<forall>t f. lq_entry Q t = Some f \<and> e_key f = e_key e \<and> e_key e \<noteq> None \<longrightarrow> l_seq l \<le> t))
      (fst (lease h n now Q))"
proof -
  from reach_wf [OF assms] have wf: "wf_queue Q" and key: "by_key (lq_cfg Q)" by auto
  note fin = finite_entries [OF wf] and core = wf_innerD(1) [OF wf]
  have old: "s \<le> t" if "s \<in> elig (lq_entry Q)" "lq_entry Q s = Some e" "lq_entry Q t = Some f"
    "e_key f = e_key e" "e_key e = Some k" for s t e f k
    using elig_of_key [OF fin that(1,2,5)] that(3-5)
    by (cases "e_lease f") (auto simp: queued_with_def leased_with_def)
  have "s \<in> elig (lq_entry Q) \<and> (\<exists>e. lq_entry Q s = Some e \<and> e_lease e = None)"
    if "s \<in> set (picked n (lq_inner Q))" for s
    using that picked_props(3,4) [OF core, of n] candidates_cands [OF wf] key
    by (auto simp: cands_def unleased_def)
  with old show ?thesis
    by (fastforce simp: lease_spec(3) [OF wf] comp_def to_lease_def list_all_iff picked_def)
qed

theorem lease_oldest_first_demo:
  "map l_seq (fst (lease ''h'' 1 0 demo_queued)) = [0]"
proof -
  have "queue_reach by_key (demo_queued, [])" by (rule demo_reach) (simp add: demo_cfg_def)
  from lease_oldest_first [OF this, of "''h''" 1 0]
  have "map l_seq (fst (lease ''h'' 1 0 demo_queued)) =
      take 1 (sorted_list_of_set (candidates (lq_inner demo_queued)))" by blast
  also have "candidates (lq_inner demo_queued) = {0}" by code_simp
  finally show ?thesis by simp
qed

subsection \<open>What happens to an item\<close>

text \<open>The operations that may remove an item, and under which condition on it.\<close>

fun may_remove :: "'a qop \<Rightarrow> queue_config \<Rightarrow> nat \<Rightarrow> 'a entry \<Rightarrow> bool" where
  "may_remove (Reserve _) cfg s e = (qc_on_full cfg = DropOldest \<and> e_lease e = None)"
| "may_remove (AckBelow h a) cfg s e = (map_option h_holder (e_lease e) = Some h \<and> e_ack_id e < a)"
| "may_remove (AckAll h) cfg s e = (map_option h_holder (e_lease e) = Some h)"
| "may_remove (AckSeq h t) cfg s e = (map_option h_holder (e_lease e) = Some h \<and> t = s)"
| "may_remove Purge cfg s e = (e_lease e = None)"
| "may_remove (PurgeWhere pred) cfg s e = (e_lease e = None \<and> pred (e_item e))"
| "may_remove DrainAll cfg s e = True"
| "may_remove _ cfg s e = False"

lemma evict_oldest_gone:
  assumes "finite (dom E)" and "E s = Some e" and "evict_oldest n E s = None"
  shows "e_lease e = None" "0 < n"
  using assms set_take_subset [of n "sorted_list_of_set (unleased E)"]
    finite_emap_sets(1) [OF assms(1)]
  by (cases n; force simp: evict_oldest_def drop_all_def unleased_def split: if_splits)+

lemma spec_step_removes:
  assumes "spec_step own cfg nxt op E E'" and fin: "finite (dom E)" and "E s = Some e" and "E' s = None"
  shows "may_remove op cfg s e"
proof (cases op)
  case (Reserve sz)
  with assms(1) obtain n where "E' = evict_oldest n E" "0 < n \<longrightarrow> qc_on_full cfg = DropOldest" by auto
  with evict_oldest_gone [OF fin assms(3)] assms(4) Reserve show ?thesis by auto
qed (use assms in \<open>auto simp: drop_all_def unlease_all_def renew_all_def lease_all_def hits_def
      held_by_def unleased_def split: if_splits\<close>)

lemma spec_step_keeps:
  assumes "spec_step own cfg nxt op E E'" and "E nxt = None" and "E s = Some e" and "E' s = Some e'"
  shows "payload e' = payload e"
proof (cases "\<exists>p item key ack. op = Commit p item key ack")
  case True
  with assms show ?thesis by (auto split: if_splits)
next
  case False
  with spec_step_kept [OF assms(1)] have "kept E E'" by blast
  with assms(3,4) show ?thesis by (force simp: kept_def)
qed

text \<open>
  C7. No step loses an item or changes what it carries: an entry leaves a reachable queue only
  by an ack of the holder that has it leased (below the acked id, or by its own number), by
  the eviction of an unleased item under \<open>DropOldest\<close>, by a purge that covers it or by a
  drain; and an entry that stays keeps its item, key, ack id and size under the same
  sequence number.
\<close>

theorem item_conservation:
  assumes "queue_reach ok (Q, ps)" and "queue_step op (Q, ps) (Q', ps')" and "lq_entry Q s = Some e"
  shows "case lq_entry Q' s of
      None \<Rightarrow> may_remove op (lq_cfg Q) s e
    | Some e' \<Rightarrow> payload e' = payload e"
proof -
  from reach_wf [OF assms(1)] have wf: "wf_queue Q" by blast
  note ref = conjunct2 [OF step_refines [OF wf assms(2)]]
  show ?thesis
    using spec_step_removes [OF ref finite_entries [OF wf] assms(3)]
      spec_step_keeps [OF ref next_seq_fresh [OF wf] assms(3)]
    by (simp split: option.splits)
qed

theorem item_conservation_witness:
  "case lq_entry (snd (ack_below_each ''other'' 9 demo_leased)) 0 of
     None \<Rightarrow> False | Some e' \<Rightarrow> e_item e' = 42"
proof -
  have e: "lq_entry demo_leased 0 = Some \<lparr>e_item = 42, e_key = Some 1, e_ack_id = 0, e_size = 3,
      e_lease = Some \<lparr>h_holder = ''h'', h_deadline = Some 5\<rparr>\<rparr>" by code_simp
  from item_conservation [OF demo_states(4) ack_below_step e, of "''other''" 9] show ?thesis
    by (simp add: payload_def split: option.splits)
qed

text \<open>
  The entries, the configuration and the next sequence number determine the guarded state:
  there is one right value for every index.
\<close>

lemma wf_canonical:
  fixes q q' :: "'a queue_inner"
  assumes "wf_inner q" and "wf_inner q'" and "emap_of q = emap_of q'" and "q_cfg q = q_cfg q'"
    and "q_next_seq q = q_next_seq q'"
  shows "q = q'"
proof -
  note c = wf_innerD(1) [OF assms(1)] and c' = wf_innerD(1) [OF assms(2)]
  have "Mapping.lookup (q_queued_per_key q) = Mapping.lookup (q_queued_per_key q')"
    "Mapping.lookup (q_leased_per_key q) = Mapping.lookup (q_leased_per_key q')"
    using wf_coreD(3) [OF c] wf_coreD(3) [OF c'] assms(3) by (auto simp: idx3_def fun_eq_iff)
  moreover have "Mapping.lookup (q_leases q) = Mapping.lookup (q_leases q')"
    using wf_innerD(2) [OF assms(1)] wf_innerD(2) [OF assms(2)] assms(3) by (auto simp: fun_eq_iff)
  ultimately show ?thesis
    using assms(3-5) wf_coreD(4-7) [OF c] wf_coreD(4-7) [OF c']
    by (intro queue_inner.equality) (simp_all add: mapping_lookup_inject)
qed

lemma expired_lease_all:
  assumes "S \<subseteq> unleased E" and "d \<le> now"
  shows "expired now (lease_all S \<lparr>h_holder = h, h_deadline = Some d\<rparr> E) = expired now E \<union> S"
proof (rule set_eqI)
  fix s
  show "s \<in> expired now (lease_all S \<lparr>h_holder = h, h_deadline = Some d\<rparr> E) \<longleftrightarrow> s \<in> expired now E \<union> S"
  proof (cases "s \<in> S")
    case True
    with assms obtain e where "E s = Some e" by (auto simp: unleased_def)
    with True assms(2) show ?thesis by (auto simp: expired_def lease_all_def)
  qed (auto simp: expired_def lease_all_def)
qed

lemma unlease_lease_all:
  assumes "S \<subseteq> unleased E"
  shows "unlease_all (X \<union> S) (lease_all S hold E) = unlease_all X E"
proof
  fix s
  show "unlease_all (X \<union> S) (lease_all S hold E) s = unlease_all X E s"
  proof (cases "s \<in> S")
    case True
    with assms obtain e where "E s = Some e" "e_lease e = None" by (auto simp: unleased_def)
    with True show ?thesis by (auto simp: unlease_all_def lease_all_def clear_lease_id)
  qed (auto simp: unlease_all_def lease_all_def)
qed

lemma expire_next_seq: "wf_queue Q \<Longrightarrow> q_next_seq (lq_inner (snd (expire now Q))) = q_next_seq (lq_inner Q)"
  using fold_requeue_spec [of "lq_inner Q"] by (auto simp: expire_def Let_def)

text \<open>
  A lease that times out leaves no trace: leasing any number of items and expiring once
  their deadline has passed gives exactly the guarded state (entries, every index, counters)
  that expiring alone gives, so every unacked item is back in its old place in the order.
\<close>

theorem lease_expire_restores:
  assumes "queue_reach ok (Q, ps)" and "now + lease_timeout (lq_cfg Q) \<le> later"
    and "later \<le> INSTANT_MAX"
  shows "lq_inner (snd (expire later (snd (lease h n now Q)))) = lq_inner (snd (expire later Q))"
proof -
  from reach_wf [OF assms(1)] have wf: "wf_queue Q" by blast
  let ?L = "snd (lease h n now Q)" and ?S = "set (picked n (lq_inner Q))"
  note ls = lease_spec [OF wf, of h n now]
  have "inst_checked_add now (lease_timeout (lq_cfg Q)) = Some (now + lease_timeout (lq_cfg Q))"
    using assms(2,3) by (simp add: inst_checked_add_def)
  moreover have sub: "?S \<subseteq> unleased (lq_entry Q)" by (rule picked_props(3) [OF wf_innerD(1) [OF wf]])
  ultimately have "lq_entry (snd (expire later ?L)) = lq_entry (snd (expire later Q))"
    using expired_lease_all [OF sub assms(2), of h] unlease_lease_all [OF sub]
    by (simp add: expire_spec [OF ls(1)] expire_spec [OF wf] ls(2))
  then show ?thesis
    using expire_spec(1,4) [OF ls(1)] expire_spec(1,4) [OF wf] ls(4,5)
      expire_next_seq [OF ls(1)] expire_next_seq [OF wf]
    by (intro wf_canonical) simp_all
qed

theorem lease_expire_restores_demo:
  "lq_inner (snd (expire 5 (snd (lease ''h'' 1 0 demo_queued)))) = lq_inner (snd (expire 5 demo_queued))"
proof -
  have "lease_timeout (lq_cfg demo_queued) = 5" by code_simp
  then show ?thesis
    using lease_expire_restores [OF demo_states(3), of 0 5 "''h''" 1] by (simp add: INSTANT_MAX_def NANOS_PER_SEC_def)
qed

text \<open>
  \<open>ack_below\<close> removes exactly the items that holder has leased and whose ack id is below
  the given one, reports their number, and hands them to the callback oldest first; every
  other entry is untouched.
\<close>

lemma ack_below_exact:
  assumes "queue_reach ok (Q, ps)"
  shows "case ack_below_each h a Q of ((n, items), Q') \<Rightarrow>
    (let acked = {s. \<exists>e. lq_entry Q s = Some e \<and> map_option h_holder (e_lease e) = Some h \<and> e_ack_id e < a}
     in n = card acked \<and> items = map (\<lambda>s. e_item (the (lq_entry Q s))) (sorted_list_of_set acked) \<and>
        (\<forall>s. lq_entry Q' s = (if s \<in> acked then None else lq_entry Q s)))"
proof -
  from reach_wf [OF assms] have wf: "wf_queue Q" by blast
  have "hits h (\<lambda>e. e_ack_id e < a) (lq_entry Q) = {s. \<exists>e. lq_entry Q s = Some e \<and>
      map_option h_holder (e_lease e) = Some h \<and> e_ack_id e < a}"
    by (auto simp: hits_def held_by_def)
  with ack_where_spec(2,3) [OF wf, of h "\<lambda>e. e_ack_id e < a"] show ?thesis
    by (simp add: ack_below_each_def split_beta Let_def drop_all_def)
qed

lemma ack_below_exact_demo:
  "lq_entry (snd (ack_below_each ''h'' 1 demo_leased)) 0 = None"
proof -
  have e: "lq_entry demo_leased 0 = Some \<lparr>e_item = 42, e_key = Some 1, e_ack_id = 0, e_size = 3,
      e_lease = Some \<lparr>h_holder = ''h'', h_deadline = Some 5\<rparr>\<rparr>" by code_simp
  from ack_below_exact [OF demo_states(4), of "''h''" 1] show ?thesis
    by (simp add: e split_beta Let_def)
qed

end
