(* ===== verification/Rate_Limit.thy ===== *)
theory Rate_Limit
  imports Prelude
begin

text \<open>
  The keyed rate limiter of \<open>crates/tgin-runtime/src/limit.rs\<close>: \<open>Quota\<close>, one GCRA step
  (\<open>Quota::book\<close>) and \<open>KeyedLimiter\<close> with its sixteen shards. The hash of \<open>RandomState\<close> is a
  field of the limiter: any function from keys to 64-bit values.
\<close>

section \<open>Quotas\<close>

datatype quota_error = ZeroPeriod

record quota =
  qt_interval :: duration
  qt_tolerance :: duration

definition interval_of :: "nat \<Rightarrow> duration \<Rightarrow> quota_error + duration" where
  "interval_of count per =
     (if per = 0 then Inl ZeroPeriod
      else
        (let floor = per div count
         in Inr (case dur_checked_mul floor count of
                   Some exact \<Rightarrow> if exact = per then floor else dur_sat_add floor 1
                 | None \<Rightarrow> dur_sat_add floor 1)))"

definition quota_new :: "nat \<Rightarrow> duration \<Rightarrow> nat \<Rightarrow> quota_error + quota" where
  "quota_new count per burst =
     (case interval_of count per of
        Inl e \<Rightarrow> Inl e
      | Inr interval \<Rightarrow>
          Inr \<lparr>qt_interval = interval,
               qt_tolerance =
                 (case dur_checked_mul interval (burst - 1) of
                    None \<Rightarrow> DURATION_MAX | Some d \<Rightarrow> d)\<rparr>)"

datatype tat = At instant | Never

record denied =
  retry_after :: duration

definition book ::
  "quota \<Rightarrow> tat option \<Rightarrow> instant \<Rightarrow> duration \<Rightarrow> denied + tat \<times> duration" where
  "book q stored now max_delay =
     (case (case stored of
              None \<Rightarrow> Some now
            | Some (At t) \<Rightarrow> Some (max t now)
            | Some Never \<Rightarrow> None) of
        None \<Rightarrow> Inl \<lparr>retry_after = DURATION_MAX\<rparr>
      | Some t \<Rightarrow>
          (let wait = inst_since t now - qt_tolerance q
           in if wait > max_delay then Inl \<lparr>retry_after = wait\<rparr>
              else Inr ((case inst_checked_add t (qt_interval q) of
                           None \<Rightarrow> Never | Some n \<Rightarrow> At n), wait)))"

section \<open>The keyed limiter\<close>

definition SHARDS :: nat where
  "SHARDS = 16"

record kl_entry =
  ke_tat :: tat
  ke_stamp :: nat

record 'k shard =
  sh_map :: "('k, kl_entry) mapping"
  sh_next_stamp :: nat

record admit =
  ad_delay :: duration
  ad_stamp :: nat
  ad_prev :: "kl_entry option"

record 'k keyed_limiter =
  kl_quota :: quota
  kl_hash :: "'k \<Rightarrow> nat"
  kl_shards :: "'k shard list"

definition limiter_new :: "('k \<Rightarrow> nat) \<Rightarrow> quota \<Rightarrow> 'k keyed_limiter" where
  "limiter_new hash q =
     \<lparr>kl_quota = q, kl_hash = hash,
      kl_shards = replicate SHARDS \<lparr>sh_map = Mapping.empty, sh_next_stamp = 0\<rparr>\<rparr>"

definition shard_index :: "'k keyed_limiter \<Rightarrow> 'k \<Rightarrow> nat" where
  "shard_index l key = kl_hash l key mod SHARDS"

definition shard_acquire ::
  "quota \<Rightarrow> 'k \<Rightarrow> instant \<Rightarrow> duration \<Rightarrow> 'k shard \<Rightarrow> (denied + admit) \<times> 'k shard" where
  "shard_acquire q key now max_delay sh =
     (let prev = Mapping.lookup (sh_map sh) key;
          stamp = sh_next_stamp sh
      in case book q (map_option ke_tat prev) now max_delay of
           Inl d \<Rightarrow> (Inl d, sh)
         | Inr (t, delay) \<Rightarrow>
             (Inr \<lparr>ad_delay = delay, ad_stamp = stamp, ad_prev = prev\<rparr>,
              sh\<lparr>sh_map := Mapping.update key \<lparr>ke_tat = t, ke_stamp = stamp\<rparr> (sh_map sh),
                 sh_next_stamp := wrap_add64 stamp 1\<rparr>))"

definition limiter_acquire ::
  "'k \<Rightarrow> instant \<Rightarrow> duration \<Rightarrow> 'k keyed_limiter \<Rightarrow> (denied + admit) \<times> 'k keyed_limiter" where
  "limiter_acquire key now max_delay l =
     (let i = shard_index l key
      in case shard_acquire (kl_quota l) key now max_delay (kl_shards l ! i) of
           (r, sh) \<Rightarrow> (r, l\<lparr>kl_shards := (kl_shards l)[i := sh]\<rparr>))"

definition shard_cancel :: "'k \<Rightarrow> admit \<Rightarrow> 'k shard \<Rightarrow> 'k shard" where
  "shard_cancel key adm sh =
     (case Mapping.lookup (sh_map sh) key of
        None \<Rightarrow> sh
      | Some entry \<Rightarrow>
          if ke_stamp entry \<noteq> ad_stamp adm then sh
          else
            (case ad_prev adm of
               Some prev \<Rightarrow> sh\<lparr>sh_map := Mapping.update key prev (sh_map sh)\<rparr>
             | None \<Rightarrow> sh\<lparr>sh_map := Mapping.delete key (sh_map sh)\<rparr>))"

definition limiter_cancel :: "'k \<Rightarrow> admit \<Rightarrow> 'k keyed_limiter \<Rightarrow> 'k keyed_limiter" where
  "limiter_cancel key adm l =
     (let i = shard_index l key
      in l\<lparr>kl_shards := (kl_shards l)[i := shard_cancel key adm (kl_shards l ! i)]\<rparr>)"

definition recent :: "instant \<Rightarrow> kl_entry \<Rightarrow> bool" where
  "recent now entry = (case ke_tat entry of At t \<Rightarrow> t > now | Never \<Rightarrow> True)"

definition shard_retain :: "instant \<Rightarrow> 'k shard \<Rightarrow> 'k shard" where
  "shard_retain now sh = sh\<lparr>sh_map := Mapping.filter (\<lambda>_ entry. recent now entry) (sh_map sh)\<rparr>"

definition limiter_retain :: "instant \<Rightarrow> 'k keyed_limiter \<Rightarrow> 'k keyed_limiter" where
  "limiter_retain now l = l\<lparr>kl_shards := map (shard_retain now) (kl_shards l)\<rparr>"

definition limiter_len :: "'k keyed_limiter \<Rightarrow> nat" where
  "limiter_len l = sum_list (map (\<lambda>sh. Mapping.size (sh_map sh)) (kl_shards l))"

definition limiter_is_empty :: "'k keyed_limiter \<Rightarrow> bool" where
  "limiter_is_empty l = list_all (\<lambda>sh. Mapping.is_empty (sh_map sh)) (kl_shards l)"

section \<open>The state of one key\<close>

text \<open>A limiter with its sixteen shards; \<open>entry_of\<close> is the entry of a key.\<close>

definition wf_limiter :: "'k keyed_limiter \<Rightarrow> bool" where
  "wf_limiter l \<longleftrightarrow> length (kl_shards l) = SHARDS"

definition entry_of :: "'k keyed_limiter \<Rightarrow> 'k \<Rightarrow> kl_entry option" where
  "entry_of l key = Mapping.lookup (sh_map (kl_shards l ! shard_index l key)) key"

definition stamp_of :: "'k keyed_limiter \<Rightarrow> 'k \<Rightarrow> nat" where
  "stamp_of l key = sh_next_stamp (kl_shards l ! shard_index l key)"

lemma shard_index_less [simp]: "wf_limiter l \<Longrightarrow> shard_index l key < length (kl_shards l)"
  by (simp add: wf_limiter_def shard_index_def SHARDS_def)

lemma limiter_frame [simp]:
  "kl_quota (snd (limiter_acquire key now d l)) = kl_quota l"
  "kl_quota (limiter_cancel key adm l) = kl_quota l"
  "kl_quota (limiter_retain now l) = kl_quota l"
  "shard_index (snd (limiter_acquire key now d l)) = shard_index l"
  "shard_index (limiter_cancel key adm l) = shard_index l"
  "shard_index (limiter_retain now l) = shard_index l"
  by (simp_all add: limiter_acquire_def limiter_cancel_def limiter_retain_def Let_def split_beta
      shard_index_def fun_eq_iff)

lemma wf_limiter_ops [simp]:
  "wf_limiter (limiter_new hash q)"
  "wf_limiter (snd (limiter_acquire key now d l)) = wf_limiter l"
  "wf_limiter (limiter_cancel key adm l) = wf_limiter l"
  "wf_limiter (limiter_retain now l) = wf_limiter l"
  by (simp_all add: wf_limiter_def limiter_new_def limiter_acquire_def limiter_cancel_def
      limiter_retain_def Let_def split_beta)

lemma entry_of_new [simp]: "entry_of (limiter_new hash q) key = None"
  by (simp add: entry_of_def limiter_new_def shard_index_def SHARDS_def)

lemma fst_limiter_acquire:
  "fst (limiter_acquire key now d l) =
     (case book (kl_quota l) (map_option ke_tat (entry_of l key)) now d of
        Inl e \<Rightarrow> Inl e
      | Inr (t, delay) \<Rightarrow> Inr \<lparr>ad_delay = delay, ad_stamp = stamp_of l key, ad_prev = entry_of l key\<rparr>)"
  by (simp add: limiter_acquire_def shard_acquire_def Let_def entry_of_def stamp_of_def split_beta
      split: sum.split)

lemma entry_of_acquire:
  assumes "wf_limiter l"
  shows "entry_of (snd (limiter_acquire key now d l)) k =
     (case book (kl_quota l) (map_option ke_tat (entry_of l key)) now d of
        Inl e \<Rightarrow> entry_of l k
      | Inr (t, delay) \<Rightarrow>
          if k = key then Some \<lparr>ke_tat = t, ke_stamp = stamp_of l key\<rparr> else entry_of l k)"
  unfolding entry_of_def limiter_frame
  using shard_index_less [OF assms]
  by (auto simp: limiter_acquire_def shard_acquire_def Let_def split_beta stamp_of_def
      nth_list_update split: sum.split)

lemma lookup_shard_cancel:
  "Mapping.lookup (sh_map (shard_cancel key adm sh)) k =
     (if k = key \<and> map_option ke_stamp (Mapping.lookup (sh_map sh) key) = Some (ad_stamp adm)
      then ad_prev adm else Mapping.lookup (sh_map sh) k)"
  by (auto simp: shard_cancel_def split: option.splits)

lemma entry_of_cancel:
  assumes "wf_limiter l"
  shows "entry_of (limiter_cancel key adm l) k =
     (if k = key \<and> map_option ke_stamp (entry_of l key) = Some (ad_stamp adm) then ad_prev adm
      else entry_of l k)"
proof (cases "shard_index l k = shard_index l key")
  case True
  with shard_index_less [OF assms, of key] show ?thesis
    unfolding entry_of_def limiter_frame
    by (auto simp: limiter_cancel_def Let_def lookup_shard_cancel)
next
  case False
  then have "k \<noteq> key" by auto
  with False show ?thesis
    unfolding entry_of_def limiter_frame by (simp add: limiter_cancel_def Let_def)
qed

lemma lookup_filter_mapping:
  "Mapping.lookup (Mapping.filter P m) k =
     (case Mapping.lookup m k of None \<Rightarrow> None | Some v \<Rightarrow> if P k v then Some v else None)"
  by (simp add: lookup_filter split: option.splits)

lemma entry_of_retain:
  assumes "wf_limiter l"
  shows "entry_of (limiter_retain now l) k =
     (case entry_of l k of None \<Rightarrow> None | Some e \<Rightarrow> if recent now e then Some e else None)"
  unfolding entry_of_def limiter_frame
  using shard_index_less [OF assms]
  by (simp add: limiter_retain_def shard_retain_def lookup_filter_mapping)

section \<open>Schedules\<close>

text \<open>
  A run of the limiter: bookings of any keys and sweeps, each at its time. Its trace is the
  start (\<open>now + delay\<close>) of every booking granted.
\<close>

datatype 'k lop = Acquire 'k instant duration | Sweep instant

primrec op_time :: "'k lop \<Rightarrow> instant" where
  "op_time (Acquire k now d) = now"
| "op_time (Sweep now) = now"

fun limiter_run :: "'k lop list \<Rightarrow> 'k keyed_limiter \<Rightarrow> ('k \<times> instant) list" where
  "limiter_run [] l = []"
| "limiter_run (Acquire k now d # ops) l =
     (case limiter_acquire k now d l of
        (Inl _, l') \<Rightarrow> limiter_run ops l'
      | (Inr adm, l') \<Rightarrow> (k, now + ad_delay adm) # limiter_run ops l')"
| "limiter_run (Sweep now # ops) l = limiter_run ops (limiter_retain now l)"

definition starts_of :: "'k \<Rightarrow> ('k \<times> instant) list \<Rightarrow> instant list" where
  "starts_of key tr = map snd (filter (\<lambda>x. fst x = key) tr)"

lemma starts_of_simps [simp]:
  "starts_of key [] = []"
  "starts_of key ((k, s) # tr) = (if k = key then s # starts_of key tr else starts_of key tr)"
  by (simp_all add: starts_of_def)

text \<open>
  \<open>spaced T tau a ts\<close>: the starts \<open>ts\<close> are no earlier than a schedule that begins at \<open>a\<close> with
  one start per \<open>T\<close>, shifted ahead by \<open>tau\<close> at most, and keep that distance to each other.
\<close>

definition spaced :: "nat \<Rightarrow> nat \<Rightarrow> nat \<Rightarrow> nat list \<Rightarrow> bool" where
  "spaced T tau a ts \<longleftrightarrow>
     (\<forall>j < length ts. a + j * T \<le> ts ! j + tau) \<and>
     (\<forall>j < length ts. \<forall>i < j. ts ! i + (j - i) * T \<le> ts ! j + tau)"

lemma spaced_Nil [simp]: "spaced T tau a []"
  by (simp add: spaced_def)

lemma spaced_mono: "spaced T tau a ts \<Longrightarrow> b \<le> a \<Longrightarrow> spaced T tau b ts"
  unfolding spaced_def by (meson add_le_mono1 le_trans)

lemma spaced_Cons:
  assumes "spaced T tau (a + T) ts" and "s \<le> a" and "a \<le> s + tau"
  shows "spaced T tau a (s # ts)"
proof -
  have A: "a + (j * T + T) \<le> ts ! j + tau" if "j < length ts" for j
    using assms(1) that by (auto simp: spaced_def algebra_simps)
  have B: "ts ! i + (j - i) * T \<le> ts ! j + tau" if "j < length ts" "i < j" for i j
    using assms(1) that by (auto simp: spaced_def)
  have "a + j * T \<le> (s # ts) ! j + tau" if "j < length (s # ts)" for j
    using A [of "j - 1"] that assms(3) by (cases j) auto
  moreover have "(s # ts) ! i + (j - i) * T \<le> (s # ts) ! j + tau"
    if ij: "j < length (s # ts)" "i < j" for i j
  proof -
    obtain j' where j: "j = Suc j'" "j' < length ts" using ij by (cases j) auto
    show ?thesis
    proof (cases i)
      case 0
      with A [OF j(2)] assms(2) j show ?thesis by auto
    next
      case (Suc i')
      with B [OF j(2), of i'] ij j show ?thesis by simp
    qed
  qed
  ultimately show ?thesis unfolding spaced_def by blast
qed

text \<open>The earliest schedule a key's next booking at or after \<open>t\<close> continues; \<open>None\<close> if never.\<close>

definition due :: "'k keyed_limiter \<Rightarrow> 'k \<Rightarrow> instant \<Rightarrow> instant option" where
  "due l key t = (case map_option ke_tat (entry_of l key) of
     None \<Rightarrow> Some t | Some (At u) \<Rightarrow> Some (max u t) | Some Never \<Rightarrow> None)"

lemma book_due:
  "book q (map_option ke_tat (entry_of l key)) now d =
     (case due l key now of
        None \<Rightarrow> Inl \<lparr>retry_after = DURATION_MAX\<rparr>
      | Some a \<Rightarrow>
          if a - now - qt_tolerance q > d then Inl \<lparr>retry_after = a - now - qt_tolerance q\<rparr>
          else Inr (case inst_checked_add a (qt_interval q) of None \<Rightarrow> Never | Some n \<Rightarrow> At n,
                    a - now - qt_tolerance q))"
  by (auto simp: book_def due_def Let_def inst_since_def split: option.splits tat.splits)

lemma due_mono: "t \<le> t' \<Longrightarrow> case due l key t' of None \<Rightarrow> due l key t = None
    | Some a' \<Rightarrow> \<exists>a. due l key t = Some a \<and> a \<le> a'"
  by (auto simp: due_def split: option.splits tat.splits)

lemma due_acquire_other:
  "wf_limiter l \<Longrightarrow> k \<noteq> key \<Longrightarrow> due (snd (limiter_acquire k now d l)) key t = due l key t"
  by (auto simp: due_def entry_of_acquire split: sum.splits)

lemma due_acquire_same:
  assumes "wf_limiter l" and "due l key now = Some a"
    and "\<not> a - now - qt_tolerance (kl_quota l) > d"
  shows "due (snd (limiter_acquire key now d l)) key t =
    map_option (\<lambda>n. max n t) (inst_checked_add a (qt_interval (kl_quota l)))"
  using assms(2,3)
  by (auto simp: due_def [of "snd (limiter_acquire key now d l)"] entry_of_acquire [OF assms(1)]
      book_due split: option.splits)

lemma due_retain:
  "wf_limiter l \<Longrightarrow> now \<le> t \<Longrightarrow> due (limiter_retain now l) key t = due l key t"
  by (auto simp: due_def entry_of_retain recent_def split: option.splits tat.splits if_splits)

definition ahead :: "nat \<Rightarrow> nat \<Rightarrow> nat option \<Rightarrow> nat list \<Rightarrow> bool" where
  "ahead T tau a ts = (case a of None \<Rightarrow> ts = [] | Some a \<Rightarrow> spaced T tau a ts)"

lemma ahead_mono:
  "ahead T tau (due l key t') ts \<Longrightarrow> t \<le> t' \<Longrightarrow> ahead T tau (due l key t) ts"
  using due_mono [of t t' l key]
  by (auto simp: ahead_def intro: spaced_mono split: option.splits)

lemma fst_acquire_due:
  "fst (limiter_acquire key now d l) = Inr adm \<longleftrightarrow>
     (\<exists>a. due l key now = Some a \<and> \<not> a - now - qt_tolerance (kl_quota l) > d \<and>
        adm = \<lparr>ad_delay = a - now - qt_tolerance (kl_quota l), ad_stamp = stamp_of l key,
               ad_prev = entry_of l key\<rparr>)"
  by (auto simp: fst_limiter_acquire book_due split: option.splits)

lemma run_ahead:
  assumes "wf_limiter l" and "sorted (map op_time ops)" and "\<forall>op \<in> set ops. t \<le> op_time op"
  shows "ahead (qt_interval (kl_quota l)) (qt_tolerance (kl_quota l)) (due l key t)
    (starts_of key (limiter_run ops l))"
  using assms
proof (induction ops arbitrary: l t)
  case Nil
  then show ?case by (simp add: ahead_def split: option.splits)
next
  case (Cons op ops)
  let ?T = "qt_interval (kl_quota l)" and ?tau = "qt_tolerance (kl_quota l)"
  have later: "\<forall>op' \<in> set ops. op_time op \<le> op_time op'" and srt: "sorted (map op_time ops)"
    and t: "t \<le> op_time op"
    using Cons.prems by auto
  have "ahead ?T ?tau (due l key (op_time op)) (starts_of key (limiter_run (op # ops) l))"
  proof (cases op)
    case (Sweep now)
    with Cons.IH [of "limiter_retain now l" now] Cons.prems(1) srt later due_retain [of l now now]
    show ?thesis by simp
  next
    case (Acquire k now d)
    obtain r l' where r: "limiter_acquire k now d l = (r, l')" by (cases "limiter_acquire k now d l")
    then have l': "snd (limiter_acquire k now d l) = l'" and fr: "fst (limiter_acquire k now d l) = r"
      by simp_all
    have wf': "wf_limiter l'" "kl_quota l' = kl_quota l"
      using Cons.prems(1) unfolding l' [symmetric] by simp_all
    have IH: "ahead ?T ?tau (due l' key now) (starts_of key (limiter_run ops l'))"
      using Cons.IH [of l' now] wf' srt later Acquire by simp
    show ?thesis
    proof (cases "k = key")
      case False
      with due_acquire_other [OF Cons.prems(1) False, of now d now, unfolded l'] IH r Acquire
      show ?thesis by (cases r) simp_all
    next
      case True
      show ?thesis
      proof (cases r)
        case (Inl e)
        with fr have "book (kl_quota l) (map_option ke_tat (entry_of l k)) now d = Inl e"
          by (auto simp: fst_limiter_acquire split: sum.splits)
        then have "entry_of l' key = entry_of l key"
          using True Cons.prems(1) by (simp add: l' [symmetric] entry_of_acquire)
        then have "due l' key now = due l key now" by (simp add: due_def)
        with IH r Inl Acquire show ?thesis by simp
      next
        case (Inr adm)
        with fr True fst_acquire_due [of key now d l adm] obtain a where
          a: "due l key now = Some a" "\<not> a - now - ?tau > d" "ad_delay adm = a - now - ?tau"
          by auto
        from a(1) have na: "now \<le> a" by (auto simp: due_def split: option.splits tat.splits)
        let ?ts = "starts_of key (limiter_run ops l')"
        have "spaced ?T ?tau (a + ?T) ?ts"
          using IH due_acquire_same [OF Cons.prems(1) a(1,2), of now] True l'
          by (auto simp: ahead_def inst_checked_add_def intro: spaced_mono split: if_splits option.splits)
        then have "spaced ?T ?tau a ((now + ad_delay adm) # ?ts)"
          by (rule spaced_Cons) (use a(3) na in auto)
        with a(1) r Inr Acquire True show ?thesis by (simp add: ahead_def)
      qed
    qed
  qed
  from ahead_mono [OF this t] show ?case .
qed

section \<open>Properties\<close>

lemma interval_of_ceil:
  assumes "interval_of count per = Inr T" and "0 < count" and "per \<le> DURATION_MAX"
  shows "per \<le> T * count" and "(T - 1) * count < per" and "0 < T" and "0 < per"
proof -
  let ?f = "per div count"
  have pos: "0 < per" using assms(1) by (simp add: interval_of_def split: if_splits)
  have le: "?f * count \<le> per" by simp
  then have m: "dur_checked_mul ?f count = Some (?f * count)"
    using assms(3) order_trans [OF le assms(3)] by (simp add: dur_checked_mul_def)
  have lt: "per < ?f * count + count"
    using assms(2) by (metis add.commute div_mult_mod_eq mod_less_divisor nat_add_left_cancel_less)
  have "?f < DURATION_MAX" if "?f * count \<noteq> per"
  proof -
    have "count \<noteq> 1" using that by auto
    with assms(2) have "?f < per" using pos by simp
    with assms(3) show ?thesis by simp
  qed
  then have T: "T = (if ?f * count = per then ?f else ?f + 1)"
    using assms(1) pos m by (auto simp: interval_of_def Let_def dur_sat_add_def)
  show "0 < per" by (rule pos)
  have "0 < T \<and> per \<le> T * count \<and> (T - 1) * count < per"
  proof (cases "?f * count = per")
    case True
    then have "0 < ?f" using pos by (cases "?f = 0") auto
    moreover have "(?f - 1) * count < ?f * count" using assms(2) \<open>0 < ?f\<close> by simp
    ultimately show ?thesis using True by (simp add: T)
  next
    case False
    with le_neq_implies_less [OF le False] lt show ?thesis by (simp add: T)
  qed
  then show "0 < T" "per \<le> T * count" "(T - 1) * count < per" by blast+
qed

lemma quota_new_bounds:
  assumes "quota_new count per burst = Inr q" and "0 < count" and "0 < burst" and "per \<le> DURATION_MAX"
  shows "per \<le> qt_interval q * count" and "qt_tolerance q + qt_interval q \<le> qt_interval q * burst"
proof -
  from assms(1) obtain T where T: "interval_of count per = Inr T" "qt_interval q = T"
    "qt_tolerance q = (case dur_checked_mul T (burst - 1) of None \<Rightarrow> DURATION_MAX | Some d \<Rightarrow> d)"
    by (auto simp: quota_new_def split: sum.splits)
  from T(3) have "qt_tolerance q \<le> T * (burst - 1)"
    by (auto simp: dur_checked_mul_def split: if_splits)
  moreover have "T * (burst - 1) + T = T * burst"
    using assms(3) by (cases burst) auto
  ultimately show "qt_tolerance q + qt_interval q \<le> qt_interval q * burst" by (simp add: T(2))
  show "per \<le> qt_interval q * count"
    using interval_of_ceil(1) [OF T(1) assms(2,4)] by (simp add: T(2))
qed


definition demo_ops :: "nat lop list" where
  "demo_ops = [Acquire 1 0 100, Acquire 1 0 100, Acquire 2 0 100, Acquire 1 0 100]"


subsection \<open>Sweeping\<close>

text \<open>Two limiters that answer alike from time \<open>t\<close> on.\<close>

definition alike :: "instant \<Rightarrow> 'k keyed_limiter \<Rightarrow> 'k keyed_limiter \<Rightarrow> bool" where
  "alike t l l' \<longleftrightarrow> wf_limiter l \<and> wf_limiter l' \<and> kl_quota l = kl_quota l' \<and>
     (\<forall>key. \<forall>u \<ge> t. due l key u = due l' key u)"

lemma alike_later: "alike t l l' \<Longrightarrow> t \<le> u \<Longrightarrow> alike u l l'"
  by (auto simp: alike_def)

lemma alike_retain: "wf_limiter l \<Longrightarrow> alike now (limiter_retain now l) l"
  by (simp add: alike_def due_retain)

lemma alike_acquire:
  assumes "alike now l l'"
  shows "map_sum id ad_delay (fst (limiter_acquire key now d l)) =
      map_sum id ad_delay (fst (limiter_acquire key now d l'))"
    and "alike now (snd (limiter_acquire key now d l)) (snd (limiter_acquire key now d l'))"
proof -
  have dq: "due l key now = due l' key now" "kl_quota l = kl_quota l'" "wf_limiter l" "wf_limiter l'"
    using assms by (auto simp: alike_def)
  then have b: "book (kl_quota l) (map_option ke_tat (entry_of l key)) now d =
      book (kl_quota l') (map_option ke_tat (entry_of l' key)) now d"
    by (simp add: book_due)
  then show "map_sum id ad_delay (fst (limiter_acquire key now d l)) =
      map_sum id ad_delay (fst (limiter_acquire key now d l'))"
    by (auto simp: fst_limiter_acquire split: sum.splits)
  have "due (snd (limiter_acquire key now d l)) k u = due (snd (limiter_acquire key now d l')) k u"
    if "now \<le> u" for k u
  proof -
    have o: "due l k u = due l' k u" using assms that by (auto simp: alike_def)
    show ?thesis
      using o [unfolded due_def] b
      by (auto simp: due_def entry_of_acquire [OF dq(3)] entry_of_acquire [OF dq(4)] split: sum.splits)
  qed
  with dq show "alike now (snd (limiter_acquire key now d l)) (snd (limiter_acquire key now d l'))"
    by (simp add: alike_def)
qed

lemma alike_sweep: "alike now l l' \<Longrightarrow> alike now (limiter_retain now l) (limiter_retain now l')"
  by (auto simp: alike_def due_retain)

lemma alike_run:
  assumes "alike t l l'" and "sorted (map op_time ops)" and "\<forall>op \<in> set ops. t \<le> op_time op"
  shows "limiter_run ops l = limiter_run ops l'"
  using assms
proof (induction ops arbitrary: t l l')
  case (Cons op ops)
  have al: "alike (op_time op) l l'" using Cons.prems(1,3) by (auto intro: alike_later)
  have later: "\<forall>op' \<in> set ops. op_time op \<le> op_time op'" "sorted (map op_time ops)"
    using Cons.prems by auto
  show ?case
  proof (cases op)
    case (Sweep now)
    with Cons.IH [OF alike_sweep [OF al [unfolded Sweep op_time.simps]]] later show ?thesis by simp
  next
    case (Acquire k now d)
    note a = alike_acquire [OF al [unfolded Acquire op_time.simps], of k d]
    have run: "limiter_run ops (snd (limiter_acquire k now d l)) =
        limiter_run ops (snd (limiter_acquire k now d l'))"
      using Cons.IH [OF a(2)] later Acquire by simp
    obtain r m r' m' where e: "limiter_acquire k now d l = (r, m)" "limiter_acquire k now d l' = (r', m')"
      by (metis surj_pair)
    with a(1) run Acquire show ?thesis by (cases r; cases r') auto
  qed
qed simp

text \<open>
  C11. A sweep is invisible: \<open>retain_recent(now)\<close> changes no answer of any later run, for any
  key, although it forgets keys.
\<close>

theorem sweep_invisible:
  assumes "wf_limiter l" and "sorted (map op_time ops)" and "\<forall>op \<in> set ops. now \<le> op_time op"
  shows "limiter_run ops (limiter_retain now l) = limiter_run ops l"
  using alike_run [OF alike_retain [OF assms(1)] assms(2,3)] .

theorem sweep_invisible_witness:
  "limiter_run demo_ops (limiter_retain 0 (limiter_new id \<lparr>qt_interval = 10, qt_tolerance = 0\<rparr>)) =
   limiter_run demo_ops (limiter_new (id :: nat \<Rightarrow> nat) \<lparr>qt_interval = 10, qt_tolerance = 0\<rparr>)"
  by (rule sweep_invisible) (simp_all add: demo_ops_def)

subsection \<open>Denials and cancels\<close>

text \<open>
  A denial is exact: with \<open>retry_after\<close> below \<open>Duration::MAX\<close>, a request for the key is
  granted at once when made that much later, with no delay allowed, and is denied at every
  earlier moment; a denied request changes nothing.
\<close>

theorem denial_exact:
  assumes "limiter_acquire key now d l = (Inl e, l')" and "retry_after e < DURATION_MAX"
    and "wf_limiter l"
  shows "map_sum id ad_delay (fst (limiter_acquire key (now + retry_after e) 0 l')) = Inr 0 \<and>
    (\<forall>wait < retry_after e. isl (fst (limiter_acquire key (now + wait) 0 l'))) \<and>
    (\<forall>k. entry_of l' k = entry_of l k)"
proof -
  have b: "book (kl_quota l) (map_option ke_tat (entry_of l key)) now d = Inl e"
    using assms(1) fst_limiter_acquire [of key now d l] by (auto split: sum.splits)
  have eo: "\<forall>k. entry_of l' k = entry_of l k" and q: "kl_quota l' = kl_quota l"
    using entry_of_acquire [OF assms(3), of key now d] b assms(1)
      limiter_frame(1) [of key now d l] by auto
  from b assms(2) obtain u where u: "map_option ke_tat (entry_of l key) = Some (At u)"
    "retry_after e = max u now - now - qt_tolerance (kl_quota l)" "retry_after e > d"
    by (auto simp: book_def Let_def inst_since_def split: option.splits tat.splits if_splits)
  have u': "map_option ke_tat (entry_of l' key) = Some (At u)" using u(1) eo by simp
  have "now < u" using u by (auto simp: max_def split: if_splits)
  then show ?thesis
    using u(2) eo q unfolding fst_limiter_acquire u'
    by (auto simp: book_def Let_def inst_since_def)
qed

definition demo_busy :: "nat keyed_limiter" where
  "demo_busy = snd (limiter_acquire 1 0 0 (limiter_new id \<lparr>qt_interval = 10, qt_tolerance = 0\<rparr>))"

theorem denial_exact_demo:
  "map_sum id ad_delay (fst (limiter_acquire 1 10 0 (snd (limiter_acquire 1 0 5 demo_busy)))) = Inr 0"
proof -
  have e: "limiter_acquire 1 0 5 demo_busy = (Inl \<lparr>retry_after = 10\<rparr>, snd (limiter_acquire 1 0 5 demo_busy))"
    by (rule prod_eqI, code_simp) simp
  from denial_exact [OF e] show ?thesis
    by (simp add: demo_busy_def DURATION_MAX_def NANOS_PER_SEC_def)
qed

primrec acquire_all :: "('k \<times> instant \<times> duration) list \<Rightarrow> 'k keyed_limiter \<Rightarrow>
    (denied + admit) list \<times> 'k keyed_limiter" where
  "acquire_all [] l = ([], l)"
| "acquire_all (op # ops) l =
     (case limiter_acquire (fst op) (fst (snd op)) (snd (snd op)) l of
        (r, l1) \<Rightarrow> (case acquire_all ops l1 of (rs, l2) \<Rightarrow> (r # rs, l2)))"

lemma stamp_of_acquire:
  assumes "wf_limiter l"
  shows "stamp_of (snd (limiter_acquire key now d l)) k =
    (if shard_index l k = shard_index l key \<and> \<not> isl (fst (limiter_acquire key now d l))
     then wrap_add64 (stamp_of l k) 1 else stamp_of l k)"
  unfolding stamp_of_def limiter_frame
  using shard_index_less [OF assms, of key]
  by (auto simp: limiter_acquire_def shard_acquire_def Let_def split_beta nth_list_update
      split: sum.split)

text \<open>The same facts for a named result and successor.\<close>

lemma acquire_eqD:
  assumes "limiter_acquire key now d l = (r, l')" and "wf_limiter l"
  shows "wf_limiter l'" and "isl r \<Longrightarrow> entry_of l' k = entry_of l k"
    and "k \<noteq> key \<Longrightarrow> entry_of l' k = entry_of l k"
    and "\<not> isl r \<Longrightarrow> \<exists>e. entry_of l' key = Some e \<and> ke_stamp e = stamp_of l key"
    and "r = Inr adm \<Longrightarrow> ad_stamp adm = stamp_of l key \<and> ad_prev adm = entry_of l key"
    and "stamp_of l' k = (if shard_index l k = shard_index l key \<and> \<not> isl r
       then wrap_add64 (stamp_of l k) 1 else stamp_of l k)"
proof -
  have r: "fst (limiter_acquire key now d l) = r" and l': "snd (limiter_acquire key now d l) = l'"
    using assms(1) by simp_all
  show "wf_limiter l'" using assms(2) by (simp add: l' [symmetric])
  show "k \<noteq> key \<Longrightarrow> entry_of l' k = entry_of l k" "isl r \<Longrightarrow> entry_of l' k = entry_of l k"
    "\<not> isl r \<Longrightarrow> \<exists>e. entry_of l' key = Some e \<and> ke_stamp e = stamp_of l key"
    using r entry_of_acquire [OF assms(2), of key now d, unfolded l']
    by (auto simp: fst_limiter_acquire split: sum.splits)
  show "r = Inr adm \<Longrightarrow> ad_stamp adm = stamp_of l key \<and> ad_prev adm = entry_of l key"
    using r by (auto simp: fst_limiter_acquire split: sum.splits)
  show "stamp_of l' k = (if shard_index l k = shard_index l key \<and> \<not> isl r
       then wrap_add64 (stamp_of l k) 1 else stamp_of l k)"
    using stamp_of_acquire [OF assms(2), of key now d k] by (simp add: r l')
qed

lemma denied_all_entry:
  assumes "wf_limiter l" and "stamp_of l key + length ops < U64_MAX" and "stamp < stamp_of l key"
    and "acquire_all ops l = (rs, l')"
  shows "if \<forall>i < length ops. fst (ops ! i) = key \<longrightarrow> isl (rs ! i)
    then entry_of l' key = entry_of l key
    else \<exists>e. entry_of l' key = Some e \<and> stamp < ke_stamp e"
  using assms
proof (induction ops arbitrary: l rs)
  case (Cons op ops)
  obtain k now d where op: "op = (k, now, d)" by (cases op) auto
  obtain r l1 rs1 where st: "limiter_acquire k now d l = (r, l1)" "acquire_all ops l1 = (rs1, l')"
    "rs = r # rs1"
    using Cons.prems(4) by (auto simp: op split: prod.splits)
  note a = acquire_eqD [OF st(1) Cons.prems(1)]
  note wf1 = a(1)
  have s1: "stamp_of l key \<le> stamp_of l1 key" "stamp_of l1 key \<le> stamp_of l key + 1"
    using a(6) [of key] Cons.prems(2) by (auto simp: wrap_add64_exact)
  note IH = Cons.IH [OF wf1 _ _ st(2)]
  have split: "(\<forall>i < length (op # ops). fst ((op # ops) ! i) = key \<longrightarrow> isl (rs ! i)) \<longleftrightarrow>
      (k = key \<longrightarrow> isl r) \<and> (\<forall>i < length ops. fst (ops ! i) = key \<longrightarrow> isl (rs1 ! i))"
    by (auto simp: op st(3) less_Suc_eq_0_disj nth_Cons')
  show ?case
  proof (cases "k = key \<and> \<not> isl r")
    case False
    have "entry_of l1 key = entry_of l key" using False a(2,3) [of key] by blast
    with False IH s1 Cons.prems(2,3) split show ?thesis by auto
  next
    case True
    then obtain e where e: "entry_of l1 key = Some e" "ke_stamp e = stamp_of l key"
      using a(4) by auto
    with True IH s1 Cons.prems(2,3) split show ?thesis by (auto split: if_splits)
  qed
qed simp

text \<open>
  \<open>cancel\<close> undoes exactly the latest booking: after a granted booking for a key and any
  further requests for any keys, cancelling it restores the key's state before the booking if
  none of those requests was granted a slot of that key, and changes nothing otherwise; and
  no other key is ever affected.
\<close>

theorem cancel_undoes:
  assumes "wf_limiter l" and "stamp_of l key + length ops + 1 < U64_MAX"
    and "limiter_acquire key now d l = (Inr adm, l1)" and "acquire_all ops l1 = (rs, l2)"
  shows "entry_of (limiter_cancel key adm l2) key =
      (if \<forall>i < length ops. fst (ops ! i) = key \<longrightarrow> isl (rs ! i) then entry_of l key
       else entry_of l2 key) \<and>
    (\<forall>k. k \<noteq> key \<longrightarrow> entry_of (limiter_cancel key adm l2) k = entry_of l2 k)"
proof -
  note a = acquire_eqD [OF assms(3,1)]
  note wf1 = a(1)
  have wf2: "wf_limiter l2"
    using assms(4) wf1
  proof (induction ops arbitrary: l1 rs)
    case (Cons op ops)
    obtain r m where m: "limiter_acquire (fst op) (fst (snd op)) (snd (snd op)) l1 = (r, m)" by fastforce
    have "wf_limiter m" by (rule acquire_eqD(1) [OF m Cons.prems(2)])
    with Cons.IH [of m "tl rs"] Cons.prems(1) m show ?case by (auto split: prod.splits)
  qed simp
  have adm: "ad_stamp adm = stamp_of l key" "ad_prev adm = entry_of l key"
    "\<exists>e. entry_of l1 key = Some e \<and> ke_stamp e = stamp_of l key"
    using a(4,5) by simp_all
  have s1: "stamp_of l1 key = stamp_of l key + 1"
    using a(6) [of key] assms(2) by (simp add: wrap_add64_exact)
  have "if \<forall>i < length ops. fst (ops ! i) = key \<longrightarrow> isl (rs ! i) then entry_of l2 key = entry_of l1 key
      else \<exists>e. entry_of l2 key = Some e \<and> stamp_of l key < ke_stamp e"
    by (rule denied_all_entry [OF wf1 _ _ assms(4)]) (use s1 assms(2) in auto)
  with adm show ?thesis by (auto simp: entry_of_cancel [OF wf2] split: if_splits)
qed

theorem cancel_undoes_demo:
  "entry_of (limiter_cancel 1 \<lparr>ad_delay = 10, ad_stamp = 1, ad_prev = entry_of demo_busy 1\<rparr>
     (snd (limiter_acquire 1 0 99 demo_busy))) 1 = entry_of demo_busy 1"
proof -
  have a: "limiter_acquire 1 0 99 demo_busy =
      (Inr \<lparr>ad_delay = 10, ad_stamp = 1, ad_prev = entry_of demo_busy 1\<rparr>, snd (limiter_acquire 1 0 99 demo_busy))"
    by (rule prod_eqI, code_simp) simp
  have wf: "wf_limiter demo_busy" by (simp add: demo_busy_def)
  have "stamp_of demo_busy 1 = 1" by code_simp
  then have "stamp_of demo_busy 1 + 0 + 1 < U64_MAX" by (simp add: U64_MAX_def)
  with cancel_undoes [OF wf _ a, of "[]" "[]"] show ?thesis by simp
qed

end
