(* ===== verification/Slot_Calendar.thy ===== *)
theory Slot_Calendar
  imports Rate_Limit
begin

text \<open>
  The calendar limiter of \<open>crates/tgin-runtime/src/limit.rs\<close>, \<open>SlotCalendar\<close>: bookings as a
  sorted list of instants and a floor they are folded into. The offsets of \<open>earliest\<close> are
  \<open>i128\<close> values with saturating arithmetic (\<open>sat128\<close>); \<open>partition_point\<close> on a sorted deque is
  the length of the longest prefix that satisfies the predicate. The theory shows that a
  booking takes the earliest instant that keeps the calendar a schedule the GCRA admits.
\<close>

section \<open>The calendar\<close>

record calendar =
  cal_floor :: "instant option"
  cal_slots :: "instant list"

record booking =
  bk_delay :: duration
  bk_at :: instant

record slot_calendar =
  sc_quota :: quota
  sc_state :: calendar

definition calendar_new :: "nat \<Rightarrow> duration \<Rightarrow> nat \<Rightarrow> quota_error + slot_calendar" where
  "calendar_new count per burst =
     (case quota_new count per burst of
        Inl e \<Rightarrow> Inl e
      | Inr q \<Rightarrow> Inr \<lparr>sc_quota = q, sc_state = \<lparr>cal_floor = None, cal_slots = []\<rparr>\<rparr>)"

definition partition_point :: "('a \<Rightarrow> bool) \<Rightarrow> 'a list \<Rightarrow> nat" where
  "partition_point P xs = length (takeWhile P xs)"

text \<open>The loop of \<open>fold_before\<close>: how many slots it folded, and the floor after.\<close>

fun fold_loop :: "duration \<Rightarrow> instant list \<Rightarrow> instant option \<Rightarrow> nat \<times> instant option" where
  "fold_loop T [] floor = (0, floor)"
| "fold_loop T (slot # slots) floor =
     (case inst_checked_add (case floor of None \<Rightarrow> slot | Some f \<Rightarrow> max f slot) T of
        None \<Rightarrow> (0, floor)
      | Some n \<Rightarrow> (case fold_loop T slots (Some n) of (folded, floor') \<Rightarrow> (folded + 1, floor')))"

definition fold_before :: "quota \<Rightarrow> instant \<Rightarrow> calendar \<Rightarrow> calendar" where
  "fold_before q now st =
     (let before_now = partition_point (\<lambda>slot. slot < now) (cal_slots st)
      in case fold_loop (qt_interval q) (take before_now (cal_slots st)) (cal_floor st) of
           (folded, floor) \<Rightarrow> \<lparr>cal_floor = floor, cal_slots = drop folded (cal_slots st)\<rparr>)"

definition I128_MAX :: int where
  "I128_MAX = 2 ^ 127 - 1"

definition sat128 :: "int \<Rightarrow> int" where
  "sat128 x = max (- I128_MAX - 1) (min I128_MAX x)"

definition nanos :: "duration \<Rightarrow> int" where
  "nanos d = (if int d \<le> I128_MAX then int d else I128_MAX)"

fun suffix_mins :: "int list \<Rightarrow> int option list" where
  "suffix_mins [] = [None]"
| "suffix_mins (x # xs) =
     (let ms = suffix_mins xs
      in Some (case hd ms of None \<Rightarrow> x | Some m \<Rightarrow> min m x) # ms)"

definition opt_max :: "int option \<Rightarrow> int \<Rightarrow> int option" where
  "opt_max m x = Some (case m of None \<Rightarrow> x | Some y \<Rightarrow> max y x)"

text \<open>
  The search of \<open>earliest\<close> over the positions \<open>p\<close>; \<open>offs\<close> are the offsets of the slots,
  \<open>s\<close> their \<open>s_k\<close> and \<open>sm\<close> the suffix minima.
\<close>

fun earliest_loop ::
  "int \<Rightarrow> int \<Rightarrow> int list \<Rightarrow> int list \<Rightarrow> int option list \<Rightarrow> nat \<Rightarrow> int \<Rightarrow> int option \<Rightarrow> nat list \<Rightarrow>
     int option" where
  "earliest_loop T tau offs s sm first start prefix_max [] = None"
| "earliest_loop T tau offs s sm first start prefix_max (p # ps) =
     (let low = (if p = first then start else offs ! (p - 1));
          shift = sat128 (int p * T);
          after = map_option (\<lambda>m. sat128 (m - T)) (sm ! p);
          spans = (case (prefix_max, after) of
                     (Some b, Some a) \<Rightarrow> sat128 (b - a) \<le> tau
                   | _ \<Rightarrow> True);
          lower = (case prefix_max of
                     None \<Rightarrow> low
                   | Some b \<Rightarrow> max low (sat128 (sat128 (b - tau) + shift)));
          upper = map_option (\<lambda>a. sat128 (sat128 (a + tau) + shift)) after;
          below_next = (p < length offs \<longrightarrow> lower < offs ! p)
      in if spans \<and> below_next \<and> (case upper of None \<Rightarrow> True | Some u \<Rightarrow> lower \<le> u)
         then Some lower
         else earliest_loop T tau offs s sm first start
                (if p < length s then opt_max prefix_max (s ! p) else prefix_max) ps)"

definition instant_at :: "instant \<Rightarrow> int \<Rightarrow> instant option" where
  "instant_at origin lower =
     (if lower < 0 then None
      else if nat lower div 1000000000 > U64_MAX then None
      else inst_checked_add origin (nat lower))"

definition origin_of :: "calendar \<Rightarrow> instant \<Rightarrow> instant" where
  "origin_of st start =
     foldl min start
       ((case cal_slots st of [] \<Rightarrow> [] | t # _ \<Rightarrow> [t]) @
        (case cal_floor st of None \<Rightarrow> [] | Some f \<Rightarrow> [f]))"

definition earliest :: "quota \<Rightarrow> calendar \<Rightarrow> instant \<Rightarrow> instant option" where
  "earliest q st start =
     (let slots = cal_slots st;
          interval = nanos (qt_interval q);
          tolerance = nanos (qt_tolerance q);
          origin = origin_of st start;
          offset = (\<lambda>t. nanos (inst_since t origin));
          offs = map offset slots;
          s = map (\<lambda>k. sat128 (offs ! k - sat128 (int k * interval))) [0..<length slots];
          first = partition_point (\<lambda>slot. slot \<le> start) slots;
          prefix_max = fold (\<lambda>x m. opt_max m x)
            (take first s @ (case cal_floor st of None \<Rightarrow> [] | Some f \<Rightarrow> [offset f])) None
      in case earliest_loop interval tolerance offs s (suffix_mins s) first (offset start) prefix_max
                [first..<length s + 1] of
           None \<Rightarrow> None
         | Some lower \<Rightarrow> instant_at origin lower)"

definition insert_slot :: "instant \<Rightarrow> instant list \<Rightarrow> instant list" where
  "insert_slot t slots =
     (let i = partition_point (\<lambda>slot. slot \<le> t) slots in take i slots @ t # drop i slots)"

definition calendar_acquire ::
  "instant \<Rightarrow> duration \<Rightarrow> duration \<Rightarrow> slot_calendar \<Rightarrow> (denied + booking) \<times> slot_calendar" where
  "calendar_acquire now from_now max_delay c =
     (let never = \<lparr>retry_after = DURATION_MAX\<rparr> in
      case inst_checked_add now from_now of
        None \<Rightarrow> (Inl never, c)
      | Some start \<Rightarrow>
          (let st = fold_before (sc_quota c) now (sc_state c);
               c = c\<lparr>sc_state := st\<rparr>
           in case earliest (sc_quota c) st start of
                None \<Rightarrow> (Inl never, c)
              | Some t \<Rightarrow>
                  (let delay = inst_since t now
                   in if delay > max_delay then (Inl \<lparr>retry_after = delay\<rparr>, c)
                      else (Inr \<lparr>bk_delay = delay, bk_at = t\<rparr>,
                            c\<lparr>sc_state := st\<lparr>cal_slots := insert_slot t (cal_slots st)\<rparr>\<rparr>))))"

definition calendar_cancel :: "booking \<Rightarrow> slot_calendar \<Rightarrow> slot_calendar" where
  "calendar_cancel b c =
     (let slots = cal_slots (sc_state c);
          i = partition_point (\<lambda>slot. slot < bk_at b) slots
      in if i < length slots \<and> slots ! i = bk_at b
         then c\<lparr>sc_state := (sc_state c)\<lparr>cal_slots := take i slots @ drop (i + 1) slots\<rparr>\<rparr>
         else c)"

definition calendar_retain :: "instant \<Rightarrow> slot_calendar \<Rightarrow> slot_calendar" where
  "calendar_retain now c = c\<lparr>sc_state := fold_before (sc_quota c) now (sc_state c)\<rparr>"

definition calendar_len :: "slot_calendar \<Rightarrow> nat" where
  "calendar_len c = length (cal_slots (sc_state c))"

section \<open>Schedules the GCRA admits\<close>

text \<open>
  \<open>gcra T tau a ts\<close>: from the theoretical arrival time \<open>a\<close> the GCRA admits a request at each
  of \<open>ts\<close> in turn.
\<close>

fun gcra :: "int \<Rightarrow> int \<Rightarrow> int option \<Rightarrow> int list \<Rightarrow> bool" where
  "gcra T tau a [] = True"
| "gcra T tau None (t # ts) = gcra T tau (Some (t + T)) ts"
| "gcra T tau (Some a) (t # ts) = (a - tau \<le> t \<and> gcra T tau (Some (max a t + T)) ts)"

fun gcra_after :: "int \<Rightarrow> int option \<Rightarrow> int list \<Rightarrow> int option" where
  "gcra_after T a [] = a"
| "gcra_after T None (t # ts) = gcra_after T (Some (t + T)) ts"
| "gcra_after T (Some a) (t # ts) = gcra_after T (Some (max a t + T)) ts"

lemma gcra_append: "gcra T tau a (xs @ ys) \<longleftrightarrow> gcra T tau a xs \<and> gcra T tau (gcra_after T a xs) ys"
  by (induction T tau a xs rule: gcra.induct) auto

lemma gcra_shift: "gcra T tau (map_option (\<lambda>a. a - c) a) (map (\<lambda>t. t - c) ts) = gcra T tau a ts"
proof (induction T tau a ts rule: gcra.induct)
  case (2 T tau t ts)
  have e: "t - c + T = t + T - c" by simp
  show ?case using 2 by (simp only: option.map list.map gcra.simps e)
next
  case (3 T tau a t ts)
  have e: "max (a - c) (t - c) + T = max a t + T - c" "a - c - tau \<le> t - c \<longleftrightarrow> a - tau \<le> t" by auto
  show ?case
  proof (cases "a - tau \<le> t")
    case True
    with 3 show ?thesis by (simp only: option.map list.map gcra.simps e)
  qed (simp only: option.map list.map gcra.simps e simp_thms)
qed simp

lemma gcra_mono:
  "gcra T tau (Some a) ts \<Longrightarrow> b \<le> a \<Longrightarrow> gcra T tau (Some b) ts"
  "gcra T tau (Some a) ts \<Longrightarrow> 0 \<le> T \<Longrightarrow> gcra T tau None ts"
proof (induction ts arbitrary: a b)
  case (Cons t ts)
  {
    case 1
    then show ?case using Cons.IH(1) [of "max a t + T" "max b t + T"] by auto
  next
    case 2
    then show ?case using Cons.IH(1) [of "max a t + T" "t + T"] by auto
  }
qed simp_all

text \<open>
  The form the search works with: with \<open>s_k = t_k - k * T\<close>, no earlier value exceeds a later
  one by more than \<open>tau\<close>, the floor counting as an earlier value.
\<close>

definition conf :: "int \<Rightarrow> int \<Rightarrow> int option \<Rightarrow> int list \<Rightarrow> bool" where
  "conf T tau a ts \<longleftrightarrow>
     (\<forall>j < length ts. (\<forall>i < j. ts ! i - int i * T - (ts ! j - int j * T) \<le> tau) \<and>
        (\<forall>f. a = Some f \<longrightarrow> f - (ts ! j - int j * T) \<le> tau))"

lemma conf_Cons:
  "conf T tau a (t # ts) \<longleftrightarrow> (\<forall>f. a = Some f \<longrightarrow> f - t \<le> tau) \<and>
     conf T tau (Some ((case a of None \<Rightarrow> t | Some f \<Rightarrow> max f t) + T)) ts"
    (is "?L \<longleftrightarrow> ?R")
proof -
  have all: "(\<forall>j < length (t # ts). P j) \<longleftrightarrow> P 0 \<and> (\<forall>j < length ts. P (Suc j))" for P
    by (auto simp: less_Suc_eq_0_disj)
  have im: "(\<forall>i < Suc j. Q i) \<longleftrightarrow> Q 0 \<and> (\<forall>i < j. Q (Suc i))" for Q :: "nat \<Rightarrow> bool" and j
    by (auto simp: less_Suc_eq_0_disj)
  have "?L \<longleftrightarrow> (\<forall>f. a = Some f \<longrightarrow> f - t \<le> tau) \<and>
      (\<forall>j < length ts. t - (ts ! j - (1 + int j) * T) \<le> tau \<and>
        (\<forall>i < j. ts ! i - (1 + int i) * T - (ts ! j - (1 + int j) * T) \<le> tau) \<and>
        (\<forall>f. a = Some f \<longrightarrow> f - (ts ! j - (1 + int j) * T) \<le> tau))"
    unfolding conf_def all im by (simp add: add.commute)
  also have "\<dots> \<longleftrightarrow> ?R"
  proof -
    have sh: "x - (1 + int j) * T = x - int j * T - T" for x j by (simp add: algebra_simps)
    have d: "x - T + T = x" "x - (y - T) = x + T - y" "max x z + T - y \<le> tau \<longleftrightarrow>
        x + T - y \<le> tau \<and> z + T - y \<le> tau" for x y z :: int by auto
    show ?thesis unfolding conf_def sh d by (cases a) (auto simp only: option.simps d simp_thms)
  qed
  finally show ?thesis .
qed

lemma conf_gcra: "conf T tau a ts \<longleftrightarrow> gcra T tau a ts"
proof (induction T tau a ts rule: gcra.induct)
  case (1 T tau a)
  then show ?case by (simp add: conf_def)
qed (auto simp: conf_Cons)

section \<open>The search\<close>

definition sv :: "int \<Rightarrow> int list \<Rightarrow> nat \<Rightarrow> int" where
  "sv T ts k = ts ! k - int k * T"

definition befores :: "int \<Rightarrow> int option \<Rightarrow> int list \<Rightarrow> nat \<Rightarrow> int set" where
  "befores T a ts p = set_option a \<union> sv T ts ` {..<p}"

definition afters :: "int \<Rightarrow> int list \<Rightarrow> nat \<Rightarrow> int set" where
  "afters T ts p = sv T ts ` {p..<length ts}"

lemma finite_befores [simp]: "finite (befores T a ts p)" "finite (afters T ts p)"
  by (simp_all add: befores_def afters_def)

lemma befores_Suc: "befores T a ts (Suc p) = insert (sv T ts p) (befores T a ts p)"
  by (auto simp: befores_def lessThan_Suc)

definition ins :: "nat \<Rightarrow> 'a \<Rightarrow> 'a list \<Rightarrow> 'a list" where
  "ins p x ts = take p ts @ x # drop p ts"

lemma length_ins [simp]: "length (ins p x ts) = Suc (length ts)"
  by (simp add: ins_def)

lemma sv_ins:
  assumes "p \<le> length ts"
  shows "i < p \<Longrightarrow> sv T (ins p x ts) i = sv T ts i"
    and "sv T (ins p x ts) p = x - int p * T"
    and "p \<le> i \<Longrightarrow> i < length ts \<Longrightarrow> sv T (ins p x ts) (Suc i) = sv T ts i - T"
  using assms by (simp_all add: sv_def ins_def nth_append min_def algebra_simps Suc_diff_le)

lemma conf_befores:
  "conf T tau a ts \<longleftrightarrow> (\<forall>j < length ts. \<forall>b \<in> befores T a ts j. b - sv T ts j \<le> tau)"
  by (auto simp: conf_def befores_def sv_def)

text \<open>What inserting \<open>x\<close> at position \<open>p\<close> asks of a conforming schedule.\<close>

definition fits_at :: "int \<Rightarrow> int \<Rightarrow> int option \<Rightarrow> int list \<Rightarrow> nat \<Rightarrow> int \<Rightarrow> bool" where
  "fits_at T tau a ts p x \<longleftrightarrow>
     (\<forall>b \<in> befores T a ts p. b - (x - int p * T) \<le> tau) \<and>
     (\<forall>c \<in> afters T ts p. x - int p * T - (c - T) \<le> tau) \<and>
     (\<forall>b \<in> befores T a ts p. \<forall>c \<in> afters T ts p. b - (c - T) \<le> tau)"

lemma lessThan_split:
  assumes "p \<le> (n::nat)"
  shows "{..<Suc n} = {..<p} \<union> {p} \<union> Suc ` {p..<n}"
proof (rule set_eqI)
  fix j
  show "j \<in> {..<Suc n} \<longleftrightarrow> j \<in> {..<p} \<union> {p} \<union> Suc ` {p..<n}"
    using assms by (cases j) auto
qed

lemma befores_ins:
  assumes "p \<le> length ts"
  shows "j \<le> p \<Longrightarrow> befores T a (ins p x ts) j = befores T a ts j"
    and "p \<le> j \<Longrightarrow> j < length ts \<Longrightarrow> befores T a (ins p x ts) (Suc j) =
      insert (x - int p * T) (befores T a ts p \<union> (\<lambda>i. sv T ts i - T) ` {p..<j})"
proof -
  show "befores T a (ins p x ts) j = befores T a ts j" if "j \<le> p"
    using that sv_ins(1) [OF assms] by (auto simp: befores_def image_def)
  show "befores T a (ins p x ts) (Suc j) =
      insert (x - int p * T) (befores T a ts p \<union> (\<lambda>i. sv T ts i - T) ` {p..<j})"
    if "p \<le> j" "j < length ts"
  proof -
    have "{..<Suc j} = {..<p} \<union> {p} \<union> Suc ` {p..<j}" by (rule lessThan_split [OF that(1)])
    moreover have "sv T (ins p x ts) ` {..<p} = sv T ts ` {..<p}"
      using sv_ins(1) [OF assms] by auto
    moreover have "sv T (ins p x ts) ` Suc ` {p..<j} = (\<lambda>i. sv T ts i - T) ` {p..<j}"
      unfolding image_image using sv_ins(3) [OF assms] that(2) by (intro image_cong) auto
    ultimately show ?thesis by (auto simp: befores_def sv_ins(2) [OF assms] image_Un)
  qed
qed

lemma conf_ins:
  assumes c: "conf T tau a ts" and p: "p \<le> length ts"
  shows "conf T tau a (ins p x ts) \<longleftrightarrow> fits_at T tau a ts p x"
proof -
  note old = c [unfolded conf_befores]
  have split: "(\<forall>j < Suc (length ts). P j) \<longleftrightarrow> (\<forall>j < p. P j) \<and> P p \<and> (\<forall>j. p \<le> j \<and> j < length ts \<longrightarrow> P (Suc j))"
    (is "_ \<longleftrightarrow> ?R") for P :: "nat \<Rightarrow> bool"
  proof
    assume R: ?R
    show "\<forall>j < Suc (length ts). P j"
    proof (intro allI impI)
      fix j assume "j < Suc (length ts)"
      with R show "P j" by (cases "j < p"; cases "j = p"; cases j) auto
    qed
  qed (use p in auto)
  have "conf T tau a (ins p x ts) \<longleftrightarrow>
      (\<forall>j < p. \<forall>b \<in> befores T a (ins p x ts) j. b - sv T (ins p x ts) j \<le> tau) \<and>
      (\<forall>b \<in> befores T a (ins p x ts) p. b - sv T (ins p x ts) p \<le> tau) \<and>
      (\<forall>j. p \<le> j \<and> j < length ts \<longrightarrow>
        (\<forall>b \<in> befores T a (ins p x ts) (Suc j). b - sv T (ins p x ts) (Suc j) \<le> tau))"
    unfolding conf_befores length_ins by (rule split)
  moreover have "\<forall>j < p. \<forall>b \<in> befores T a (ins p x ts) j. b - sv T (ins p x ts) j \<le> tau"
    using old p by (simp add: befores_ins [OF p] sv_ins [OF p])
  moreover have "(\<forall>j. p \<le> j \<and> j < length ts \<longrightarrow>
        (\<forall>b \<in> befores T a (ins p x ts) (Suc j). b - sv T (ins p x ts) (Suc j) \<le> tau)) \<longleftrightarrow>
      (\<forall>c \<in> afters T ts p. x - int p * T - (c - T) \<le> tau) \<and>
      (\<forall>b \<in> befores T a ts p. \<forall>c \<in> afters T ts p. b - (c - T) \<le> tau)"
  proof -
    have "sv T ts i - T - (sv T ts j - T) \<le> tau" if "p \<le> i" "i < j" "j < length ts" for i j
      using old that by (auto simp: befores_def)
    then show ?thesis
      by (auto simp: befores_ins(2) [OF p] sv_ins(3) [OF p] afters_def)
  qed
  moreover have "(\<forall>b \<in> befores T a (ins p x ts) p. b - sv T (ins p x ts) p \<le> tau) \<longleftrightarrow>
      (\<forall>b \<in> befores T a ts p. b - (x - int p * T) \<le> tau)"
    by (simp add: befores_ins [OF p] sv_ins [OF p])
  ultimately show ?thesis
    unfolding fits_at_def by blast
qed

definition omax :: "int set \<Rightarrow> int option" where
  "omax S = (if S = {} then None else Some (Max S))"

definition omin :: "int set \<Rightarrow> int option" where
  "omin S = (if S = {} then None else Some (Min S))"

lemma omax_insert: "finite S \<Longrightarrow> opt_max (omax S) x = omax (insert x S)"
  by (simp add: opt_max_def omax_def max.commute)

lemma fold_opt_max: "finite S \<Longrightarrow> fold (\<lambda>x m. opt_max m x) xs (omax S) = omax (S \<union> set xs)"
proof (induction xs arbitrary: S)
  case (Cons x xs)
  then show ?case using Cons.IH [of "insert x S"] by (simp add: omax_insert)
qed simp

lemma suffix_mins_nth: "p \<le> length xs \<Longrightarrow> suffix_mins xs ! p = omin (set (drop p xs))"
proof (induction xs arbitrary: p)
  case Nil
  then show ?case by (simp add: omin_def)
next
  case (Cons x xs)
  have hd: "hd (suffix_mins xs) = suffix_mins xs ! 0"
    by (cases xs) (simp_all add: Let_def)
  show ?case
  proof (cases p)
    case 0
    have "suffix_mins xs ! 0 = omin (set xs)" using Cons.IH [of 0] by simp
    then show ?thesis using 0 by (auto simp: Let_def hd omin_def min.commute)
  next
    case (Suc q)
    with Cons show ?thesis by (simp add: Let_def)
  qed
qed

definition BND :: int where
  "BND = 2 ^ 100"

definition in_range :: "int \<Rightarrow> int \<Rightarrow> int option \<Rightarrow> int list \<Rightarrow> int \<Rightarrow> bool" where
  "in_range T tau a ts start \<longleftrightarrow>
     0 \<le> T \<and> T \<le> BND \<and> 0 \<le> tau \<and> tau \<le> BND \<and> (\<forall>t \<in> set ts. 0 \<le> t \<and> t \<le> BND) \<and>
     (\<forall>f. a = Some f \<longrightarrow> 0 \<le> f \<and> f \<le> BND) \<and> 0 \<le> start \<and> start \<le> BND \<and>
     int (length ts) * T \<le> BND"

lemma BND_pos: "0 < BND"
  by (simp add: BND_def)

lemma sat128_id: "- 8 * BND \<le> x \<Longrightarrow> x \<le> 8 * BND \<Longrightarrow> sat128 x = x"
  by (simp add: sat128_def BND_def I128_MAX_def)

lemma in_range_shift:
  assumes "in_range T tau a ts start" and "p \<le> length ts"
  shows "0 \<le> int p * T" "int p * T \<le> BND"
proof -
  from assms show "0 \<le> int p * T" by (simp add: in_range_def)
  have "int p * T \<le> int (length ts) * T"
    using assms by (intro mult_right_mono) (auto simp: in_range_def)
  with assms(1) show "int p * T \<le> BND" by (simp add: in_range_def)
qed

lemma in_range_sv:
  assumes "in_range T tau a ts start" and "k < length ts"
  shows "- BND \<le> sv T ts k" "sv T ts k \<le> BND"
proof -
  have "0 \<le> ts ! k" "ts ! k \<le> BND" using assms nth_mem [OF assms(2)] by (auto simp: in_range_def)
  with in_range_shift [OF assms(1), of k] assms(2) show "- BND \<le> sv T ts k" "sv T ts k \<le> BND"
    by (simp_all add: sv_def)
qed

lemma in_range_sets:
  assumes "in_range T tau a ts start" and "p \<le> length ts"
  shows "b \<in> befores T a ts p \<Longrightarrow> - BND \<le> b \<and> b \<le> BND" "c \<in> afters T ts p \<Longrightarrow> - BND \<le> c \<and> c \<le> BND"
proof -
  have "0 \<le> BND" by (simp add: BND_def)
  then have f: "f \<in> set_option a \<Longrightarrow> - BND \<le> f \<and> f \<le> BND" for f
    using assms(1) by (cases a) (auto simp: in_range_def)
  show "b \<in> befores T a ts p \<Longrightarrow> - BND \<le> b \<and> b \<le> BND"
    using in_range_sv [OF assms(1)] f assms(2) by (auto simp: befores_def)
  show "c \<in> afters T ts p \<Longrightarrow> - BND \<le> c \<and> c \<le> BND"
    using in_range_sv [OF assms(1)] by (auto simp: afters_def)
qed

text \<open>A position and an instant the search may answer with.\<close>

definition good :: "int \<Rightarrow> int \<Rightarrow> int option \<Rightarrow> int list \<Rightarrow> nat \<Rightarrow> int \<Rightarrow> nat \<Rightarrow> int \<Rightarrow> bool" where
  "good T tau a ts first start p y \<longleftrightarrow>
     (if p = first then start else ts ! (p - 1)) \<le> y \<and> (p < length ts \<longrightarrow> y < ts ! p) \<and>
     fits_at T tau a ts p y"

definition lower_at :: "int \<Rightarrow> int \<Rightarrow> int option \<Rightarrow> int list \<Rightarrow> nat \<Rightarrow> int \<Rightarrow> nat \<Rightarrow> int" where
  "lower_at T tau a ts first start p =
     (let low = (if p = first then start else ts ! (p - 1))
      in case omax (befores T a ts p) of None \<Rightarrow> low | Some b \<Rightarrow> max low (b - tau + int p * T))"

lemma fits_at_omax:
  "fits_at T tau a ts p y \<longleftrightarrow>
     (case omax (befores T a ts p) of None \<Rightarrow> True | Some b \<Rightarrow> b - tau + int p * T \<le> y) \<and>
     (case omin (afters T ts p) of None \<Rightarrow> True | Some c \<Rightarrow> y \<le> c - T + tau + int p * T) \<and>
     (case (omax (befores T a ts p), omin (afters T ts p)) of
        (Some b, Some c) \<Rightarrow> b - (c - T) \<le> tau | _ \<Rightarrow> True)"
proof -
  let ?B = "befores T a ts p" and ?A = "afters T ts p"
  have B: "(\<forall>b \<in> ?B. b \<le> z) \<longleftrightarrow> (case omax ?B of None \<Rightarrow> True | Some b \<Rightarrow> b \<le> z)" for z
    by (auto simp: omax_def)
  have A: "(\<forall>c \<in> ?A. z \<le> c) \<longleftrightarrow> (case omin ?A of None \<Rightarrow> True | Some c \<Rightarrow> z \<le> c)" for z
    by (auto simp: omin_def)
  have "fits_at T tau a ts p y \<longleftrightarrow> (\<forall>b \<in> ?B. b \<le> y - int p * T + tau) \<and>
      (\<forall>c \<in> ?A. y - int p * T + T - tau \<le> c) \<and> (\<forall>c \<in> ?A. \<forall>b \<in> ?B. b \<le> c - T + tau)"
    unfolding fits_at_def by (auto simp: algebra_simps)
  also have "(\<forall>c \<in> ?A. \<forall>b \<in> ?B. b \<le> c - T + tau) \<longleftrightarrow>
      (case (omax ?B, omin ?A) of (Some b, Some c) \<Rightarrow> b + T - tau \<le> c | _ \<Rightarrow> True)"
  proof (cases "omax ?B")
    case (Some b)
    have "(\<forall>c \<in> ?A. b \<le> c - T + tau) \<longleftrightarrow> (\<forall>c \<in> ?A. b + T - tau \<le> c)" by (auto simp: algebra_simps)
    then show ?thesis unfolding B A by (simp add: Some split: option.splits)
  qed (simp add: B)
  finally show ?thesis
    unfolding A B by (auto simp: algebra_simps split: option.splits)
qed

lemma good_iff:
  "(\<exists>y. good T tau a ts first start p y) \<longleftrightarrow> good T tau a ts first start p (lower_at T tau a ts first start p)"
  "good T tau a ts first start p y \<Longrightarrow> lower_at T tau a ts first start p \<le> y"
proof -
  show le: "lower_at T tau a ts first start p \<le> y" if "good T tau a ts first start p y" for y
    using that by (auto simp: good_def fits_at_omax lower_at_def Let_def split: option.splits)
  have "good T tau a ts first start p (lower_at T tau a ts first start p)"
    if y: "good T tau a ts first start p y" for y
    using y le [OF y]
    by (auto simp: good_def fits_at_omax lower_at_def Let_def split: option.splits)
  then show "(\<exists>y. good T tau a ts first start p y) \<longleftrightarrow>
      good T tau a ts first start p (lower_at T tau a ts first start p)" by blast
qed

lemma omax_in: "finite S \<Longrightarrow> omax S = Some b \<Longrightarrow> b \<in> S"
  by (auto simp: omax_def intro: Max_in split: if_splits)

lemma omin_in: "finite S \<Longrightarrow> omin S = Some c \<Longrightarrow> c \<in> S"
  by (auto simp: omin_def intro: Min_in split: if_splits)

lemma loop_step:
  assumes rng: "in_range T tau a ts start" and p: "p \<le> length ts" and sm: "sm ! p = omin (afters T ts p)"
  shows "earliest_loop T tau ts s sm first start (omax (befores T a ts p)) (p # ps) =
    (if good T tau a ts first start p (lower_at T tau a ts first start p)
     then Some (lower_at T tau a ts first start p)
     else earliest_loop T tau ts s sm first start
       (if p < length s then opt_max (omax (befores T a ts p)) (s ! p) else omax (befores T a ts p)) ps)"
proof -
  let ?B = "omax (befores T a ts p)" and ?A = "omin (afters T ts p)"
  let ?low = "if p = first then start else ts ! (p - 1)"
  have r: "0 \<le> T" "T \<le> BND" "0 \<le> tau" "tau \<le> BND" "0 \<le> BND"
    using rng by (auto simp: in_range_def BND_def)
  have sh: "sat128 (int p * T) = int p * T"
    using in_range_shift [OF rng p] r by (intro sat128_id) linarith+
  have b: "sat128 (sat128 (b - tau) + int p * T) = b - tau + int p * T" if "?B = Some b" for b
  proof -
    have bb: "- BND \<le> b" "b \<le> BND"
      using in_range_sets(1) [OF rng p omax_in [OF finite_befores(1) that]] by auto
    then have "sat128 (b - tau) = b - tau" using r by (intro sat128_id) linarith+
    moreover have "sat128 (b - tau + int p * T) = b - tau + int p * T"
      using bb r in_range_shift [OF rng p] by (intro sat128_id) linarith+
    ultimately show ?thesis by simp
  qed
  have c: "sat128 (c - T) = c - T" "sat128 (sat128 (c - T + tau) + int p * T) = c - T + tau + int p * T"
    if "?A = Some c" for c
  proof -
    have cc: "- BND \<le> c" "c \<le> BND"
      using in_range_sets(2) [OF rng p omin_in [OF finite_befores(2) that]] by auto
    then show "sat128 (c - T) = c - T" using r by (intro sat128_id) linarith+
    have "sat128 (c - T + tau) = c - T + tau" using r cc by (intro sat128_id) linarith+
    moreover have "sat128 (c - T + tau + int p * T) = c - T + tau + int p * T"
      using cc r in_range_shift [OF rng p] by (intro sat128_id) linarith+
    ultimately show "sat128 (sat128 (c - T + tau) + int p * T) = c - T + tau + int p * T" by simp
  qed
  have bc: "sat128 (b - (c - T)) = b - (c - T)" if "?B = Some b" "?A = Some c" for b c
    using r in_range_sets(1) [OF rng p omax_in [OF finite_befores(1) that(1)]]
      in_range_sets(2) [OF rng p omin_in [OF finite_befores(2) that(2)]]
    by (intro sat128_id) linarith+
  have low: "lower_at T tau a ts first start p =
      (case ?B of None \<Rightarrow> ?low | Some b \<Rightarrow> max ?low (sat128 (sat128 (b - tau) + sat128 (int p * T))))"
    unfolding lower_at_def Let_def sh by (cases ?B) (simp_all add: b)
  have "(case (?B, map_option (\<lambda>m. sat128 (m - T)) ?A) of
          (Some b, Some a) \<Rightarrow> sat128 (b - a) \<le> tau | _ \<Rightarrow> True) \<and>
      (p < length ts \<longrightarrow> lower_at T tau a ts first start p < ts ! p) \<and>
      (case map_option (\<lambda>a. sat128 (sat128 (a + tau) + sat128 (int p * T)))
              (map_option (\<lambda>m. sat128 (m - T)) ?A) of
         None \<Rightarrow> True | Some u \<Rightarrow> lower_at T tau a ts first start p \<le> u) \<longleftrightarrow>
      good T tau a ts first start p (lower_at T tau a ts first start p)"
    unfolding good_def fits_at_omax
    by (cases ?A; cases ?B) (auto simp: c bc sh lower_at_def)
  then show ?thesis
    by (simp only: earliest_loop.simps Let_def sm low [symmetric])
qed

lemma loop_found:
  assumes "r = Some (lower_at T tau a ts first start p)" and "p \<le> length ts"
    and "good T tau a ts first start p (lower_at T tau a ts first start p)"
  shows "\<exists>p' x. r = Some x \<and> p \<le> p' \<and> p' \<le> length ts \<and>
    good T tau a ts first start p' x \<and> (\<forall>y. good T tau a ts first start p' y \<longrightarrow> x \<le> y) \<and>
    (\<forall>k y. p \<le> k \<longrightarrow> k < p' \<longrightarrow> \<not> good T tau a ts first start k y)"
proof (intro exI conjI)
  show "r = Some (lower_at T tau a ts first start p)" by (rule assms(1))
  show "\<forall>y. good T tau a ts first start p y \<longrightarrow> lower_at T tau a ts first start p \<le> y"
    using good_iff(2) by blast
  show "good T tau a ts first start p (lower_at T tau a ts first start p)" by (rule assms(3))
qed (use assms(2) in simp_all)

lemma loop_spec:
  assumes rng: "in_range T tau a ts start" and "p \<le> length ts" and "first \<le> p"
    and s: "s = map (sv T ts) [0..<length ts]"
  shows "\<exists>p' x. earliest_loop T tau ts s (suffix_mins s) first start (omax (befores T a ts p))
      [p..<length s + 1] = Some x \<and> p \<le> p' \<and> p' \<le> length ts \<and>
    good T tau a ts first start p' x \<and> (\<forall>y. good T tau a ts first start p' y \<longrightarrow> x \<le> y) \<and>
    (\<forall>k y. p \<le> k \<longrightarrow> k < p' \<longrightarrow> \<not> good T tau a ts first start k y)"
  using assms(2,3)
proof (induction "length ts - p" arbitrary: p)
  case (0 p)
  then have p: "p = length ts" by simp
  have A: "afters T ts p = {}" by (simp add: afters_def p)
  have sm: "suffix_mins s ! p = omin (afters T ts p)"
    using suffix_mins_nth [of p s] A by (simp add: s p omin_def)
  have g: "good T tau a ts first start p (lower_at T tau a ts first start p)"
    unfolding good_def fits_at_omax A omin_def by (auto simp: p lower_at_def split: option.splits)
  have l: "[p..<length s + 1] = [p]" by (simp add: s p)
  show ?case
    unfolding l loop_step [OF rng 0(2) sm] by (rule loop_found) (use g p in simp_all)
next
  case (Suc n p)
  then have p: "p < length ts" by simp
  have up: "[p..<length s + 1] = p # [Suc p..<length s + 1]" by (rule upt_conv_Cons) (use p in \<open>simp add: s\<close>)
  have "set (drop p s) = afters T ts p"
    by (simp add: s afters_def drop_map)
  then have sm: "suffix_mins s ! p = omin (afters T ts p)"
    using suffix_mins_nth [of p s] p by (simp add: s)
  let ?x = "lower_at T tau a ts first start p"
  show ?case
  proof (cases "good T tau a ts first start p ?x")
    case True
    then show ?thesis
      unfolding up loop_step [OF rng Suc(3) sm] by (intro loop_found) (use p in simp_all)
  next
    case False
    have pre: "n = length ts - Suc p" "Suc p \<le> length ts" "first \<le> Suc p" using Suc(2,4) p by auto
    have "opt_max (omax (befores T a ts p)) (s ! p) = omax (befores T a ts (Suc p))"
      using p by (simp add: omax_insert befores_Suc s)
    moreover have none: "\<not> good T tau a ts first start p y" for y
      using False good_iff(1) [of T tau a ts first start p] by blast
    moreover obtain p' x where "earliest_loop T tau ts s (suffix_mins s) first start
        (omax (befores T a ts (Suc p))) [Suc p..<length s + 1] = Some x" "Suc p \<le> p'" "p' \<le> length ts"
      "good T tau a ts first start p' x" "\<forall>y. good T tau a ts first start p' y \<longrightarrow> x \<le> y"
      "\<forall>k y. Suc p \<le> k \<longrightarrow> k < p' \<longrightarrow> \<not> good T tau a ts first start k y"
      using Suc(1) [OF pre] by blast
    moreover have "k = p \<or> Suc p \<le> k" if "p \<le> k" for k using that by auto
    ultimately show ?thesis
      unfolding up loop_step [OF rng Suc(3) sm] using False p
      by (intro exI [of _ p'] exI [of _ x]) (auto simp: s)
  qed
qed

section \<open>Calendars\<close>

definition admitted :: "quota \<Rightarrow> instant option \<Rightarrow> instant list \<Rightarrow> bool" where
  "admitted q floor slots \<longleftrightarrow>
     gcra (int (qt_interval q)) (int (qt_tolerance q)) (map_option int floor) (map int slots)"

definition cal_ok :: "quota \<Rightarrow> calendar \<Rightarrow> bool" where
  "cal_ok q st \<longleftrightarrow> sorted (cal_slots st) \<and> admitted q (cal_floor st) (cal_slots st)"

text \<open>
  Values the clock can represent, and a calendar of fewer than \<open>2 ^ 100\<close> nanoseconds worth of
  intervals: the \<open>i128\<close> arithmetic is then exact.
\<close>

definition cal_small :: "quota \<Rightarrow> calendar \<Rightarrow> bool" where
  "cal_small q st \<longleftrightarrow>
     qt_interval q \<le> DURATION_MAX \<and> qt_tolerance q \<le> DURATION_MAX \<and>
     (\<forall>t \<in> set (cal_slots st). t \<le> INSTANT_MAX) \<and>
     (case cal_floor st of None \<Rightarrow> True | Some f \<Rightarrow> f \<le> INSTANT_MAX) \<and>
     length (cal_slots st) * qt_interval q \<le> 2 ^ 100"

lemma partition_point_le: "partition_point P xs \<le> length xs"
  by (simp add: partition_point_def length_takeWhile_le)

lemma partition_point_before: "i < partition_point P xs \<Longrightarrow> P (xs ! i)"
  unfolding partition_point_def by (metis nth_mem set_takeWhileD takeWhile_nth)

lemma partition_point_at: "partition_point P xs < length xs \<Longrightarrow> \<not> P (xs ! partition_point P xs)"
  unfolding partition_point_def by (rule nth_length_takeWhile)

lemma partition_point_unique:
  assumes "p \<le> length xs" and "\<And>i. i < p \<Longrightarrow> P (xs ! i)" and "p < length xs \<Longrightarrow> \<not> P (xs ! p)"
  shows "partition_point P xs = p"
proof -
  have "takeWhile P xs = take p xs"
    by (rule takeWhile_eq_take_P_nth) (use assms in auto)
  then show ?thesis using assms(1) by (simp add: partition_point_def)
qed

lemma insert_slot_ins: "insert_slot t slots = ins (partition_point (\<lambda>s. s \<le> t) slots) t slots"
  by (simp add: insert_slot_def ins_def Let_def)

lemma map_ins: "map f (ins p x ts) = ins p (f x) (map f ts)"
  by (simp add: ins_def take_map drop_map)

lemma sorted_insert_slot: "sorted slots \<Longrightarrow> sorted (insert_slot t slots)"
proof -
  assume srt: "sorted slots"
  let ?p = "partition_point (\<lambda>s. s \<le> t) slots"
  have tw: "take ?p slots = takeWhile (\<lambda>s. s \<le> t) slots"
    by (simp add: partition_point_def takeWhile_eq_take [symmetric])
  have dw: "drop ?p slots = dropWhile (\<lambda>s. s \<le> t) slots"
    by (simp add: partition_point_def dropWhile_eq_drop [symmetric])
  have "t < y" if "y \<in> set (dropWhile (\<lambda>s. s \<le> t) slots)" for y
  proof -
    have "\<not> hd (dropWhile (\<lambda>s. s \<le> t) slots) \<le> t" using that hd_dropWhile [of "\<lambda>s. s \<le> t" slots] by fastforce
    moreover have "sorted (dropWhile (\<lambda>s. s \<le> t) slots)" using srt by (rule sorted_dropWhile)
    ultimately show ?thesis using that by (cases "dropWhile (\<lambda>s. s \<le> t) slots") force+
  qed
  moreover have "y \<le> t" if "y \<in> set (takeWhile (\<lambda>s. s \<le> t) slots)" for y
    using set_takeWhileD [OF that] by simp
  ultimately show ?thesis
    using sorted_takeWhile [OF srt] sorted_dropWhile [OF srt]
    by (fastforce simp: insert_slot_ins ins_def tw dw sorted_append)
qed

lemma admitted_shift:
  "admitted q floor slots \<longleftrightarrow> conf (int (qt_interval q)) (int (qt_tolerance q))
     (map_option (\<lambda>f. int f - int c) floor) (map (\<lambda>t. int t - int c) slots)"
proof -
  have "map_option (\<lambda>f. int f - int c) floor = map_option (\<lambda>a. a - int c) (map_option int floor)"
    by (simp add: option.map_comp comp_def)
  moreover have "map (\<lambda>t. int t - int c) slots = map (\<lambda>t. t - int c) (map int slots)" by simp
  ultimately show ?thesis
    unfolding admitted_def conf_gcra by (simp only: gcra_shift)
qed

lemma origin_of_le:
  assumes "sorted (cal_slots st)"
  shows "origin_of st start \<le> start" "t \<in> set (cal_slots st) \<Longrightarrow> origin_of st start \<le> t"
    "cal_floor st = Some f \<Longrightarrow> origin_of st start \<le> f"
  using assms by (fastforce simp: origin_of_def min_le_iff_disj split: list.splits option.splits)+

lemma nanos_small: "d \<le> INSTANT_MAX \<or> d \<le> DURATION_MAX \<Longrightarrow> nanos d = int d \<and> int d \<le> BND"
  by (auto simp: nanos_def I128_MAX_def INSTANT_MAX_def DURATION_MAX_def NANOS_PER_SEC_def BND_def)

lemma small_range:
  assumes ok: "sorted (cal_slots st)" and small: "cal_small q st" and start: "start \<le> INSTANT_MAX"
  shows "in_range (int (qt_interval q)) (int (qt_tolerance q))
    (map_option (\<lambda>f. int f - int (origin_of st start)) (cal_floor st))
    (map (\<lambda>t. int t - int (origin_of st start)) (cal_slots st)) (int start - int (origin_of st start))"
proof -
  let ?c = "origin_of st start"
  note le = origin_of_le [where start = start, OF ok]
  have b: "0 \<le> int t - int ?c \<and> int t - int ?c \<le> BND" if "?c \<le> t" "t \<le> INSTANT_MAX" for t
  proof -
    have "int t \<le> BND" using nanos_small [of t] that(2) by simp
    with that(1) show ?thesis by simp
  qed
  have "int (length (cal_slots st)) * int (qt_interval q) \<le> BND"
    using small unfolding cal_small_def BND_def by (metis of_nat_le_iff of_nat_mult of_nat_numeral of_nat_power)
  moreover have "int (qt_interval q) \<le> BND" "int (qt_tolerance q) \<le> BND"
    using nanos_small small by (auto simp: cal_small_def)
  ultimately show ?thesis
    using le small start b unfolding in_range_def cal_small_def by (auto split: option.splits)
qed

text \<open>The arguments of the search in exact arithmetic.\<close>

lemma earliest_exact:
  assumes ok: "sorted (cal_slots st)" and small: "cal_small q st" and start: "start \<le> INSTANT_MAX"
  defines "c \<equiv> origin_of st start"
  defines "offs \<equiv> map (\<lambda>t. int t - int c) (cal_slots st)"
  defines "a \<equiv> map_option (\<lambda>f. int f - int c) (cal_floor st)"
  defines "first \<equiv> partition_point (\<lambda>slot. slot \<le> start) (cal_slots st)"
  defines "s \<equiv> map (sv (int (qt_interval q)) offs) [0..<length offs]"
  shows "earliest q st start =
    (case earliest_loop (int (qt_interval q)) (int (qt_tolerance q)) offs s (suffix_mins s) first
            (int start - int c) (omax (befores (int (qt_interval q)) a offs first)) [first..<length s + 1] of
       None \<Rightarrow> None | Some lower \<Rightarrow> instant_at c lower)"
proof -
  let ?T = "int (qt_interval q)"
  note le = origin_of_le [where start = start, OF ok, folded c_def]
  note rng = small_range [OF ok small start, folded c_def, folded offs_def a_def]
  have off: "nanos (inst_since t c) = int t - int c" if "c \<le> t" "t \<le> INSTANT_MAX" for t
  proof -
    have "t - c \<le> INSTANT_MAX" using that by simp
    with nanos_small [of "t - c"] that(1) show ?thesis by (simp add: inst_since_def of_nat_diff)
  qed
  have o: "map (\<lambda>t. nanos (inst_since t c)) (cal_slots st) = offs"
    unfolding offs_def using le(2) off small by (intro map_cong) (auto simp: cal_small_def)
  have q: "nanos (qt_interval q) = ?T" "nanos (qt_tolerance q) = int (qt_tolerance q)"
    using nanos_small small by (auto simp: cal_small_def)
  have st: "nanos (inst_since start c) = int start - int c" by (rule off [OF le(1) start])
  have fl: "(case cal_floor st of None \<Rightarrow> [] | Some f \<Rightarrow> [nanos (inst_since f c)]) =
      (case a of None \<Rightarrow> [] | Some f \<Rightarrow> [f])"
    using le(3) off small by (auto simp: a_def cal_small_def split: option.splits)
  have s': "map (\<lambda>k. sat128 (offs ! k - sat128 (int k * ?T))) [0..<length (cal_slots st)] = s"
  proof -
    have "sat128 (offs ! k - sat128 (int k * ?T)) = sv ?T offs k" if k: "k < length offs" for k
    proof -
      note sh = in_range_shift [OF rng, of k] and v = in_range_sv [OF rng k]
      have "sat128 (int k * ?T) = int k * ?T" using sh k BND_pos by (intro sat128_id) linarith+
      moreover have "sat128 (sv ?T offs k) = sv ?T offs k"
        using v BND_pos by (intro sat128_id) linarith+
      ultimately show ?thesis by (simp add: sv_def)
    qed
    then show ?thesis by (simp add: s_def offs_def)
  qed
  have fst: "first \<le> length offs" by (simp add: first_def offs_def partition_point_le)
  have "set (take first s) = sv ?T offs ` {..<first}"
    using fst by (auto simp: s_def take_map lessThan_atLeast0)
  then have pm: "fold (\<lambda>x m. opt_max m x) (take first s @ (case a of None \<Rightarrow> [] | Some f \<Rightarrow> [f])) None =
      omax (befores ?T a offs first)"
    using fold_opt_max [of "{}" "take first s @ (case a of None \<Rightarrow> [] | Some f \<Rightarrow> [f])"]
    by (cases a) (simp_all add: omax_def befores_def)
  show ?thesis
    unfolding earliest_def Let_def c_def [symmetric] q o st fl s' first_def [symmetric] pm ..
qed

text \<open>
  The search finds the earliest instant from \<open>start\<close> on whose booking keeps the calendar
  admitted, and answers nothing only when that instant is past the clock's range.
\<close>

lemma earliest_spec:
  assumes ok: "cal_ok q st" and small: "cal_small q st" and start: "start \<le> INSTANT_MAX"
  shows "\<exists>t. start \<le> t \<and> admitted q (cal_floor st) (insert_slot t (cal_slots st)) \<and>
    (\<forall>y. start \<le> y \<longrightarrow> admitted q (cal_floor st) (insert_slot y (cal_slots st)) \<longrightarrow> t \<le> y) \<and>
    earliest q st start = (if t \<le> INSTANT_MAX then Some t else None)"
proof -
  let ?T = "int (qt_interval q)" and ?tau = "int (qt_tolerance q)" and ?ts = "cal_slots st"
  define c where "c = origin_of st start"
  define offs where "offs = map (\<lambda>t. int t - int c) ?ts"
  define a where "a = map_option (\<lambda>f. int f - int c) (cal_floor st)"
  define first where "first = partition_point (\<lambda>slot. slot \<le> start) ?ts"
  define s where "s = map (sv ?T offs) [0..<length offs]"
  have srt: "sorted ?ts" using ok by (simp add: cal_ok_def)
  note le = origin_of_le [where start = start, OF srt, folded c_def]
  note rng = small_range [OF srt small start, folded c_def, folded offs_def a_def]
  have conf: "conf ?T ?tau a offs"
    using ok admitted_shift [of q "cal_floor st" ?ts c] by (simp add: cal_ok_def a_def offs_def)
  have adm: "admitted q (cal_floor st) (insert_slot y ?ts) \<longleftrightarrow>
      fits_at ?T ?tau a offs (partition_point (\<lambda>s. s \<le> y) ?ts) (int y - int c)" for y
    using conf_ins [OF conf, of "partition_point (\<lambda>s. s \<le> y) ?ts" "int y - int c"]
      admitted_shift [of q "cal_floor st" "insert_slot y ?ts" c] partition_point_le [of _ ?ts]
    by (simp add: insert_slot_ins map_ins a_def offs_def)
  have fst: "first \<le> length offs" by (simp add: first_def offs_def partition_point_le)
  from loop_spec [OF rng fst order_refl s_def] obtain p x where
    L: "earliest_loop ?T ?tau offs s (suffix_mins s) first (int start - int c)
          (omax (befores ?T a offs first)) [first..<length s + 1] = Some x" "first \<le> p" "p \<le> length offs"
    "good ?T ?tau a offs first (int start - int c) p x"
    "\<forall>y. good ?T ?tau a offs first (int start - int c) p y \<longrightarrow> x \<le> y"
    "\<forall>k y. first \<le> k \<longrightarrow> k < p \<longrightarrow> \<not> good ?T ?tau a offs first (int start - int c) k y"
    by blast
  have nth: "offs ! i = int (?ts ! i) - int c" if "i < length ?ts" for i using that by (simp add: offs_def)
  have len: "length offs = length ?ts" by (simp add: offs_def)
  have low: "int start - int c \<le> x"
  proof (cases "p = first")
    case False
    with L(2,3) have p1: "p - 1 < length ?ts" "first \<le> p - 1" by (auto simp: len)
    then have "start < ?ts ! (p - 1)"
      using partition_point_at [of "\<lambda>slot. slot \<le> start" ?ts] sorted_nth_mono [OF srt, of first "p - 1"]
      unfolding first_def by (cases "partition_point (\<lambda>slot. slot \<le> start) ?ts < length ?ts") auto
    with L(4) False nth [OF p1(1)] show ?thesis by (simp add: good_def)
  qed (use L(4) in \<open>simp add: good_def\<close>)
  define t where "t = c + nat x"
  have x: "x = int t - int c" "0 \<le> x" using low le(1) by (auto simp: t_def)
  have st: "start \<le> t" using low x by simp
  have bef: "?ts ! i \<le> t" if "i < p" for i
  proof (cases "p = first")
    case True
    with that partition_point_before [of i "\<lambda>slot. slot \<le> start" ?ts] st show ?thesis
      unfolding first_def by auto
  next
    case False
    have "?ts ! i \<le> ?ts ! (p - 1)" using that L(3) len by (intro sorted_nth_mono [OF srt]) auto
    moreover have "?ts ! (p - 1) \<le> t"
      using L(3,4) False nth [of "p - 1"] x that by (auto simp: good_def len)
    ultimately show ?thesis by simp
  qed
  have pp: "partition_point (\<lambda>s. s \<le> t) ?ts = p"
    by (rule partition_point_unique) (use L(3,4) nth [of p] x bef in \<open>auto simp: good_def len\<close>)
  have "admitted q (cal_floor st) (insert_slot t ?ts)"
    using L(4) x by (simp add: adm pp good_def)
  moreover have "t \<le> y" if y: "start \<le> y" "admitted q (cal_floor st) (insert_slot y ?ts)" for y
  proof -
    define k where "k = partition_point (\<lambda>s. s \<le> y) ?ts"
    have kl: "k \<le> length ?ts" by (simp add: k_def partition_point_le)
    have kb: "?ts ! i \<le> y" if "i < k" for i
      using partition_point_before [of i "\<lambda>s. s \<le> y" ?ts] that by (simp add: k_def)
    have ka: "k < length ?ts \<Longrightarrow> y < ?ts ! k"
      using partition_point_at [of "\<lambda>s. s \<le> y" ?ts] by (simp add: k_def)
    have fk: "first \<le> k"
    proof (rule ccontr)
      assume "\<not> first \<le> k"
      then have "k < first" by simp
      with partition_point_before [of k "\<lambda>slot. slot \<le> start" ?ts] ka y(1) fst show False
        by (auto simp: first_def len)
    qed
    have g: "good ?T ?tau a offs first (int start - int c) k (int y - int c)"
      unfolding good_def
    proof (intro conjI impI)
      show "(if k = first then int start - int c else offs ! (k - 1)) \<le> int y - int c"
        using y(1) kb [of "k - 1"] nth [of "k - 1"] fk kl by auto
      show "int y - int c < offs ! k" if "k < length offs" using ka that nth [of k] by (simp add: len)
      show "fits_at ?T ?tau a offs k (int y - int c)" using y(2) by (simp add: adm k_def)
    qed
    consider "k < p" | "k = p" | "p < k" by linarith
    then show ?thesis
    proof cases
      case 1
      with g L(6) fk show ?thesis by blast
    next
      case 2
      with g L(5) x show ?thesis by force
    next
      case 3
      with kb [of p] kl L(4) nth [of p] x show ?thesis by (auto simp: good_def len)
    qed
  qed
  moreover have "earliest q st start = (if t \<le> INSTANT_MAX then Some t else None)"
  proof -
    have "instant_at c x = (if t \<le> INSTANT_MAX then Some t else None)"
    proof (cases "nat x div 1000000000 > U64_MAX")
      case True
      then have "INSTANT_MAX < t"
        by (simp add: t_def U64_MAX_def INSTANT_MAX_def NANOS_PER_SEC_def div_greater_zero_iff)
      with True show ?thesis using x(2) by (simp add: instant_at_def)
    qed (use x(2) in \<open>simp add: instant_at_def inst_checked_add_def t_def\<close>)
    then show ?thesis
      using earliest_exact [OF srt small start, folded c_def, folded offs_def a_def first_def,
        folded s_def] L(1) by simp
  qed
  ultimately show ?thesis using st by blast
qed

section \<open>Folding\<close>

lemma fold_loop_spec:
  "fold_loop T xs floor = (n, f) \<Longrightarrow> n \<le> length xs \<and>
     map_option int f = gcra_after (int T) (map_option int floor) (map int (take n xs)) \<and>
     (f = floor \<or> (\<exists>u. f = Some u \<and> u \<le> INSTANT_MAX))"
proof (induction T xs floor arbitrary: n f rule: fold_loop.induct)
  case (2 T slot slots floor)
  let ?m = "case floor of None \<Rightarrow> slot | Some f \<Rightarrow> max f slot"
  show ?case
  proof (cases "inst_checked_add ?m T")
    case None
    with 2(2) show ?thesis by simp
  next
    case (Some u)
    obtain n' f' where r: "fold_loop T slots (Some u) = (n', f')" by (cases "fold_loop T slots (Some u)")
    with 2(2) Some have nf: "n = Suc n'" "f = f'" by auto
    from Some have u: "u = ?m + T" "u \<le> INSTANT_MAX" by (auto dest: inst_checked_add_SomeD)
    have "gcra_after (int T) (map_option int floor) (map int (take n (slot # slots))) =
        gcra_after (int T) (map_option int (Some u)) (map int (take n' slots))"
      using u(1) by (cases floor) (simp_all add: nf of_nat_max)
    with 2(1) [OF Some r] u(2) nf show ?thesis by auto
  qed
qed simp

text \<open>The bookings folded are before \<open>now\<close>, and the floor stands for them.\<close>

lemma fold_before_spec:
  obtains pre where "cal_slots st = pre @ cal_slots (fold_before q now st)"
    and "\<forall>t \<in> set pre. t < now"
    and "map_option int (cal_floor (fold_before q now st)) =
      gcra_after (int (qt_interval q)) (map_option int (cal_floor st)) (map int pre)"
    and "cal_floor (fold_before q now st) = cal_floor st \<or>
      (\<exists>u. cal_floor (fold_before q now st) = Some u \<and> u \<le> INSTANT_MAX)"
proof -
  let ?b = "partition_point (\<lambda>slot. slot < now) (cal_slots st)"
  obtain n f where r: "fold_loop (qt_interval q) (take ?b (cal_slots st)) (cal_floor st) = (n, f)"
    by (cases "fold_loop (qt_interval q) (take ?b (cal_slots st)) (cal_floor st)")
  note L = fold_loop_spec [OF r]
  have n: "n \<le> ?b" using L partition_point_le [of "\<lambda>slot. slot < now" "cal_slots st"] by simp
  have "\<forall>t \<in> set (take n (cal_slots st)). t < now"
    using n partition_point_before [of _ "\<lambda>slot. slot < now" "cal_slots st"]
    by (fastforce simp: in_set_conv_nth)
  moreover have "take n (take ?b (cal_slots st)) = take n (cal_slots st)" using n by (simp add: min_def)
  ultimately show thesis
    using that [of "take n (cal_slots st)"] L r by (simp add: fold_before_def Let_def)
qed

lemma admitted_fold:
  assumes "map_option int f = gcra_after (int (qt_interval q)) (map_option int floor) (map int pre)"
  shows "admitted q floor (pre @ ys) \<longleftrightarrow> admitted q floor pre \<and> admitted q f ys"
  by (simp add: admitted_def gcra_append assms)

lemma cal_ok_fold: "cal_ok q st \<Longrightarrow> cal_ok q (fold_before q now st)"
  by (rule fold_before_spec [of st q now])
    (use admitted_fold in \<open>auto simp: cal_ok_def sorted_append\<close>)

lemma cal_small_fold: "cal_small q st \<Longrightarrow> cal_small q (fold_before q now st)"
proof -
  assume small: "cal_small q st"
  obtain pre where pre: "cal_slots st = pre @ cal_slots (fold_before q now st)"
    "cal_floor (fold_before q now st) = cal_floor st \<or>
      (\<exists>u. cal_floor (fold_before q now st) = Some u \<and> u \<le> INSTANT_MAX)"
    by (rule fold_before_spec [of st q now])
  have "length (cal_slots (fold_before q now st)) * qt_interval q \<le> length (cal_slots st) * qt_interval q"
    using pre(1) by (intro mult_le_mono1) (metis length_append le_add2)
  then have "length (cal_slots (fold_before q now st)) * qt_interval q \<le> 2 ^ 100"
    using small unfolding cal_small_def by linarith
  moreover have "set (cal_slots (fold_before q now st)) \<subseteq> set (cal_slots st)" using pre(1) by (metis set_append Un_upper2)
  ultimately show ?thesis
    using small pre(2) unfolding cal_small_def by (auto split: option.splits)
qed

lemma gcra_drop_one:
  assumes "0 \<le> T" and "gcra T tau a (xs @ x # ys)"
  shows "gcra T tau a (xs @ ys)"
proof -
  let ?b = "gcra_after T a xs"
  have "gcra T tau a xs" "gcra T tau ?b (x # ys)" using assms(2) by (auto simp: gcra_append)
  moreover from this(2) have "gcra T tau ?b ys"
    using assms(1) gcra_mono [of T tau _ ys] by (cases ?b) (auto intro: gcra_mono)
  ultimately show ?thesis by (simp add: gcra_append)
qed

lemma cal_ok_cancel:
  assumes "cal_ok (sc_quota c) (sc_state c)"
  shows "cal_ok (sc_quota c) (sc_state (calendar_cancel b c))"
proof -
  let ?s = "cal_slots (sc_state c)" and ?i = "partition_point (\<lambda>slot. slot < bk_at b) (cal_slots (sc_state c))"
  have "?s = take ?i ?s @ ?s ! ?i # drop (Suc ?i) ?s" if "?i < length ?s"
    using that by (rule id_take_nth_drop)
  moreover have "sorted (take ?i ?s @ drop (Suc ?i) ?s)" if "?i < length ?s"
  proof -
    have "sorted (take ?i ?s @ ?s ! ?i # drop (Suc ?i) ?s)"
      using assms that by (simp add: cal_ok_def id_take_nth_drop [symmetric])
    then show ?thesis by (auto simp: sorted_append)
  qed
  moreover have "admitted (sc_quota c) f (take ?i ?s @ drop (Suc ?i) ?s)"
    if "?i < length ?s" "admitted (sc_quota c) f ?s" for f
  proof -
    have "admitted (sc_quota c) f (take ?i ?s @ ?s ! ?i # drop (Suc ?i) ?s)"
      using that by (simp add: id_take_nth_drop [symmetric])
    then show ?thesis
      unfolding admitted_def map_append list.map by (rule gcra_drop_one [rotated]) simp
  qed
  ultimately show ?thesis
    using assms by (simp add: cal_ok_def calendar_cancel_def Let_def)
qed

section \<open>Properties\<close>

lemma acquire_unfold:
  "now + from_now \<le> INSTANT_MAX \<Longrightarrow> calendar_acquire now from_now max_delay c =
     (let st = fold_before (sc_quota c) now (sc_state c); c = c\<lparr>sc_state := st\<rparr>
      in case earliest (sc_quota c) st (now + from_now) of
           None \<Rightarrow> (Inl \<lparr>retry_after = DURATION_MAX\<rparr>, c)
         | Some t \<Rightarrow>
             if t - now > max_delay then (Inl \<lparr>retry_after = t - now\<rparr>, c)
             else (Inr \<lparr>bk_delay = t - now, bk_at = t\<rparr>,
                   c\<lparr>sc_state := st\<lparr>cal_slots := insert_slot t (cal_slots st)\<rparr>\<rparr>))"
  by (simp add: calendar_acquire_def inst_checked_add_def Let_def inst_since_def split: option.split)

lemma acquire_earliest:
  assumes "cal_ok (sc_quota c) (sc_state c)" and "cal_small (sc_quota c) (sc_state c)"
    and "now + from_now \<le> INSTANT_MAX" and "st = fold_before (sc_quota c) now (sc_state c)"
  shows "case calendar_acquire now from_now max_delay c of
      (Inr b, c') \<Rightarrow> now + from_now \<le> bk_at b \<and> bk_at b = now + bk_delay b \<and> bk_delay b \<le> max_delay \<and>
        cal_slots (sc_state c') = insert_slot (bk_at b) (cal_slots st) \<and> cal_ok (sc_quota c') (sc_state c') \<and>
        (\<forall>y. now + from_now \<le> y \<and> y < bk_at b \<longrightarrow>
          \<not> admitted (sc_quota c) (cal_floor st) (insert_slot y (cal_slots st)))
    | (Inl e, c') \<Rightarrow> sc_state c' = st \<and> cal_ok (sc_quota c') (sc_state c') \<and>
        (\<forall>y. now + from_now \<le> y \<and> y \<le> now + max_delay \<and> y \<le> INSTANT_MAX \<longrightarrow>
          \<not> admitted (sc_quota c) (cal_floor st) (insert_slot y (cal_slots st)))"
proof -
  have ok: "cal_ok (sc_quota c) st" and small: "cal_small (sc_quota c) st"
    using assms(1,2) by (auto simp: assms(4) cal_ok_fold cal_small_fold)
  from earliest_spec [OF ok small assms(3)] obtain t where
    t: "now + from_now \<le> t" "admitted (sc_quota c) (cal_floor st) (insert_slot t (cal_slots st))"
    "\<And>y. now + from_now \<le> y \<Longrightarrow> admitted (sc_quota c) (cal_floor st) (insert_slot y (cal_slots st)) \<Longrightarrow> t \<le> y"
    "earliest (sc_quota c) st (now + from_now) = (if t \<le> INSTANT_MAX then Some t else None)"
    by blast
  have ok': "cal_ok (sc_quota c) (st\<lparr>cal_slots := insert_slot t (cal_slots st)\<rparr>)"
    using ok t(2) by (simp add: cal_ok_def sorted_insert_slot)
  have ne: "\<not> admitted (sc_quota c) (cal_floor st) (insert_slot y (cal_slots st))"
    if "now + from_now \<le> y" "y < t" for y using t(3) that by force
  have now: "now \<le> t" using t(1) by simp
  note u = acquire_unfold [OF assms(3), of max_delay c, folded assms(4)]
  show ?thesis
  proof (cases "t \<le> INSTANT_MAX \<and> t - now \<le> max_delay")
    case True
    with t(1) now ok' ne show ?thesis by (simp add: u Let_def t(4))
  next
    case False
    have "y < t" if "y \<le> now + max_delay" "y \<le> INSTANT_MAX" for y using False that now by auto
    with False ok ne show ?thesis by (auto simp: u Let_def t(4))
  qed
qed

text \<open>
  C14. A booking of the calendar takes the earliest possible instant: it starts at or after
  \<open>now + from\<close> and within \<open>max_delay\<close>, keeps the calendar a schedule the GCRA of the quota
  admits, and no earlier start from \<open>now + from\<close> on would have done so; a denial means that
  no start within \<open>max_delay\<close> keeps the calendar admitted, and books nothing.
\<close>

theorem calendar_earliest:
  assumes "cal_ok (sc_quota c) (sc_state c)" and "cal_small (sc_quota c) (sc_state c)"
    and "now + from_now \<le> INSTANT_MAX" and "st = fold_before (sc_quota c) now (sc_state c)"
  shows "case calendar_acquire now from_now max_delay c of
      (Inr b, c') \<Rightarrow> now + from_now \<le> bk_at b \<and> bk_at b = now + bk_delay b \<and> bk_delay b \<le> max_delay \<and>
        cal_slots (sc_state c') = insert_slot (bk_at b) (cal_slots st) \<and> cal_ok (sc_quota c') (sc_state c') \<and>
        (\<forall>y. now + from_now \<le> y \<and> y < bk_at b \<longrightarrow>
          \<not> admitted (sc_quota c) (cal_floor st) (insert_slot y (cal_slots st)))
    | (Inl e, c') \<Rightarrow> sc_state c' = st \<and> cal_ok (sc_quota c') (sc_state c') \<and>
        (\<forall>y. now + from_now \<le> y \<and> y \<le> now + max_delay \<and> y \<le> INSTANT_MAX \<longrightarrow>
          \<not> admitted (sc_quota c) (cal_floor st) (insert_slot y (cal_slots st)))"
  using assms by (rule acquire_earliest)

definition demo_cal :: slot_calendar where
  "demo_cal = \<lparr>sc_quota = \<lparr>qt_interval = 10, qt_tolerance = 0\<rparr>,
     sc_state = \<lparr>cal_floor = None, cal_slots = [30]\<rparr>\<rparr>"

lemma demo_cal_ok: "cal_ok (sc_quota demo_cal) (sc_state demo_cal)" "cal_small (sc_quota demo_cal) (sc_state demo_cal)"
  by (simp_all add: demo_cal_def cal_ok_def admitted_def cal_small_def DURATION_MAX_def INSTANT_MAX_def
      NANOS_PER_SEC_def)

theorem calendar_earliest_witness:
  "fst (calendar_acquire 5 0 100 demo_cal) = Inr \<lparr>bk_delay = 0, bk_at = 5\<rparr> \<and>
   fst (calendar_acquire 25 0 100 demo_cal) = Inr \<lparr>bk_delay = 15, bk_at = 40\<rparr> \<and>
   \<not> admitted (sc_quota demo_cal) None (insert_slot 39 [30])"
proof -
  have e: "calendar_acquire 25 0 100 demo_cal = (Inr \<lparr>bk_delay = 15, bk_at = 40\<rparr>,
      demo_cal\<lparr>sc_state := \<lparr>cal_floor = None, cal_slots = [30, 40]\<rparr>\<rparr>)" by code_simp
  have f: "fold_before (sc_quota demo_cal) 25 (sc_state demo_cal) = \<lparr>cal_floor = None, cal_slots = [30]\<rparr>"
    by code_simp
  have "\<not> admitted (sc_quota demo_cal) None (insert_slot 39 [30])"
    using calendar_earliest [OF demo_cal_ok, of 25 0 _ 100] unfolding e f
    by (simp add: INSTANT_MAX_def NANOS_PER_SEC_def)
  moreover have "fst (calendar_acquire 5 0 100 demo_cal) = Inr \<lparr>bk_delay = 0, bk_at = 5\<rparr>" by code_simp
  ultimately show ?thesis by (simp add: e)
qed

text \<open>
  C15. Folding the past into the floor is invisible, and cancelling is safe: \<open>fold_before\<close>
  removes only bookings before \<open>now\<close>, and a continuation \<open>ys\<close> is admitted after them exactly
  when it is admitted from the new floor; sweeping and cancelling keep the calendar admitted.
\<close>

theorem calendar_fold_cancel:
  assumes "cal_ok (sc_quota c) (sc_state c)"
  shows "(\<exists>pre. cal_slots (sc_state c) = pre @ cal_slots (sc_state (calendar_retain now c)) \<and>
      (\<forall>t \<in> set pre. t < now) \<and>
      (\<forall>ys. admitted (sc_quota c) (cal_floor (sc_state c)) (pre @ ys) \<longleftrightarrow>
        admitted (sc_quota c) (cal_floor (sc_state (calendar_retain now c))) ys)) \<and>
    cal_ok (sc_quota c) (sc_state (calendar_retain now c)) \<and>
    cal_ok (sc_quota c) (sc_state (calendar_cancel b c))"
proof -
  obtain pre where pre: "cal_slots (sc_state c) = pre @ cal_slots (fold_before (sc_quota c) now (sc_state c))"
    "\<forall>t \<in> set pre. t < now"
    "map_option int (cal_floor (fold_before (sc_quota c) now (sc_state c))) =
      gcra_after (int (qt_interval (sc_quota c))) (map_option int (cal_floor (sc_state c))) (map int pre)"
    by (rule fold_before_spec [of "sc_state c" "sc_quota c" now])
  have "admitted (sc_quota c) (cal_floor (sc_state c)) pre"
    using assms pre(1) admitted_fold [OF pre(3)] unfolding cal_ok_def by metis
  with pre admitted_fold [OF pre(3)] cal_ok_fold [OF assms] cal_ok_cancel [OF assms] show ?thesis
    unfolding calendar_retain_def by auto
qed

theorem calendar_fold_cancel_witness:
  "cal_ok (sc_quota demo_cal) (sc_state (calendar_cancel \<lparr>bk_delay = 0, bk_at = 30\<rparr> demo_cal)) \<and>
   cal_slots (sc_state (calendar_cancel \<lparr>bk_delay = 0, bk_at = 30\<rparr> demo_cal)) = []"
proof -
  have "cal_slots (sc_state (calendar_cancel \<lparr>bk_delay = 0, bk_at = 30\<rparr> demo_cal)) = []" by code_simp
  with calendar_fold_cancel [OF demo_cal_ok(1)] show ?thesis by blast
qed

end
