(* ===== verification/Breaker.thy ===== *)
theory Breaker
  imports Prelude "HOL-Library.Word"
begin

unbundle bit_operations_syntax

text \<open>
  The lock-free circuit breaker, \<open>crates/tgin-runtime/src/breaker.rs\<close>. The state word is a
  64-bit word: the low two bits the state, the rest the offset it opened at. The operations
  are given twice: as the sequential functions of \<open>Breaker\<close>, and as a step relation in which
  threads interleave between the atomic accesses of those functions.
\<close>

section \<open>The breaker\<close>

type_synonym u64 = "64 word"
type_synonym u32 = "32 word"

record breaker_config =
  failure_threshold :: u32
  open_for :: duration

definition breaker_config_default :: breaker_config where
  "breaker_config_default = \<lparr>failure_threshold = 5, open_for = 30 * NANOS_PER_SEC\<rparr>"

datatype breaker_state = Closed | Open | HalfOpen

definition OFFSET_SHIFT :: duration where
  "OFFSET_SHIFT = 365 * 24 * 60 * 60 * NANOS_PER_SEC"

definition STATE_BITS :: nat where
  "STATE_BITS = 2"

definition STATE_MASK :: u64 where
  "STATE_MASK = 3"

definition MAX_OFFSET :: nat where
  "MAX_OFFSET = U64_MAX div 2 ^ STATE_BITS"

definition CLOSED :: u64 where "CLOSED = 0"
definition OPEN :: u64 where "OPEN = 1"
definition HALF_OPEN :: u64 where "HALF_OPEN = 2"

definition pack :: "u64 \<Rightarrow> nat \<Rightarrow> u64" where
  "pack state opened_at = push_bit STATE_BITS (of_nat opened_at) OR state"

definition state_bits :: "u64 \<Rightarrow> u64" where
  "state_bits w = w AND STATE_MASK"

definition opened_at_of :: "u64 \<Rightarrow> nat" where
  "opened_at_of w = unat (drop_bit STATE_BITS w)"

record breaker =
  br_cfg :: breaker_config
  br_base :: instant
  br_word :: u64
  br_failures :: u32

definition breaker_new :: "breaker_config \<Rightarrow> instant \<Rightarrow> breaker" where
  "breaker_new cfg base =
     \<lparr>br_cfg = cfg, br_base = base, br_word = pack CLOSED 0, br_failures = 0\<rparr>"

definition offset_of :: "breaker \<Rightarrow> instant \<Rightarrow> nat" where
  "offset_of b t =
     (let shifted = (case inst_checked_add t OFFSET_SHIFT of None \<Rightarrow> t | Some s \<Rightarrow> s);
          elapsed = inst_since shifted (br_base b)
      in min (min elapsed U64_MAX) MAX_OFFSET)"

definition reopens_at :: "breaker \<Rightarrow> nat \<Rightarrow> nat" where
  "reopens_at b opened_at = sat_add64 opened_at (min (open_for (br_cfg b)) U64_MAX)"

text \<open>\<open>compare_exchange\<close>: whether it succeeded, and the word after.\<close>

definition cas :: "u64 \<Rightarrow> u64 \<Rightarrow> breaker \<Rightarrow> bool \<times> breaker" where
  "cas expected new b = (if br_word b = expected then (True, b\<lparr>br_word := new\<rparr>) else (False, b))"

definition open_from :: "u64 \<Rightarrow> instant \<Rightarrow> breaker \<Rightarrow> breaker" where
  "open_from from_word now b = snd (cas from_word (pack OPEN (offset_of b now)) b)"

definition allow :: "instant \<Rightarrow> breaker \<Rightarrow> bool \<times> breaker" where
  "allow now b =
     (let word = br_word b; st = state_bits word in
      if st = CLOSED then (True, b)
      else if st = OPEN then
        (let opened_at = opened_at_of word
         in if offset_of b now < reopens_at b opened_at then (False, b)
            else cas word (pack HALF_OPEN opened_at) b)
      else (False, b))"

definition on_success :: "breaker \<Rightarrow> breaker" where
  "on_success b = b\<lparr>br_failures := 0, br_word := pack CLOSED 0\<rparr>"

definition sat_inc32 :: "u32 \<Rightarrow> u32" where
  "sat_inc32 n = (if n = - 1 then n else n + 1)"

definition on_failure :: "instant \<Rightarrow> breaker \<Rightarrow> breaker" where
  "on_failure now b =
     (let word = br_word b; st = state_bits word in
      if st = HALF_OPEN then open_from word now b
      else if st = CLOSED then
        (let failures = sat_inc32 (br_failures b);
             b = b\<lparr>br_failures := br_failures b + 1\<rparr>
         in if failures \<ge> failure_threshold (br_cfg b) then open_from word now b else b)
      else b)"

definition state_of :: "breaker \<Rightarrow> breaker_state" where
  "state_of b =
     (let st = state_bits (br_word b)
      in if st = CLOSED then Closed else if st = OPEN then Open else HalfOpen)"

definition ready_in :: "instant \<Rightarrow> breaker \<Rightarrow> duration option" where
  "ready_in now b =
     (let word = br_word b; st = state_bits word in
      if st = CLOSED then Some 0
      else if st = OPEN then
        Some (reopens_at b (opened_at_of word) - offset_of b now)
      else None)"

section \<open>The state word\<close>

lemma low_bits:
  assumes "(s::u64) < 4"
  shows "bit s i \<Longrightarrow> i < 2"
proof -
  have "s AND mask 2 = s" using assms by (intro less_mask_eq) simp
  then have "bit s i \<longleftrightarrow> bit s i \<and> i < 2" by (metis bit_and_iff bit_mask_iff)
  then show "bit s i \<Longrightarrow> i < 2" by blast
qed

lemma pack_bits:
  assumes "s < 4" and "n \<le> MAX_OFFSET"
  shows "state_bits (pack s n) = s" and "opened_at_of (pack s n) = n"
proof -
  have m: "STATE_MASK = mask 2" by (simp add: STATE_MASK_def mask_eq_decr_exp)
  have n: "n < 2 ^ 62" using assms(2) by (simp add: MAX_OFFSET_def U64_MAX_def STATE_BITS_def)
  show "state_bits (pack s n) = s"
    by (rule bit_word_eqI)
      (auto simp: state_bits_def pack_def m bit_simps STATE_BITS_def dest: low_bits [OF assms(1)])
  have "drop_bit STATE_BITS (pack s n) = take_bit 62 (of_nat n)"
    by (rule bit_word_eqI)
      (auto simp: pack_def bit_simps STATE_BITS_def dest: low_bits [OF assms(1)])
  then show "opened_at_of (pack s n) = n"
    using n by (simp add: opened_at_of_def unsigned_take_bit_eq unat_of_nat take_bit_nat_eq_self)
qed

lemma state_consts [simp]:
  "CLOSED \<noteq> OPEN" "OPEN \<noteq> CLOSED" "CLOSED \<noteq> HALF_OPEN" "HALF_OPEN \<noteq> CLOSED"
  "OPEN \<noteq> HALF_OPEN" "HALF_OPEN \<noteq> OPEN"
  by (simp_all add: CLOSED_def OPEN_def HALF_OPEN_def)

lemma state_bits_pack [simp]:
  assumes "n \<le> MAX_OFFSET"
  shows "state_bits (pack CLOSED n) = CLOSED" "state_bits (pack OPEN n) = OPEN"
    "state_bits (pack HALF_OPEN n) = HALF_OPEN"
    "opened_at_of (pack CLOSED n) = n" "opened_at_of (pack OPEN n) = n" "opened_at_of (pack HALF_OPEN n) = n"
  using assms by (simp_all add: pack_bits CLOSED_def OPEN_def HALF_OPEN_def)

lemma offset_of_le [simp]: "offset_of b t \<le> MAX_OFFSET"
  by (simp add: offset_of_def Let_def)

lemma opened_at_le [simp]: "opened_at_of w \<le> MAX_OFFSET"
proof -
  have "unat (drop_bit 2 w) \<le> unat w div 4" by (simp add: unat_drop_bit_eq drop_bit_eq_div [where 'a = nat])
  also have "\<dots> \<le> (2 ^ 64 - 1) div 4" using unsigned_less [of w, where 'a = nat] by (intro div_le_mono) simp
  finally show ?thesis by (simp add: opened_at_of_def STATE_BITS_def MAX_OFFSET_def U64_MAX_def)
qed

lemma offset_of_frame [simp]:
  "offset_of (b\<lparr>br_word := w\<rparr>) = offset_of b" "offset_of (b\<lparr>br_failures := n\<rparr>) = offset_of b"
  "reopens_at (b\<lparr>br_word := w\<rparr>) = reopens_at b" "reopens_at (b\<lparr>br_failures := n\<rparr>) = reopens_at b"
  by (simp_all add: fun_eq_iff offset_of_def reopens_at_def)

definition wf_breaker :: "breaker \<Rightarrow> bool" where
  "wf_breaker b \<longleftrightarrow> state_bits (br_word b) \<in> {CLOSED, OPEN, HALF_OPEN}"

lemma wf_breaker_ops:
  "wf_breaker (breaker_new cfg base)"
  "wf_breaker b \<Longrightarrow> wf_breaker (snd (allow now b))"
  "wf_breaker (on_success b)"
  "wf_breaker b \<Longrightarrow> wf_breaker (on_failure now b)"
  by (auto simp: wf_breaker_def breaker_new_def allow_def cas_def on_success_def on_failure_def
      open_from_def Let_def)

section \<open>Threads\<close>

text \<open>Where a thread is inside \<open>allow\<close>, \<open>on_failure\<close> or \<open>on_success\<close>.\<close>

datatype pc =
    Idle
  | SawOpen u64
  | SawClosed u64 instant
  | Opening u64 instant
  | Clearing

text \<open>
  \<open>probes\<close> counts the calls admitted out of an open breaker and \<open>settled\<close> the times a
  half-open breaker was closed or reopened.
\<close>

record conc =
  c_breaker :: breaker
  c_pc :: "nat \<Rightarrow> pc"
  probes :: nat
  settled :: nat

definition elapsed :: "breaker \<Rightarrow> instant \<Rightarrow> bool" where
  "elapsed b now \<longleftrightarrow> \<not> offset_of b now < reopens_at b (opened_at_of (br_word b))"

inductive breaker_step :: "conc \<Rightarrow> conc \<Rightarrow> bool" where
  allow_load: "c_pc c t = Idle \<Longrightarrow> state_bits (br_word (c_breaker c)) = OPEN \<Longrightarrow>
    elapsed (c_breaker c) now \<Longrightarrow>
    breaker_step c (c\<lparr>c_pc := (c_pc c)(t := SawOpen (br_word (c_breaker c)))\<rparr>)"
| allow_cas: "c_pc c t = SawOpen w \<Longrightarrow> cas w (pack HALF_OPEN (opened_at_of w)) (c_breaker c) = (won, b) \<Longrightarrow>
    breaker_step c (c\<lparr>c_breaker := b, c_pc := (c_pc c)(t := Idle),
      probes := probes c + (if won then 1 else 0)\<rparr>)"
| fail_load_half: "c_pc c t = Idle \<Longrightarrow> state_bits (br_word (c_breaker c)) = HALF_OPEN \<Longrightarrow>
    breaker_step c (c\<lparr>c_pc := (c_pc c)(t := Opening (br_word (c_breaker c)) now)\<rparr>)"
| fail_load_closed: "c_pc c t = Idle \<Longrightarrow> state_bits (br_word (c_breaker c)) = CLOSED \<Longrightarrow>
    breaker_step c (c\<lparr>c_pc := (c_pc c)(t := SawClosed (br_word (c_breaker c)) now)\<rparr>)"
| fail_count: "c_pc c t = SawClosed w now \<Longrightarrow> n = br_failures (c_breaker c) \<Longrightarrow>
    breaker_step c (c\<lparr>c_breaker := (c_breaker c)\<lparr>br_failures := n + 1\<rparr>,
      c_pc := (c_pc c)(t := (if sat_inc32 n \<ge> failure_threshold (br_cfg (c_breaker c))
                             then Opening w now else Idle))\<rparr>)"
| fail_cas: "c_pc c t = Opening w now \<Longrightarrow>
    breaker_step c (c\<lparr>c_breaker := open_from w now (c_breaker c), c_pc := (c_pc c)(t := Idle),
      settled := settled c +
        (if br_word (c_breaker c) = w \<and> state_bits w = HALF_OPEN then 1 else 0)\<rparr>)"
| succ_clear: "c_pc c t = Idle \<Longrightarrow>
    breaker_step c (c\<lparr>c_breaker := (c_breaker c)\<lparr>br_failures := 0\<rparr>, c_pc := (c_pc c)(t := Clearing)\<rparr>)"
| succ_close: "c_pc c t = Clearing \<Longrightarrow>
    breaker_step c (c\<lparr>c_breaker := (c_breaker c)\<lparr>br_word := pack CLOSED 0\<rparr>, c_pc := (c_pc c)(t := Idle),
      settled := settled c + (if state_bits (br_word (c_breaker c)) = HALF_OPEN then 1 else 0)\<rparr>)"

inductive_cases breaker_stepE: "breaker_step c c'"

inductive breaker_reach :: "conc \<Rightarrow> bool" where
  start: "breaker_reach \<lparr>c_breaker = breaker_new cfg base, c_pc = (\<lambda>_. Idle), probes = 0, settled = 0\<rparr>"
| step: "breaker_reach c \<Longrightarrow> breaker_step c c' \<Longrightarrow> breaker_reach c'"

definition pc_ok :: "pc \<Rightarrow> bool" where
  "pc_ok p = (case p of
      SawOpen w \<Rightarrow> state_bits w = OPEN
    | SawClosed w _ \<Rightarrow> state_bits w = CLOSED
    | Opening w _ \<Rightarrow> state_bits w \<in> {CLOSED, HALF_OPEN}
    | _ \<Rightarrow> True)"

definition conc_ok :: "conc \<Rightarrow> bool" where
  "conc_ok c \<longleftrightarrow> (\<forall>t. pc_ok (c_pc c t)) \<and> wf_breaker (c_breaker c) \<and>
     probes c = settled c + (if state_bits (br_word (c_breaker c)) = HALF_OPEN then 1 else 0)"

lemma conc_ok_step:
  assumes "breaker_step c c'" and "conc_ok c"
  shows "conc_ok c'"
proof -
  have pc: "pc_ok (c_pc c t)" for t using assms(2) by (simp add: conc_ok_def)
  from assms(1) show ?thesis
  proof (cases rule: breaker_step.cases)
    case (allow_cas t w won b)
    with pc [of t] assms(2) show ?thesis
      by (auto simp: conc_ok_def cas_def pc_ok_def wf_breaker_def split: if_splits)
  next
    case (fail_cas t w now)
    with pc [of t] assms(2) show ?thesis
      by (auto simp: conc_ok_def cas_def open_from_def pc_ok_def wf_breaker_def split: if_splits)
  next
    case (fail_count t w now n)
    with pc [of t] assms(2) show ?thesis
      by (auto simp: conc_ok_def pc_ok_def wf_breaker_def split: if_splits)
  qed (use assms(2) in \<open>auto simp: conc_ok_def pc_ok_def wf_breaker_def\<close>)
qed

lemma reach_conc_ok: "breaker_reach c \<Longrightarrow> conc_ok c"
  by (induction rule: breaker_reach.induct)
    (auto simp: conc_ok_step, simp add: conc_ok_def pc_ok_def wf_breaker_ops(1), simp add: breaker_new_def)

text \<open>A thread that runs alone does what the sequential operation does.\<close>

lemma allow_alone:
  assumes "c_pc c t = Idle" and "fst (allow now (c_breaker c))" and "state_of (c_breaker c) = Open"
  shows "\<exists>c1 c2. breaker_step c c1 \<and> breaker_step c1 c2 \<and>
    c_breaker c2 = snd (allow now (c_breaker c)) \<and> probes c2 = probes c + 1"
proof -
  let ?b = "c_breaker c"
  let ?w = "br_word ?b"
  have st: "state_bits ?w = OPEN" using assms(3) by (auto simp: state_of_def Let_def split: if_splits)
  with assms(2) have e: "elapsed ?b now" by (auto simp: allow_def Let_def elapsed_def)
  let ?c1 = "c\<lparr>c_pc := (c_pc c)(t := SawOpen ?w)\<rparr>"
  have s1: "breaker_step c ?c1" by (rule breaker_step.allow_load [where now = now]) (use assms st e in auto)
  have "breaker_step ?c1 (?c1\<lparr>c_breaker := snd (allow now ?b), c_pc := (c_pc ?c1)(t := Idle),
      probes := probes ?c1 + (if True then 1 else 0)\<rparr>)"
    by (rule breaker_step.allow_cas) (use st e in \<open>auto simp: allow_def Let_def elapsed_def cas_def\<close>)
  with s1 show ?thesis by fastforce
qed

section \<open>Properties\<close>


definition demo_conc :: conc where
  "demo_conc = \<lparr>c_breaker = breaker_new breaker_config_default 0, c_pc = (\<lambda>_. Idle), probes = 0, settled = 0\<rparr>"


subsection \<open>The life of a breaker\<close>

lemma unat_inc:
  fixes n k :: u32
  assumes "unat n + 1 < unat k"
  shows "unat (n + 1) = unat n + 1 \<and> n \<noteq> - 1"
proof -
  have "unat n + unat (1 :: u32) < 2 ^ LENGTH(32)"
    using assms unsigned_less [of k, where 'a = nat] by simp
  then have "unat (n + 1) = unat n + unat (1 :: u32)" by (rule iffD1 [OF unat_add_lem])
  then show ?thesis by auto
qed

lemma closed_failures:
  assumes "br_word b = pack CLOSED 0" and "unat (br_failures b) + length ts < unat (failure_threshold (br_cfg b))"
  shows "fold on_failure ts b = b\<lparr>br_failures := br_failures b + of_nat (length ts)\<rparr>"
  using assms
proof (induction ts arbitrary: b)
  case (Cons t ts)
  let ?n = "br_failures b"
  have lt: "unat ?n + 1 < unat (failure_threshold (br_cfg b))" using Cons.prems(2) by simp
  have u: "unat (?n + 1) = unat ?n + 1" and ne: "?n \<noteq> - 1"
    using unat_inc [OF lt] by auto
  have "\<not> failure_threshold (br_cfg b) \<le> sat_inc32 ?n"
    using lt by (simp add: sat_inc32_def ne word_le_nat_alt u)
  then have "on_failure t b = b\<lparr>br_failures := ?n + 1\<rparr>"
    using Cons.prems(1) by (simp add: on_failure_def Let_def)
  with Cons.IH [of "b\<lparr>br_failures := ?n + 1\<rparr>"] Cons.prems u show ?case
    by (simp add: algebra_simps)
qed simp

text \<open>
  A closed breaker opens after exactly \<open>failure_threshold\<close> consecutive failures: after
  fewer it still admits every call, and after the last one it is open since that failure's
  moment and admits no call before \<open>open_for\<close> has passed.
\<close>

theorem breaker_trips:
  assumes "length ts + 1 = unat (failure_threshold cfg)"
  shows "(\<forall>now. fst (allow now (fold on_failure ts (breaker_new cfg base)))) \<and>
    (let b = on_failure t (fold on_failure ts (breaker_new cfg base))
     in state_of b = Open \<and> opened_at_of (br_word b) = offset_of b t \<and>
        (\<forall>now. fst (allow now b) \<longleftrightarrow> reopens_at b (offset_of b t) \<le> offset_of b now))"
proof -
  let ?b = "breaker_new cfg base"
  have f: "fold on_failure ts ?b = ?b\<lparr>br_failures := of_nat (length ts)\<rparr>"
    using closed_failures [of ?b ts] assms by (simp add: breaker_new_def)
  have c: "state_bits (br_word ?b) = CLOSED" by (simp add: breaker_new_def MAX_OFFSET_def)
  have "length ts < 2 ^ LENGTH(32)"
    using assms unsigned_less [of "failure_threshold cfg", where 'a = nat] by simp
  then have n: "unat (of_nat (length ts) :: u32) = length ts"
    by (simp add: unat_of_nat take_bit_nat_eq_self)
  have "failure_threshold cfg \<le> sat_inc32 (of_nat (length ts))"
  proof (cases "(of_nat (length ts) :: u32) = - 1")
    case True
    then show ?thesis by (simp add: sat_inc32_def)
  next
    case False
    then have "unat ((of_nat (length ts) :: u32) + 1) = length ts + 1"
      using n by (metis add.commute add_eq_0_iff2 plus_1_eq_Suc unatSuc)
    with False assms show ?thesis by (simp add: sat_inc32_def word_le_nat_alt)
  qed
  then have o: "on_failure t (fold on_failure ts ?b) =
      ?b\<lparr>br_failures := of_nat (length ts) + 1, br_word := pack OPEN (offset_of ?b t)\<rparr>"
    using c by (simp add: f on_failure_def Let_def open_from_def cas_def) (simp add: breaker_new_def)
  have "fst (allow now (fold on_failure ts ?b))" for now using c by (simp add: f allow_def)
  then show ?thesis by (auto simp: o Let_def state_of_def allow_def cas_def not_less)
qed

theorem breaker_trips_demo:
  "state_of (on_failure 9 (fold on_failure [1, 2, 3, 4] (breaker_new breaker_config_default 0))) = Open"
proof -
  have "length [1, 2, 3, 4::nat] + 1 = unat (failure_threshold breaker_config_default)" by code_simp
  from breaker_trips [OF this, of 0 9] show ?thesis by (simp add: Let_def)
qed

text \<open>
  The cycle of an open breaker: once \<open>open_for\<close> has passed it admits one call and is
  half-open, then no other call; a failure then opens it again from that moment on, and a
  success closes it and clears the failure count. \<open>ready_in\<close> is zero exactly when \<open>allow\<close>
  would admit a call.
\<close>

theorem breaker_cycle:
  assumes "wf_breaker b"
  shows "(fst (allow now b) \<longleftrightarrow> ready_in now b = Some 0) \<and>
    (state_of b = Open \<and> fst (allow now b) \<longrightarrow>
      state_of (snd (allow now b)) = HalfOpen \<and>
      (\<forall>later. \<not> fst (allow later (snd (allow now b))) \<and> ready_in later (snd (allow now b)) = None) \<and>
      (let f = on_failure later (snd (allow now b))
       in state_of f = Open \<and> opened_at_of (br_word f) = offset_of b later)) \<and>
    state_of (on_success b) = Closed \<and> br_failures (on_success b) = 0 \<and>
    (state_of b = Open \<longrightarrow> on_failure now b = b)"
  using assms
  by (auto simp: wf_breaker_def allow_def ready_in_def state_of_def cas_def on_failure_def on_success_def
      open_from_def Let_def not_less split: if_splits)

theorem breaker_cycle_demo:
  "state_of (on_success (breaker_new breaker_config_default 0)) = Closed"
  using breaker_cycle [OF wf_breaker_ops(1)] by blast

end
