(* ===== verification/Backoff.thy ===== *)
theory Backoff
  imports Prelude
begin

text \<open>
  \<open>crates/tgin-runtime/src/backoff.rs\<close>: full-jitter exponential backoff. The random number
  generator is a parameter: \<open>draw c\<close> is what \<open>random_range(0..=c)\<close> returns.
\<close>

record backoff =
  bo_initial :: duration
  bo_max :: duration
  bo_floor :: duration
  bo_attempt :: nat

definition backoff_new :: "duration \<Rightarrow> duration \<Rightarrow> duration \<Rightarrow> backoff" where
  "backoff_new initial mx floor =
     \<lparr>bo_initial = initial, bo_max = mx, bo_floor = floor, bo_attempt = 0\<rparr>"

definition sat_pow2_32 :: "nat \<Rightarrow> nat" where
  "sat_pow2_32 n = (if n < 32 then 2 ^ n else U32_MAX)"

definition next_delay :: "(nat \<Rightarrow> nat) \<Rightarrow> backoff \<Rightarrow> duration \<times> backoff" where
  "next_delay draw b =
     (let factor = sat_pow2_32 (bo_attempt b);
          ceiling = min (dur_sat_mul (bo_initial b) factor) (bo_max b);
          ceiling_nanos = min ceiling U64_MAX;
          drawn = draw ceiling_nanos
      in (max drawn (bo_floor b), b\<lparr>bo_attempt := min (bo_attempt b + 1) U32_MAX\<rparr>))"

definition backoff_reset :: "backoff \<Rightarrow> backoff" where
  "backoff_reset b = b\<lparr>bo_attempt := 0\<rparr>"

definition honor_retry_after :: "duration \<Rightarrow> duration option \<Rightarrow> duration \<Rightarrow> duration" where
  "honor_retry_after computed retry_after cap =
     (case retry_after of Some ra \<Rightarrow> max computed (min ra cap) | None \<Rightarrow> computed)"

text \<open>The delays of successive attempts.\<close>

fun delays :: "(nat \<Rightarrow> nat \<Rightarrow> nat) \<Rightarrow> nat \<Rightarrow> backoff \<Rightarrow> duration list" where
  "delays draws 0 b = []"
| "delays draws (Suc n) b =
     (case next_delay (draws n) b of (d, b') \<Rightarrow> d # delays draws n b')"

lemma sat_pow2_32_le: "sat_pow2_32 n \<le> 2 ^ n"
proof (cases "n < 32")
  case False
  then have "(2::nat) ^ 32 \<le> 2 ^ n" by (intro power_increasing) auto
  with False show ?thesis by (simp add: sat_pow2_32_def U32_MAX_def)
qed (simp add: sat_pow2_32_def)

lemma next_delay_bounds:
  assumes "\<And>c. draw c \<le> c"
  shows "bo_floor b \<le> fst (next_delay draw b)"
    and "fst (next_delay draw b) \<le> max (bo_floor b) (min (bo_max b) (bo_initial b * 2 ^ bo_attempt b))"
proof -
  show "bo_floor b \<le> fst (next_delay draw b)" by (simp add: next_delay_def Let_def)
  let ?c = "min (dur_sat_mul (bo_initial b) (sat_pow2_32 (bo_attempt b))) (bo_max b)"
  have "draw (min ?c U64_MAX) \<le> ?c" using assms [of "min ?c U64_MAX"] by simp
  moreover have "?c \<le> min (bo_max b) (bo_initial b * 2 ^ bo_attempt b)"
  proof -
    have "p \<le> q \<Longrightarrow> min (min p d) m \<le> min m q" for p q d m :: nat by simp
    from this [OF mult_le_mono2 [OF sat_pow2_32_le]] show ?thesis unfolding dur_sat_mul_def .
  qed
  ultimately show "fst (next_delay draw b) \<le> max (bo_floor b) (min (bo_max b) (bo_initial b * 2 ^ bo_attempt b))"
    by (auto simp: next_delay_def Let_def)
qed

lemma delays_nth:
  assumes "\<And>k c. draws k c \<le> c" and "i < n" and "bo_attempt b + n \<le> U32_MAX"
  shows "bo_floor b \<le> delays draws n b ! i \<and>
    delays draws n b ! i \<le> max (bo_floor b) (min (bo_max b) (bo_initial b * 2 ^ (bo_attempt b + i)))"
  using assms(2,3)
proof (induction n arbitrary: b i)
  case (Suc n)
  let ?b = "snd (next_delay (draws n) b)"
  have b': "bo_floor ?b = bo_floor b" "bo_max ?b = bo_max b" "bo_initial ?b = bo_initial b"
    "bo_attempt ?b = bo_attempt b + 1"
    using Suc.prems(2) by (auto simp: next_delay_def Let_def)
  show ?case
  proof (cases i)
    case 0
    with next_delay_bounds [of "draws n" b] assms(1) show ?thesis by (simp add: split_beta)
  next
    case (Suc j)
    with Suc.IH [of j ?b] Suc.prems b' show ?thesis by (simp add: split_beta)
  qed
qed simp

text \<open>
  The delay of the \<open>i\<close>-th attempt lies between the floor and the larger of the floor and
  \<open>min(max, initial * 2 ^ i)\<close>, whatever the generator draws; honouring a server's
  \<open>retry_after\<close> never shortens a delay and never extends it past the cap.
\<close>

theorem backoff_bounds:
  assumes "\<And>k c. draws k c \<le> c" and "i < n" and "n \<le> U32_MAX"
  shows "let d = delays draws n (backoff_new initial mx floor) ! i;
             h = honor_retry_after d ra cap
         in floor \<le> d \<and> d \<le> max floor (min mx (initial * 2 ^ i)) \<and>
            d \<le> h \<and> h \<le> max d cap \<and> (case ra of Some r \<Rightarrow> r \<le> cap \<longrightarrow> r \<le> h | None \<Rightarrow> h = d)"
  using delays_nth [OF assms(1,2), of "backoff_new initial mx floor"] assms(3)
  by (auto simp: Let_def backoff_new_def honor_retry_after_def split: option.splits)

theorem backoff_bounds_demo:
  "delays (\<lambda>_ c. c) 3 (backoff_new 10 25 5) ! 2 \<le> max 5 (min 25 (10 * 2 ^ 2)) \<and>
   delays (\<lambda>_ c. c) 3 (backoff_new 10 25 5) = [10, 20, 25]"
proof -
  have "delays (\<lambda>_ c. c) 3 (backoff_new 10 25 5) = [10, 20, 25]" by code_simp
  moreover have "let d = delays (\<lambda>_ c. c) 3 (backoff_new 10 25 5) ! 2;
             h = honor_retry_after d None 0
         in 5 \<le> d \<and> d \<le> max 5 (min 25 (10 * 2 ^ 2)) \<and>
            d \<le> h \<and> h \<le> max d 0 \<and> (case None of Some r \<Rightarrow> r \<le> 0 \<longrightarrow> r \<le> h | None \<Rightarrow> h = d)"
    by (rule backoff_bounds) (simp_all add: U32_MAX_def)
  ultimately show ?thesis by (simp only: Let_def)
qed

end
