(* ===== verification/Lifecycle.thy ===== *)
theory Lifecycle
  imports Prelude
begin

text \<open>
  \<open>crates/tgin-runtime/src/lifecycle.rs\<close>: the phases of the process, the registration of the
  signal listeners and the shutdown timing. The outcome of registering a listener with the
  operating system is an argument (\<open>Inl\<close> the error).
\<close>

section \<open>Phases\<close>

datatype phase = Starting | Running | Draining | Stopped

text \<open>The derived order of the enumeration.\<close>

primrec phase_rank :: "phase \<Rightarrow> nat" where
  "phase_rank Starting = 0"
| "phase_rank Running = 1"
| "phase_rank Draining = 2"
| "phase_rank Stopped = 3"

lemma phase_rank_inj: "phase_rank p = phase_rank q \<longleftrightarrow> p = q"
  by (cases p; cases q) auto

instantiation phase :: linorder
begin

definition less_eq_phase :: "phase \<Rightarrow> phase \<Rightarrow> bool" where
  "p \<le> q \<longleftrightarrow> phase_rank p \<le> phase_rank q"

definition less_phase :: "phase \<Rightarrow> phase \<Rightarrow> bool" where
  "p < q \<longleftrightarrow> phase_rank p < phase_rank q"

instance
  by standard (auto simp: less_eq_phase_def less_phase_def phase_rank_inj)

end

record lifecycle =
  lc_phase :: phase
  lc_ingest_cancelled :: bool
  lc_force_cancelled :: bool
  lc_seen :: "phase list"

definition lifecycle_new :: lifecycle where
  "lifecycle_new = \<lparr>lc_phase = Starting, lc_ingest_cancelled = False, lc_force_cancelled = False,
     lc_seen = []\<rparr>"

text \<open>\<open>advance\<close>: \<open>send_if_modified\<close> publishes the phase to the subscribers if it changed.\<close>

definition advance :: "phase \<Rightarrow> lifecycle \<Rightarrow> lifecycle" where
  "advance to lc =
     (if to > lc_phase lc then lc\<lparr>lc_phase := to, lc_seen := lc_seen lc @ [to]\<rparr> else lc)"

definition set_running :: "lifecycle \<Rightarrow> lifecycle" where
  "set_running = advance Running"

definition begin_drain :: "lifecycle \<Rightarrow> lifecycle" where
  "begin_drain = advance Draining"

definition set_stopped :: "lifecycle \<Rightarrow> lifecycle" where
  "set_stopped = advance Stopped"

definition cancel_ingest :: "lifecycle \<Rightarrow> lifecycle" where
  "cancel_ingest lc = lc\<lparr>lc_ingest_cancelled := True\<rparr>"

definition cancel_force :: "lifecycle \<Rightarrow> lifecycle" where
  "cancel_force lc = lc\<lparr>lc_force_cancelled := True\<rparr>"

section \<open>Signals\<close>

datatype signal_kind = Terminate | Interrupt | Hangup | CtrlBreak | CtrlClose | CtrlShutdown

definition is_terminating :: "signal_kind \<Rightarrow> bool" where
  "is_terminating s = (s \<noteq> Hangup)"

type_synonym io_error = string

record signals =
  sg_listening :: "signal_kind list"
  sg_failed :: "(signal_kind \<times> io_error) list"

record installer =
  in_listening :: "signal_kind list"
  in_registered :: nat
  in_failed :: "(signal_kind \<times> io_error) list"

definition installer_new :: installer where
  "installer_new = \<lparr>in_listening = [], in_registered = 0, in_failed = []\<rparr>"

definition installer_add :: "signal_kind \<Rightarrow> io_error + unit \<Rightarrow> installer \<Rightarrow> installer" where
  "installer_add kind listener i =
     (case listener of
        Inr _ \<Rightarrow> i\<lparr>in_listening := in_listening i @ [kind], in_registered := in_registered i + 1\<rparr>
      | Inl err \<Rightarrow> i\<lparr>in_failed := in_failed i @ [(kind, err)]\<rparr>)"

definition installer_finish :: "installer \<Rightarrow> io_error + signals" where
  "installer_finish i =
     (if in_registered i = 0
      then Inl (case in_failed i of [] \<Rightarrow> ''no signal listener to register'' | (_, err) # _ \<Rightarrow> err)
      else Inr \<lparr>sg_listening = in_listening i, sg_failed = in_failed i\<rparr>)"

definition register_unix :: "(signal_kind \<Rightarrow> io_error + unit) \<Rightarrow> installer \<Rightarrow> installer" where
  "register_unix os i =
     installer_add Hangup (os Hangup)
       (installer_add Interrupt (os Interrupt) (installer_add Terminate (os Terminate) i))"

definition register_windows :: "(signal_kind \<Rightarrow> io_error + unit) \<Rightarrow> installer \<Rightarrow> installer" where
  "register_windows os i =
     installer_add CtrlShutdown (os CtrlShutdown)
       (installer_add CtrlClose (os CtrlClose)
         (installer_add CtrlBreak (os CtrlBreak) (installer_add Interrupt (os Interrupt) i)))"

definition install :: "((signal_kind \<Rightarrow> io_error + unit) \<Rightarrow> installer \<Rightarrow> installer) \<Rightarrow>
    (signal_kind \<Rightarrow> io_error + unit) \<Rightarrow> io_error + signals" where
  "install register os = installer_finish (register os installer_new)"

section \<open>Shutdown timing\<close>

record shutdown_timing =
  lame_duck :: duration
  grace :: duration

definition shutdown_timing_default :: shutdown_timing where
  "shutdown_timing_default = \<lparr>lame_duck = 5 * NANOS_PER_SEC, grace = 15 * NANOS_PER_SEC\<rparr>"

definition for_signal :: "shutdown_timing \<Rightarrow> signal_kind \<Rightarrow> shutdown_timing" where
  "for_signal t s =
     (case s of
        CtrlClose \<Rightarrow> \<lparr>lame_duck = 0, grace = min (grace t) (4 * NANOS_PER_SEC)\<rparr>
      | _ \<Rightarrow> t)"

section \<open>Properties\<close>

datatype lc_op = SetRunning | BeginDrain | SetStopped | CancelIngest | CancelForce

primrec lc_apply :: "lc_op \<Rightarrow> lifecycle \<Rightarrow> lifecycle" where
  "lc_apply SetRunning = set_running"
| "lc_apply BeginDrain = begin_drain"
| "lc_apply SetStopped = set_stopped"
| "lc_apply CancelIngest = cancel_ingest"
| "lc_apply CancelForce = cancel_force"

definition op_phase :: "lc_op \<Rightarrow> phase" where
  "op_phase op = (case op of SetRunning \<Rightarrow> Running | BeginDrain \<Rightarrow> Draining | SetStopped \<Rightarrow> Stopped
     | _ \<Rightarrow> Starting)"

lemma Starting_least [simp]: "Starting \<le> p"
  by (simp add: less_eq_phase_def)

lemma phase_apply: "lc_phase (lc_apply op lc) = max (lc_phase lc) (op_phase op)"
  by (cases op) (auto simp: set_running_def begin_drain_def set_stopped_def cancel_ingest_def
      cancel_force_def advance_def op_phase_def max_def intro: antisym)

definition seen_ok :: "lifecycle \<Rightarrow> bool" where
  "seen_ok lc \<longleftrightarrow> sorted_wrt (<) (lc_seen lc) \<and> (\<forall>p \<in> set (lc_seen lc). p \<le> lc_phase lc)"

lemma seen_advance: "seen_ok lc \<Longrightarrow> seen_ok (advance to lc)"
  by (auto simp: seen_ok_def advance_def sorted_wrt_append)

lemma seen_apply: "seen_ok lc \<Longrightarrow> seen_ok (lc_apply op lc)"
  using seen_advance [of lc]
  by (cases op) (simp_all add: set_running_def begin_drain_def set_stopped_def,
      simp_all add: seen_ok_def cancel_ingest_def cancel_force_def)

lemma fold_phase: "lc_phase (fold lc_apply ops lc) = fold (\<lambda>op p. max p (op_phase op)) ops (lc_phase lc)"
  by (induction ops arbitrary: lc) (simp_all add: phase_apply)

lemma fold_max_Max: "fold (\<lambda>op p. max p (op_phase op)) ops p = Max (insert p (op_phase ` set ops))"
proof (induction ops arbitrary: p)
  case (Cons op ops)
  have "finite (op_phase ` set ops)" by simp
  with Cons [of "max p (op_phase op)"] show ?case
    by (cases "ops = []") (simp_all add: max.assoc)
qed simp

text \<open>
  Phases only move forward: after any sequence of operations, in any order and however
  often, the phase is the latest one asked for, and subscribers saw strictly increasing phases.
\<close>

theorem phases_forward:
  "lc_phase (fold lc_apply ops lifecycle_new) = Max (insert Starting (op_phase ` set ops)) \<and>
   sorted_wrt (<) (lc_seen (fold lc_apply ops lifecycle_new))"
proof -
  have "seen_ok (fold lc_apply ops lc)" if "seen_ok lc" for lc
    using that by (induction ops arbitrary: lc) (simp_all add: seen_apply)
  then have "seen_ok (fold lc_apply ops lifecycle_new)" by (simp add: seen_ok_def lifecycle_new_def)
  then show ?thesis by (simp add: fold_phase fold_max_Max seen_ok_def) (simp add: lifecycle_new_def)
qed

text \<open>
  Listeners register independently: \<open>install\<close> fails only when every one of them failed,
  with the first error; otherwise each that registered delivers and each that failed is listed
  with its error.
\<close>

lemma install_partial:
  "install register_unix os =
     (case os Terminate of
        Inr _ \<Rightarrow> Inr \<lparr>sg_listening = filter (\<lambda>k. \<not> isl (os k)) [Terminate, Interrupt, Hangup],
                    sg_failed = map (\<lambda>k. (k, projl (os k))) (filter (\<lambda>k. isl (os k)) [Terminate, Interrupt, Hangup])\<rparr>
      | Inl err \<Rightarrow>
          if isl (os Interrupt) \<and> isl (os Hangup) then Inl err
          else Inr \<lparr>sg_listening = filter (\<lambda>k. \<not> isl (os k)) [Terminate, Interrupt, Hangup],
                    sg_failed = map (\<lambda>k. (k, projl (os k))) (filter (\<lambda>k. isl (os k)) [Terminate, Interrupt, Hangup])\<rparr>)"
  by (simp add: install_def register_unix_def installer_add_def installer_finish_def installer_new_def
      split: sum.splits)

end
