(* ===== verification/Supervisor.thy ===== *)
theory Supervisor
  imports Backoff "HOL-Library.List_Lexorder" "HOL-Library.Char_ord"
begin

text \<open>
  The restarting supervisor, \<open>crates/tgin-runtime/src/supervisor.rs\<close>. Spawned tasks live in a
  store; the supervisor lists the newest task of every name and keeps the tasks it will join.
  \<open>supervise\<close> is cut at its awaits: an attempt runs, or the task sleeps until its retry. The
  attempts themselves are parameters: how one ends is an input of the step.
\<close>

section \<open>Tasks\<close>

datatype exit = ExitDone | ExitRetry string | ExitFatal string

datatype task_state = TStarting | TRunning | TBackoff instant string | TFailed string | TStopped

datatype task_at = AtSpawn | Attempting instant | Sleeping instant | Ended

text \<open>\<open>tk_parent\<close> is the caller's token, \<open>tk_cancel\<close> whether the task's own child of it is cancelled.\<close>

record task =
  tk_name :: string
  tk_state :: task_state
  tk_parent :: nat
  tk_cancel :: bool
  tk_backoff :: backoff
  tk_at :: task_at

record supervisor =
  sv_tasks :: "task list"
  sv_entries :: "(string, nat) mapping"
  sv_running :: "nat list"
  sv_cancelled :: "nat set"

definition supervisor_new :: supervisor where
  "supervisor_new = \<lparr>sv_tasks = [], sv_entries = Mapping.empty, sv_running = [], sv_cancelled = {}\<rparr>"

definition task_cancelled :: "supervisor \<Rightarrow> task \<Rightarrow> bool" where
  "task_cancelled sv tk \<longleftrightarrow> tk_cancel tk \<or> tk_parent tk \<in> sv_cancelled sv"

definition upd_task :: "nat \<Rightarrow> (task \<Rightarrow> task) \<Rightarrow> supervisor \<Rightarrow> supervisor" where
  "upd_task i f sv = sv\<lparr>sv_tasks := (sv_tasks sv)[i := f (sv_tasks sv ! i)]\<rparr>"

section \<open>The supervisor\<close>

definition sv_spawn :: "string \<Rightarrow> backoff \<Rightarrow> nat \<Rightarrow> supervisor \<Rightarrow> supervisor" where
  "sv_spawn name bo token sv =
     (let i = length (sv_tasks sv);
          sv' = sv\<lparr>sv_tasks := sv_tasks sv @ [\<lparr>tk_name = name, tk_state = TStarting, tk_parent = token,
                     tk_cancel = False, tk_backoff = bo, tk_at = AtSpawn\<rparr>],
                   sv_entries := Mapping.update name i (sv_entries sv)\<rparr>;
          sv' = (case Mapping.lookup (sv_entries sv) name of
                   None \<Rightarrow> sv'
                 | Some previous \<Rightarrow> upd_task previous (\<lambda>tk. tk\<lparr>tk_cancel := True\<rparr>) sv')
      in sv'\<lparr>sv_running := filter (\<lambda>j. tk_at (sv_tasks sv' ! j) \<noteq> Ended) (sv_running sv) @ [i]\<rparr>)"

definition sv_states :: "supervisor \<Rightarrow> (string \<times> task_state) list" where
  "sv_states sv =
     map (\<lambda>name. (name, tk_state (sv_tasks sv ! the (Mapping.lookup (sv_entries sv) name))))
       (Mapping.ordered_keys (sv_entries sv))"

definition sv_subscribe :: "string \<Rightarrow> supervisor \<Rightarrow> nat option" where
  "sv_subscribe name sv = Mapping.lookup (sv_entries sv) name"

definition is_ended :: "task_state \<Rightarrow> bool" where
  "is_ended st = (case st of TStopped \<Rightarrow> True | TFailed _ \<Rightarrow> True | _ \<Rightarrow> False)"

definition sv_remove :: "string \<Rightarrow> supervisor \<Rightarrow> supervisor" where
  "sv_remove name sv =
     (let ended = (case Mapping.lookup (sv_entries sv) name of
                     None \<Rightarrow> False
                   | Some i \<Rightarrow> is_ended (tk_state (sv_tasks sv ! i)))
      in if ended then sv\<lparr>sv_entries := Mapping.delete name (sv_entries sv)\<rparr> else sv)"

text \<open>\<open>StopOnDrop\<close>: the state a task leaves behind when its future is dropped.\<close>

definition stop_on_drop :: "task_state \<Rightarrow> task_state" where
  "stop_on_drop st = (if is_ended st then st else TStopped)"

definition task_end :: "task \<Rightarrow> task" where
  "task_end tk = tk\<lparr>tk_state := stop_on_drop (tk_state tk), tk_at := Ended\<rparr>"

text \<open>
  \<open>shutdown\<close>: it takes the tasks spawned so far, waits, and at the deadline aborts those that
  have not ended; the number it returns.
\<close>

definition shutdown_take :: "supervisor \<Rightarrow> nat list \<times> supervisor" where
  "shutdown_take sv = (sv_running sv, sv\<lparr>sv_running := []\<rparr>)"

definition shutdown_abort :: "nat list \<Rightarrow> supervisor \<Rightarrow> nat \<times> supervisor" where
  "shutdown_abort is sv =
     (let alive = filter (\<lambda>i. tk_at (sv_tasks sv ! i) \<noteq> Ended) is
      in (length alive, fold (\<lambda>i. upd_task i task_end) alive sv))"

section \<open>Supervising\<close>

definition begin_attempt :: "instant \<Rightarrow> task \<Rightarrow> task" where
  "begin_attempt now tk = tk\<lparr>tk_state := TRunning, tk_at := Attempting now\<rparr>"

definition retry_error :: "string + exit \<Rightarrow> string option" where
  "retry_error outcome =
     (case outcome of
        Inr ExitDone \<Rightarrow> None
      | Inr (ExitFatal _) \<Rightarrow> None
      | Inr (ExitRetry error) \<Rightarrow> Some error
      | Inl message \<Rightarrow> Some (''panicked: '' @ message))"

text \<open>
  After an attempt: \<open>Inl\<close> is the message of a panic. A retry time past the clock's range panics
  in \<open>supervise\<close> itself, whose future is dropped.
\<close>

definition attempt_ended :: "(nat \<Rightarrow> nat) \<Rightarrow> instant \<Rightarrow> instant \<Rightarrow> string + exit \<Rightarrow> task \<Rightarrow> task" where
  "attempt_ended draw started now outcome tk =
     (case retry_error outcome of
        None \<Rightarrow>
          (case outcome of
             Inr (ExitFatal reason) \<Rightarrow> task_end (tk\<lparr>tk_state := TFailed reason\<rparr>)
           | _ \<Rightarrow> task_end tk)
      | Some last_error \<Rightarrow>
          (let bo = (if inst_since now started > bo_max (tk_backoff tk) then backoff_reset (tk_backoff tk) else tk_backoff tk);
               (delay, bo) = next_delay draw bo;
               tk = tk\<lparr>tk_backoff := bo\<rparr>
           in case inst_checked_add now delay of
                None \<Rightarrow> task_end tk
              | Some retry_at \<Rightarrow> tk\<lparr>tk_state := TBackoff retry_at last_error, tk_at := Sleeping retry_at\<rparr>))"

text \<open>One step of the task \<open>tk\<close> at \<open>now\<close>; both selects look at the token first.\<close>

inductive task_step :: "bool \<Rightarrow> instant \<Rightarrow> task \<Rightarrow> task \<Rightarrow> bool" for cancelled :: bool and now :: instant and tk :: task where
  tk_start: "tk_at tk = AtSpawn \<Longrightarrow> task_step cancelled now tk (begin_attempt now tk)"
| tk_cancelled: "tk_at tk = Attempting started \<or> tk_at tk = Sleeping retry_at \<Longrightarrow> cancelled \<Longrightarrow>
    task_step cancelled now tk (task_end tk)"
| tk_ends: "tk_at tk = Attempting started \<Longrightarrow> \<not> cancelled \<Longrightarrow>
    task_step cancelled now tk (attempt_ended draw started now outcome tk)"
| tk_slept: "tk_at tk = Sleeping retry_at \<Longrightarrow> \<not> cancelled \<Longrightarrow> retry_at \<le> now \<Longrightarrow>
    task_step cancelled now tk (begin_attempt now tk)"

inductive sv_step :: "supervisor \<Rightarrow> supervisor \<Rightarrow> bool" where
  sv_spawns: "sv_step sv (sv_spawn name bo token sv)"
| sv_removes: "sv_step sv (sv_remove name sv)"
| sv_cancels: "sv_step sv (sv\<lparr>sv_cancelled := insert token (sv_cancelled sv)\<rparr>)"
| sv_takes: "shutdown_take sv = (is, sv') \<Longrightarrow> sv_step sv sv'"
| sv_aborts: "shutdown_abort is sv = (n, sv') \<Longrightarrow> \<forall>i \<in> set is. i < length (sv_tasks sv) \<Longrightarrow> sv_step sv sv'"
| sv_runs: "i < length (sv_tasks sv) \<Longrightarrow> task_step (task_cancelled sv (sv_tasks sv ! i)) now (sv_tasks sv ! i) tk \<Longrightarrow>
    sv_step sv (sv\<lparr>sv_tasks := (sv_tasks sv)[i := tk]\<rparr>)"

inductive_cases sv_stepE: "sv_step sv sv'"

inductive sv_reach :: "supervisor \<Rightarrow> bool" where
  sv_empty: "sv_reach supervisor_new"
| sv_more: "sv_reach sv \<Longrightarrow> sv_step sv sv' \<Longrightarrow> sv_reach sv'"

section \<open>The invariant\<close>

text \<open>The published state says where the task is.\<close>

definition agrees :: "task \<Rightarrow> bool" where
  "agrees tk =
     (case tk_at tk of
        AtSpawn \<Rightarrow> tk_state tk = TStarting
      | Attempting _ \<Rightarrow> tk_state tk = TRunning
      | Sleeping retry_at \<Rightarrow> (\<exists>last_error. tk_state tk = TBackoff retry_at last_error)
      | Ended \<Rightarrow> is_ended (tk_state tk))"

definition listed :: "(string, nat) mapping \<Rightarrow> task list \<Rightarrow> bool" where
  "listed es tks \<longleftrightarrow>
     (\<forall>name i. Mapping.lookup es name = Some i \<longrightarrow> i < length tks \<and> tk_name (tks ! i) = name) \<and>
     (\<forall>i < length tks. tk_at (tks ! i) \<noteq> Ended \<longrightarrow> \<not> tk_cancel (tks ! i) \<longrightarrow>
        Mapping.lookup es (tk_name (tks ! i)) = Some i)"

definition sv_inv :: "supervisor \<Rightarrow> bool" where
  "sv_inv sv \<longleftrightarrow> list_all agrees (sv_tasks sv) \<and> listed (sv_entries sv) (sv_tasks sv)"

lemma is_ended_simps [simp]: "is_ended (stop_on_drop st)" "is_ended TStopped" "is_ended (TFailed r)"
  "\<not> is_ended TStarting" "\<not> is_ended TRunning" "\<not> is_ended (TBackoff t e)"
  by (simp_all add: stop_on_drop_def is_ended_def)

lemma agrees_ended: "agrees tk \<Longrightarrow> is_ended (tk_state tk) \<longleftrightarrow> tk_at tk = Ended"
  by (auto simp: agrees_def split: task_at.splits)

lemma task_end_simps [simp]: "tk_name (task_end tk) = tk_name tk" "tk_at (task_end tk) = Ended"
  "agrees (task_end tk)" "tk_cancel (task_end tk) = tk_cancel tk" "is_ended (tk_state (task_end tk))"
  by (simp_all add: task_end_def agrees_def)

text \<open>What may happen to a task in the store: it keeps its name, an ended one stays as it is, and nothing uncancels it.\<close>

definition task_moves :: "task \<Rightarrow> task \<Rightarrow> bool" where
  "task_moves tk tk' \<longleftrightarrow> tk_name tk' = tk_name tk \<and> (tk_cancel tk \<longrightarrow> tk_cancel tk') \<and> (agrees tk \<longrightarrow> agrees tk') \<and>
     (tk_at tk = Ended \<longrightarrow> tk_at tk' = Ended \<and> tk_state tk' = tk_state tk)"

lemma task_moves_refl [simp]: "task_moves tk tk"
  by (simp add: task_moves_def)

lemma task_moves_end: "agrees tk \<Longrightarrow> task_moves tk (task_end tk)"
  using agrees_ended [of tk] by (auto simp: task_moves_def task_end_def stop_on_drop_def agrees_def)

lemma task_moves_cancel: "task_moves tk (tk\<lparr>tk_cancel := True\<rparr>)"
  by (simp add: task_moves_def agrees_def split: task_at.splits)

lemma task_step_moves:
  assumes "task_step cancelled now tk tk'"
  shows "task_moves tk tk' \<and> tk_cancel tk' = tk_cancel tk"
  using assms
proof (cases rule: task_step.cases)
  case (tk_ends started draw outcome)
  have "tk_name (attempt_ended draw started now outcome tk) = tk_name tk"
    "tk_cancel (attempt_ended draw started now outcome tk) = tk_cancel tk"
    "agrees (attempt_ended draw started now outcome tk)"
    by (auto simp: attempt_ended_def Let_def agrees_def split: option.splits prod.splits sum.splits exit.splits)
  with tk_ends show ?thesis by (simp add: task_moves_def)
qed (auto simp: task_moves_def begin_attempt_def agrees_def)

lemma listed_moves:
  assumes "listed es tks" and "length tks' = length tks"
    and "\<And>i. i < length tks \<Longrightarrow> task_moves (tks ! i) (tks' ! i)"
  shows "listed es tks'"
proof -
  have "Mapping.lookup es (tk_name (tks' ! i)) = Some i"
    if "i < length tks'" "tk_at (tks' ! i) \<noteq> Ended" "\<not> tk_cancel (tks' ! i)" for i
    using assms that by (auto simp: listed_def task_moves_def)
  with assms show ?thesis unfolding listed_def task_moves_def by simp
qed

definition all_move :: "task list \<Rightarrow> task list \<Rightarrow> bool" where
  "all_move tks tks' \<longleftrightarrow> length tks' = length tks \<and> (\<forall>i < length tks. task_moves (tks ! i) (tks' ! i))"

lemma sv_inv_moves:
  assumes "sv_inv sv" and "all_move (sv_tasks sv) (sv_tasks sv')" and "sv_entries sv' = sv_entries sv"
  shows "sv_inv sv'"
  using assms listed_moves [of "sv_entries sv" "sv_tasks sv" "sv_tasks sv'"]
  by (simp add: sv_inv_def all_move_def list_all_length task_moves_def)

lemma all_move_update: "task_moves (tks ! i) tk \<Longrightarrow> all_move tks (tks[i := tk])"
  by (auto simp: all_move_def) (metis nth_list_update_eq nth_list_update_neq task_moves_refl)

lemma all_move_trans: "all_move a b \<Longrightarrow> all_move b c \<Longrightarrow> all_move a c"
  by (simp add: all_move_def task_moves_def)

lemma all_move_agrees: "list_all agrees a \<Longrightarrow> all_move a b \<Longrightarrow> list_all agrees b"
  by (simp add: all_move_def list_all_length task_moves_def)

lemma fold_abort:
  assumes "list_all agrees (sv_tasks sv)" and "\<forall>i \<in> set is. i < length (sv_tasks sv)"
  shows "all_move (sv_tasks sv) (sv_tasks (fold (\<lambda>i. upd_task i task_end) is sv)) \<and>
    sv_entries (fold (\<lambda>i. upd_task i task_end) is sv) = sv_entries sv"
  using assms
proof (induction "is" arbitrary: sv)
  case Nil
  then show ?case by (simp add: all_move_def)
next
  case (Cons i "is")
  have m: "all_move (sv_tasks sv) (sv_tasks (upd_task i task_end sv))"
    unfolding upd_task_def using Cons.prems by (auto intro!: all_move_update task_moves_end simp: list_all_length)
  have "\<forall>j \<in> set is. j < length (sv_tasks (upd_task i task_end sv))" using Cons.prems(2) by (simp add: upd_task_def)
  from Cons.IH [OF all_move_agrees [OF Cons.prems(1) m] this] m show ?case
    by (auto intro: all_move_trans simp: upd_task_def)
qed

lemma spawn_inv:
  assumes inv: "sv_inv sv"
  shows "sv_inv (sv_spawn name bo token sv)" and "i < length (sv_tasks sv) \<Longrightarrow>
    task_moves (sv_tasks sv ! i) (sv_tasks (sv_spawn name bo token sv) ! i)"
proof -
  let ?n = "length (sv_tasks sv)"
  let ?new = "\<lparr>tk_name = name, tk_state = TStarting, tk_parent = token, tk_cancel = False, tk_backoff = bo, tk_at = AtSpawn\<rparr>"
  let ?p = "Mapping.lookup (sv_entries sv) name"
  define old where "old = (case ?p of None \<Rightarrow> sv_tasks sv
      | Some j \<Rightarrow> (sv_tasks sv)[j := (sv_tasks sv ! j)\<lparr>tk_cancel := True\<rparr>])"
  have p: "j < ?n \<and> tk_name (sv_tasks sv ! j) = name" if "?p = Some j" for j
    using inv that by (simp add: sv_inv_def listed_def)
  have tks: "sv_tasks (sv_spawn name bo token sv) = old @ [?new]"
    using p by (auto simp: sv_spawn_def Let_def upd_task_def old_def nth_append list_update_append split: option.splits)
  have es: "sv_entries (sv_spawn name bo token sv) = Mapping.update name ?n (sv_entries sv)"
    by (simp add: sv_spawn_def Let_def upd_task_def split: option.splits)
  have len: "length old = ?n" by (simp add: old_def split: option.splits)
  have "all_move (sv_tasks sv) old"
    by (cases ?p) (simp_all add: old_def all_move_update task_moves_cancel, simp add: all_move_def)
  then have mv: "task_moves (sv_tasks sv ! i) (old ! i)" if "i < ?n" for i
    using that by (simp add: all_move_def)
  then show "i < ?n \<Longrightarrow> task_moves (sv_tasks sv ! i) (sv_tasks (sv_spawn name bo token sv) ! i)"
    by (simp add: tks nth_append len)
  have "list_all agrees (old @ [?new])"
    using inv mv len by (auto simp: sv_inv_def list_all_length task_moves_def agrees_def nth_append)
  moreover have "listed (Mapping.update name ?n (sv_entries sv)) (old @ [?new])"
  proof -
    have "Mapping.lookup (sv_entries sv) (tk_name (old ! i)) = Some i \<and> tk_name (old ! i) \<noteq> name"
      if i: "i < ?n" "tk_at (old ! i) \<noteq> Ended" "\<not> tk_cancel (old ! i)" for i
    proof -
      have l: "Mapping.lookup (sv_entries sv) (tk_name (old ! i)) = Some i"
        using inv i mv [OF i(1)] by (auto simp: sv_inv_def listed_def task_moves_def)
      moreover have "?p \<noteq> Some i" using i by (auto simp: old_def)
      ultimately show ?thesis by auto
    qed
    moreover have "i < ?n \<and> tk_name (old ! i) = nm" if "Mapping.lookup (sv_entries sv) nm = Some i" for nm i
      using inv that mv [of i] by (auto simp: sv_inv_def listed_def task_moves_def)
    ultimately show ?thesis
      by (auto simp: listed_def lookup_update' nth_append len less_Suc_eq split: if_splits)
  qed
  ultimately show "sv_inv (sv_spawn name bo token sv)" by (simp add: sv_inv_def tks es)
qed

lemma remove_inv:
  assumes "sv_inv sv"
  shows "sv_inv (sv_remove name sv)"
proof -
  have "tk_name (sv_tasks sv ! i) \<noteq> name"
    if "Mapping.lookup (sv_entries sv) name = Some j" "is_ended (tk_state (sv_tasks sv ! j))"
      "i < length (sv_tasks sv)" "tk_at (sv_tasks sv ! i) \<noteq> Ended" "\<not> tk_cancel (sv_tasks sv ! i)" for i j
  proof
    assume n: "tk_name (sv_tasks sv ! i) = name"
    with assms that have "j = i" by (auto simp: sv_inv_def listed_def)
    with that assms agrees_ended [of "sv_tasks sv ! i"] show False by (simp add: sv_inv_def list_all_length)
  qed
  with assms show ?thesis
    by (auto simp: sv_remove_def Let_def sv_inv_def listed_def lookup_delete' split: option.splits)
qed

lemma sv_step_inv:
  assumes "sv_step sv sv'" and inv: "sv_inv sv"
  shows "sv_inv sv' \<and> (\<forall>i < length (sv_tasks sv). task_moves (sv_tasks sv ! i) (sv_tasks sv' ! i))"
  using assms(1)
proof (cases rule: sv_step.cases)
  case (sv_spawns name bo token)
  with spawn_inv [OF inv] show ?thesis by simp
next
  case (sv_removes name)
  with remove_inv [OF inv] show ?thesis by (simp add: sv_remove_def Let_def)
next
  case (sv_aborts "is" n)
  define alive where "alive = filter (\<lambda>i. tk_at (sv_tasks sv ! i) \<noteq> Ended) is"
  have sv': "sv' = fold (\<lambda>i. upd_task i task_end) alive sv"
    using sv_aborts(1) by (simp add: shutdown_abort_def Let_def alive_def)
  have "list_all agrees (sv_tasks sv)" "\<forall>i \<in> set alive. i < length (sv_tasks sv)"
    using inv sv_aborts(2) by (auto simp: sv_inv_def alive_def)
  from fold_abort [OF this] have m: "all_move (sv_tasks sv) (sv_tasks sv')" "sv_entries sv' = sv_entries sv"
    by (simp_all add: sv')
  from sv_inv_moves [OF inv m] m(1) show ?thesis by (simp add: all_move_def)
next
  case (sv_runs i now tk)
  have m: "all_move (sv_tasks sv) (sv_tasks sv')"
    using sv_runs task_step_moves [OF sv_runs(3)] by (auto intro: all_move_update)
  with sv_inv_moves [OF inv m] sv_runs(1) show ?thesis by (simp add: all_move_def)
qed (use inv in \<open>auto simp: sv_inv_def shutdown_take_def\<close>)

lemma sv_reach_inv: "sv_reach sv \<Longrightarrow> sv_inv sv"
proof (induction rule: sv_reach.induct)
  case sv_empty
  show ?case by (simp add: supervisor_new_def sv_inv_def listed_def)
next
  case (sv_more sv sv')
  with sv_step_inv show ?case by blast
qed

section \<open>Property\<close>

text \<open>
  C40. Task states are sound. In every reachable state of the supervisor, each task's published
  state says where the task is (starting, attempting, sleeping until the published retry time,
  ended); every listed name leads to a task of that name; and of all the tasks ever spawned
  under a name, at most the listed one still runs without having been told to stop. A task
  that has ended, stopped or failed, is never restarted and keeps its final state whatever
  happens next.
\<close>

theorem supervisor_sound:
  assumes "sv_reach sv" and "i < length (sv_tasks sv)" and "sv_step sv sv'"
  shows "agrees (sv_tasks sv ! i) \<and>
    (case Mapping.lookup (sv_entries sv) name of
       None \<Rightarrow> True
     | Some j \<Rightarrow> j < length (sv_tasks sv) \<and> tk_name (sv_tasks sv ! j) = name) \<and>
    (tk_at (sv_tasks sv ! i) = Ended \<or> tk_cancel (sv_tasks sv ! i) \<or>
     sv_subscribe (tk_name (sv_tasks sv ! i)) sv = Some i) \<and>
    (tk_at (sv_tasks sv ! i) = Ended \<longrightarrow>
       tk_at (sv_tasks sv' ! i) = Ended \<and> tk_state (sv_tasks sv' ! i) = tk_state (sv_tasks sv ! i))"
proof -
  have inv: "sv_inv sv" by (rule sv_reach_inv [OF assms(1)])
  have "task_moves (sv_tasks sv ! i) (sv_tasks sv' ! i)" using sv_step_inv [OF assms(3) inv] assms(2) by blast
  moreover have "agrees (sv_tasks sv ! i)" using inv assms(2) by (simp add: sv_inv_def list_all_length)
  ultimately show ?thesis
    using inv assms(2) by (auto simp: sv_inv_def listed_def sv_subscribe_def task_moves_def split: option.splits)
qed

definition demo_sv1 :: supervisor where
  "demo_sv1 = sv_spawn ''poll'' (backoff_new 1 8 0) 0 supervisor_new"

definition demo_sv2 :: supervisor where
  "demo_sv2 = sv_spawn ''poll'' (backoff_new 1 8 0) 1 demo_sv1"

theorem supervisor_sound_witness:
  "tk_cancel (sv_tasks demo_sv2 ! 0) \<and> sv_subscribe ''poll'' demo_sv2 = Some 1 \<and> agrees (sv_tasks demo_sv2 ! 0)"
proof -
  have r: "sv_reach demo_sv2"
    unfolding demo_sv1_def demo_sv2_def by (rule sv_more [OF sv_more [OF sv_empty sv_spawns] sv_spawns])
  have "0 < length (sv_tasks demo_sv2)" "tk_cancel (sv_tasks demo_sv2 ! 0)" "sv_subscribe ''poll'' demo_sv2 = Some 1"
    by code_simp+
  with supervisor_sound [OF r _ sv_removes, of 0 "''poll''" "''poll''"] show ?thesis by blast
qed

end
