(* ===== verification/Bytes.thy ===== *)
theory Bytes
  imports Prelude "HOL-Library.Sublist"
begin

text \<open>
  Byte strings. A byte (\<open>u8\<close>) is a \<^typ>\<open>char\<close>, a slice of bytes a list of them, so that the
  sources' byte literals are string literals here. The theory has the slice and string
  operations of Rust's standard library that the parsers use (\<open>position\<close>, \<open>windows\<close>,
  \<open>strip_prefix\<close>, \<open>split\<close>, \<open>split_once\<close>, ASCII case) with the lemmas on them, and the fact
  that \<open>find\<close> gives the first occurrence of a pattern.
\<close>

type_synonym byte = char
type_synonym bytes = "char list"

named_theorems bytes_simps

section \<open>Positions and windows\<close>

fun index_where :: "('a \<Rightarrow> bool) \<Rightarrow> 'a list \<Rightarrow> nat option" where
  "index_where P [] = None"
| "index_where P (x # xs) = (if P x then Some 0 else map_option Suc (index_where P xs))"

text \<open>\<open>slice::windows\<close>, for a window size that is not zero (Rust panics there).\<close>

fun windows :: "nat \<Rightarrow> 'a list \<Rightarrow> 'a list list" where
  "windows n [] = []"
| "windows n (x # xs) = (if length (x # xs) < n then [] else take n (x # xs) # windows n xs)"

lemma index_where_SomeD:
  "index_where P xs = Some i \<Longrightarrow> i < length xs \<and> P (xs ! i) \<and> (\<forall>j < i. \<not> P (xs ! j))"
proof (induction xs arbitrary: i)
  case (Cons x xs)
  then show ?case
    by (auto split: if_splits simp: nth_Cons less_Suc_eq_0_disj split: nat.splits)
qed simp

lemma index_where_None_iff: "index_where P xs = None \<longleftrightarrow> (\<forall>x \<in> set xs. \<not> P x)"
  by (induction xs) auto

lemma index_where_Some_iff:
  "index_where P xs = Some i \<longleftrightarrow> i < length xs \<and> P (xs ! i) \<and> (\<forall>j < i. \<not> P (xs ! j))"
proof
  assume R: "i < length xs \<and> P (xs ! i) \<and> (\<forall>j < i. \<not> P (xs ! j))"
  then obtain k where k: "index_where P xs = Some k"
    using index_where_None_iff [of P xs] nth_mem [of i xs] by (cases "index_where P xs") auto
  with index_where_SomeD [OF k] R have "k = i" by (meson linorder_neqE_nat)
  with k show "index_where P xs = Some i" by simp
qed (rule index_where_SomeD)

lemma index_where_length: "index_where P xs = Some i \<Longrightarrow> i < length xs"
  using index_where_SomeD by blast

lemma index_where_takeWhile:
  "index_where P xs = (if \<exists>x \<in> set xs. P x then Some (length (takeWhile (\<lambda>x. \<not> P x) xs)) else None)"
  by (induction xs) auto

lemma index_where_append:
  "index_where P (xs @ ys) =
     (case index_where P xs of Some i \<Rightarrow> Some i | None \<Rightarrow> map_option ((+) (length xs)) (index_where P ys))"
proof (induction xs)
  case Nil
  then show ?case by (cases "index_where P ys") auto
next
  case (Cons x xs)
  then show ?case by (cases "index_where P ys") (auto split: option.splits)
qed

section \<open>The first occurrence of a pattern\<close>

definition find_bytes :: "bytes \<Rightarrow> bytes \<Rightarrow> nat option" where
  "find_bytes bytes pattern = index_where (\<lambda>window. window = pattern) (windows (length pattern) bytes)"

lemma find_bytes_Nil [simp]: "find_bytes [] p = None"
  by (simp add: find_bytes_def)

lemma windows_short: "length xs < n \<Longrightarrow> windows n xs = []"
  by (cases xs) auto

lemma find_bytes_Cons:
  "p \<noteq> [] \<Longrightarrow> find_bytes (b # bs) p = (if prefix p (b # bs) then Some 0 else map_option Suc (find_bytes bs p))"
proof -
  assume "p \<noteq> []"
  have *: "prefix p (b # bs) \<longleftrightarrow> length p \<le> length (b # bs) \<and> take (length p) (b # bs) = p"
    by (metis append_eq_conv_conj prefix_def prefix_length_le take_is_prefix)
  have "length (b # bs) < length p \<Longrightarrow> find_bytes bs p = None"
    by (simp add: find_bytes_def windows_short)
  then show ?thesis
    unfolding * by (auto simp: find_bytes_def)
qed

lemma find_bytes_SomeD:
  "p \<noteq> [] \<Longrightarrow> find_bytes bs p = Some i \<Longrightarrow>
     i + length p \<le> length bs \<and> bs = take i bs @ p @ drop (i + length p) bs \<and>
     (\<forall>j < i. \<not> prefix p (drop j bs))"
proof (induction bs arbitrary: i)
  case (Cons b bs)
  show ?case
  proof (cases "prefix p (b # bs)")
    case True
    then obtain zs where "b # bs = p @ zs" by (auto simp: prefix_def)
    moreover from this have "length p + length zs = length (b # bs)" by simp
    moreover have "i = 0" using Cons.prems True by (simp add: find_bytes_Cons)
    ultimately show ?thesis by simp
  next
    case False
    with Cons.prems obtain k where k: "find_bytes bs p = Some k" "i = Suc k"
      by (auto simp: find_bytes_Cons)
    with Cons.IH [OF Cons.prems(1) k(1)] False show ?thesis
      by (auto simp: less_Suc_eq_0_disj)
  qed
qed simp

lemma find_bytes_None_iff: "p \<noteq> [] \<Longrightarrow> find_bytes bs p = None \<longleftrightarrow> (\<forall>j. \<not> prefix p (drop j bs))"
proof (induction bs)
  case (Cons b bs)
  have "(\<forall>j. \<not> prefix p (drop j (b # bs))) \<longleftrightarrow> \<not> prefix p (b # bs) \<and> (\<forall>j. \<not> prefix p (drop j bs))"
    by (metis drop0 drop_Suc_Cons not0_implies_Suc)
  with Cons show ?case by (simp add: find_bytes_Cons)
qed simp

lemma find_bytes_eqI:
  assumes "p \<noteq> []" and "prefix p (drop i bs)" and "\<And>j. j < i \<Longrightarrow> \<not> prefix p (drop j bs)"
  shows "find_bytes bs p = Some i"
proof -
  obtain k where k: "find_bytes bs p = Some k"
    using find_bytes_None_iff [OF assms(1), of bs] assms(2) by (cases "find_bytes bs p") auto
  have "prefix p (drop k bs)"
    using find_bytes_SomeD [OF assms(1) k] by (metis append_eq_conv_conj length_take min.absorb2 add_leD1 prefixI)
  moreover have "\<not> k < i" using assms(3) calculation by blast
  moreover have "\<not> i < k" using find_bytes_SomeD [OF assms(1) k] assms(2) by blast
  ultimately show ?thesis using k by simp
qed

section \<open>Prefixes and splitting\<close>

text \<open>\<open>strip_prefix\<close> of a character, where the source falls back to the whole string, and of a
  string.\<close>

definition strip_first :: "char \<Rightarrow> string \<Rightarrow> string" where
  "strip_first c s = (case s of [] \<Rightarrow> s | x # xs \<Rightarrow> if x = c then xs else s)"

definition strip_prefix :: "'a list \<Rightarrow> 'a list \<Rightarrow> 'a list option" where
  "strip_prefix p s = (if take (length p) s = p then Some (drop (length p) s) else None)"

lemma strip_prefix_Some_iff: "strip_prefix p s = Some r \<longleftrightarrow> s = p @ r"
  by (auto simp: strip_prefix_def) (metis append_take_drop_id)

lemma strip_prefix_append [simp]: "strip_prefix p (p @ r) = Some r"
  by (simp add: strip_prefix_def)

text \<open>\<open>split_once\<close>: what is before and after the first separator.\<close>

definition split_once :: "'a \<Rightarrow> 'a list \<Rightarrow> ('a list \<times> 'a list) option" where
  "split_once c s =
     (case index_where (\<lambda>x. x = c) s of None \<Rightarrow> None | Some i \<Rightarrow> Some (take i s, drop (i + 1) s))"

lemma split_once_Some_iff: "split_once c s = Some (a, b) \<longleftrightarrow> s = a @ c # b \<and> c \<notin> set a"
proof
  assume "split_once c s = Some (a, b)"
  then obtain i where i: "index_where (\<lambda>x. x = c) s = Some i" "a = take i s" "b = drop (i + 1) s"
    by (auto simp: split_once_def split: option.splits)
  from index_where_SomeD [OF i(1)] have "i < length s" "s ! i = c" "\<forall>j < i. s ! j \<noteq> c" by auto
  then show "s = a @ c # b \<and> c \<notin> set a"
    using id_take_nth_drop [of i s] by (auto simp: i in_set_conv_nth)
next
  assume R: "s = a @ c # b \<and> c \<notin> set a"
  then have "index_where (\<lambda>x. x = c) a = None" by (auto simp: index_where_None_iff)
  with R have "index_where (\<lambda>x. x = c) s = Some (length a)" by (simp add: index_where_append)
  with R show "split_once c s = Some (a, b)" by (simp add: split_once_def)
qed

text \<open>\<open>split\<close> on one separator: always at least one piece.\<close>

fun split_on :: "'a \<Rightarrow> 'a list \<Rightarrow> 'a list list" where
  "split_on c [] = [[]]"
| "split_on c (x # xs) =
     (if x = c then [] # split_on c xs
      else (case split_on c xs of [] \<Rightarrow> [[x]] | p # ps \<Rightarrow> (x # p) # ps))"

lemma split_on_ne [simp]: "split_on c xs \<noteq> []"
  by (induction xs) (auto split: list.splits)

lemma split_on_unique: "c \<notin> set a \<Longrightarrow> split_on c (a @ c # b) = a # split_on c b"
  by (induction a) auto

lemma split_on_none: "c \<notin> set a \<Longrightarrow> split_on c a = [a]"
  by (induction a) auto

section \<open>ASCII\<close>

definition ascii_lower :: "char \<Rightarrow> char" where
  "ascii_lower c =
     (let n = (of_char c :: nat) in if 65 \<le> n \<and> n \<le> 90 then char_of (n + 32) else c)"

definition eq_ignore_ascii_case :: "string \<Rightarrow> string \<Rightarrow> bool" where
  "eq_ignore_ascii_case a b = (map ascii_lower a = map ascii_lower b)"

definition is_ascii_alphabetic :: "byte \<Rightarrow> bool" where
  "is_ascii_alphabetic c =
     (let n = (of_char c :: nat) in 65 \<le> n \<and> n \<le> 90 \<or> 97 \<le> n \<and> n \<le> 122)"

definition is_ascii_digit :: "byte \<Rightarrow> bool" where
  "is_ascii_digit c = (let n = (of_char c :: nat) in 48 \<le> n \<and> n \<le> 57)"

definition is_ascii_alphanumeric :: "byte \<Rightarrow> bool" where
  "is_ascii_alphanumeric c \<longleftrightarrow> is_ascii_alphabetic c \<or> is_ascii_digit c"

lemma eq_ignore_ascii_case_refl [simp]: "eq_ignore_ascii_case a a"
  by (simp add: eq_ignore_ascii_case_def)

lemma eq_ignore_ascii_case_length: "eq_ignore_ascii_case a b \<Longrightarrow> length a = length b"
  unfolding eq_ignore_ascii_case_def by (metis length_map)

end
