(* ===== verification/Rules.thy ===== *)
theory Rules
  imports Bytes "HOL-Library.Word"
begin

unbundle bit_operations_syntax

text \<open>
  The rules engine: \<open>crates/tgin-core/src/rules/{spec,compile,eval,mod}.rs\<close> with the facts of
  \<open>facts.rs\<close> and the identifiers of \<open>ids.rs\<close>. Rule specifications compile into a route table
  (an arena of target nodes with split cursors) that routes one update. The matching engines
  of the \<open>aho_corasick\<close> and \<open>regex_automata\<close> crates are the fields of a record \<open>engines\<close>, an
  argument of the definitions that use them.
\<close>

section \<open>Facts and identifiers\<close>

type_synonym source_id = nat
type_synonym consumer_id = nat

datatype chat_type = Private | Group | Supergroup | Channel | Other

primrec chat_index :: "chat_type \<Rightarrow> nat" where
  "chat_index Private = 0"
| "chat_index Group = 1"
| "chat_index Supergroup = 2"
| "chat_index Channel = 3"
| "chat_index Other = 4"

definition chat_bit :: "chat_type \<Rightarrow> 8 word" where
  "chat_bit t = push_bit (chat_index t) 1"

record facts =
  f_update_type :: string
  f_chat_id :: "int option"
  f_chat_type :: "chat_type option"
  f_user_id :: "int option"
  f_text :: "string option"
  f_callback_data :: "string option"
  f_command :: "(string \<times> string option) option"

text \<open>\<open>as u64\<close>: the two's-complement bits of an \<open>i64\<close>.\<close>

definition as_u64 :: "int \<Rightarrow> nat" where
  "as_u64 i = nat (i mod 2 ^ 64)"

definition ordering_key :: "facts \<Rightarrow> nat option" where
  "ordering_key f =
     map_option as_u64 (case f_chat_id f of Some c \<Rightarrow> Some c | None \<Rightarrow> f_user_id f)"

section \<open>Specifications\<close>

datatype text_match = Prefix "string list" | Regex "string list" | Equals "string list"

record predicates =
  p_update_types :: "string list"
  p_chat_ids :: "int list"
  p_chat_types :: "chat_type list"
  p_user_ids :: "int list"
  p_commands :: "string list"
  p_text :: "text_match option"
  p_callback_data :: "text_match option"

datatype split_strategy = RoundRobin | HashChat | Weighted

datatype target_spec =
    TConsumer consumer_id
  | TAll "target_spec list"
  | TSplit split_strategy "target_spec list" "nat list"

record rule_spec =
  r_predicates :: predicates
  r_targets :: "target_spec list"

datatype invalid_rule =
    NoTargets
  | EmptyGroup
  | InvalidCommand string
  | EmptyTextMatch
  | InvalidRegex string
  | Automaton
  | WeightCount nat nat
  | UnexpectedWeights
  | ZeroTotalWeight
  | WeightPeriodTooLarge nat

datatype rule_error =
    DuplicateSource source_id
  | Invalid source_id nat invalid_rule
  | RegexSet

section \<open>The matching engines\<close>

text \<open>
  \<open>ac_build ci ps\<close> builds an anchored leftmost-longest automaton (ASCII case-insensitive if
  \<open>ci\<close>), \<open>ac_find\<close> gives the end of its match; \<open>re_valid\<close> tells whether a pattern compiles,
  \<open>re_build\<close> combines patterns and \<open>re_which\<close> gives the pattern ids that match somewhere.
\<close>

record ('ac, 're) engines =
  ac_build :: "bool \<Rightarrow> string list \<Rightarrow> 'ac option"
  ac_find :: "'ac \<Rightarrow> string \<Rightarrow> nat option"
  re_valid :: "string \<Rightarrow> bool"
  re_build :: "string list \<Rightarrow> 're option"
  re_which :: "'re \<Rightarrow> string \<Rightarrow> nat set"

section \<open>Compiled rules\<close>

datatype node =
    NConsumer consumer_id
  | NAll nat nat
  | NSplit split_strategy nat nat nat "nat list"

datatype 'ac text_matcher = MPrefix 'ac | MRegex nat nat | MEquals "string set"

record 'ac compiled_rule =
  c_update_types :: "string set"
  c_chat_ids :: "int set"
  c_chat_types :: "8 word"
  c_user_ids :: "int set"
  c_commands :: "'ac option"
  c_text :: "'ac text_matcher option"
  c_callback_data :: "'ac text_matcher option"
  c_root :: nat

record 'ac source_rules =
  sr_rules :: "'ac compiled_rule list"
  sr_username :: "string option"

record ('ac, 're) route_table =
  rt_sources :: "'ac source_rules option list"
  rt_nodes :: "node list"
  rt_children :: "nat list"
  rt_text_regex :: "'re option"
  rt_callback_regex :: "'re option"
  rt_token :: nat

datatype field = Text | Callback

record builder =
  b_nodes :: "node list"
  b_children :: "nat list"
  b_text_patterns :: "string list"
  b_callback_patterns :: "string list"

section \<open>Weighted schedules\<close>

definition MAX_WEIGHT_PERIOD :: nat where
  "MAX_WEIGHT_PERIOD = 2 ^ 16"

definition index32 :: "nat \<Rightarrow> nat" where
  "index32 len = min len U32_MAX"

fun gcd_loop :: "nat \<Rightarrow> nat \<Rightarrow> nat" where
  "gcd_loop a b = (if b = 0 then a else gcd_loop b (a mod b))"

declare gcd_loop.simps [simp del]

text \<open>The inner loop: add the weights and pick the first largest current value.\<close>

fun wrr_pick :: "int list \<Rightarrow> nat \<Rightarrow> nat \<Rightarrow> int list \<Rightarrow> int list \<times> nat" where
  "wrr_pick [] i pick cur = (cur, pick)"
| "wrr_pick (w # ws) i pick cur =
     (let cur = cur[i := cur ! i + w]
      in wrr_pick ws (i + 1) (if cur ! i > cur ! pick then i else pick) cur)"

fun wrr_loop :: "nat \<Rightarrow> int list \<Rightarrow> int \<Rightarrow> int list \<Rightarrow> nat list" where
  "wrr_loop 0 reduced tot cur = []"
| "wrr_loop (Suc n) reduced tot cur =
     (case wrr_pick reduced 0 0 cur of
        (cur, pick) \<Rightarrow>
          index32 pick # wrr_loop n reduced tot (cur[pick := cur ! pick - tot]))"

definition smooth_wrr_schedule :: "nat list \<Rightarrow> invalid_rule + nat list" where
  "smooth_wrr_schedule weights =
     (let g = fold (\<lambda>w g. gcd_loop g w) weights 0
      in if g = 0 then Inl ZeroTotalWeight
         else
           (let reduced = map (\<lambda>w. int (w div g)) weights;
                tot = sum_list reduced;
                period = nat tot
            in if period > MAX_WEIGHT_PERIOD then Inl (WeightPeriodTooLarge period)
               else Inr (wrr_loop period reduced tot (replicate (length reduced) 0))))"

section \<open>Compiling\<close>

definition push_node :: "node \<Rightarrow> builder \<Rightarrow> nat \<times> builder" where
  "push_node n b = (let b = b\<lparr>b_nodes := b_nodes b @ [n]\<rparr> in (index32 (length (b_nodes b) - 1), b))"

text \<open>The end of \<open>group\<close>: the children's indices stored contiguously.\<close>

definition store_children :: "nat list \<Rightarrow> builder \<Rightarrow> (nat \<times> nat) \<times> builder" where
  "store_children ids b =
     (let start = index32 (length (b_children b));
          b = b\<lparr>b_children := b_children b @ ids\<rparr>
      in ((start, index32 (length (b_children b))), b))"

definition split_schedule :: "split_strategy \<Rightarrow> nat \<Rightarrow> nat list \<Rightarrow> invalid_rule + nat list" where
  "split_schedule strategy children weights =
     (case strategy of
        Weighted \<Rightarrow>
          if length weights \<noteq> children then Inl (WeightCount (length weights) children)
          else smooth_wrr_schedule weights
      | _ \<Rightarrow> if weights \<noteq> [] then Inl UnexpectedWeights else Inr [])"

fun target :: "target_spec \<Rightarrow> builder \<Rightarrow> invalid_rule + nat \<times> builder"
  and targets :: "target_spec list \<Rightarrow> builder \<Rightarrow> invalid_rule + nat list \<times> builder" where
  "target (TConsumer cid) b = Inr (push_node (NConsumer cid) b)"
| "target (TAll specs) b =
     (if specs = [] then Inl EmptyGroup
      else
        (case targets specs b of
           Inl e \<Rightarrow> Inl e
         | Inr (ids, b) \<Rightarrow>
             (case store_children ids b of ((s, e), b) \<Rightarrow> Inr (push_node (NAll s e) b))))"
| "target (TSplit strategy among weights) b =
     (if among = [] then Inl EmptyGroup
      else
        (case split_schedule strategy (length among) weights of
           Inl e \<Rightarrow> Inl e
         | Inr schedule \<Rightarrow>
             (case targets among b of
                Inl e \<Rightarrow> Inl e
              | Inr (ids, b) \<Rightarrow>
                  (case store_children ids b of
                     ((s, e), b) \<Rightarrow> Inr (push_node (NSplit strategy s e 0 schedule) b)))))"
| "targets [] b = Inr ([], b)"
| "targets (spec # specs) b =
     (case target spec b of
        Inl e \<Rightarrow> Inl e
      | Inr (i, b) \<Rightarrow>
          (case targets specs b of Inl e \<Rightarrow> Inl e | Inr (js, b) \<Rightarrow> Inr (i # js, b)))"

definition group :: "target_spec list \<Rightarrow> builder \<Rightarrow> invalid_rule + (nat \<times> nat) \<times> builder" where
  "group specs b =
     (if specs = [] then Inl EmptyGroup
      else (case targets specs b of Inl e \<Rightarrow> Inl e | Inr (ids, b) \<Rightarrow> Inr (store_children ids b)))"

text \<open>The loop over the command names of a rule.\<close>

fun command_names :: "string list \<Rightarrow> invalid_rule + string list" where
  "command_names [] = Inr []"
| "command_names (cmd # cmds) =
     (let name = strip_first CHR ''/'' cmd
      in if name = [] \<or> CHR ''@'' \<in> set name then Inl (InvalidCommand cmd)
         else (case command_names cmds of Inl e \<Rightarrow> Inl e | Inr names \<Rightarrow> Inr (name # names)))"

definition compile_commands :: "('ac, 're) engines \<Rightarrow> string list \<Rightarrow> invalid_rule + 'ac option" where
  "compile_commands en cmds =
     (if cmds = [] then Inr None
      else
        (case command_names cmds of
           Inl e \<Rightarrow> Inl e
         | Inr names \<Rightarrow>
             (case ac_build en True names of None \<Rightarrow> Inl Automaton | Some ac \<Rightarrow> Inr (Some ac))))"

definition text_matcher ::
  "('ac, 're) engines \<Rightarrow> field \<Rightarrow> text_match \<Rightarrow> builder \<Rightarrow> invalid_rule + 'ac text_matcher \<times> builder" where
  "text_matcher en fld m b =
     (case m of
        Prefix list \<Rightarrow>
          if list = [] then Inl EmptyTextMatch
          else (case ac_build en False list of None \<Rightarrow> Inl Automaton | Some ac \<Rightarrow> Inr (MPrefix ac, b))
      | Equals list \<Rightarrow> if list = [] then Inl EmptyTextMatch else Inr (MEquals (set list), b)
      | Regex list \<Rightarrow>
          if list = [] then Inl EmptyTextMatch
          else
            (case find (\<lambda>p. \<not> re_valid en p) list of
               Some p \<Rightarrow> Inl (InvalidRegex p)
             | None \<Rightarrow>
                 (case fld of
                    Text \<Rightarrow>
                      (let start = index32 (length (b_text_patterns b));
                           b = b\<lparr>b_text_patterns := b_text_patterns b @ list\<rparr>
                       in Inr (MRegex start (index32 (length (b_text_patterns b))), b))
                  | Callback \<Rightarrow>
                      (let start = index32 (length (b_callback_patterns b));
                           b = b\<lparr>b_callback_patterns := b_callback_patterns b @ list\<rparr>
                       in Inr (MRegex start (index32 (length (b_callback_patterns b))), b)))))"

definition opt_text_matcher ::
  "('ac, 're) engines \<Rightarrow> field \<Rightarrow> text_match option \<Rightarrow> builder \<Rightarrow>
     invalid_rule + 'ac text_matcher option \<times> builder" where
  "opt_text_matcher en fld m b =
     (case m of
        None \<Rightarrow> Inr (None, b)
      | Some tm \<Rightarrow>
          (case text_matcher en fld tm b of Inl e \<Rightarrow> Inl e | Inr (t, b) \<Rightarrow> Inr (Some t, b)))"

definition rule_root :: "target_spec list \<Rightarrow> builder \<Rightarrow> invalid_rule + nat \<times> builder" where
  "rule_root specs b =
     (case specs of
        [] \<Rightarrow> Inl NoTargets
      | [single] \<Rightarrow> target single b
      | many \<Rightarrow>
          (case group many b of
             Inl e \<Rightarrow> Inl e
           | Inr ((s, e), b) \<Rightarrow> Inr (push_node (NAll s e) b)))"

definition compile_rule ::
  "('ac, 're) engines \<Rightarrow> rule_spec \<Rightarrow> builder \<Rightarrow> invalid_rule + 'ac compiled_rule \<times> builder" where
  "compile_rule en spec b =
     (let p = r_predicates spec in
      case compile_commands en (p_commands p) of
        Inl e \<Rightarrow> Inl e
      | Inr commands \<Rightarrow>
          (case opt_text_matcher en Text (p_text p) b of
             Inl e \<Rightarrow> Inl e
           | Inr (text, b) \<Rightarrow>
               (case opt_text_matcher en Callback (p_callback_data p) b of
                  Inl e \<Rightarrow> Inl e
                | Inr (callback, b) \<Rightarrow>
                    (case rule_root (r_targets spec) b of
                       Inl e \<Rightarrow> Inl e
                     | Inr (root, b) \<Rightarrow>
                         Inr (\<lparr>c_update_types = set (p_update_types p),
                               c_chat_ids = set (p_chat_ids p),
                               c_chat_types = fold (\<lambda>t m. m OR chat_bit t) (p_chat_types p) 0,
                               c_user_ids = set (p_user_ids p),
                               c_commands = commands, c_text = text, c_callback_data = callback,
                               c_root = root\<rparr>, b)))))"

text \<open>The rules of one source, with the position of a rule that is invalid.\<close>

fun compile_rules ::
  "('ac, 're) engines \<Rightarrow> source_id \<Rightarrow> nat \<Rightarrow> rule_spec list \<Rightarrow> builder \<Rightarrow>
     rule_error + 'ac compiled_rule list \<times> builder" where
  "compile_rules en src i [] b = Inr ([], b)"
| "compile_rules en src i (spec # specs) b =
     (case compile_rule en spec b of
        Inl reason \<Rightarrow> Inl (Invalid src i reason)
      | Inr (r, b) \<Rightarrow>
          (case compile_rules en src (i + 1) specs b of
             Inl e \<Rightarrow> Inl e
           | Inr (rs, b) \<Rightarrow> Inr (r # rs, b)))"

definition resize_sources :: "nat \<Rightarrow> 'a option list \<Rightarrow> 'a option list" where
  "resize_sources idx sources =
     (if length sources \<le> idx then sources @ replicate (idx + 1 - length sources) None else sources)"

definition username_of :: "(source_id \<times> string option) list \<Rightarrow> source_id \<Rightarrow> string option" where
  "username_of names src =
     (case find (\<lambda>x. fst x = src) names of
        None \<Rightarrow> None
      | Some (_, u) \<Rightarrow> map_option (strip_first CHR ''@'') u)"

fun compile_sources ::
  "('ac, 're) engines \<Rightarrow> (source_id \<times> string option) list \<Rightarrow> (source_id \<times> rule_spec list) list \<Rightarrow>
     'ac source_rules option list \<Rightarrow> builder \<Rightarrow>
     rule_error + 'ac source_rules option list \<times> builder" where
  "compile_sources en names [] sources b = Inr (sources, b)"
| "compile_sources en names ((src, specs) # rest) sources b =
     (let sources = resize_sources src sources in
      if sources ! src \<noteq> None then Inl (DuplicateSource src)
      else
        (case compile_rules en src 0 specs b of
           Inl e \<Rightarrow> Inl e
         | Inr (compiled, b) \<Rightarrow>
             compile_sources en names rest
               (sources[src := Some \<lparr>sr_rules = compiled, sr_username = username_of names src\<rparr>]) b))"

definition combined :: "('ac, 're) engines \<Rightarrow> string list \<Rightarrow> rule_error + 're option" where
  "combined en patterns =
     (if patterns = [] then Inr None
      else (case re_build en patterns of None \<Rightarrow> Inl RegexSet | Some re \<Rightarrow> Inr (Some re)))"

text \<open>\<open>RouteTable::compile\<close>; \<open>tok\<close> is the identity of the fresh \<open>Arc\<close>.\<close>

definition compile ::
  "('ac, 're) engines \<Rightarrow> nat \<Rightarrow> (source_id \<times> rule_spec list) list \<Rightarrow>
     (source_id \<times> string option) list \<Rightarrow> rule_error + ('ac, 're) route_table" where
  "compile en tok rules names =
     (case compile_sources en names rules []
             \<lparr>b_nodes = [], b_children = [], b_text_patterns = [], b_callback_patterns = []\<rparr> of
        Inl e \<Rightarrow> Inl e
      | Inr (sources, b) \<Rightarrow>
          (case combined en (b_text_patterns b) of
             Inl e \<Rightarrow> Inl e
           | Inr text \<Rightarrow>
               (case combined en (b_callback_patterns b) of
                  Inl e \<Rightarrow> Inl e
                | Inr callback \<Rightarrow>
                    Inr \<lparr>rt_sources = sources, rt_nodes = b_nodes b, rt_children = b_children b,
                         rt_text_regex = text, rt_callback_regex = callback, rt_token = tok\<rparr>)))"

section \<open>Routing\<close>

record regex_scratch =
  rs_set :: "nat set"
  rs_done :: bool

record match_scratch =
  ms_owner :: "nat option"
  ms_text :: "regex_scratch option"
  ms_callback :: "regex_scratch option"

definition scratch_default :: match_scratch where
  "scratch_default = \<lparr>ms_owner = None, ms_text = None, ms_callback = None\<rparr>"

definition regex_scratch_new :: "'re \<Rightarrow> regex_scratch" where
  "regex_scratch_new re = \<lparr>rs_set = {}, rs_done = False\<rparr>"

definition prepare :: "('ac, 're) route_table \<Rightarrow> match_scratch \<Rightarrow> match_scratch" where
  "prepare t sc =
     (let sc = (if ms_owner sc = Some (rt_token t) then sc
                else \<lparr>ms_owner = Some (rt_token t),
                      ms_text = map_option regex_scratch_new (rt_text_regex t),
                      ms_callback = map_option regex_scratch_new (rt_callback_regex t)\<rparr>)
      in sc\<lparr>ms_text := map_option (\<lambda>s. s\<lparr>rs_done := False\<rparr>) (ms_text sc),
            ms_callback := map_option (\<lambda>s. s\<lparr>rs_done := False\<rparr>) (ms_callback sc)\<rparr>)"

definition command_matches ::
  "('ac, 're) engines \<Rightarrow> 'ac \<Rightarrow> string option \<Rightarrow> (string \<times> string option) option \<Rightarrow> bool" where
  "command_matches en ac username command =
     (case command of
        None \<Rightarrow> False
      | Some (name, mention) \<Rightarrow>
          if (case mention of
                None \<Rightarrow> False
              | Some bt \<Rightarrow> \<not> (case username of None \<Rightarrow> False | Some u \<Rightarrow> eq_ignore_ascii_case u bt))
          then False
          else (case ac_find en ac name of None \<Rightarrow> False | Some e \<Rightarrow> e = length name))"

definition text_matches ::
  "('ac, 're) engines \<Rightarrow> 'ac text_matcher \<Rightarrow> string option \<Rightarrow> 're option \<Rightarrow> regex_scratch option \<Rightarrow>
     bool \<times> regex_scratch option" where
  "text_matches en m text regex scratch =
     (case text of
        None \<Rightarrow> (False, scratch)
      | Some txt \<Rightarrow>
          (case m of
             MPrefix ac \<Rightarrow> (ac_find en ac txt \<noteq> None, scratch)
           | MEquals strs \<Rightarrow> (txt \<in> strs, scratch)
           | MRegex s e \<Rightarrow>
               (case (regex, scratch) of
                  (Some re, Some sc) \<Rightarrow>
                    (let sc = (if rs_done sc then sc
                               else \<lparr>rs_set = re_which en re txt, rs_done = True\<rparr>)
                     in (list_ex (\<lambda>i. i \<in> rs_set sc) [s..<e], Some sc))
                | _ \<Rightarrow> (False, scratch))))"

definition opt_matches ::
  "('ac, 're) engines \<Rightarrow> 'ac text_matcher option \<Rightarrow> string option \<Rightarrow> 're option \<Rightarrow> regex_scratch option \<Rightarrow>
     bool \<times> regex_scratch option" where
  "opt_matches en m text regex scratch =
     (case m of None \<Rightarrow> (True, scratch) | Some tm \<Rightarrow> text_matches en tm text regex scratch)"

text \<open>The part of \<open>matches\<close> that needs no scratch.\<close>

definition plain_matches :: "('ac, 're) engines \<Rightarrow> string option \<Rightarrow> 'ac compiled_rule \<Rightarrow> facts \<Rightarrow> bool" where
  "plain_matches en username r f =
     ((c_update_types r = {} \<or> f_update_type f \<in> c_update_types r) \<and>
      (c_chat_ids r = {} \<or> (case f_chat_id f of None \<Rightarrow> False | Some i \<Rightarrow> i \<in> c_chat_ids r)) \<and>
      (c_chat_types r = 0 \<or>
         (case f_chat_type f of None \<Rightarrow> False | Some t \<Rightarrow> c_chat_types r AND chat_bit t \<noteq> 0)) \<and>
      (c_user_ids r = {} \<or> (case f_user_id f of None \<Rightarrow> False | Some i \<Rightarrow> i \<in> c_user_ids r)) \<and>
      (case c_commands r of None \<Rightarrow> True | Some ac \<Rightarrow> command_matches en ac username (f_command f)))"

definition matches ::
  "('ac, 're) engines \<Rightarrow> ('ac, 're) route_table \<Rightarrow> string option \<Rightarrow> 'ac compiled_rule \<Rightarrow> facts \<Rightarrow>
     match_scratch \<Rightarrow> bool \<times> match_scratch" where
  "matches en t username r f sc =
     (if \<not> plain_matches en username r f then (False, sc)
      else
        (case opt_matches en (c_text r) (f_text f) (rt_text_regex t) (ms_text sc) of
           (ok, ts) \<Rightarrow>
             (let sc = sc\<lparr>ms_text := ts\<rparr> in
              if \<not> ok then (False, sc)
              else
                (case opt_matches en (c_callback_data r) (f_callback_data f) (rt_callback_regex t)
                        (ms_callback sc) of
                   (ok, cs) \<Rightarrow> (ok, sc\<lparr>ms_callback := cs\<rparr>)))))"

text \<open>\<open>position\<close>: the first rule that matches.\<close>

fun position ::
  "('ac, 're) engines \<Rightarrow> ('ac, 're) route_table \<Rightarrow> string option \<Rightarrow> facts \<Rightarrow> nat \<Rightarrow>
     'ac compiled_rule list \<Rightarrow> match_scratch \<Rightarrow> (nat \<times> 'ac compiled_rule) option \<times> match_scratch" where
  "position en t username f i [] sc = (None, sc)"
| "position en t username f i (r # rs) sc =
     (case matches en t username r f sc of
        (ok, sc) \<Rightarrow> if ok then (Some (i, r), sc) else position en t username f (i + 1) rs sc)"

definition child_slice :: "nat list \<Rightarrow> nat \<Rightarrow> nat \<Rightarrow> nat list" where
  "child_slice children s e =
     (if s \<le> e \<and> e \<le> length children then take (e - s) (drop s children) else [])"

definition add_consumer :: "consumer_id \<Rightarrow> consumer_id list \<Rightarrow> consumer_id list" where
  "add_consumer cid out = (if cid \<in> set out then out else out @ [cid])"

text \<open>\<open>fetch_add\<close> on a split's cursor: the value before, and the nodes after.\<close>

definition bump :: "nat \<Rightarrow> node list \<Rightarrow> node list" where
  "bump i nodes =
     (case nodes ! i of
        NSplit strategy s e cursor schedule \<Rightarrow>
          nodes[i := NSplit strategy s e (wrap_add64 cursor 1) schedule]
      | _ \<Rightarrow> nodes)"

fun each :: "('a \<Rightarrow> 's \<Rightarrow> 's option) \<Rightarrow> 'a list \<Rightarrow> 's \<Rightarrow> 's option" where
  "each f [] st = Some st"
| "each f (x # xs) st = (case f x st of None \<Rightarrow> None | Some st' \<Rightarrow> each f xs st')"

text \<open>
  \<open>walk\<close> recurses through the arena; \<open>fuel\<close> bounds its depth, and \<open>Rules_Props\<close> shows that
  the node's index plus one is enough.
\<close>

primrec walk ::
  "nat \<Rightarrow> nat list \<Rightarrow> nat \<Rightarrow> nat option \<Rightarrow> node list \<times> consumer_id list \<Rightarrow>
     (node list \<times> consumer_id list) option" where
  "walk 0 children i key st = None"
| "walk (Suc fuel) children i key st =
     (case st of (nodes, out) \<Rightarrow>
      if i \<ge> length nodes then Some st
      else
        (case nodes ! i of
           NConsumer cid \<Rightarrow> Some (nodes, add_consumer cid out)
         | NAll s e \<Rightarrow> each (\<lambda>c. walk fuel children c key) (child_slice children s e) st
         | NSplit strategy s e cursor schedule \<Rightarrow>
             (let cs = child_slice children s e; len = length cs in
              if len = 0 then Some st
              else
                (case (case (strategy, key) of
                         (HashChat, Some k) \<Rightarrow> (k mod len, Some (k div len), nodes)
                       | (Weighted, _) \<Rightarrow>
                           if schedule \<noteq> []
                           then (schedule ! (cursor mod length schedule), key, bump i nodes)
                           else (cursor mod len, key, bump i nodes)
                       | _ \<Rightarrow> (cursor mod len, key, bump i nodes)) of
                   (pick, child_key, nodes) \<Rightarrow>
                     if pick < len then walk fuel children (cs ! pick) child_key (nodes, out)
                     else Some (nodes, out)))))"

text \<open>\<open>RouteTable::route\<close>: the rule's index, the consumers, the table and the scratch after.\<close>

definition route ::
  "('ac, 're) engines \<Rightarrow> source_id \<Rightarrow> facts \<Rightarrow> ('ac, 're) route_table \<Rightarrow> match_scratch \<Rightarrow>
     (nat option \<times> consumer_id list \<times> ('ac, 're) route_table \<times> match_scratch) option" where
  "route en src f t sc =
     (if src \<ge> length (rt_sources t) then Some (None, [], t, sc)
      else
        (case rt_sources t ! src of
           None \<Rightarrow> Some (None, [], t, sc)
         | Some rules \<Rightarrow>
             (case position en t (sr_username rules) f 0 (sr_rules rules) (prepare t sc) of
                (None, sc) \<Rightarrow> Some (None, [], t, sc)
              | (Some (i, r), sc) \<Rightarrow>
                  (case walk (length (rt_nodes t) + 1) (rt_children t) (c_root r) (ordering_key f)
                          (rt_nodes t, []) of
                     None \<Rightarrow> None
                   | Some (nodes, out) \<Rightarrow> Some (Some i, out, t\<lparr>rt_nodes := nodes\<rparr>, sc)))))"

end
