(* ===== verification/Rules_Targets.thy ===== *)
theory Rules_Targets
  imports Rules
begin

text \<open>
  The arena of target nodes implements a tree: \<open>dtree\<close> is a target specification with the
  cursors of its splits, \<open>deliver\<close> what one update does to it, and \<open>reps\<close> relates a node of
  the arena to the tree it stands for. Compiling a target builds a represented tree, and
  walking a node does to the arena what \<open>deliver\<close> does to the tree; the walk's depth is
  bounded by the node's index.
\<close>

section \<open>Trees\<close>

datatype dtree =
    DConsumer consumer_id
  | DAll "dtree list"
  | DSplit split_strategy "dtree list" nat "nat list"

definition schedule_of :: "split_strategy \<Rightarrow> nat \<Rightarrow> nat list \<Rightarrow> nat list" where
  "schedule_of strategy n weights =
     (case split_schedule strategy n weights of Inr s \<Rightarrow> s | Inl _ \<Rightarrow> [])"

fun decorate :: "target_spec \<Rightarrow> dtree" where
  "decorate (TConsumer cid) = DConsumer cid"
| "decorate (TAll ts) = DAll (map decorate ts)"
| "decorate (TSplit strategy ts weights) =
     DSplit strategy (map decorate ts) 0 (schedule_of strategy (length ts) weights)"

text \<open>Which child of a split an update goes to, with which key, and the cursor after.\<close>

definition select_child :: "split_strategy \<Rightarrow> nat \<Rightarrow> nat \<Rightarrow> nat list \<Rightarrow> nat option \<Rightarrow> nat \<times> nat option \<times> nat" where
  "select_child strategy len cursor schedule key =
     (case (strategy, key) of
        (HashChat, Some k) \<Rightarrow> (k mod len, Some (k div len), cursor)
      | (Weighted, _) \<Rightarrow>
          (if schedule \<noteq> [] then schedule ! (cursor mod length schedule) else cursor mod len,
           key, wrap_add64 cursor 1)
      | _ \<Rightarrow> (cursor mod len, key, wrap_add64 cursor 1))"

fun deliver :: "dtree \<Rightarrow> nat option \<Rightarrow> consumer_id list \<Rightarrow> dtree \<times> consumer_id list"
  and deliver_all :: "dtree list \<Rightarrow> nat option \<Rightarrow> consumer_id list \<Rightarrow> dtree list \<times> consumer_id list"
  and deliver_nth :: "dtree list \<Rightarrow> nat \<Rightarrow> nat option \<Rightarrow> consumer_id list \<Rightarrow> dtree list \<times> consumer_id list" where
  "deliver (DConsumer cid) key out = (DConsumer cid, add_consumer cid out)"
| "deliver (DAll ts) key out =
     (case deliver_all ts key out of (ts, out) \<Rightarrow> (DAll ts, out))"
| "deliver (DSplit strategy ts cursor schedule) key out =
     (if ts = [] then (DSplit strategy ts cursor schedule, out)
      else
        (case select_child strategy (length ts) cursor schedule key of
           (pick, child_key, cursor) \<Rightarrow>
             (case deliver_nth ts pick child_key out of
                (ts, out) \<Rightarrow> (DSplit strategy ts cursor schedule, out))))"
| "deliver_all [] key out = ([], out)"
| "deliver_all (t # ts) key out =
     (case deliver t key out of
        (t, out) \<Rightarrow> (case deliver_all ts key out of (ts, out) \<Rightarrow> (t # ts, out)))"
| "deliver_nth [] n key out = ([], out)"
| "deliver_nth (t # ts) 0 key out = (case deliver t key out of (t, out) \<Rightarrow> (t # ts, out))"
| "deliver_nth (t # ts) (Suc n) key out =
     (case deliver_nth ts n key out of (ts, out) \<Rightarrow> (t # ts, out))"

section \<open>Representation\<close>

text \<open>
  \<open>reps N C lo i t\<close>: node \<open>i\<close> of the arena \<open>N\<close> with child table \<open>C\<close> stands for \<open>t\<close>, and all of
  its nodes have indices from \<open>lo\<close> to \<open>i\<close>.
\<close>

fun reps :: "node list \<Rightarrow> nat list \<Rightarrow> nat \<Rightarrow> nat \<Rightarrow> dtree \<Rightarrow> bool"
  and reps_list :: "node list \<Rightarrow> nat list \<Rightarrow> nat \<Rightarrow> nat \<Rightarrow> nat list \<Rightarrow> dtree list \<Rightarrow> bool" where
  "reps N C lo i (DConsumer cid) = (lo \<le> i \<and> i < length N \<and> N ! i = NConsumer cid)"
| "reps N C lo i (DAll ts) =
     (lo \<le> i \<and> i < length N \<and> (\<exists>s e. N ! i = NAll s e \<and> s \<le> e \<and> e \<le> length C \<and>
        reps_list N C lo i (take (e - s) (drop s C)) ts))"
| "reps N C lo i (DSplit strategy ts cursor schedule) =
     (lo \<le> i \<and> i < length N \<and> (\<exists>s e. N ! i = NSplit strategy s e cursor schedule \<and> s \<le> e \<and> e \<le> length C \<and>
        reps_list N C lo i (take (e - s) (drop s C)) ts))"
| "reps_list N C lo hi ids [] = (ids = [])"
| "reps_list N C lo hi ids (t # ts) =
     (case ids of
        [] \<Rightarrow> False
      | c # cs \<Rightarrow> c < hi \<and> reps N C lo c t \<and> reps_list N C (c + 1) hi cs ts)"

lemma reps_lo: "reps N C lo i t \<Longrightarrow> lo \<le> i \<and> i < length N"
  by (cases t) auto

lemma reps_list_length: "reps_list N C lo hi ids ts \<Longrightarrow> length ids = length ts"
  by (induction ts arbitrary: lo ids) (auto split: list.splits)

definition agree :: "nat \<Rightarrow> nat \<Rightarrow> node list \<Rightarrow> node list \<Rightarrow> bool" where
  "agree lo hi N N' \<longleftrightarrow> length N \<le> length N' \<and> (\<forall>j. lo \<le> j \<and> j \<le> hi \<and> j < length N \<longrightarrow> N' ! j = N ! j)"

lemma reps_frame:
  "reps N C lo i t \<Longrightarrow> agree lo i N N' \<Longrightarrow> reps N' (C @ X) lo i t"
  "reps_list N C lo hi ids ts \<Longrightarrow> agree lo (hi - 1) N N' \<Longrightarrow> reps_list N' (C @ X) lo hi ids ts"
proof (induction N C lo i t and N C lo hi ids ts rule: reps_reps_list.induct)
  case (2 N C lo i ts)
  have "agree lo (i - 1) N N'" using 2(3) by (auto simp: agree_def)
  with 2 show ?case by (fastforce simp: agree_def)
next
  case (3 N C lo i strategy ts cursor schedule)
  have "agree lo (i - 1) N N'" using 3(3) by (auto simp: agree_def)
  with 3 show ?case by (fastforce simp: agree_def)
next
  case (5 N C lo hi ids t ts)
  then obtain c cs where ids: "ids = c # cs" "c < hi" "reps N C lo c t" "reps_list N C (c + 1) hi cs ts"
    by (cases ids) auto
  have "agree lo c N N'" using 5(4) ids(2) by (auto simp: agree_def)
  moreover have "agree (c + 1) (hi - 1) N N'"
    using 5(4) reps_lo [OF ids(3)] by (auto simp: agree_def)
  ultimately show ?case using 5(1,2) ids by auto
qed (auto simp: agree_def)

lemmas reps_frame0 = reps_frame [where X = "[]", unfolded append_Nil2]

lemma agree_outside:
  assumes "length N' = length N" and "\<forall>j. j < lo \<or> hi < j \<longrightarrow> N' ! j = N ! j" and "b < lo \<or> hi < a"
  shows "agree a b N N'"
  using assms by (auto simp: agree_def)

section \<open>Walking\<close>

text \<open>\<open>walks f i t key out N lo\<close>: walking node \<open>i\<close> does to \<open>N\<close> what \<open>deliver\<close> does to \<open>t\<close>.\<close>

definition walks :: "(node list \<times> consumer_id list) option \<Rightarrow> node list \<Rightarrow> consumer_id list \<Rightarrow>
    (node list \<Rightarrow> bool) \<Rightarrow> nat \<Rightarrow> nat \<Rightarrow> bool" where
  "walks r N out P lo hi \<longleftrightarrow>
     (\<exists>N'. r = Some (N', out) \<and> P N' \<and> length N' = length N \<and> (\<forall>j. j < lo \<or> hi < j \<longrightarrow> N' ! j = N ! j))"

lemma deliver_nth_outside: "length ts \<le> n \<Longrightarrow> deliver_nth ts n key out = (ts, out)"
  by (induction ts n key out rule: deliver_deliver_all_deliver_nth.induct(3) [where P = "\<lambda>_ _ _. True" and Q = "\<lambda>_ _ _. True"]) auto

lemma bump_props:
  "length (bump i N) = length N" "j \<noteq> i \<Longrightarrow> bump i N ! j = N ! j"
  by (auto simp: bump_def split: node.splits)

lemma length_deliver [simp]:
  "length (fst (deliver_all ts key out)) = length ts"
  "length (fst (deliver_nth ts n key out)) = length ts"
proof -
  show "length (fst (deliver_all ts key out)) = length ts"
    by (induction ts arbitrary: out) (auto simp: split_beta)
  show "length (fst (deliver_nth ts n key out)) = length ts"
    by (induction ts arbitrary: n) (simp, case_tac n, auto simp: split_beta)
qed

lemma walk_step_split:
  assumes "i < length N" and "N ! i = NSplit strategy s e cursor schedule" and "s \<le> e" "e \<le> length C"
    and "cs = take (e - s) (drop s C)" and "cs \<noteq> []"
    and "select_child strategy (length cs) cursor schedule key = (pick, child_key, cursor')"
  shows "walk (Suc f) C i key (N, out) =
    (let N' = N[i := NSplit strategy s e cursor' schedule]
     in if pick < length cs then walk f C (cs ! pick) child_key (N', out) else Some (N', out))"
proof -
  have cs: "child_slice C s e = cs" using assms(3-5) by (simp add: child_slice_def)
  have "N[i := NSplit strategy s e cursor schedule] = N" using assms(2) by (metis list_update_id)
  then show ?thesis
    using assms(1,2,6,7) cs
    by (cases strategy; cases key) (auto simp: select_child_def bump_def Let_def)
qed

lemma walk_deliver:
  "reps N C lo i t \<Longrightarrow> i < fuel \<Longrightarrow>
     walks (walk fuel C i key (N, out)) N (snd (deliver t key out))
       (\<lambda>N'. reps N' C lo i (fst (deliver t key out))) lo i"
  "reps_list N C lo hi ids ts \<Longrightarrow> hi \<le> fuel \<Longrightarrow> 0 < hi \<Longrightarrow>
     walks (each (\<lambda>c. walk fuel C c key) ids (N, out)) N (snd (deliver_all ts key out))
       (\<lambda>N'. reps_list N' C lo hi ids (fst (deliver_all ts key out))) lo (hi - 1)"
  "reps_list N C lo hi ids ts \<Longrightarrow> hi \<le> fuel \<Longrightarrow> n < length ts \<Longrightarrow>
     walks (walk fuel C (ids ! n) key (N, out)) N (snd (deliver_nth ts n key out))
       (\<lambda>N'. reps_list N' C lo hi ids (fst (deliver_nth ts n key out))) lo (hi - 1)"
proof (induction t key out and ts key out and ts n key out arbitrary: N lo i fuel and N lo hi ids fuel and N lo hi ids fuel
    rule: deliver_deliver_all_deliver_nth.induct)
  case (1 cid key out)
  then show ?case by (cases fuel) (auto simp: walks_def)
next
  case (2 ts key out)
  obtain f where f: "fuel = Suc f" using 2(3) by (cases fuel) auto
  from 2(2) obtain s e where n: "lo \<le> i" "i < length N" "N ! i = NAll s e" "s \<le> e" "e \<le> length C"
    "reps_list N C lo i (take (e - s) (drop s C)) ts" by auto
  show ?case
  proof (cases "i = 0")
    case True
    with n(6) have "ts = []" by (cases ts) (auto split: list.splits)
    with n True f show ?thesis by (auto simp: walks_def child_slice_def)
  next
    case False
    with 2(1) [OF n(6), of f] 2(3) n f show ?thesis
      by (auto simp: walks_def child_slice_def split_beta)
  qed
next
  case (3 strategy ts cursor schedule key out)
  obtain f where f: "fuel = Suc f" using 3(3) by (cases fuel) auto
  from 3(2) obtain s e where n: "lo \<le> i" "i < length N" "N ! i = NSplit strategy s e cursor schedule"
    "s \<le> e" "e \<le> length C" "reps_list N C lo i (take (e - s) (drop s C)) ts" by auto
  let ?cs = "take (e - s) (drop s C)"
  have len: "length ?cs = length ts" by (rule reps_list_length [OF n(6)])
  show ?case
  proof (cases "ts = []")
    case True
    with n len f show ?thesis by (auto simp: walks_def child_slice_def)
  next
    case False
    obtain pick child_key cursor' where c: "select_child strategy (length ts) cursor schedule key = (pick, child_key, cursor')"
      by (metis surj_pair)
    let ?N = "N[i := NSplit strategy s e cursor' schedule]"
    have w: "walk fuel C i key (N, out) =
        (if pick < length ts then walk f C (?cs ! pick) child_key (?N, out) else Some (?N, out))"
    proof -
      have ne: "?cs \<noteq> []" using len False by (metis length_0_conv)
      have c': "select_child strategy (length ?cs) cursor schedule key = (pick, child_key, cursor')"
        unfolding len by (rule c)
      show ?thesis unfolding f walk_step_split [OF n(2-5) refl ne c'] Let_def len ..
    qed
    have i0: "0 < i" using n(6) False by (cases ts) (auto split: list.splits)
    have R: "reps_list ?N C lo i ?cs ts"
      by (rule reps_frame0(2) [OF n(6)]) (use i0 in \<open>auto simp: agree_def nth_list_update\<close>)
    show ?thesis
    proof (cases "pick < length ts")
      case True
      from 3(1) [OF False c [symmetric] refl R _ True, of f] 3(3) f w True c False n i0 show ?thesis
        by (fastforce simp: walks_def split_beta)
    next
      case pick: False
      with deliver_nth_outside [of ts pick] w c False n R show ?thesis
        by (auto simp: walks_def split_beta)
    qed
  qed
next
  case (4 key out)
  then show ?case by (simp add: walks_def)
next
  case (5 t ts key out)
  from 5(3) obtain c cs where ids: "ids = c # cs" "c < hi" "reps N C lo c t" "reps_list N C (c + 1) hi cs ts"
    by (cases ids) auto
  obtain t' out1 where d: "deliver t key out = (t', out1)" by (cases "deliver t key out")
  obtain N1 where N1: "walk fuel C c key (N, out) = Some (N1, out1)" "reps N1 C lo c t'" "length N1 = length N"
    "\<forall>j. j < lo \<or> c < j \<longrightarrow> N1 ! j = N ! j"
    using 5(1) [OF ids(3), of fuel] 5(4) ids(2) d by (auto simp: walks_def)
  have R: "reps_list N1 C (c + 1) hi cs ts"
    by (rule reps_frame0(2) [OF ids(4) agree_outside [OF N1(3,4)]]) simp
  obtain ts' out2 where d2: "deliver_all ts key out1 = (ts', out2)" by (cases "deliver_all ts key out1")
  obtain N2 where N2: "each (\<lambda>c. walk fuel C c key) cs (N1, out1) = Some (N2, out2)"
    "reps_list N2 C (c + 1) hi cs ts'" "length N2 = length N1" "\<forall>j. j < c + 1 \<or> hi - 1 < j \<longrightarrow> N2 ! j = N1 ! j"
    using 5(2) [OF d [symmetric] R 5(4,5)] d2 by (auto simp: walks_def)
  have "reps N2 C lo c t'"
    by (rule reps_frame0(1) [OF N1(2) agree_outside [OF N2(3,4)]]) simp
  with ids N1 N2 d d2 reps_lo [OF ids(3)] show ?case by (auto simp: walks_def)
next
  case (6 n key out)
  then show ?case by simp
next
  case (7 t ts key out)
  from 7(2) obtain c cs where ids: "ids = c # cs" "c < hi" "reps N C lo c t" "reps_list N C (c + 1) hi cs ts"
    by (cases ids) auto
  obtain t' out1 where d: "deliver t key out = (t', out1)" by (cases "deliver t key out")
  obtain N1 where N1: "walk fuel C c key (N, out) = Some (N1, out1)" "reps N1 C lo c t'" "length N1 = length N"
    "\<forall>j. j < lo \<or> c < j \<longrightarrow> N1 ! j = N ! j"
    using 7(1) [OF ids(3), of fuel] 7(3) ids(2) d by (auto simp: walks_def)
  have "reps_list N1 C (c + 1) hi cs ts"
    by (rule reps_frame0(2) [OF ids(4) agree_outside [OF N1(3,4)]]) simp
  with ids N1 d show ?case by (auto simp: walks_def)
next
  case (8 t ts n key out)
  from 8(2) obtain c cs where ids: "ids = c # cs" "c < hi" "reps N C lo c t" "reps_list N C (c + 1) hi cs ts"
    by (cases ids) auto
  obtain ts' out1 where d: "deliver_nth ts n key out = (ts', out1)" by (cases "deliver_nth ts n key out")
  obtain N1 where N1: "walk fuel C (cs ! n) key (N, out) = Some (N1, out1)" "reps_list N1 C (c + 1) hi cs ts'"
    "length N1 = length N" "\<forall>j. j < c + 1 \<or> hi - 1 < j \<longrightarrow> N1 ! j = N ! j"
    using 8(1) [OF ids(4) 8(3)] 8(4) d by (auto simp: walks_def)
  have "reps N1 C lo c t"
    by (rule reps_frame0(1) [OF ids(3) agree_outside [OF N1(3,4)]]) simp
  with ids N1 d reps_lo [OF ids(3)] show ?case by (auto simp: walks_def)
qed

section \<open>Compiling\<close>

text \<open>What compiling targets appends to the builder.\<close>

definition extends :: "builder \<Rightarrow> builder \<Rightarrow> bool" where
  "extends b b' \<longleftrightarrow>
     (\<exists>X Y. b_nodes b' = b_nodes b @ X \<and> b_children b' = b_children b @ Y) \<and>
     b_text_patterns b' = b_text_patterns b \<and> b_callback_patterns b' = b_callback_patterns b"

definition fits32 :: "builder \<Rightarrow> bool" where
  "fits32 b \<longleftrightarrow> length (b_nodes b) \<le> U32_MAX \<and> length (b_children b) \<le> U32_MAX"

lemma extends_refl [simp]: "extends b b"
  by (auto simp: extends_def)

lemma extends_trans: "extends b b' \<Longrightarrow> extends b' b'' \<Longrightarrow> extends b b''"
  by (auto simp: extends_def)

lemma extends_fits: "extends b b' \<Longrightarrow> fits32 b' \<Longrightarrow> fits32 b"
  by (auto simp: extends_def fits32_def)

lemma extends_reps:
  "extends b b' \<Longrightarrow> reps (b_nodes b) (b_children b) lo i t \<Longrightarrow> reps (b_nodes b') (b_children b') lo i t"
  by (auto simp: extends_def agree_def nth_append intro!: reps_frame(1))

lemma extends_reps_list:
  "extends b b' \<Longrightarrow> reps_list (b_nodes b) (b_children b) lo hi ids ts \<Longrightarrow>
     reps_list (b_nodes b') (b_children b') lo hi ids ts"
  by (auto simp: extends_def agree_def nth_append intro!: reps_frame(2))

lemma push_node_extends: "push_node n b = (i, b') \<Longrightarrow> extends b b'"
  by (auto simp: push_node_def extends_def Let_def)

lemma store_children_extends: "store_children ids b = (r, b') \<Longrightarrow> extends b b'"
  by (auto simp: store_children_def extends_def Let_def)

lemma reps_list_mono:
  "reps_list N C lo hi ids ts \<Longrightarrow> hi \<le> hi' \<Longrightarrow> reps_list N C lo hi' ids ts"
  by (induction ts arbitrary: lo ids) (auto split: list.splits)

lemma reps_mono: "reps N C lo i t \<Longrightarrow> lo' \<le> lo \<Longrightarrow> reps N C lo' i t"
  and reps_list_mono_lo: "reps_list N C lo hi ids ts \<Longrightarrow> lo' \<le> lo \<Longrightarrow> reps_list N C lo' hi ids ts"
  by (induction N C lo i t and N C lo hi ids ts arbitrary: lo' and lo' rule: reps_reps_list.induct)
    (fastforce split: list.splits)+

lemma target_extends:
  "target spec b = Inr (i, b') \<Longrightarrow> extends b b'"
  "targets specs b = Inr (ids, b') \<Longrightarrow> extends b b'"
proof (induction spec b and specs b arbitrary: i b' and ids b' rule: target_targets.induct)
  case (1 cid b)
  then show ?case by (auto intro: push_node_extends)
next
  case (2 specs b)
  then show ?case
    by (auto split: if_splits sum.splits prod.splits dest!: push_node_extends store_children_extends)
      (blast intro: extends_trans)+
next
  case (3 strategy among weights b)
  then show ?case
    by (auto split: if_splits sum.splits prod.splits dest!: push_node_extends store_children_extends)
      (blast intro: extends_trans)+
next
  case (5 spec specs b)
  then show ?case
    by (auto split: sum.splits prod.splits intro: extends_trans)
qed auto

lemma push_reps:
  assumes "push_node n b = (i, b')" and "fits32 b'"
  shows "i = length (b_nodes b)" "b_nodes b' = b_nodes b @ [n]" "b_children b' = b_children b"
  using assms by (auto simp: push_node_def Let_def index32_def fits32_def)

lemma store_reps:
  assumes "store_children ids b = ((s, e), b')" and "fits32 b'"
  shows "s \<le> e" "e \<le> length (b_children b')" "take (e - s) (drop s (b_children b')) = ids"
    "b_nodes b' = b_nodes b"
  using assms by (auto simp: store_children_def Let_def index32_def fits32_def)

text \<open>A stored group under a new node is represented.\<close>

lemma group_reps:
  assumes "targets specs b = Inr (ids, b1)" and "store_children ids b1 = ((s, e), b2)"
    and "push_node n b2 = (i, b3)" and "fits32 b3"
    and "reps_list (b_nodes b1) (b_children b1) (length (b_nodes b)) (length (b_nodes b1)) ids ts"
  shows "length (b_nodes b) \<le> i" "i = length (b_nodes b3) - 1" "i < length (b_nodes b3)" "b_nodes b3 ! i = n"
    "s \<le> e" "e \<le> length (b_children b3)"
    "reps_list (b_nodes b3) (b_children b3) (length (b_nodes b)) i (take (e - s) (drop s (b_children b3))) ts"
proof -
  have f2: "fits32 b2" using push_node_extends [OF assms(3)] assms(4) by (rule extends_fits)
  note p = push_reps [OF assms(3,4)] and st = store_reps [OF assms(2) f2]
  have ext: "extends b b1" "extends b1 b3"
    using target_extends(2) [OF assms(1)] store_children_extends [OF assms(2)] push_node_extends [OF assms(3)]
    by (auto intro: extends_trans)
  have i: "i = length (b_nodes b1)" by (simp add: p(1) st(4))
  show "length (b_nodes b) \<le> i" using ext(1) by (auto simp: i extends_def)
  show "i = length (b_nodes b3) - 1" "i < length (b_nodes b3)" "b_nodes b3 ! i = n"
    by (simp_all add: p(1,2))
  show "s \<le> e" "e \<le> length (b_children b3)" using st by (simp_all add: p(3))
  show "reps_list (b_nodes b3) (b_children b3) (length (b_nodes b)) i (take (e - s) (drop s (b_children b3))) ts"
    using extends_reps_list [OF ext(2) assms(5)] st(3) by (simp add: p(3) i)
qed

lemma target_reps:
  "target spec b = Inr (i, b') \<Longrightarrow> fits32 b' \<Longrightarrow>
     i = length (b_nodes b') - 1 \<and>
     reps (b_nodes b') (b_children b') (length (b_nodes b)) i (decorate spec)"
  "targets specs b = Inr (ids, b') \<Longrightarrow> fits32 b' \<Longrightarrow>
     reps_list (b_nodes b') (b_children b') (length (b_nodes b)) (length (b_nodes b')) ids (map decorate specs)"
proof (induction spec b and specs b arbitrary: i b' and ids b' rule: target_targets.induct)
  case (1 cid b)
  then show ?case using push_reps [of "NConsumer cid" b i b'] by simp
next
  case (2 specs b)
  then obtain ids b1 s e b2 where r: "specs \<noteq> []" "targets specs b = Inr (ids, b1)"
    "store_children ids b1 = ((s, e), b2)" "push_node (NAll s e) b2 = (i, b')"
    by (auto split: if_splits sum.splits prod.splits)
  have "fits32 b1"
    using store_children_extends [OF r(3)] push_node_extends [OF r(4)] 2(3) extends_fits by blast
  from group_reps [OF r(2-4) 2(3) 2(1) [OF r(1,2) this]] show ?case by auto
next
  case (3 strategy among weights b)
  then obtain sch ids b1 s e b2 where r: "among \<noteq> []" "split_schedule strategy (length among) weights = Inr sch"
    "targets among b = Inr (ids, b1)" "store_children ids b1 = ((s, e), b2)"
    "push_node (NSplit strategy s e 0 sch) b2 = (i, b')"
    by (auto split: if_splits sum.splits prod.splits)
  have "fits32 b1"
    using store_children_extends [OF r(4)] push_node_extends [OF r(5)] 3(3) extends_fits by blast
  from group_reps [OF r(3-5) 3(3) 3(1) [OF r(1,2,3) this]] r(2) show ?case
    by (auto simp: schedule_of_def)
next
  case (4 b)
  then show ?case by simp
next
  case (5 spec specs b)
  then obtain i b1 js where r: "target spec b = Inr (i, b1)" "targets specs b1 = Inr (js, b')" "ids = i # js"
    by (auto split: sum.splits prod.splits)
  have e1: "extends b1 b'" by (rule target_extends(2) [OF r(2)])
  have f1: "fits32 b1" by (rule extends_fits [OF e1 5(4)])
  from 5(1) [OF r(1) f1] have i: "i = length (b_nodes b1) - 1"
    "reps (b_nodes b1) (b_children b1) (length (b_nodes b)) i (decorate spec)" by auto
  have "Suc i = length (b_nodes b1)" using i(1) reps_lo [OF i(2)] by linarith
  moreover have "reps (b_nodes b') (b_children b') (length (b_nodes b)) i (decorate spec)"
    by (rule extends_reps [OF e1 i(2)])
  moreover have "length (b_nodes b1) \<le> length (b_nodes b')" using e1 by (auto simp: extends_def)
  ultimately show ?case using 5(2) [OF r(1) refl r(2) 5(4)] r(3) by auto
qed

end
