(* ===== verification/Rules_Match.thy ===== *)
theory Rules_Match
  imports Rules_Targets
begin

text \<open>
  Matching: what a rule's predicates mean (\<open>rule_holds\<close>), what the code relies on in the
  matching engines (\<open>engines_ok\<close>), and that a compiled rule matches an update exactly when
  its predicates hold, whatever the scratch already holds for that update.
\<close>

section \<open>What the engines promise\<close>

definition anchored :: "bool \<Rightarrow> string \<Rightarrow> string \<Rightarrow> bool" where
  "anchored ci p s =
     (length p \<le> length s \<and>
      (if ci then eq_ignore_ascii_case p (take (length p) s) else take (length p) s = p))"

definition longest :: "string list \<Rightarrow> nat option" where
  "longest ps = (if ps = [] then None else Some (Max (length ` set ps)))"

definition engines_ok :: "('ac, 're) engines \<Rightarrow> (string \<Rightarrow> string \<Rightarrow> bool) \<Rightarrow> bool" where
  "engines_ok en is_match \<longleftrightarrow>
     (\<forall>ci ps ac s. ac_build en ci ps = Some ac \<longrightarrow> ac_find en ac s = longest (filter (\<lambda>p. anchored ci p s) ps)) \<and>
     (\<forall>ps re s. re_build en ps = Some re \<longrightarrow> re_which en re s = {i. i < length ps \<and> is_match (ps ! i) s})"

section \<open>What the predicates mean\<close>

definition text_holds :: "(string \<Rightarrow> string \<Rightarrow> bool) \<Rightarrow> text_match option \<Rightarrow> string option \<Rightarrow> bool" where
  "text_holds is_match tm text =
     (case tm of
        None \<Rightarrow> True
      | Some m \<Rightarrow>
          (case text of
             None \<Rightarrow> False
           | Some t \<Rightarrow>
               (case m of
                  Prefix ps \<Rightarrow> list_ex (\<lambda>p. anchored False p t) ps
                | Equals ps \<Rightarrow> t \<in> set ps
                | Regex ps \<Rightarrow> list_ex (\<lambda>p. is_match p t) ps)))"

definition command_holds :: "string option \<Rightarrow> string list \<Rightarrow> (string \<times> string option) option \<Rightarrow> bool" where
  "command_holds username cmds command =
     (cmds = [] \<or>
      (case command of
         None \<Rightarrow> False
       | Some (name, mention) \<Rightarrow>
           (case mention of
              None \<Rightarrow> True
            | Some bt \<Rightarrow> (case username of None \<Rightarrow> False | Some u \<Rightarrow> eq_ignore_ascii_case u bt)) \<and>
           list_ex (\<lambda>c. eq_ignore_ascii_case (strip_first CHR ''/'' c) name) cmds))"

definition one_of :: "'a list \<Rightarrow> 'a option \<Rightarrow> bool" where
  "one_of xs x = (xs = [] \<or> (case x of None \<Rightarrow> False | Some y \<Rightarrow> y \<in> set xs))"

definition rule_holds :: "(string \<Rightarrow> string \<Rightarrow> bool) \<Rightarrow> string option \<Rightarrow> predicates \<Rightarrow> facts \<Rightarrow> bool" where
  "rule_holds is_match username p f =
     (one_of (p_update_types p) (Some (f_update_type f)) \<and> one_of (p_chat_ids p) (f_chat_id f) \<and>
      one_of (p_chat_types p) (f_chat_type f) \<and> one_of (p_user_ids p) (f_user_id f) \<and>
      command_holds username (p_commands p) (f_command f) \<and>
      text_holds is_match (p_text p) (f_text f) \<and>
      text_holds is_match (p_callback_data p) (f_callback_data f))"

section \<open>Compiled predicates\<close>

definition matcher_ok :: "('ac, 're) engines \<Rightarrow> string list \<Rightarrow> text_match \<Rightarrow> 'ac text_matcher \<Rightarrow> bool" where
  "matcher_ok en P tm m =
     (case (tm, m) of
        (Prefix l, MPrefix ac) \<Rightarrow> ac_build en False l = Some ac
      | (Equals l, MEquals S) \<Rightarrow> S = set l
      | (Regex l, MRegex s e) \<Rightarrow> s \<le> e \<and> e \<le> length P \<and> take (e - s) (drop s P) = l
      | _ \<Rightarrow> False)"

definition rule_ok :: "('ac, 're) engines \<Rightarrow> string list \<Rightarrow> string list \<Rightarrow> predicates \<Rightarrow> 'ac compiled_rule \<Rightarrow> bool" where
  "rule_ok en PT PC p r \<longleftrightarrow>
     c_update_types r = set (p_update_types p) \<and> c_chat_ids r = set (p_chat_ids p) \<and>
     c_chat_types r = fold (\<lambda>t m. m OR chat_bit t) (p_chat_types p) 0 \<and>
     c_user_ids r = set (p_user_ids p) \<and> compile_commands en (p_commands p) = Inr (c_commands r) \<and>
     rel_option (matcher_ok en PT) (p_text p) (c_text r) \<and>
     rel_option (matcher_ok en PC) (p_callback_data p) (c_callback_data r)"

lemma matcher_ok_append: "matcher_ok en P tm m \<Longrightarrow> matcher_ok en (P @ X) tm m"
  by (auto simp: matcher_ok_def split: text_match.splits text_matcher.splits)

lemma rule_ok_append: "rule_ok en PT PC p r \<Longrightarrow> rule_ok en (PT @ X) (PC @ Y) p r"
  unfolding rule_ok_def by (auto intro: option.rel_mono_strong matcher_ok_append)

lemma chat_bit_and: "chat_bit t AND chat_bit u \<noteq> 0 \<longleftrightarrow> t = u"
  by (cases t; cases u) (simp_all add: chat_bit_def)

lemma chat_types_mask:
  "fold (\<lambda>t m. m OR chat_bit t) ts m AND chat_bit u \<noteq> 0 \<longleftrightarrow> u \<in> set ts \<or> m AND chat_bit u \<noteq> 0"
proof (induction ts arbitrary: m)
  case (Cons t ts)
  have "(m OR chat_bit t) AND chat_bit u \<noteq> 0 \<longleftrightarrow> m AND chat_bit u \<noteq> 0 \<or> t = u"
    using chat_bit_and [of t u] by (metis bit.conj_disj_distrib2 or_eq_0_iff)
  with Cons show ?case by auto
qed simp

lemma chat_types_zero: "fold (\<lambda>t m. m OR chat_bit t) ts 0 = 0 \<longleftrightarrow> ts = []"
proof
  assume z: "fold (\<lambda>t m. m OR chat_bit t) ts 0 = 0"
  show "ts = []"
  proof (cases ts)
    case (Cons t ts')
    with chat_types_mask [of ts 0 t] z show ?thesis by simp
  qed
qed simp

lemma command_names_map:
  "command_names cmds = Inr names \<Longrightarrow> names = map (strip_first CHR ''/'') cmds"
  by (induction cmds arbitrary: names) (auto simp: Let_def split: if_splits sum.splits)

lemma longest_all:
  assumes "\<And>p. p \<in> set ps \<Longrightarrow> length p \<le> n"
  shows "longest ps = Some n \<longleftrightarrow> (\<exists>p \<in> set ps. length p = n)"
proof
  assume "longest ps = Some n"
  then have "ps \<noteq> []" "Max (length ` set ps) = n" by (auto simp: longest_def split: if_splits)
  then show "\<exists>p \<in> set ps. length p = n" using Max_in [of "length ` set ps"] by auto
next
  assume "\<exists>p \<in> set ps. length p = n"
  then show "longest ps = Some n" using assms by (auto simp: longest_def intro!: Max_eqI)
qed

lemma anchored_full: "anchored True p s \<and> length p = length s \<longleftrightarrow> eq_ignore_ascii_case p s"
proof (cases "length p = length s")
  case False
  then show ?thesis by (auto simp: eq_ignore_ascii_case_def dest: map_eq_imp_length_eq)
qed (simp add: anchored_def)

lemma command_matches_holds:
  assumes en: "engines_ok en is_match" and "compile_commands en cmds = Inr c"
  shows "(case c of None \<Rightarrow> True | Some ac \<Rightarrow> command_matches en ac username command) \<longleftrightarrow>
    command_holds username cmds command"
proof (cases "cmds = []")
  case True
  with assms(2) show ?thesis by (simp add: compile_commands_def command_holds_def)
next
  case False
  with assms(2) obtain ns ac where n: "command_names cmds = Inr ns" and c: "c = Some ac"
    and a: "ac_build en True ns = Some ac"
    unfolding compile_commands_def
    by (cases "command_names cmds"; cases "ac_build en True (projr (command_names cmds))") auto
  have b: "ac_build en True (map (strip_first CHR ''/'') cmds) = Some ac"
    using a command_names_map [OF n] by simp
  have f: "(case ac_find en ac name of None \<Rightarrow> False | Some e \<Rightarrow> e = length name) \<longleftrightarrow>
      list_ex (\<lambda>c. eq_ignore_ascii_case (strip_first CHR ''/'' c) name) cmds" for name
  proof -
    let ?ps = "filter (\<lambda>p. anchored True p name) (map (strip_first CHR ''/'') cmds)"
    have e: "ac_find en ac name = longest ?ps" using en b by (simp add: engines_ok_def)
    have "(case ac_find en ac name of None \<Rightarrow> False | Some e \<Rightarrow> e = length name) \<longleftrightarrow> longest ?ps = Some (length name)"
      unfolding e by (cases "longest ?ps") auto
    also have "\<dots> \<longleftrightarrow> (\<exists>p \<in> set ?ps. length p = length name)"
      by (rule longest_all) (auto simp: anchored_def)
    also have "\<dots> \<longleftrightarrow> list_ex (\<lambda>c. eq_ignore_ascii_case (strip_first CHR ''/'' c) name) cmds"
      using anchored_full by (fastforce simp: list_ex_iff)
    finally show ?thesis .
  qed
  show ?thesis
    using False c by (auto simp: command_matches_def command_holds_def f split: option.splits)
qed

lemma set_empty_one_of: "one_of xs x \<longleftrightarrow> set xs = {} \<or> (case x of None \<Rightarrow> False | Some y \<Rightarrow> y \<in> set xs)"
  by (simp add: one_of_def)

lemma plain_matches_holds:
  assumes en: "engines_ok en is_match" and ok: "rule_ok en PT PC p r"
  shows "plain_matches en username r f \<longleftrightarrow>
    one_of (p_update_types p) (Some (f_update_type f)) \<and> one_of (p_chat_ids p) (f_chat_id f) \<and>
    one_of (p_chat_types p) (f_chat_type f) \<and> one_of (p_user_ids p) (f_user_id f) \<and>
    command_holds username (p_commands p) (f_command f)"
proof -
  have "(c_chat_types r = 0 \<or>
      (case f_chat_type f of None \<Rightarrow> False | Some t \<Rightarrow> c_chat_types r AND chat_bit t \<noteq> 0)) \<longleftrightarrow>
      one_of (p_chat_types p) (f_chat_type f)"
    using ok chat_types_mask [of "p_chat_types p" 0] chat_types_zero [of "p_chat_types p"]
    by (auto simp: rule_ok_def one_of_def split: option.splits)
  moreover have "compile_commands en (p_commands p) = Inr (c_commands r)"
    and eqs: "c_update_types r = set (p_update_types p)" "c_chat_ids r = set (p_chat_ids p)"
      "c_user_ids r = set (p_user_ids p)"
    using ok by (simp_all add: rule_ok_def)
  ultimately show ?thesis
    using command_matches_holds [OF en, of "p_commands p" "c_commands r" username "f_command f"]
    unfolding plain_matches_def set_empty_one_of [of "p_update_types p"] set_empty_one_of [of "p_chat_ids p"]
      set_empty_one_of [of "p_user_ids p"] eqs
    by simp
qed

section \<open>Matching one rule\<close>

text \<open>What the scratch of a field holds while one update is matched against a table.\<close>

definition scratch_ok :: "('ac, 're) engines \<Rightarrow> 're option \<Rightarrow> string option \<Rightarrow> regex_scratch option \<Rightarrow> bool" where
  "scratch_ok en re text sc \<longleftrightarrow>
     (re = None \<longleftrightarrow> sc = None) \<and>
     (\<forall>r s t. re = Some r \<and> sc = Some s \<and> text = Some t \<and> rs_done s \<longrightarrow> rs_set s = re_which en r t)"

lemma opt_matches_holds:
  assumes en: "engines_ok en is_match" and P: "combined en P = Inr re"
    and ok: "rel_option (matcher_ok en P) tm m" and sc: "scratch_ok en re text sc"
  shows "fst (opt_matches en m text re sc) = text_holds is_match tm text"
    and "scratch_ok en re text (snd (opt_matches en m text re sc))"
proof -
  have re: "re = (if P = [] then None else re_build en P)"
    using P by (auto simp: combined_def split: if_splits option.splits)
  have which: "re_which en r t = {i. i < length P \<and> is_match (P ! i) t}" if "re = Some r" for r t
    using en that re by (auto simp: engines_ok_def split: if_splits)
  have none: "re = None \<longleftrightarrow> P = []" using P by (cases "re_build en P"; cases "P = []") (auto simp: combined_def simp del: not_Some_eq not_None_eq)
  have pre: "ac_find en ac t \<noteq> None \<longleftrightarrow> list_ex (\<lambda>p. anchored False p t) l" if "ac_build en False l = Some ac" for ac l t
    using en that by (auto simp: engines_ok_def longest_def list_ex_iff filter_empty_conv)
  have rng: "list_ex (\<lambda>i. i < length P \<and> is_match (P ! i) t) [s..<e] \<longleftrightarrow> list_ex (\<lambda>p. is_match p t) (take (e - s) (drop s P))"
    if "s \<le> e" "e \<le> length P" for s e t
  proof -
    have "take (e - s) (drop s P) = map ((!) P) [s..<e]"
      using that by (intro nth_equalityI) auto
    then show ?thesis using that by (auto simp: list_ex_iff)
  qed
  have "fst (opt_matches en m text re sc) = text_holds is_match tm text \<and>
    scratch_ok en re text (snd (opt_matches en m text re sc))"
  proof (cases m)
    case None
    with ok sc show ?thesis by (cases tm) (auto simp: opt_matches_def text_holds_def)
  next
    case (Some mm)
    with ok obtain tt where tm: "tm = Some tt" "matcher_ok en P tt mm" by (cases tm) auto
    show ?thesis
    proof (cases "text")
      case None
      with Some tm sc show ?thesis by (simp add: opt_matches_def text_holds_def text_matches_def)
    next
      case (Some t)
      note tx = this
      show ?thesis
      proof (cases mm)
        case (MPrefix ac)
        with tm obtain l where "tt = Prefix l" "ac_build en False l = Some ac"
          by (cases tt) (auto simp: matcher_ok_def)
        with MPrefix \<open>m = Some mm\<close> tm tx sc pre show ?thesis
          by (simp add: opt_matches_def text_holds_def text_matches_def)
      next
        case (MEquals S)
        with tm obtain l where "tt = Equals l" "S = set l" by (cases tt) (auto simp: matcher_ok_def)
        with MEquals \<open>m = Some mm\<close> tm tx sc show ?thesis
          by (simp add: opt_matches_def text_holds_def text_matches_def)
      next
        case (MRegex s e)
        with tm obtain l where l: "tt = Regex l" "s \<le> e" "e \<le> length P" "take (e - s) (drop s P) = l"
          by (cases tt) (auto simp: matcher_ok_def)
        show ?thesis
        proof (cases re)
          case None
          with none l(4) have "l = []" by simp
          with None MRegex \<open>m = Some mm\<close> tm tx sc l(1) show ?thesis
            by (simp add: opt_matches_def text_holds_def text_matches_def)
        next
          case (Some r)
          with sc obtain x where x: "sc = Some x" "rs_done x \<longrightarrow> rs_set x = re_which en r t"
            using tx by (auto simp: scratch_ok_def)
          have "list_ex (\<lambda>i. i \<in> re_which en r t) [s..<e] = list_ex (\<lambda>p. is_match p t) l"
            using rng [OF l(2,3), of t] l(4) by (simp add: which [OF Some])
          with Some x MRegex \<open>m = Some mm\<close> tm tx l(1) sc show ?thesis
            by (auto simp: opt_matches_def text_holds_def text_matches_def Let_def scratch_ok_def)
        qed
      qed
    qed
  qed
  then show "fst (opt_matches en m text re sc) = text_holds is_match tm text"
    "scratch_ok en re text (snd (opt_matches en m text re sc))" by auto
qed

definition scratches_ok :: "('ac, 're) engines \<Rightarrow> ('ac, 're) route_table \<Rightarrow> facts \<Rightarrow> match_scratch \<Rightarrow> bool" where
  "scratches_ok en t f sc \<longleftrightarrow>
     scratch_ok en (rt_text_regex t) (f_text f) (ms_text sc) \<and>
     scratch_ok en (rt_callback_regex t) (f_callback_data f) (ms_callback sc) \<and>
     ms_owner sc = Some (rt_token t)"

lemma matches_holds:
  assumes en: "engines_ok en is_match" and ok: "rule_ok en PT PC p r"
    and re: "combined en PT = Inr (rt_text_regex t)" "combined en PC = Inr (rt_callback_regex t)"
    and sc: "scratches_ok en t f sc"
  shows "fst (matches en t username r f sc) = rule_holds is_match username p f"
    and "scratches_ok en t f (snd (matches en t username r f sc))"
proof -
  have rel: "rel_option (matcher_ok en PT) (p_text p) (c_text r)"
    "rel_option (matcher_ok en PC) (p_callback_data p) (c_callback_data r)"
    using ok by (auto simp: rule_ok_def)
  note T = opt_matches_holds [OF en re(1) rel(1), of "f_text f" "ms_text sc"]
  note C = opt_matches_holds [OF en re(2) rel(2), of "f_callback_data f" "ms_callback sc"]
  note pl = plain_matches_holds [OF en ok, of username f]
  show "fst (matches en t username r f sc) = rule_holds is_match username p f"
    "scratches_ok en t f (snd (matches en t username r f sc))"
    using T C sc pl by (auto simp: matches_def rule_holds_def scratches_ok_def Let_def split_beta)
qed

end
