(* ===== verification/Rules_Schedule.thy ===== *)
theory Rules_Schedule
  imports Rules
begin

text \<open>
  The weighted schedule of \<open>rules/compile.rs\<close>: the loop \<open>gcd\<close> is the greatest common divisor,
  and one period of the smooth weighted round robin picks every child exactly in proportion
  to its weight.
\<close>

lemma gcd_loop_gcd: "gcd_loop a b = gcd a b"
proof (induction a b rule: gcd_loop.induct)
  case (1 a b)
  show ?case
  proof (cases "b = 0")
    case False
    with 1 show ?thesis
      by (subst gcd_loop.simps) (simp add: gcd.commute [of a b] gcd_red_nat [symmetric])
  qed (simp add: gcd_loop.simps)
qed

lemma fold_gcd_loop: "fold (\<lambda>w g. gcd_loop g w) ws g = gcd g (Gcd (set ws))"
  by (induction ws arbitrary: g) (simp_all add: gcd_loop_gcd gcd.assoc)

section \<open>One pick\<close>

lemma wrr_pick_spec:
  assumes "length cur = i + length ws" and "pick \<le> i" and "pick < length cur"
    and "\<forall>j < i. cur ! j \<le> cur ! pick" and "wrr_pick ws i pick cur = (cur', p)" and "i = 0 \<or> pick < i"
  shows "length cur' = length cur \<and> (\<forall>j < i. cur' ! j = cur ! j) \<and>
    (\<forall>j < length ws. cur' ! (i + j) = cur ! (i + j) + ws ! j) \<and> p < length cur \<and>
    (\<forall>j < length cur. cur' ! j \<le> cur' ! p)"
  using assms
proof (induction ws arbitrary: i pick cur)
  case Nil
  then show ?case by auto
next
  case (Cons w ws)
  let ?cur = "cur[i := cur ! i + w]"
  let ?pick = "if ?cur ! i > ?cur ! pick then i else pick"
  have len: "length ?cur = Suc i + length ws" using Cons.prems(1) by simp
  have le: "\<forall>j < Suc i. ?cur ! j \<le> ?cur ! ?pick"
    using Cons.prems(1,2,3,4,6) by (auto simp: nth_list_update less_Suc_eq)
  have r: "wrr_pick ws (Suc i) ?pick ?cur = (cur', p)" using Cons.prems(5) by (simp add: Let_def)
  have "?pick \<le> Suc i" "?pick < length ?cur" "Suc i = 0 \<or> ?pick < Suc i"
    using Cons.prems(1,2,3) by auto
  note IH = Cons.IH [OF len this(1,2) le r this(3)]
  have "cur' ! (i + j) = cur ! (i + j) + (w # ws) ! j" if "j < length (w # ws)" for j
  proof (cases j)
    case 0
    then show ?thesis using IH Cons.prems(1) by simp
  next
    case (Suc k)
    then have "cur' ! (Suc i + k) = ?cur ! (Suc i + k) + ws ! k" using IH that by simp
    then show ?thesis using Suc by simp
  qed
  with IH show ?case by auto
qed

lemma sum_nth: "sum_list xs = (\<Sum>j < length xs. xs ! j)"
  by (simp add: sum_list_sum_nth lessThan_atLeast0)

text \<open>
  The state after \<open>k\<close> picks, \<open>c j\<close> of them of child \<open>j\<close>: every current value is
  \<open>k * w - T * c\<close> and above \<open>- T\<close>.
\<close>

definition wrr_state :: "int list \<Rightarrow> int \<Rightarrow> nat \<Rightarrow> (nat \<Rightarrow> nat) \<Rightarrow> int list \<Rightarrow> bool" where
  "wrr_state ws T k c cur \<longleftrightarrow>
     length cur = length ws \<and> (\<forall>j < length ws. cur ! j = int k * ws ! j - T * int (c j)) \<and>
     (\<forall>j < length ws. - T < cur ! j) \<and> (\<Sum>j < length ws. c j) = k"

lemma wrr_state_pick:
  assumes st: "wrr_state ws T k c cur" and T: "T = sum_list ws" "0 < T"
    and nn: "\<forall>w \<in> set ws. 0 \<le> w" and r: "wrr_pick ws 0 0 cur = (cur', p)"
  shows "p < length ws \<and> wrr_state ws T (k + 1) (c(p := c p + 1)) (cur'[p := cur' ! p - T])"
proof -
  have ne: "ws \<noteq> []" using T by auto
  have len: "length cur = length ws" and c: "\<And>j. j < length ws \<Longrightarrow> cur ! j = int k * ws ! j - T * int (c j)"
    and gt: "\<And>j. j < length ws \<Longrightarrow> - T < cur ! j" and sc: "(\<Sum>j < length ws. c j) = k"
    using st by (auto simp: wrr_state_def)
  have P: "length cur' = length cur" "\<And>j. j < length ws \<Longrightarrow> cur' ! j = cur ! j + ws ! j"
    "p < length cur" "\<And>j. j < length cur \<Longrightarrow> cur' ! j \<le> cur' ! p"
    using wrr_pick_spec [OF _ _ _ _ r] ne len by auto
  have "(\<Sum>j < length ws. cur' ! j) = (\<Sum>j < length ws. int k * ws ! j - T * int (c j) + ws ! j)"
    using P(2) c by (intro sum.cong) auto
  also have "\<dots> = int k * sum_list ws - T * int (\<Sum>j < length ws. c j) + sum_list ws"
    by (simp add: sum.distrib sum_subtractf sum_distrib_left sum_nth)
  also have "\<dots> = T" using T(1) sc by simp
  finally have sum: "(\<Sum>j < length ws. cur' ! j) = T" .
  have pos: "0 < cur' ! p"
  proof (rule ccontr)
    assume "\<not> 0 < cur' ! p"
    then have "\<And>j. j < length ws \<Longrightarrow> cur' ! j \<le> 0" using P(4) len by fastforce
    then have "(\<Sum>j < length ws. cur' ! j) \<le> 0" by (intro sum_nonpos) auto
    with sum T(2) show False by simp
  qed
  have nth: "cur'[p := cur' ! p - T] ! j = int (k + 1) * ws ! j - T * int ((c(p := c p + 1)) j)"
    if "j < length ws" for j
    using that P(1,2,3) c len by (auto simp: nth_list_update algebra_simps)
  have "- T < cur'[p := cur' ! p - T] ! j" if "j < length ws" for j
  proof (cases "j = p")
    case True
    then show ?thesis using pos P(1,3) by simp
  next
    case False
    have "0 \<le> ws ! j" using nn that by simp
    then show ?thesis using False gt [OF that] P(2) [OF that] by simp
  qed
  moreover have "(\<Sum>j < length ws. (c(p := c p + 1)) j) = k + 1"
    using sc P(3) len by (simp add: sum.remove [of _ p] )
  ultimately show ?thesis
    using nth P(1,3) len unfolding wrr_state_def by auto
qed

lemma wrr_loop_state:
  assumes "wrr_state ws T k c cur" and T: "T = sum_list ws" "0 < T" and nn: "\<forall>w \<in> set ws. 0 \<le> w"
    and small: "length ws \<le> U32_MAX"
  shows "length (wrr_loop n ws T cur) = n \<and> set (wrr_loop n ws T cur) \<subseteq> {..<length ws} \<and>
    (\<exists>cur'. wrr_state ws T (k + n) (\<lambda>j. c j + count_list (wrr_loop n ws T cur) j) cur')"
  using assms(1)
proof (induction n arbitrary: k c cur)
  case 0
  then show ?case by auto
next
  case (Suc n)
  obtain cur' p where r: "wrr_pick ws 0 0 cur = (cur', p)" by (cases "wrr_pick ws 0 0 cur")
  note st = wrr_state_pick [OF Suc.prems T nn r]
  then have p: "index32 p = p" using small by (simp add: index32_def)
  let ?cur = "cur'[p := cur' ! p - T]"
  have l: "wrr_loop (Suc n) ws T cur = p # wrr_loop n ws T ?cur" by (simp add: r p)
  note IH = Suc.IH [OF conjunct2 [OF st]]
  have "(\<lambda>j. (c(p := c p + 1)) j + count_list (wrr_loop n ws T ?cur) j) =
      (\<lambda>j. c j + count_list (p # wrr_loop n ws T ?cur) j)" by auto
  with IH st show ?case unfolding l by auto
qed

text \<open>At the end of a period every child was picked as often as its reduced weight says.\<close>

lemma wrr_state_end:
  assumes st: "wrr_state ws T k c cur" and T: "T = sum_list ws" "0 < T" "int k = T"
  shows "\<forall>j < length ws. int (c j) = ws ! j"
proof -
  have le: "int (c j) \<le> ws ! j" if "j < length ws" for j
  proof -
    from st that have "- T < T * ws ! j - T * int (c j)" using T(3) by (auto simp: wrr_state_def)
    then have "0 < T * (ws ! j - int (c j) + 1)" by (simp add: algebra_simps)
    then have "0 < ws ! j - int (c j) + 1" using T(2) by (simp add: zero_less_mult_iff)
    then show ?thesis by simp
  qed
  have "(\<Sum>j < length ws. ws ! j - int (c j)) = sum_list ws - int (\<Sum>j < length ws. c j)"
    by (simp add: sum_subtractf sum_nth)
  also have "\<dots> = 0" using st T by (simp add: wrr_state_def)
  finally have "\<forall>j \<in> {..<length ws}. ws ! j - int (c j) = 0"
    using le by (intro iffD1 [OF sum_nonneg_eq_0_iff]) auto
  then show ?thesis by simp
qed

text \<open>
  C21. A weighted split is exactly fair: one period of its schedule has \<open>sum(weights) / gcd\<close>
  picks, each child is picked exactly \<open>weight / gcd\<close> times in it, and only children are picked;
  a schedule is refused only for weights that are all zero or for a period above the limit.
\<close>

theorem wrr_fair:
  assumes "length weights \<le> U32_MAX"
  shows "case smooth_wrr_schedule weights of
      Inr s \<Rightarrow> length s = sum_list weights div Gcd (set weights) \<and> set s \<subseteq> {..<length weights} \<and>
        (\<forall>i < length weights. count_list s i = weights ! i div Gcd (set weights))
    | Inl e \<Rightarrow> e = ZeroTotalWeight \<and> sum_list weights = 0 \<or>
        (\<exists>p. e = WeightPeriodTooLarge p \<and> p = sum_list weights div Gcd (set weights) \<and>
           MAX_WEIGHT_PERIOD < p)"
proof (cases "Gcd (set weights) = 0")
  case True
  then have "sum_list weights = 0" by (auto simp: Gcd_0_iff sum_list_eq_0_iff)
  with True show ?thesis by (simp add: smooth_wrr_schedule_def fold_gcd_loop)
next
  case False
  let ?g = "Gcd (set weights)" and ?r = "map (\<lambda>w. int (w div Gcd (set weights))) weights"
  have s: "?g * sum_list (map (\<lambda>w. w div ?g) ws) = sum_list ws" if "set ws \<subseteq> set weights" for ws
    using that by (induction ws) (auto simp: distrib_left Gcd_dvd)
  then have sum: "sum_list (map (\<lambda>w. w div ?g) weights) = sum_list weights div ?g"
    using s [OF order_refl] False by (metis nonzero_mult_div_cancel_left)
  have T: "sum_list ?r = int (sum_list weights div ?g)"
  proof -
    have "sum_list (map (\<lambda>w. int (f w)) ws) = int (sum_list (map f ws))" for f :: "nat \<Rightarrow> nat" and ws
      by (induction ws) simp_all
    then show ?thesis unfolding sum [symmetric] .
  qed
  have pos: "0 < sum_list ?r"
  proof -
    from False obtain w where "w \<in> set weights" "w \<noteq> 0" by (auto simp: Gcd_0_iff)
    then have "?g \<le> w" "w \<le> sum_list weights" by (auto intro: dvd_imp_le Gcd_dvd member_le_sum_list)
    moreover have "0 < ?g" by (rule gr0I) (use False in blast)
    ultimately have "0 < sum_list weights div ?g" by (simp add: div_greater_zero_iff)
    then show ?thesis by (simp add: T)
  qed
  let ?n = "nat (sum_list ?r)" and ?s = "wrr_loop (nat (sum_list ?r)) ?r (sum_list ?r) (replicate (length ?r) 0)"
  have st: "wrr_state ?r (sum_list ?r) 0 (\<lambda>_. 0) (replicate (length ?r) 0)"
    using pos by (simp add: wrr_state_def)
  from wrr_loop_state [OF st refl pos _ , of ?n] obtain cur' where
    L: "length ?s = ?n" "set ?s \<subseteq> {..<length ?r}"
    "wrr_state ?r (sum_list ?r) (0 + ?n) (\<lambda>j. 0 + count_list ?s j) cur'"
    using assms by auto
  have "\<forall>j < length ?r. int (0 + count_list ?s j) = ?r ! j"
    by (rule wrr_state_end [OF L(3) refl pos]) (use pos in simp)
  then have "\<forall>i < length weights. count_list ?s i = weights ! i div ?g" by simp
  moreover have "?n = sum_list weights div ?g" by (simp add: T)
  ultimately show ?thesis
    using L(1,2) False by (auto simp: smooth_wrr_schedule_def fold_gcd_loop Let_def)
qed

theorem wrr_fair_witness:
  "smooth_wrr_schedule [4, 2, 0] = Inr [0, 1, 0] \<and> count_list [0, 1, 0 :: nat] 0 = (4::nat) div Gcd (set [4, 2, 0])"
proof -
  have s: "smooth_wrr_schedule [4, 2, 0] = Inr [0, 1, 0]" by code_simp
  have l: "length [4, 2, 0::nat] \<le> U32_MAX" by (simp add: U32_MAX_def)
  have "\<forall>i < length [4, 2, 0::nat]. count_list [0, 1, 0 :: nat] i = [4, 2, 0] ! i div Gcd (set [4, 2, 0::nat])"
    using wrr_fair [OF l] unfolding s sum.case by blast
  from this [rule_format, of 0] s show ?thesis by simp
qed

end
