(* ===== verification/Rules_Props.thy ===== *)
theory Rules_Props
  imports Rules_Match Rules_Schedule
begin

text \<open>
  Compiling and routing together: a compiled table routes every sequence of updates as its
  rule specifications say.
\<close>

section \<open>What compiling a rule builds\<close>

definition root_tree :: "rule_spec \<Rightarrow> dtree" where
  "root_tree spec = (case r_targets spec of [t] \<Rightarrow> decorate t | ts \<Rightarrow> DAll (map decorate ts))"

definition grows :: "builder \<Rightarrow> builder \<Rightarrow> bool" where
  "grows b b' \<longleftrightarrow>
     (\<exists>X Y P Q. b_nodes b' = b_nodes b @ X \<and> b_children b' = b_children b @ Y \<and>
        b_text_patterns b' = b_text_patterns b @ P \<and> b_callback_patterns b' = b_callback_patterns b @ Q)"

definition small32 :: "builder \<Rightarrow> bool" where
  "small32 b \<longleftrightarrow> fits32 b \<and> length (b_text_patterns b) \<le> U32_MAX \<and> length (b_callback_patterns b) \<le> U32_MAX"

lemma grows_refl [simp]: "grows b b"
  by (auto simp: grows_def)

lemma grows_trans: "grows b b' \<Longrightarrow> grows b' b'' \<Longrightarrow> grows b b''"
  by (auto simp: grows_def)

lemma grows_small: "grows b b' \<Longrightarrow> small32 b' \<Longrightarrow> small32 b"
  by (auto simp: grows_def small32_def fits32_def)

lemma extends_grows: "extends b b' \<Longrightarrow> grows b b'"
  by (auto simp: extends_def grows_def)

lemma grows_reps_list:
  "grows b b' \<Longrightarrow> reps_list (b_nodes b) (b_children b) lo hi ids ts \<Longrightarrow>
     reps_list (b_nodes b') (b_children b') lo hi ids ts"
  by (auto simp: grows_def agree_def nth_append intro!: reps_frame(2))

lemma grows_rule_ok:
  "grows b b' \<Longrightarrow> rule_ok en (b_text_patterns b) (b_callback_patterns b) p r \<Longrightarrow>
     rule_ok en (b_text_patterns b') (b_callback_patterns b') p r"
  by (auto simp: grows_def intro: rule_ok_append)

definition field_patterns :: "field \<Rightarrow> builder \<Rightarrow> string list" where
  "field_patterns fld b = (case fld of Text \<Rightarrow> b_text_patterns b | Callback \<Rightarrow> b_callback_patterns b)"

lemma text_matcher_ok:
  assumes "opt_text_matcher en fld tm b = Inr (m, b')" and "small32 b'"
  shows "grows b b' \<and> b_nodes b' = b_nodes b \<and> b_children b' = b_children b \<and>
    rel_option (matcher_ok en (field_patterns fld b')) tm m"
proof (cases tm)
  case None
  with assms show ?thesis by (simp add: opt_text_matcher_def)
next
  case (Some x)
  with assms show ?thesis
    by (cases x; cases fld)
      (auto simp: opt_text_matcher_def text_matcher_def Let_def grows_def matcher_ok_def field_patterns_def
        small32_def index32_def split: if_splits option.splits sum.splits)
qed

lemma rule_root_reps:
  assumes "rule_root (r_targets spec) b = Inr (i, b')" and "fits32 b'"
  shows "extends b b' \<and> i = length (b_nodes b') - 1 \<and>
    reps (b_nodes b') (b_children b') (length (b_nodes b)) i (root_tree spec)"
proof -
  consider t where "r_targets spec = [t]" | t u ts where "r_targets spec = t # u # ts"
    using assms(1) by (cases "r_targets spec" rule: remdups_adj.cases) (auto simp: rule_root_def)
  then show ?thesis
  proof cases
    case 1
    with assms target_extends(1) target_reps(1) show ?thesis by (simp add: rule_root_def root_tree_def)
  next
    case 2
    then have "target (TAll (r_targets spec)) b = Inr (i, b')"
      using assms(1) by (auto simp: rule_root_def group_def split: sum.splits prod.splits)
    with target_extends(1) target_reps(1) [OF _ assms(2)] 2 show ?thesis
      by (fastforce simp: root_tree_def)
  qed
qed

lemma compile_rule_ok:
  assumes "compile_rule en spec b = Inr (r, b')" and "small32 b'"
  shows "grows b b' \<and> rule_ok en (b_text_patterns b') (b_callback_patterns b') (r_predicates spec) r \<and>
    c_root r = length (b_nodes b') - 1 \<and>
    reps (b_nodes b') (b_children b') (length (b_nodes b)) (c_root r) (root_tree spec)"
proof -
  let ?p = "r_predicates spec"
  from assms(1) obtain cm tx b1 cb b2 root where
    c: "compile_commands en (p_commands ?p) = Inr cm" "opt_text_matcher en Text (p_text ?p) b = Inr (tx, b1)"
    "opt_text_matcher en Callback (p_callback_data ?p) b1 = Inr (cb, b2)"
    "rule_root (r_targets spec) b2 = Inr (root, b')"
    and r: "c_update_types r = set (p_update_types ?p)" "c_chat_ids r = set (p_chat_ids ?p)"
    "c_chat_types r = fold (\<lambda>t m. m OR chat_bit t) (p_chat_types ?p) 0" "c_user_ids r = set (p_user_ids ?p)"
    "c_commands r = cm" "c_text r = tx" "c_callback_data r = cb" "c_root r = root"
    unfolding compile_rule_def Let_def by (auto split: sum.splits prod.splits)
  note R = rule_root_reps [OF c(4)] assms(2)
  then have ext: "extends b2 b'" by (auto simp: small32_def)
  have s2: "small32 b2" by (rule grows_small [OF extends_grows [OF ext] assms(2)])
  note C = text_matcher_ok [OF c(3) s2]
  have s1: "small32 b1" using C grows_small s2 by blast
  note T = text_matcher_ok [OF c(2) s1]
  have g: "grows b b'" "grows b1 b'" "grows b2 b'"
    using T C extends_grows [OF ext] grows_trans by blast+
  have pats: "\<exists>X. b_text_patterns b' = b_text_patterns b1 @ X" "b_callback_patterns b' = b_callback_patterns b2"
    using g(2) ext by (auto simp: grows_def extends_def)
  have "rel_option (matcher_ok en (b_text_patterns b')) (p_text ?p) tx"
    using T pats(1) option.rel_mono_strong [OF _ matcher_ok_append]
    by (fastforce simp: field_patterns_def)
  moreover have "rel_option (matcher_ok en (b_callback_patterns b')) (p_callback_data ?p) cb"
    using C pats(2) by (simp add: field_patterns_def)
  ultimately show ?thesis
    using g(1) r c(1) R T C by (auto simp: rule_ok_def small32_def)
qed

section \<open>Rules of a source and sources of a table\<close>

text \<open>The rules of one source, compiled in a row: their trees follow each other in the arena.\<close>

lemma compile_rules_ok:
  assumes "compile_rules en src k specs b = Inr (rs, b')" and "small32 b'"
  shows "grows b b' \<and>
    list_all2 (\<lambda>spec r. rule_ok en (b_text_patterns b') (b_callback_patterns b') (r_predicates spec) r) specs rs \<and>
    reps_list (b_nodes b') (b_children b') (length (b_nodes b)) (length (b_nodes b')) (map c_root rs)
      (map root_tree specs)"
  using assms
proof (induction specs arbitrary: k b rs)
  case (Cons spec specs)
  then obtain r b1 rs1 where c: "compile_rule en spec b = Inr (r, b1)"
    "compile_rules en src (k + 1) specs b1 = Inr (rs1, b')" "rs = r # rs1"
    by (auto split: sum.splits prod.splits)
  note IH = Cons.IH [OF c(2) Cons.prems(2)]
  have s1: "small32 b1" using IH grows_small Cons.prems(2) by blast
  note R = compile_rule_ok [OF c(1) s1]
  have "rule_ok en (b_text_patterns b') (b_callback_patterns b') (r_predicates spec) r"
    using R IH grows_rule_ok by blast
  moreover have one: "reps_list (b_nodes b1) (b_children b1) (length (b_nodes b)) (length (b_nodes b1)) [c_root r] [root_tree spec]"
    using R reps_lo by fastforce
  have "c_root r + 1 = length (b_nodes b1)" using R reps_lo by fastforce
  moreover have "length (b_nodes b1) \<le> length (b_nodes b')" using IH by (auto simp: grows_def)
  ultimately show ?case
    using R IH c(3) grows_reps_list [OF _ one] grows_trans by auto
qed simp

text \<open>
  \<open>table_ok\<close>: every source's rules are compiled from its specifications and represent the
  trees \<open>trees src\<close>, and the sources' parts of the arena are disjoint.
\<close>

definition source_ok :: "('ac, 're) engines \<Rightarrow> builder \<Rightarrow> (source_id \<times> string option) list \<Rightarrow> source_id \<Rightarrow>
    rule_spec list \<Rightarrow> dtree list \<Rightarrow> 'ac source_rules \<Rightarrow> nat \<Rightarrow> nat \<Rightarrow> bool" where
  "source_ok en b names src specs ts sr lo hi \<longleftrightarrow>
     sr_username sr = username_of names src \<and> hi \<le> length (b_nodes b) \<and>
     list_all2 (\<lambda>spec r. rule_ok en (b_text_patterns b) (b_callback_patterns b) (r_predicates spec) r) specs (sr_rules sr) \<and>
     reps_list (b_nodes b) (b_children b) lo hi (map c_root (sr_rules sr)) ts"

definition src_at :: "'a option list \<Rightarrow> nat \<Rightarrow> 'a option" where
  "src_at sources src = (if src < length sources then sources ! src else None)"

definition sources_ok :: "('ac, 're) engines \<Rightarrow> builder \<Rightarrow> (source_id \<times> string option) list \<Rightarrow>
    (source_id \<rightharpoonup> rule_spec list) \<Rightarrow> (source_id \<Rightarrow> dtree list) \<Rightarrow> 'ac source_rules option list \<Rightarrow>
    (source_id \<Rightarrow> nat) \<Rightarrow> (source_id \<Rightarrow> nat) \<Rightarrow> bool" where
  "sources_ok en b names rules trees sources lo hi \<longleftrightarrow>
     (\<forall>src. rel_option (\<lambda>sr specs. source_ok en b names src specs (trees src) sr (lo src) (hi src))
        (src_at sources src) (rules src)) \<and>
     (\<forall>s1 s2. rules s1 \<noteq> None \<and> rules s2 \<noteq> None \<and> s1 \<noteq> s2 \<longrightarrow> hi s1 \<le> lo s2 \<or> hi s2 \<le> lo s1) \<and>
     (\<forall>s. rules s \<noteq> None \<longrightarrow> hi s \<le> length (b_nodes b))"

lemma source_ok_grows:
  "grows b b' \<Longrightarrow> source_ok en b names src specs ts sr lo hi \<Longrightarrow> source_ok en b' names src specs ts sr lo hi"
  by (auto simp: source_ok_def grows_reps_list grows_rule_ok elim!: list_all2_mono)
    (auto simp: grows_def)

lemma sources_ok_grows:
  assumes "grows b b'" and "sources_ok en b names rules trees sources lo hi"
  shows "sources_ok en b' names rules trees sources lo hi"
proof -
  have "length (b_nodes b) \<le> length (b_nodes b')" using assms(1) by (auto simp: grows_def)
  moreover have "rel_option (\<lambda>sr specs. source_ok en b' names src specs (trees src) sr (lo src) (hi src))
      (src_at sources src) (rules src)" for src
    using assms(2) unfolding sources_ok_def
    by (blast intro: option.rel_mono_strong source_ok_grows [OF assms(1)])
  ultimately show ?thesis using assms(2) unfolding sources_ok_def by (meson le_trans)
qed

lemma resize_get: "src_at (resize_sources k xs) i = src_at xs i"
  by (auto simp: src_at_def resize_sources_def nth_append)

lemma resize_length: "k < length (resize_sources k xs)"
  by (simp add: resize_sources_def)

lemma compile_rule_grows: "compile_rule en spec b = Inr (r, b') \<Longrightarrow> grows b b'"
proof -
  assume "compile_rule en spec b = Inr (r, b')"
  then obtain tx b1 cb b2 root where
    c: "opt_text_matcher en Text (p_text (r_predicates spec)) b = Inr (tx, b1)"
    "opt_text_matcher en Callback (p_callback_data (r_predicates spec)) b1 = Inr (cb, b2)"
    "rule_root (r_targets spec) b2 = Inr (root, b')"
    unfolding compile_rule_def Let_def by (auto split: sum.splits prod.splits)
  have m: "grows x y" if "opt_text_matcher en fld tm x = Inr (m, y)" for fld tm x m y
    using that by (auto simp: opt_text_matcher_def text_matcher_def Let_def grows_def
        split: option.splits text_match.splits if_splits sum.splits field.splits)
  have "grows b2 b'"
    using c(3) by (auto simp: rule_root_def group_def split: list.splits sum.splits prod.splits
        dest!: target_extends push_node_extends store_children_extends intro: extends_grows)
      (blast intro: extends_grows extends_trans)
  with m [OF c(1)] m [OF c(2)] show ?thesis by (blast intro: grows_trans)
qed

lemma compile_rules_grows: "compile_rules en src k specs b = Inr (rs, b') \<Longrightarrow> grows b b'"
  by (induction specs arbitrary: k b rs)
    (auto split: sum.splits prod.splits dest!: compile_rule_grows intro: grows_trans)

lemma compile_sources_grows: "compile_sources en names rest sources b = Inr (sources', b') \<Longrightarrow> grows b b'"
  by (induction en names rest sources b rule: compile_sources.induct)
    (auto simp: Let_def split: if_splits sum.splits prod.splits dest!: compile_rules_grows intro: grows_trans)

lemma sources_ok_insert:
  assumes ok: "sources_ok en b1 names rules trees sources lo hi" and free: "resize_sources src sources ! src = None"
    and new: "source_ok en b1 names src specs ts sr l (length (b_nodes b1))"
    and below: "\<forall>s. rules s \<noteq> None \<longrightarrow> hi s \<le> l"
  shows "sources_ok en b1 names (rules(src \<mapsto> specs)) (trees(src := ts))
    ((resize_sources src sources)[src := Some sr]) (lo(src := l)) (hi(src := length (b_nodes b1))) \<and>
    rules src = None"
proof -
  let ?S = "resize_sources src sources"
  have get: "src_at (?S[src := Some sr]) s = (if s = src then Some sr else src_at sources s)" for s
    using resize_get [of src sources s] resize_length [of src sources] by (auto simp: src_at_def)
  have "src_at sources src = None"
    using free resize_get [of src sources src] resize_length [of src sources] by (simp add: src_at_def)
  moreover have rel: "rel_option (\<lambda>sr specs. source_ok en b1 names s specs (trees s) sr (lo s) (hi s))
      (src_at sources s) (rules s)" for s
    using ok by (simp add: sources_ok_def)
  ultimately have none: "rules src = None" by (metis option.rel_distinct(1) option.exhaust)
  have "rel_option (\<lambda>r specs'. source_ok en b1 names s specs' ((trees(src := ts)) s) r ((lo(src := l)) s)
      ((hi(src := length (b_nodes b1))) s)) (src_at (?S[src := Some sr]) s) ((rules(src \<mapsto> specs)) s)" for s
    using rel [of s] new by (simp add: get)
  then show ?thesis
    using ok below none unfolding sources_ok_def by auto
qed

lemma compile_sources_ok:
  assumes "compile_sources en names rest sources b = Inr (sources', b')" and "small32 b'"
    and "sources_ok en b names rules trees sources lo hi"
  shows "\<exists>lo' hi'. distinct (map fst rest) \<and> (\<forall>s \<in> fst ` set rest. rules s = None) \<and>
    sources_ok en b' names (rules ++ map_of rest)
      (\<lambda>s. case map_of rest s of None \<Rightarrow> trees s | Some specs \<Rightarrow> map root_tree specs) sources' lo' hi'"
  using assms
proof (induction rest arbitrary: sources b rules trees lo hi)
  case Nil
  then show ?case by auto
next
  case (Cons entry rest)
  obtain src specs where e: "entry = (src, specs)" by (cases entry)
  let ?S = "resize_sources src sources" and ?u = "username_of names src"
  from Cons.prems(1) obtain rs b1 where free: "?S ! src = None"
    and c: "compile_rules en src 0 specs b = Inr (rs, b1)"
    and rec: "compile_sources en names rest (?S[src := Some \<lparr>sr_rules = rs, sr_username = ?u\<rparr>]) b1 = Inr (sources', b')"
    by (auto simp: e Let_def split: if_splits sum.splits prod.splits)
  have s1: "small32 b1" by (rule grows_small [OF compile_sources_grows [OF rec] Cons.prems(2)])
  note R = compile_rules_ok [OF c s1]
  have new: "source_ok en b1 names src specs (map root_tree specs) \<lparr>sr_rules = rs, sr_username = ?u\<rparr>
      (length (b_nodes b)) (length (b_nodes b1))"
    using R by (simp add: source_ok_def)
  have "\<forall>s. rules s \<noteq> None \<longrightarrow> hi s \<le> length (b_nodes b)" using Cons.prems(3) by (simp add: sources_ok_def)
  note I = sources_ok_insert [OF sources_ok_grows [OF conjunct1 [OF R] Cons.prems(3)] free new this]
  from Cons.IH [OF rec Cons.prems(2) conjunct1 [OF I]] obtain lo' hi' where
    IH: "distinct (map fst rest)" "\<forall>s \<in> fst ` set rest. (rules(src \<mapsto> specs)) s = None"
    "sources_ok en b' names (rules(src \<mapsto> specs) ++ map_of rest)
      (\<lambda>s. case map_of rest s of None \<Rightarrow> (trees(src := map root_tree specs)) s | Some specs \<Rightarrow> map root_tree specs)
      sources' lo' hi'" by blast
  have notin: "src \<notin> fst ` set rest" using IH(2) by auto
  then have mo: "map_of rest src = None" by (simp add: map_of_eq_None_iff)
  have r: "rules(src \<mapsto> specs) ++ map_of rest = rules ++ map_of (entry # rest)"
    using mo by (auto simp: e map_add_def fun_eq_iff split: option.splits)
  have t: "(\<lambda>s. case map_of rest s of None \<Rightarrow> (trees(src := map root_tree specs)) s | Some specs \<Rightarrow> map root_tree specs) =
      (\<lambda>s. case map_of (entry # rest) s of None \<Rightarrow> trees s | Some specs \<Rightarrow> map root_tree specs)"
    using mo by (auto simp: e fun_eq_iff split: option.splits)
  have "\<forall>s \<in> fst ` set (entry # rest). rules s = None"
    using IH(2) I notin by (auto simp: e fun_upd_def split: if_splits)
  moreover have "distinct (map fst (entry # rest))" using IH(1) notin by (simp add: e)
  ultimately show ?case using IH(3) unfolding r t by blast
qed

section \<open>Routing by the specifications\<close>

fun first_idx :: "('a \<Rightarrow> bool) \<Rightarrow> 'a list \<Rightarrow> nat option" where
  "first_idx P [] = None"
| "first_idx P (x # xs) = (if P x then Some 0 else map_option Suc (first_idx P xs))"

type_synonym forest = "source_id \<Rightarrow> dtree list"

text \<open>
  One update by the specifications: the first rule whose predicates hold, and delivery through
  that rule's tree; \<open>None\<close> when no rule holds or the source has none.
\<close>

definition spec_route ::
  "(string \<Rightarrow> string \<Rightarrow> bool) \<Rightarrow> (source_id \<times> string option) list \<Rightarrow> (source_id \<rightharpoonup> rule_spec list) \<Rightarrow>
     source_id \<Rightarrow> facts \<Rightarrow> forest \<Rightarrow> nat option \<times> consumer_id list \<times> forest" where
  "spec_route is_match names rules src f trees =
     (case rules src of
        None \<Rightarrow> (None, [], trees)
      | Some specs \<Rightarrow>
          (case first_idx (\<lambda>spec. rule_holds is_match (username_of names src) (r_predicates spec) f) specs of
             None \<Rightarrow> (None, [], trees)
           | Some i \<Rightarrow>
               (case deliver_nth (trees src) i (ordering_key f) [] of
                  (ts, out) \<Rightarrow> (Some i, out, trees(src := ts)))))"

fun spec_all ::
  "(string \<Rightarrow> string \<Rightarrow> bool) \<Rightarrow> (source_id \<times> string option) list \<Rightarrow> (source_id \<rightharpoonup> rule_spec list) \<Rightarrow>
     (source_id \<times> facts) list \<Rightarrow> forest \<Rightarrow> (nat option \<times> consumer_id list) list" where
  "spec_all is_match names rules [] trees = []"
| "spec_all is_match names rules ((src, f) # us) trees =
     (case spec_route is_match names rules src f trees of
        (i, out, trees) \<Rightarrow> (i, out) # spec_all is_match names rules us trees)"

text \<open>The same sequence of updates through the compiled table.\<close>

fun route_all ::
  "('ac, 're) engines \<Rightarrow> (source_id \<times> facts) list \<Rightarrow> ('ac, 're) route_table \<Rightarrow> match_scratch \<Rightarrow>
     (nat option \<times> consumer_id list) list option" where
  "route_all en [] t sc = Some []"
| "route_all en ((src, f) # us) t sc =
     (case route en src f t sc of
        None \<Rightarrow> None
      | Some (i, out, t, sc) \<Rightarrow> map_option ((#) (i, out)) (route_all en us t sc))"

definition as_builder :: "('ac, 're) route_table \<Rightarrow> string list \<Rightarrow> string list \<Rightarrow> builder" where
  "as_builder t PT PC = \<lparr>b_nodes = rt_nodes t, b_children = rt_children t, b_text_patterns = PT, b_callback_patterns = PC\<rparr>"

definition table_ok where
  "table_ok en names rules trees PT PC t \<longleftrightarrow>
     (\<exists>lo hi. sources_ok en (as_builder t PT PC) names rules trees (rt_sources t) lo hi) \<and>
     combined en PT = Inr (rt_text_regex t) \<and> combined en PC = Inr (rt_callback_regex t)"

definition scratch_for :: "('ac, 're) route_table \<Rightarrow> match_scratch \<Rightarrow> bool" where
  "scratch_for t sc \<longleftrightarrow> (ms_owner sc = Some (rt_token t) \<longrightarrow>
     (ms_text sc = None \<longleftrightarrow> rt_text_regex t = None) \<and> (ms_callback sc = None \<longleftrightarrow> rt_callback_regex t = None))"

lemma prepare_ok: "scratch_for t sc \<Longrightarrow> scratches_ok en t f (prepare t sc)"
  by (auto simp: scratch_for_def scratches_ok_def scratch_ok_def prepare_def Let_def)

lemma scratches_for: "scratches_ok en t f sc \<Longrightarrow> scratch_for t sc"
  by (auto simp: scratches_ok_def scratch_ok_def scratch_for_def)

lemma position_holds:
  assumes "list_all2 (\<lambda>spec r. rule_ok en PT PC (r_predicates spec) r) specs rs"
    and en: "engines_ok en is_match"
    and re: "combined en PT = Inr (rt_text_regex t)" "combined en PC = Inr (rt_callback_regex t)"
    and "scratches_ok en t f sc"
  shows "fst (position en t u f k rs sc) =
      map_option (\<lambda>i. (k + i, rs ! i)) (first_idx (\<lambda>spec. rule_holds is_match u (r_predicates spec) f) specs) \<and>
    scratches_ok en t f (snd (position en t u f k rs sc))"
  using assms(1,5)
proof (induction specs rs arbitrary: k sc rule: list_all2_induct)
  case (Cons spec specs r rs)
  note M = matches_holds [OF en Cons.hyps(1) re Cons.prems, of u]
  obtain ok sc' where m: "matches en t u r f sc = (ok, sc')" by (cases "matches en t u r f sc")
  with M Cons.IH [of sc' "k + 1"] show ?case
    by (cases "first_idx (\<lambda>spec. rule_holds is_match u (r_predicates spec) f) specs") (auto simp: m)
qed simp

lemma first_idx_less: "first_idx P xs = Some i \<Longrightarrow> i < length xs"
  by (induction xs arbitrary: i) (auto split: if_splits)

lemma walk_source:
  assumes ok: "sources_ok en (as_builder t PT PC) names rules trees (rt_sources t) lo hi"
    and src: "src_at (rt_sources t) src = Some sr" "rules src = Some specs" and i: "i < length specs"
    and d: "deliver_nth (trees src) i key [] = (ts, out)"
  shows "\<exists>N. walk (length (rt_nodes t) + 1) (rt_children t) (c_root (sr_rules sr ! i)) key (rt_nodes t, []) = Some (N, out) \<and>
    sources_ok en (as_builder (t\<lparr>rt_nodes := N\<rparr>) PT PC) names rules (trees(src := ts)) (rt_sources t) lo hi"
proof -
  let ?N = "rt_nodes t" and ?C = "rt_children t"
  have so: "rel_option (\<lambda>sr specs. source_ok en (as_builder t PT PC) names s specs (trees s) sr (lo s) (hi s))
      (src_at (rt_sources t) s) (rules s)" for s using ok by (simp add: sources_ok_def)
  have here: "source_ok en (as_builder t PT PC) names src specs (trees src) sr (lo src) (hi src)"
    using so [of src] src by simp
  then have R: "reps_list ?N ?C (lo src) (hi src) (map c_root (sr_rules sr)) (trees src)"
    and hi: "hi src \<le> length ?N + 1" and la: "length specs = length (sr_rules sr)"
    by (auto simp: source_ok_def as_builder_def dest: list_all2_lengthD)
  have len: "i < length (trees src)" using reps_list_length [OF R] i la by simp
  from walk_deliver(3) [OF R hi len, of key "[]"] d i la obtain N where
    W: "walk (length ?N + 1) ?C (c_root (sr_rules sr ! i)) key (?N, []) = Some (N, out)"
    "reps_list N ?C (lo src) (hi src) (map c_root (sr_rules sr)) ts" "length N = length ?N"
    "\<forall>j. j < lo src \<or> hi src - 1 < j \<longrightarrow> N ! j = ?N ! j"
    by (auto simp: walks_def)
  have frame: "source_ok en (as_builder (t\<lparr>rt_nodes := N\<rparr>) PT PC) names s sp ((trees(src := ts)) s) x (lo s) (hi s)"
    if "source_ok en (as_builder t PT PC) names s sp (trees s) x (lo s) (hi s)" "rules s = Some sp"
      "src_at (rt_sources t) s = Some x" for s sp x
  proof (cases "s = src")
    case True
    with that W(2,3) src show ?thesis by (auto simp: source_ok_def as_builder_def)
  next
    case False
    have dis: "hi src \<le> lo s \<or> hi s \<le> lo src" using ok False src(2) that(2) by (auto simp: sources_ok_def)
    have hs: "0 < hi src" using R i la len by (cases "trees src") (auto split: list.splits)
    have Rs: "reps_list ?N ?C (lo s) (hi s) (map c_root (sr_rules x)) (trees s)"
      using that(1) by (simp add: source_ok_def as_builder_def)
    have "reps_list N ?C (lo s) (hi s) (map c_root (sr_rules x)) (trees s)"
    proof (cases "hi s")
      case 0
      with Rs show ?thesis by (cases "trees s") (auto split: list.splits)
    next
      case (Suc m)
      have "agree (lo s) (hi s - 1) ?N N" using dis Suc hs W(3,4) by (auto simp: agree_def)
      from reps_frame0(2) [OF Rs this] show ?thesis .
    qed
    with that(1) W(3) False show ?thesis by (auto simp: source_ok_def as_builder_def)
  qed
  have "rel_option (\<lambda>sr specs. source_ok en (as_builder (t\<lparr>rt_nodes := N\<rparr>) PT PC) names s specs
      ((trees(src := ts)) s) sr (lo s) (hi s)) (src_at (rt_sources t) s) (rules s)" for s
    using so [of s] frame [of s] by (cases "src_at (rt_sources t) s"; cases "rules s") auto
  then show ?thesis
    using W ok unfolding sources_ok_def by (auto simp: as_builder_def)
qed

lemma route_step:
  assumes en: "engines_ok en is_match" and ok: "table_ok en names rules trees PT PC t" and sc: "scratch_for t sc"
    and spec: "spec_route is_match names rules src f trees = (i, out, trees')"
  shows "\<exists>t' sc'. route en src f t sc = Some (i, out, t', sc') \<and> table_ok en names rules trees' PT PC t' \<and>
    scratch_for t' sc'"
proof -
  obtain lo hi where S: "sources_ok en (as_builder t PT PC) names rules trees (rt_sources t) lo hi"
    and re: "combined en PT = Inr (rt_text_regex t)" "combined en PC = Inr (rt_callback_regex t)"
    using ok by (auto simp: table_ok_def)
  have so: "rel_option (\<lambda>sr specs. source_ok en (as_builder t PT PC) names src specs (trees src) sr (lo src) (hi src))
      (src_at (rt_sources t) src) (rules src)" using S by (simp add: sources_ok_def)
  show ?thesis
  proof (cases "rules src")
    case None
    with so have "src_at (rt_sources t) src = None" by (cases "src_at (rt_sources t) src") auto
    with None spec ok sc show ?thesis
      by (auto simp: route_def spec_route_def src_at_def split: if_splits)
  next
    case (Some specs)
    with so obtain sr where sr: "src_at (rt_sources t) src = Some sr"
      "source_ok en (as_builder t PT PC) names src specs (trees src) sr (lo src) (hi src)"
      by (cases "src_at (rt_sources t) src") auto
    have at: "src < length (rt_sources t)" "rt_sources t ! src = Some sr"
      using sr(1) by (auto simp: src_at_def split: if_splits)
    have la: "list_all2 (\<lambda>spec r. rule_ok en PT PC (r_predicates spec) r) specs (sr_rules sr)"
      and u: "sr_username sr = username_of names src"
      using sr(2) by (auto simp: source_ok_def as_builder_def)
    let ?P = "\<lambda>spec. rule_holds is_match (username_of names src) (r_predicates spec) f"
    obtain r sc' where pos: "position en t (sr_username sr) f 0 (sr_rules sr) (prepare t sc) = (r, sc')"
      by (cases "position en t (sr_username sr) f 0 (sr_rules sr) (prepare t sc)")
    have P: "r = map_option (\<lambda>i. (i, sr_rules sr ! i)) (first_idx ?P specs)" "scratches_ok en t f sc'"
      using position_holds [where f = f and u = "sr_username sr" and k = 0, OF la en re prepare_ok [OF sc]] pos by (simp_all add: u)
    show ?thesis
    proof (cases "first_idx ?P specs")
      case None
      with P spec Some ok pos at scratches_for [OF P(2)] show ?thesis
        by (auto simp: route_def spec_route_def)
    next
      case (Some k)
      obtain ts out' where d: "deliver_nth (trees src) k (ordering_key f) [] = (ts, out')"
        by (cases "deliver_nth (trees src) k (ordering_key f) []")
      have s': "i = Some k" "out = out'" "trees' = trees(src := ts)"
        using spec Some d \<open>rules src = Some specs\<close> by (auto simp: spec_route_def)
      from walk_source [OF S sr(1) \<open>rules src = Some specs\<close> first_idx_less [OF Some] d] obtain N where
        W: "walk (length (rt_nodes t) + 1) (rt_children t) (c_root (sr_rules sr ! k)) (ordering_key f) (rt_nodes t, []) = Some (N, out')"
        "sources_ok en (as_builder (t\<lparr>rt_nodes := N\<rparr>) PT PC) names rules (trees(src := ts)) (rt_sources t) lo hi"
        by blast
      have "table_ok en names rules trees' PT PC (t\<lparr>rt_nodes := N\<rparr>)"
        using W(2) re s'(3) by (auto simp: table_ok_def as_builder_def)
      moreover have "scratch_for (t\<lparr>rt_nodes := N\<rparr>) sc'"
        using scratches_for [OF P(2)] by (simp add: scratch_for_def)
      moreover have "route en src f t sc = Some (i, out, t\<lparr>rt_nodes := N\<rparr>, sc')"
        using pos P(1) Some W(1) at s' by (simp add: route_def)
      ultimately show ?thesis by blast
    qed
  qed
qed

lemma route_all_spec:
  assumes "engines_ok en is_match" and "table_ok en names rules trees PT PC t" and "scratch_for t sc"
  shows "route_all en us t sc = Some (spec_all is_match names rules us trees)"
  using assms(2,3)
proof (induction us arbitrary: trees t sc)
  case (Cons u us)
  obtain src f where u: "u = (src, f)" by (cases u)
  obtain i out trees' where s: "spec_route is_match names rules src f trees = (i, out, trees')" by (metis surj_pair)
  from route_step [OF assms(1) Cons.prems s] obtain t' sc' where
    "route en src f t sc = Some (i, out, t', sc')" "table_ok en names rules trees' PT PC t'" "scratch_for t' sc'" by blast
  with Cons.IH [of trees' t' sc'] s show ?case by (simp add: u)
qed simp

definition fits_u32 :: "('ac, 're) engines \<Rightarrow> (source_id \<times> string option) list \<Rightarrow> (source_id \<times> rule_spec list) list \<Rightarrow> bool" where
  "fits_u32 en names rules =
     (case compile_sources en names rules []
             \<lparr>b_nodes = [], b_children = [], b_text_patterns = [], b_callback_patterns = []\<rparr> of
        Inl _ \<Rightarrow> True | Inr (_, b) \<Rightarrow> small32 b)"

lemma compile_table_ok:
  assumes "compile en tok rules names = Inr t" and "fits_u32 en names rules"
  shows "\<exists>PT PC. table_ok en names (map_of rules)
    (\<lambda>s. case map_of rules s of None \<Rightarrow> [] | Some specs \<Rightarrow> map root_tree specs) PT PC t \<and> distinct (map fst rules)"
proof -
  let ?b = "\<lparr>b_nodes = [], b_children = [], b_text_patterns = [], b_callback_patterns = []\<rparr>"
  from assms(1) obtain sources b tx cb where c: "compile_sources en names rules [] ?b = Inr (sources, b)"
    "combined en (b_text_patterns b) = Inr tx" "combined en (b_callback_patterns b) = Inr cb"
    and t: "t = \<lparr>rt_sources = sources, rt_nodes = b_nodes b, rt_children = b_children b,
      rt_text_regex = tx, rt_callback_regex = cb, rt_token = tok\<rparr>"
    by (auto simp: compile_def split: sum.splits prod.splits)
  have s: "small32 b" using assms(2) c(1) by (simp add: fits_u32_def)
  have "sources_ok en ?b names Map.empty (\<lambda>_. []) [] (\<lambda>_. 0) (\<lambda>_. 0)"
    by (simp add: sources_ok_def src_at_def)
  from compile_sources_ok [OF c(1) s this] obtain lo hi where
    "distinct (map fst rules)" "sources_ok en b names (map_of rules)
      (\<lambda>s. case map_of rules s of None \<Rightarrow> [] | Some specs \<Rightarrow> map root_tree specs) sources lo hi" by auto
  moreover have "as_builder t (b_text_patterns b) (b_callback_patterns b) = b"
    by (cases b) (simp add: as_builder_def t)
  moreover have "rt_sources t = sources" "rt_text_regex t = tx" "rt_callback_regex t = cb" by (simp_all add: t)
  ultimately show ?thesis using c(2,3) unfolding table_ok_def
    by (intro exI [of _ "b_text_patterns b"] exI [of _ "b_callback_patterns b"]) auto
qed

text \<open>
  C22. The rules engine routes as its rules say: for a table compiled from any rule
  specifications and every sequence of updates, \<open>route\<close> always returns and gives for each
  update the index of the first rule whose predicates hold (fields ANDed, values ORed,
  commands and bot names compared without ASCII case, regexes of all rules searched once)
  and the consumers its target tree selects, in order and without duplicates, the split
  cursors advancing only for the splits an update passed through.
\<close>

theorem route_refines:
  assumes "compile en tok rules names = Inr t" and "fits_u32 en names rules" and "engines_ok en is_match"
  shows "route_all en us t scratch_default =
    Some (spec_all is_match names (map_of rules) us
      (\<lambda>s. case map_of rules s of None \<Rightarrow> [] | Some specs \<Rightarrow> map root_tree specs))"
proof -
  from compile_table_ok [OF assms(1,2)] obtain PT PC where
    "table_ok en names (map_of rules) (\<lambda>s. case map_of rules s of None \<Rightarrow> [] | Some specs \<Rightarrow> map root_tree specs) PT PC t"
    by blast
  from route_all_spec [OF assms(3) this] show ?thesis by (simp add: scratch_for_def scratch_default_def)
qed

text \<open>
  A concrete matching engine (patterns kept as a list, a regular expression matching only
  its own text) and a small rule set of three rules, one of them behind a weighted split.
\<close>

definition demo_engines :: "(bool \<times> string list, string list) engines" where
  "demo_engines =
     \<lparr>ac_build = (\<lambda>ci ps. Some (ci, ps)),
      ac_find = (\<lambda>(ci, ps) s. longest (filter (\<lambda>p. anchored ci p s) ps)),
      re_valid = (\<lambda>_. True),
      re_build = Some,
      re_which = (\<lambda>ps s. set (filter (\<lambda>i. ps ! i = s) [0..<length ps]))\<rparr>"

lemma demo_engines_ok: "engines_ok demo_engines (=)"
  by (auto simp: engines_ok_def demo_engines_def)

definition demo_predicates :: predicates where
  "demo_predicates =
     \<lparr>p_update_types = [], p_chat_ids = [], p_chat_types = [], p_user_ids = [], p_commands = [],
      p_text = None, p_callback_data = None\<rparr>"

definition demo_rules :: "(source_id \<times> rule_spec list) list" where
  "demo_rules =
     [(0, [\<lparr>r_predicates = demo_predicates\<lparr>p_commands := [''/start'']\<rparr>, r_targets = [TConsumer 1, TConsumer 2, TConsumer 1]\<rparr>,
           \<lparr>r_predicates = demo_predicates\<lparr>p_text := Some (Regex [''hi'', ''yo''])\<rparr>, r_targets = [TConsumer 3]\<rparr>,
           \<lparr>r_predicates = demo_predicates, r_targets = [TSplit Weighted [TConsumer 4, TConsumer 5] [2, 1]]\<rparr>])]"

definition demo_facts :: "string \<Rightarrow> (string \<times> string option) option \<Rightarrow> facts" where
  "demo_facts t c =
     \<lparr>f_update_type = ''message'', f_chat_id = Some 7, f_chat_type = Some Private, f_user_id = None,
      f_text = Some t, f_callback_data = None, f_command = c\<rparr>"

definition demo_updates :: "(source_id \<times> facts) list" where
  "demo_updates =
     [(0, demo_facts ''/START@Bot'' (Some (''START'', Some ''Bot''))), (0, demo_facts ''yo'' None),
      (0, demo_facts ''a'' None), (0, demo_facts ''b'' None), (0, demo_facts ''c'' None), (1, demo_facts ''d'' None)]"

text \<open>
  A command rule, a regex rule and a weighted rule at work: the duplicate consumer of the
  first rule gets one copy, the 2:1 split serves consumer 4, 5, 4, and an update of a source
  without rules matches nothing.
\<close>

theorem route_refines_witness:
  "\<exists>t. compile demo_engines 9 demo_rules [(0, Some ''bot'')] = Inr t \<and>
     route_all demo_engines demo_updates t scratch_default =
       Some [(Some 0, [1, 2]), (Some 1, [3]), (Some 2, [4]), (Some 2, [5]), (Some 2, [4]), (None, [])]"
proof -
  obtain t where c: "compile demo_engines 9 demo_rules [(0, Some ''bot'')] = Inr t"
  proof -
    have "\<not> isl (compile demo_engines 9 demo_rules [(0, Some ''bot'')])" by code_simp
    then show thesis using that by (cases "compile demo_engines 9 demo_rules [(0, Some ''bot'')]") auto
  qed
  have "fits_u32 demo_engines [(0, Some ''bot'')] demo_rules" by code_simp
  from route_refines [OF c this demo_engines_ok, of demo_updates]
  have "route_all demo_engines demo_updates t scratch_default =
    Some (spec_all (=) [(0, Some ''bot'')] (map_of demo_rules) demo_updates
      (\<lambda>s. case map_of demo_rules s of None \<Rightarrow> [] | Some specs \<Rightarrow> map root_tree specs))" .
  moreover have "spec_all (=) [(0, Some ''bot'')] (map_of demo_rules) demo_updates
      (\<lambda>s. case map_of demo_rules s of None \<Rightarrow> [] | Some specs \<Rightarrow> map root_tree specs) =
    [(Some 0, [1, 2]), (Some 1, [3]), (Some 2, [4]), (Some 2, [5]), (Some 2, [4]), (None, [])]"
    by code_simp
  ultimately show ?thesis using c by auto
qed

end
