(* ===== verification/Delimiter.thy ===== *)
theory Delimiter
  imports Bytes
begin

text \<open>
  The multipart delimiter of \<open>crates/tgin-botapi/src/gateway/local_files/http_reader.rs\<close>: a
  Knuth-Morris-Pratt search fed byte by byte that releases the bytes before a delimiter as
  content. Loops are partial functions in the option monad, where \<open>None\<close> is a loop that does
  not end (or a slice out of bounds in \<open>delimiter_new\<close>); the lemmas show that they end. The
  search is equivalent to looking for the first occurrence of the delimiter.
\<close>

section \<open>The delimiter\<close>

definition MAX_BOUNDARY_LEN :: nat where
  "MAX_BOUNDARY_LEN = 70"

definition MAX_DELIMITER_LEN :: nat where
  "MAX_DELIMITER_LEN = MAX_BOUNDARY_LEN + 4"

record delimiter =
  dl_pattern :: bytes
  dl_fail :: "nat list"
  dl_len :: nat
  dl_matched :: nat

text \<open>The inner \<open>while\<close> of \<open>Delimiter::new\<close>.\<close>

partial_function (option) fall_back :: "bytes \<Rightarrow> nat list \<Rightarrow> byte \<Rightarrow> nat \<Rightarrow> nat option" where
  "fall_back pattern fail b k =
     (if 0 < k \<and> b \<noteq> pattern ! k then fall_back pattern fail b (fail ! (k - 1)) else Some k)"

declare fall_back.simps [code]

text \<open>\<open>u8::try_from(k).unwrap_or(u8::MAX)\<close>.\<close>

definition clamp_u8 :: "nat \<Rightarrow> nat" where
  "clamp_u8 k = (if k \<le> 255 then k else 255)"

text \<open>The \<open>for i in 1..len\<close> loop of \<open>Delimiter::new\<close>, over the indices still to come.\<close>

fun fail_loop :: "bytes \<Rightarrow> nat list \<Rightarrow> nat \<Rightarrow> nat list \<Rightarrow> nat list option" where
  "fail_loop pattern [] k fail = Some fail"
| "fail_loop pattern (i # is) k fail =
     (case fall_back pattern fail (pattern ! i) k of
        None \<Rightarrow> None
      | Some k \<Rightarrow>
          (let k' = (if pattern ! i = pattern ! k then k + 1 else k)
           in fail_loop pattern is k' (fail[i := clamp_u8 k'])))"

definition delimiter_new :: "bytes \<Rightarrow> bytes \<Rightarrow> delimiter option" where
  "delimiter_new pre boundary =
     (let len = length pre + length boundary;
          pattern = pre @ boundary @ replicate (MAX_DELIMITER_LEN - len) (CHR 0x00)
      in if MAX_DELIMITER_LEN < len then None
         else
           (case fail_loop pattern [1..<len] 0 (replicate MAX_DELIMITER_LEN 0) of
              None \<Rightarrow> None
            | Some fail \<Rightarrow>
                Some \<lparr>dl_pattern = pattern, dl_fail = fail, dl_len = len, dl_matched = 0\<rparr>))"

text \<open>
  \<open>Delimiter::step\<close>: whether the byte completed the delimiter, the bytes handed to the
  callback (appended to \<open>content\<close>) and the delimiter after.
\<close>

partial_function (option) delimiter_step ::
  "byte \<Rightarrow> bytes \<Rightarrow> delimiter \<Rightarrow> (bool \<times> bytes \<times> delimiter) option" where
  "delimiter_step b content d =
     (if dl_pattern d ! dl_matched d = b then
        (if dl_matched d + 1 = dl_len d
         then Some (True, content, d\<lparr>dl_matched := 0\<rparr>)
         else Some (False, content, d\<lparr>dl_matched := dl_matched d + 1\<rparr>))
      else if dl_matched d = 0 then Some (False, content @ [b], d)
      else
        (let kept = dl_fail d ! (dl_matched d - 1)
         in delimiter_step b (content @ take (dl_matched d - kept) (dl_pattern d))
              (d\<lparr>dl_matched := kept\<rparr>)))"

declare delimiter_step.simps [code]

definition skippable :: "bytes \<Rightarrow> delimiter \<Rightarrow> nat" where
  "skippable data d =
     (if 0 < dl_matched d then 0
      else (case index_where (\<lambda>b. b = dl_pattern d ! 0) data of None \<Rightarrow> length data | Some i \<Rightarrow> i))"

section \<open>Longest matches\<close>

text \<open>\<open>k\<close> is the length of the longest prefix of \<open>p\<close> that the input \<open>s\<close> ends with.\<close>

definition longest_match :: "bytes \<Rightarrow> bytes \<Rightarrow> nat \<Rightarrow> bool" where
  "longest_match p s k \<longleftrightarrow>
     k \<le> length p \<and> suffix (take k p) s \<and> (\<forall>c \<le> length p. suffix (take c p) s \<longrightarrow> c \<le> k)"

text \<open>The failure table is right up to \<open>n\<close>: entry \<open>j - 1\<close> is the longest proper border of the
  first \<open>j\<close> bytes.\<close>

definition fail_ok :: "bytes \<Rightarrow> nat list \<Rightarrow> nat \<Rightarrow> bool" where
  "fail_ok p fail n \<longleftrightarrow> (\<forall>j. 0 < j \<and> j \<le> n \<longrightarrow> longest_match p (tl (take j p)) (fail ! (j - 1)))"

lemma suffix_take_le: "suffix (take c p) s \<Longrightarrow> c \<le> length p \<Longrightarrow> c \<le> length s"
  using suffix_length_le by fastforce

lemma suffix_of_longer:
  assumes "suffix a s" and "suffix b s" and "length a \<le> length b"
  shows "suffix a b"
  using assms suffix_length_suffix by blast

lemma fail_shorter:
  assumes "fail_ok p fail m" and "0 < m" and "m \<le> length p"
  shows "fail ! (m - 1) < m" and "suffix (take (fail ! (m - 1)) p) (take m p)"
proof -
  have L: "longest_match p (tl (take m p)) (fail ! (m - 1))" using assms by (simp add: fail_ok_def)
  then have s: "suffix (take (fail ! (m - 1)) p) (tl (take m p))" by (simp add: longest_match_def)
  from suffix_take_le [OF this] L assms show "fail ! (m - 1) < m"
    by (auto simp: longest_match_def)
  have "suffix (tl (take m p)) (take m p)" by (metis suffix_tl)
  with s show "suffix (take (fail ! (m - 1)) p) (take m p)" using suffix_order.trans by blast
qed

lemma fail_ok_mono: "fail_ok p fail m \<Longrightarrow> k \<le> m \<Longrightarrow> fail_ok p fail k"
  by (auto simp: fail_ok_def)

text \<open>No match of \<open>s\<close> lies strictly between the longest border of a match and the match.\<close>

lemma no_match_between:
  assumes "fail_ok p fail m" and "0 < m" and "m \<le> length p" and m: "suffix (take m p) s"
    and c: "suffix (take c p) s" and "fail ! (m - 1) < c"
  shows "m \<le> c"
proof (rule ccontr)
  assume "\<not> m \<le> c"
  then have "suffix (take c p) (take m p)" using suffix_of_longer [OF c m] assms(3) by simp
  then obtain zs where z: "take m p = zs @ take c p" by (auto simp: suffix_def)
  have "length zs = m - c" using arg_cong [OF z, of length] assms(3) \<open>\<not> m \<le> c\<close> by simp
  then obtain z zs' where zs: "zs = z # zs'" using \<open>\<not> m \<le> c\<close> by (cases zs) auto
  have "tl (take m p) = zs' @ take c p" by (simp add: z zs)
  then have "suffix (take c p) (tl (take m p))" by (simp add: suffix_def)
  moreover have "longest_match p (tl (take m p)) (fail ! (m - 1))" using assms(1-3) by (simp add: fail_ok_def)
  moreover have "c \<le> length p" using assms(3) \<open>\<not> m \<le> c\<close> by simp
  ultimately have "c \<le> fail ! (m - 1)" unfolding longest_match_def by blast
  with assms(6) show False by simp
qed

text \<open>Falling back ends, at the longest match of \<open>s\<close> that \<open>b\<close> extends, or at zero.\<close>

lemma fall_back_spec:
  assumes "fail_ok p fail m" and "m < length p" and "suffix (take m p) s"
  shows "\<exists>k. fall_back (p @ z) fail b m = Some k \<and> k \<le> m \<and> suffix (take k p) s \<and> (0 < k \<longrightarrow> p ! k = b) \<and>
    (\<forall>c. k < c \<and> c \<le> m \<and> suffix (take c p) s \<longrightarrow> p ! c \<noteq> b)"
  using assms
proof (induction m rule: less_induct)
  case (less m)
  show ?case
  proof (cases "0 < m \<and> b \<noteq> p ! m")
    case True
    let ?f = "fail ! (m - 1)"
    have f: "?f < m" "suffix (take ?f p) (take m p)" using fail_shorter less.prems True by auto
    then have "suffix (take ?f p) s" using less.prems(3) suffix_order.trans by blast
    from less.IH [OF f(1) fail_ok_mono [OF less.prems(1)] _ this] f(1) less.prems(2) obtain k where
      k: "fall_back (p @ z) fail b ?f = Some k" "k \<le> ?f" "suffix (take k p) s" "0 < k \<longrightarrow> p ! k = b"
      "\<forall>c. k < c \<and> c \<le> ?f \<and> suffix (take c p) s \<longrightarrow> p ! c \<noteq> b" by auto
    have "p ! c \<noteq> b" if "k < c" "c \<le> m" "suffix (take c p) s" for c
      using no_match_between [OF less.prems(1) _ _ less.prems(3) that(3)] k(5) that True less.prems(2)
      by (metis le_antisym less_imp_le_nat not_le_imp_less)
    then show ?thesis using True k f(1) less.prems(2) by (subst fall_back.simps) (auto simp: nth_append)
  next
    case False
    then show ?thesis using less.prems by (subst fall_back.simps) (auto simp: nth_append)
  qed
qed

lemma suffix_take_snoc:
  assumes "c \<le> length p" and "suffix (take c p) (s @ [b])" and "0 < c"
  shows "suffix (take (c - 1) p) s \<and> p ! (c - 1) = b"
proof -
  obtain i where c: "c = Suc i" using assms(3) by (cases c) auto
  with assms show ?thesis by (simp add: take_Suc_conv_app_nth)
qed

lemma suffix_take_Suc: "k < length p \<Longrightarrow> suffix (take k p) s \<Longrightarrow> p ! k = b \<Longrightarrow> suffix (take (Suc k) p) (s @ [b])"
  by (simp add: take_Suc_conv_app_nth)

text \<open>One byte: the longest match after it.\<close>

lemma fall_back_longest:
  assumes "fail_ok p fail m" and "m < length p" and L: "longest_match p s m"
  obtains k where "fall_back (p @ z) fail b m = Some k" "k \<le> m" "suffix (take k p) s"
    "longest_match p (s @ [b]) (if b = p ! k then k + 1 else k)" "b \<noteq> p ! k \<Longrightarrow> k = 0"
proof -
  from L have s: "suffix (take m p) s" by (simp add: longest_match_def)
  from fall_back_spec [OF assms(1,2) s] obtain k where
    k: "fall_back (p @ z) fail b m = Some k" "k \<le> m" "suffix (take k p) s" "0 < k \<longrightarrow> p ! k = b"
    "\<forall>c. k < c \<and> c \<le> m \<and> suffix (take c p) s \<longrightarrow> p ! c \<noteq> b" by blast
  have kp: "k < length p" using k(2) assms(2) by simp
  have mx: "c \<le> (if b = p ! k then k + 1 else k)" if "c \<le> length p" "suffix (take c p) (s @ [b])" for c
  proof (cases "c = 0")
    case False
    with suffix_take_snoc [OF that] have c: "suffix (take (c - 1) p) s" "p ! (c - 1) = b" by auto
    then have "c - 1 \<le> m" using L that(1) by (auto simp: longest_match_def)
    with c k(5) have "c - 1 \<le> k" using not_le_imp_less by blast
    with k(4) c(2) show ?thesis by (cases "c - 1 = k") auto
  qed simp
  have z: "b \<noteq> p ! k \<Longrightarrow> k = 0" using k(4) by auto
  have "longest_match p (s @ [b]) (if b = p ! k then k + 1 else k)"
    using mx kp suffix_take_Suc [OF kp k(3), of b] z by (auto simp: longest_match_def)
  with that [OF k(1-3)] z show ?thesis by blast
qed


section \<open>The failure table\<close>

lemma clamp_u8_small [simp]: "k \<le> 255 \<Longrightarrow> clamp_u8 k = k"
  by (simp add: clamp_u8_def)

lemma fail_ok_update: "n \<le> i \<Longrightarrow> fail_ok p (fail[i := v]) n \<longleftrightarrow> fail_ok p fail n"
  unfolding fail_ok_def by (intro all_cong imp_cong arg_cong3 [where f = longest_match]) auto

lemma fail_ok_Suc:
  assumes "fail_ok p fail i" and "longest_match p (tl (take (Suc i) p)) k" and "i < length fail"
  shows "fail_ok p (fail[i := k]) (Suc i)"
  unfolding fail_ok_def
proof (intro allI impI)
  fix j assume j: "0 < j \<and> j \<le> Suc i"
  show "longest_match p (tl (take j p)) (fail[i := k] ! (j - 1))"
  proof (cases "j = Suc i")
    case False
    with j assms(1) show ?thesis by (auto simp: fail_ok_def)
  qed (use assms in auto)
qed

lemma tl_take_snoc: "0 < i \<Longrightarrow> i < length p \<Longrightarrow> tl (take i p) @ [p ! i] = tl (take (Suc i) p)"
  by (cases p) (auto simp: take_Suc_conv_app_nth gr0_conv_Suc)

lemma fail_loop_spec:
  assumes "0 < i" and "i \<le> length p" and "length p \<le> 255" and "length p \<le> length fail"
    and "fail_ok p fail i" and "longest_match p (tl (take i p)) k"
  shows "\<exists>fail'. fail_loop (p @ z) [i..<length p] k fail = Some fail' \<and> fail_ok p fail' (length p)"
  using assms
proof (induction "length p - i" arbitrary: i k fail)
  case 0
  then show ?case by auto
next
  case (Suc n)
  then have i: "i < length p" by simp
  then have upt: "[i..<length p] = i # [Suc i..<length p]" by (simp add: upt_conv_Cons)
  have ki: "k < i"
    using Suc.prems(1,6) i suffix_take_le [of k p "tl (take i p)"] by (auto simp: longest_match_def)
  from fall_back_longest [OF fail_ok_mono [OF Suc.prems(5)] _ Suc.prems(6), where b = "p ! i" and z = z] ki i
  obtain k1 where k1: "fall_back (p @ z) fail (p ! i) k = Some k1" "k1 \<le> k"
    "longest_match p (tl (take i p) @ [p ! i]) (if p ! i = p ! k1 then k1 + 1 else k1)" by auto
  let ?k = "if p ! i = p ! k1 then k1 + 1 else k1"
  have L: "longest_match p (tl (take (Suc i) p)) ?k"
    using k1(3) tl_take_snoc [OF Suc.prems(1) i] by simp
  have small: "?k \<le> 255" using k1(2) ki i Suc.prems(3) by auto
  have "fail_ok p (fail[i := ?k]) (Suc i)"
    using fail_ok_Suc [OF Suc.prems(5) L] i Suc.prems(4) by simp
  moreover have "n = length p - Suc i" using Suc.hyps(2) by simp
  ultimately obtain fail' where "fail_loop (p @ z) [Suc i..<length p] ?k (fail[i := ?k]) = Some fail'" "fail_ok p fail' (length p)"
    using Suc.hyps(1) [of "Suc i" "fail[i := ?k]" ?k] Suc.prems i L by auto
  with small k1(1,2) ki i show ?case by (auto simp: upt Let_def nth_append)
qed

text \<open>What \<open>Delimiter::new\<close> builds for a delimiter of \<open>p\<close>, and what \<open>step\<close> keeps.\<close>

definition delim_ok :: "bytes \<Rightarrow> delimiter \<Rightarrow> bool" where
  "delim_ok p d \<longleftrightarrow> p \<noteq> [] \<and> (\<exists>z. dl_pattern d = p @ z) \<and> dl_len d = length p \<and>
     fail_ok p (dl_fail d) (length p) \<and> dl_matched d < length p"

lemma delimiter_new_ok:
  assumes "length pre + length boundary \<le> MAX_DELIMITER_LEN" and "pre \<noteq> []"
  shows "\<exists>d. delimiter_new pre boundary = Some d \<and> delim_ok (pre @ boundary) d \<and> dl_matched d = 0"
proof -
  let ?p = "pre @ boundary"
  have one: "longest_match ?p (tl (take 1 ?p)) 0"
    using assms(2) by (cases pre) (auto simp: longest_match_def)
  then have "fail_ok ?p (replicate MAX_DELIMITER_LEN 0) 1"
    using assms by (auto simp: fail_ok_def MAX_DELIMITER_LEN_def le_Suc_eq nth_replicate)
  with fail_loop_spec [of 1 ?p "replicate MAX_DELIMITER_LEN 0" 0 "replicate (MAX_DELIMITER_LEN - length ?p) (CHR 0x00)"]
    one assms obtain fail' where
    "fail_loop (?p @ replicate (MAX_DELIMITER_LEN - length ?p) (CHR 0x00)) [1..<length ?p] 0
       (replicate MAX_DELIMITER_LEN 0) = Some fail'" "fail_ok ?p fail' (length ?p)"
    by (cases pre) (auto simp: MAX_DELIMITER_LEN_def MAX_BOUNDARY_LEN_def)
  with assms show ?thesis by (auto simp: delimiter_new_def delim_ok_def Let_def)
qed

section \<open>The search\<close>

lemma split_take:
  assumes "a @ take k p = take m p" and "k \<le> m" and "m \<le> length p"
  shows "a = take (m - k) p"
proof -
  have "length (a @ take k p) = m" using assms(1,3) by simp
  then have "length a = m - k" using assms(2,3) by simp
  then have "a = take (m - k) (a @ take k p)" by simp
  also have "\<dots> = take (m - k) p" by (simp add: assms(1) min_def)
  finally show ?thesis .
qed

lemma delimiter_step_falls:
  assumes "dl_pattern d = p @ z" and "fail_ok p (dl_fail d) (length p)" and "dl_len d = length p"
    and "m < length p" and "fall_back (p @ z) (dl_fail d) b m = Some k" and "k \<le> m" and "b \<noteq> p ! k \<longrightarrow> k = 0"
  shows "take (m - k) p @ take k p = take m p \<and>
    delimiter_step b content (d\<lparr>dl_matched := m\<rparr>) =
      Some (if b = p ! k then (if k + 1 = length p then (True, content @ take (m - k) p, d\<lparr>dl_matched := 0\<rparr>)
                               else (False, content @ take (m - k) p, d\<lparr>dl_matched := k + 1\<rparr>))
            else (False, content @ take (m - k) p @ [b], d\<lparr>dl_matched := 0\<rparr>))"
  using assms(4-7)
proof (induction m arbitrary: content rule: less_induct)
  case (less m)
  show ?case
  proof (cases "0 < m \<and> b \<noteq> p ! m")
    case False
    then have "k = m" using less.prems(1,2) by (subst (asm) fall_back.simps) (auto simp: nth_append)
    with False less.prems assms(1-3) show ?thesis
      by (subst delimiter_step.simps) (auto simp: nth_append)
  next
    case True
    let ?f = "dl_fail d ! (m - 1)"
    have f: "?f < m" "suffix (take ?f p) (take m p)"
      using fail_shorter [OF fail_ok_mono [OF assms(2)]] True less.prems(1) by auto
    have fb: "fall_back (p @ z) (dl_fail d) b ?f = Some k"
      using less.prems(1,2) True by (subst (asm) fall_back.simps) (auto simp: nth_append)
    have kf: "k \<le> ?f"
      using fall_back_spec [OF fail_ok_mono [OF assms(2)] _ suffix_order.refl, where m = ?f and b = b and z = z] f(1) less.prems(1) fb by auto
    have t: "take (m - ?f) p @ take ?f p = take m p"
    proof -
      from f(2) obtain zs where zs: "zs @ take ?f p = take m p" by (metis suffix_def)
      from split_take [OF this] f(1) less.prems(1) zs show ?thesis by simp
    qed
    have fl: "?f < length p" using f(1) less.prems(1) by simp
    note IH = less.IH [OF f(1) fl fb kf less.prems(4), of "content @ take (m - ?f) p"]
    have e: "delimiter_step b content (d\<lparr>dl_matched := m\<rparr>) =
        delimiter_step b (content @ take (m - ?f) p) (d\<lparr>dl_matched := ?f\<rparr>)"
      using True assms(1) less.prems(1) by (subst delimiter_step.simps) (auto simp: nth_append Let_def)
    have all: "(take (m - ?f) p @ take (?f - k) p) @ take k p = take m p"
      using conjunct1 [OF IH] t by simp
    then have rel: "take (m - ?f) p @ take (?f - k) p = take (m - k) p"
      using split_take [OF all] f(1) kf less.prems(1) by simp
    then have rel2: "take (m - ?f) p @ take (?f - k) p @ [b] = take (m - k) p @ [b]" by (metis append_assoc)
    show ?thesis
    proof
      show "take (m - k) p @ take k p = take m p" using all by (simp only: rel)
    qed (use e conjunct2 [OF IH] in \<open>simp only: append_assoc rel rel2\<close>)
  qed
qed

text \<open>
  The state of a search: the input since its start is the content released and then the
  bytes matched, and no more of it can begin the delimiter.
\<close>

definition searching :: "bytes \<Rightarrow> bytes \<Rightarrow> bytes \<Rightarrow> delimiter \<Rightarrow> bool" where
  "searching p s content d \<longleftrightarrow>
     delim_ok p d \<and> s = content @ take (dl_matched d) p \<and> longest_match p s (dl_matched d)"

lemma searching_start:
  assumes "delim_ok p d" and "dl_matched d = 0"
  shows "searching p [] [] d"
  using assms by (auto simp: searching_def longest_match_def)

lemma delimiter_step_spec:
  assumes "searching p s content d"
  shows "if suffix p (s @ [b])
    then \<exists>rel. (\<forall>acc. delimiter_step b acc d = Some (True, acc @ rel, d\<lparr>dl_matched := 0\<rparr>)) \<and> s @ [b] = content @ rel @ p
    else \<exists>rel m. (\<forall>acc. delimiter_step b acc d = Some (False, acc @ rel, d\<lparr>dl_matched := m\<rparr>)) \<and>
           searching p (s @ [b]) (content @ rel) (d\<lparr>dl_matched := m\<rparr>)"
proof -
  let ?m = "dl_matched d"
  from assms obtain z where d: "dl_pattern d = p @ z" "fail_ok p (dl_fail d) (length p)" "dl_len d = length p"
    "?m < length p" "p \<noteq> []" "longest_match p s ?m" "s = content @ take ?m p"
    by (auto simp: searching_def delim_ok_def)
  from fall_back_longest [OF fail_ok_mono [OF d(2)] d(4) d(6), of z b] d(4) obtain k where
    k: "fall_back (p @ z) (dl_fail d) b ?m = Some k" "k \<le> ?m" "suffix (take k p) s"
    "longest_match p (s @ [b]) (if b = p ! k then k + 1 else k)" "b \<noteq> p ! k \<Longrightarrow> k = 0" by auto
  obtain rel where
    rel: "rel @ take k p = take ?m p" "\<And>acc. delimiter_step b acc d =
      Some (if b = p ! k then (if k + 1 = length p then (True, acc @ rel, d\<lparr>dl_matched := 0\<rparr>)
                               else (False, acc @ rel, d\<lparr>dl_matched := k + 1\<rparr>))
            else (False, acc @ rel @ [b], d\<lparr>dl_matched := 0\<rparr>))"
    using delimiter_step_falls [OF d(1-4) k(1,2) impI [OF k(5)]] by fastforce
  have full: "suffix p (s @ [b]) \<longleftrightarrow> (if b = p ! k then k + 1 else k) = length p"
  proof
    assume "suffix p (s @ [b])"
    then have "length p \<le> (if b = p ! k then k + 1 else k)" using k(4) by (auto simp: longest_match_def)
    with k(4) show "(if b = p ! k then k + 1 else k) = length p" by (auto simp: longest_match_def)
  qed (use k(4) in \<open>auto simp: longest_match_def\<close>)
  have s: "s @ [b] = content @ rel @ take k p @ [b]" using d(7) rel(1) by simp
  have kp: "k < length p" using k(2) d(4) by simp
  show ?thesis
  proof (cases "b = p ! k")
    case True
    then have "take k p @ [b] = take (k + 1) p" using kp by (simp add: take_Suc_conv_app_nth)
    with s True full rel(2) k(4) kp d show ?thesis
      by (auto simp: searching_def delim_ok_def split: if_splits)
  next
    case False
    with s k(5) full rel(2) k(4) kp d show ?thesis
      by (auto simp: searching_def delim_ok_def)
  qed
qed

text \<open>Feeding a delimiter until it is complete, the bytes that follow left over.\<close>

fun delimiter_feed :: "bytes \<Rightarrow> bytes \<Rightarrow> delimiter \<Rightarrow> (bytes option \<times> bytes \<times> delimiter) option" where
  "delimiter_feed [] content d = Some (None, content, d)"
| "delimiter_feed (b # bs) content d =
     (case delimiter_step b content d of
        None \<Rightarrow> None
      | Some (True, content, d) \<Rightarrow> Some (Some bs, content, d)
      | Some (False, content, d) \<Rightarrow> delimiter_feed bs content d)"

text \<open>The first occurrence of \<open>p\<close>, as the point where the input first ends with \<open>p\<close>.\<close>

lemma find_bytes_first_end:
  assumes "p \<noteq> []" and "suffix p (s @ [b])" and "\<And>t. prefix t s \<Longrightarrow> \<not> suffix p t"
  shows "find_bytes (s @ b # bs) p = Some (length s + 1 - length p)"
proof -
  obtain c where c: "s @ [b] = c @ p" using assms(2) by (auto simp: suffix_def)
  have "length (s @ [b]) = length (c @ p)" by (simp only: c)
  then have ls: "length s + 1 = length c + length p" by simp
  then have len: "length c = length s + 1 - length p" by simp
  have "prefix p (drop (length c) (s @ b # bs))"
    using c by (metis append_Cons append_Nil append_assoc append_eq_conv_conj prefixI)
  moreover have "\<not> prefix p (drop j (s @ b # bs))" if "j < length c" for j
  proof
    assume "prefix p (drop j (s @ b # bs))"
    then obtain q where q: "drop j (s @ b # bs) = p @ q" by (auto simp: prefix_def)
    have js: "j + length p \<le> length s" using that ls by simp
    have "take (length p) (drop j (s @ b # bs)) = p" using q by simp
    then have "take (j + length p) s = take j s @ p"
      using js by (simp add: take_add)
    then have "suffix p (take (j + length p) s)" by (simp add: suffix_def)
    with assms(3) [OF take_is_prefix] show False by blast
  qed
  ultimately show ?thesis using find_bytes_eqI [OF assms(1)] len by metis
qed

lemma delimiter_feed_spec:
  assumes "searching p s content d" and "\<And>t. prefix t s \<Longrightarrow> \<not> suffix p t"
  shows "case find_bytes (s @ bs) p of
      Some i \<Rightarrow> delimiter_feed bs content d =
          Some (Some (drop (i + length p) (s @ bs)), take i (s @ bs), d\<lparr>dl_matched := 0\<rparr>)
    | None \<Rightarrow> \<exists>c m. delimiter_feed bs content d = Some (None, c, d\<lparr>dl_matched := m\<rparr>) \<and>
          searching p (s @ bs) c (d\<lparr>dl_matched := m\<rparr>)"
  using assms
proof (induction bs arbitrary: s content d)
  case Nil
  have "p \<noteq> []" using Nil(1) by (simp add: searching_def delim_ok_def)
  have "find_bytes s p = None"
  proof (cases "find_bytes s p")
    case (Some i)
    from find_bytes_SomeD [OF \<open>p \<noteq> []\<close> this] have "s = (take i s @ p) @ drop (i + length p) s" by simp
    then have "prefix (take i s @ p) s" by (metis prefixI)
    with Nil(2) [of "take i s @ p"] show ?thesis by (auto simp: suffix_def)
  qed
  with Nil show ?case by (auto intro: exI [of _ "dl_matched d"])
next
  case (Cons b bs)
  have "p \<noteq> []" using Cons.prems(1) by (simp add: searching_def delim_ok_def)
  note st = delimiter_step_spec [OF Cons.prems(1), of b]
  show ?case
  proof (cases "suffix p (s @ [b])")
    case True
    with st obtain rel where d': "delimiter_step b content d = Some (True, content @ rel, d\<lparr>dl_matched := 0\<rparr>)"
      "s @ [b] = content @ rel @ p" by (metis (no_types))
    have f: "find_bytes (s @ b # bs) p = Some (length s + 1 - length p)"
      by (rule find_bytes_first_end [OF \<open>p \<noteq> []\<close> True Cons.prems(2)])
    have "length (s @ [b]) = length (content @ rel @ p)" by (simp only: d'(2))
    then have l: "length s + 1 - length p = length (content @ rel)" by simp
    have e: "s @ b # bs = (content @ rel) @ p @ bs" using d'(2) by (metis append.assoc append_Cons append_Nil)
    have "find_bytes ((content @ rel) @ p @ bs) p = Some (length (content @ rel))" using f unfolding l e .
    then show ?thesis unfolding e using d'(1) by simp
  next
    case False
    with st obtain rel m where d': "delimiter_step b content d = Some (False, content @ rel, d\<lparr>dl_matched := m\<rparr>)"
      "searching p (s @ [b]) (content @ rel) (d\<lparr>dl_matched := m\<rparr>)" by (metis (no_types))
    have np: "\<not> suffix p t" if "prefix t (s @ [b])" for t
      using that False Cons.prems(2) by (auto simp: prefix_snoc)
    from Cons.IH [OF d'(2) np] d'(1) show ?thesis by (cases "find_bytes (s @ b # bs) p") auto
  qed
qed

text \<open>
  C23. The byte-wise delimiter search is equivalent to looking for the delimiter: fed any
  input, the search always ends, completes exactly at the first occurrence of the delimiter,
  has then released exactly the bytes before it and is ready for the next part; without an
  occurrence it never completes, and what it released and what it still holds back is the
  input.
\<close>

theorem delimiter_finds_first:
  assumes "length pre + length boundary \<le> MAX_DELIMITER_LEN" and "pre \<noteq> []"
  shows "\<exists>d. delimiter_new pre boundary = Some d \<and>
    (case find_bytes body (pre @ boundary) of
       Some i \<Rightarrow> delimiter_feed body [] d = Some (Some (drop (i + length (pre @ boundary)) body), take i body, d)
     | None \<Rightarrow> \<exists>content m. delimiter_feed body [] d = Some (None, content, d\<lparr>dl_matched := m\<rparr>) \<and>
         body = content @ take m (pre @ boundary) \<and> m < length (pre @ boundary))"
proof -
  from delimiter_new_ok [OF assms] obtain d where
    d: "delimiter_new pre boundary = Some d" "delim_ok (pre @ boundary) d" "dl_matched d = 0" by blast
  have "\<not> suffix (pre @ boundary) t" if "prefix t []" for t using that assms(2) by auto
  from delimiter_feed_spec [OF searching_start [OF d(2,3)] this, of body] d(1,3) show ?thesis
    by (auto simp: searching_def delim_ok_def split: option.splits)
qed

text \<open>A delimiter that overlaps itself, after a near miss.\<close>

theorem delimiter_finds_first_witness:
  "(\<exists>d. delimiter_new ''--'' ''-a'' = Some d \<and> delimiter_feed ''x----ay'' [] d = Some (Some ''y'', ''x-'', d)) \<and>
   find_bytes ''x----ay'' ''---a'' = Some 2"
proof -
  have f: "find_bytes ''x----ay'' (''--'' @ ''-a'') = Some 2" by code_simp
  have "length ''--'' + length ''-a'' \<le> MAX_DELIMITER_LEN" by code_simp
  from delimiter_finds_first [OF this, of "''x----ay''"] show ?thesis using f by simp
qed

end
