(* ===== verification/Local_Values.thy ===== *)
theory Local_Values
  imports Bytes
begin

text \<open>
  The value scan of \<open>crates/tgin-botapi/src/gateway/local_files.rs\<close>: \<open>Values\<close> watches the
  decoded bytes of a parameter for the prefix \<open>file:\<close> and follows JSON carried in it, string
  by string, at most \<open>MAX_DEPTH\<close> values deep. The arrays of the source are lists of
  \<open>MAX_DEPTH\<close> elements; an index out of bounds, where Rust panics, is the result \<open>None\<close>.

  The reference is \<open>dangerous\<close>, defined on a whole decoded value with a recursive reader of
  JSON strings (\<open>json_strings\<close>). The lemmas show that the scan never panics and finds a value
  exactly when the reference calls it dangerous.
\<close>

section \<open>Bytes and their decoding\<close>

definition LOCAL_PREFIX :: bytes where
  "LOCAL_PREFIX = ''file:''"

definition MAX_DEPTH :: nat where
  "MAX_DEPTH = 4"

definition hex :: "byte \<Rightarrow> nat option" where
  "hex b =
     (let n = (of_char b :: nat) in
      if 48 \<le> n \<and> n \<le> 57 then Some (n - 48)
      else if 65 \<le> n \<and> n \<le> 70 then Some (n - 55)
      else if 97 \<le> n \<and> n \<le> 102 then Some (n - 87)
      else None)"

definition unescape :: "byte \<Rightarrow> byte" where
  "unescape b =
     (if b = CHR ''b'' then CHR 0x08
      else if b = CHR ''f'' then CHR 0x0C
      else if b = CHR ''n'' then CHR 0x0A
      else if b = CHR ''r'' then CHR 0x0D
      else if b = CHR ''t'' then CHR 0x09
      else b)"

text \<open>td's \<open>is_space\<close>.\<close>

definition is_space :: "byte \<Rightarrow> bool" where
  "is_space b \<longleftrightarrow> b \<in> {CHR '' '', CHR 0x09, CHR 0x0D, CHR 0x0A, CHR 0x00, CHR 0x0B}"

text \<open>The byte a \<open>\u\<close> escape stands for: ASCII as it is, any other character one byte \<open>0x80\<close>.\<close>

definition unicode_byte :: "nat \<Rightarrow> byte" where
  "unicode_byte code = (if code < 128 then char_of code else CHR 0x80)"

section \<open>The scan\<close>

datatype shape = Leading | ShapeJson | Plain

record local_value =
  vl_matched :: nat
  vl_shape :: shape

datatype json = Outside | JText | Escape | Unicode nat nat

record local_values =
  vs_value :: "local_value list"
  vs_json :: "json list"
  vs_found :: bool

definition value_default :: local_value where
  "value_default = \<lparr>vl_matched = 0, vl_shape = Leading\<rparr>"

definition values_default :: local_values where
  "values_default =
     \<lparr>vs_value = replicate MAX_DEPTH value_default, vs_json = replicate MAX_DEPTH Outside, vs_found = False\<rparr>"

definition values_start :: "nat \<Rightarrow> local_values \<Rightarrow> local_values option" where
  "values_start depth v =
     (if MAX_DEPTH \<le> depth then None
      else Some (v\<lparr>vs_value := (vs_value v)[depth := value_default], vs_json := (vs_json v)[depth := Outside]\<rparr>))"

text \<open>The bytes of \<open>LOCAL_PREFIX\<close> matched after one more byte, and whether that completes it.\<close>

definition prefix_step :: "nat \<Rightarrow> byte \<Rightarrow> nat \<times> bool" where
  "prefix_step matched b =
     (if matched < length LOCAL_PREFIX then
        (if b = LOCAL_PREFIX ! matched then (matched + 1, matched + 1 = length LOCAL_PREFIX) else (255, False))
      else (matched, False))"

text \<open>\<open>text_byte\<close> is the \<open>Json::Text\<close> arm of \<open>json_byte\<close>, which its \<open>Json::Unicode\<close> arm re-enters.\<close>

function values_byte :: "nat \<Rightarrow> byte \<Rightarrow> local_values \<Rightarrow> local_values option"
  and json_byte :: "nat \<Rightarrow> byte \<Rightarrow> local_values \<Rightarrow> local_values option"
  and text_byte :: "nat \<Rightarrow> byte \<Rightarrow> local_values \<Rightarrow> local_values option" where
  "values_byte depth b v =
     (if MAX_DEPTH \<le> depth then None
      else
        (let val = vs_value v ! depth; (m, hit) = prefix_step (vl_matched val) b;
             val = val\<lparr>vl_matched := m\<rparr>;
             v = v\<lparr>vs_value := (vs_value v)[depth := val], vs_found := vs_found v \<or> hit\<rparr>
         in case vl_shape val of
              Plain \<Rightarrow> Some v
            | ShapeJson \<Rightarrow> json_byte depth b v
            | Leading \<Rightarrow>
                if is_space b then Some v
                else if b = CHR ''['' \<or> b = CHR ''{'' then
                  (if depth + 1 < MAX_DEPTH
                   then json_byte depth b (v\<lparr>vs_value := (vs_value v)[depth := val\<lparr>vl_shape := ShapeJson\<rparr>]\<rparr>)
                   else Some (v\<lparr>vs_value := (vs_value v)[depth := val\<lparr>vl_shape := Plain\<rparr>], vs_found := True\<rparr>))
                else Some (v\<lparr>vs_value := (vs_value v)[depth := val\<lparr>vl_shape := Plain\<rparr>]\<rparr>)))"
| "json_byte depth b v =
     (if MAX_DEPTH \<le> depth then None
      else
        (case vs_json v ! depth of
           Outside \<Rightarrow>
             if b = CHR 0x22 then values_start (depth + 1) (v\<lparr>vs_json := (vs_json v)[depth := JText]\<rparr>)
             else Some v
         | JText \<Rightarrow> text_byte depth b v
         | Escape \<Rightarrow>
             if b = CHR ''u'' then Some (v\<lparr>vs_json := (vs_json v)[depth := Unicode 0 0]\<rparr>)
             else values_byte (depth + 1) (unescape b) (v\<lparr>vs_json := (vs_json v)[depth := JText]\<rparr>)
         | Unicode digits code \<Rightarrow>
             (case hex b of
                Some digit \<Rightarrow>
                  (let code = code * 16 + digit in
                   if digits < 3 then Some (v\<lparr>vs_json := (vs_json v)[depth := Unicode (digits + 1) code]\<rparr>)
                   else values_byte (depth + 1) (unicode_byte code) (v\<lparr>vs_json := (vs_json v)[depth := JText]\<rparr>))
              | None \<Rightarrow> text_byte depth b (v\<lparr>vs_json := (vs_json v)[depth := JText]\<rparr>))))"
| "text_byte depth b v =
     (if MAX_DEPTH \<le> depth then None
      else if b = CHR 0x22 then Some (v\<lparr>vs_json := (vs_json v)[depth := Outside]\<rparr>)
      else if b = CHR 0x5C then Some (v\<lparr>vs_json := (vs_json v)[depth := Escape]\<rparr>)
      else values_byte (depth + 1) b v)"
  by pat_completeness auto

termination
  by (relation "measure (\<lambda>x. case x of Inl (d, _) \<Rightarrow> 4 * (MAX_DEPTH - d) + 3
      | Inr (Inl (d, _)) \<Rightarrow> 4 * (MAX_DEPTH - d) + 2 | Inr (Inr (d, _)) \<Rightarrow> 4 * (MAX_DEPTH - d) + 1)")
    (auto simp: MAX_DEPTH_def)

declare values_byte.simps [simp del] json_byte.simps [simp del] text_byte.simps [simp del]

section \<open>The reference\<close>

text \<open>
  The strings of a JSON text, decoded. \<open>read_string\<close> reads one after its opening quote, up to
  its closing quote or the end, and gives the rest; a \<open>\u\<close> with less than four hex digits
  drops the digits it has.
\<close>

function read_string :: "bytes \<Rightarrow> bytes \<times> bytes" where
  "read_string [] = ([], [])"
| "read_string (c # cs) =
     (if c = CHR 0x22 then ([], cs)
      else if c = CHR 0x5C then
        (case cs of
           [] \<Rightarrow> ([], [])
         | e # es \<Rightarrow>
             if e = CHR ''u'' then
               (let ds = takeWhile (\<lambda>b. hex b \<noteq> None) (take 4 es)
                in if length ds = 4
                   then apfst (Cons (unicode_byte (fold (\<lambda>b n. n * 16 + the (hex b)) ds 0))) (read_string (drop 4 es))
                   else read_string (drop (length ds) es))
             else apfst (Cons (unescape e)) (read_string es))
      else apfst (Cons c) (read_string cs))"
  by pat_completeness auto
termination
  by (relation "measure length") auto

lemma read_string_length: "length (snd (read_string w)) \<le> length w"
proof (induction w rule: read_string.induct)
  case (2 c cs)
  show ?case
  proof (cases "c = CHR 0x5C")
    case False
    with 2(4) show ?thesis by (auto simp: le_SucI)
  next
    case c: True
    show ?thesis
    proof (cases cs)
      case (Cons e es)
      let ?ds = "takeWhile (\<lambda>b. hex b \<noteq> None) (take 4 es)"
      have len: "length ?ds \<le> length es" by (metis length_take length_takeWhile_le min.bounded_iff)
      show ?thesis
      proof (cases "e = CHR ''u''")
        case True
        show ?thesis
        proof (cases "length ?ds = 4")
          case four: True
          from 2(1) [OF _ c Cons True refl four] c have "length (snd (read_string (drop 4 es))) \<le> length es - 4" by simp
          with c Cons True four show ?thesis by (simp add: Let_def)
        next
          case less: False
          from 2(2) [OF _ c Cons True refl less] c len
          have "length (snd (read_string (drop (length ?ds) es))) \<le> length es" by simp
          with c Cons True less show ?thesis by (simp add: Let_def)
        qed
      next
        case False
        with 2(3) [OF _ c Cons False] c Cons show ?thesis by simp
      qed
    qed (simp add: c)
  qed
qed simp

function json_strings :: "bytes \<Rightarrow> bytes list" where
  "json_strings [] = []"
| "json_strings (c # cs) =
     (if c = CHR 0x22 then fst (read_string cs) # json_strings (snd (read_string cs)) else json_strings cs)"
  by pat_completeness auto
termination
  by (relation "measure length") (auto simp: le_imp_less_Suc read_string_length)

text \<open>
  A decoded value that \<open>levels\<close> levels may still be followed from: it begins with \<open>file:\<close>, or
  it is a JSON text (it begins with a bracket after spaces) that is too deep to follow or has
  a dangerous string.
\<close>

primrec dangerous :: "nat \<Rightarrow> bytes \<Rightarrow> bool" where
  "dangerous 0 v = False"
| "dangerous (Suc n) v =
     (take (length LOCAL_PREFIX) v = LOCAL_PREFIX \<or>
      (case dropWhile is_space v of
         [] \<Rightarrow> False
       | c # _ \<Rightarrow>
           (c = CHR ''['' \<or> c = CHR ''{'') \<and>
           (n = 0 \<or> list_ex (dangerous n) (json_strings (dropWhile is_space v)))))"

section \<open>The scan over levels\<close>

text \<open>
  The same machine as one function on the list of the levels from a depth on, which returns
  whether it found something: what is above a level plays no part in it.
\<close>

type_synonym level = "local_value \<times> json"

datatype event = Start | Char byte

definition text_step :: "byte \<Rightarrow> json \<times> event option" where
  "text_step b =
     (if b = CHR 0x22 then (Outside, None)
      else if b = CHR 0x5C then (Escape, None)
      else (JText, Some (Char b)))"

fun json_step :: "json \<Rightarrow> byte \<Rightarrow> json \<times> event option" where
  "json_step Outside b = (if b = CHR 0x22 then (JText, Some Start) else (Outside, None))"
| "json_step JText b = text_step b"
| "json_step Escape b = (if b = CHR ''u'' then (Unicode 0 0, None) else (JText, Some (Char (unescape b))))"
| "json_step (Unicode n c) b =
     (case hex b of
        Some x \<Rightarrow> if n < 3 then (Unicode (n + 1) (c * 16 + x), None) else (JText, Some (Char (unicode_byte (c * 16 + x))))
      | None \<Rightarrow> text_step b)"

definition level_start :: "level list \<Rightarrow> level list" where
  "level_start ls = (case ls of [] \<Rightarrow> [] | _ # ls \<Rightarrow> (value_default, Outside) # ls)"

primrec level_byte :: "level list \<Rightarrow> byte \<Rightarrow> bool \<times> level list" where
  "level_byte [] b = (False, [])"
| "level_byte (l # ls) b =
     (let (v, q) = l; (m, hit) = prefix_step (vl_matched v) b;
          follow = (case json_step q b of (q', e) \<Rightarrow>
            (case (case e of None \<Rightarrow> (False, ls) | Some Start \<Rightarrow> (False, level_start ls) | Some (Char c) \<Rightarrow> level_byte ls c) of
               (h, ls') \<Rightarrow> (hit \<or> h, (\<lparr>vl_matched = m, vl_shape = ShapeJson\<rparr>, q') # ls')))
      in case vl_shape v of
           Plain \<Rightarrow> (hit, (\<lparr>vl_matched = m, vl_shape = Plain\<rparr>, q) # ls)
         | ShapeJson \<Rightarrow> follow
         | Leading \<Rightarrow>
             if is_space b then (hit, (\<lparr>vl_matched = m, vl_shape = Leading\<rparr>, q) # ls)
             else if b = CHR ''['' \<or> b = CHR ''{'' then
               (if ls \<noteq> [] then follow else (True, (\<lparr>vl_matched = m, vl_shape = Plain\<rparr>, q) # ls))
             else (hit, (\<lparr>vl_matched = m, vl_shape = Plain\<rparr>, q) # ls))"

definition level_event :: "level list \<Rightarrow> event option \<Rightarrow> bool \<times> level list" where
  "level_event ls e =
     (case e of None \<Rightarrow> (False, ls) | Some Start \<Rightarrow> (False, level_start ls) | Some (Char c) \<Rightarrow> level_byte ls c)"

lemma level_byte_Cons:
  "level_byte ((v, q) # ls) b =
     (let (m, hit) = prefix_step (vl_matched v) b;
          follow = (case json_step q b of (q', e) \<Rightarrow>
            (case level_event ls e of
               (h, ls') \<Rightarrow> (hit \<or> h, (\<lparr>vl_matched = m, vl_shape = ShapeJson\<rparr>, q') # ls')))
      in case vl_shape v of
           Plain \<Rightarrow> (hit, (\<lparr>vl_matched = m, vl_shape = Plain\<rparr>, q) # ls)
         | ShapeJson \<Rightarrow> follow
         | Leading \<Rightarrow>
             if is_space b then (hit, (\<lparr>vl_matched = m, vl_shape = Leading\<rparr>, q) # ls)
             else if b = CHR ''['' \<or> b = CHR ''{'' then
               (if ls \<noteq> [] then follow else (True, (\<lparr>vl_matched = m, vl_shape = Plain\<rparr>, q) # ls))
             else (hit, (\<lparr>vl_matched = m, vl_shape = Plain\<rparr>, q) # ls))"
  by (simp add: level_event_def Let_def)

declare level_byte.simps(2) [simp del]

lemma level_start_length [simp]: "length (level_start ls) = length ls"
  by (cases ls) (auto simp: level_start_def)

lemma level_byte_length [simp]: "length (snd (level_byte ls b)) = length ls"
proof (induction ls arbitrary: b)
  case (Cons l ls)
  obtain v q where l: "l = (v, q)" by (cases l)
  obtain m hit where p: "prefix_step (vl_matched v) b = (m, hit)" by (cases "prefix_step (vl_matched v) b")
  obtain q' e where j: "json_step q b = (q', e)" by (cases "json_step q b")
  obtain h ls' where e: "level_event ls e = (h, ls')" by (cases "level_event ls e")
  have "length (snd (level_event ls e)) = length ls"
    by (simp add: level_event_def Cons.IH split: option.split event.split)
  with e have "length ls' = length ls" by simp
  then show ?case by (simp add: l level_byte_Cons p j e Let_def split: shape.split)
qed simp

lemma level_event_length [simp]: "length (snd (level_event ls e)) = length ls"
  by (simp add: level_event_def split: option.split event.split)


section \<open>The scan finds what is dangerous\<close>

text \<open>Runs of bytes and of events, and the events of a JSON text.\<close>

fun level_run :: "bytes \<Rightarrow> level list \<Rightarrow> bool \<times> level list" where
  "level_run [] ls = (False, ls)"
| "level_run (b # bs) ls =
     (let (h, ls) = level_byte ls b; (h', ls) = level_run bs ls in (h \<or> h', ls))"

fun event_run :: "event list \<Rightarrow> level list \<Rightarrow> bool \<times> level list" where
  "event_run [] ls = (False, ls)"
| "event_run (e # es) ls =
     (let (h, ls) = level_event ls (Some e); (h', ls) = event_run es ls in (h \<or> h', ls))"

fun json_events :: "json \<Rightarrow> bytes \<Rightarrow> event list" where
  "json_events q [] = []"
| "json_events q (b # bs) =
     (case json_step q b of (q, e) \<Rightarrow> (case e of None \<Rightarrow> [] | Some e \<Rightarrow> [e]) @ json_events q bs)"

text \<open>The strings an event list makes: the rest of the current one, and the later ones.\<close>

fun chunks :: "event list \<Rightarrow> bytes \<times> bytes list" where
  "chunks [] = ([], [])"
| "chunks (Start # es) = ([], fst (chunks es) # snd (chunks es))"
| "chunks (Char c # es) = (c # fst (chunks es), snd (chunks es))"

text \<open>What is left of the prefix to match.\<close>

definition rest_matches :: "nat \<Rightarrow> bytes \<Rightarrow> bool" where
  "rest_matches m w \<longleftrightarrow>
     m < length LOCAL_PREFIX \<and> take (length LOCAL_PREFIX - m) w = drop m LOCAL_PREFIX"

lemma rest_matches_Nil [simp]: "\<not> rest_matches m []"
  by (auto simp: rest_matches_def)

lemma rest_matches_Cons:
  "rest_matches m (b # w) \<longleftrightarrow> snd (prefix_step m b) \<or> rest_matches (fst (prefix_step m b)) w"
proof (cases "m < length LOCAL_PREFIX")
  case True
  then have d: "drop m LOCAL_PREFIX = LOCAL_PREFIX ! m # drop (Suc m) LOCAL_PREFIX"
    by (simp add: Cons_nth_drop_Suc)
  from True obtain k where k: "length LOCAL_PREFIX - m = Suc k" "length LOCAL_PREFIX - Suc m = k"
    by (metis Suc_diff_Suc)
  show ?thesis
  proof (cases "Suc m < length LOCAL_PREFIX")
    case True
    with \<open>m < _\<close> show ?thesis by (auto simp: rest_matches_def prefix_step_def d k) (simp add: LOCAL_PREFIX_def)
  next
    case False
    with \<open>m < _\<close> have "Suc m = length LOCAL_PREFIX" by simp
    moreover from this k have "k = 0" by simp
    moreover have "\<not> 255 < length LOCAL_PREFIX" by (simp add: LOCAL_PREFIX_def)
    ultimately show ?thesis using \<open>m < _\<close> by (auto simp: rest_matches_def prefix_step_def d k)
  qed
qed (auto simp: rest_matches_def prefix_step_def)

lemma run_plain:
  "vl_shape v = Plain \<Longrightarrow> fst (level_run w ((v, q) # ls)) \<longleftrightarrow> rest_matches (vl_matched v) w"
proof (induction w arbitrary: v)
  case (Cons b w)
  obtain m hit where p: "prefix_step (vl_matched v) b = (m, hit)" by (cases "prefix_step (vl_matched v) b")
  from Cons.IH [of "\<lparr>vl_matched = m, vl_shape = Plain\<rparr>"] Cons.prems show ?case
    by (auto simp: level_byte_Cons p rest_matches_Cons Let_def split: prod.splits)
qed simp

lemma event_run_append:
  "event_run (es @ fs) ls =
     (let (h, ls) = event_run es ls; (h', ls) = event_run fs ls in (h \<or> h', ls))"
  by (induction es arbitrary: ls) (auto simp: Let_def split: prod.splits)

lemma run_json:
  "vl_shape v = ShapeJson \<Longrightarrow>
     fst (level_run w ((v, q) # ls)) \<longleftrightarrow> rest_matches (vl_matched v) w \<or> fst (event_run (json_events q w) ls)"
proof (induction w arbitrary: v q ls)
  case (Cons b w)
  obtain m hit where p: "prefix_step (vl_matched v) b = (m, hit)" by (cases "prefix_step (vl_matched v) b")
  obtain q' e where j: "json_step q b = (q', e)" by (cases "json_step q b")
  obtain h ls' where e: "level_event ls e = (h, ls')" by (cases "level_event ls e")
  let ?v = "\<lparr>vl_matched = m, vl_shape = ShapeJson\<rparr>"
  have l: "level_byte ((v, q) # ls) b = (hit \<or> h, (?v, q') # ls')"
    using Cons.prems by (simp add: level_byte_Cons p j e Let_def)
  have ev: "event_run (case e of None \<Rightarrow> [] | Some e \<Rightarrow> [e]) ls = (h, ls')"
    using e by (cases e) (auto simp: level_event_def)
  have "fst (event_run (json_events q (b # w)) ls) \<longleftrightarrow> h \<or> fst (event_run (json_events q' w) ls')"
    by (simp add: j event_run_append ev split: prod.splits)
  with Cons.IH [of ?v q' ls'] show ?case
    by (auto simp: l rest_matches_Cons p split: prod.splits)
qed simp

lemma fst_chunks_outside: "fst (chunks (json_events Outside w)) = []"
  by (induction w) auto

text \<open>A \<open>\u\<close> escape: four hex digits stand for a byte, fewer are dropped.\<close>

lemma json_events_unicode:
  assumes "n \<le> 3" and "ds = takeWhile (\<lambda>b. hex b \<noteq> None) (take (4 - n) w)"
  shows "json_events (Unicode n c) w =
    (if length ds = 4 - n
     then Char (unicode_byte (fold (\<lambda>b n. n * 16 + the (hex b)) ds c)) # json_events JText (drop (4 - n) w)
     else json_events JText (drop (length ds) w))"
  using assms
proof (induction w arbitrary: n c ds)
  case (Cons b w)
  from Cons.prems(1) have k: "4 - n = Suc (3 - n)" by simp
  show ?case
  proof (cases "hex b")
    case None
    then show ?thesis using Cons.prems(2) k by simp
  next
    case (Some x)
    show ?thesis
    proof (cases "n < 3")
      case True
      then have "4 - (n + 1) = 3 - n" by simp
      with Cons.IH [of "n + 1" "takeWhile (\<lambda>b. hex b \<noteq> None) (take (3 - n) w)" "c * 16 + x"] True k Some Cons.prems(2)
      show ?thesis by simp
    next
      case False
      with Cons.prems(1) have "n = 3" by simp
      with k Some Cons.prems(2) show ?thesis by simp
    qed
  qed
qed simp

lemma json_events_text:
  "chunks (json_events JText w) = (fst (read_string w), snd (chunks (json_events Outside (snd (read_string w)))))"
proof (induction w rule: read_string.induct)
  case (2 c cs)
  show ?case
  proof (cases "c = CHR 0x5C")
    case False
    with 2(4) show ?thesis
      by (cases "c = CHR 0x22") (auto simp: text_step_def prod_eq_iff fst_chunks_outside)
  next
    case c: True
    show ?thesis
    proof (cases cs)
      case (Cons e es)
      let ?ds = "takeWhile (\<lambda>b. hex b \<noteq> None) (take 4 es)"
      show ?thesis
      proof (cases "e = CHR ''u''")
        case True
        show ?thesis
        proof (cases "length ?ds = 4")
          case four: True
          from 2(1) [OF _ c Cons True refl four] c json_events_unicode [of 0 ?ds es 0] Cons True four show ?thesis
            by (simp add: text_step_def Let_def)
        next
          case less: False
          from 2(2) [OF _ c Cons True refl less] c json_events_unicode [of 0 ?ds es 0] Cons True less show ?thesis
            by (simp add: text_step_def Let_def)
        qed
      next
        case False
        with 2(3) [OF _ c Cons False] c Cons show ?thesis by (simp add: text_step_def)
      qed
    qed (simp add: c text_step_def)
  qed
qed simp

lemma json_events_strings: "chunks (json_events Outside w) = ([], json_strings w)"
proof (induction w rule: json_strings.induct)
  case (2 c cs)
  then show ?case by (cases "c = CHR 0x22") (simp_all add: json_events_text)
qed simp

text \<open>An event run over the levels of a depth, given what a value there amounts to.\<close>

lemma event_run_chunks:
  assumes "\<And>w ls. length ls = n \<Longrightarrow> fst (level_run w (level_start ls)) \<longleftrightarrow> D w" and "length ls = n"
  shows "fst (event_run es ls) \<longleftrightarrow> fst (level_run (fst (chunks es)) ls) \<or> list_ex D (snd (chunks es))"
  using assms(2)
proof (induction es arbitrary: ls rule: chunks.induct)
  case (2 es)
  from "2.IH" [of "level_start ls"] "2.prems" assms(1) [of ls "fst (chunks es)"] show ?case
    by (simp add: level_event_def split: prod.splits)
next
  case (3 c es)
  from "3.IH" [of "snd (level_byte ls c)"] "3.prems" level_byte_length [of ls c] show ?case
    by (cases "level_byte ls c") (auto simp: level_event_def split: prod.splits)
qed simp

definition carries :: "nat \<Rightarrow> bytes \<Rightarrow> bool" where
  "carries n w \<longleftrightarrow>
     w \<noteq> [] \<and> (hd w = CHR ''['' \<or> hd w = CHR ''{'') \<and> (n = 0 \<or> list_ex (dangerous n) (json_strings w))"

lemma dangerous_Suc:
  "dangerous (Suc n) v \<longleftrightarrow> take (length LOCAL_PREFIX) v = LOCAL_PREFIX \<or> carries n (dropWhile is_space v)"
  by (cases "dropWhile is_space v") (auto simp: carries_def simp del: dropWhile_eq_Nil_conv)

lemma run_leading:
  assumes "\<And>w ls. length ls = n \<Longrightarrow> fst (level_run w (level_start ls)) \<longleftrightarrow> dangerous n w" and "length ls = n"
    and "vl_shape v = Leading"
  shows "fst (level_run w ((v, Outside) # ls)) \<longleftrightarrow> rest_matches (vl_matched v) w \<or> carries n (dropWhile is_space w)"
  using assms(3)
proof (induction w arbitrary: v)
  case (Cons b w)
  obtain m hit where p: "prefix_step (vl_matched v) b = (m, hit)" by (cases "prefix_step (vl_matched v) b")
  note run_simps = level_byte_Cons p rest_matches_Cons Let_def Cons.prems
  consider "is_space b" | "\<not> is_space b" "b = CHR ''['' \<or> b = CHR ''{''"
    | "\<not> is_space b" "b \<noteq> CHR ''[''" "b \<noteq> CHR ''{''" by blast
  then show ?case
  proof cases
    case 1
    moreover have "dropWhile is_space (b # w) = dropWhile is_space w" using 1 by simp
    ultimately show ?thesis using Cons.IH [of "\<lparr>vl_matched = m, vl_shape = Leading\<rparr>"]
      by (auto simp: run_simps split: prod.splits)
  next
    case 2
    then have q: "b \<noteq> CHR 0x22" by auto
    show ?thesis
    proof (cases "ls = []")
      case True
      with 2 assms(2) show ?thesis by (auto simp: run_simps carries_def split: prod.splits)
    next
      case False
      have "fst (event_run (json_events Outside w) ls) \<longleftrightarrow> list_ex (dangerous n) (json_strings w)"
        using event_run_chunks [OF assms(1,2)] json_events_strings [of w] by simp
      with run_json [of "\<lparr>vl_matched = m, vl_shape = ShapeJson\<rparr>" w Outside ls] 2 q False assms(2) show ?thesis
        by (auto simp: run_simps level_event_def carries_def split: prod.splits)
    qed
  next
    case 3
    with run_plain [of "\<lparr>vl_matched = m, vl_shape = Plain\<rparr>" w Outside ls] show ?thesis
      by (auto simp: run_simps carries_def split: prod.splits)
  qed
qed (simp add: carries_def)

lemma level_run_dangerous: "length ls = n \<Longrightarrow> fst (level_run w (level_start ls)) \<longleftrightarrow> dangerous n w"
proof (induction n arbitrary: w ls)
  case 0
  then show ?case by (induction w) (auto simp: level_start_def)
next
  case (Suc n)
  then obtain l ls' where "ls = l # ls'" "length ls' = n" by (cases ls) auto
  with run_leading [of n ls' value_default w, OF Suc.IH] show ?case
    by (simp add: level_start_def value_default_def rest_matches_def dangerous_Suc LOCAL_PREFIX_def del: dangerous.simps)
qed

lemma event_run_dangerous:
  "length ls = n \<Longrightarrow>
     fst (event_run es ls) \<longleftrightarrow> fst (level_run (fst (chunks es)) ls) \<or> list_ex (dangerous n) (snd (chunks es))"
  by (rule event_run_chunks [where n = n and D = "dangerous n"]) (simp_all add: level_run_dangerous)

declare dangerous.simps(2) [simp del]

section \<open>The arrays implement the levels\<close>

definition levels :: "local_values \<Rightarrow> nat \<Rightarrow> level list" where
  "levels v d = zip (drop d (vs_value v)) (drop d (vs_json v))"

text \<open>No level past which there is none holds a JSON text.\<close>

definition values_ok :: "local_values \<Rightarrow> bool" where
  "values_ok v \<longleftrightarrow> length (vs_value v) = MAX_DEPTH \<and> length (vs_json v) = MAX_DEPTH \<and>
     vl_shape (vs_value v ! (MAX_DEPTH - 1)) \<noteq> ShapeJson"

text \<open>The state \<open>v'\<close> that \<open>v\<close> becomes when the levels from \<open>d\<close> on become \<open>snd r\<close>.\<close>

definition moved :: "nat \<Rightarrow> local_values \<Rightarrow> bool \<times> level list \<Rightarrow> local_values \<Rightarrow> bool" where
  "moved d v r v' \<longleftrightarrow> values_ok v' \<and> levels v' d = snd r \<and> vs_found v' = (vs_found v \<or> fst r) \<and>
     take d (vs_value v') = take d (vs_value v) \<and> take d (vs_json v') = take d (vs_json v)"

lemma values_ok_default [simp]: "values_ok values_default"
  by (simp add: values_ok_def values_default_def value_default_def MAX_DEPTH_def)

lemma levels_Cons: "values_ok v \<Longrightarrow> d < MAX_DEPTH \<Longrightarrow> levels v d = (vs_value v ! d, vs_json v ! d) # levels v (Suc d)"
  by (simp add: levels_def values_ok_def Cons_nth_drop_Suc [symmetric])

lemma levels_length [simp]: "values_ok v \<Longrightarrow> length (levels v d) = MAX_DEPTH - d"
  by (simp add: levels_def values_ok_def)

lemma moved_step:
  assumes "moved (Suc d) v r v'" and "d < MAX_DEPTH" and "values_ok v"
  shows "levels v' d = (vs_value v ! d, vs_json v ! d) # snd r"
    and "take d (vs_value v') = take d (vs_value v)" and "take d (vs_json v') = take d (vs_json v)"
proof -
  have t: "take (Suc d) (vs_value v') = take (Suc d) (vs_value v)" "take (Suc d) (vs_json v') = take (Suc d) (vs_json v)"
    and ok: "values_ok v'" using assms(1) by (auto simp: moved_def)
  have "vs_value v' ! d = vs_value v ! d" "vs_json v' ! d = vs_json v ! d"
    using arg_cong [OF t(1), of "\<lambda>xs. xs ! d"] arg_cong [OF t(2), of "\<lambda>xs. xs ! d"] by simp_all
  with assms ok show "levels v' d = (vs_value v ! d, vs_json v ! d) # snd r"
    by (simp add: levels_Cons moved_def)
  show "take d (vs_value v') = take d (vs_value v)" "take d (vs_json v') = take d (vs_json v)"
    using arg_cong [OF t(1), of "take d"] arg_cong [OF t(2), of "take d"] by (simp_all add: min_def)
qed

lemma levels_upd_json [simp]: "levels (v\<lparr>vs_json := (vs_json v)[d := q]\<rparr>) (Suc d) = levels v (Suc d)"
  by (simp add: levels_def)

lemma values_ok_upd_json [simp]: "values_ok (v\<lparr>vs_json := js\<rparr>) \<longleftrightarrow> values_ok v" if "length js = length (vs_json v)"
  using that by (simp add: values_ok_def)

lemma moved_json:
  assumes "moved (Suc d) (v\<lparr>vs_json := (vs_json v)[d := q]\<rparr>) r v'" and "d < MAX_DEPTH" and "values_ok v"
  shows "moved d v (fst r, (vs_value v ! d, q) # snd r) v'"
  using moved_step [OF assms(1,2)] assms by (auto simp: moved_def values_ok_def)

lemma moved_refl: "values_ok v \<Longrightarrow> moved d v (False, levels v d) v"
  by (simp add: moved_def)

lemma values_start_moved:
  assumes "values_ok v" and "d < MAX_DEPTH"
  shows "\<exists>v'. values_start d v = Some v' \<and> moved d v (False, level_start (levels v d)) v'"
proof -
  let ?v = "v\<lparr>vs_value := (vs_value v)[d := value_default], vs_json := (vs_json v)[d := Outside]\<rparr>"
  have ok: "values_ok ?v" using assms by (auto simp: values_ok_def nth_list_update value_default_def)
  have "levels ?v d = (value_default, Outside) # levels v (Suc d)"
    using levels_Cons [OF ok assms(2)] assms by (simp add: levels_def values_ok_def)
  with assms ok show ?thesis
    by (simp add: values_start_def moved_def levels_Cons [OF assms] level_start_def)
qed

text \<open>One byte of the JSON text at \<open>d\<close>, given that the scan one level deeper is right.\<close>

definition byte_ok :: "nat \<Rightarrow> bool" where
  "byte_ok d \<longleftrightarrow> (\<forall>c v. values_ok v \<longrightarrow>
     (\<exists>v'. values_byte d c v = Some v' \<and> moved d v (level_byte (levels v d) c) v'))"

lemma deeper_byte:
  assumes "byte_ok (Suc d)" and "d < MAX_DEPTH" and "values_ok v"
  shows "\<exists>v'. values_byte (Suc d) c (v\<lparr>vs_json := (vs_json v)[d := q]\<rparr>) = Some v' \<and>
    moved d v (fst (level_byte (levels v (Suc d)) c), (vs_value v ! d, q) # snd (level_byte (levels v (Suc d)) c)) v'"
proof -
  let ?v = "v\<lparr>vs_json := (vs_json v)[d := q]\<rparr>"
  have "values_ok ?v" using assms(3) by simp
  then obtain v' where "values_byte (Suc d) c ?v = Some v'" "moved (Suc d) ?v (level_byte (levels ?v (Suc d)) c) v'"
    using assms(1) unfolding byte_ok_def by blast
  with moved_json [OF this(2) assms(2,3)] show ?thesis by auto
qed

lemma json_state_moved:
  assumes "d < MAX_DEPTH" and "values_ok v"
  shows "moved d v (False, (vs_value v ! d, q) # levels v (Suc d)) (v\<lparr>vs_json := (vs_json v)[d := q]\<rparr>)"
  using moved_json [OF moved_refl assms] assms(2) by simp

lemma text_byte_moved:
  assumes "byte_ok (Suc d)" and "d < MAX_DEPTH" and "values_ok v"
    and "text_step b = (q, e)" and "level_event (levels v (Suc d)) e = (h, ls)"
  shows "\<exists>v'. text_byte d b (v\<lparr>vs_json := (vs_json v)[d := JText]\<rparr>) = Some v' \<and> moved d v (h, (vs_value v ! d, q) # ls) v'"
proof -
  consider "b = CHR 0x22" | "b = CHR 0x5C" | "b \<noteq> CHR 0x22" "b \<noteq> CHR 0x5C" by blast
  then show ?thesis
  proof cases
    case 3
    with deeper_byte [OF assms(1-3), of b JText] assms(2,4,5) show ?thesis
      by (auto simp: text_byte.simps [of d] text_step_def level_event_def)
  qed (use assms json_state_moved [OF assms(2,3)] in \<open>auto simp: text_byte.simps [of d] text_step_def level_event_def\<close>)
qed

lemma json_byte_moved:
  assumes "byte_ok (Suc d)" and "Suc d < MAX_DEPTH" and "values_ok v"
    and "json_step (vs_json v ! d) b = (q, e)" and "level_event (levels v (Suc d)) e = (h, ls)"
  shows "\<exists>v'. json_byte d b v = Some v' \<and> moved d v (h, (vs_value v ! d, q) # ls) v'"
proof -
  have d: "d < MAX_DEPTH" using assms(2) by simp
  note deeper = deeper_byte [OF assms(1) d assms(3)]
  note in_text = text_byte_moved [OF assms(1) d assms(3) _ assms(5)]
  note moves = json_state_moved [OF d assms(3)]
  have "length (vs_json v) = MAX_DEPTH" using assms(3) by (simp add: values_ok_def)
  with d have same: "v\<lparr>vs_json := (vs_json v)[d := vs_json v ! d]\<rparr> = v" by simp
  show ?thesis
  proof (cases "vs_json v ! d")
    case Outside
    let ?v = "v\<lparr>vs_json := (vs_json v)[d := JText]\<rparr>"
    have "values_ok ?v" using assms(3) by simp
    from values_start_moved [OF this assms(2)] obtain v' where
      v': "values_start (Suc d) ?v = Some v'" "moved (Suc d) ?v (False, level_start (levels v (Suc d))) v'" by auto
    from moved_json [OF v'(2) d assms(3)] v'(1) Outside assms(4,5) d moves [of Outside] same show ?thesis
      by (auto simp: json_byte.simps [of d] level_event_def split: if_splits)
  next
    case JText
    with in_text assms(4) same d show ?thesis by (simp add: json_byte.simps [of d])
  next
    case Escape
    with deeper [of "unescape b" JText] assms(4,5) moves d show ?thesis
      by (auto simp: json_byte.simps [of d] level_event_def split: if_splits)
  next
    case (Unicode n c)
    show ?thesis
    proof (cases "hex b")
      case None
      with Unicode in_text assms(4) d show ?thesis by (simp add: json_byte.simps [of d])
    next
      case (Some x)
      with Unicode deeper [of "unicode_byte (c * 16 + x)" JText] assms(4,5) moves d show ?thesis
        by (auto simp: json_byte.simps [of d] level_event_def Let_def split: if_splits)
    qed
  qed
qed

lemma byte_moved:
  assumes "d < MAX_DEPTH" and "Suc d < MAX_DEPTH \<Longrightarrow> byte_ok (Suc d)"
  shows "byte_ok d"
  unfolding byte_ok_def
proof (intro allI impI)
  fix c v assume ok: "values_ok v"
  let ?val = "vs_value v ! d"
  obtain m hit where p: "prefix_step (vl_matched ?val) c = (m, hit)" by (cases "prefix_step (vl_matched ?val) c")
  obtain q e where j: "json_step (vs_json v ! d) c = (q, e)" by (cases "json_step (vs_json v ! d) c")
  obtain h ls where e: "level_event (levels v (Suc d)) e = (h, ls)" by (cases "level_event (levels v (Suc d)) e")
  have len: "length (vs_value v) = MAX_DEPTH" "length (vs_json v) = MAX_DEPTH" using ok by (simp_all add: values_ok_def)
  define put where "put = (\<lambda>s f. v\<lparr>vs_value := (vs_value v)[d := \<lparr>vl_matched = m, vl_shape = s\<rparr>], vs_found := vs_found v \<or> f\<rparr>)"
  have pok: "values_ok (put s f)" if "s \<noteq> ShapeJson \<or> Suc d < MAX_DEPTH" for s f
    using ok that assms(1) by (auto simp: put_def values_ok_def nth_list_update)
  have pm: "moved d v (f, (\<lparr>vl_matched = m, vl_shape = s\<rparr>, vs_json v ! d) # levels v (Suc d)) (put s f)"
    if "s \<noteq> ShapeJson" for s f
  proof -
    have "levels (put s f) d = (\<lparr>vl_matched = m, vl_shape = s\<rparr>, vs_json v ! d) # levels v (Suc d)"
      using levels_Cons [OF pok [of s f] assms(1)] that assms(1) len by (simp add: put_def levels_def)
    with pok [of s f] that show ?thesis by (simp add: moved_def) (simp add: put_def)
  qed
  have follow: "\<exists>v'. json_byte d c (put ShapeJson hit) = Some v' \<and>
      moved d v (hit \<or> h, (\<lparr>vl_matched = m, vl_shape = ShapeJson\<rparr>, q) # ls) v'" if S: "Suc d < MAX_DEPTH"
  proof -
    have l: "levels (put ShapeJson hit) (Suc d) = levels v (Suc d)" "vs_json (put ShapeJson hit) = vs_json v"
      "vs_value (put ShapeJson hit) ! d = \<lparr>vl_matched = m, vl_shape = ShapeJson\<rparr>"
      using assms(1) len by (simp_all add: put_def levels_def)
    from json_byte_moved [OF assms(2) [OF S] S pok [where s = ShapeJson and f = hit, OF disjI2 [OF S]], where b = c and q = q and e = e and h = h and ls = ls] j e l
    obtain v' where
      "json_byte d c (put ShapeJson hit) = Some v'"
      "moved d (put ShapeJson hit) (h, (\<lparr>vl_matched = m, vl_shape = ShapeJson\<rparr>, q) # ls) v'" by auto
    then show ?thesis by (auto simp: moved_def put_def)
  qed
  have ne: "levels v (Suc d) \<noteq> [] \<longleftrightarrow> Suc d < MAX_DEPTH"
    using levels_length [OF ok, of "Suc d"] by (cases "levels v (Suc d)") auto
  have val: "?val\<lparr>vl_matched := m\<rparr> = \<lparr>vl_matched = m, vl_shape = vl_shape ?val\<rparr>"
    by (cases ?val) simp
  have swap: "v\<lparr>vs_found := f, vs_value := x\<rparr> = v\<lparr>vs_value := x, vs_found := f\<rparr>" for f x by simp
  have deep: "vl_shape ?val = ShapeJson \<Longrightarrow> Suc d < MAX_DEPTH"
  proof (rule ccontr)
    assume "vl_shape ?val = ShapeJson" and "\<not> Suc d < MAX_DEPTH"
    moreover from this assms(1) have "d = MAX_DEPTH - 1" by simp
    ultimately show False using ok by (simp add: values_ok_def)
  qed
  show "\<exists>v'. values_byte d c v = Some v' \<and> moved d v (level_byte (levels v d) c) v'"
  proof (cases "vl_shape ?val")
    case Plain
    with pm [of Plain hit] p assms(1) show ?thesis
      by (auto simp: values_byte.simps [of d] levels_Cons [OF ok assms(1)] level_byte_Cons put_def val swap)
  next
    case ShapeJson
    with follow [OF deep] p j e assms(1) show ?thesis
      by (auto simp: values_byte.simps [of d] levels_Cons [OF ok assms(1)] level_byte_Cons put_def val swap)
  next
    case Leading
    with pm [of Leading hit] pm [of Plain True] pm [of Plain hit] follow p j e ne assms(1) show ?thesis
      by (auto simp: values_byte.simps [of d] levels_Cons [OF ok assms(1)] level_byte_Cons put_def val swap)
  qed
qed

lemma byte_ok_all: "d < MAX_DEPTH \<Longrightarrow> byte_ok d"
proof (induction "MAX_DEPTH - d" arbitrary: d)
  case (Suc n)
  then show ?case using byte_moved [of d] by simp
qed simp

section \<open>Feeding a value\<close>

text \<open>A value fed byte by byte, and the decoded bytes of a JSON text.\<close>

fun values_feed :: "nat \<Rightarrow> bytes \<Rightarrow> local_values \<Rightarrow> local_values option" where
  "values_feed d [] v = Some v"
| "values_feed d (b # bs) v = (case values_byte d b v of None \<Rightarrow> None | Some v \<Rightarrow> values_feed d bs v)"

lemma values_feed_moved:
  assumes "d < MAX_DEPTH" and "values_ok v"
  shows "\<exists>v'. values_feed d w v = Some v' \<and> moved d v (level_run w (levels v d)) v'"
  using assms(2)
proof (induction w arbitrary: v)
  case Nil
  then show ?case by (simp add: moved_refl)
next
  case (Cons b w)
  obtain v1 where v1: "values_byte d b v = Some v1" "moved d v (level_byte (levels v d) b) v1"
    using byte_ok_all [OF assms(1)] Cons.prems unfolding byte_ok_def by blast
  then have "values_ok v1" by (simp add: moved_def)
  from Cons.IH [OF this] v1 show ?case by (auto simp: moved_def split: prod.splits)
qed

lemma values_feed_dangerous:
  assumes "d < MAX_DEPTH" and "values_ok v" and "values_start d v = Some v0"
  shows "\<exists>v'. values_feed d w v0 = Some v' \<and> values_ok v' \<and>
    (vs_found v' \<longleftrightarrow> vs_found v \<or> dangerous (MAX_DEPTH - d) w)"
proof -
  from values_start_moved [OF assms(2,1)] assms(3) have m: "moved d v (False, level_start (levels v d)) v0" by simp
  then have v0: "values_ok v0" "levels v0 d = level_start (levels v d)" "vs_found v0 = vs_found v"
    by (simp_all add: moved_def)
  from values_feed_moved [OF assms(1) v0(1), of w] obtain v' where
    "values_feed d w v0 = Some v'" "moved d v0 (level_run w (levels v0 d)) v'" by blast
  with v0 level_run_dangerous [of "levels v d" "MAX_DEPTH - d" w] levels_length [OF assms(2), of d] show ?thesis
    by (auto simp: moved_def)
qed

end
