(* ===== verification/Form_Scan.thy ===== *)
theory Form_Scan
  imports Local_Values
begin

text \<open>
  The scans of urlencoded and JSON texts for local file references: \<open>Form\<close> of
  \<open>crates/tgin-botapi/src/gateway/local_files/http_reader.rs\<close>, and \<open>json_has_local_file\<close> and
  \<open>form_has_local_file\<close> of \<open>local_files.rs\<close>. The reference of the form scan splits a text on
  \<open>&\<close>, a pair on its first \<open>=\<close> and decodes the value with a recursive \<open>url_decode\<close>.
\<close>

section \<open>The form scan\<close>

datatype form = FName | FValue | FPercent | FPercentDigit byte

definition form_default :: form where
  "form_default = FName"

text \<open>The result of \<open>value_byte\<close> and \<open>byte\<close>: the state and the values after.\<close>

definition form_value_byte :: "local_values \<Rightarrow> byte \<Rightarrow> (form \<times> local_values) option" where
  "form_value_byte v b =
     (if b = CHR ''&'' then Some (FName, v)
      else if b = CHR ''%'' then Some (FPercent, v)
      else if b = CHR ''+'' then map_option (Pair FValue) (values_byte 0 (CHR '' '') v)
      else map_option (Pair FValue) (values_byte 0 b v))"

definition form_byte :: "form \<Rightarrow> local_values \<Rightarrow> byte \<Rightarrow> (form \<times> local_values) option" where
  "form_byte f v b =
     (case f of
        FName \<Rightarrow>
          if b = CHR ''='' then map_option (Pair FValue) (values_start 0 v) else Some (FName, v)
      | FValue \<Rightarrow> form_value_byte v b
      | FPercent \<Rightarrow>
          if hex b \<noteq> None then Some (FPercentDigit b, v)
          else Option.bind (values_byte 0 (CHR ''%'') v) (\<lambda>v. form_value_byte v b)
      | FPercentDigit first \<Rightarrow>
          (case (hex first, hex b) of
             (Some high, Some low) \<Rightarrow> map_option (Pair FValue) (values_byte 0 (char_of (high * 16 + low)) v)
           | _ \<Rightarrow>
               Option.bind (values_byte 0 (CHR ''%'') v)
                 (\<lambda>v. Option.bind (values_byte 0 first v) (\<lambda>v. form_value_byte v b))))"

definition form_end :: "form \<Rightarrow> local_values \<Rightarrow> (form \<times> local_values) option" where
  "form_end f v =
     map_option (Pair FName)
       (case f of
          FPercent \<Rightarrow> values_byte 0 (CHR ''%'') v
        | FPercentDigit first \<Rightarrow> Option.bind (values_byte 0 (CHR ''%'') v) (values_byte 0 first)
        | _ \<Rightarrow> Some v)"

section \<open>Whole texts\<close>

fun json_any :: "bytes \<Rightarrow> local_values \<Rightarrow> bool option" where
  "json_any [] v = Some False"
| "json_any (b # bs) v =
     (case json_byte 0 b v of
        None \<Rightarrow> None
      | Some v \<Rightarrow> if vs_found v then Some True else json_any bs v)"

definition json_has_local_file :: "bytes \<Rightarrow> bool option" where
  "json_has_local_file body = json_any body values_default"

fun form_any :: "bytes \<Rightarrow> form \<Rightarrow> local_values \<Rightarrow> bool option" where
  "form_any [] f v = map_option (\<lambda>(_, v). vs_found v) (form_end f v)"
| "form_any (b # bs) f v =
     (case form_byte f v b of
        None \<Rightarrow> None
      | Some (f, v) \<Rightarrow> if vs_found v then Some True else form_any bs f v)"

definition form_has_local_file :: "bytes \<Rightarrow> bool option" where
  "form_has_local_file text = form_any text form_default values_default"

section \<open>The reference decoding\<close>

text \<open>td's \<open>url_decode\<close> with \<open>+\<close> as a space: a \<open>%\<close> without two hex digits stays.\<close>

fun url_decode :: "bytes \<Rightarrow> bytes" where
  "url_decode [] = []"
| "url_decode (c # cs) =
     (if c = CHR ''%'' then
        (case cs of
           a # b # rest \<Rightarrow>
             (case (hex a, hex b) of
                (Some high, Some low) \<Rightarrow> char_of (high * 16 + low) # url_decode rest
              | _ \<Rightarrow> c # url_decode cs)
         | _ \<Rightarrow> c # url_decode cs)
      else if c = CHR ''+'' then CHR '' '' # url_decode cs
      else c # url_decode cs)"

text \<open>The decoded values of the pairs of a text that have a \<open>=\<close>.\<close>

definition form_values :: "bytes \<Rightarrow> bytes list" where
  "form_values text =
     map (url_decode \<circ> snd) (List.map_filter (split_once (CHR ''='')) (split_on (CHR ''&'') text))"

lemma hex_special [simp]:
  "hex CHR ''&'' = None" "hex CHR ''%'' = None" "hex CHR ''+'' = None" "hex CHR ''='' = None"
  by (simp_all add: hex_def)

lemma split_on_takeWhile:
  "split_on c w = takeWhile (\<lambda>x. x \<noteq> c) w #
     (case dropWhile (\<lambda>x. x \<noteq> c) w of [] \<Rightarrow> [] | _ # r \<Rightarrow> split_on c r)"
  by (induction w) auto

lemma map_filter_Cons: "List.map_filter f (x # xs) = (case f x of None \<Rightarrow> [] | Some y \<Rightarrow> [y]) @ List.map_filter f xs"
  by (simp add: List.map_filter_def split: option.split)

definition later_values :: "bytes \<Rightarrow> bytes list" where
  "later_values w = (case dropWhile (\<lambda>x. x \<noteq> CHR ''&'') w of [] \<Rightarrow> [] | _ # r \<Rightarrow> form_values r)"

abbreviation until_amp :: "bytes \<Rightarrow> bytes" where
  "until_amp \<equiv> takeWhile (\<lambda>x. x \<noteq> CHR ''&'')"

lemma form_values_pair:
  "form_values w = (case split_once (CHR ''='') (until_amp w) of None \<Rightarrow> [] | Some (_, v) \<Rightarrow> [url_decode v]) @ later_values w"
proof -
  let ?f = "split_once (CHR ''='')" and ?r = "dropWhile (\<lambda>x. x \<noteq> CHR ''&'') w"
  have "form_values w = map (url_decode \<circ> snd) ((case ?f (until_amp w) of None \<Rightarrow> [] | Some y \<Rightarrow> [y]) @
      List.map_filter ?f (case ?r of [] \<Rightarrow> [] | _ # r \<Rightarrow> split_on (CHR ''&'') r))"
    by (simp only: form_values_def split_on_takeWhile [of _ w] map_filter_Cons)
  moreover have "map (url_decode \<circ> snd) (List.map_filter ?f (case ?r of [] \<Rightarrow> [] | _ # r \<Rightarrow> split_on (CHR ''&'') r)) = later_values w"
    by (cases ?r) (simp_all add: later_values_def form_values_def map_filter_simps del: dropWhile_eq_Nil_conv)
  ultimately show ?thesis by (cases "?f (until_amp w)") auto
qed

lemma form_values_Nil [simp]: "form_values [] = []"
  by (simp add: form_values_pair later_values_def split_once_def)

lemma form_values_amp [simp]: "form_values (CHR ''&'' # w) = form_values w"
  by (simp add: form_values_pair [of "CHR ''&'' # w"] later_values_def split_once_def)

lemma form_values_eq [simp]: "form_values (CHR ''='' # w) = url_decode (until_amp w) # later_values w"
  by (simp add: form_values_pair [of "CHR ''='' # w"] later_values_def split_once_def)

lemma split_once_Cons: "b \<noteq> c \<Longrightarrow> split_once c (b # w) = map_option (apfst (Cons b)) (split_once c w)"
  by (simp add: split_once_def split: option.split)

lemma form_values_name:
  assumes "b \<noteq> CHR ''&''" and "b \<noteq> CHR ''=''"
  shows "form_values (b # w) = form_values w"
proof -
  have "split_once (CHR ''='') (until_amp (b # w)) = map_option (apfst (Cons b)) (split_once (CHR ''='') (until_amp w))"
    using assms by (simp add: split_once_Cons)
  moreover have "later_values (b # w) = later_values w" using assms(1) by (simp add: later_values_def)
  ultimately show ?thesis unfolding form_values_pair [of "b # w"] form_values_pair [of w]
    by (cases "split_once (CHR ''='') (until_amp w)") auto
qed

section \<open>The form scan as events\<close>

definition value_events :: "byte \<Rightarrow> form \<times> event list" where
  "value_events b =
     (if b = CHR ''&'' then (FName, [])
      else if b = CHR ''%'' then (FPercent, [])
      else if b = CHR ''+'' then (FValue, [Char (CHR '' '')])
      else (FValue, [Char b]))"

fun form_step :: "form \<Rightarrow> byte \<Rightarrow> form \<times> event list" where
  "form_step FName b = (if b = CHR ''='' then (FValue, [Start]) else (FName, []))"
| "form_step FValue b = value_events b"
| "form_step FPercent b =
     (if hex b \<noteq> None then (FPercentDigit b, []) else apsnd (Cons (Char (CHR ''%''))) (value_events b))"
| "form_step (FPercentDigit a) b =
     (case (hex a, hex b) of
        (Some high, Some low) \<Rightarrow> (FValue, [Char (char_of (high * 16 + low))])
      | _ \<Rightarrow> apsnd (\<lambda>es. Char (CHR ''%'') # Char a # es) (value_events b))"

fun end_events :: "form \<Rightarrow> event list" where
  "end_events FPercent = [Char (CHR ''%'')]"
| "end_events (FPercentDigit a) = [Char (CHR ''%''), Char a]"
| "end_events _ = []"

fun form_events :: "form \<Rightarrow> bytes \<Rightarrow> event list" where
  "form_events f [] = end_events f"
| "form_events f (b # bs) = (case form_step f b of (f, es) \<Rightarrow> es @ form_events f bs)"

lemma form_events_percent:
  "hex b = None \<Longrightarrow> form_events FPercent (b # w) = Char (CHR ''%'') # form_events FValue (b # w)"
  by (simp split: prod.splits)

lemma form_events_digit:
  "hex b = None \<Longrightarrow> form_events (FPercentDigit a) (b # w) = Char (CHR ''%'') # Char a # form_events FValue (b # w)"
  by (simp split: prod.splits option.splits)

lemma until_amp_Cons: "b \<noteq> CHR ''&'' \<Longrightarrow> until_amp (b # w) = b # until_amp w"
  by simp

lemma later_values_Cons: "later_values (b # w) = (if b = CHR ''&'' then form_values w else later_values w)"
  by (simp add: later_values_def)

lemma form_events_values:
  "chunks (form_events FValue w) = (url_decode (until_amp w), later_values w) \<and>
   chunks (form_events FName w) = ([], form_values w)"
proof (induction w rule: length_induct)
  case (1 w)
  then have IH: "\<And>v. length v < length w \<Longrightarrow> chunks (form_events FValue v) = (url_decode (until_amp v), later_values v)"
    "\<And>v. length v < length w \<Longrightarrow> chunks (form_events FName v) = ([], form_values v)" by blast+
  show ?case
  proof (cases w)
    case Nil
    then show ?thesis by (simp add: later_values_def)
  next
    case (Cons b v)
    note v = IH(1) [of v] IH(2) [of v]
    have name: "chunks (form_events FName w) = ([], form_values w)"
      using v Cons by (cases "b = CHR ''&''") (auto simp: form_values_name)
    have "chunks (form_events FValue w) = (url_decode (until_amp w), later_values w)"
    proof (cases "b = CHR ''%''")
      case False
      with v Cons show ?thesis by (auto simp: value_events_def later_values_Cons)
    next
      case pct: True
      show ?thesis
      proof (cases v)
        case Nil
        with Cons pct show ?thesis by (simp add: value_events_def later_values_def)
      next
        case v2: (Cons a u)
        show ?thesis
        proof (cases "hex a")
          case None
          have "url_decode (CHR ''%'' # until_amp (a # u)) = CHR ''%'' # url_decode (until_amp (a # u))"
            using None by (auto split: list.splits)
          moreover have "form_events FValue w = Char (CHR ''%'') # form_events FValue v"
            unfolding Cons pct v2 form_events_percent [OF None, symmetric] by (simp add: value_events_def)
          moreover have "until_amp w = CHR ''%'' # until_amp (a # u)" "later_values w = later_values v"
            using Cons pct v2 by (simp_all add: later_values_Cons)
          ultimately show ?thesis using v(1) Cons v2 by simp
        next
          case (Some high)
          then have a: "a \<noteq> CHR ''&''" "a \<noteq> CHR ''%''" "a \<noteq> CHR ''+''" by auto
          show ?thesis
          proof (cases u)
            case Nil
            with Cons pct v2 Some a show ?thesis by (simp add: value_events_def later_values_def)
          next
            case u: (Cons c t)
            show ?thesis
            proof (cases "hex c")
              case None
              have "url_decode (CHR ''%'' # a # until_amp (c # t)) = CHR ''%'' # a # url_decode (until_amp (c # t))"
                using None a \<open>hex a = Some high\<close> by (cases "c = CHR ''&''") simp_all
              moreover have "form_events FValue w = Char (CHR ''%'') # Char a # form_events FValue (c # t)"
                unfolding Cons pct v2 u form_events_digit [OF None, symmetric] using Some by (simp add: value_events_def)
              moreover have "until_amp w = CHR ''%'' # a # until_amp (c # t)" "later_values w = later_values (c # t)"
                using Cons pct v2 u a by (simp_all add: later_values_Cons)
              ultimately show ?thesis using IH(1) [of "c # t"] Cons v2 u by simp
            next
              case (Some low)
              then have "c \<noteq> CHR ''&''" by auto
              with IH(1) [of t] Cons pct v2 u Some a \<open>hex a = Some high\<close> show ?thesis
                by (simp add: value_events_def later_values_Cons)
            qed
          qed
        qed
      qed
    qed
    with name show ?thesis by blast
  qed
qed

section \<open>The scans are exact\<close>

fun events_do :: "event list \<Rightarrow> local_values \<Rightarrow> local_values option" where
  "events_do [] v = Some v"
| "events_do (Start # es) v = Option.bind (values_start 0 v) (events_do es)"
| "events_do (Char c # es) v = Option.bind (values_byte 0 c v) (events_do es)"

lemma events_do_Nil [simp]: "events_do [] = Some"
  by (simp add: fun_eq_iff)

lemma form_value_byte_events:
  "value_events b = (f, es) \<Longrightarrow> form_value_byte v b = map_option (Pair f) (events_do es v)"
  by (auto simp: value_events_def form_value_byte_def split: if_splits option.splits)

lemma form_byte_events:
  assumes "form_step f b = (f', es)"
  shows "form_byte f v b = map_option (Pair f') (events_do es v)"
proof -
  obtain g gs where g: "value_events b = (g, gs)" by (cases "value_events b")
  have vb: "form_value_byte u b = map_option (Pair g) (events_do gs u)" for u by (rule form_value_byte_events [OF g])
  show ?thesis
  proof (cases f)
    case FName
    with assms show ?thesis by (auto simp: form_byte_def split: option.splits)
  next
    case FValue
    with assms g vb show ?thesis by (simp add: form_byte_def)
  next
    case FPercent
    with assms g vb show ?thesis
      by (cases "hex b"; cases "values_byte 0 (CHR ''%'') v") (auto simp: form_byte_def)
  next
    case (FPercentDigit a)
    with assms g vb show ?thesis
      by (auto simp: form_byte_def split: option.splits) (auto split: bind_splits option.splits)
  qed
qed

lemma form_end_events: "form_end f v = map_option (Pair FName) (events_do (end_events f) v)"
  by (cases f) (auto simp: form_end_def split: bind_splits option.splits)

lemma values_byte_moved:
  assumes "d < MAX_DEPTH" and "values_ok v"
  obtains v' where "values_byte d c v = Some v'" "moved d v (level_byte (levels v d) c) v'"
  using byte_ok_all [OF assms(1)] assms(2) unfolding byte_ok_def by blast

lemma moved_trans:
  assumes "moved d v (h, ls) v1" and "moved d v1 (h', ls') v2"
  shows "moved d v (h \<or> h', ls') v2"
  using assms by (auto simp: moved_def)

lemma MAX_DEPTH_pos [simp]: "0 < MAX_DEPTH" "Suc 0 < MAX_DEPTH"
  by (simp_all add: MAX_DEPTH_def)

lemma events_do_moved:
  "values_ok v \<Longrightarrow> \<exists>v'. events_do es v = Some v' \<and> moved 0 v (event_run es (levels v 0)) v'"
proof (induction es arbitrary: v rule: chunks.induct)
  case 1
  then show ?case by (simp add: moved_refl)
next
  case (2 es)
  from values_start_moved [OF "2.prems", of 0] obtain v1 where
    v1: "values_start 0 v = Some v1" "moved 0 v (False, level_start (levels v 0)) v1" by auto
  with "2.IH" [of v1] moved_trans [OF v1(2)] show ?case
    by (auto simp: level_event_def moved_def split: prod.splits)
next
  case (3 c es)
  obtain v1 where v1: "values_byte 0 c v = Some v1" "moved 0 v (level_byte (levels v 0) c) v1"
    by (rule values_byte_moved [of 0 v]) (use "3.prems" in auto)
  with "3.IH" [of v1] show ?case
    by (auto simp: level_event_def moved_def split: prod.splits)
qed

lemma form_any_run:
  "values_ok v \<Longrightarrow> \<not> vs_found v \<Longrightarrow> form_any w f v = Some (fst (event_run (form_events f w) (levels v 0)))"
proof (induction w arbitrary: f v)
  case Nil
  from events_do_moved [OF Nil(1), of "end_events f"] Nil(2) show ?case
    by (auto simp: form_end_events moved_def)
next
  case (Cons b w)
  obtain f' es where s: "form_step f b = (f', es)" by (cases "form_step f b")
  from events_do_moved [OF Cons.prems(1), of es] obtain v1 where
    v1: "events_do es v = Some v1" "moved 0 v (event_run es (levels v 0)) v1" by blast
  from v1(2) Cons.prems have "values_ok v1" "vs_found v1 = fst (event_run es (levels v 0))"
    "levels v1 0 = snd (event_run es (levels v 0))" by (auto simp: moved_def)
  with Cons.IH [of v1 f'] v1(1) show ?case
    by (auto simp: s form_byte_events [OF s] event_run_append split: prod.splits)
qed

lemma levels_default: "levels values_default d = replicate (MAX_DEPTH - d) (value_default, Outside)"
  by (simp add: levels_def values_default_def zip_replicate)

lemma level_start_default: "level_start (levels values_default d) = levels values_default d"
  unfolding levels_default level_start_def by (cases "MAX_DEPTH - d") auto

lemma form_scan_dangerous:
  "form_has_local_file w = Some (list_ex (dangerous MAX_DEPTH) (form_values w))"
proof -
  have "form_has_local_file w = Some (fst (event_run (form_events FName w) (levels values_default 0)))"
    using form_any_run [of values_default w FName]
    by (simp add: form_has_local_file_def form_default_def) (simp add: values_default_def)
  moreover have "fst (event_run (form_events FName w) (levels values_default 0)) \<longleftrightarrow>
      list_ex (dangerous MAX_DEPTH) (form_values w)"
    using event_run_dangerous [of "levels values_default 0" MAX_DEPTH "form_events FName w"]
      form_events_values [of w] by simp
  ultimately show ?thesis by simp
qed

text \<open>
  C24. The scan of an urlencoded text is exact: it never panics, and it finds a local file
  reference exactly when a value of the text, split and percent-decoded as the server does
  it, begins with \<open>file:\<close> or carries JSON in which some string, unescaped, does so or carries
  JSON in turn, followed to a depth of four values; JSON found deeper counts as found.
\<close>

theorem form_scan_exact:
  "form_has_local_file w = Some (list_ex (dangerous MAX_DEPTH) (form_values w))"
  by (rule form_scan_dangerous)

lemma json_any_run:
  "values_ok v \<Longrightarrow> \<not> vs_found v \<Longrightarrow>
     json_any w v = Some (fst (event_run (json_events (vs_json v ! 0) w) (levels v 1)))"
proof (induction w arbitrary: v)
  case (Cons b w)
  obtain q e where j: "json_step (vs_json v ! 0) b = (q, e)" by (cases "json_step (vs_json v ! 0) b")
  obtain h ls where l: "level_event (levels v 1) e = (h, ls)" by (cases "level_event (levels v 1) e")
  from json_byte_moved [of 0 v b q e h ls] byte_ok_all [of "Suc 0"] Cons.prems(1) j l obtain v1 where
    v1: "json_byte 0 b v = Some v1" "moved 0 v (h, (vs_value v ! 0, q) # ls) v1" by auto
  then have ok: "values_ok v1" and f: "vs_found v1 = h"
    and lv: "levels v1 0 = (vs_value v ! 0, q) # ls" using Cons.prems(2) by (auto simp: moved_def)
  with levels_Cons [OF ok, of 0] have q1: "vs_json v1 ! 0 = q" "levels v1 1 = ls" by auto
  have "event_run (case e of None \<Rightarrow> [] | Some e \<Rightarrow> [e]) (levels v 1) = (h, ls)"
    using l by (cases e) (auto simp: level_event_def)
  with Cons.IH [OF ok] v1(1) f q1 show ?case by (auto simp: j event_run_append split: prod.splits)
qed simp

lemma json_scan_dangerous:
  "json_has_local_file body = Some (list_ex (dangerous (MAX_DEPTH - 1)) (json_strings body))"
proof -
  have o: "vs_json values_default ! 0 = Outside" by (simp add: values_default_def)
  have "json_has_local_file body = Some (fst (event_run (json_events Outside body) (levels values_default 1)))"
    using json_any_run [of values_default body] o
    by (simp add: json_has_local_file_def) (simp add: values_default_def)
  moreover have "fst (event_run (json_events Outside body) (levels values_default 1)) \<longleftrightarrow>
      list_ex (dangerous (MAX_DEPTH - 1)) (json_strings body)"
    using event_run_dangerous [of "levels values_default 1" "MAX_DEPTH - 1" "json_events Outside body"]
      json_events_strings [of body] by simp
  ultimately show ?thesis by simp
qed

text \<open>
  The scan of a JSON text is exact: it never panics, and it finds a local file reference
  exactly when some string of the text, wherever it stands and however it is escaped, begins
  with \<open>file:\<close> or carries JSON that has such a string in turn, one level less deep than the
  values of a form.
\<close>

theorem json_scan_exact:
  "json_has_local_file body = Some (list_ex (dangerous (MAX_DEPTH - 1)) (json_strings body))"
  by (rule json_scan_dangerous)

section \<open>Encoded values are read back\<close>

definition hex_digit :: "nat \<Rightarrow> byte" where
  "hex_digit n = ''0123456789ABCDEF'' ! n"

text \<open>A value urlencoded: the bytes \<open>raw\<close> picks stand for themselves, the others are escaped.\<close>

definition url_encode :: "(byte \<Rightarrow> bool) \<Rightarrow> bytes \<Rightarrow> bytes" where
  "url_encode raw v =
     concat (map (\<lambda>c. if raw c then [c]
                      else [CHR ''%'', hex_digit (of_char c div 16), hex_digit (of_char c mod 16)]) v)"

definition form_text :: "(byte \<Rightarrow> bool) \<Rightarrow> (bytes \<times> bytes) list \<Rightarrow> bytes" where
  "form_text raw pairs = concat (map (\<lambda>(name, v). name @ CHR ''='' # url_encode raw v @ [CHR ''&'']) pairs)"

lemma hex_hex_digit: "n < 16 \<Longrightarrow> hex (hex_digit n) = Some n"
proof -
  have "\<forall>n \<in> {..<16}. hex (hex_digit n) = Some n" by code_simp
  then show "n < 16 \<Longrightarrow> hex (hex_digit n) = Some n" by blast
qed

lemma hex_digit_plain: "n < 16 \<Longrightarrow> hex_digit n \<notin> {CHR ''&'', CHR ''%'', CHR ''+'', CHR ''=''}"
  using hex_hex_digit [of n] by auto

lemma of_char_digits: "(of_char c :: nat) div 16 < 16" "of_char c mod (16 :: nat) < 16"
  using less_mult_imp_div_less [of "of_char c :: nat" 16 16] nat_of_char_less_256 [of c] by simp_all

lemma url_decode_encode:
  assumes "\<And>c. raw c \<Longrightarrow> c \<noteq> CHR ''%'' \<and> c \<noteq> CHR ''+''"
  shows "url_decode (url_encode raw v) = v"
proof (induction v)
  case (Cons c v)
  have "char_of (of_char c div 16 * 16 + of_char c mod 16 :: nat) = c"
    by (simp add: div_mult_mod_eq)
  with Cons assms [of c] show ?case
    by (simp add: url_encode_def hex_hex_digit of_char_digits)
qed (simp add: url_encode_def)

lemma url_encode_plain:
  assumes "\<And>c. raw c \<Longrightarrow> c \<noteq> CHR ''&''"
  shows "CHR ''&'' \<notin> set (url_encode raw v)"
proof -
  have "CHR ''&'' \<noteq> hex_digit (of_char c div 16)" "CHR ''&'' \<noteq> hex_digit (of_char c mod 16)" for c
    using hex_digit_plain [OF of_char_digits(1) [of c]] hex_digit_plain [OF of_char_digits(2) [of c]] by auto
  with assms show ?thesis by (induction v) (auto simp: url_encode_def)
qed

lemma form_values_append_pair:
  assumes "CHR ''&'' \<notin> set name" and "CHR ''='' \<notin> set name" and "CHR ''&'' \<notin> set x"
  shows "form_values (name @ CHR ''='' # x @ CHR ''&'' # w) = url_decode x # form_values w"
  using assms
proof (induction name)
  case Nil
  then have "until_amp (x @ CHR ''&'' # w) = x" "later_values (x @ CHR ''&'' # w) = form_values w"
    by (induction x) (auto simp: later_values_def)
  then show ?case by simp
qed (auto simp: form_values_name)

text \<open>
  No urlencoding hides a value: whichever bytes a client escapes (all but \<open>&\<close>, \<open>%\<close> and
  \<open>+\<close> may stand for themselves), the pairs of a form text decode to the values encoded, and
  the scan finds a reference exactly when one of those values is dangerous.
\<close>

theorem form_encode_roundtrip:
  assumes "\<forall>c. raw c \<longrightarrow> c \<notin> {CHR ''&'', CHR ''%'', CHR ''+''}"
    and "\<forall>(name, v) \<in> set pairs. CHR ''&'' \<notin> set name \<and> CHR ''='' \<notin> set name"
  shows "form_values (form_text raw pairs) = map snd pairs \<and>
    form_has_local_file (form_text raw pairs) = Some (\<exists>(name, v) \<in> set pairs. dangerous MAX_DEPTH v)"
proof -
  have v: "form_values (form_text raw pairs) = map snd pairs"
    using assms(2)
  proof (induction pairs)
    case (Cons p pairs)
    obtain name v where p: "p = (name, v)" by (cases p)
    have "form_text raw (p # pairs) = name @ CHR ''='' # url_encode raw v @ CHR ''&'' # form_text raw pairs"
      by (simp add: form_text_def p)
    with Cons p assms(1) form_values_append_pair [of name "url_encode raw v" "form_text raw pairs"]
      url_encode_plain [of raw v] url_decode_encode [of raw v] show ?case by auto
  qed (simp add: form_text_def)
  show ?thesis
    using form_scan_dangerous [of "form_text raw pairs"] v by (simp add: list_ex_iff case_prod_beta)
qed

theorem form_encode_roundtrip_demo:
  "form_has_local_file (form_text (\<lambda>c. c = CHR ''f'') [(''a'', ''x y''), (''photo'', ''file:/etc/passwd'')]) = Some True \<and>
   form_text (\<lambda>c. c = CHR ''f'') [(''a'', ''x'')] = ''a=%78&''"
proof -
  have d: "dangerous MAX_DEPTH ''file:/etc/passwd''" by code_simp
  have "form_text (\<lambda>c. c = CHR ''f'') [(''a'', ''x'')] = ''a=%78&''" by code_simp
  with form_encode_roundtrip [of "\<lambda>c. c = CHR ''f''" "[(''a'', ''x y''), (''photo'', ''file:/etc/passwd'')]"] d
  show ?thesis by simp
qed

end
