(* ===== verification/Multipart.thy ===== *)
theory Multipart
  imports Delimiter Form_Scan
begin

text \<open>
  The multipart grammar of \<open>crates/tgin-botapi/src/gateway/local_files/http_reader.rs\<close>: the
  boundary of a content type, the header block of a part, the streaming \<open>MultipartScan\<close> and
  the in-memory \<open>parts\<close>. Slices that the source takes by position are \<open>take\<close> and \<open>drop\<close>;
  \<open>None\<close> of a scan operation is a panic, \<open>None\<close> of a parser is the source's \<open>None\<close>.
\<close>

section \<open>Trimming and the boundary\<close>

definition trim_start :: "bytes \<Rightarrow> bytes" where
  "trim_start bytes =
     drop (case index_where (\<lambda>b. \<not> is_space b) bytes of None \<Rightarrow> length bytes | Some i \<Rightarrow> i) bytes"

text \<open>\<open>rposition\<close>: the position of the last element that satisfies the predicate.\<close>

definition rindex_where :: "('a \<Rightarrow> bool) \<Rightarrow> 'a list \<Rightarrow> nat option" where
  "rindex_where P xs = map_option (\<lambda>i. length xs - 1 - i) (index_where P (rev xs))"

definition trim :: "bytes \<Rightarrow> bytes" where
  "trim bytes =
     (let bytes = trim_start bytes
      in take (case rindex_where (\<lambda>b. \<not> is_space b) bytes of None \<Rightarrow> 0 | Some i \<Rightarrow> i + 1) bytes)"

text \<open>One pair of quotes around a slice dropped.\<close>

definition unquote :: "bytes \<Rightarrow> bytes" where
  "unquote b =
     (if 2 \<le> length b \<and> hd b = CHR 0x22 \<and> last b = CHR 0x22 then butlast (tl b) else b)"

definition boundary :: "bytes \<Rightarrow> bytes option" where
  "boundary content_type =
     (let name = ''boundary''; ct = trim content_type in
      case index_where (\<lambda>window. eq_ignore_ascii_case window name) (windows (length name) ct) of
        None \<Rightarrow> None
      | Some i \<Rightarrow>
          (let after = i + length name in
           case index_where (\<lambda>b. b = CHR ''='') (drop after ct) of
             None \<Rightarrow> None
           | Some j \<Rightarrow>
               (let start = after + j + 1;
                    end' = (case index_where (\<lambda>b. b = CHR '';'') (drop start ct) of
                              None \<Rightarrow> length ct | Some k \<Rightarrow> start + k);
                    boundary = unquote (take (end' - start) (drop start ct))
                in if boundary \<noteq> [] \<and> length boundary \<le> MAX_BOUNDARY_LEN then Some boundary else None)))"

section \<open>Part headers\<close>

datatype kind = KText | KForm | KFile

record part_name =
  nm_raw :: bytes
  nm_quoted :: bool

record part_head =
  ph_kind :: kind
  ph_name :: part_name

record part =
  pt_kind :: kind
  pt_name :: part_name
  pt_value :: bytes

text \<open>The two loops of \<open>Name::decoded\<close>.\<close>

fun name_unescape :: "bool \<Rightarrow> bytes \<Rightarrow> bytes" where
  "name_unescape quoted [] = []"
| "name_unescape quoted (b # bs) =
     (if quoted \<and> b = CHR 0x5C then (case bs of [] \<Rightarrow> [] | c # cs \<Rightarrow> c # name_unescape quoted cs)
      else b # name_unescape quoted bs)"

fun name_percent :: "bytes \<Rightarrow> bytes" where
  "name_percent [] = []"
| "name_percent (c # cs) =
     (case (if c = CHR ''%'' \<and> 2 \<le> length cs
            then (case (hex (cs ! 0), hex (cs ! 1)) of
                    (Some high, Some low) \<Rightarrow> Some (char_of (high * 16 + low)) | _ \<Rightarrow> None)
            else None) of
        Some b \<Rightarrow> b # name_percent (drop 2 cs)
      | None \<Rightarrow> c # name_percent cs)"

definition name_decoded :: "part_name \<Rightarrow> bytes" where
  "name_decoded n = name_percent (name_unescape (nm_quoted n) (nm_raw n))"

definition part_named :: "bytes \<Rightarrow> part \<Rightarrow> bool" where
  "part_named name p \<longleftrightarrow> name_decoded (pt_name p) = name"

text \<open>The inner loop of \<open>part_head\<close>: where a header's value ends and the next header begins.\<close>

function header_line :: "bytes \<Rightarrow> nat \<Rightarrow> (nat \<times> nat) option" where
  "header_line line next =
     (case index_where (\<lambda>b. b = CHR 0x0D) (drop next line) of
        None \<Rightarrow> None
      | Some i \<Rightarrow>
          (let end' = next + i; next = end' + 2 in
           if end' + 1 < length line \<and> line ! (end' + 1) = CHR 0x0A then
             (if next < length line \<and> (line ! next = CHR '' '' \<or> line ! next = CHR 0x09)
              then header_line line next
              else Some (end', next))
           else None))"
  by pat_completeness auto
termination
  by (relation "measure (\<lambda>(line, next). length line - next)") auto

declare header_line.simps [simp del]

text \<open>The loop over a quoted parameter value: the position after its closing quote.\<close>

function quoted_end :: "bytes \<Rightarrow> nat \<Rightarrow> nat option" where
  "quoted_end rest at =
     (if length rest \<le> at then None
      else if rest ! at = CHR 0x22 then Some (at + 1)
      else if rest ! at = CHR 0x5C then
        (if length rest \<le> at + 1 then None else quoted_end rest (at + 2))
      else quoted_end rest (at + 1))"
  by pat_completeness auto
termination
  by (relation "measure (\<lambda>(rest, at). length rest - at)") auto

declare quoted_end.simps [simp del]

lemma trim_start_length: "length (trim_start b) \<le> length b"
  by (simp add: trim_start_def)

lemma trim_length: "length (trim b) \<le> length b"
  using trim_start_length [of b] by (simp add: trim_def Let_def)

text \<open>
  One \<open>key=value\<close> pair of a \<open>Content-Disposition\<close> after its \<open>=\<close>: the value and the rest after
  its \<open>;\<close>.
\<close>

definition parameter_value :: "bytes \<Rightarrow> (part_name \<times> bytes) option" where
  "parameter_value rest =
     (if rest \<noteq> [] \<and> hd rest = CHR 0x22 then
        (case quoted_end rest 1 of
           None \<Rightarrow> None
         | Some at \<Rightarrow>
             (let raw = \<lparr>nm_raw = take (at - 2) (drop 1 rest), nm_quoted = True\<rparr>;
                  rest = trim_start (drop at rest)
              in case rest of
                   [] \<Rightarrow> Some (raw, [])
                 | first # after \<Rightarrow> if first \<noteq> CHR '';'' then None else Some (raw, after)))
      else
        (let semicolon = index_where (\<lambda>b. b = CHR '';'') rest;
             raw = trim (take (case semicolon of None \<Rightarrow> length rest | Some i \<Rightarrow> i) rest)
         in Some (\<lparr>nm_raw = raw, nm_quoted = False\<rparr>,
                  case semicolon of None \<Rightarrow> [] | Some i \<Rightarrow> drop (i + 1) rest)))"

lemma parameter_value_length:
  assumes "parameter_value rest = Some (raw, r)"
  shows "length r \<le> length rest"
proof (cases "rest \<noteq> [] \<and> hd rest = CHR 0x22")
  case True
  with assms obtain at where at: "quoted_end rest 1 = Some at"
    "(case trim_start (drop at rest) of [] \<Rightarrow> r = [] | first # after \<Rightarrow> r = after)"
    by (auto simp: parameter_value_def Let_def split: option.splits list.splits if_splits)
  have "length (trim_start (drop at rest)) \<le> length rest"
    using trim_start_length [of "drop at rest"] by simp
  with at(2) show ?thesis by (cases "trim_start (drop at rest)") auto
next
  case False
  with assms show ?thesis by (auto simp: parameter_value_def Let_def split: option.splits)
qed

function disposition_loop :: "bytes \<Rightarrow> part_name option \<Rightarrow> bool \<Rightarrow> (part_name option \<times> bool) option" where
  "disposition_loop rest name file =
     (let rest = trim rest in
      case index_where (\<lambda>b. b = CHR ''='') rest of
        None \<Rightarrow> Some (name, file)
      | Some equals \<Rightarrow>
          (let key = trim (take equals rest) in
           case parameter_value (trim_start (drop (equals + 1) rest)) of
             None \<Rightarrow> None
           | Some (raw, rest) \<Rightarrow>
               if key = ''name'' then disposition_loop rest (Some raw) file
               else if key = ''filename'' then disposition_loop rest name True
               else disposition_loop rest name file))"
  by pat_completeness auto

lemma parameter_rest_shorter:
  assumes "index_where (\<lambda>b. b = CHR ''='') (trim rest) = Some equals"
    and "parameter_value (trim_start (drop (equals + 1) (trim rest))) = Some (raw, r)"
  shows "length r < length rest"
proof -
  have "length r \<le> length (trim_start (drop (equals + 1) (trim rest)))"
    by (rule parameter_value_length [OF assms(2)])
  also have "\<dots> \<le> length (trim rest) - (equals + 1)"
    using trim_start_length [of "drop (equals + 1) (trim rest)"] by simp
  also have "\<dots> < length rest"
    using index_where_length [OF assms(1)] trim_length [of rest] by linarith
  finally show ?thesis .
qed

termination disposition_loop
  by (relation "measure (\<lambda>(rest, _). length rest)") (auto dest: parameter_rest_shorter)

declare disposition_loop.simps [simp del]

definition disposition :: "bytes \<Rightarrow> part_name option \<Rightarrow> bool \<Rightarrow> (part_name option \<times> bool) option" where
  "disposition value name file =
     (case strip_prefix ''form-data;'' value of None \<Rightarrow> None | Some rest \<Rightarrow> disposition_loop rest name file)"

function part_head_loop ::
  "bytes \<Rightarrow> part_name option \<Rightarrow> bool \<Rightarrow> bytes \<Rightarrow> (part_name option \<times> bool \<times> bytes) option" where
  "part_head_loop rest name file content_type =
     (if rest = [] then Some (name, file, content_type)
      else
        (case index_where (\<lambda>b. b = CHR '':'') rest of
           None \<Rightarrow> None
         | Some colon \<Rightarrow>
             (let header = trim (take colon rest); line = drop (colon + 1) rest in
              case header_line line 0 of
                None \<Rightarrow> None
              | Some (end', next) \<Rightarrow>
                  (let value = trim (take end' line); rest = drop next line in
                   if eq_ignore_ascii_case header ''content-disposition'' then
                     (case disposition value name file of
                        None \<Rightarrow> None
                      | Some (name, file) \<Rightarrow> part_head_loop rest name file content_type)
                   else if eq_ignore_ascii_case header ''content-type'' then part_head_loop rest name file value
                   else part_head_loop rest name file content_type))))"
  by pat_completeness auto
termination
  by (relation "measure (\<lambda>(rest, _). length rest)") auto

declare part_head_loop.simps [simp del]

definition part_head :: "bytes \<Rightarrow> part_head option" where
  "part_head block =
     (case part_head_loop block None False ''application/octet-stream'' of
        None \<Rightarrow> None
      | Some (name, file, content_type) \<Rightarrow>
          (case name of
             None \<Rightarrow> None
           | Some name \<Rightarrow>
               if nm_raw name = [] then None
               else
                 Some \<lparr>ph_kind =
                        (if file then KFile
                         else if take (length ''application/x-www-form-urlencoded'') content_type =
                                 ''application/x-www-form-urlencoded'' then KForm
                         else KText),
                       ph_name = name\<rparr>))"

section \<open>The parts of a whole body\<close>

definition MAX_PART_HEADERS :: nat where
  "MAX_PART_HEADERS = 2 ^ 18"

definition MAX_PARAMETERS :: nat where
  "MAX_PARAMETERS = 2 ^ 20"

definition CRLF2 :: bytes where
  "CRLF2 = [CHR 0x0D, CHR 0x0A, CHR 0x0D, CHR 0x0A]"

definition next_delimiter :: "bytes \<Rightarrow> bytes" where
  "next_delimiter bnd = [CHR 0x0D, CHR 0x0A, CHR ''-'', CHR ''-''] @ take MAX_BOUNDARY_LEN bnd"

text \<open>The loop of \<open>parts\<close>; \<open>rest\<close> is the body from \<open>at\<close> on.\<close>

function parts_loop :: "bytes \<Rightarrow> bytes \<Rightarrow> nat \<Rightarrow> part list \<Rightarrow> part list option" where
  "parts_loop next rest headers_total parts =
     (case find_bytes rest CRLF2 of
        None \<Rightarrow> None
      | Some len \<Rightarrow>
          (let headers_total = headers_total + len in
           if len = 0 \<or> MAX_PART_HEADERS < headers_total then None
           else
             (case part_head (take len (drop 2 rest)) of
                None \<Rightarrow> None
              | Some head \<Rightarrow>
                  (let content = drop (len + 4) rest in
                   case find_bytes content next of
                     None \<Rightarrow> None
                   | Some end' \<Rightarrow>
                       (let parts = parts @ [\<lparr>pt_kind = ph_kind head, pt_name = ph_name head,
                                              pt_value = take end' content\<rparr>];
                            after = drop (end' + length next) content
                        in if length after < 2 then None
                           else if take 2 after = ''--'' then Some parts
                           else parts_loop next after headers_total parts)))))"
  by pat_completeness auto
termination
  by (relation "measure (\<lambda>(_, rest, _). length rest)") auto

declare parts_loop.simps [simp del]

definition parts :: "bytes \<Rightarrow> bytes \<Rightarrow> part list option" where
  "parts bnd body =
     (let next = next_delimiter bnd; first = drop 2 next in
      case find_bytes body first of
        None \<Rightarrow> None
      | Some i \<Rightarrow> parts_loop next (drop (i + length first) body) 0 [])"

section \<open>The streaming scan\<close>

datatype refusal = LocalFile | TooLarge | Unreadable

datatype verdict = Clean | Refused refusal

datatype scan_state = Prologue | Headers | Part kind | Last "byte option"

record multipart_scan =
  mp_state :: scan_state
  mp_first :: delimiter
  mp_next :: delimiter
  mp_headers :: bytes
  mp_headers_total :: nat
  mp_text_total :: nat
  mp_values :: local_values
  mp_form :: form
  mp_form_values :: local_values
  mp_verdict :: "verdict option"

definition multipart_new :: "bytes \<Rightarrow> multipart_scan option" where
  "multipart_new bnd =
     (let bnd = take MAX_BOUNDARY_LEN bnd in
      case (delimiter_new ''--'' bnd,
            delimiter_new [CHR 0x0D, CHR 0x0A, CHR ''-'', CHR ''-''] bnd) of
        (Some first, Some next) \<Rightarrow>
          Some \<lparr>mp_state = Prologue, mp_first = first, mp_next = next, mp_headers = [],
                mp_headers_total = 0, mp_text_total = 0, mp_values = values_default,
                mp_form = form_default, mp_form_values = values_default, mp_verdict = None\<rparr>
      | _ \<Rightarrow> None)"

definition refuse :: "refusal \<Rightarrow> multipart_scan \<Rightarrow> multipart_scan" where
  "refuse r s = s\<lparr>mp_verdict := Some (Refused r)\<rparr>"

definition header_byte :: "byte \<Rightarrow> multipart_scan \<Rightarrow> multipart_scan option" where
  "header_byte b s =
     (let s = s\<lparr>mp_headers := mp_headers s @ [b]\<rparr> in
      if mp_headers_total s + length (mp_headers s) > MAX_PART_HEADERS + 4 then Some (refuse Unreadable s)
      else if \<not> suffix CRLF2 (mp_headers s) then Some s
      else
        (let len = length (mp_headers s) - 4;
             s = s\<lparr>mp_headers_total := mp_headers_total s + len\<rparr>
         in case (if len = 0 then None else map_option ph_kind (part_head (take len (drop 2 (mp_headers s))))) of
              None \<Rightarrow> Some (refuse Unreadable s)
            | Some kind \<Rightarrow>
                map_option (\<lambda>v. s\<lparr>mp_values := v, mp_form := form_default, mp_state := Part kind\<rparr>)
                  (values_start 0 (mp_values s))))"

text \<open>The callback of \<open>part_byte\<close> on the content bytes the delimiter releases.\<close>

fun part_content :: "kind \<Rightarrow> bytes \<Rightarrow> multipart_scan \<Rightarrow> multipart_scan option" where
  "part_content kind [] s = Some s"
| "part_content kind (c # cs) s =
     (if kind = KFile then part_content kind cs s
      else
        (case values_byte 0 c (mp_values s) of
           None \<Rightarrow> None
         | Some v \<Rightarrow>
             (let s = s\<lparr>mp_text_total := mp_text_total s + 1, mp_values := v\<rparr> in
              if kind = KForm then
                (case form_byte (mp_form s) (mp_form_values s) c of
                   None \<Rightarrow> None
                 | Some (f, v) \<Rightarrow> part_content kind cs (s\<lparr>mp_form := f, mp_form_values := v\<rparr>))
              else part_content kind cs s)))"

definition part_byte :: "kind \<Rightarrow> byte \<Rightarrow> multipart_scan \<Rightarrow> multipart_scan option" where
  "part_byte kind b s =
     (case delimiter_step b [] (mp_next s) of
        None \<Rightarrow> None
      | Some (ended, content, next) \<Rightarrow>
          (case part_content kind content (s\<lparr>mp_next := next\<rparr>) of
             None \<Rightarrow> None
           | Some s \<Rightarrow>
               (case (if ended \<and> kind = KForm
                      then map_option (\<lambda>(f, v). s\<lparr>mp_form := f, mp_form_values := v\<rparr>)
                             (form_end (mp_form s) (mp_form_values s))
                      else Some s) of
                  None \<Rightarrow> None
                | Some s \<Rightarrow>
                    Some (if vs_found (mp_values s) \<or> vs_found (mp_form_values s) then refuse LocalFile s
                          else if MAX_PARAMETERS < mp_text_total s then refuse TooLarge s
                          else if ended then s\<lparr>mp_state := Last None\<rparr>
                          else s))))"

definition multipart_byte :: "byte \<Rightarrow> multipart_scan \<Rightarrow> multipart_scan option" where
  "multipart_byte b s =
     (case mp_state s of
        Prologue \<Rightarrow>
          (case delimiter_step b [] (mp_first s) of
             None \<Rightarrow> None
           | Some (ended, _, first) \<Rightarrow>
               (let s = s\<lparr>mp_first := first\<rparr>
                in Some (if ended then s\<lparr>mp_headers := [], mp_state := Headers\<rparr> else s)))
      | Headers \<Rightarrow> header_byte b s
      | Part kind \<Rightarrow> part_byte kind b s
      | Last None \<Rightarrow> Some (s\<lparr>mp_state := Last (Some b)\<rparr>)
      | Last (Some first) \<Rightarrow>
          if first = CHR ''-'' \<and> b = CHR ''-'' then Some (s\<lparr>mp_verdict := Some Clean\<rparr>)
          else
            (case header_byte first (s\<lparr>mp_headers := [], mp_state := Headers\<rparr>) of
               None \<Rightarrow> None
             | Some s \<Rightarrow> if mp_verdict s = None then header_byte b s else Some s))"

text \<open>\<open>feed\<close> gives the scan after; its result is the scan's verdict.\<close>

function multipart_feed :: "bytes \<Rightarrow> multipart_scan \<Rightarrow> multipart_scan option" where
  "multipart_feed data s =
     (if mp_verdict s \<noteq> None then Some s
      else
        (let skipped = (case mp_state s of
                          Prologue \<Rightarrow> skippable data (mp_first s)
                        | Part KFile \<Rightarrow> skippable data (mp_next s)
                        | _ \<Rightarrow> 0)
         in case drop skipped data of
              [] \<Rightarrow> Some s
            | b # rest \<Rightarrow>
                (case multipart_byte b s of None \<Rightarrow> None | Some s \<Rightarrow> multipart_feed rest s)))"
  by pat_completeness auto
termination
proof (relation "measure (\<lambda>(data, _). length data)")
  fix data s x b rest s'
  assume "drop x data = b # (rest :: bytes)"
  then have "length (drop x data) = length (b # rest)" by simp
  then show "((rest, s'), (data, s :: multipart_scan)) \<in> measure (\<lambda>(data, _). length data)" by simp
qed simp

declare multipart_feed.simps [simp del]

definition multipart_finish :: "multipart_scan \<Rightarrow> verdict \<times> multipart_scan" where
  "multipart_finish s =
     (case mp_verdict s of
        Some v \<Rightarrow> (v, s)
      | None \<Rightarrow> (Refused Unreadable, refuse Unreadable s))"

end
