(* ===== verification/Multipart_Props.thy ===== *)
theory Multipart_Props
  imports Multipart
begin

text \<open>
  The streaming scan and the in-memory parser agree. The scan is first reduced to a run byte
  by byte (skipping changes nothing), then followed through its states: prologue, header
  block, content of a part and the bytes after a delimiter. Each phase is described by what
  \<open>parts\<close> does there, and the result is that the scan clears a body exactly when \<open>parts\<close> reads
  it and none of the parameters it reads is dangerous.
\<close>

section \<open>What the values have seen\<close>

definition spotted :: "event list \<Rightarrow> bool" where
  "spotted es \<longleftrightarrow> list_ex (dangerous MAX_DEPTH) (snd (chunks es))"

lemma events_do_found:
  assumes "values_ok v" and "\<not> vs_found v" and "fst (chunks es) = []"
  shows "\<exists>v'. events_do es v = Some v' \<and> values_ok v' \<and> vs_found v' = spotted es"
  using events_do_moved [OF assms(1), of es] event_run_dangerous [of "levels v 0" MAX_DEPTH es] assms
  by (auto simp: moved_def spotted_def)

lemma events_do_append: "events_do (es @ fs) v = Option.bind (events_do es v) (events_do fs)"
  by (induction es arbitrary: v rule: chunks.induct) (auto split: bind_splits)

lemma fst_chunks_append: "fst (chunks es) = [] \<Longrightarrow> es \<noteq> [] \<Longrightarrow> fst (chunks (es @ fs)) = []"
  by (cases es rule: chunks.cases) auto

lemma fst_chunks_prefix: "fst (chunks (es @ fs)) = [] \<Longrightarrow> fst (chunks es) = []"
  by (cases es rule: chunks.cases) auto

lemma spotted_append:
  assumes "fst (chunks (es @ fs)) = []" and "spotted es"
  shows "spotted (es @ fs)"
proof -
  from fst_chunks_prefix [OF assms(1)] have es: "fst (chunks es) = []" .
  have d: "values_ok values_default" "\<not> vs_found values_default" by simp (simp add: values_default_def)
  from events_do_found [OF d es] assms(2) obtain v where v: "events_do es values_default = Some v" "values_ok v" "vs_found v"
    by auto
  from events_do_moved [OF v(2), of fs] obtain v' where v': "events_do fs v = Some v'" "vs_found v'"
    using v(3) by (auto simp: moved_def)
  with v(1) events_do_found [OF d assms(1)] show ?thesis by (auto simp: events_do_append)
qed

lemma chunks_map_Char: "chunks (map Char c @ es) = (c @ fst (chunks es), snd (chunks es))"
  by (induction c) auto

lemma spotted_value [simp]: "spotted (Start # map Char c) \<longleftrightarrow> dangerous MAX_DEPTH c"
  using chunks_map_Char [of c "[]"] by (simp add: spotted_def)

lemma dangerous_prefix:
  assumes "dangerous MAX_DEPTH c" and "prefix c c'"
  shows "dangerous MAX_DEPTH c'"
proof -
  obtain r where "c' = c @ r" using assms(2) by (auto simp: prefix_def)
  with spotted_append [of "Start # map Char c" "map Char r"] assms(1) chunks_map_Char [of "c @ r" "[]"]
    spotted_value [of "c @ r"] show ?thesis by simp
qed

text \<open>The form scan of a text that has not ended yet.\<close>

fun form_evs :: "form \<Rightarrow> bytes \<Rightarrow> event list" where
  "form_evs f [] = []"
| "form_evs f (b # bs) = (case form_step f b of (f, es) \<Rightarrow> es @ form_evs f bs)"

fun form_state :: "form \<Rightarrow> bytes \<Rightarrow> form" where
  "form_state f [] = f"
| "form_state f (b # bs) = form_state (fst (form_step f b)) bs"

lemma form_events_split: "form_events f w = form_evs f w @ end_events (form_state f w)"
  by (induction w arbitrary: f) (auto split: prod.splits)

lemma form_evs_append: "form_evs f (a @ b) = form_evs f a @ form_evs (form_state f a) b"
  by (induction a arbitrary: f) (auto split: prod.splits)

lemma form_state_append: "form_state f (a @ b) = form_state (form_state f a) b"
  by (induction a arbitrary: f) auto

lemma fst_chunks_form: "fst (chunks (form_evs FName w @ es)) = []" if "es = end_events (form_state FName w)"
  using form_events_values [of w] that by (simp add: form_events_split)

lemma fst_chunks_form_evs [simp]: "fst (chunks (form_evs FName w)) = []"
  by (rule fst_chunks_prefix [OF fst_chunks_form [OF refl]])

lemma spotted_form: "spotted (form_events FName w) \<longleftrightarrow> list_ex (dangerous MAX_DEPTH) (form_values w)"
  using form_events_values [of w] by (simp add: spotted_def)

lemma spotted_form_prefix:
  assumes "spotted (form_evs FName c)" and "prefix c c'"
  shows "spotted (form_events FName c')"
proof -
  obtain r where r: "c' = c @ r" using assms(2) by (auto simp: prefix_def)
  have e: "form_events FName c' = form_evs FName c @ form_evs (form_state FName c) r @ end_events (form_state FName c')"
    by (simp add: r form_events_split form_evs_append)
  have "fst (chunks (form_events FName c')) = []" using form_events_values [of c'] by simp
  with spotted_append assms(1) show ?thesis unfolding e by blast
qed

section \<open>What a part's content amounts to\<close>

text \<open>Content the scan refuses, while it is read and once it has been read.\<close>

definition bad :: "kind \<Rightarrow> nat \<Rightarrow> bytes \<Rightarrow> bool" where
  "bad kind x c \<longleftrightarrow> kind \<noteq> KFile \<and>
     (dangerous MAX_DEPTH c \<or> MAX_PARAMETERS < x + length c \<or> kind = KForm \<and> spotted (form_evs FName c))"

definition bad_part :: "kind \<Rightarrow> nat \<Rightarrow> bytes \<Rightarrow> bool" where
  "bad_part kind x c \<longleftrightarrow> kind \<noteq> KFile \<and>
     (dangerous MAX_DEPTH c \<or> MAX_PARAMETERS < x + length c \<or>
      kind = KForm \<and> list_ex (dangerous MAX_DEPTH) (form_values c))"

definition text_size :: "kind \<Rightarrow> bytes \<Rightarrow> nat" where
  "text_size kind c = (if kind = KFile then 0 else length c)"

lemma bad_prefix: "bad kind x c \<Longrightarrow> prefix c c' \<Longrightarrow> bad_part kind x c'"
  using dangerous_prefix [of c c'] spotted_form_prefix [of c c'] prefix_length_le [of c c']
  by (auto simp: bad_def bad_part_def spotted_form)

section \<open>Invariants of the scan\<close>

definition first_delimiter :: "bytes \<Rightarrow> bytes" where
  "first_delimiter bnd = ''--'' @ take MAX_BOUNDARY_LEN bnd"

definition scan_ok :: "bytes \<Rightarrow> nat \<Rightarrow> nat \<Rightarrow> multipart_scan \<Rightarrow> bool" where
  "scan_ok bnd t x s \<longleftrightarrow>
     delim_ok (first_delimiter bnd) (mp_first s) \<and> delim_ok (next_delimiter bnd) (mp_next s) \<and>
     values_ok (mp_values s) \<and> \<not> vs_found (mp_values s) \<and>
     values_ok (mp_form_values s) \<and> \<not> vs_found (mp_form_values s) \<and>
     mp_headers_total s = t \<and> mp_text_total s = x \<and> x \<le> MAX_PARAMETERS \<and> mp_verdict s = None"

definition at_headers :: "bytes \<Rightarrow> nat \<Rightarrow> nat \<Rightarrow> multipart_scan \<Rightarrow> bool" where
  "at_headers bnd t x s \<longleftrightarrow>
     scan_ok bnd t x s \<and> mp_state s = Headers \<and> mp_headers s = [] \<and> dl_matched (mp_next s) = 0"

definition at_last :: "bytes \<Rightarrow> nat \<Rightarrow> nat \<Rightarrow> multipart_scan \<Rightarrow> bool" where
  "at_last bnd t x s \<longleftrightarrow> scan_ok bnd t x s \<and> mp_state s = Last None \<and> dl_matched (mp_next s) = 0"

text \<open>The scan is in a part of \<open>kind\<close> whose content so far is \<open>c\<close>.\<close>

definition in_part :: "bytes \<Rightarrow> kind \<Rightarrow> nat \<Rightarrow> nat \<Rightarrow> bytes \<Rightarrow> multipart_scan \<Rightarrow> bool" where
  "in_part bnd kind t x c s \<longleftrightarrow>
     scan_ok bnd t (x + text_size kind c) s \<and> mp_state s = Part kind \<and>
     (\<exists>v. values_ok v \<and> \<not> vs_found v \<and>
        events_do (Start # map Char (if kind = KFile then [] else c)) v = Some (mp_values s)) \<and>
     (\<exists>v. values_ok v \<and> \<not> vs_found v \<and>
        events_do (form_evs FName (if kind = KForm then c else [])) v = Some (mp_form_values s)) \<and>
     mp_form s = form_state FName (if kind = KForm then c else [])"

definition refused :: "multipart_scan \<Rightarrow> bool" where
  "refused s \<longleftrightarrow> (\<exists>r. mp_verdict s = Some (Refused r))"

lemma delim_step_total:
  assumes "delim_ok p d"
  obtains e rel m where "\<forall>acc. delimiter_step b acc d = Some (e, acc @ rel, d\<lparr>dl_matched := m\<rparr>)"
    "delim_ok p (d\<lparr>dl_matched := m\<rparr>)" "e \<longrightarrow> m = 0"
proof -
  have "searching p (take (dl_matched d) p) [] d"
    using assms by (auto simp: searching_def delim_ok_def longest_match_def dest: suffix_length_le)
  from delimiter_step_spec [OF this, of b] that show ?thesis
    using assms by (auto simp: searching_def delim_ok_def split: if_splits)
qed

section \<open>One byte of a part\<close>

lemma part_content_text:
  assumes "kind \<noteq> KFile" and "events_do (map Char c) (mp_values s) = Some v"
    and "if kind = KForm then events_do (form_evs (mp_form s) c) (mp_form_values s) = Some w else w = mp_form_values s"
  shows "part_content kind c s =
    Some (s\<lparr>mp_text_total := mp_text_total s + length c, mp_values := v,
            mp_form := if kind = KForm then form_state (mp_form s) c else mp_form s, mp_form_values := w\<rparr>)"
  using assms
proof (induction c arbitrary: s)
  case (Cons b c)
  from Cons.prems(2) obtain v1 where v1: "values_byte 0 b (mp_values s) = Some v1" "events_do (map Char c) v1 = Some v"
    by (auto split: bind_splits)
  show ?case
  proof (cases "kind = KForm")
    case False
    with Cons.IH [of "s\<lparr>mp_text_total := mp_text_total s + 1, mp_values := v1\<rparr>"] Cons.prems(1,3) v1 show ?thesis
      by simp
  next
    case True
    obtain f es where f: "form_step (mp_form s) b = (f, es)" by (cases "form_step (mp_form s) b")
    from Cons.prems(3) True f obtain w1 where
      w1: "events_do es (mp_form_values s) = Some w1" "events_do (form_evs f c) w1 = Some w"
      by (auto simp: events_do_append split: bind_splits)
    with Cons.IH [of "s\<lparr>mp_text_total := mp_text_total s + 1, mp_values := v1, mp_form := f, mp_form_values := w1\<rparr>"]
      True v1 f form_byte_events [OF f, of "mp_form_values s"] show ?thesis by simp
  qed
qed auto

lemma part_content_file: "part_content KFile c s = Some s"
  by (induction c) auto

text \<open>The content \<open>rel\<close> of a byte joins the content \<open>c\<close> before it.\<close>

lemma in_part_content:
  assumes "in_part bnd kind t x c s"
  obtains s' where "part_content kind rel (s\<lparr>mp_next := d\<rparr>) = Some s'"
    "mp_state s' = Part kind" "mp_first s' = mp_first s" "mp_next s' = d" "mp_headers_total s' = t" "mp_verdict s' = None"
    "mp_text_total s' = x + text_size kind (c @ rel)" "values_ok (mp_values s')" "values_ok (mp_form_values s')"
    "vs_found (mp_values s') \<longleftrightarrow> kind \<noteq> KFile \<and> dangerous MAX_DEPTH (c @ rel)"
    "vs_found (mp_form_values s') \<longleftrightarrow> kind = KForm \<and> spotted (form_evs FName (c @ rel))"
    "\<exists>v. values_ok v \<and> \<not> vs_found v \<and>
        events_do (Start # map Char (if kind = KFile then [] else c @ rel)) v = Some (mp_values s')"
    "\<exists>v. values_ok v \<and> \<not> vs_found v \<and>
        events_do (form_evs FName (if kind = KForm then c @ rel else [])) v = Some (mp_form_values s')"
    "mp_form s' = form_state FName (if kind = KForm then c @ rel else [])"
proof (cases "kind = KFile")
  case True
  with that [of "s\<lparr>mp_next := d\<rparr>"] assms show ?thesis
    by (auto simp: in_part_def scan_ok_def part_content_file text_size_def)
next
  case False
  from assms obtain v w where
    v: "values_ok v" "\<not> vs_found v" "events_do (Start # map Char c) v = Some (mp_values s)" and
    w: "values_ok w" "\<not> vs_found w" "events_do (form_evs FName (if kind = KForm then c else [])) w = Some (mp_form_values s)"
    and s: "mp_form s = form_state FName (if kind = KForm then c else [])" "scan_ok bnd t (x + text_size kind c) s"
      "mp_state s = Part kind"
    using False by (auto simp: in_part_def)
  have "fst (chunks (Start # map Char (c @ rel))) = []" by simp
  from events_do_found [OF v(1,2) this] obtain v' where
    v': "events_do (Start # map Char (c @ rel)) v = Some v'" "values_ok v'" "vs_found v' = dangerous MAX_DEPTH (c @ rel)"
    by (auto simp del: map_append)
  have vr: "events_do (map Char rel) (mp_values s) = Some v'"
    using v'(1) v(3) events_do_append [of "Start # map Char c" "map Char rel" v] by simp
  let ?c = "if kind = KForm then c @ rel else []"
  from events_do_found [OF w(1,2), of "form_evs FName ?c"] obtain w' where
    w': "events_do (form_evs FName ?c) w = Some w'" "values_ok w'" "vs_found w' = spotted (form_evs FName ?c)" by auto
  have wr: "if kind = KForm then events_do (form_evs (mp_form s) rel) (mp_form_values s) = Some w' else w' = mp_form_values s"
    using w'(1) w(3) s(1) events_do_append [of "form_evs FName c" "form_evs (mp_form s) rel" w]
    by (auto simp: form_evs_append)
  have sp: "spotted (form_evs FName ?c) \<longleftrightarrow> kind = KForm \<and> spotted (form_evs FName (c @ rel))"
    by (simp add: spotted_def)
  let ?s = "s\<lparr>mp_next := d, mp_text_total := mp_text_total s + length rel, mp_values := v',
      mp_form := if kind = KForm then form_state (mp_form s) rel else mp_form s, mp_form_values := w'\<rparr>"
  have "part_content kind rel (s\<lparr>mp_next := d\<rparr>) = Some ?s"
    using part_content_text [OF False, of rel "s\<lparr>mp_next := d\<rparr>" v' w'] vr wr by simp
  then show ?thesis
  proof (rule that)
    show "\<exists>v. values_ok v \<and> \<not> vs_found v \<and>
        events_do (Start # map Char (if kind = KFile then [] else c @ rel)) v = Some (mp_values ?s)"
      using v(1,2) v'(1) False by auto
    show "\<exists>v. values_ok v \<and> \<not> vs_found v \<and> events_do (form_evs FName ?c) v = Some (mp_form_values ?s)"
      using w(1,2) w'(1) by auto
    show "mp_form ?s = form_state FName ?c" using s(1) by (simp add: form_state_append)
    show "vs_found (mp_values ?s) \<longleftrightarrow> kind \<noteq> KFile \<and> dangerous MAX_DEPTH (c @ rel)" using v'(3) False by simp
    show "vs_found (mp_form_values ?s) \<longleftrightarrow> kind = KForm \<and> spotted (form_evs FName (c @ rel))" using w'(3) sp by simp
  qed (use s v'(2) w'(2) False in \<open>auto simp: scan_ok_def text_size_def\<close>)
qed

lemma part_byte_step:
  assumes "in_part bnd kind t x c s" and "\<forall>acc. delimiter_step b acc (mp_next s) = Some (ended, acc @ rel, d)"
    and "delim_ok (next_delimiter bnd) d"
  shows "\<exists>s'. part_byte kind b s = Some s' \<and>
    (if ended then (if bad_part kind x (c @ rel) then refused s'
                    else scan_ok bnd t (x + text_size kind (c @ rel)) s' \<and> mp_state s' = Last None \<and> mp_next s' = d)
     else (if bad kind x (c @ rel) then refused s' else in_part bnd kind t x (c @ rel) s' \<and> mp_next s' = d))"
proof -
  have step: "delimiter_step b [] (mp_next s) = Some (ended, rel, d)" using spec [OF assms(2), of "[]"] by simp
  have fst: "delim_ok (first_delimiter bnd) (mp_first s)" using assms(1) by (simp add: in_part_def scan_ok_def)
  obtain s1 where s1: "part_content kind rel (s\<lparr>mp_next := d\<rparr>) = Some s1"
    "mp_state s1 = Part kind" "mp_first s1 = mp_first s" "mp_next s1 = d" "mp_headers_total s1 = t" "mp_verdict s1 = None"
    "mp_text_total s1 = x + text_size kind (c @ rel)" "values_ok (mp_values s1)" "values_ok (mp_form_values s1)"
    "vs_found (mp_values s1) \<longleftrightarrow> kind \<noteq> KFile \<and> dangerous MAX_DEPTH (c @ rel)"
    "vs_found (mp_form_values s1) \<longleftrightarrow> kind = KForm \<and> spotted (form_evs FName (c @ rel))"
    "\<exists>v. values_ok v \<and> \<not> vs_found v \<and>
        events_do (Start # map Char (if kind = KFile then [] else c @ rel)) v = Some (mp_values s1)"
    "\<exists>v. values_ok v \<and> \<not> vs_found v \<and>
        events_do (form_evs FName (if kind = KForm then c @ rel else [])) v = Some (mp_form_values s1)"
    "mp_form s1 = form_state FName (if kind = KForm then c @ rel else [])"
    by (rule in_part_content [OF assms(1)])
  have x: "x \<le> MAX_PARAMETERS" using assms(1) by (simp add: in_part_def scan_ok_def)
  show ?thesis
  proof (cases "ended \<and> kind = KForm")
    case False
    then show ?thesis
      using step s1 fst assms(3) x
      by (auto simp: part_byte_def refused_def refuse_def bad_def bad_part_def in_part_def scan_ok_def text_size_def)
  next
    case True
    from s1(13) True obtain w where w: "values_ok w" "\<not> vs_found w" "events_do (form_evs FName (c @ rel)) w = Some (mp_form_values s1)"
      by auto
    from events_do_found [OF w(1,2), of "form_events FName (c @ rel)"] form_events_values [of "c @ rel"] obtain w' where
      w': "events_do (form_events FName (c @ rel)) w = Some w'" "values_ok w'"
      "vs_found w' \<longleftrightarrow> list_ex (dangerous MAX_DEPTH) (form_values (c @ rel))" by (auto simp: spotted_form)
    then have e: "form_end (mp_form s1) (mp_form_values s1) = Some (FName, w')"
      using w(3) s1(14) True by (simp add: form_end_events form_events_split events_do_append)
    show ?thesis
      using True step s1 fst assms(3) x e w'(2,3)
      by (auto simp: part_byte_def refused_def refuse_def bad_part_def scan_ok_def text_size_def)
  qed
qed

section \<open>The phases of a scan\<close>

text \<open>The scan without skipping.\<close>

fun multipart_bytes :: "bytes \<Rightarrow> multipart_scan \<Rightarrow> multipart_scan option" where
  "multipart_bytes [] s = Some s"
| "multipart_bytes (b # bs) s =
     (if mp_verdict s \<noteq> None then Some s
      else (case multipart_byte b s of None \<Rightarrow> None | Some s \<Rightarrow> multipart_bytes bs s))"

lemma multipart_bytes_done [simp]: "mp_verdict s \<noteq> None \<Longrightarrow> multipart_bytes w s = Some s"
  by (cases w) auto

lemma multipart_bytes_refused: "refused s \<Longrightarrow> multipart_bytes w s = Some s"
  by (auto simp: refused_def)

lemma multipart_bytes_append:
  "multipart_bytes (u @ w) s = Option.bind (multipart_bytes u s) (multipart_bytes w)"
proof (induction u arbitrary: s)
  case (Cons b u)
  then show ?case by (cases "mp_verdict s"; cases "multipart_byte b s") auto
qed simp

lemma delimiter_feed_prefix:
  "delim_ok p d \<Longrightarrow> delimiter_feed w c d = Some (r, c', d') \<Longrightarrow> prefix c c'"
proof (induction w arbitrary: c d)
  case (Cons b w)
  obtain e rel m where st: "\<forall>acc. delimiter_step b acc d = Some (e, acc @ rel, d\<lparr>dl_matched := m\<rparr>)"
    "delim_ok p (d\<lparr>dl_matched := m\<rparr>)" "e \<longrightarrow> m = 0" by (rule delim_step_total [OF Cons.prems(1), of b])
  show ?case
  proof (cases e)
    case True
    with Cons.prems(2) st show ?thesis by auto
  next
    case False
    with Cons.IH [OF st(2), of "c @ rel"] Cons.prems(2) spec [OF st(1), of c] show ?thesis
      by (auto simp: prefix_def)
  qed
qed auto

lemma part_run:
  assumes "in_part bnd kind t x c s" and "delimiter_feed w c (mp_next s) = Some (r, c', d')"
  shows "case r of
      None \<Rightarrow> \<exists>s'. multipart_bytes w s = Some s' \<and> mp_verdict s' \<noteq> Some Clean
    | Some rest \<Rightarrow>
        if bad_part kind x c' then \<exists>s'. multipart_bytes w s = Some s' \<and> refused s'
        else \<exists>s'. multipart_bytes w s = multipart_bytes rest s' \<and> scan_ok bnd t (x + text_size kind c') s' \<and>
               mp_state s' = Last None \<and> mp_next s' = d'"
  using assms
proof (induction w arbitrary: c s)
  case Nil
  then show ?case by (auto simp: in_part_def scan_ok_def)
next
  case (Cons b w)
  have st: "mp_state s = Part kind" "mp_verdict s = None" and ok: "delim_ok (next_delimiter bnd) (mp_next s)"
    using Cons.prems(1) by (auto simp: in_part_def scan_ok_def)
  obtain e rel m where step: "\<forall>acc. delimiter_step b acc (mp_next s) = Some (e, acc @ rel, (mp_next s)\<lparr>dl_matched := m\<rparr>)"
    and dok: "delim_ok (next_delimiter bnd) ((mp_next s)\<lparr>dl_matched := m\<rparr>)" and "e \<longrightarrow> m = 0" by (rule delim_step_total [OF ok, of b])
  let ?d = "(mp_next s)\<lparr>dl_matched := m\<rparr>"
  obtain s1 where s1: "part_byte kind b s = Some s1"
    "if e then (if bad_part kind x (c @ rel) then refused s1
                else scan_ok bnd t (x + text_size kind (c @ rel)) s1 \<and> mp_state s1 = Last None \<and> mp_next s1 = ?d)
     else (if bad kind x (c @ rel) then refused s1 else in_part bnd kind t x (c @ rel) s1 \<and> mp_next s1 = ?d)"
    using part_byte_step [OF Cons.prems(1) step dok] by blast
  have run: "multipart_bytes (b # w) s = multipart_bytes w s1" using st s1(1) by (simp add: multipart_byte_def)
  show ?case
  proof (cases e)
    case True
    then have "r = Some w" "c' = c @ rel" "d' = ?d" using Cons.prems(2) spec [OF step, of c] by auto
    with True s1(2) run multipart_bytes_refused [of s1 w] show ?thesis by auto
  next
    case False
    then have fd: "delimiter_feed w (c @ rel) ?d = Some (r, c', d')" using Cons.prems(2) spec [OF step, of c] by simp
    show ?thesis
    proof (cases "bad kind x (c @ rel)")
      case True
      with False s1(2) have "refused s1" by simp
      moreover have "bad_part kind x c'" by (rule bad_prefix [OF True delimiter_feed_prefix [OF dok fd]])
      ultimately show ?thesis using run multipart_bytes_refused [of s1 w]
        by (auto simp: refused_def split: option.splits)
    next
      case ok: False
      with False s1(2) have p1: "in_part bnd kind t x (c @ rel) s1" and "mp_next s1 = ?d" by auto
      with fd have "delimiter_feed w (c @ rel) (mp_next s1) = Some (r, c', d')" by simp
      from Cons.IH [OF p1 this] show ?thesis unfolding run .
    qed
  qed
qed

lemma header_run:
  assumes "scan_ok bnd t x s" and "mp_state s = Headers" and "t + length (mp_headers s) \<le> MAX_PART_HEADERS + 4"
    and "\<forall>u. prefix u w \<and> u \<noteq> [] \<longrightarrow> \<not> suffix CRLF2 (mp_headers s @ u)"
  shows "\<exists>s'. multipart_bytes w s = Some s' \<and>
    (if t + length (mp_headers s @ w) \<le> MAX_PART_HEADERS + 4 then s' = s\<lparr>mp_headers := mp_headers s @ w\<rparr> else refused s')"
  using assms
proof (induction w arbitrary: s)
  case Nil
  then show ?case by simp
next
  case (Cons b w)
  let ?s = "s\<lparr>mp_headers := mp_headers s @ [b]\<rparr>"
  have nt: "\<not> suffix CRLF2 (mp_headers s @ [b])" using spec [OF Cons.prems(4), of "[b]"] by simp
  have t: "mp_headers_total s = t" "mp_verdict s = None" using Cons.prems(1) by (simp_all add: scan_ok_def)
  have ok: "scan_ok bnd t x ?s" using Cons.prems(1) by (simp add: scan_ok_def)
  show ?case
  proof (cases "t + length (mp_headers s @ [b]) \<le> MAX_PART_HEADERS + 4")
    case True
    have "multipart_bytes (b # w) s = multipart_bytes w ?s"
      using t nt True Cons.prems(2) by (simp add: multipart_byte_def header_byte_def)
    moreover have nosuf: "\<forall>u. prefix u w \<and> u \<noteq> [] \<longrightarrow> \<not> suffix CRLF2 (mp_headers ?s @ u)"
    proof (intro allI impI)
      fix u assume "prefix u w \<and> u \<noteq> []"
      with spec [OF Cons.prems(4), of "b # u"] show "\<not> suffix CRLF2 (mp_headers ?s @ u)" by simp
    qed
    moreover have "mp_headers ?s @ w = mp_headers s @ b # w" "\<And>h. ?s\<lparr>mp_headers := h\<rparr> = s\<lparr>mp_headers := h\<rparr>" by simp_all
    moreover have st: "mp_state ?s = Headers" "t + length (mp_headers ?s) \<le> MAX_PART_HEADERS + 4"
      using Cons.prems(2) True by simp_all
    ultimately show ?thesis using Cons.IH [OF ok st nosuf] by (simp only:)
  next
    case False
    then have "multipart_bytes (b # w) s = Some (refuse Unreadable ?s)"
      using t Cons.prems(2) by (simp add: multipart_byte_def header_byte_def refuse_def)
    with False show ?thesis by (simp add: refused_def refuse_def)
  qed
qed

text \<open>No prefix of the bytes before the end of the first occurrence of \<open>p\<close> ends with \<open>p\<close>.\<close>

lemma no_suffix_before:
  assumes "p \<noteq> []" and "prefix u bs" and "suffix p u"
  shows "\<exists>i. find_bytes bs p = Some i \<and> i + length p \<le> length u"
proof -
  obtain c where u: "u = c @ p" using assms(3) by (auto simp: suffix_def)
  obtain r where bs: "bs = u @ r" using assms(2) by (auto simp: prefix_def)
  have pre: "prefix p (drop (length c) bs)" by (simp add: bs u)
  obtain i where i: "find_bytes bs p = Some i"
    using find_bytes_None_iff [OF assms(1), of bs] pre by (cases "find_bytes bs p") auto
  have "\<not> length c < i" using find_bytes_SomeD [OF assms(1) i] pre by blast
  with i u show ?thesis by auto
qed

lemma CRLF2_props: "CRLF2 \<noteq> []" "length CRLF2 = 4" "CRLF2 = butlast CRLF2 @ [CHR 0x0A]"
  by (simp_all add: CRLF2_def)

lemma values_start_ok:
  assumes "values_ok v"
  shows "\<exists>v'. values_start 0 v = Some v' \<and> values_ok v' \<and> vs_found v' = vs_found v"
  using values_start_moved [OF assms, of 0] by (auto simp: moved_def)

lemma header_done:
  assumes "scan_ok bnd t x s" and "mp_state s = Headers" and "mp_headers s @ [b] = h" and "suffix CRLF2 h"
    and "dl_matched (mp_next s) = 0" and "len = length h - 4"
  shows "\<exists>s'. multipart_byte b s = Some s' \<and>
    (if len = 0 \<or> MAX_PART_HEADERS < t + len then refused s'
     else (case part_head (take len (drop 2 h)) of
             None \<Rightarrow> refused s'
           | Some head \<Rightarrow> in_part bnd (ph_kind head) (t + len) x [] s' \<and> dl_matched (mp_next s') = 0))"
proof -
  have t: "mp_headers_total s = t" using assms(1) by (simp add: scan_ok_def)
  have "4 \<le> length h" using suffix_length_le [OF assms(4)] by (simp add: CRLF2_def)
  then have over: "t + length h > MAX_PART_HEADERS + 4 \<longleftrightarrow> MAX_PART_HEADERS < t + len" using assms(6) by auto
  have v: "values_ok (mp_values s)" "\<not> vs_found (mp_values s)" "values_ok (mp_form_values s)" "\<not> vs_found (mp_form_values s)"
    using assms(1) by (simp_all add: scan_ok_def)
  obtain v' where v': "values_start 0 (mp_values s) = Some v'" "values_ok v'" "\<not> vs_found v'"
    using values_start_ok [OF v(1)] v(2) by auto
  have ex: "\<exists>v. values_ok v \<and> \<not> vs_found v \<and> values_start 0 v = Some v'" using v v'(1) by blast
  show ?thesis
    using assms(1-6) t over v v' ex
    by (auto simp: multipart_byte_def header_byte_def refused_def refuse_def in_part_def scan_ok_def text_size_def
        form_default_def Let_def split: option.splits)
qed

lemma header_phase:
  assumes "at_headers bnd t x s" and "t \<le> MAX_PART_HEADERS"
  shows "case find_bytes rest CRLF2 of
      None \<Rightarrow> \<exists>s'. multipart_bytes rest s = Some s' \<and> mp_verdict s' \<noteq> Some Clean
    | Some len \<Rightarrow>
        if len = 0 \<or> MAX_PART_HEADERS < t + len then \<exists>s'. multipart_bytes rest s = Some s' \<and> refused s'
        else (case part_head (take len (drop 2 rest)) of
                None \<Rightarrow> \<exists>s'. multipart_bytes rest s = Some s' \<and> refused s'
              | Some head \<Rightarrow> \<exists>s'. multipart_bytes rest s = multipart_bytes (drop (len + 4) rest) s' \<and>
                  in_part bnd (ph_kind head) (t + len) x [] s' \<and> dl_matched (mp_next s') = 0)"
proof -
  have s: "scan_ok bnd t x s" "mp_state s = Headers" "mp_headers s = []" "dl_matched (mp_next s) = 0" "mp_verdict s = None"
    using assms(1) by (auto simp: at_headers_def scan_ok_def)
  note run = header_run [OF s(1,2)]
  show ?thesis
  proof (cases "find_bytes rest CRLF2")
    case None
    have "\<forall>u. prefix u rest \<and> u \<noteq> [] \<longrightarrow> \<not> suffix CRLF2 (mp_headers s @ u)"
      using no_suffix_before [OF CRLF2_props(1)] None s(3) by fastforce
    from run [OF _ this] assms(2) s(3,5) None show ?thesis by (auto simp: refused_def split: if_splits)
  next
    case (Some len)
    from find_bytes_SomeD [OF CRLF2_props(1) Some] have r: "len + 4 \<le> length rest"
      "rest = take len rest @ CRLF2 @ drop (len + 4) rest" by (auto simp: CRLF2_props(2))
    let ?u = "take len rest @ butlast CRLF2" and ?h = "take (len + 4) rest"
    have h: "?u @ [CHR 0x0A] = ?h" using r CRLF2_props
      by (metis append.assoc append_eq_conv_conj length_append length_take min.absorb2 add_leD1)
    have lu: "length ?u = len + 3" using r(1) by (simp add: CRLF2_def)
    have rest: "rest = ?u @ CHR 0x0A # drop (len + 4) rest"
      using h by (metis append.assoc append_Cons append_Nil append_take_drop_id)
    have "\<not> suffix CRLF2 u" if "prefix u ?u" for u
    proof
      assume "suffix CRLF2 u"
      moreover have "prefix u rest" using that rest by (metis prefix_order.trans prefixI)
      ultimately show False
        using no_suffix_before [OF CRLF2_props(1), of u rest] Some lu prefix_length_le [OF that] by (simp add: CRLF2_props(2))
    qed
    then have "\<forall>u. prefix u ?u \<and> u \<noteq> [] \<longrightarrow> \<not> suffix CRLF2 (mp_headers s @ u)" using s(3) by simp
    from run [OF _ this] assms(2) s(3) lu obtain s1 where s1: "multipart_bytes ?u s = Some s1"
      "if t + len \<le> MAX_PART_HEADERS + 1 then s1 = s\<lparr>mp_headers := ?u\<rparr> else refused s1" by auto
    have bytes: "multipart_bytes rest s = multipart_bytes (CHR 0x0A # drop (len + 4) rest) s1"
      using s1(1) multipart_bytes_append [of ?u "CHR 0x0A # drop (len + 4) rest" s] rest by simp
    show ?thesis
    proof (cases "t + len \<le> MAX_PART_HEADERS + 1")
      case False
      with s1(2) have "refused s1" by simp
      moreover from this have "multipart_bytes rest s = Some s1" using bytes multipart_bytes_refused by metis
      ultimately show ?thesis using False Some by auto
    next
      case True
      with s1(2) have s1': "s1 = s\<lparr>mp_headers := ?u\<rparr>" by simp
      have suf: "suffix CRLF2 ?h" using r by (metis append_eq_conv_conj length_append length_take min.absorb2 add_leD1
            CRLF2_props(2) suffixI append.assoc)
      have "scan_ok bnd t x s1" "mp_state s1 = Headers" "mp_headers s1 @ [CHR 0x0A] = ?h" "dl_matched (mp_next s1) = 0"
        using s h by (simp_all add: s1' scan_ok_def)
      from header_done [OF this(1-3) suf this(4), of len] r(1) obtain s2 where
        s2: "multipart_byte (CHR 0x0A) s1 = Some s2"
        "if len = 0 \<or> MAX_PART_HEADERS < t + len then refused s2
         else (case part_head (take len (drop 2 ?h)) of
             None \<Rightarrow> refused s2
           | Some head \<Rightarrow> in_part bnd (ph_kind head) (t + len) x [] s2 \<and> dl_matched (mp_next s2) = 0)" by auto
      have "multipart_bytes rest s = multipart_bytes (drop (len + 4) rest) s2"
        using bytes s2(1) s(5) by (simp add: s1')
      moreover have "take len (drop 2 ?h) = take len (drop 2 rest)" by (simp add: drop_take min_def)
      ultimately show ?thesis using s2(2) Some multipart_bytes_refused [of s2]
        by (auto split: option.splits)
    qed
  qed
qed

lemma header_byte_short:
  assumes "length (mp_headers s) < 3" and "header_byte b s = Some s'"
  shows "s' = s\<lparr>mp_headers := mp_headers s @ [b]\<rparr> \<or> refused s'"
proof -
  have "\<not> suffix CRLF2 (mp_headers s @ [b])"
    using suffix_length_le [of CRLF2 "mp_headers s @ [b]"] assms(1) by (auto simp: CRLF2_props(2))
  with assms(2) show ?thesis
    by (auto simp: header_byte_def Let_def refused_def refuse_def split: if_splits)
qed

text \<open>After a delimiter: two dashes end the body, other bytes begin the next header block.\<close>

lemma last_phase:
  assumes "at_last bnd t x s"
  shows "if length rest < 2 then \<exists>s'. multipart_bytes rest s = Some s' \<and> mp_verdict s' \<noteq> Some Clean
    else if take 2 rest = ''--'' then \<exists>s'. multipart_bytes rest s = Some s' \<and> mp_verdict s' = Some Clean
    else \<exists>s'. multipart_bytes rest s = multipart_bytes rest s' \<and> at_headers bnd t x s'"
proof -
  have s: "mp_state s = Last None" "mp_verdict s = None" using assms by (auto simp: at_last_def scan_ok_def)
  consider "rest = []" | a where "rest = [a]" | a b r where "rest = a # b # r" by (metis remdups_adj.cases)
  then show ?thesis
  proof cases
    case (3 a b r)
    let ?s = "s\<lparr>mp_headers := [], mp_state := Headers\<rparr>"
    have h: "at_headers bnd t x ?s" using assms by (simp add: at_last_def at_headers_def scan_ok_def)
    show ?thesis
    proof (cases "a = CHR ''-'' \<and> b = CHR ''-''")
      case True
      with 3 s show ?thesis by (simp add: multipart_byte_def)
    next
      case False
      have "multipart_bytes rest s = multipart_bytes rest ?s"
      proof (cases "header_byte a ?s")
        case None
        with False s show ?thesis by (simp add: 3 multipart_byte_def)
      next
        case (Some s1)
        from header_byte_short [OF _ this] have "s1 = ?s\<lparr>mp_headers := [a]\<rparr> \<or> refused s1" by simp
        with Some False s show ?thesis by (auto simp: 3 multipart_byte_def refused_def)
      qed
      with h have "\<exists>s'. multipart_bytes rest s = multipart_bytes rest s' \<and> at_headers bnd t x s'" by blast
      moreover have "\<not> length rest < 2" "take 2 rest \<noteq> ''--''" using 3 False by auto
      ultimately show ?thesis by (simp only: if_False)
    qed
  qed (use s in \<open>auto simp: multipart_byte_def\<close>)
qed

section \<open>The scan and the parser agree\<close>

fun parts_ok :: "nat \<Rightarrow> part list \<Rightarrow> bool" where
  "parts_ok x [] = True"
| "parts_ok x (p # ps) \<longleftrightarrow>
     \<not> bad_part (pt_kind p) x (pt_value p) \<and> parts_ok (x + text_size (pt_kind p) (pt_value p)) ps"

lemma after_shorter:
  assumes "find_bytes rest CRLF2 = Some len"
  shows "length (drop k (drop (len + 4) rest)) < length rest"
proof -
  have "len + 4 \<le> length rest" using find_bytes_SomeD [OF CRLF2_props(1) assms] CRLF2_props(2) by metis
  then show ?thesis by (simp only: length_drop)
qed

lemma parts_loop_acc:
  "parts_loop nxt rest t ps = map_option (append ps) (parts_loop nxt rest t [])"
proof (induction rest arbitrary: t ps rule: length_induct)
  case (1 rest)
  show ?case
  proof (cases "find_bytes rest CRLF2")
    case None
    then show ?thesis by (simp add: parts_loop.simps [of nxt rest])
  next
    case (Some len)
    show ?thesis
    proof (cases "len = 0 \<or> MAX_PART_HEADERS < t + len")
      case True
      with Some show ?thesis by (auto simp: parts_loop.simps [of nxt rest] Let_def)
    next
      case False
      show ?thesis
      proof (cases "part_head (take len (drop 2 rest))")
        case None
        with Some False show ?thesis by (simp add: parts_loop.simps [of nxt rest] Let_def)
      next
        case head: (Some head)
        let ?content = "drop (len + 4) rest"
        show ?thesis
        proof (cases "find_bytes ?content nxt")
          case None
          with Some False head show ?thesis by (simp add: parts_loop.simps [of nxt rest] Let_def)
        next
          case e: (Some e)
          let ?p = "\<lparr>pt_kind = ph_kind head, pt_name = ph_name head, pt_value = take e ?content\<rparr>"
          let ?after = "drop (e + length nxt) ?content"
          have un: "parts_loop nxt rest t qs = (if length ?after < 2 then None
              else if take 2 ?after = ''--'' then Some (qs @ [?p]) else parts_loop nxt ?after (t + len) (qs @ [?p]))" for qs
            using Some False head e by (simp add: parts_loop.simps [of nxt rest] Let_def)
          show ?thesis
          proof (cases "length ?after < 2 \<or> take 2 ?after = ''--''")
            case True
            then show ?thesis by (auto simp: un)
          next
            case go: False
            have "length ?after < length rest" by (rule after_shorter [OF Some])
            then have IH: "parts_loop nxt ?after (t + len) qs = map_option (append qs) (parts_loop nxt ?after (t + len) [])" for qs
              using 1 by blast
            show ?thesis using go IH [of "ps @ [?p]"] IH [of "[?p]"]
              by (cases "parts_loop nxt ?after (t + len) []") (auto simp: un)
          qed
        qed
      qed
    qed
  qed
qed

lemma append_single: "(@) [x] = (#) x"
  by (simp add: fun_eq_iff)

text \<open>The content phase, over the whole rest of a body.\<close>

lemma content_phase:
  assumes "in_part bnd kind t x [] s" and "dl_matched (mp_next s) = 0"
  shows "case find_bytes content (next_delimiter bnd) of
      None \<Rightarrow> \<exists>s'. multipart_bytes content s = Some s' \<and> mp_verdict s' \<noteq> Some Clean
    | Some e \<Rightarrow>
        if bad_part kind x (take e content) then \<exists>s'. multipart_bytes content s = Some s' \<and> refused s'
        else \<exists>s'. multipart_bytes content s = multipart_bytes (drop (e + length (next_delimiter bnd)) content) s' \<and>
               at_last bnd t (x + text_size kind (take e content)) s'"
proof -
  let ?p = "next_delimiter bnd"
  have ok: "delim_ok ?p (mp_next s)" using assms(1) by (simp add: in_part_def scan_ok_def)
  have ne: "\<not> suffix ?p u" if "prefix u []" for u using that by (auto simp: next_delimiter_def)
  note feed = delimiter_feed_spec [OF searching_start [OF ok assms(2)] ne, of content]
  show ?thesis
  proof (cases "find_bytes content ?p")
    case None
    with feed obtain c m where "delimiter_feed content [] (mp_next s) = Some (None, c, (mp_next s)\<lparr>dl_matched := m\<rparr>)" by auto
    from part_run [OF assms(1) this] None show ?thesis by simp
  next
    case (Some e)
    with feed have "delimiter_feed content [] (mp_next s) =
        Some (Some (drop (e + length ?p) content), take e content, (mp_next s)\<lparr>dl_matched := 0\<rparr>)" by simp
    from part_run [OF assms(1) this] Some show ?thesis
      by (auto simp: at_last_def split: if_splits)
  qed
qed

lemma scan_parts:
  assumes "at_headers bnd t x s" and "t \<le> MAX_PART_HEADERS"
  shows "\<exists>s'. multipart_bytes rest s = Some s' \<and>
    (mp_verdict s' = Some Clean \<longleftrightarrow> (\<exists>ps. parts_loop (next_delimiter bnd) rest t [] = Some ps \<and> parts_ok x ps))"
  using assms
proof (induction rest arbitrary: t x s rule: length_induct)
  case (1 rest)
  let ?nxt = "next_delimiter bnd"
  note head = header_phase [OF "1.prems", of rest]
  show ?case
  proof (cases "find_bytes rest CRLF2")
    case None
    with head show ?thesis by (auto simp: parts_loop.simps [of _ rest])
  next
    case len: (Some len)
    show ?thesis
    proof (cases "len = 0 \<or> MAX_PART_HEADERS < t + len")
      case True
      with head len show ?thesis by (auto simp: parts_loop.simps [of _ rest] refused_def Let_def)
    next
      case ok: False
      show ?thesis
      proof (cases "part_head (take len (drop 2 rest))")
        case None
        with head len ok show ?thesis by (auto simp: parts_loop.simps [of _ rest] refused_def Let_def)
      next
        case hd: (Some hd)
        with head len ok obtain s1 where s1: "multipart_bytes rest s = multipart_bytes (drop (len + 4) rest) s1"
          "in_part bnd (ph_kind hd) (t + len) x [] s1" "dl_matched (mp_next s1) = 0" by auto
        let ?c = "drop (len + 4) rest"
        note content = content_phase [OF s1(2,3), of ?c]
        show ?thesis
        proof (cases "find_bytes ?c ?nxt")
          case None
          with content s1(1) len ok hd show ?thesis by (auto simp: parts_loop.simps [of _ rest] Let_def)
        next
          case e: (Some e)
          let ?p = "\<lparr>pt_kind = ph_kind hd, pt_name = ph_name hd, pt_value = take e ?c\<rparr>"
          let ?after = "drop (e + length ?nxt) ?c" and ?x = "x + text_size (ph_kind hd) (take e ?c)"
          have pl: "parts_loop ?nxt rest t [] = (if length ?after < 2 then None
              else if take 2 ?after = ''--'' then Some [?p]
              else map_option (Cons ?p) (parts_loop ?nxt ?after (t + len) []))"
            using len ok hd e parts_loop_acc [of ?nxt ?after "t + len" "[?p]"]
            by (simp add: parts_loop.simps [of _ rest] Let_def append_single)
          show ?thesis
          proof (cases "bad_part (ph_kind hd) x (take e ?c)")
            case True
            with content e s1(1) show ?thesis by (auto simp: pl refused_def)
          next
            case good: False
            with content e obtain s2 where s2: "multipart_bytes ?c s1 = multipart_bytes ?after s2" "at_last bnd (t + len) ?x s2"
              by auto
            note final = last_phase [OF s2(2), of ?after]
            consider "length ?after < 2" | "2 \<le> length ?after" "take 2 ?after = ''--''"
              | "2 \<le> length ?after" "take 2 ?after \<noteq> ''--''" by linarith
            then show ?thesis
            proof cases
              case 3
              with final obtain s3 where s3: "multipart_bytes ?after s2 = multipart_bytes ?after s3"
                "at_headers bnd (t + len) ?x s3" by auto
              have "t + len \<le> MAX_PART_HEADERS" using ok by simp
              with "1.IH" after_shorter [OF len, of "e + length ?nxt"] s3(2) obtain s' where
                s': "multipart_bytes ?after s3 = Some s'" "mp_verdict s' = Some Clean \<longleftrightarrow>
                  (\<exists>ps. parts_loop ?nxt ?after (t + len) [] = Some ps \<and> parts_ok ?x ps)" by blast
              with 3 s1(1) s2(1) s3(1) good show ?thesis by (auto simp: pl)
            qed (use final s1(1) s2(1) good in \<open>auto simp: pl\<close>)
          qed
        qed
      qed
    qed
  qed
qed

text \<open>A part none of whose parameters is dangerous, and the size of its text.\<close>

definition harmless :: "part \<Rightarrow> bool" where
  "harmless p \<longleftrightarrow> pt_kind p = KFile \<or>
     \<not> dangerous MAX_DEPTH (pt_value p) \<and>
     (pt_kind p = KForm \<longrightarrow> \<not> list_ex (dangerous MAX_DEPTH) (form_values (pt_value p)))"

definition part_text :: "part \<Rightarrow> nat" where
  "part_text p = text_size (pt_kind p) (pt_value p)"

lemma parts_ok_iff:
  "x \<le> MAX_PARAMETERS \<Longrightarrow>
     parts_ok x ps \<longleftrightarrow> (\<forall>p \<in> set ps. harmless p) \<and> x + sum_list (map part_text ps) \<le> MAX_PARAMETERS"
proof (induction ps arbitrary: x)
  case (Cons p ps)
  show ?case
  proof (cases "pt_kind p = KFile")
    case True
    with Cons.IH [OF Cons.prems] show ?thesis
      by (simp add: bad_part_def harmless_def part_text_def text_size_def)
  next
    case False
    with Cons.IH [of "x + length (pt_value p)"] show ?thesis
      by (cases "x + length (pt_value p) \<le> MAX_PARAMETERS")
        (auto simp: bad_part_def harmless_def part_text_def text_size_def algebra_simps)
  qed
qed simp

section \<open>The prologue and skipping\<close>

lemma prologue_run:
  assumes "scan_ok bnd 0 0 s" and "mp_state s = Prologue" and "dl_matched (mp_next s) = 0"
    and "delimiter_feed w c (mp_first s) = Some (r, c', d')"
  shows "case r of
      None \<Rightarrow> \<exists>s'. multipart_bytes w s = Some s' \<and> mp_verdict s' = None
    | Some rest \<Rightarrow> \<exists>s'. multipart_bytes w s = multipart_bytes rest s' \<and> at_headers bnd 0 0 s'"
  using assms
proof (induction w arbitrary: c s)
  case Nil
  then show ?case by (auto simp: scan_ok_def)
next
  case (Cons b w)
  have ok: "delim_ok (first_delimiter bnd) (mp_first s)" and v: "mp_verdict s = None"
    using Cons.prems(1) by (auto simp: scan_ok_def)
  obtain e rel m where step: "\<forall>acc. delimiter_step b acc (mp_first s) = Some (e, acc @ rel, (mp_first s)\<lparr>dl_matched := m\<rparr>)"
    "delim_ok (first_delimiter bnd) ((mp_first s)\<lparr>dl_matched := m\<rparr>)" "e \<longrightarrow> m = 0" by (rule delim_step_total [OF ok, of b])
  let ?s = "s\<lparr>mp_first := (mp_first s)\<lparr>dl_matched := m\<rparr>\<rparr>"
  have byte: "multipart_byte b s = Some (if e then ?s\<lparr>mp_headers := [], mp_state := Headers\<rparr> else ?s)"
    using Cons.prems(2) spec [OF step(1), of "[]"] by (simp add: multipart_byte_def)
  show ?case
  proof (cases e)
    case True
    then have "r = Some w" using Cons.prems(4) spec [OF step(1), of c] by auto
    with True byte v Cons.prems(1,3) step(2) show ?thesis
      by (auto simp: at_headers_def scan_ok_def)
  next
    case False
    have "scan_ok bnd 0 0 ?s" "mp_state ?s = Prologue" "dl_matched (mp_next ?s) = 0"
      "delimiter_feed w (c @ rel) (mp_first ?s) = Some (r, c', d')"
      using Cons.prems step(2) False spec [OF step(1), of c] by (auto simp: scan_ok_def)
    from Cons.IH [OF this] byte False v show ?thesis by (simp split: option.splits)
  qed
qed

text \<open>What holds of every scan without a verdict.\<close>

definition live :: "bytes \<Rightarrow> multipart_scan \<Rightarrow> bool" where
  "live bnd s \<longleftrightarrow> (mp_verdict s = None \<longrightarrow> (\<exists>t x. scan_ok bnd t x s))"

lemma step_other:
  assumes "delim_ok p d" and "dl_matched d = 0" and "b \<noteq> dl_pattern d ! 0"
  shows "delimiter_step b [] d = Some (False, [b], d)"
  using assms by (subst delimiter_step.simps) (auto simp: delim_ok_def)

lemma skip_byte:
  assumes "scan_ok bnd t x s"
    and "mp_state s = Prologue \<and> dl_matched (mp_first s) = 0 \<and> b \<noteq> dl_pattern (mp_first s) ! 0 \<or>
      mp_state s = Part KFile \<and> dl_matched (mp_next s) = 0 \<and> b \<noteq> dl_pattern (mp_next s) ! 0"
  shows "multipart_byte b s = Some s"
  using assms(2)
proof
  assume "mp_state s = Prologue \<and> dl_matched (mp_first s) = 0 \<and> b \<noteq> dl_pattern (mp_first s) ! 0"
  with assms(1) step_other [of "first_delimiter bnd" "mp_first s" b] show ?thesis
    by (simp add: multipart_byte_def scan_ok_def)
next
  assume "mp_state s = Part KFile \<and> dl_matched (mp_next s) = 0 \<and> b \<noteq> dl_pattern (mp_next s) ! 0"
  with assms(1) step_other [of "next_delimiter bnd" "mp_next s" b] show ?thesis
    by (simp add: multipart_byte_def part_byte_def scan_ok_def)
qed

lemma skip_bytes:
  assumes "scan_ok bnd t x s"
    and "\<forall>b \<in> set w. mp_state s = Prologue \<and> dl_matched (mp_first s) = 0 \<and> b \<noteq> dl_pattern (mp_first s) ! 0 \<or>
      mp_state s = Part KFile \<and> dl_matched (mp_next s) = 0 \<and> b \<noteq> dl_pattern (mp_next s) ! 0"
  shows "multipart_bytes w s = Some s"
  using assms(2)
proof (induction w)
  case (Cons b w)
  moreover have "mp_verdict s = None" using assms(1) by (simp add: scan_ok_def)
  ultimately show ?case using skip_byte [OF assms(1), of b] by simp
qed simp

lemma skippable_spec: "\<forall>b \<in> set (take (skippable data d) data). dl_matched d = 0 \<and> b \<noteq> dl_pattern d ! 0"
proof (cases "0 < dl_matched d")
  case False
  show ?thesis
  proof (cases "index_where (\<lambda>b. b = dl_pattern d ! 0) data")
    case None
    then have "\<forall>b \<in> set data. b \<noteq> dl_pattern d ! 0" by (simp add: index_where_None_iff)
    with False show ?thesis by (auto dest: in_set_takeD)
  next
    case (Some i)
    with index_where_SomeD [OF Some] False show ?thesis by (auto simp: skippable_def in_set_conv_nth)
  qed
qed (simp add: skippable_def)

text \<open>No byte makes the scan panic, and the scan stays in order.\<close>

lemma part_content_total:
  assumes "values_ok (mp_values s)" and "values_ok (mp_form_values s)"
  obtains v f w n where "part_content kind c s =
    Some (s\<lparr>mp_text_total := n, mp_values := v, mp_form := f, mp_form_values := w\<rparr>)" "values_ok v" "values_ok w"
proof (cases "kind = KFile")
  case True
  have "s = s\<lparr>mp_text_total := mp_text_total s, mp_values := mp_values s, mp_form := mp_form s, mp_form_values := mp_form_values s\<rparr>"
    by simp
  with True that assms part_content_file [of c s] show ?thesis by metis
next
  case False
  obtain v where v: "events_do (map Char c) (mp_values s) = Some v" "values_ok v"
    using events_do_moved [OF assms(1), of "map Char c"] by (auto simp: moved_def)
  obtain w where w: "events_do (form_evs (mp_form s) c) (mp_form_values s) = Some w" "values_ok w"
    using events_do_moved [OF assms(2), of "form_evs (mp_form s) c"] by (auto simp: moved_def)
  show ?thesis
  proof (cases "kind = KForm")
    case True
    with that part_content_text [OF False v(1), of w] v(2) w show ?thesis by auto
  next
    case nf: False
    have "part_content kind c s = Some (s\<lparr>mp_text_total := mp_text_total s + length c, mp_values := v,
        mp_form := mp_form s, mp_form_values := mp_form_values s\<rparr>)"
      using part_content_text [OF False v(1), of "mp_form_values s"] nf by simp
    from that [OF this v(2) assms(2)] show ?thesis .
  qed
qed

lemma part_byte_live:
  assumes "scan_ok bnd t x s"
  shows "\<exists>s'. part_byte kind b s = Some s' \<and> live bnd s'"
proof -
  have ok: "delim_ok (next_delimiter bnd) (mp_next s)" "values_ok (mp_values s)" "values_ok (mp_form_values s)"
    using assms by (simp_all add: scan_ok_def)
  obtain e rel m where step: "\<forall>acc. delimiter_step b acc (mp_next s) = Some (e, acc @ rel, (mp_next s)\<lparr>dl_matched := m\<rparr>)"
    "delim_ok (next_delimiter bnd) ((mp_next s)\<lparr>dl_matched := m\<rparr>)" "e \<longrightarrow> m = 0" by (rule delim_step_total [OF ok(1), of b])
  let ?s = "s\<lparr>mp_next := (mp_next s)\<lparr>dl_matched := m\<rparr>\<rparr>"
  obtain v f w n where c: "part_content kind rel ?s =
      Some (?s\<lparr>mp_text_total := n, mp_values := v, mp_form := f, mp_form_values := w\<rparr>)" "values_ok v" "values_ok w"
    by (rule part_content_total [of ?s kind rel]) (use ok in auto)
  obtain w' where e: "form_end f w = Some (FName, w')" "values_ok w'"
    using events_do_moved [OF c(3), of "end_events f"] by (auto simp: form_end_events moved_def)
  show ?thesis
    using spec [OF step(1), of "[]"] step(2) c e assms
    by (auto simp: part_byte_def live_def scan_ok_def refuse_def)
qed

lemma header_byte_live:
  assumes "scan_ok bnd t x s"
  shows "\<exists>s'. header_byte b s = Some s' \<and> live bnd s'"
proof -
  obtain v where v: "values_start 0 (mp_values s) = Some v" "values_ok v" "\<not> vs_found v"
    using values_start_ok [of "mp_values s"] assms by (auto simp: scan_ok_def)
  with assms show ?thesis
    by (auto simp: header_byte_def live_def scan_ok_def refuse_def Let_def split: option.splits)
qed

lemma multipart_byte_live:
  assumes "live bnd s" and "mp_verdict s = None"
  shows "\<exists>s'. multipart_byte b s = Some s' \<and> live bnd s'"
proof -
  obtain t x where ok: "scan_ok bnd t x s" using assms by (auto simp: live_def)
  show ?thesis
  proof (cases "mp_state s")
    case Prologue
    from ok have "delim_ok (first_delimiter bnd) (mp_first s)" by (simp add: scan_ok_def)
    then obtain e rel m where step: "\<forall>acc. delimiter_step b acc (mp_first s) = Some (e, acc @ rel, (mp_first s)\<lparr>dl_matched := m\<rparr>)"
      "delim_ok (first_delimiter bnd) ((mp_first s)\<lparr>dl_matched := m\<rparr>)" "e \<longrightarrow> m = 0" by (rule delim_step_total [of _ _ b])
    with Prologue ok show ?thesis by (auto simp: multipart_byte_def live_def scan_ok_def Let_def)
  next
    case Headers
    with header_byte_live [OF ok, of b] show ?thesis by (simp add: multipart_byte_def)
  next
    case (Part kind)
    with part_byte_live [OF ok, of kind b] show ?thesis by (simp add: multipart_byte_def)
  next
    case (Last a)
    show ?thesis
    proof (cases a)
      case None
      with Last ok show ?thesis by (auto simp: multipart_byte_def live_def scan_ok_def)
    next
      case (Some first)
      have "scan_ok bnd t x (s\<lparr>mp_headers := [], mp_state := Headers\<rparr>)" using ok by (simp add: scan_ok_def)
      from header_byte_live [OF this, of first] obtain s1 where
        s1: "header_byte first (s\<lparr>mp_headers := [], mp_state := Headers\<rparr>) = Some s1" "live bnd s1" by blast
      show ?thesis
      proof (cases "mp_verdict s1 = None")
        case True
        with s1(2) obtain t' x' where "scan_ok bnd t' x' s1" by (auto simp: live_def)
        from header_byte_live [OF this, of b] s1 True Last Some show ?thesis
          by (auto simp: multipart_byte_def live_def)
      next
        case False
        with s1 Last Some show ?thesis by (auto simp: multipart_byte_def live_def)
      qed
    qed
  qed
qed

lemma multipart_feed_bytes:
  "live bnd s \<Longrightarrow> multipart_feed data s = multipart_bytes data s \<and>
     (\<exists>s'. multipart_bytes data s = Some s' \<and> live bnd s')"
proof (induction data arbitrary: s rule: length_induct)
  case (1 data)
  show ?case
  proof (cases "mp_verdict s")
    case (Some v)
    with 1 show ?thesis by (simp add: multipart_feed.simps [of data])
  next
    case None
    with "1.prems" obtain t x where ok: "scan_ok bnd t x s" by (auto simp: live_def)
    define k where "k = (case mp_state s of Prologue \<Rightarrow> skippable data (mp_first s)
                        | Part KFile \<Rightarrow> skippable data (mp_next s) | _ \<Rightarrow> 0)"
    have skip: "multipart_bytes (take k data) s = Some s"
      by (rule skip_bytes [OF ok]) (use skippable_spec in \<open>auto simp: k_def split: scan_state.splits kind.splits\<close>)
    then have bytes: "multipart_bytes data s = multipart_bytes (drop k data) s"
      using multipart_bytes_append [of "take k data" "drop k data" s] by simp
    show ?thesis
    proof (cases "drop k data")
      case Nil
      then show ?thesis using None bytes "1.prems" by (simp add: multipart_feed.simps [of data] k_def [symmetric])
    next
      case (Cons b rest)
      obtain s1 where s1: "multipart_byte b s = Some s1" "live bnd s1"
        using multipart_byte_live [OF "1.prems" None, of b] by blast
      have "length (drop k data) = Suc (length rest)" by (simp only: Cons list.size)
      then have "length rest < length data" by simp
      with "1.IH" s1(2) have "multipart_feed rest s1 = multipart_bytes rest s1 \<and>
          (\<exists>s'. multipart_bytes rest s1 = Some s' \<and> live bnd s')" by blast
      moreover have "multipart_feed data s = multipart_feed rest s1"
        using None Cons s1(1) by (simp add: multipart_feed.simps [of data] k_def [symmetric])
      moreover have "multipart_bytes data s = multipart_bytes rest s1" using bytes Cons s1(1) None by simp
      ultimately show ?thesis by simp
    qed
  qed
qed

section \<open>The result\<close>

text \<open>A body fed in pieces.\<close>

fun multipart_feeds :: "bytes list \<Rightarrow> multipart_scan \<Rightarrow> multipart_scan option" where
  "multipart_feeds [] s = Some s"
| "multipart_feeds (d # ds) s = (case multipart_feed d s of None \<Rightarrow> None | Some s \<Rightarrow> multipart_feeds ds s)"

lemma multipart_feeds_concat:
  "live bnd s \<Longrightarrow> multipart_feeds ds s = multipart_bytes (concat ds) s"
proof (induction ds arbitrary: s)
  case (Cons d ds)
  from multipart_feed_bytes [OF Cons.prems, of d] Cons.IH show ?case
    by (auto simp: multipart_bytes_append)
qed simp

lemma multipart_new_ok:
  "\<exists>s. multipart_new bnd = Some s \<and> scan_ok bnd 0 0 s \<and> mp_state s = Prologue \<and> dl_matched (mp_first s) = 0 \<and>
     dl_matched (mp_next s) = 0"
proof -
  let ?b = "take MAX_BOUNDARY_LEN bnd" and ?c = "[CHR 0x0D, CHR 0x0A, CHR ''-'', CHR ''-'']"
  have "length ''--'' + length ?b \<le> MAX_DELIMITER_LEN" "length ?c + length ?b \<le> MAX_DELIMITER_LEN"
    by (simp_all add: MAX_DELIMITER_LEN_def MAX_BOUNDARY_LEN_def)
  then obtain f n where "delimiter_new ''--'' ?b = Some f" "delim_ok (''--'' @ ?b) f" "dl_matched f = 0"
    "delimiter_new ?c ?b = Some n" "delim_ok (?c @ ?b) n" "dl_matched n = 0"
    using delimiter_new_ok [of "''--''" ?b] delimiter_new_ok [of ?c ?b] by blast
  moreover have "\<not> vs_found values_default" by (simp add: values_default_def)
  ultimately show ?thesis
    by (simp add: multipart_new_def scan_ok_def first_delimiter_def next_delimiter_def MAX_PARAMETERS_def)
qed

lemma first_next: "drop 2 (next_delimiter bnd) = first_delimiter bnd"
  by (simp add: next_delimiter_def first_delimiter_def)

lemma multipart_scan_spec:
  "\<exists>s0 s. multipart_new bnd = Some s0 \<and> multipart_feeds frames s0 = Some s \<and>
     (fst (multipart_finish s) = Clean \<longleftrightarrow>
       (\<exists>ps. parts bnd (concat frames) = Some ps \<and> list_all harmless ps \<and>
          sum_list (map part_text ps) \<le> MAX_PARAMETERS))"
proof -
  let ?body = "concat frames" and ?p = "first_delimiter bnd"
  obtain s0 where s0: "multipart_new bnd = Some s0" "scan_ok bnd 0 0 s0" "mp_state s0 = Prologue"
    "dl_matched (mp_first s0) = 0" "dl_matched (mp_next s0) = 0" using multipart_new_ok by blast
  have run: "multipart_feeds frames s0 = multipart_bytes ?body s0"
    using multipart_feeds_concat [of bnd s0 frames] s0(2) by (auto simp: live_def)
  have ok: "delim_ok ?p (mp_first s0)" using s0(2) by (simp add: scan_ok_def)
  have ne: "\<not> suffix ?p u" if "prefix u []" for u using that by (auto simp: first_delimiter_def)
  note feed = delimiter_feed_spec [OF searching_start [OF ok s0(4)] ne, of ?body]
  have fin: "fst (multipart_finish s) = Clean \<longleftrightarrow> mp_verdict s = Some Clean" for s
    by (auto simp: multipart_finish_def split: option.splits)
  show ?thesis
  proof (cases "find_bytes ?body ?p")
    case None
    with feed obtain c m where "delimiter_feed ?body [] (mp_first s0) = Some (None, c, (mp_first s0)\<lparr>dl_matched := m\<rparr>)"
      by auto
    from prologue_run [OF s0(2,3,5) this] None s0(1) run show ?thesis
      by (auto simp: fin parts_def first_next Let_def)
  next
    case (Some i)
    with feed have "delimiter_feed ?body [] (mp_first s0) =
        Some (Some (drop (i + length ?p) ?body), take i ?body, (mp_first s0)\<lparr>dl_matched := 0\<rparr>)" by simp
    from prologue_run [OF s0(2,3,5) this] obtain s1 where
      s1: "multipart_bytes ?body s0 = multipart_bytes (drop (i + length ?p) ?body) s1" "at_headers bnd 0 0 s1" by auto
    from scan_parts [OF s1(2), of "drop (i + length ?p) ?body"] obtain s where
      s: "multipart_bytes (drop (i + length ?p) ?body) s1 = Some s" "mp_verdict s = Some Clean \<longleftrightarrow>
        (\<exists>ps. parts_loop (next_delimiter bnd) (drop (i + length ?p) ?body) 0 [] = Some ps \<and> parts_ok 0 ps)" by auto
    with s1(1) run s0(1) Some parts_ok_iff [of 0] show ?thesis
      by (auto simp: list_all_iff fin parts_def first_next Let_def)
  qed
qed

text \<open>
  C27. The streaming multipart scan and the in-memory parser agree: fed a body in any pieces,
  the scan never panics, and it clears the body exactly when \<open>parts\<close> reads the body to its
  closing delimiter, no text part and no pair of an urlencoded part holds a dangerous value,
  and the text parts together are within \<open>MAX_PARAMETERS\<close>. So no framing of the body and no
  split of a delimiter or a header across frames changes the verdict.
\<close>

theorem multipart_scan_agrees:
  "\<exists>s0 s. multipart_new bnd = Some s0 \<and> multipart_feeds frames s0 = Some s \<and>
     (fst (multipart_finish s) = Clean \<longleftrightarrow>
       (\<exists>ps. parts bnd (concat frames) = Some ps \<and> list_all harmless ps \<and>
          sum_list (map part_text ps) \<le> MAX_PARAMETERS))"
  by (rule multipart_scan_spec)

text \<open>A body with a text field and a file, cut in the middle of the last delimiter.\<close>

definition CRLF :: bytes where
  "CRLF = [CHR 0x0D, CHR 0x0A]"

definition demo_frames :: "bytes list" where
  "demo_frames =
     [''--B'' @ CRLF @ ''Content-Disposition: form-data; name=\"caption\"'' @ CRLF2 @ ''file is here'' @ CRLF @ ''--B'' @ CRLF @
        ''Content-Disposition: form-data; name=\"doc\"; filename=\"a.txt\"'' @ CRLF2 @ ''file:/x'' @ CRLF @ ''-'',
      ''-B--'' @ CRLF]"

theorem multipart_scan_agrees_witness:
  "\<exists>s0 s. multipart_new ''B'' = Some s0 \<and> multipart_feeds demo_frames s0 = Some s \<and> fst (multipart_finish s) = Clean"
proof -
  have "case parts ''B'' (concat demo_frames) of None \<Rightarrow> False
      | Some ps \<Rightarrow> list_all harmless ps \<and> sum_list (map part_text ps) \<le> MAX_PARAMETERS" by code_simp
  then obtain ps where "parts ''B'' (concat demo_frames) = Some ps" "list_all harmless ps"
    "sum_list (map part_text ps) \<le> MAX_PARAMETERS" by (auto split: option.splits)
  with multipart_scan_agrees [of "''B''" demo_frames] show ?thesis by metis
qed

end
