(* ===== verification/Scan_Guard.thy ===== *)
theory Scan_Guard
  imports Multipart_Props
begin

text \<open>
  The rest of \<open>crates/tgin-botapi/src/gateway/local_files.rs\<close>: the verdict on a whole body, the
  \<open>Scanner\<close> of a streamed one, and the \<open>ScanGuard\<close> that passes a request body on frame by
  frame while it is scanned; with \<open>encoding\<close> of \<open>gateway/params.rs\<close>.

  The body behind a guard is a sequence of poll results, one per \<open>poll_frame\<close> of the guard
  that polls it, each with what the body then says of \<open>is_end_stream\<close>. What the guard hands
  out is a poll result again, or its own error.
\<close>

section \<open>Encodings and whole bodies\<close>

datatype encoding = EMultipart | EJson | EForm

definition contains_ignore_case :: "bytes \<Rightarrow> bytes \<Rightarrow> bool" where
  "contains_ignore_case name bytes = list_ex (\<lambda>window. eq_ignore_ascii_case window name) (windows (length name) bytes)"

definition encoding_of :: "bytes \<Rightarrow> encoding option" where
  "encoding_of content_type =
     map_option snd
       (find (\<lambda>(name, _). contains_ignore_case name content_type)
          [(''multipart/form-data'', EMultipart),
           (''application/x-www-form-urlencoded'', EForm),
           (''application/json'', EJson)])"

definition found_verdict :: "bool \<Rightarrow> verdict" where
  "found_verdict found = (if found then Refused LocalFile else Clean)"

definition body_verdict :: "bytes option \<Rightarrow> bytes \<Rightarrow> verdict option" where
  "body_verdict content_type body =
     (case content_type of
        None \<Rightarrow> Some Clean
      | Some content_type \<Rightarrow>
          (case encoding_of content_type of
             None \<Rightarrow> Some Clean
           | Some EJson \<Rightarrow> map_option found_verdict (json_has_local_file body)
           | Some EForm \<Rightarrow> map_option found_verdict (form_has_local_file body)
           | Some EMultipart \<Rightarrow>
               (case boundary content_type of
                  None \<Rightarrow> Some (Refused Unreadable)
                | Some b \<Rightarrow>
                    (case multipart_new b of
                       None \<Rightarrow> None
                     | Some scan \<Rightarrow>
                         (case multipart_feed body scan of
                            None \<Rightarrow> None
                          | Some scan \<Rightarrow>
                              Some (case mp_verdict scan of
                                      Some v \<Rightarrow> v
                                    | None \<Rightarrow> fst (multipart_finish scan)))))))"

definition refusal_status :: "refusal \<Rightarrow> nat" where
  "refusal_status r = (case r of LocalFile \<Rightarrow> 400 | TooLarge \<Rightarrow> 413 | Unreadable \<Rightarrow> 400)"

definition refusal_reason :: "refusal \<Rightarrow> string" where
  "refusal_reason r =
     (case r of LocalFile \<Rightarrow> ''local_file'' | TooLarge \<Rightarrow> ''too_large'' | Unreadable \<Rightarrow> ''unreadable'')"

section \<open>The scanner of a streamed body\<close>

datatype scanner =
    SMultipart multipart_scan
  | SJson local_values nat
  | SForm local_values form nat

text \<open>The byte loops of \<open>Scanner::feed\<close>, which stop once something is found.\<close>

fun json_feed :: "bytes \<Rightarrow> local_values \<Rightarrow> local_values option" where
  "json_feed [] v = Some v"
| "json_feed (b # bs) v =
     (case json_byte 0 b v of None \<Rightarrow> None | Some v \<Rightarrow> if vs_found v then Some v else json_feed bs v)"

fun form_feed :: "bytes \<Rightarrow> form \<Rightarrow> local_values \<Rightarrow> (form \<times> local_values) option" where
  "form_feed [] f v = Some (f, v)"
| "form_feed (b # bs) f v =
     (case form_byte f v b of
        None \<Rightarrow> None
      | Some (f, v) \<Rightarrow> if vs_found v then Some (f, v) else form_feed bs f v)"

definition total_verdict :: "bool \<Rightarrow> nat \<Rightarrow> verdict option" where
  "total_verdict found n =
     (if found then Some (Refused LocalFile)
      else if MAX_PARAMETERS < n then Some (Refused TooLarge)
      else None)"

definition scanner_feed :: "bytes \<Rightarrow> scanner \<Rightarrow> (verdict option \<times> scanner) option" where
  "scanner_feed data sc =
     (case sc of
        SMultipart scan \<Rightarrow> map_option (\<lambda>scan. (mp_verdict scan, SMultipart scan)) (multipart_feed data scan)
      | SJson v n \<Rightarrow>
          map_option (\<lambda>v. (total_verdict (vs_found v) (n + length data), SJson v (n + length data)))
            (json_feed data v)
      | SForm v f n \<Rightarrow>
          map_option (\<lambda>(f, v). (total_verdict (vs_found v) (n + length data), SForm v f (n + length data)))
            (form_feed data f v))"

definition scanner_finish :: "scanner \<Rightarrow> (verdict \<times> scanner) option" where
  "scanner_finish sc =
     (case sc of
        SMultipart scan \<Rightarrow> (case multipart_finish scan of (v, scan) \<Rightarrow> Some (v, SMultipart scan))
      | SJson v n \<Rightarrow> Some (found_verdict (vs_found v), SJson v n)
      | SForm v f n \<Rightarrow>
          map_option (\<lambda>(f, v). (found_verdict (vs_found v), SForm v f n)) (form_end f v))"

section \<open>The guard\<close>

datatype frame = Data bytes | Trailers

datatype polled = Pending | Ready frame | BodyError | End

datatype handed = Handed polled | RefusedError

datatype scan = Scanning scanner | ScanClean | ScanRefused

record scan_guard =
  sg_scan :: scan
  sg_remaining :: "nat option"
  sg_verdict :: "verdict option"

text \<open>\<open>sg_verdict\<close> is what the receiver has got; the sender is taken once it holds a verdict.\<close>

definition guard_new :: "nat option \<Rightarrow> scanner \<Rightarrow> scan_guard" where
  "guard_new size_hint sc = \<lparr>sg_scan = Scanning sc, sg_remaining = size_hint, sg_verdict = None\<rparr>"

definition guard_multipart :: "nat option \<Rightarrow> bytes \<Rightarrow> scan_guard option" where
  "guard_multipart size_hint b = map_option (\<lambda>scan. guard_new size_hint (SMultipart scan)) (multipart_new b)"

definition guard_params :: "nat option \<Rightarrow> encoding \<Rightarrow> scan_guard" where
  "guard_params size_hint e =
     guard_new size_hint
       (case e of
          EJson \<Rightarrow> SJson values_default 0
        | EForm \<Rightarrow> SForm values_default form_default 0
        | EMultipart \<Rightarrow> SForm values_default form_default 0)"

definition decide :: "verdict \<Rightarrow> scan_guard \<Rightarrow> scan_guard" where
  "decide v g =
     g\<lparr>sg_scan := (case v of Clean \<Rightarrow> ScanClean | Refused _ \<Rightarrow> ScanRefused),
       sg_verdict := (case sg_verdict g of None \<Rightarrow> Some v | Some w \<Rightarrow> Some w)\<rparr>"

text \<open>
  \<open>poll_frame\<close>, given what the body's own poll returns and whether the body is then at its
  end. A refused guard fails without polling the body.
\<close>

definition poll_frame :: "polled \<Rightarrow> bool \<Rightarrow> scan_guard \<Rightarrow> (handed \<times> scan_guard) option" where
  "poll_frame polled at_end g =
     (case sg_scan g of
        ScanClean \<Rightarrow> Some (Handed (if polled = Ready Trailers then End else polled), g)
      | ScanRefused \<Rightarrow> Some (RefusedError, g)
      | Scanning sc \<Rightarrow>
          (case (case polled of
                   Ready (Data data) \<Rightarrow>
                     (case scanner_feed data sc of
                        None \<Rightarrow> None
                      | Some (verdict, sc) \<Rightarrow>
                          (let remaining = map_option (\<lambda>r. r - length data) (sg_remaining g);
                               g = g\<lparr>sg_scan := Scanning sc, sg_remaining := remaining\<rparr>
                           in if verdict = None \<and> (remaining = Some 0 \<or> at_end)
                              then map_option (\<lambda>(v, sc). (polled, Some v, g\<lparr>sg_scan := Scanning sc\<rparr>)) (scanner_finish sc)
                              else Some (polled, verdict, g)))
                 | Ready Trailers \<Rightarrow>
                     map_option (\<lambda>(v, sc). (End, Some v, g\<lparr>sg_scan := Scanning sc\<rparr>)) (scanner_finish sc)
                 | End \<Rightarrow>
                     map_option (\<lambda>(v, sc). (End, Some v, g\<lparr>sg_scan := Scanning sc\<rparr>)) (scanner_finish sc)
                 | BodyError \<Rightarrow> Some (polled, None, g)
                 | Pending \<Rightarrow> Some (polled, None, g)) of
             None \<Rightarrow> None
           | Some (polled, verdict, g) \<Rightarrow>
               (case verdict of
                  None \<Rightarrow> Some (Handed polled, g)
                | Some Clean \<Rightarrow> Some (Handed polled, decide Clean g)
                | Some (Refused r) \<Rightarrow> Some (RefusedError, decide (Refused r) g))))"

definition guard_is_end_stream :: "bool \<Rightarrow> scan_guard \<Rightarrow> bool" where
  "guard_is_end_stream body_end g \<longleftrightarrow> sg_scan g = ScanClean \<and> body_end"

section \<open>What a scanner has seen\<close>

text \<open>The reference: what clears a body of each kind.\<close>

datatype body_kind = BMultipart bytes | BJson | BForm

fun cleared :: "body_kind \<Rightarrow> bytes \<Rightarrow> bool" where
  "cleared (BMultipart b) body =
     (case parts b body of
        None \<Rightarrow> False
      | Some ps \<Rightarrow> list_all harmless ps \<and> sum_list (map part_text ps) \<le> MAX_PARAMETERS)"
| "cleared BJson body \<longleftrightarrow> \<not> list_ex (dangerous (MAX_DEPTH - 1)) (json_strings body) \<and> length body \<le> MAX_PARAMETERS"
| "cleared BForm body \<longleftrightarrow> \<not> list_ex (dangerous MAX_DEPTH) (form_values body) \<and> length body \<le> MAX_PARAMETERS"

fun guard_for :: "nat option \<Rightarrow> body_kind \<Rightarrow> scan_guard option" where
  "guard_for size_hint (BMultipart b) = guard_multipart size_hint b"
| "guard_for size_hint BJson = Some (guard_params size_hint EJson)"
| "guard_for size_hint BForm = Some (guard_params size_hint EForm)"

text \<open>A scanner without a verdict that has been fed \<open>body\<close>.\<close>

fun scanned :: "body_kind \<Rightarrow> bytes \<Rightarrow> scanner \<Rightarrow> bool" where
  "scanned (BMultipart b) body (SMultipart s) \<longleftrightarrow>
     mp_verdict s = None \<and> live b s \<and> Option.bind (multipart_new b) (multipart_bytes body) = Some s"
| "scanned BJson body (SJson v n) \<longleftrightarrow>
     n = length body \<and> n \<le> MAX_PARAMETERS \<and> values_ok v \<and> \<not> vs_found v \<and> json_feed body values_default = Some v"
| "scanned BForm body (SForm v f n) \<longleftrightarrow>
     n = length body \<and> n \<le> MAX_PARAMETERS \<and> values_ok v \<and> \<not> vs_found v \<and>
     form_feed body form_default values_default = Some (f, v)"
| "scanned _ _ _ \<longleftrightarrow> False"

lemma json_feed_ok:
  "values_ok v \<Longrightarrow> \<exists>v'. json_feed w v = Some v' \<and> values_ok v'"
proof (induction w arbitrary: v)
  case (Cons b w)
  obtain q e where j: "json_step (vs_json v ! 0) b = (q, e)" by (cases "json_step (vs_json v ! 0) b")
  obtain h ls where l: "level_event (levels v (Suc 0)) e = (h, ls)" by (cases "level_event (levels v (Suc 0)) e")
  from json_byte_moved [of 0 v b q e h ls] byte_ok_all [of "Suc 0"] Cons.prems j l obtain v1 where
    "json_byte 0 b v = Some v1" "values_ok v1" by (auto simp: moved_def)
  with Cons.IH [of v1] show ?case by auto
qed simp

lemma json_any_feed: "\<not> vs_found v \<Longrightarrow> json_any w v = map_option vs_found (json_feed w v)"
  by (induction w arbitrary: v) (auto split: option.splits)

lemma json_feed_append:
  "\<not> vs_found v \<Longrightarrow> json_feed (u @ w) v =
     Option.bind (json_feed u v) (\<lambda>v. if vs_found v then Some v else json_feed w v)"
  by (induction u arbitrary: v) (auto split: option.splits)

lemma form_feed_ok:
  "values_ok v \<Longrightarrow> \<exists>f' v'. form_feed w f v = Some (f', v') \<and> values_ok v'"
proof (induction w arbitrary: f v)
  case (Cons b w)
  obtain f1 es where s: "form_step f b = (f1, es)" by (cases "form_step f b")
  from events_do_moved [OF Cons.prems, of es] obtain v1 where "events_do es v = Some v1" "values_ok v1"
    by (auto simp: moved_def)
  with Cons.IH [of v1 f1] form_byte_events [OF s, of v] show ?case by auto
qed simp

lemma form_any_feed:
  "\<not> vs_found v \<Longrightarrow> form_any w f v =
     Option.bind (form_feed w f v) (\<lambda>(f, v). if vs_found v then Some True else map_option (\<lambda>(_, v). vs_found v) (form_end f v))"
  by (induction w arbitrary: f v) (auto split: option.splits)

lemma form_feed_append:
  "\<not> vs_found v \<Longrightarrow> form_feed (u @ w) f v =
     Option.bind (form_feed u f v) (\<lambda>(f, v). if vs_found v then Some (f, v) else form_feed w f v)"
  by (induction u arbitrary: f v) (auto split: option.splits)

lemma form_end_ok: "values_ok v \<Longrightarrow> \<exists>v'. form_end f v = Some (FName, v')"
  using events_do_moved [of v "end_events f"] by (auto simp: form_end_events)

lemma default_not_found [simp]: "\<not> vs_found values_default"
  by (simp add: values_default_def)

lemma cleared_multipart:
  assumes "multipart_new b = Some s0" and "multipart_bytes body s0 = Some s"
  shows "fst (multipart_finish s) = Clean \<longleftrightarrow> cleared (BMultipart b) body"
proof -
  have "live b s0" using multipart_new_ok [of b] assms(1) by (auto simp: live_def)
  from multipart_feeds_concat [OF this, of "[body]"] have "multipart_feeds [body] s0 = Some s" using assms(2) by simp
  with multipart_scan_spec [of b "[body]"] assms(1) show ?thesis by (auto split: option.splits)
qed

lemma multipart_finish_verdict: "mp_verdict s = Some v \<Longrightarrow> fst (multipart_finish s) = v"
  by (simp add: multipart_finish_def)

lemma cleared_json_feed:
  assumes "json_feed body values_default = Some v"
  shows "cleared BJson body \<longleftrightarrow> \<not> vs_found v \<and> length body \<le> MAX_PARAMETERS"
  using json_scan_dangerous [of body] json_any_feed [of values_default body] assms
  by (auto simp: json_has_local_file_def)

lemma cleared_form_feed:
  assumes "form_feed body form_default values_default = Some (f, v)" and "form_end f v = Some (f', v')"
  shows "cleared BForm body \<longleftrightarrow> \<not> vs_found v \<and> \<not> vs_found v' \<and> length body \<le> MAX_PARAMETERS"
  using form_scan_dangerous [of body] form_any_feed [of values_default body form_default] assms
  by (auto simp: form_has_local_file_def split: if_splits)

text \<open>Feeding a scanner: it goes on, it refuses, or a multipart body is cleared for good.\<close>

definition settles :: "body_kind \<Rightarrow> bytes \<Rightarrow> verdict \<Rightarrow> bool" where
  "settles k D v \<longleftrightarrow> (\<forall>E. cleared k (D @ E) \<longleftrightarrow> v = Clean)"

lemma multipart_feed_spec:
  assumes "scanned (BMultipart b) D (SMultipart s)"
  shows "\<exists>s'. multipart_feed d s = Some s' \<and>
    (case mp_verdict s' of None \<Rightarrow> scanned (BMultipart b) (D @ d) (SMultipart s') | Some v \<Rightarrow> settles (BMultipart b) (D @ d) v)"
proof -
  from assms obtain s0 where s0: "multipart_new b = Some s0" "multipart_bytes D s0 = Some s" and s: "live b s"
    by (auto split: bind_splits)
  from multipart_feed_bytes [OF s, of d] obtain s' where
    s': "multipart_feed d s = Some s'" "multipart_bytes d s = Some s'" "live b s'" by auto
  have D: "multipart_bytes (D @ d) s0 = Some s'" using s0(2) s'(2) by (simp add: multipart_bytes_append)
  have "settles (BMultipart b) (D @ d) v" if v: "mp_verdict s' = Some v" for v
    unfolding settles_def
  proof
    fix E
    have "multipart_bytes ((D @ d) @ E) s0 = Some s'" using D v multipart_bytes_append [of "D @ d" E s0] by simp
    from cleared_multipart [OF s0(1) this] multipart_finish_verdict [OF v]
    show "cleared (BMultipart b) ((D @ d) @ E) \<longleftrightarrow> v = Clean" by simp
  qed
  with s' D s0(1) show ?thesis by (auto split: option.splits)
qed

lemma json_feed_spec:
  assumes "scanned BJson D (SJson v n)"
  shows "\<exists>w sc'. scanner_feed d (SJson v n) = Some (w, sc') \<and>
    (case w of None \<Rightarrow> scanned BJson (D @ d) sc' | Some w \<Rightarrow> settles BJson (D @ d) w)"
proof -
  from assms have v: "values_ok v" "\<not> vs_found v" "json_feed D values_default = Some v" "n = length D" by auto
  obtain v' where v': "json_feed d v = Some v'" "values_ok v'" using json_feed_ok [OF v(1)] by blast
  have D: "json_feed (D @ d) values_default = Some v'" using v v'(1) by (simp add: json_feed_append)
  have found: "settles BJson (D @ d) (Refused LocalFile)" if "vs_found v'"
    unfolding settles_def
  proof
    fix E
    have "json_feed ((D @ d) @ E) values_default = Some v'"
      using D that json_feed_append [of values_default "D @ d" E] by simp
    from cleared_json_feed [OF this] that show "cleared BJson ((D @ d) @ E) \<longleftrightarrow> Refused LocalFile = Clean" by simp
  qed
  have large: "settles BJson (D @ d) (Refused TooLarge)" if "MAX_PARAMETERS < length (D @ d)"
    using that by (auto simp: settles_def)
  show ?thesis using v v' D found large by (auto simp: scanner_feed_def total_verdict_def)
qed

lemma form_feed_spec:
  assumes "scanned BForm D (SForm v f n)"
  shows "\<exists>w sc'. scanner_feed d (SForm v f n) = Some (w, sc') \<and>
    (case w of None \<Rightarrow> scanned BForm (D @ d) sc' | Some w \<Rightarrow> settles BForm (D @ d) w)"
proof -
  from assms have v: "values_ok v" "\<not> vs_found v" "form_feed D form_default values_default = Some (f, v)" "n = length D" by auto
  obtain f' v' where v': "form_feed d f v = Some (f', v')" "values_ok v'" using form_feed_ok [OF v(1)] by blast
  have D: "form_feed (D @ d) form_default values_default = Some (f', v')" using v v'(1) by (simp add: form_feed_append)
  have found: "settles BForm (D @ d) (Refused LocalFile)" if "vs_found v'"
    unfolding settles_def
  proof
    fix E
    have "form_feed ((D @ d) @ E) form_default values_default = Some (f', v')"
      using D that form_feed_append [of values_default "D @ d" E form_default] by simp
    moreover obtain v'' where "form_end f' v' = Some (FName, v'')" using form_end_ok [OF v'(2)] by blast
    ultimately show "cleared BForm ((D @ d) @ E) \<longleftrightarrow> Refused LocalFile = Clean"
      using cleared_form_feed that by blast
  qed
  have large: "settles BForm (D @ d) (Refused TooLarge)" if "MAX_PARAMETERS < length (D @ d)"
    using that by (auto simp: settles_def)
  show ?thesis using v v' D found large by (auto simp: scanner_feed_def total_verdict_def)
qed

lemma scanner_feed_spec:
  assumes "scanned k D sc"
  obtains v sc' where "scanner_feed d sc = Some (v, sc')"
    "case v of None \<Rightarrow> scanned k (D @ d) sc' | Some v \<Rightarrow> settles k (D @ d) v"
proof -
  have "\<exists>v sc'. scanner_feed d sc = Some (v, sc') \<and>
      (case v of None \<Rightarrow> scanned k (D @ d) sc' | Some v \<Rightarrow> settles k (D @ d) v)"
  proof (cases k)
    case (BMultipart b)
    with assms obtain s where s: "sc = SMultipart s" by (cases sc) auto
    with multipart_feed_spec [of b D s d] assms BMultipart show ?thesis by (fastforce simp: scanner_feed_def)
  next
    case BJson
    with assms obtain v n where "sc = SJson v n" by (cases sc) auto
    with json_feed_spec assms BJson show ?thesis by blast
  next
    case BForm
    with assms obtain v f n where "sc = SForm v f n" by (cases sc) auto
    with form_feed_spec assms BForm show ?thesis by blast
  qed
  with that show ?thesis by blast
qed

lemma scanner_finish_spec:
  assumes "scanned k D sc"
  obtains v sc' where "scanner_finish sc = Some (v, sc')" "v = Clean \<longleftrightarrow> cleared k D"
proof (cases k)
  case (BMultipart b)
  with assms obtain s s0 where s: "sc = SMultipart s" "multipart_new b = Some s0" "multipart_bytes D s0 = Some s"
    by (cases sc) (auto split: bind_splits)
  from cleared_multipart [OF s(2,3)] BMultipart that s(1) show ?thesis
    by (cases "multipart_finish s") (auto simp: scanner_finish_def)
next
  case BJson
  with assms obtain v n where sc: "sc = SJson v n" by (cases sc) auto
  with assms BJson cleared_json_feed [of D v] that show ?thesis by (auto simp: scanner_finish_def found_verdict_def)
next
  case BForm
  with assms obtain v f n where sc: "sc = SForm v f n" by (cases sc) auto
  with assms BForm obtain v' where "form_end f v = Some (FName, v')" using form_end_ok [of v f] by auto
  with assms BForm sc cleared_form_feed [of D f v FName v'] that show ?thesis
    by (auto simp: scanner_finish_def found_verdict_def)
qed

section \<open>The guard\<close>

text \<open>A sequence of polls: what the body returns for each, and whether it is then at its end.\<close>

fun guard_run :: "(polled \<times> bool) list \<Rightarrow> scan_guard \<Rightarrow> (handed list \<times> scan_guard) option" where
  "guard_run [] g = Some ([], g)"
| "guard_run ((p, e) # ps) g =
     (case poll_frame p e g of
        None \<Rightarrow> None
      | Some (h, g) \<Rightarrow> map_option (apfst (Cons h)) (guard_run ps g))"

fun data_of :: "polled \<Rightarrow> bytes" where
  "data_of (Ready (Data d)) = d"
| "data_of _ = []"

definition body_data :: "(polled \<times> bool) list \<Rightarrow> bytes" where
  "body_data ps = concat (map (data_of \<circ> fst) ps)"

fun handed_data :: "handed \<Rightarrow> bytes" where
  "handed_data (Handed p) = data_of p"
| "handed_data RefusedError = []"

text \<open>
  The polls that end a body of known length \<open>len\<close> (if any): the end itself, trailers, or a
  data frame after which the body says so or no byte of its known length is left.
\<close>

fun ends_body :: "nat option \<Rightarrow> bytes \<Rightarrow> polled \<Rightarrow> bool \<Rightarrow> bool" where
  "ends_body len past (Ready (Data d)) e \<longleftrightarrow>
     e \<or> (case len of None \<Rightarrow> False | Some n \<Rightarrow> n \<le> length past + length d)"
| "ends_body len past (Ready Trailers) e \<longleftrightarrow> True"
| "ends_body len past End e \<longleftrightarrow> True"
| "ends_body len past _ e \<longleftrightarrow> False"

fun end_flags :: "nat option \<Rightarrow> bytes \<Rightarrow> (polled \<times> bool) list \<Rightarrow> bool list" where
  "end_flags len past [] = []"
| "end_flags len past ((p, e) # ps) = ends_body len past p e # end_flags len (past @ data_of p) ps"

text \<open>What an HTTP body keeps to: no data follows its end.\<close>

fun framed :: "nat option \<Rightarrow> bytes \<Rightarrow> (polled \<times> bool) list \<Rightarrow> bool" where
  "framed len past [] \<longleftrightarrow> True"
| "framed len past ((p, e) # ps) \<longleftrightarrow>
     (if ends_body len past p e then body_data ps = [] else framed len (past @ data_of p) ps)"

definition as_end :: "polled \<Rightarrow> polled" where
  "as_end p = (if p = Ready Trailers then End else p)"

lemma body_data_simps [simp]: "body_data [] = []" "body_data ((p, e) # ps) = data_of p @ body_data ps"
  by (simp_all add: body_data_def)

lemma run_clean: "sg_scan g = ScanClean \<Longrightarrow> guard_run ps g = Some (map (Handed \<circ> as_end \<circ> fst) ps, g)"
  by (induction ps) (auto simp: poll_frame_def as_end_def)

lemma run_refused: "sg_scan g = ScanRefused \<Longrightarrow> guard_run ps g = Some (replicate (length ps) RefusedError, g)"
  by (induction ps) (auto simp: poll_frame_def)

lemma end_flags_length [simp]: "length (end_flags len past ps) = length ps"
  by (induction len past ps rule: end_flags.induct) auto

text \<open>What the theorem says of a run.\<close>

definition guarded :: "body_kind \<Rightarrow> bytes \<Rightarrow> bool list \<Rightarrow> (polled \<times> bool) list \<Rightarrow> (handed list \<times> scan_guard) option \<Rightarrow> bool" where
  "guarded k body flags ps run \<longleftrightarrow>
     (\<exists>hs g. run = Some (hs, g) \<and>
        (if cleared k body then hs = map (Handed \<circ> as_end \<circ> fst) ps \<and> sg_verdict g = Some Clean
         else list_all2 (\<lambda>end h. end \<longrightarrow> h = RefusedError) flags hs \<and> (\<exists>r. sg_verdict g = Some (Refused r))))"

lemma guarded_Cons:
  assumes "poll_frame p e g = Some (Handed (as_end p), g')" and "\<not> f \<or> cleared k body"
    and "guarded k body flags ps (guard_run ps g')"
  shows "guarded k body (f # flags) ((p, e) # ps) (guard_run ((p, e) # ps) g)"
  using assms by (cases "cleared k body") (auto simp: guarded_def)

lemma guarded_clean:
  assumes "poll_frame p e g = Some (Handed (as_end p), decide Clean g')" and "sg_verdict g' = None" and "cleared k body"
  shows "guarded k body flags ((p, e) # ps) (guard_run ((p, e) # ps) g)"
  using assms run_clean [of "decide Clean g'" ps] by (auto simp: guarded_def decide_def)

lemma guarded_refused:
  assumes "poll_frame p e g = Some (RefusedError, decide (Refused r) g')" and "sg_verdict g' = None" and "\<not> cleared k body"
    and "length flags = Suc (length ps)"
  shows "guarded k body flags ((p, e) # ps) (guard_run ((p, e) # ps) g)"
  using assms run_refused [of "decide (Refused r) g'" ps]
  by (auto simp: guarded_def decide_def list_all2_conv_all_nth nth_Cons split: nat.splits)

lemma finish_guarded:
  assumes "scanned k D sc" and "scanner_finish sc = Some (v, sc')" and "v = Clean \<longleftrightarrow> cleared k D"
    and "poll_frame p e g = (case v of Clean \<Rightarrow> Some (Handed (as_end p), decide Clean g')
           | Refused r \<Rightarrow> Some (RefusedError, decide (Refused r) g'))"
    and "sg_verdict g' = None" and "length flags = Suc (length ps)"
  shows "guarded k D flags ((p, e) # ps) (guard_run ((p, e) # ps) g)"
proof (cases v)
  case Clean
  with assms guarded_clean show ?thesis by simp
next
  case (Refused r)
  with assms guarded_refused [of p e g r g' k D flags ps] show ?thesis by simp
qed

lemma run_guarded:
  assumes "scanned k D sc" and "sg_scan g = Scanning sc" and "sg_verdict g = None"
    and "sg_remaining g = map_option (\<lambda>n. n - length D) len" and "framed len D ps" and "True \<in> set (end_flags len D ps)"
  shows "guarded k (D @ body_data ps) (end_flags len D ps) ps (guard_run ps g)"
  using assms
proof (induction ps arbitrary: D sc g)
  case (Cons pe ps)
  obtain p e where pe: "pe = (p, e)" by (cases pe)
  note P = Cons.prems [unfolded pe]
  obtain v sc' where fin: "scanner_finish sc = Some (v, sc')" "v = Clean \<longleftrightarrow> cleared k D"
    by (rule scanner_finish_spec [OF P(1)])
  have len: "length (end_flags len D ((p, e) # ps)) = Suc (length ps)" by simp
  have stays: ?case if "poll_frame p e g = Some (Handed p, g)" "data_of p = []" "as_end p = p" "\<not> ends_body len D p e"
    using guarded_Cons [of p e g g False k "D @ body_data ps" "end_flags len D ps" ps] Cons.IH [OF P(1-4)] P(5,6) that
    by (simp add: pe)
  have finishes: ?case if "p = End \<or> p = Ready Trailers"
  proof -
    let ?g = "g\<lparr>sg_scan := Scanning sc'\<rparr>"
    have "poll_frame p e g = (case v of Clean \<Rightarrow> Some (Handed (as_end p), decide Clean ?g)
        | Refused r \<Rightarrow> Some (RefusedError, decide (Refused r) ?g))"
      using that P(2) fin(1) by (auto simp: poll_frame_def as_end_def split: verdict.splits)
    from finish_guarded [OF P(1) fin this _ len] P(3,5) that show ?thesis by (auto simp: pe)
  qed
  show ?case
  proof (cases p)
    case (Ready fr)
    show ?thesis
    proof (cases fr)
      case (Data d)
      obtain w sc1 where w: "scanner_feed d sc = Some (w, sc1)"
        "case w of None \<Rightarrow> scanned k (D @ d) sc1 | Some v \<Rightarrow> settles k (D @ d) v" by (rule scanner_feed_spec [OF P(1)])
      have pd: "p = Ready (Data d)" "as_end p = p" "data_of p = d" using Ready Data by (auto simp: as_end_def)
      let ?rem = "map_option (\<lambda>r. r - length d) (sg_remaining g)"
      let ?g = "g\<lparr>sg_scan := Scanning sc1, sg_remaining := ?rem\<rparr>"
      have rem: "?rem = map_option (\<lambda>n. n - length (D @ d)) len" using P(4) by (cases len) auto
      have ends: "?rem = Some 0 \<or> e \<longleftrightarrow> ends_body len D p e" unfolding rem pd(1) by (cases len) auto
      show ?thesis
      proof (cases w)
        case (Some v1)
        have st: "settles k (D @ d) v1" using w(2) Some by simp
        have pf: "poll_frame p e g = (case v1 of Clean \<Rightarrow> Some (Handed (as_end p), decide Clean ?g)
            | Refused r \<Rightarrow> Some (RefusedError, decide (Refused r) ?g))"
          using P(2) w(1) Some pd by (simp add: poll_frame_def Let_def split: verdict.splits)
        have "v1 = Clean \<longleftrightarrow> cleared k (D @ d @ body_data ps)" using st by (simp add: settles_def)
        with pf guarded_clean [of p e g ?g k "D @ d @ body_data ps"]
          guarded_refused [of p e g _ ?g k "D @ d @ body_data ps" "end_flags len D ((p, e) # ps)" ps] len P(3) show ?thesis
          by (cases v1) (auto simp: pe pd(3))
      next
        case None
        with w(2) have sc1: "scanned k (D @ d) sc1" by simp
        show ?thesis
        proof (cases "ends_body len D p e")
          case True
          obtain v2 sc2 where fin2: "scanner_finish sc1 = Some (v2, sc2)" "v2 = Clean \<longleftrightarrow> cleared k (D @ d)"
            by (rule scanner_finish_spec [OF sc1])
          let ?g2 = "?g\<lparr>sg_scan := Scanning sc2\<rparr>"
          have "poll_frame p e g = (case v2 of Clean \<Rightarrow> Some (Handed (as_end p), decide Clean ?g2)
              | Refused r \<Rightarrow> Some (RefusedError, decide (Refused r) ?g2))"
            using P(2) w(1) None pd ends True fin2(1) by (auto simp: poll_frame_def Let_def split: verdict.splits)
          from finish_guarded [OF sc1 fin2 this _ len] P(3,5) True pd show ?thesis by (simp add: pe)
        next
          case False
          have pf: "poll_frame p e g = Some (Handed (as_end p), ?g)"
            using P(2) w(1) None pd ends False by (auto simp: poll_frame_def Let_def)
          have "guarded k ((D @ d) @ body_data ps) (end_flags len (D @ d) ps) ps (guard_run ps ?g)"
            using Cons.IH [OF sc1, of ?g] P(3,5,6) rem False pd by simp
          with guarded_Cons [OF pf, of False k "D @ d @ body_data ps" "end_flags len (D @ d) ps" ps] False pd show ?thesis
            by (simp add: pe)
        qed
      qed
    qed (use finishes Ready in auto)
  qed (use finishes stays P(2) in \<open>auto simp: poll_frame_def as_end_def\<close>)
qed simp

lemma guard_for_scanned:
  "\<exists>g sc. guard_for len k = Some g \<and> sg_scan g = Scanning sc \<and> scanned k [] sc \<and> sg_remaining g = len \<and> sg_verdict g = None"
proof (cases k)
  case (BMultipart b)
  obtain s where "multipart_new b = Some s" "scan_ok b 0 0 s" using multipart_new_ok [of b] by blast
  with BMultipart show ?thesis by (auto simp: guard_multipart_def guard_new_def live_def scan_ok_def)
qed (auto simp: guard_params_def guard_new_def MAX_PARAMETERS_def)

text \<open>
  C28. A guarded body reaches the server whole exactly when it is cleared. For every body, of
  known or unknown length and cut into frames in any way, that ends and sends no data after
  its end: if the whole body is cleared (as \<open>cleared\<close> says of JSON, urlencoded and multipart
  bodies), the guard hands out every frame unchanged (trailers becoming the end) and reports
  \<open>Clean\<close>; otherwise it hands out an error in place of every frame that would end the body,
  so the request never completes, and reports a refusal. It never panics.
\<close>

theorem guard_blocks_exactly:
  assumes "framed len [] ps" and "True \<in> set (end_flags len [] ps)"
  shows "\<exists>g0. guard_for len k = Some g0 \<and>
    guarded k (body_data ps) (end_flags len [] ps) ps (guard_run ps g0)"
proof -
  obtain g sc where g: "guard_for len k = Some g" "sg_scan g = Scanning sc" "scanned k [] sc" "sg_remaining g = len"
    "sg_verdict g = None" using guard_for_scanned by blast
  from run_guarded [OF g(3,2,5) _ assms] g(1,4) show ?thesis by (auto simp: option.map_ident)
qed

text \<open>An escaped reference in a JSON string, cut inside the escape; the length is known.\<close>

definition demo_polls :: "(polled \<times> bool) list" where
  "demo_polls =
     [(Ready (Data (''{\"a\":\"'' @ [CHR 0x5C] @ ''u00'')), False), (Pending, False),
      (Ready (Data ''66ile:/etc/passwd\"}''), False)]"

theorem guard_blocks_exactly_witness:
  "\<exists>g0. guard_for (Some 29) BJson = Some g0 \<and>
     guarded BJson (body_data demo_polls) [False, False, True] demo_polls (guard_run demo_polls g0) \<and>
     \<not> cleared BJson (body_data demo_polls)"
proof -
  have f: "framed (Some 29) [] demo_polls" "end_flags (Some 29) [] demo_polls = [False, False, True]" by code_simp+
  have "\<not> cleared BJson (body_data demo_polls)" by code_simp
  with guard_blocks_exactly [OF f(1), of BJson] f(2) show ?thesis by simp
qed

end
