(* ===== verification/Methods.thy ===== *)
theory Methods
  imports Bytes "HOL-Library.Char_ord" "HOL-Library.List_Lexorder"
begin

text \<open>
  The Bot API's methods and sets of them, \<open>crates/tgin-botapi/src/gateway/methods.rs\<close>: the
  table of method names, the binary search of \<open>lookup\<close> (\<open>slice::binary_search_by\<close> as the
  standard library of the toolchain has it) and \<open>MethodSet\<close>, names and prefixes matched
  ignoring ASCII case.
\<close>

section \<open>The table\<close>

definition METHODS :: "string list" where
  "METHODS = [
    ''addStickerToSet'', ''answerCallbackQuery'', ''answerChatJoinRequestQuery'',
    ''answerGuestQuery'', ''answerInlineQuery'', ''answerPreCheckoutQuery'',
    ''answerShippingQuery'', ''answerWebAppQuery'', ''approveChatJoinRequest'',
    ''approveSuggestedPost'', ''banChatMember'', ''banChatSenderChat'', ''close'',
    ''closeForumTopic'', ''closeGeneralForumTopic'', ''convertGiftToStars'', ''copyMessage'',
    ''copyMessages'', ''createChatInviteLink'', ''createChatSubscriptionInviteLink'',
    ''createForumTopic'', ''createInvoiceLink'', ''createNewStickerSet'',
    ''declineChatJoinRequest'', ''declineSuggestedPost'', ''deleteAllMessageReactions'',
    ''deleteBusinessMessages'', ''deleteChatPhoto'', ''deleteChatStickerSet'',
    ''deleteEphemeralMessage'', ''deleteForumTopic'', ''deleteMessage'', ''deleteMessageReaction'',
    ''deleteMessages'', ''deleteMyCommands'', ''deleteStickerFromSet'', ''deleteStickerSet'',
    ''deleteStory'', ''deleteWebhook'', ''editChatInviteLink'', ''editChatSubscriptionInviteLink'',
    ''editEphemeralMessageCaption'', ''editEphemeralMessageMedia'',
    ''editEphemeralMessageReplyMarkup'', ''editEphemeralMessageText'', ''editForumTopic'',
    ''editGeneralForumTopic'', ''editMessageCaption'', ''editMessageChecklist'',
    ''editMessageLiveLocation'', ''editMessageMedia'', ''editMessageReplyMarkup'',
    ''editMessageText'', ''editStory'', ''editUserStarSubscription'', ''exportChatInviteLink'',
    ''forwardMessage'', ''forwardMessages'', ''getAvailableGifts'', ''getBusinessAccountGifts'',
    ''getBusinessAccountStarBalance'', ''getBusinessConnection'', ''getChat'',
    ''getChatAdministrators'', ''getChatGifts'', ''getChatMember'', ''getChatMemberCount'',
    ''getChatMenuButton'', ''getCustomEmojiStickers'', ''getFile'', ''getForumTopicIconStickers'',
    ''getGameHighScores'', ''getManagedBotAccessSettings'', ''getManagedBotToken'', ''getMe'',
    ''getMyCommands'', ''getMyDefaultAdministratorRights'', ''getMyDescription'', ''getMyName'',
    ''getMyShortDescription'', ''getMyStarBalance'', ''getStarTransactions'', ''getStickerSet'',
    ''getUpdates'', ''getUserChatBoosts'', ''getUserGifts'', ''getUserPersonalChatMessages'',
    ''getUserProfileAudios'', ''getUserProfilePhotos'', ''getWebhookInfo'',
    ''giftPremiumSubscription'', ''hideGeneralForumTopic'', ''leaveChat'', ''logOut'',
    ''pinChatMessage'', ''postStory'', ''promoteChatMember'', ''readBusinessMessage'',
    ''refundStarPayment'', ''removeBusinessAccountProfilePhoto'', ''removeChatVerification'',
    ''removeMyProfilePhoto'', ''removeUserVerification'', ''reopenForumTopic'',
    ''reopenGeneralForumTopic'', ''replaceManagedBotToken'', ''replaceStickerInSet'',
    ''repostStory'', ''restrictChatMember'', ''revokeChatInviteLink'',
    ''savePreparedInlineMessage'', ''savePreparedKeyboardButton'', ''sendAnimation'', ''sendAudio'',
    ''sendChatAction'', ''sendChatJoinRequestWebApp'', ''sendChecklist'', ''sendContact'',
    ''sendDice'', ''sendDocument'', ''sendGame'', ''sendGift'', ''sendInvoice'', ''sendLivePhoto'',
    ''sendLocation'', ''sendMediaGroup'', ''sendMessage'', ''sendMessageDraft'', ''sendPaidMedia'',
    ''sendPhoto'', ''sendPoll'', ''sendRichMessage'', ''sendRichMessageDraft'', ''sendSticker'',
    ''sendVenue'', ''sendVideo'', ''sendVideoNote'', ''sendVoice'', ''setBusinessAccountBio'',
    ''setBusinessAccountGiftSettings'', ''setBusinessAccountName'',
    ''setBusinessAccountProfilePhoto'', ''setBusinessAccountUsername'',
    ''setChatAdministratorCustomTitle'', ''setChatDescription'', ''setChatMemberTag'',
    ''setChatMenuButton'', ''setChatPermissions'', ''setChatPhoto'', ''setChatStickerSet'',
    ''setChatTitle'', ''setCustomEmojiStickerSetThumbnail'', ''setGameScore'',
    ''setManagedBotAccessSettings'', ''setMessageReaction'', ''setMyCommands'',
    ''setMyDefaultAdministratorRights'', ''setMyDescription'', ''setMyName'', ''setMyProfilePhoto'',
    ''setMyShortDescription'', ''setPassportDataErrors'', ''setStickerEmojiList'',
    ''setStickerKeywords'', ''setStickerMaskPosition'', ''setStickerPositionInSet'',
    ''setStickerSetThumbnail'', ''setStickerSetTitle'', ''setUserEmojiStatus'', ''setWebhook'',
    ''stopMessageLiveLocation'', ''stopPoll'', ''transferBusinessAccountStars'', ''transferGift'',
    ''unbanChatMember'', ''unbanChatSenderChat'', ''unhideGeneralForumTopic'',
    ''unpinAllChatMessages'', ''unpinAllForumTopicMessages'', ''unpinAllGeneralForumTopicMessages'',
    ''unpinChatMessage'', ''upgradeGift'', ''uploadStickerFile'', ''verifyChat'', ''verifyUser'']"

definition METHOD_COUNT :: nat where
  "METHOD_COUNT = length METHODS"

definition OTHER_LABEL :: string where
  "OTHER_LABEL = ''other''"

datatype method_id = MethodId nat

primrec method_index :: "method_id \<Rightarrow> nat" where
  "method_index (MethodId i) = i"

definition method_label :: "method_id \<Rightarrow> string" where
  "method_label m = (if method_index m < length METHODS then METHODS ! method_index m else OTHER_LABEL)"

datatype cmp_order = Less | Equal | Greater

definition cmp_ignore_ascii_case :: "string \<Rightarrow> string \<Rightarrow> cmp_order" where
  "cmp_ignore_ascii_case a b =
     (let la = map ascii_lower a; lb = map ascii_lower b
      in if la < lb then Less else if la = lb then Equal else Greater)"

text \<open>
  \<open>binary_search_by\<close>: the window \<open>base, base + size\<close> is halved until one element is left,
  which is compared once more.
\<close>

function bsearch_loop :: "('a \<Rightarrow> cmp_order) \<Rightarrow> 'a list \<Rightarrow> nat \<Rightarrow> nat \<Rightarrow> nat" where
  "bsearch_loop f xs base n =
     (if n > 1 then
        (let half = n div 2; mid = base + half
         in bsearch_loop f xs (if f (xs ! mid) = Greater then base else mid) (n - half))
      else base)"
  by pat_completeness auto
termination by (relation "measure (\<lambda>(f, xs, base, n). n)") auto

declare bsearch_loop.simps [simp del]

definition binary_search_by :: "('a \<Rightarrow> cmp_order) \<Rightarrow> 'a list \<Rightarrow> nat option" where
  "binary_search_by f xs =
     (if xs = [] then None
      else (let base = bsearch_loop f xs 0 (length xs)
            in if f (xs ! base) = Equal then Some base else None))"

definition lookup_method :: "string \<Rightarrow> method_id option" where
  "lookup_method name =
     (case binary_search_by (\<lambda>entry. cmp_ignore_ascii_case entry name) METHODS of
        None \<Rightarrow> None
      | Some i \<Rightarrow> if i < 2 ^ 16 then Some (MethodId i) else None)"

section \<open>Method sets\<close>

record method_set =
  me_exact :: "string list"
  me_prefixes :: "string list"

definition method_set_add :: "string \<Rightarrow> method_set \<Rightarrow> method_set" where
  "method_set_add pat m =
     (let low = map ascii_lower pat
      in if low \<noteq> [] \<and> last low = CHR ''*'' then m\<lparr>me_prefixes := me_prefixes m @ [butlast low]\<rparr>
         else m\<lparr>me_exact := me_exact m @ [low]\<rparr>)"

definition method_set_new :: "string list \<Rightarrow> method_set" where
  "method_set_new patterns = fold method_set_add patterns \<lparr>me_exact = [], me_prefixes = []\<rparr>"

definition method_set_matches :: "string \<Rightarrow> method_set \<Rightarrow> bool" where
  "method_set_matches method m \<longleftrightarrow>
     list_ex (\<lambda>name. eq_ignore_ascii_case method name) (me_exact m) \<or>
     list_ex (\<lambda>p. length p \<le> length method \<and> eq_ignore_ascii_case (take (length p) method) p) (me_prefixes m)"

section \<open>Searching\<close>

lemma bsearch_loop_finds:
  assumes "\<forall>i < length xs. f (xs ! i) = (if i < k then Less else if i = k then Equal else Greater)"
    and "base \<le> k" and "k < base + n" and "base + n \<le> length xs"
  shows "bsearch_loop f xs base n = k"
  using assms(2-)
proof (induction n arbitrary: base rule: less_induct)
  case (less n)
  show ?case
  proof (cases "n > 1")
    case True
    let ?mid = "base + n div 2"
    have mid: "f (xs ! ?mid) = Greater \<longleftrightarrow> k < ?mid" "?mid < length xs"
      using assms(1) less.prems True by auto
    have small: "n - n div 2 < n" using True by simp
    show ?thesis
    proof (cases "k < ?mid")
      case k: True
      have "k < base + (n - n div 2)" "base + (n - n div 2) \<le> length xs" using k less.prems by auto
      with less.IH [OF small less.prems(1)] k True mid show ?thesis
        by (simp add: bsearch_loop.simps [of f xs base n] Let_def)
    next
      case k: False
      have "k < ?mid + (n - n div 2)" "?mid + (n - n div 2) \<le> length xs" using less.prems by auto
      with less.IH [OF small, of ?mid] k True mid show ?thesis
        by (simp add: bsearch_loop.simps [of f xs base n] Let_def)
    qed
  next
    case False
    with less.prems show ?thesis by (simp add: bsearch_loop.simps [of f xs base n])
  qed
qed

lemma bsearch_loop_less: "n \<ge> 1 \<Longrightarrow> bsearch_loop f xs base n < base + n"
proof (induction f xs base n rule: bsearch_loop.induct)
  case (1 f xs base n)
  show ?case
  proof (cases "n > 1")
    case True
    have "n - n div 2 \<ge> 1" using True by simp
    from "1.IH" [OF True refl refl this] True show ?thesis
      by (subst bsearch_loop.simps) (auto simp: Let_def split: if_splits)
  qed (use 1 in \<open>simp add: bsearch_loop.simps\<close>)
qed

text \<open>On a strictly sorted list the search is a lookup by key.\<close>

lemma binary_search_by_sorted:
  assumes "sorted_wrt (<) (map key xs)"
    and "\<forall>x. f x = (if key x < (y :: 'b :: linorder) then Less else if key x = y then Equal else Greater)"
  shows "binary_search_by f xs = Some i \<longleftrightarrow> i < length xs \<and> key (xs ! i) = y"
proof
  assume found: "binary_search_by f xs = Some i"
  then have "xs \<noteq> []" "i = bsearch_loop f xs 0 (length xs)" "f (xs ! i) = Equal"
    by (auto simp: binary_search_by_def Let_def split: if_splits)
  with bsearch_loop_less [of "length xs" f xs 0] assms(2) show "i < length xs \<and> key (xs ! i) = y"
    by (cases xs) (auto split: if_splits)
next
  assume i: "i < length xs \<and> key (xs ! i) = y"
  have lt: "key (xs ! j) < key (xs ! k)" if "j < k" "k < length xs" for j k
    using assms(1) that by (auto simp: sorted_wrt_iff_nth_less)
  have key: "\<forall>j < length xs. f (xs ! j) = (if j < i then Less else if j = i then Equal else Greater)"
  proof (intro allI impI)
    fix j
    assume "j < length xs"
    with lt [of j i] lt [of i j] i assms(2)
    show "f (xs ! j) = (if j < i then Less else if j = i then Equal else Greater)"
      by (cases j i rule: linorder_cases) auto
  qed
  have "bsearch_loop f xs 0 (length xs) = i" by (rule bsearch_loop_finds [OF key]) (use i in auto)
  with i key show "binary_search_by f xs = Some i" by (auto simp: binary_search_by_def Let_def)
qed

lemma METHODS_successive: "successively (<) (map (map ascii_lower) METHODS)"
  by code_simp

lemma METHODS_sorted: "sorted_wrt (<) (map (map ascii_lower) METHODS)"
  using METHODS_successive by (subst (asm) successively_conv_sorted_wrt) (auto intro: transpI)

lemma METHODS_length: "length METHODS = 185"
  by code_simp

lemma lookup_method_iff:
  "lookup_method name = Some m \<longleftrightarrow>
     method_index m < METHOD_COUNT \<and> eq_ignore_ascii_case (METHODS ! method_index m) name"
proof -
  let ?f = "\<lambda>entry. cmp_ignore_ascii_case entry name"
  have "binary_search_by ?f METHODS = Some i \<longleftrightarrow>
      i < length METHODS \<and> map ascii_lower (METHODS ! i) = map ascii_lower name" for i
    by (rule binary_search_by_sorted [OF METHODS_sorted]) (simp add: cmp_ignore_ascii_case_def Let_def)
  note bs = this
  have "lookup_method name = Some m \<longleftrightarrow> binary_search_by ?f METHODS = Some (method_index m) \<and> method_index m < 2 ^ 16"
    by (cases m) (auto simp: lookup_method_def split: option.splits)
  also have "\<dots> \<longleftrightarrow> method_index m < METHOD_COUNT \<and> eq_ignore_ascii_case (METHODS ! method_index m) name"
    unfolding bs METHODS_length METHOD_COUNT_def eq_ignore_ascii_case_def by auto
  finally show ?thesis .
qed

text \<open>
  \<open>lookup\<close> finds exactly the methods of the table, ignoring ASCII case: it answers the
  method of a position of the table whenever the name there is the one asked for up to case,
  and nothing for any other name. So the binary search agrees with a scan of the table.
\<close>

theorem lookup_exact:
  "lookup_method name = Some m \<longleftrightarrow>
     method_index m < METHOD_COUNT \<and> eq_ignore_ascii_case (method_label m) name"
  using lookup_method_iff [of name m] by (auto simp: method_label_def METHOD_COUNT_def)

section \<open>Sets\<close>

lemma of_char_lower:
  "(of_char (ascii_lower c) :: nat) = (let n = of_char c in if 65 \<le> n \<and> n \<le> 90 then n + 32 else n)"
  by (simp add: ascii_lower_def Let_def)

lemma ascii_lower_star: "ascii_lower c = CHR ''*'' \<longleftrightarrow> c = CHR ''*''"
proof -
  have "ascii_lower c = CHR ''*'' \<longleftrightarrow> (of_char (ascii_lower c) :: nat) = 42"
    using of_char_eq_iff [where 'a = nat, of "ascii_lower c" "CHR ''*''"] by simp
  also have "\<dots> \<longleftrightarrow> (of_char c :: nat) = 42" by (auto simp: of_char_lower Let_def)
  also have "\<dots> \<longleftrightarrow> c = CHR ''*''" using of_char_eq_iff [where 'a = nat, of c "CHR ''*''"] by simp
  finally show ?thesis .
qed

lemma ascii_lower_idem [simp]: "ascii_lower (ascii_lower c) = ascii_lower c"
  using of_char_eq_iff [where 'a = nat, of "ascii_lower (ascii_lower c)" "ascii_lower c"]
  by (auto simp: of_char_lower Let_def split: if_splits)

definition pattern_matches :: "string \<Rightarrow> string \<Rightarrow> bool" where
  "pattern_matches method pat =
     (if pat \<noteq> [] \<and> last pat = CHR ''*'' then prefix (map ascii_lower (butlast pat)) (map ascii_lower method)
      else eq_ignore_ascii_case method pat)"

lemma matches_add:
  "method_set_matches method (method_set_add pat m) \<longleftrightarrow> method_set_matches method m \<or> pattern_matches method pat"
proof (cases "pat \<noteq> [] \<and> last pat = CHR ''*''")
  case True
  then have "last (map ascii_lower pat) = CHR ''*''" "butlast (map ascii_lower pat) = map ascii_lower (butlast pat)"
    by (simp_all add: last_map ascii_lower_star map_butlast)
  moreover have "length p \<le> length method \<and> eq_ignore_ascii_case (take (length p) method) p \<longleftrightarrow>
      prefix (map ascii_lower p) (map ascii_lower method)" for p
  proof -
    have "prefix a b \<longleftrightarrow> length a \<le> length b \<and> take (length a) b = a" for a b :: string
      by (metis append_eq_conv_conj prefix_def prefix_length_le take_is_prefix)
    from this [of "map ascii_lower p" "map ascii_lower method"] show ?thesis
      by (simp add: eq_ignore_ascii_case_def take_map)
  qed
  ultimately show ?thesis
    using True by (auto simp: method_set_add_def Let_def method_set_matches_def pattern_matches_def o_def)
next
  case False
  then have "\<not> (map ascii_lower pat \<noteq> [] \<and> last (map ascii_lower pat) = CHR ''*'')"
    by (auto simp: last_map ascii_lower_star)
  with False show ?thesis
    by (auto simp: method_set_add_def Let_def method_set_matches_def pattern_matches_def eq_ignore_ascii_case_def o_def)
qed

lemma matches_fold:
  "method_set_matches method (fold method_set_add pats m) \<longleftrightarrow>
     method_set_matches method m \<or> list_ex (pattern_matches method) pats"
  by (induction pats arbitrary: m) (auto simp: matches_add)

text \<open>
  A method set matches exactly the methods one of its patterns names: a pattern that ends
  in \<open>*\<close> by prefix, any other by the whole name, both ignoring ASCII case.
\<close>

lemma method_set_exact:
  "method_set_matches method (method_set_new pats) \<longleftrightarrow> list_ex (pattern_matches method) pats"
  unfolding method_set_new_def matches_fold by (simp add: method_set_matches_def)

end
