(* ===== verification/Chat_Key.thy ===== *)
theory Chat_Key
  imports Bytes
begin

text \<open>
  The chat a request targets, \<open>crates/tgin-botapi/src/gateway/chat_key.rs\<close>.
\<close>

datatype chat_key = ChatId int | Username string

primrec is_group :: "chat_key \<Rightarrow> bool" where
  "is_group (ChatId i) = (i < 0)"
| "is_group (Username _) = True"

end
