(* ===== verification/Bot_Limiter.thy ===== *)
theory Bot_Limiter
  imports Slot_Calendar Methods Chat_Key "HOL-Library.Multiset"
begin

text \<open>
  One bot's limits, \<open>crates/tgin-botapi/src/gateway/limit.rs\<close>: the bot-wide calendar and the
  keyed quotas per chat and per group, and \<open>BotLimiter::acquire\<close>, which books all of them
  for one instant or none. The quotas meet it through the interface \<open>quota_slots\<close>, which the
  calendar and the keyed limiter both provide. A call is taken as one step of the limiter;
  \<open>BTreeMap\<close> order, wakers and metrics play no part here.
\<close>

section \<open>The interface of a quota\<close>

text \<open>
  What \<open>acquire\<close> relies on. \<open>view now s\<close> is what a quota shows from \<open>now\<close> on, \<open>free\<close> says
  which delays have a slot in it, and \<open>taken\<close> relates the views before and after a booking.
  A booking takes the first free delay, a denial means there is none within the limit, and a
  cancelled booking leaves no trace.
\<close>

locale quota_slots =
  fixes acq :: "instant \<Rightarrow> duration \<Rightarrow> duration \<Rightarrow> 's \<Rightarrow> (duration + duration \<times> 'h) \<times> 's"
    and undo_one :: "'h \<Rightarrow> 's \<Rightarrow> 's"
    and ok :: "'s \<Rightarrow> bool"
    and view :: "instant \<Rightarrow> 's \<Rightarrow> 'v"
    and free :: "instant \<Rightarrow> 'v \<Rightarrow> duration \<Rightarrow> bool"
    and taken :: "instant \<Rightarrow> 'v \<Rightarrow> duration \<Rightarrow> 'v \<Rightarrow> bool"
  assumes granted: "ok s \<Longrightarrow> now \<le> INSTANT_MAX \<Longrightarrow> from_now \<le> d \<Longrightarrow> d \<le> DURATION_MAX \<Longrightarrow>
      acq now from_now d s = (Inr (D, h), s') \<Longrightarrow>
      from_now \<le> D \<and> D \<le> d \<and> free now (view now s) D \<and>
      (\<forall>D'. from_now \<le> D' \<and> D' < D \<longrightarrow> \<not> free now (view now s) D') \<and>
      taken now (view now s) D (view now s')"
    and undone: "ok s \<Longrightarrow> now \<le> INSTANT_MAX \<Longrightarrow> acq now from_now d s = (Inr (D, h), s') \<Longrightarrow>
      ok (undo_one h s') \<and> view now (undo_one h s') = view now s"
    and denied: "ok s \<Longrightarrow> now \<le> INSTANT_MAX \<Longrightarrow> from_now \<le> d \<Longrightarrow> d \<le> DURATION_MAX \<Longrightarrow>
      acq now from_now d s = (Inl w, s') \<Longrightarrow>
      ok s' \<and> view now s' = view now s \<and>
      (\<forall>D. from_now \<le> D \<and> D \<le> d \<longrightarrow> \<not> free now (view now s) D)"
begin

text \<open>
  \<open>slot_held now v D h s\<close>: the quota showed the view \<open>v\<close> and now holds one slot of it, at the
  delay \<open>D\<close>; \<open>h\<close> undoes it.
\<close>

definition slot_held :: "instant \<Rightarrow> 'v \<Rightarrow> duration \<Rightarrow> 'h \<Rightarrow> 's \<Rightarrow> bool" where
  "slot_held now v D h s \<longleftrightarrow> free now v D \<and> taken now v D (view now s) \<and>
     ok (undo_one h s) \<and> view now (undo_one h s) = v"

definition plain :: "instant \<Rightarrow> 'v \<Rightarrow> 's \<Rightarrow> bool" where
  "plain now v s \<longleftrightarrow> ok s \<and> view now s = v"

lemma undo_plain: "slot_held now v D h s \<Longrightarrow> plain now v (undo_one h s)"
  by (simp add: slot_held_def plain_def)

lemma acq_plain:
  assumes "plain now v s" and "now \<le> INSTANT_MAX" and "from_now \<le> d" and "d \<le> DURATION_MAX"
  shows "case acq now from_now d s of
      (Inr (D, h), s') \<Rightarrow> from_now \<le> D \<and> D \<le> d \<and> slot_held now v D h s' \<and>
        (\<forall>D'. from_now \<le> D' \<and> D' < D \<longrightarrow> \<not> free now v D')
    | (Inl w, s') \<Rightarrow> plain now v s' \<and> (\<forall>D. from_now \<le> D \<and> D \<le> d \<longrightarrow> \<not> free now v D)"
proof (cases "acq now from_now d s")
  case (Pair r s')
  show ?thesis
  proof (cases r)
    case (Inl w)
    with denied [of s now from_now d w s'] Pair assms show ?thesis by (auto simp: plain_def)
  next
    case (Inr Dh)
    obtain D h where "Dh = (D, h)" by (cases Dh)
    with granted [of s now from_now d D h s'] undone [of s now from_now d D h s'] Inr Pair assms show ?thesis
      by (auto simp: plain_def slot_held_def)
  qed
qed

end

section \<open>The limiter\<close>

datatype rate_mode = Shape | Reject | Off

datatype scope = SGlobal | SChat | SGroup

definition MAX_RETRY_AFTER_SECS :: nat where
  "MAX_RETRY_AFTER_SECS = 3600"

record limited =
  li_scope :: scope
  li_retry_after :: duration

definition retry_after_secs :: "duration \<Rightarrow> nat" where
  "retry_after_secs wait =
     min (sat_add64 (wait div NANOS_PER_SEC) (if wait mod NANOS_PER_SEC > 0 then 1 else 0)) MAX_RETRY_AFTER_SECS"

record admission =
  am_delay :: duration
  am_scope :: scope

record rate =
  ra_count :: nat
  ra_per :: duration
  ra_burst :: nat

record rate_limit =
  rl_mode :: rate_mode
  rl_max_delay :: duration
  rl_methods :: "string list"
  rl_global :: rate
  rl_per_chat :: rate
  rl_per_group :: rate

record bot_limiter =
  bl_methods :: method_set
  bl_mode :: rate_mode
  bl_max_delay :: duration
  bl_global :: slot_calendar
  bl_chat :: "chat_key keyed_limiter"
  bl_group :: "chat_key keyed_limiter"

definition bot_limiter_new :: "(chat_key \<Rightarrow> nat) \<Rightarrow> (chat_key \<Rightarrow> nat) \<Rightarrow> rate_limit \<Rightarrow> quota_error + bot_limiter" where
  "bot_limiter_new chat_hash group_hash cfg =
     (let quota = (\<lambda>r. quota_new (ra_count r) (ra_per r) (ra_burst r))
      in case calendar_new (ra_count (rl_global cfg)) (ra_per (rl_global cfg)) (ra_burst (rl_global cfg)) of
           Inl e \<Rightarrow> Inl e
         | Inr global \<Rightarrow>
             (case quota (rl_per_chat cfg) of
                Inl e \<Rightarrow> Inl e
              | Inr chat_quota \<Rightarrow>
                  (case quota (rl_per_group cfg) of
                     Inl e \<Rightarrow> Inl e
                   | Inr group_quota \<Rightarrow>
                       Inr \<lparr>bl_methods = method_set_new (rl_methods cfg), bl_mode = rl_mode cfg,
                            bl_max_delay = (case rl_mode cfg of Shape \<Rightarrow> rl_max_delay cfg | Reject \<Rightarrow> 0 | Off \<Rightarrow> 0),
                            bl_global = global, bl_chat = limiter_new chat_hash chat_quota,
                            bl_group = limiter_new group_hash group_quota\<rparr>)))"

definition covers :: "string \<Rightarrow> bot_limiter \<Rightarrow> bool" where
  "covers method l = method_set_matches method (bl_methods l)"

definition applies :: "string \<Rightarrow> bot_limiter \<Rightarrow> bool" where
  "applies method l \<longleftrightarrow> bl_mode l \<noteq> Off \<and> covers method l"

datatype bucket = BGlobal | BChat chat_key | BGroup chat_key

primrec bucket_scope :: "bucket \<Rightarrow> scope" where
  "bucket_scope BGlobal = SGlobal"
| "bucket_scope (BChat _) = SChat"
| "bucket_scope (BGroup _) = SGroup"

datatype hold = HGlobal booking | HChat chat_key admit | HGroup chat_key admit

record booked =
  bo_hold :: hold
  bo_delay :: duration

text \<open>The two kinds of quota as \<open>book\<close> uses them: the wait of a denial, or the delay and what undoes it.\<close>

definition book_calendar ::
  "instant \<Rightarrow> duration \<Rightarrow> duration \<Rightarrow> slot_calendar \<Rightarrow> (duration + duration \<times> booking) \<times> slot_calendar" where
  "book_calendar now from_now max_delay c =
     (case calendar_acquire now from_now max_delay c of
        (Inr b, c') \<Rightarrow> (Inr (bk_delay b, b), c')
      | (Inl e, c') \<Rightarrow> (Inl (retry_after e), c'))"

definition book_keyed ::
  "'k \<Rightarrow> instant \<Rightarrow> duration \<Rightarrow> duration \<Rightarrow> 'k keyed_limiter \<Rightarrow> (duration + duration \<times> admit) \<times> 'k keyed_limiter" where
  "book_keyed key now from_now max_delay l =
     (case inst_checked_add now from_now of
        None \<Rightarrow> (Inl DURATION_MAX, l)
      | Some at \<Rightarrow>
          (case limiter_acquire key at (max_delay - from_now) l of
             (Inr adm, l') \<Rightarrow> (Inr (dur_sat_add from_now (ad_delay adm), adm), l')
           | (Inl e, l') \<Rightarrow> (Inl (dur_sat_add from_now (retry_after e)), l')))"

definition hold_result ::
  "scope \<Rightarrow> ('h \<Rightarrow> hold) \<Rightarrow> duration + duration \<times> 'h \<Rightarrow> limited + booked" where
  "hold_result sc hold r =
     (case r of
        Inl wait \<Rightarrow> Inl \<lparr>li_scope = sc, li_retry_after = wait\<rparr>
      | Inr (delay, h) \<Rightarrow> Inr \<lparr>bo_hold = hold h, bo_delay = delay\<rparr>)"

primrec bl_book :: "bucket \<Rightarrow> instant \<Rightarrow> duration \<Rightarrow> bot_limiter \<Rightarrow> (limited + booked) \<times> bot_limiter" where
  "bl_book BGlobal now from_now l =
     (case book_calendar now from_now (bl_max_delay l) (bl_global l) of
        (r, c) \<Rightarrow> (hold_result SGlobal HGlobal r, l\<lparr>bl_global := c\<rparr>))"
| "bl_book (BChat key) now from_now l =
     (case book_keyed key now from_now (bl_max_delay l) (bl_chat l) of
        (r, k) \<Rightarrow> (hold_result SChat (HChat key) r, l\<lparr>bl_chat := k\<rparr>))"
| "bl_book (BGroup key) now from_now l =
     (case book_keyed key now from_now (bl_max_delay l) (bl_group l) of
        (r, k) \<Rightarrow> (hold_result SGroup (HGroup key) r, l\<lparr>bl_group := k\<rparr>))"

definition unbook :: "booked \<Rightarrow> bot_limiter \<Rightarrow> bot_limiter" where
  "unbook b l =
     (case bo_hold b of
        HGlobal booking \<Rightarrow> l\<lparr>bl_global := calendar_cancel booking (bl_global l)\<rparr>
      | HChat key adm \<Rightarrow> l\<lparr>bl_chat := limiter_cancel key adm (bl_chat l)\<rparr>
      | HGroup key adm \<Rightarrow> l\<lparr>bl_group := limiter_cancel key adm (bl_group l)\<rparr>)"

definition undo :: "booked option list \<Rightarrow> bot_limiter \<Rightarrow> bot_limiter" where
  "undo bs l = fold unbook (List.map_filter id (rev bs)) l"

definition raise :: "scope \<Rightarrow> duration \<Rightarrow> admission \<Rightarrow> admission" where
  "raise sc delay adm = (if delay > am_delay adm then \<lparr>am_delay = delay, am_scope = sc\<rparr> else adm)"

text \<open>One pass over the buckets from index \<open>i\<close> on.\<close>

fun acquire_pass ::
  "instant \<Rightarrow> duration \<Rightarrow> nat \<Rightarrow> bucket option list \<Rightarrow> booked option list \<Rightarrow> admission \<Rightarrow> bot_limiter \<Rightarrow>
     (limited + booked option list \<times> admission) \<times> bot_limiter" where
  "acquire_pass now start i [] bs adm l = (Inr (bs, adm), l)"
| "acquire_pass now start i (None # bks) bs adm l = acquire_pass now start (Suc i) bks bs adm l"
| "acquire_pass now start i (Some bk # bks) bs adm l =
     (if (case bs ! i of None \<Rightarrow> False | Some b \<Rightarrow> bo_delay b \<ge> start)
      then acquire_pass now start (Suc i) bks bs adm l
      else
        (let l = (case bs ! i of None \<Rightarrow> l | Some early \<Rightarrow> unbook early l);
             bs = bs[i := None]
         in case bl_book bk now start l of
              (Inr booking, l') \<Rightarrow>
                acquire_pass now start (Suc i) bks (bs[i := Some booking])
                  (raise (bucket_scope bk) (bo_delay booking) adm) l'
            | (Inl limited, l') \<Rightarrow> (Inl limited, undo bs l')))"

partial_function (option) acquire_loop ::
  "instant \<Rightarrow> bucket option list \<Rightarrow> duration \<Rightarrow> booked option list \<Rightarrow> admission \<Rightarrow> bot_limiter \<Rightarrow>
     ((limited + admission) \<times> bot_limiter) option" where
  "acquire_loop now buckets start bs adm l =
     (case acquire_pass now start 0 buckets bs adm l of
        (Inl limited, l') \<Rightarrow> Some (Inl limited, l')
      | (Inr (bs', adm'), l') \<Rightarrow>
          if am_delay adm' = start then Some (Inr adm', l')
          else acquire_loop now buckets (am_delay adm') bs' adm' l')"

definition buckets_of :: "chat_key option \<Rightarrow> bucket option list" where
  "buckets_of chat =
     [Some BGlobal, map_option BChat chat,
      map_option BGroup (case chat of None \<Rightarrow> None | Some c \<Rightarrow> if is_group c then Some c else None)]"

definition bl_acquire :: "chat_key option \<Rightarrow> instant \<Rightarrow> bot_limiter \<Rightarrow> ((limited + admission) \<times> bot_limiter) option" where
  "bl_acquire chat now l =
     acquire_loop now (buckets_of chat) 0 [None, None, None] \<lparr>am_delay = 0, am_scope = SGlobal\<rparr> l"

definition bl_sweep :: "instant \<Rightarrow> bot_limiter \<Rightarrow> bot_limiter" where
  "bl_sweep now l =
     l\<lparr>bl_global := calendar_retain now (bl_global l), bl_chat := limiter_retain now (bl_chat l),
       bl_group := limiter_retain now (bl_group l)\<rparr>"

definition sweep_limiters :: "instant \<Rightarrow> bot_limiter list \<Rightarrow> bot_limiter list" where
  "sweep_limiters now bots = map (bl_sweep now) bots"

section \<open>The calendar as a quota\<close>

definition cal_ready :: "slot_calendar \<Rightarrow> bool" where
  "cal_ready c \<longleftrightarrow> cal_ok (sc_quota c) (sc_state c) \<and> cal_small (sc_quota c) (sc_state c)"

definition cal_view :: "instant \<Rightarrow> slot_calendar \<Rightarrow> quota \<times> calendar" where
  "cal_view now c = (sc_quota c, fold_before (sc_quota c) now (sc_state c))"

definition cal_free :: "instant \<Rightarrow> quota \<times> calendar \<Rightarrow> duration \<Rightarrow> bool" where
  "cal_free now v D \<longleftrightarrow> now + D \<le> INSTANT_MAX \<and>
     admitted (fst v) (cal_floor (snd v)) (insert_slot (now + D) (cal_slots (snd v)))"

definition cal_taken :: "instant \<Rightarrow> quota \<times> calendar \<Rightarrow> duration \<Rightarrow> quota \<times> calendar \<Rightarrow> bool" where
  "cal_taken now v D v' \<longleftrightarrow> v' = (fst v, (snd v)\<lparr>cal_slots := insert_slot (now + D) (cal_slots (snd v))\<rparr>)"

lemma fold_loop_again: "fold_loop T xs fl = (n, f) \<Longrightarrow> n \<le> length xs \<and> fold_loop T (drop n xs) f = (0, f)"
proof (induction T xs fl arbitrary: n f rule: fold_loop.induct)
  case (2 T slot slots fl)
  then show ?case by (auto split: option.splits prod.splits)
qed simp

lemma takeWhile_drop_prefix: "n \<le> length (takeWhile P xs) \<Longrightarrow> takeWhile P (drop n xs) = drop n (takeWhile P xs)"
proof (induction xs arbitrary: n)
  case (Cons x xs)
  then show ?case by (cases n) (auto split: if_splits)
qed simp

lemma take_partition_point: "take (partition_point P xs) xs = takeWhile P xs"
  by (simp add: partition_point_def takeWhile_eq_take [symmetric])

lemma fold_before_alt:
  "fold_before q now st =
     (case fold_loop (qt_interval q) (takeWhile (\<lambda>slot. slot < now) (cal_slots st)) (cal_floor st) of
        (folded, fl) \<Rightarrow> \<lparr>cal_floor = fl, cal_slots = drop folded (cal_slots st)\<rparr>)"
  by (simp add: fold_before_def Let_def take_partition_point)

lemma fold_before_again [simp]: "fold_before q now (fold_before q now st) = fold_before q now st"
proof -
  obtain n f where r: "fold_loop (qt_interval q) (takeWhile (\<lambda>slot. slot < now) (cal_slots st)) (cal_floor st) = (n, f)"
    by fastforce
  note L = fold_loop_again [OF r]
  then have "takeWhile (\<lambda>slot. slot < now) (drop n (cal_slots st)) = drop n (takeWhile (\<lambda>slot. slot < now) (cal_slots st))"
    by (intro takeWhile_drop_prefix) simp
  with L r show ?thesis by (simp add: fold_before_alt)
qed

lemma takeWhile_insert_slot:
  assumes "now \<le> t"
  shows "takeWhile (\<lambda>slot. slot < now) (insert_slot t slots) = takeWhile (\<lambda>slot. slot < now) slots"
  using assms
  by (induction slots) (auto simp: insert_slot_def partition_point_def Let_def)

lemma fold_before_insert:
  assumes "now \<le> t" and "fold_before q now st = st"
  shows "fold_before q now (st\<lparr>cal_slots := insert_slot t (cal_slots st)\<rparr>) =
    st\<lparr>cal_slots := insert_slot t (cal_slots st)\<rparr>"
proof -
  let ?xs = "takeWhile (\<lambda>slot. slot < now) (cal_slots st)"
  obtain n f where r: "fold_loop (qt_interval q) ?xs (cal_floor st) = (n, f)" by fastforce
  then have f: "f = cal_floor st" and d: "drop n (cal_slots st) = cal_slots st"
    using assms(2) by (auto simp: fold_before_alt) (metis calendar.select_convs)+
  have "length (cal_slots st) - n = length (cal_slots st)" by (metis d length_drop)
  moreover have "n \<le> length ?xs" using fold_loop_again [OF r] by blast
  moreover have "length ?xs \<le> length (cal_slots st)" by (rule length_takeWhile_le)
  ultimately have "n = 0" by linarith
  with r f show ?thesis by (simp add: fold_before_alt takeWhile_insert_slot [OF assms(1)])
qed

lemma remove_slot:
  assumes "sorted xs" and "t \<in> set xs"
  defines "i \<equiv> partition_point (\<lambda>slot. slot < t) xs"
  shows "i < length xs \<and> xs ! i = t \<and> take i xs @ drop (i + 1) xs = remove1 t xs"
  using assms(1,2) unfolding i_def
proof (induction xs)
  case (Cons x xs)
  show ?case
  proof (cases "x < t")
    case True
    with Cons show ?thesis by (auto simp: partition_point_def)
  next
    case False
    with Cons.prems have "x = t" by auto
    then show ?thesis by (simp add: partition_point_def)
  qed
qed simp

lemma mset_insert_slot: "mset (insert_slot t slots) = add_mset t (mset slots)"
proof -
  let ?i = "partition_point (\<lambda>slot. slot \<le> t) slots"
  have "mset (take ?i slots) + mset (drop ?i slots) = mset slots"
    unfolding mset_append [symmetric] by simp
  then show ?thesis unfolding insert_slot_def Let_def by simp
qed

lemma cancel_insert_slot:
  assumes "sorted (cal_slots st)" and "bk_at b = t"
    and "sc_state c = st\<lparr>cal_slots := insert_slot t (cal_slots st)\<rparr>"
  shows "calendar_cancel b c = c\<lparr>sc_state := st\<rparr>"
proof -
  let ?ys = "insert_slot t (cal_slots st)"
  have ys: "sorted ?ys" by (rule sorted_insert_slot [OF assms(1)])
  have "t \<in> set ?ys" by (simp add: insert_slot_def Let_def)
  note r = remove_slot [OF ys this]
  have "mset (remove1 t ?ys) = mset (cal_slots st)" by (simp add: mset_insert_slot)
  then have "remove1 t ?ys = cal_slots st"
    using assms(1) ys by (metis properties_for_sort sorted_remove1)
  with r assms(2,3) show ?thesis by (simp add: calendar_cancel_def Let_def)
qed

lemma earliest_representable: "earliest q st start = Some t \<Longrightarrow> t \<le> INSTANT_MAX"
  by (auto simp: earliest_def instant_at_def Let_def dest!: inst_checked_add_SomeD
      split: option.splits if_splits)

lemma book_calendar_InrD:
  assumes "book_calendar now from_now d c = (Inr (D, h), c')"
  defines "st \<equiv> fold_before (sc_quota c) now (sc_state c)"
  shows "now + from_now \<le> INSTANT_MAX" and "bk_at h \<le> INSTANT_MAX" and "D = bk_delay h"
    and "c' = c\<lparr>sc_state := st\<lparr>cal_slots := insert_slot (bk_at h) (cal_slots st)\<rparr>\<rparr>"
    and "calendar_acquire now from_now d c = (Inr h, c')"
  using assms(1) earliest_representable [of "sc_quota c" st "now + from_now"]
  unfolding st_def
  by (auto simp: book_calendar_def calendar_acquire_def inst_checked_add_def Let_def
      split: option.splits if_splits)

lemma book_calendar_InlD:
  assumes "book_calendar now from_now d c = (Inl w, c')"
  shows "c' = (if now + from_now \<le> INSTANT_MAX then c\<lparr>sc_state := fold_before (sc_quota c) now (sc_state c)\<rparr> else c)"
    and "\<exists>e. calendar_acquire now from_now d c = (Inl e, c')"
  using assms
  by (auto simp: book_calendar_def calendar_acquire_def inst_checked_add_def Let_def
      split: option.splits if_splits)

interpretation cal: quota_slots book_calendar calendar_cancel cal_ready cal_view cal_free cal_taken
proof (unfold_locales, goal_cases)
  case (1 s now from_now d D h s')
  define st where "st = fold_before (sc_quota s) now (sc_state s)"
  note b = book_calendar_InrD [OF 1(5), folded st_def]
  have e: "now + from_now \<le> bk_at h" "bk_at h = now + bk_delay h" "bk_delay h \<le> d"
      "\<forall>y. now + from_now \<le> y \<and> y < bk_at h \<longrightarrow>
        \<not> admitted (sc_quota s) (cal_floor st) (insert_slot y (cal_slots st))"
      "cal_ok (sc_quota s') (sc_state s')"
    using acquire_earliest [OF _ _ b(1) st_def, of d] 1(1) b(5) by (auto simp: cal_ready_def)
  have "fold_before (sc_quota s) now (sc_state s') = sc_state s'"
    unfolding b(4) using fold_before_insert [of now "bk_at h" "sc_quota s" st] e(1) by (simp add: st_def)
  with b e show ?case
    by (auto simp: cal_free_def cal_taken_def cal_view_def st_def [symmetric] cal_ok_def)
next
  case (2 s now from_now d D h s')
  define st where "st = fold_before (sc_quota s) now (sc_state s)"
  note b = book_calendar_InrD [OF 2(3), folded st_def]
  have ok: "cal_ok (sc_quota s) st" "cal_small (sc_quota s) st"
    using 2(1) by (auto simp: cal_ready_def st_def cal_ok_fold cal_small_fold)
  then have "calendar_cancel h s' = s\<lparr>sc_state := st\<rparr>"
    using cancel_insert_slot [of st h "bk_at h" s'] by (simp add: b(4) cal_ok_def)
  with ok show ?case by (simp add: cal_ready_def cal_view_def st_def)
next
  case (3 s now from_now d w s')
  define st where "st = fold_before (sc_quota s) now (sc_state s)"
  note b = book_calendar_InlD [OF 3(5), folded st_def]
  obtain e where e: "calendar_acquire now from_now d s = (Inl e, s')" using b(2) by blast
  have ok: "cal_ok (sc_quota s) st" "cal_small (sc_quota s) st"
    using 3(1) by (auto simp: cal_ready_def st_def cal_ok_fold cal_small_fold)
  have none: "\<not> cal_free now (cal_view now s) D" if "from_now \<le> D" "D \<le> d" for D
  proof (cases "now + from_now \<le> INSTANT_MAX")
    case True
    from acquire_earliest [OF _ _ True st_def, of d] 3(1) e that show ?thesis
      by (auto simp: cal_ready_def cal_free_def cal_view_def st_def)
  qed (use that in \<open>auto simp: cal_free_def\<close>)
  have "cal_ready s'" "cal_view now s' = cal_view now s"
    using 3(1) ok unfolding b(1) by (auto simp: cal_ready_def cal_view_def st_def)
  with none show ?case by blast
qed

section \<open>The keyed limiter as a quota\<close>

definition key_ready :: "'k keyed_limiter \<Rightarrow> bool" where
  "key_ready l \<longleftrightarrow> wf_limiter l \<and>
     (\<forall>k t. map_option ke_tat (entry_of l k) = Some (At t) \<longrightarrow> t \<le> INSTANT_MAX)"

definition key_view :: "instant \<Rightarrow> 'k keyed_limiter \<Rightarrow> quota \<times> ('k \<Rightarrow> kl_entry option)" where
  "key_view now l = (kl_quota l, entry_of l)"

definition key_free :: "'k \<Rightarrow> instant \<Rightarrow> quota \<times> ('k \<Rightarrow> kl_entry option) \<Rightarrow> duration \<Rightarrow> bool" where
  "key_free key now v D \<longleftrightarrow> now + D \<le> INSTANT_MAX \<and>
     (case map_option ke_tat (snd v key) of
        None \<Rightarrow> True
      | Some (At t) \<Rightarrow> t \<le> now + D + qt_tolerance (fst v)
      | Some Never \<Rightarrow> False)"

definition next_tat :: "quota \<Rightarrow> tat option \<Rightarrow> instant \<Rightarrow> tat" where
  "next_tat q stored at =
     (case inst_checked_add (case stored of Some (At t) \<Rightarrow> max t at | _ \<Rightarrow> at) (qt_interval q) of
        None \<Rightarrow> Never | Some n \<Rightarrow> At n)"

definition key_taken ::
  "'k \<Rightarrow> instant \<Rightarrow> quota \<times> ('k \<Rightarrow> kl_entry option) \<Rightarrow> duration \<Rightarrow> quota \<times> ('k \<Rightarrow> kl_entry option) \<Rightarrow> bool" where
  "key_taken key now v D v' \<longleftrightarrow> fst v' = fst v \<and> (\<forall>k. k \<noteq> key \<longrightarrow> snd v' k = snd v k) \<and>
     map_option ke_tat (snd v' key) = Some (next_tat (fst v) (map_option ke_tat (snd v key)) (now + D))"

definition key_wait :: "quota \<Rightarrow> tat option \<Rightarrow> instant \<Rightarrow> duration" where
  "key_wait q stored at = (case stored of Some (At t) \<Rightarrow> t - at - qt_tolerance q | _ \<Rightarrow> 0)"

lemma book_alt:
  "book q stored at m =
     (if stored = Some Never then Inl \<lparr>retry_after = DURATION_MAX\<rparr>
      else if key_wait q stored at > m then Inl \<lparr>retry_after = key_wait q stored at\<rparr>
      else Inr (next_tat q stored at, key_wait q stored at))"
  by (auto simp: book_def key_wait_def next_tat_def inst_since_def Let_def max_def
      split: option.splits tat.splits)

text \<open>A booking of one key, in terms of its stored arrival time.\<close>

lemma limiter_acquire_alt:
  assumes "wf_limiter l" and "limiter_acquire key at m l = (r, l')"
  defines "stored \<equiv> map_option ke_tat (entry_of l key)"
  shows "wf_limiter l'" and "kl_quota l' = kl_quota l" and "k \<noteq> key \<Longrightarrow> entry_of l' k = entry_of l k"
    and "isl r \<longleftrightarrow> stored = Some Never \<or> key_wait (kl_quota l) stored at > m"
    and "isl r \<Longrightarrow> entry_of l' key = entry_of l key"
    and "r = Inr adm \<Longrightarrow> ad_delay adm = key_wait (kl_quota l) stored at \<and>
      map_option ke_tat (entry_of l' key) = Some (next_tat (kl_quota l) stored at)"
    and "r = Inr adm \<Longrightarrow> limiter_cancel key adm l' = l'' \<Longrightarrow> entry_of l'' = entry_of l"
proof -
  note a = acquire_eqD [OF assms(2,1)]
  show "wf_limiter l'" "k \<noteq> key \<Longrightarrow> entry_of l' k = entry_of l k"
    "isl r \<Longrightarrow> entry_of l' key = entry_of l key" using a(1-3) by auto
  have fs: "fst (limiter_acquire key at m l) = r" "snd (limiter_acquire key at m l) = l'" using assms(2) by simp_all
  show "kl_quota l' = kl_quota l" using limiter_frame(1) [of key at m l] fs(2) by simp
  show "isl r \<longleftrightarrow> stored = Some Never \<or> key_wait (kl_quota l) stored at > m"
    unfolding fs(1) [symmetric] fst_limiter_acquire stored_def [symmetric] book_alt by simp
  show "r = Inr adm \<Longrightarrow> ad_delay adm = key_wait (kl_quota l) stored at \<and>
      map_option ke_tat (entry_of l' key) = Some (next_tat (kl_quota l) stored at)"
    unfolding fs(1) [symmetric] fs(2) [symmetric] fst_limiter_acquire entry_of_acquire [OF assms(1)]
      stored_def [symmetric] book_alt by (auto split: if_splits)
  show "r = Inr adm \<Longrightarrow> limiter_cancel key adm l' = l'' \<Longrightarrow> entry_of l'' = entry_of l"
    using a(3,4,5) entry_of_cancel [OF a(1), of key adm] by (fastforce simp: fun_eq_iff)
qed

lemma book_keyed_InrD:
  assumes "wf_limiter l" and "d \<le> DURATION_MAX" and "from_now \<le> d"
    and "book_keyed key now from_now d l = (Inr (D, h), l')"
  defines "stored \<equiv> map_option ke_tat (entry_of l key)"
  shows "now + from_now \<le> INSTANT_MAX" and "D = from_now + key_wait (kl_quota l) stored (now + from_now)"
    and "D \<le> d" and "stored \<noteq> Some Never"
    and "limiter_acquire key (now + from_now) (d - from_now) l = (Inr h, l')"
proof -
  show n: "now + from_now \<le> INSTANT_MAX"
    using assms(4) by (auto simp: book_keyed_def inst_checked_add_def split: if_splits)
  show l: "limiter_acquire key (now + from_now) (d - from_now) l = (Inr h, l')"
    using assms(4) n by (auto simp: book_keyed_def inst_checked_add_def split: prod.splits sum.splits)
  note a = limiter_acquire_alt [OF assms(1) l, folded stored_def]
  show "stored \<noteq> Some Never" using a(4) by auto
  have w: "key_wait (kl_quota l) stored (now + from_now) \<le> d - from_now" using a(4) by auto
  have "D = dur_sat_add from_now (key_wait (kl_quota l) stored (now + from_now))"
    using assms(4) l n a(6) by (auto simp: book_keyed_def inst_checked_add_def)
  then show "D = from_now + key_wait (kl_quota l) stored (now + from_now)" "D \<le> d"
    using w assms(2,3) by (simp_all add: dur_sat_add_def)
qed

lemma book_keyed_cancel:
  assumes "wf_limiter l" and "book_keyed key now from_now d l = (Inr (D, h), l')"
  shows "wf_limiter (limiter_cancel key h l')" and "kl_quota (limiter_cancel key h l') = kl_quota l"
    and "entry_of (limiter_cancel key h l') = entry_of l"
proof -
  obtain at where l: "limiter_acquire key at (d - from_now) l = (Inr h, l')"
    using assms(2) by (auto simp: book_keyed_def split: option.splits prod.splits sum.splits)
  note a = limiter_acquire_alt [OF assms(1) l]
  show "wf_limiter (limiter_cancel key h l')" "kl_quota (limiter_cancel key h l') = kl_quota l"
    using a(1,2) by simp_all
  show "entry_of (limiter_cancel key h l') = entry_of l" using a(7) by blast
qed

lemma book_keyed_InlD:
  assumes "wf_limiter l" and "book_keyed key now from_now d l = (Inl w, l')"
  defines "stored \<equiv> map_option ke_tat (entry_of l key)"
  shows "wf_limiter l'" and "kl_quota l' = kl_quota l" and "entry_of l' = entry_of l"
    and "now + from_now > INSTANT_MAX \<or> stored = Some Never \<or>
      key_wait (kl_quota l) stored (now + from_now) > d - from_now"
proof -
  have "now + from_now > INSTANT_MAX \<and> l' = l \<or>
      (\<exists>e. limiter_acquire key (now + from_now) (d - from_now) l = (Inl e, l'))"
    using assms(2) by (auto simp: book_keyed_def inst_checked_add_def split: prod.splits sum.splits if_splits)
  then have "wf_limiter l' \<and> kl_quota l' = kl_quota l \<and> entry_of l' = entry_of l \<and>
    (now + from_now > INSTANT_MAX \<or> stored = Some Never \<or>
      key_wait (kl_quota l) stored (now + from_now) > d - from_now)"
  proof
    assume "\<exists>e. limiter_acquire key (now + from_now) (d - from_now) l = (Inl e, l')"
    then obtain e where e: "limiter_acquire key (now + from_now) (d - from_now) l = (Inl e, l')" by blast
    note a = limiter_acquire_alt [OF assms(1) e, folded stored_def]
    have "entry_of l' k = entry_of l k" for k using a(3,5) by (cases "k = key") auto
    with a(1,2,4) show ?thesis by (auto simp: fun_eq_iff)
  qed (use assms(1) in auto)
  then show "wf_limiter l'" "kl_quota l' = kl_quota l" "entry_of l' = entry_of l"
    "now + from_now > INSTANT_MAX \<or> stored = Some Never \<or>
      key_wait (kl_quota l) stored (now + from_now) > d - from_now" by blast+
qed

lemma key_free_wait:
  assumes "key_ready l"
  shows "key_free key now (key_view now l) D \<longleftrightarrow> now + D \<le> INSTANT_MAX \<and>
    map_option ke_tat (entry_of l key) \<noteq> Some Never \<and>
    key_wait (kl_quota l) (map_option ke_tat (entry_of l key)) (now + D) = 0"
  by (auto simp: key_free_def key_view_def key_wait_def split: option.splits tat.splits)

lemma key_wait_shift:
  "key_wait q stored (at + x) = key_wait q stored at - x"
  by (auto simp: key_wait_def split: option.splits tat.splits)

lemma key_wait_representable:
  assumes "key_ready l" and "at \<le> INSTANT_MAX"
  shows "at + key_wait (kl_quota l) (map_option ke_tat (entry_of l key)) at \<le> INSTANT_MAX"
  using assms by (auto simp: key_ready_def key_wait_def split: option.splits tat.splits) fastforce

lemma next_tat_wait:
  "next_tat q stored (at + key_wait q stored at) = next_tat q stored at"
proof -
  have "max t (at + (t - at - tol)) = max t at" for t tol by auto
  then show ?thesis by (auto simp: next_tat_def key_wait_def split: option.splits tat.splits)
qed

interpretation key: quota_slots "book_keyed key" "limiter_cancel key" key_ready key_view "key_free key" "key_taken key"
  for key
proof (unfold_locales, goal_cases)
  case (1 s now from_now d D h s')
  then have wf: "wf_limiter s" by (simp add: key_ready_def)
  let ?w = "key_wait (kl_quota s) (map_option ke_tat (entry_of s key))"
  note b = book_keyed_InrD [OF wf 1(4,3,5)]
  note a = limiter_acquire_alt [OF wf b(5)]
  have free: "key_free key now (key_view now s) D" "\<not> key_free key now (key_view now s) D'"
    if "from_now \<le> D'" "D' < D" for D'
    using b(2,4) key_wait_representable [OF 1(1) b(1), of key] that
      key_wait_shift [of "kl_quota s" "map_option ke_tat (entry_of s key)" "now + from_now" "D' - from_now"]
      key_wait_shift [of "kl_quota s" "map_option ke_tat (entry_of s key)" "now + from_now" "?w (now + from_now)"]
    by (auto simp: key_free_wait [OF 1(1)] add.assoc)
  have free0: "key_free key now (key_view now s) D"
    using b(2,4) key_wait_representable [OF 1(1) b(1), of key]
      key_wait_shift [of "kl_quota s" "map_option ke_tat (entry_of s key)" "now + from_now" "?w (now + from_now)"]
    by (auto simp: key_free_wait [OF 1(1)] add.assoc)
  have "key_taken key now (key_view now s) D (key_view now s')"
    using a(2,3,6) next_tat_wait [of "kl_quota s" "map_option ke_tat (entry_of s key)" "now + from_now"]
    by (auto simp: key_taken_def key_view_def b(2) add.assoc)
  with free free0 b(2,3) show ?case by auto
next
  case (2 s now from_now d D h s')
  then have "wf_limiter s" by (simp add: key_ready_def)
  from book_keyed_cancel [OF this 2(3)] 2(1) show ?case by (auto simp: key_ready_def key_view_def)
next
  case (3 s now from_now d w s')
  then have wf: "wf_limiter s" by (simp add: key_ready_def)
  note b = book_keyed_InlD [OF wf 3(5)]
  have "\<not> key_free key now (key_view now s) D" if "from_now \<le> D" "D \<le> d" for D
    using b(4) that key_wait_shift [of "kl_quota s" "map_option ke_tat (entry_of s key)" "now + from_now" "D - from_now"]
    by (auto simp: key_free_wait [OF 3(1)])
  with b(1-3) 3(1) show ?case by (auto simp: key_ready_def key_view_def)
qed

section \<open>Bookings of a limiter\<close>

text \<open>
  The quota of a bucket in a limiter \<open>l\<close>, against the limiter \<open>l0\<close> a call starts from: it is
  as it was (\<open>plain_at\<close>), or holds the booking \<open>b\<close> on top (\<open>held_at\<close>). \<open>free_at\<close> and
  \<open>taken_at\<close> are the slots of the bucket's quota.
\<close>

primrec free_at :: "instant \<Rightarrow> bot_limiter \<Rightarrow> bucket \<Rightarrow> duration \<Rightarrow> bool" where
  "free_at now l BGlobal D = cal_free now (cal_view now (bl_global l)) D"
| "free_at now l (BChat key) D = key_free key now (key_view now (bl_chat l)) D"
| "free_at now l (BGroup key) D = key_free key now (key_view now (bl_group l)) D"

primrec taken_at :: "instant \<Rightarrow> bot_limiter \<Rightarrow> bucket \<Rightarrow> duration \<Rightarrow> bot_limiter \<Rightarrow> bool" where
  "taken_at now l BGlobal D l' = cal_taken now (cal_view now (bl_global l)) D (cal_view now (bl_global l'))"
| "taken_at now l (BChat key) D l' = key_taken key now (key_view now (bl_chat l)) D (key_view now (bl_chat l'))"
| "taken_at now l (BGroup key) D l' = key_taken key now (key_view now (bl_group l)) D (key_view now (bl_group l'))"

primrec plain_at :: "instant \<Rightarrow> bot_limiter \<Rightarrow> bucket \<Rightarrow> bot_limiter \<Rightarrow> bool" where
  "plain_at now l0 BGlobal l = cal.plain now (cal_view now (bl_global l0)) (bl_global l)"
| "plain_at now l0 (BChat key) l = key.plain now (key_view now (bl_chat l0)) (bl_chat l)"
| "plain_at now l0 (BGroup key) l = key.plain now (key_view now (bl_group l0)) (bl_group l)"

primrec held_at :: "instant \<Rightarrow> bot_limiter \<Rightarrow> bucket \<Rightarrow> booked \<Rightarrow> bot_limiter \<Rightarrow> bool" where
  "held_at now l0 BGlobal b l = (\<exists>h. bo_hold b = HGlobal h \<and>
     cal.slot_held now (cal_view now (bl_global l0)) (bo_delay b) h (bl_global l))"
| "held_at now l0 (BChat key) b l = (\<exists>h. bo_hold b = HChat key h \<and>
     key.slot_held key now (key_view now (bl_chat l0)) (bo_delay b) h (bl_chat l))"
| "held_at now l0 (BGroup key) b l = (\<exists>h. bo_hold b = HGroup key h \<and>
     key.slot_held key now (key_view now (bl_group l0)) (bo_delay b) h (bl_group l))"

definition same_quota :: "scope \<Rightarrow> bot_limiter \<Rightarrow> bot_limiter \<Rightarrow> bool" where
  "same_quota sc l l' = (case sc of SGlobal \<Rightarrow> bl_global l = bl_global l' | SChat \<Rightarrow> bl_chat l = bl_chat l'
     | SGroup \<Rightarrow> bl_group l = bl_group l')"

definition same_limits :: "bot_limiter \<Rightarrow> bot_limiter \<Rightarrow> bool" where
  "same_limits l l' \<longleftrightarrow> bl_methods l = bl_methods l' \<and> bl_mode l = bl_mode l' \<and> bl_max_delay l = bl_max_delay l'"

lemma at_cong:
  assumes "same_quota (bucket_scope bk) l l'"
  shows "plain_at now l0 bk l = plain_at now l0 bk l'" and "held_at now l0 bk b l = held_at now l0 bk b l'"
  using assms by (cases bk; simp add: same_quota_def)+

lemma held_taken:
  "held_at now l0 bk b l \<Longrightarrow> free_at now l0 bk (bo_delay b) \<and> taken_at now l0 bk (bo_delay b) l"
  by (cases bk) (auto simp: cal.slot_held_def key.slot_held_def)

lemma plain_start:
  assumes "cal_ready (bl_global l)" and "key_ready (bl_chat l)" and "key_ready (bl_group l)"
  shows "plain_at now l bk l"
  using assms by (cases bk) (auto simp: cal.plain_def key.plain_def)

lemma unbook_held:
  assumes "held_at now l0 bk b l"
  shows "plain_at now l0 bk (unbook b l)" and "same_limits l (unbook b l)"
    and "sc \<noteq> bucket_scope bk \<Longrightarrow> same_quota sc l (unbook b l)"
  using assms
  by (cases bk; auto simp: unbook_def same_limits_def same_quota_def split: scope.splits
      dest: cal.undo_plain key.undo_plain)+

lemma book_plain:
  assumes "plain_at now l0 bk l" and "now \<le> INSTANT_MAX" and "start \<le> bl_max_delay l"
    and "bl_max_delay l \<le> DURATION_MAX"
  shows "case bl_book bk now start l of
      (Inr b, l') \<Rightarrow> start \<le> bo_delay b \<and> bo_delay b \<le> bl_max_delay l \<and> held_at now l0 bk b l' \<and>
        (\<forall>D. start \<le> D \<and> D < bo_delay b \<longrightarrow> \<not> free_at now l0 bk D)
    | (Inl lim, l') \<Rightarrow> plain_at now l0 bk l' \<and> (\<forall>D. start \<le> D \<and> D \<le> bl_max_delay l \<longrightarrow> \<not> free_at now l0 bk D)"
proof (cases bk)
  case BGlobal
  with cal.acq_plain [OF _ assms(2-4), of "cal_view now (bl_global l0)" "bl_global l"] assms(1) show ?thesis
    by (auto simp: hold_result_def split: prod.splits sum.splits)
next
  case (BChat key)
  with key.acq_plain [OF _ assms(2-4), of "key_view now (bl_chat l0)" "bl_chat l" key] assms(1) show ?thesis
    by (auto simp: hold_result_def split: prod.splits sum.splits)
next
  case (BGroup key)
  with key.acq_plain [OF _ assms(2-4), of "key_view now (bl_group l0)" "bl_group l" key] assms(1) show ?thesis
    by (auto simp: hold_result_def split: prod.splits sum.splits)
qed

lemma book_frame:
  assumes "bl_book bk now start l = (r, l')"
  shows "same_limits l l'" and "sc \<noteq> bucket_scope bk \<Longrightarrow> same_quota sc l l'"
  using assms by (cases bk; auto simp: same_limits_def same_quota_def split: prod.splits scope.splits)+

section \<open>A call\<close>

text \<open>
  The state of a call: every bucket's quota is as it was or holds the call's booking, and
  the quotas of no bucket are untouched.
\<close>

definition distinct_scopes :: "bucket option list \<Rightarrow> bool" where
  "distinct_scopes bks \<longleftrightarrow> (\<forall>i < length bks. \<forall>j < length bks. \<forall>a b.
     i \<noteq> j \<and> bks ! i = Some a \<and> bks ! j = Some b \<longrightarrow> bucket_scope a \<noteq> bucket_scope b)"

definition cell :: "instant \<Rightarrow> bot_limiter \<Rightarrow> bucket \<Rightarrow> booked option \<Rightarrow> bot_limiter \<Rightarrow> bool" where
  "cell now l0 bk bo l = (case bo of None \<Rightarrow> plain_at now l0 bk l | Some b \<Rightarrow> held_at now l0 bk b l)"

definition booking_state ::
  "instant \<Rightarrow> bot_limiter \<Rightarrow> bucket option list \<Rightarrow> booked option list \<Rightarrow> bot_limiter \<Rightarrow> bool" where
  "booking_state now l0 bks bs l \<longleftrightarrow> length bs = length bks \<and> same_limits l0 l \<and>
     (\<forall>i < length bks. case bks ! i of None \<Rightarrow> bs ! i = None | Some bk \<Rightarrow> cell now l0 bk (bs ! i) l) \<and>
     (\<forall>sc. (\<forall>bk. Some bk \<in> set bks \<longrightarrow> bucket_scope bk \<noteq> sc) \<longrightarrow> same_quota sc l0 l)"

lemma same_quota_trans: "same_quota sc a b \<Longrightarrow> same_quota sc b c \<Longrightarrow> same_quota sc a c"
  by (auto simp: same_quota_def split: scope.splits)

lemma same_limits_trans: "same_limits a b \<Longrightarrow> same_limits b c \<Longrightarrow> same_limits a c"
  by (auto simp: same_limits_def)

text \<open>A step that changes one bucket's quota only.\<close>

lemma booking_state_update:
  assumes st: "booking_state now l0 bks bs l" and d: "distinct_scopes bks"
    and i: "i < length bks" "bks ! i = Some bk" and c: "cell now l0 bk bo l'"
    and fr: "same_limits l l'" "\<And>sc. sc \<noteq> bucket_scope bk \<Longrightarrow> same_quota sc l l'"
  shows "booking_state now l0 bks (bs[i := bo]) l'"
proof -
  have "case bks ! j of None \<Rightarrow> bs[i := bo] ! j = None | Some bk' \<Rightarrow> cell now l0 bk' (bs[i := bo] ! j) l'"
    if j: "j < length bks" for j
  proof (cases "j = i")
    case True
    with st i c show ?thesis by (simp add: booking_state_def)
  next
    case False
    have stj: "case bks ! j of None \<Rightarrow> bs ! j = None | Some bk' \<Rightarrow> cell now l0 bk' (bs ! j) l"
      using st j by (auto simp: booking_state_def)
    have "cell now l0 bk' bo' l' = cell now l0 bk' bo' l" if "bks ! j = Some bk'" for bk' bo'
    proof -
      have "bucket_scope bk' \<noteq> bucket_scope bk" using d i j False that by (auto simp: distinct_scopes_def)
      from at_cong [OF fr(2) [OF this]] show ?thesis by (auto simp: cell_def split: option.splits)
    qed
    with stj False show ?thesis by (auto split: option.splits)
  qed
  moreover have "same_quota sc l0 l'" if "\<forall>bk. Some bk \<in> set bks \<longrightarrow> bucket_scope bk \<noteq> sc" for sc
  proof -
    have "Some bk \<in> set bks" using i by (metis nth_mem)
    with that st fr(2) [of sc] show ?thesis
      by (auto simp: booking_state_def intro: same_quota_trans)
  qed
  ultimately show ?thesis
    using st same_limits_trans [OF _ fr(1)] by (auto simp: booking_state_def)
qed

lemma booking_state_unbook:
  assumes "booking_state now l0 bks bs l" and "distinct_scopes bks" and "i < length bs"
  shows "booking_state now l0 bks (bs[i := None]) (case bs ! i of None \<Rightarrow> l | Some b \<Rightarrow> unbook b l)"
proof (cases "bs ! i")
  case None
  with assms show ?thesis by (metis list_update_id option.simps(4))
next
  case (Some b)
  from assms obtain bk where bk: "bks ! i = Some bk" "held_at now l0 bk b l" "i < length bks"
    using Some by (auto simp: booking_state_def cell_def split: option.splits)
  from unbook_held [OF bk(2)] booking_state_update [OF assms(1,2) bk(3,1), of None "unbook b l"] Some
  show ?thesis by (simp add: cell_def)
qed

lemma undo_snoc: "undo (bs @ [bo]) l = undo bs (case bo of None \<Rightarrow> l | Some b \<Rightarrow> unbook b l)"
  by (simp add: undo_def List.map_filter_def split: option.splits)

lemma undo_all:
  assumes "booking_state now l0 bks (bs @ replicate m None) l" and "distinct_scopes bks"
  shows "booking_state now l0 bks (replicate (length bs + m) None) (undo bs l)"
  using assms(1)
proof (induction bs arbitrary: m l rule: rev_induct)
  case Nil
  then show ?case by (simp add: undo_def)
next
  case (snoc bo bs)
  from booking_state_unbook [OF snoc.prems assms(2), of "length bs"]
  have "booking_state now l0 bks (bs @ replicate (Suc m) None) (case bo of None \<Rightarrow> l | Some b \<Rightarrow> unbook b l)"
    by (simp add: nth_append)
  from snoc.IH [OF this] show ?case by (simp add: undo_snoc)
qed

text \<open>A delay every quota of the buckets has a slot for.\<close>

definition feasible :: "instant \<Rightarrow> bot_limiter \<Rightarrow> bucket option list \<Rightarrow> duration \<Rightarrow> bool" where
  "feasible now l bks D \<longleftrightarrow> list_all (\<lambda>bo. case bo of None \<Rightarrow> True | Some bk \<Rightarrow> free_at now l bk D) bks"

lemma feasibleD: "feasible now l bks D \<Longrightarrow> i < length bks \<Longrightarrow> bks ! i = Some bk \<Longrightarrow> free_at now l bk D"
  unfolding feasible_def list_all_iff by (metis nth_mem option.simps(5))

text \<open>
  What a pass keeps: bookings of at most the delay so far, and no feasible delay below it;
  the buckets before \<open>i\<close> are booked at \<open>start\<close> or later.
\<close>

definition pass_state ::
  "instant \<Rightarrow> bot_limiter \<Rightarrow> bucket option list \<Rightarrow> duration \<Rightarrow> nat \<Rightarrow> booked option list \<Rightarrow> admission \<Rightarrow> bot_limiter \<Rightarrow> bool" where
  "pass_state now l0 bks start i bs adm l \<longleftrightarrow> booking_state now l0 bks bs l \<and>
     start \<le> am_delay adm \<and> am_delay adm \<le> bl_max_delay l0 \<and>
     (\<forall>D < am_delay adm. \<not> feasible now l0 bks D) \<and>
     (\<forall>j < length bks. \<forall>b. bs ! j = Some b \<longrightarrow> bo_delay b \<le> am_delay adm) \<and>
     (\<forall>j < i. bks ! j \<noteq> None \<longrightarrow> (\<exists>b. bs ! j = Some b \<and> start \<le> bo_delay b))"

definition pass_done ::
  "instant \<Rightarrow> bot_limiter \<Rightarrow> bucket option list \<Rightarrow> duration \<Rightarrow> admission \<Rightarrow>
     (limited + booked option list \<times> admission) \<times> bot_limiter \<Rightarrow> bool" where
  "pass_done now l0 bks start adm res \<longleftrightarrow>
     (case res of
        (Inr (bs', adm'), l') \<Rightarrow> pass_state now l0 bks start (length bks) bs' adm' l' \<and> am_delay adm \<le> am_delay adm'
      | (Inl lim, l') \<Rightarrow> booking_state now l0 bks (replicate (length bks) None) l' \<and>
          (\<forall>D \<le> bl_max_delay l0. \<not> feasible now l0 bks D))"

lemma pass_state_book:
  assumes ps: "pass_state now l0 bks start i bs adm l" and d: "distinct_scopes bks"
    and i: "i < length bks" "bks ! i = Some bk"
    and bs: "booking_state now l0 bks bs1 l1" "bs1 = bs[i := None]"
    and b: "bl_book bk now start l1 = (Inr b, l')" "start \<le> bo_delay b" "bo_delay b \<le> bl_max_delay l0"
      "held_at now l0 bk b l'" "\<forall>D. start \<le> D \<and> D < bo_delay b \<longrightarrow> \<not> free_at now l0 bk D"
  shows "pass_state now l0 bks start (Suc i) (bs1[i := Some b]) (raise (bucket_scope bk) (bo_delay b) adm) l'"
    and "am_delay adm \<le> am_delay (raise (bucket_scope bk) (bo_delay b) adm)"
proof -
  have len: "length bs = length bks" using ps by (simp add: pass_state_def booking_state_def)
  have st: "booking_state now l0 bks (bs1[i := Some b]) l'"
    by (rule booking_state_update [OF bs(1) d i]) (use b(4) book_frame [OF b(1)] in \<open>auto simp: cell_def\<close>)
  have "\<not> feasible now l0 bks D" if "D < am_delay adm \<or> D < bo_delay b" for D
    using that ps b(5) feasibleD [OF _ i, of now l0 D] by (cases "D < start") (auto simp: pass_state_def not_less)
  moreover have "\<exists>b'. bs1[i := Some b] ! j = Some b' \<and> start \<le> bo_delay b'"
    if "j < Suc i" "bks ! j \<noteq> None" for j
    using that ps b(2) i(1) len by (cases "j = i") (auto simp: pass_state_def bs(2) less_Suc_eq)
  moreover have "bo_delay b' \<le> am_delay (raise (bucket_scope bk) (bo_delay b) adm)"
    if "j < length bks" "bs1[i := Some b] ! j = Some b'" for j b'
    using that ps i(1) len by (cases "j = i") (auto simp: pass_state_def bs(2) raise_def)
  ultimately show "pass_state now l0 bks start (Suc i) (bs1[i := Some b]) (raise (bucket_scope bk) (bo_delay b) adm) l'"
    using st ps b(3) by (auto simp: pass_state_def raise_def)
  show "am_delay adm \<le> am_delay (raise (bucket_scope bk) (bo_delay b) adm)" by (simp add: raise_def)
qed

lemma acquire_pass_done:
  assumes d: "distinct_scopes bks" and now: "now \<le> INSTANT_MAX" and mx: "bl_max_delay l0 \<le> DURATION_MAX"
    and "pass_state now l0 bks start i bs adm l" and "rest = drop i bks" and "i \<le> length bks"
  shows "pass_done now l0 bks start adm (acquire_pass now start i rest bs adm l)"
  using assms(4-)
proof (induction rest arbitrary: i bs adm l)
  case Nil
  then show ?case by (simp add: pass_done_def)
next
  case (Cons bo rest)
  note ps = Cons.prems(1)
  have i: "i < length bks" using Cons.prems(2,3) by (cases "i = length bks") auto
  have nth: "bks ! i = bo" and rest: "rest = drop (Suc i) bks"
    using Cons.prems(2) i by (simp_all add: Cons_nth_drop_Suc [symmetric])
  have len: "length bs = length bks" using ps by (simp add: pass_state_def booking_state_def)
  note IH = Cons.IH [OF _ rest, unfolded Suc_le_eq, OF _ i]
  show ?case
  proof (cases bo)
    case None
    with ps nth have "pass_state now l0 bks start (Suc i) bs adm l"
      by (auto simp: pass_state_def less_Suc_eq)
    with IH None show ?thesis by simp
  next
    case (Some bk)
    show ?thesis
    proof (cases "case bs ! i of None \<Rightarrow> False | Some b \<Rightarrow> bo_delay b \<ge> start")
      case True
      with ps have "pass_state now l0 bks start (Suc i) bs adm l"
        by (auto simp: pass_state_def less_Suc_eq split: option.splits)
      with IH Some True show ?thesis by simp
    next
      case False
      define l1 where "l1 = (case bs ! i of None \<Rightarrow> l | Some early \<Rightarrow> unbook early l)"
      define bs1 where "bs1 = bs[i := None]"
      have st1: "booking_state now l0 bks bs1 l1"
        using booking_state_unbook [OF _ d, of now l0 bs l i] ps i len
        by (auto simp: pass_state_def l1_def bs1_def)
      have plain: "plain_at now l0 bk l1"
        using st1 i nth Some len by (auto simp: booking_state_def bs1_def cell_def split: option.splits)
      have max1: "bl_max_delay l1 = bl_max_delay l0" using st1 by (simp add: booking_state_def same_limits_def)
      have start: "start \<le> bl_max_delay l0" using ps by (auto simp: pass_state_def)
      note bp = book_plain [OF plain now, of start, unfolded max1, OF start mx]
      obtain r l' where r: "bl_book bk now start l1 = (r, l')" by fastforce
      have eq: "acquire_pass now start i (bo # rest) bs adm l = (case r of
          Inr b \<Rightarrow> acquire_pass now start (Suc i) rest (bs1[i := Some b]) (raise (bucket_scope bk) (bo_delay b) adm) l'
        | Inl lim \<Rightarrow> (Inl lim, undo bs1 l'))"
        using False by (simp add: Some l1_def [symmetric] bs1_def [symmetric] r Let_def split: sum.split)
      show ?thesis
      proof (cases r)
        case (Inr b)
        with bp r pass_state_book [OF ps d i _ st1 bs1_def, of bk b l'] nth Some
        have "pass_state now l0 bks start (Suc i) (bs1[i := Some b]) (raise (bucket_scope bk) (bo_delay b) adm) l'"
          and "am_delay adm \<le> am_delay (raise (bucket_scope bk) (bo_delay b) adm)" by auto
        with IH [OF this(1)] show ?thesis
          unfolding eq Inr by (auto simp: pass_done_def split: sum.splits prod.splits)
      next
        case (Inl lim)
        have "booking_state now l0 bks (bs1[i := None]) l'"
          by (rule booking_state_update [OF st1 d i, of bk])
            (use bp r Inl nth Some book_frame [OF r] in \<open>auto simp: cell_def\<close>)
        from undo_all [where m = 0, simplified, OF this d] have
          "booking_state now l0 bks (replicate (length bks) None) (undo bs1 l')"
          using len by (simp add: bs1_def)
        moreover have "\<not> feasible now l0 bks D" if "D \<le> bl_max_delay l0" for D
          using that ps bp r Inl feasibleD [OF _ i, of now l0 D] nth Some
          by (cases "D < start") (auto simp: pass_state_def not_less)
        ultimately show ?thesis unfolding eq Inl by (simp add: pass_done_def)
      qed
    qed
  qed
qed

text \<open>A call ends: every pass but the last raises the delay.\<close>

definition call_done ::
  "instant \<Rightarrow> bot_limiter \<Rightarrow> bucket option list \<Rightarrow> (limited + admission) \<times> bot_limiter \<Rightarrow> bool" where
  "call_done now l0 bks res \<longleftrightarrow>
     (case res of
        (Inr adm, l') \<Rightarrow> am_delay adm \<le> bl_max_delay l0 \<and> (\<forall>D < am_delay adm. \<not> feasible now l0 bks D) \<and>
          (\<exists>bs. booking_state now l0 bks bs l' \<and>
            (\<forall>i < length bks. bks ! i \<noteq> None \<longrightarrow> (\<exists>b. bs ! i = Some b \<and> bo_delay b = am_delay adm)))
      | (Inl lim, l') \<Rightarrow> booking_state now l0 bks (replicate (length bks) None) l' \<and>
          (\<forall>D \<le> bl_max_delay l0. \<not> feasible now l0 bks D))"

lemma acquire_loop_done:
  assumes d: "distinct_scopes bks" and now: "now \<le> INSTANT_MAX" and mx: "bl_max_delay l0 \<le> DURATION_MAX"
    and "pass_state now l0 bks start 0 bs adm l"
  shows "\<exists>res. acquire_loop now bks start bs adm l = Some res \<and> call_done now l0 bks res"
  using assms(4)
proof (induction "bl_max_delay l0 - start" arbitrary: start bs adm l rule: less_induct)
  case less
  note p = acquire_pass_done [OF d now mx less.prems, of bks]
  show ?case
  proof (cases "acquire_pass now start 0 bks bs adm l")
    case (Pair r l')
    show ?thesis
    proof (cases r)
      case (Inl lim)
      with p Pair show ?thesis
        by (subst acquire_loop.simps) (auto simp: pass_done_def call_done_def)
    next
      case (Inr res)
      obtain bs' adm' where res: "res = (bs', adm')" by fastforce
      with p Pair Inr have ps: "pass_state now l0 bks start (length bks) bs' adm' l'" by (simp add: pass_done_def)
      show ?thesis
      proof (cases "am_delay adm' = start")
        case True
        have "\<exists>b. bs' ! i = Some b \<and> bo_delay b = am_delay adm'" if "i < length bks" "bks ! i \<noteq> None" for i
          using ps that True by (fastforce simp: pass_state_def)
        with ps have "call_done now l0 bks (Inr adm', l')" by (auto simp: call_done_def pass_state_def)
        with True Pair Inr res show ?thesis by (subst acquire_loop.simps) simp
      next
        case False
        with ps have ps': "pass_state now l0 bks (am_delay adm') 0 bs' adm' l'" and
          "bl_max_delay l0 - am_delay adm' < bl_max_delay l0 - start" by (auto simp: pass_state_def)
        from less.hyps [OF this(2) this(1)] False Pair Inr res show ?thesis by (subst acquire_loop.simps) simp
      qed
    qed
  qed
qed

lemma buckets_distinct: "distinct_scopes (buckets_of chat)"
  by (auto simp: distinct_scopes_def buckets_of_def nth_Cons' less_Suc_eq split: option.splits if_splits)

lemma acquire_done:
  assumes "cal_ready (bl_global l)" and "key_ready (bl_chat l)" and "key_ready (bl_group l)"
    and "bl_max_delay l \<le> DURATION_MAX" and "now \<le> INSTANT_MAX"
  shows "\<exists>res. bl_acquire chat now l = Some res \<and> call_done now l (buckets_of chat) res"
proof -
  have "booking_state now l (buckets_of chat) [None, None, None] l"
    using plain_start [OF assms(1-3)]
    by (auto simp: booking_state_def buckets_of_def same_limits_def same_quota_def cell_def less_Suc_eq
        nth_Cons' simp del: plain_at.simps split: option.splits scope.splits)
  then have "pass_state now l (buckets_of chat) 0 0 [None, None, None] \<lparr>am_delay = 0, am_scope = SGlobal\<rparr> l"
    by (auto simp: pass_state_def buckets_of_def less_Suc_eq nth_Cons')
  from acquire_loop_done [OF buckets_distinct assms(5,4) this] show ?thesis by (simp add: bl_acquire_def)
qed

lemma plain_views:
  assumes "booking_state now l (buckets_of chat) [None, None, None] l'"
  shows "cal_view now (bl_global l') = cal_view now (bl_global l) \<and> key_view now (bl_chat l') = key_view now (bl_chat l) \<and>
    key_view now (bl_group l') = key_view now (bl_group l)"
proof -
  have c: "case buckets_of chat ! i of None \<Rightarrow> True | Some bk \<Rightarrow> plain_at now l bk l'" if "i < 3" for i
    using assms that unfolding booking_state_def cell_def
    by (auto simp: buckets_of_def less_Suc_eq numeral_3_eq_3 split: option.splits)
  have s: "(\<forall>bk. Some bk \<in> set (buckets_of chat) \<longrightarrow> bucket_scope bk \<noteq> sc) \<Longrightarrow> same_quota sc l l'" for sc
    using assms by (auto simp: booking_state_def)
  show ?thesis
    using c [of 0] c [of 1] c [of 2] s [of SChat] s [of SGroup]
    by (cases chat) (auto simp: buckets_of_def cal.plain_def key.plain_def same_quota_def key_view_def split: if_splits)
qed

text \<open>
  C29. A call to \<open>acquire\<close> always returns, and books the request for the first instant that
  suits every quota at once. Granted, the delay is at most \<open>max_delay\<close>, the global quota, the
  chat's and (for a group) the group's all have a slot then, they have none in common earlier,
  and each of them has taken exactly that slot, quotas that do not apply being untouched.
  Refused, no delay up to \<open>max_delay\<close> suits all quotas, and every quota shows what it did before.
\<close>

theorem bot_acquire_exact:
  assumes "cal_ready (bl_global l)" and "key_ready (bl_chat l)" and "key_ready (bl_group l)"
    and "bl_max_delay l \<le> DURATION_MAX" and "now \<le> INSTANT_MAX"
  shows "\<exists>r l'. bl_acquire chat now l = Some (r, l') \<and> same_limits l l' \<and>
    (case r of
       Inr adm \<Rightarrow> am_delay adm \<le> bl_max_delay l \<and> feasible now l (buckets_of chat) (am_delay adm) \<and>
         (\<forall>D < am_delay adm. \<not> feasible now l (buckets_of chat) D) \<and>
         list_all (\<lambda>bo. case bo of None \<Rightarrow> True | Some bk \<Rightarrow> taken_at now l bk (am_delay adm) l') (buckets_of chat) \<and>
         (\<forall>sc. (\<forall>bk. Some bk \<in> set (buckets_of chat) \<longrightarrow> bucket_scope bk \<noteq> sc) \<longrightarrow> same_quota sc l l')
     | Inl lim \<Rightarrow> (\<forall>D \<le> bl_max_delay l. \<not> feasible now l (buckets_of chat) D) \<and>
         cal_view now (bl_global l') = cal_view now (bl_global l) \<and>
         key_view now (bl_chat l') = key_view now (bl_chat l) \<and> key_view now (bl_group l') = key_view now (bl_group l))"
proof -
  obtain r l' where r: "bl_acquire chat now l = Some (r, l')" "call_done now l (buckets_of chat) (r, l')"
    using acquire_done [OF assms, of chat] by auto
  have three: "replicate (length (buckets_of chat)) None = [None, None, None]"
    by (simp add: buckets_of_def numeral_3_eq_3)
  show ?thesis
  proof (cases r)
    case (Inl lim)
    with r(2) have st: "booking_state now l (buckets_of chat) [None, None, None] l'"
      "\<forall>D \<le> bl_max_delay l. \<not> feasible now l (buckets_of chat) D"
      unfolding call_done_def three by auto
    with plain_views [OF st(1)] r(1) Inl show ?thesis by (auto simp: booking_state_def)
  next
    case (Inr adm)
    with r(2) obtain bs where st: "booking_state now l (buckets_of chat) bs l'"
      "\<forall>i < length (buckets_of chat). buckets_of chat ! i \<noteq> None \<longrightarrow> (\<exists>b. bs ! i = Some b \<and> bo_delay b = am_delay adm)"
      "am_delay adm \<le> bl_max_delay l" "\<forall>D < am_delay adm. \<not> feasible now l (buckets_of chat) D"
      by (auto simp: call_done_def)
    have "free_at now l bk (am_delay adm) \<and> taken_at now l bk (am_delay adm) l'"
      if "i < length (buckets_of chat)" "buckets_of chat ! i = Some bk" for i bk
    proof -
      from st(2) that obtain b where b: "bs ! i = Some b" "bo_delay b = am_delay adm" by auto
      with st(1) that have "held_at now l bk b l'" by (auto simp: booking_state_def cell_def)
      from held_taken [OF this] b(2) show ?thesis by simp
    qed
    then have "feasible now l (buckets_of chat) (am_delay adm)"
      "list_all (\<lambda>bo. case bo of None \<Rightarrow> True | Some bk \<Rightarrow> taken_at now l bk (am_delay adm) l') (buckets_of chat)"
      unfolding feasible_def list_all_length by (auto split: option.splits)
    with st r(1) Inr show ?thesis by (auto simp: booking_state_def)
  qed
qed

text \<open>The global quota is busy until 15: a group's request made at 5 leaves then.\<close>

definition demo_quota :: quota where
  "demo_quota = \<lparr>qt_interval = 10, qt_tolerance = 0\<rparr>"

definition demo_bot :: bot_limiter where
  "demo_bot = \<lparr>bl_methods = method_set_new [''send*''], bl_mode = Shape, bl_max_delay = 100,
     bl_global = \<lparr>sc_quota = demo_quota, sc_state = \<lparr>cal_floor = None, cal_slots = [5]\<rparr>\<rparr>,
     bl_chat = limiter_new (\<lambda>_. 0) demo_quota, bl_group = limiter_new (\<lambda>_. 0) demo_quota\<rparr>"

lemma demo_bot_feasible:
  "feasible 5 demo_bot (buckets_of (Some (ChatId (- 7)))) D \<longleftrightarrow> 10 \<le> D \<and> 5 + D \<le> INSTANT_MAX"
proof -
  have "cal_view 5 (bl_global demo_bot) = (demo_quota, \<lparr>cal_floor = None, cal_slots = [5]\<rparr>)" by code_simp
  then have c: "cal_free 5 (cal_view 5 (bl_global demo_bot)) D \<longleftrightarrow> 10 \<le> D \<and> 5 + D \<le> INSTANT_MAX"
    by (auto simp: cal_free_def insert_slot_def partition_point_def admitted_def demo_quota_def)
  have k: "key_free (ChatId (- 7)) 5 (key_view 5 (bl_chat demo_bot)) D \<longleftrightarrow> 5 + D \<le> INSTANT_MAX"
    "key_free (ChatId (- 7)) 5 (key_view 5 (bl_group demo_bot)) D \<longleftrightarrow> 5 + D \<le> INSTANT_MAX"
    by (simp_all add: key_free_def key_view_def demo_bot_def)
  show ?thesis by (auto simp: feasible_def buckets_of_def c k)
qed

theorem bot_acquire_exact_witness:
  "\<exists>adm l'. bl_acquire (Some (ChatId (- 7))) 5 demo_bot = Some (Inr adm, l') \<and> am_delay adm = 10 \<and>
    taken_at 5 demo_bot BGlobal 10 l' \<and> taken_at 5 demo_bot (BGroup (ChatId (- 7))) 10 l'"
proof -
  have ready: "cal_ready (bl_global demo_bot)" "key_ready (bl_chat demo_bot)" "key_ready (bl_group demo_bot)"
    by (simp_all add: cal_ready_def cal_ok_def cal_small_def admitted_def key_ready_def demo_bot_def demo_quota_def
        DURATION_MAX_def INSTANT_MAX_def NANOS_PER_SEC_def)
  have "bl_max_delay demo_bot \<le> DURATION_MAX" "5 \<le> INSTANT_MAX"
    by (simp_all add: demo_bot_def DURATION_MAX_def INSTANT_MAX_def NANOS_PER_SEC_def)
  note ex = bot_acquire_exact [OF ready this, of "Some (ChatId (- 7))"]
  have mx: "bl_max_delay demo_bot = 100" by (simp add: demo_bot_def)
  have big: "5 + 10 \<le> INSTANT_MAX" by (simp add: INSTANT_MAX_def NANOS_PER_SEC_def)
  show ?thesis
    using ex
  proof (elim exE conjE, goal_cases)
    case (1 r l')
    show ?case
    proof (cases r)
      case (Inl lim)
      with 1(3) have "\<not> feasible 5 demo_bot (buckets_of (Some (ChatId (- 7)))) 10" by (simp add: mx)
      with big show ?thesis by (simp add: demo_bot_feasible)
    next
      case (Inr adm)
      with 1(3) have f: "10 \<le> am_delay adm" by (simp add: demo_bot_feasible)
      have m: "\<forall>D < am_delay adm. \<not> (10 \<le> D \<and> 5 + D \<le> INSTANT_MAX)"
        using 1(3) Inr unfolding demo_bot_feasible by (simp only: sum.simps) blast
      have "am_delay adm = 10" using f m [rule_format, of 10] big by linarith
      with 1 Inr show ?thesis by (auto simp: buckets_of_def)
    qed
  qed
qed

end
