(* ===== verification/Admission.thy ===== *)
theory Admission
  imports Lease_Queue_System Rules_Props
begin

text \<open>
  Admission, \<open>crates/tgin-core/src/admission.rs\<close>: routing one update and queueing it in every
  target consumer, with the parts of \<open>crates/tgin-core/src/engine.rs\<close> it works on (\<open>Slot\<close>,
  \<open>Target\<close>, \<open>SourceInfo\<close>, \<open>EngineState\<close>), \<open>sink.rs\<close> and \<open>envelope.rs\<close>.

  Slots and engine states are shared (\<open>Arc\<close>): a world keeps them in stores, and targets and
  admissions name them by address. Metrics are counters by series name; log lines, gauges and
  the slicing of the payload that \<open>update_type\<close> saves are not part of the state.
\<close>

section \<open>Slots\<close>

datatype admit_result = Admitted | ABackpressure | Unroutable

record envelope =
  en_source :: source_id
  en_update_id :: int
  en_update_type :: string
  en_key :: "nat option"
  en_payload :: bytes
  en_received_at :: instant

record slot =
  sl_name :: string
  sl_queue :: "envelope lease_queue"
  sl_pressured_since :: nat
  sl_epoch :: instant
  sl_overflowing :: bool
  sl_closed :: bool
  sl_drain :: "nat option"
  sl_stopped :: bool

record target_slot =
  tg_slot :: nat
  tg_on_full :: on_full
  tg_capacity_bytes :: nat

record source_info =
  si_name :: string
  si_unmatched :: nat

datatype drop_reason = DropOverflow | DropDeadLetter | DropReload | DropPurge | DropOversized

record counters =
  ct_dropped :: "string \<Rightarrow> drop_reason \<Rightarrow> nat"
  ct_pressure :: "string \<Rightarrow> nat"
  ct_unmatched :: "string \<Rightarrow> nat"

record ('ac, 're) engine_state =
  es_table :: "('ac, 're) route_table"
  es_sources :: "source_info option list"
  es_targets :: "target_slot list"

record ('ac, 're) world =
  w_slots :: "nat \<Rightarrow> slot"
  w_states :: "nat \<Rightarrow> ('ac, 're) engine_state"
  w_current :: nat
  w_scratch :: "match_scratch list"
  w_flags :: "nat \<Rightarrow> bool"
  w_counters :: counters
  w_retired :: "nat list"
  w_cancelled :: "nat set"
  w_next_token :: nat

definition upd_slot :: "nat \<Rightarrow> (slot \<Rightarrow> slot) \<Rightarrow> ('ac, 're) world \<Rightarrow> ('ac, 're) world" where
  "upd_slot s g w = w\<lparr>w_slots := (w_slots w)(s := g (w_slots w s))\<rparr>"

definition dropped :: "nat \<Rightarrow> drop_reason \<Rightarrow> nat \<Rightarrow> ('ac, 're) world \<Rightarrow> ('ac, 're) world" where
  "dropped s reason n w =
     (let name = sl_name (w_slots w s); c = w_counters w
      in w\<lparr>w_counters := c\<lparr>ct_dropped := (ct_dropped c)(name := (ct_dropped c name)(reason := ct_dropped c name reason + n))\<rparr>\<rparr>)"

definition slot_mark :: "slot \<Rightarrow> instant \<Rightarrow> nat" where
  "slot_mark sl now =
     (let n = inst_since now (sl_epoch sl)
      in sat_add64 (if n \<le> U64_MAX then n else U64_MAX - 1) 1)"

definition count_pressure :: "nat \<Rightarrow> nat \<Rightarrow> instant \<Rightarrow> ('ac, 're) world \<Rightarrow> ('ac, 're) world" where
  "count_pressure s m now w =
     (if m = 0 then w
      else
        (let sl = w_slots w s; since = sl_epoch sl + (m - 1); c = w_counters w
         in w\<lparr>w_counters := c\<lparr>ct_pressure := (ct_pressure c)(sl_name sl := ct_pressure c (sl_name sl) + inst_since now since)\<rparr>\<rparr>))"

definition pressured :: "nat \<Rightarrow> instant \<Rightarrow> ('ac, 're) world \<Rightarrow> ('ac, 're) world" where
  "pressured s now w =
     (let previous = sl_pressured_since (w_slots w s)
      in count_pressure s previous now
           (upd_slot s (\<lambda>sl. sl\<lparr>sl_pressured_since := slot_mark sl now\<rparr>) w))"

definition relieved :: "nat \<Rightarrow> instant \<Rightarrow> ('ac, 're) world \<Rightarrow> ('ac, 're) world" where
  "relieved s now w =
     (let previous = sl_pressured_since (w_slots w s)
      in if previous = 0 then w
         else count_pressure s previous now (upd_slot s (\<lambda>sl. sl\<lparr>sl_pressured_since := 0\<rparr>) w))"

definition overflowed :: "nat \<Rightarrow> nat \<Rightarrow> ('ac, 're) world \<Rightarrow> ('ac, 're) world" where
  "overflowed s n w = upd_slot s (\<lambda>sl. sl\<lparr>sl_overflowing := True\<rparr>) (dropped s DropOverflow n w)"

definition reserved_cleanly :: "nat \<Rightarrow> ('ac, 're) world \<Rightarrow> ('ac, 're) world" where
  "reserved_cleanly s w = upd_slot s (\<lambda>sl. sl\<lparr>sl_overflowing := False\<rparr>) w"

definition drain_late :: "nat \<Rightarrow> ('ac, 're) world \<Rightarrow> ('ac, 're) world" where
  "drain_late s w =
     (case drain_all (sl_queue (w_slots w s)) of
        (items, Q) \<Rightarrow>
          (let w = upd_slot s (\<lambda>sl. sl\<lparr>sl_queue := Q\<rparr>) w
           in if length items > 0 then dropped s DropReload (length items) w else w))"

definition source_unmatched :: "source_info \<Rightarrow> ('ac, 're) world \<Rightarrow> ('ac, 're) world" where
  "source_unmatched info w =
     (let c = w_counters w
      in w\<lparr>w_counters := c\<lparr>ct_unmatched := (ct_unmatched c)(si_name info := ct_unmatched c (si_name info) + 1)\<rparr>,
           w_flags := (w_flags w)(si_unmatched info := True)\<rparr>)"

definition source_matched :: "source_info \<Rightarrow> ('ac, 're) world \<Rightarrow> ('ac, 're) world" where
  "source_matched info w = w\<lparr>w_flags := (w_flags w)(si_unmatched info := False)\<rparr>"

definition source_of :: "('ac, 're) engine_state \<Rightarrow> source_id \<Rightarrow> source_info option" where
  "source_of st i = (if i < length (es_sources st) then es_sources st ! i else None)"

section \<open>Reserving\<close>

type_synonym permits = "(target_slot \<times> permit) list"

datatype attempt = Done admit_result | Reserved permits instant | Closed

definition cancel_one :: "target_slot \<times> permit \<Rightarrow> ('ac, 're) world \<Rightarrow> ('ac, 're) world" where
  "cancel_one tp w = upd_slot (tg_slot (fst tp)) (\<lambda>sl. sl\<lparr>sl_queue := cancel (snd tp) (sl_queue sl)\<rparr>) w"

definition cancel_all :: "permits \<Rightarrow> ('ac, 're) world \<Rightarrow> ('ac, 're) world" where
  "cancel_all ps w = fold cancel_one ps w"

text \<open>The targets of an update in the order \<open>reserve\<close> visits them, with the pass they belong to.\<close>

definition target_get :: "('ac, 're) engine_state \<Rightarrow> consumer_id \<Rightarrow> target_slot option" where
  "target_get st i = (if i < length (es_targets st) then Some (es_targets st ! i) else None)"

definition pass_targets :: "('ac, 're) engine_state \<Rightarrow> consumer_id list \<Rightarrow> on_full \<Rightarrow> target_slot list" where
  "pass_targets st ids pass = filter (\<lambda>t. tg_on_full t = pass) (List.map_filter (target_get st) ids)"

fun reserve_pass ::
  "on_full \<Rightarrow> instant \<Rightarrow> nat \<Rightarrow> target_slot list \<Rightarrow> permits \<Rightarrow> ('ac, 're) world \<Rightarrow>
     ((attempt + permits) \<times> ('ac, 're) world) option" where
  "reserve_pass pass now sz [] ps w = Some (Inr ps, w)"
| "reserve_pass pass now sz (t # ts) ps w =
     (let s = tg_slot t; sl = w_slots w s
      in if sl_closed sl then Some (Inl Closed, cancel_all ps w)
         else
           (case try_reserve sz (sl_queue sl) of
              None \<Rightarrow> None
            | Some (r, Q) \<Rightarrow>
                (let w = upd_slot s (\<lambda>sl. sl\<lparr>sl_queue := Q\<rparr>) w
                 in case r of
                      Inr p \<Rightarrow>
                        (let w = relieved s now w;
                             w = (if evicted p > 0 then overflowed s (evicted p) w else reserved_cleanly s w)
                         in reserve_pass pass now sz ts (ps @ [(t, p)]) w)
                    | Inl Full_TooLarge \<Rightarrow>
                        reserve_pass pass now sz ts ps (dropped s DropOversized 1 w)
                    | Inl _ \<Rightarrow>
                        if pass = Backpressure
                        then Some (Inl (Done ABackpressure), cancel_all ps (pressured s now w))
                        else reserve_pass pass now sz ts ps (overflowed s 1 w))))"

definition reserve_targets ::
  "('ac, 're) engine_state \<Rightarrow> consumer_id list \<Rightarrow> instant \<Rightarrow> nat \<Rightarrow> ('ac, 're) world \<Rightarrow>
     (attempt \<times> ('ac, 're) world) option" where
  "reserve_targets st ids now sz w =
     (case reserve_pass Backpressure now sz (pass_targets st ids Backpressure) [] w of
        None \<Rightarrow> None
      | Some (Inl a, w) \<Rightarrow> Some (a, w)
      | Some (Inr ps, w) \<Rightarrow>
          (case reserve_pass DropOldest now sz (pass_targets st ids DropOldest) ps w of
             None \<Rightarrow> None
           | Some (Inl a, w) \<Rightarrow> Some (a, w)
           | Some (Inr ps, w) \<Rightarrow> Some (Reserved ps now, w)))"

definition reserve ::
  "('ac, 're) engines \<Rightarrow> nat \<Rightarrow> source_id \<Rightarrow> nat \<Rightarrow> facts \<Rightarrow> instant \<Rightarrow> ('ac, 're) world \<Rightarrow>
     (attempt \<times> ('ac, 're) world) option" where
  "reserve en gen src sz f now w =
     (let st = w_states w gen;
          sc = (if w_scratch w = [] then scratch_default else last (w_scratch w));
          pool = butlast (w_scratch w)
      in case route en src f (es_table st) sc of
           None \<Rightarrow> None
         | Some (matched, ids, t, sc) \<Rightarrow>
             (let w = w\<lparr>w_states := (w_states w)(gen := st\<lparr>es_table := t\<rparr>), w_scratch := pool @ [sc]\<rparr>;
                  info = source_of st src
              in case matched of
                   None \<Rightarrow> Some (Done Unroutable, (case info of None \<Rightarrow> w | Some i \<Rightarrow> source_unmatched i w))
                 | Some _ \<Rightarrow>
                     reserve_targets st ids now sz (case info of None \<Rightarrow> w | Some i \<Rightarrow> source_matched i w)))"

section \<open>Committing\<close>

text \<open>Dropping a permit gives its room back to the queue that granted it.\<close>

definition drop_anywhere :: "permit \<Rightarrow> ('ac, 're) world \<Rightarrow> ('ac, 're) world" where
  "drop_anywhere p w = w\<lparr>w_slots := (\<lambda>s. (w_slots w s)\<lparr>sl_queue := drop_permit p (sl_queue (w_slots w s))\<rparr>)\<rparr>"

definition commit_one :: "envelope \<Rightarrow> target_slot \<times> permit \<Rightarrow> ('ac, 're) world \<Rightarrow> ('ac, 're) world" where
  "commit_one env tp w =
     (let s = tg_slot (fst tp)
      in case commit (snd tp) env (en_key env) (en_update_id env) (sl_queue (w_slots w s)) of
           (Inr _, Q) \<Rightarrow> upd_slot s (\<lambda>sl. sl\<lparr>sl_queue := Q\<rparr>) w
         | (Inl (p, _), Q) \<Rightarrow> dropped s DropOverflow 1 (drop_anywhere p (upd_slot s (\<lambda>sl. sl\<lparr>sl_queue := Q\<rparr>) w)))"

definition settle_one :: "nat \<Rightarrow> ('ac, 're) world \<Rightarrow> ('ac, 're) world" where
  "settle_one s w = (if sl_closed (w_slots w s) then drain_late s w else w)"

definition commit_reserved ::
  "permits \<Rightarrow> instant \<Rightarrow> source_id \<Rightarrow> int \<Rightarrow> bytes \<Rightarrow> facts \<Rightarrow> ('ac, 're) world \<Rightarrow>
     admit_result \<times> ('ac, 're) world" where
  "commit_reserved ps now src update_id payload f w =
     (let env = \<lparr>en_source = src, en_update_id = update_id, en_update_type = f_update_type f,
                 en_key = ordering_key f, en_payload = payload, en_received_at = now\<rparr>
      in (Admitted, fold (\<lambda>tp w. settle_one (tg_slot (fst tp)) (commit_one env tp w)) ps w))"

definition admit_with ::
  "('ac, 're) engines \<Rightarrow> nat \<Rightarrow> source_id \<Rightarrow> int \<Rightarrow> bytes \<Rightarrow> facts \<Rightarrow> instant \<Rightarrow> ('ac, 're) world \<Rightarrow>
     (admit_result \<times> ('ac, 're) world) option" where
  "admit_with en gen src update_id payload f now w =
     (case reserve en gen src (length payload) f now w of
        None \<Rightarrow> None
      | Some (Done a, w) \<Rightarrow> Some (a, w)
      | Some (Reserved ps t, w) \<Rightarrow> Some (commit_reserved ps t src update_id payload f w)
      | Some (Closed, w) \<Rightarrow>
          (case reserve en (w_current w) src (length payload) f now w of
             None \<Rightarrow> None
           | Some (Done a, w) \<Rightarrow> Some (a, w)
           | Some (Reserved ps t, w) \<Rightarrow> Some (commit_reserved ps t src update_id payload f w)
           | Some (Closed, w) \<Rightarrow> Some (ABackpressure, w)))"

definition sink_admit ::
  "('ac, 're) engines \<Rightarrow> source_id \<Rightarrow> int \<Rightarrow> bytes \<Rightarrow> facts \<Rightarrow> instant \<Rightarrow> ('ac, 're) world \<Rightarrow>
     (admit_result \<times> ('ac, 're) world) option" where
  "sink_admit en src update_id payload f now w = admit_with en (w_current w) src update_id payload f now w"

section \<open>What touches a queue\<close>

abbreviation wq :: "('ac, 're) world \<Rightarrow> nat \<Rightarrow> envelope lease_queue" where
  "wq w s \<equiv> sl_queue (w_slots w s)"

abbreviation wclosed :: "('ac, 're) world \<Rightarrow> nat \<Rightarrow> bool" where
  "wclosed w s \<equiv> sl_closed (w_slots w s)"

lemma w_slots_upd [simp]: "w_slots (upd_slot s g w) r = (if r = s then g (w_slots w s) else w_slots w r)"
  by (simp add: upd_slot_def)

lemma w_slots_counters [simp]:
  "w_slots (dropped s reason n w) = w_slots w" "w_slots (count_pressure s m now w) = w_slots w"
  "w_slots (source_unmatched i w) = w_slots w" "w_slots (source_matched i w) = w_slots w"
  by (simp_all add: dropped_def count_pressure_def source_unmatched_def source_matched_def Let_def)

lemma slot_bookkeeping [simp]:
  "wq (pressured s now w) r = wq w r" "wclosed (pressured s now w) r = wclosed w r"
  "wq (relieved s now w) r = wq w r" "wclosed (relieved s now w) r = wclosed w r"
  "wq (overflowed s n w) r = wq w r" "wclosed (overflowed s n w) r = wclosed w r"
  "wq (reserved_cleanly s w) r = wq w r" "wclosed (reserved_cleanly s w) r = wclosed w r"
  by (simp_all add: pressured_def relieved_def overflowed_def reserved_cleanly_def Let_def)

lemma cancel_one_slots [simp]:
  "wq (cancel_one tp w) r = (if r = tg_slot (fst tp) then cancel (snd tp) (wq w r) else wq w r)"
  "wclosed (cancel_one tp w) r = wclosed w r"
  by (simp_all add: cancel_one_def)

text \<open>Permits of different slots: what cancelling or committing all of them does to one queue.\<close>

lemma fold_slots:
  assumes "distinct (map slot_of xs)"
    and "\<And>x w r. wq (g x w) r = (if r = slot_of x then h x (wq w r) else wq w r)"
  shows "wq (fold g xs w) r = (case find (\<lambda>x. slot_of x = r) xs of None \<Rightarrow> wq w r | Some x \<Rightarrow> h x (wq w r))"
  using assms(1)
proof (induction xs arbitrary: w)
  case (Cons x xs)
  have "find (\<lambda>x. slot_of x = r) xs = None" if "slot_of x = r"
    using Cons.prems that by (simp add: find_None_iff image_iff) metis
  with Cons show ?case by (auto simp: assms(2) split: option.splits)
qed simp

lemma cancel_all_slots:
  assumes "distinct (map (tg_slot \<circ> fst) ps)"
  shows "wq (cancel_all ps w) r =
    (case find (\<lambda>tp. tg_slot (fst tp) = r) ps of None \<Rightarrow> wq w r | Some tp \<Rightarrow> cancel (snd tp) (wq w r))"
  using fold_slots [where slot_of = "tg_slot \<circ> fst" and g = cancel_one and h = "\<lambda>tp. cancel (snd tp)", OF assms]
  by (simp add: cancel_all_def)

section \<open>One queue\<close>

lemma wrap_sub_add: "a < 2 ^ 64 \<Longrightarrow> wrap_sub64 (wrap_add64 a b) b = a"
proof -
  assume a: "a < 2 ^ 64"
  have le: "b mod 2 ^ 64 \<le> 2 ^ 64" by (simp add: less_imp_le)
  have "b = 2 ^ 64 * (b div 2 ^ 64) + b mod 2 ^ 64" by simp
  with le have e: "(a + b) + (2 ^ 64 - b mod 2 ^ 64) = a + 2 ^ 64 * (b div 2 ^ 64 + 1)" by (simp only: distrib_left)
  have "wrap_sub64 (wrap_add64 a b) b = ((a + b) + (2 ^ 64 - b mod 2 ^ 64)) mod 2 ^ 64"
    by (simp only: wrap_sub64_def wrap_add64_def mod_add_left_eq)
  also have "\<dots> = a" unfolding e using a by (simp only: mod_mult_self2 mod_less)
  finally show ?thesis .
qed

definition queue_ready :: "envelope lease_queue \<Rightarrow> bool" where
  "queue_ready Q \<longleftrightarrow> wf_queue Q \<and> lq_res_items Q < 2 ^ 64 \<and> lq_res_bytes Q < 2 ^ 64"

text \<open>A queue that refuses for lack of room, and a queue that is offered an update.\<close>

definition queue_full :: "nat \<Rightarrow> envelope lease_queue \<Rightarrow> bool" where
  "queue_full sz Q = (case try_reserve sz Q of Some (Inl full, _) \<Rightarrow> full \<noteq> Full_TooLarge | _ \<Rightarrow> False)"

definition offer :: "envelope \<Rightarrow> nat \<Rightarrow> envelope lease_queue \<Rightarrow> envelope lease_queue" where
  "offer env sz Q =
     (case try_reserve sz Q of
        Some (Inr p, Q') \<Rightarrow> snd (commit p env (en_key env) (en_update_id env) Q')
      | _ \<Rightarrow> Q)"

lemma reserve_cancel:
  assumes "queue_ready Q" and "qc_on_full (lq_cfg Q) = Backpressure" and "try_reserve sz Q = Some (Inr p, Q')"
  shows "cancel p Q' = Q" and "evicted p = 0"
proof -
  show "evicted p = 0"
    using assms(2,3) by (auto simp: try_reserve_def make_room_def split: if_splits option.splits sum.splits)
  have "make_room (lq_res_items Q, lq_res_bytes Q) sz (lq_inner Q) = Some (Inr 0, lq_inner Q)"
    using assms(2,3) by (auto simp: try_reserve_def make_room_def split: if_splits option.splits sum.splits)
  then have "Q' = Q\<lparr>lq_res_items := wrap_add64 (lq_res_items Q) 1, lq_res_bytes := wrap_add64 (lq_res_bytes Q) sz\<rparr>"
    "p_reservations p = lq_id Q" "p_size p = sz"
    using assms(3) by (auto simp: try_reserve_def split: if_splits)
  with assms(1) show "cancel p Q' = Q" by (simp add: cancel_def drop_permit_def queue_ready_def wrap_sub_add)
qed

lemma reserve_Err_same:
  assumes "wf_queue Q" and "try_reserve sz Q = Some (Inl full, Q')"
  shows "Q' = Q"
  using try_reserve_Err(1) [OF assms] .

section \<open>A pass\<close>

definition grants :: "nat \<Rightarrow> envelope lease_queue \<Rightarrow> bool" where
  "grants sz Q = (case try_reserve sz Q of Some (Inr _, _) \<Rightarrow> True | _ \<Rightarrow> False)"

abbreviation permit_at :: "nat \<Rightarrow> permits \<Rightarrow> (target_slot \<times> permit) option" where
  "permit_at r ps \<equiv> find (\<lambda>tp. tg_slot (fst tp) = r) ps"

text \<open>The queues of \<open>w\<close> are those of \<open>w0\<close> after granting the permits \<open>ps\<close>.\<close>

definition reserved_as :: "('ac, 're) world \<Rightarrow> nat \<Rightarrow> permits \<Rightarrow> ('ac, 're) world \<Rightarrow> bool" where
  "reserved_as w0 sz ps w \<longleftrightarrow> (\<forall>r. wclosed w r = wclosed w0 r) \<and>
     (\<forall>r. case permit_at r ps of
            None \<Rightarrow> wq w r = wq w0 r
          | Some tp \<Rightarrow> try_reserve sz (wq w0 r) = Some (Inr (snd tp), wq w r))"

lemma reserved_asD:
  assumes "reserved_as w0 sz ps w"
  shows "wclosed w r = wclosed w0 r" and "permit_at r ps = None \<Longrightarrow> wq w r = wq w0 r"
    and "permit_at r ps = Some tp \<Longrightarrow> try_reserve sz (wq w0 r) = Some (Inr (snd tp), wq w r)"
  using assms by (auto simp: reserved_as_def dest!: spec [of _ r])

lemma reserved_asI:
  assumes "\<And>r. wclosed w r = wclosed w0 r" and "\<And>r. permit_at r ps = None \<Longrightarrow> wq w r = wq w0 r"
    and "\<And>r tp. permit_at r ps = Some tp \<Longrightarrow> try_reserve sz (wq w0 r) = Some (Inr (snd tp), wq w r)"
  shows "reserved_as w0 sz ps w"
  using assms by (auto simp: reserved_as_def split: option.splits)

definition pass_ready :: "on_full \<Rightarrow> ('ac, 're) world \<Rightarrow> target_slot \<Rightarrow> bool" where
  "pass_ready pass w t \<longleftrightarrow> \<not> wclosed w (tg_slot t) \<and> queue_ready (wq w (tg_slot t)) \<and>
     (pass = Backpressure \<longrightarrow> qc_on_full (lq_cfg (wq w (tg_slot t))) = Backpressure)"

lemma find_snoc: "find P (xs @ [x]) = (case find P xs of None \<Rightarrow> if P x then Some x else None | Some y \<Rightarrow> Some y)"
  by (induction xs) auto

lemma permit_at_None: "r \<notin> set (map (tg_slot \<circ> fst) ps) \<Longrightarrow> permit_at r ps = None"
  by (fastforce simp: find_None_iff image_iff)

lemma permit_at_in: "tp \<in> set ps \<Longrightarrow> \<exists>tp'. permit_at (tg_slot (fst tp)) ps = Some tp'"
  by (induction ps) auto

lemma permit_at_SomeD: "permit_at r ps = Some tp \<Longrightarrow> tp \<in> set ps \<and> tg_slot (fst tp) = r"
  by (auto simp: find_Some_iff)

lemma cancel_restores:
  assumes r: "reserved_as w0 sz ps w" and d: "distinct (map (tg_slot \<circ> fst) ps)"
    and ok: "\<forall>tp \<in> set ps. pass_ready Backpressure w0 (fst tp)"
  shows "wq (cancel_all ps w) s = wq w0 s"
proof (cases "permit_at s ps")
  case None
  with reserved_asD(2) [OF r None] show ?thesis by (simp add: cancel_all_slots [OF d])
next
  case (Some tp)
  have tp: "tp \<in> set ps" "tg_slot (fst tp) = s" using permit_at_SomeD [OF Some] by auto
  note reserved_asD(3) [OF r Some]
  moreover have "queue_ready (wq w0 s)" "qc_on_full (lq_cfg (wq w0 s)) = Backpressure"
    using ok tp by (auto simp: pass_ready_def)
  ultimately show ?thesis using Some reserve_cancel(1) by (simp add: cancel_all_slots [OF d])
qed

definition pass_result ::
  "on_full \<Rightarrow> ('ac, 're) world \<Rightarrow> nat \<Rightarrow> target_slot list \<Rightarrow> permits \<Rightarrow> (attempt + permits) \<times> ('ac, 're) world \<Rightarrow> bool" where
  "pass_result pass w0 sz ts ps res \<longleftrightarrow>
     (case res of
        (Inr ps', w') \<Rightarrow> reserved_as w0 sz ps' w' \<and>
          map fst ps' = map fst ps @ filter (\<lambda>t. grants sz (wq w0 (tg_slot t))) ts \<and>
          (pass = Backpressure \<longrightarrow> \<not> list_ex (\<lambda>t. queue_full sz (wq w0 (tg_slot t))) ts)
      | (Inl a, w') \<Rightarrow> a = Done ABackpressure \<and> pass = Backpressure \<and>
          list_ex (\<lambda>t. queue_full sz (wq w0 (tg_slot t))) ts \<and> (\<forall>r. wq w' r = wq w0 r))"

lemma reserved_as_frame:
  assumes "reserved_as w0 sz ps w" and "\<And>r. wq w' r = wq w r" and "\<And>r. wclosed w' r = wclosed w r"
  shows "reserved_as w0 sz ps w'"
  using reserved_asD [OF assms(1)] assms(2,3) by (intro reserved_asI) simp_all

lemma reserve_pass_result:
  assumes "reserved_as w0 sz ps w" and "distinct (map tg_slot (map fst ps @ ts))"
    and "\<forall>t \<in> set ts. pass_ready pass w0 t"
    and "pass = Backpressure \<longrightarrow> (\<forall>tp \<in> set ps. pass_ready Backpressure w0 (fst tp))"
  shows "\<exists>res. reserve_pass pass now sz ts ps w = Some res \<and> pass_result pass w0 sz ts ps res"
  using assms
proof (induction ts arbitrary: ps w)
  case Nil
  then show ?case by (simp add: pass_result_def)
next
  case (Cons t ts)
  let ?s = "tg_slot t"
  have new: "permit_at ?s ps = None" by (rule permit_at_None) (use Cons.prems(2) in auto)
  have q: "wq w ?s = wq w0 ?s" and c: "\<not> wclosed w ?s"
    using reserved_asD(1,2) [OF Cons.prems(1)] Cons.prems(3) new by (auto simp: pass_ready_def)
  have wf: "wf_queue (wq w0 ?s)" using Cons.prems(3) by (simp add: pass_ready_def queue_ready_def)
  obtain r Q where r: "try_reserve sz (wq w0 ?s) = Some (r, Q)" using try_reserve_returns [OF wf] by blast
  define w1 where "w1 = upd_slot ?s (\<lambda>sl. sl\<lparr>sl_queue := Q\<rparr>) w"
  have step: "pass_result pass w0 sz (t # ts) ps res" if "pass_result pass w0 sz ts ps' res"
    "map fst ps' = map fst ps @ (if grants sz (wq w0 ?s) then [t] else [])"
    "\<not> (pass = Backpressure \<and> queue_full sz (wq w0 ?s))" for ps' res
    using that by (auto simp: pass_result_def split: prod.splits sum.splits)
  show ?case
  proof (cases r)
    case (Inr p)
    have g: "grants sz (wq w0 ?s)" "\<not> queue_full sz (wq w0 ?s)" using r Inr by (simp_all add: grants_def queue_full_def)
    define w2 where "w2 = (let w = relieved ?s now w1 in if evicted p > 0 then overflowed ?s (evicted p) w else reserved_cleanly ?s w)"
    have "reserved_as w0 sz (ps @ [(t, p)]) w1"
      using reserved_asD [OF Cons.prems(1)] r Inr new
      by (intro reserved_asI) (auto simp: w1_def find_snoc split: option.splits if_splits)
    then have "reserved_as w0 sz (ps @ [(t, p)]) w2"
      by (rule reserved_as_frame) (auto simp: w2_def Let_def)
    from Cons.IH [OF this] Cons.prems obtain res where
      "reserve_pass pass now sz ts (ps @ [(t, p)]) w2 = Some res" "pass_result pass w0 sz ts (ps @ [(t, p)]) res" by auto
    with step [OF this(2)] g c r Inr q show ?thesis by (cases res) (auto simp: Let_def w1_def [symmetric] w2_def)
  next
    case (Inl full)
    have Q: "Q = wq w0 ?s" using reserve_Err_same [OF wf] r Inl by blast
    have g: "\<not> grants sz (wq w0 ?s)" using r Inl by (simp add: grants_def)
    have w1: "reserved_as w0 sz ps w1" by (rule reserved_as_frame [OF Cons.prems(1)]) (auto simp: w1_def Q q)
    have full: "queue_full sz (wq w0 ?s) \<longleftrightarrow> full \<noteq> Full_TooLarge" using r Inl by (simp add: queue_full_def)
    show ?thesis
    proof (cases "full = Full_TooLarge \<or> pass \<noteq> Backpressure")
      case True
      define w2 where "w2 = (if full = Full_TooLarge then dropped ?s DropOversized 1 w1 else overflowed ?s 1 w1)"
      have "reserved_as w0 sz ps w2" by (rule reserved_as_frame [OF w1]) (auto simp: w2_def)
      from Cons.IH [OF this] Cons.prems obtain res where
        "reserve_pass pass now sz ts ps w2 = Some res" "pass_result pass w0 sz ts ps res" by auto
      with step [OF this(2)] g c r Inl q True full show ?thesis
        by (cases res; cases full) (auto simp: Let_def w1_def [symmetric] w2_def)
    next
      case False
      let ?w2 = "cancel_all ps (pressured ?s now w1)"
      have p: "reserved_as w0 sz ps (pressured ?s now w1)" by (rule reserved_as_frame [OF w1]) auto
      have "\<forall>r. wq ?w2 r = wq w0 r" using cancel_restores [OF p] Cons.prems False by (auto simp: comp_def)
      moreover have "reserve_pass pass now sz (t # ts) ps w = Some (Inl (Done ABackpressure), ?w2)"
        using False c r Inl q by (cases full) (auto simp: Let_def w1_def [symmetric])
      ultimately show ?thesis using False full by (auto simp: pass_result_def)
    qed
  qed
qed

section \<open>All targets\<close>

lemma commit_one_slots:
  assumes "p_reservations (snd tp) = lq_id (wq w (tg_slot (fst tp)))" and "\<not> wclosed w (tg_slot (fst tp))"
  shows "wq (settle_one (tg_slot (fst tp)) (commit_one env tp w)) r =
      (if r = tg_slot (fst tp) then snd (commit (snd tp) env (en_key env) (en_update_id env) (wq w r)) else wq w r)"
    and "wclosed (settle_one (tg_slot (fst tp)) (commit_one env tp w)) r = wclosed w r"
  using assms
  by (auto simp: commit_one_def settle_one_def commit_def Let_def split: prod.splits)

lemma commit_all_slots:
  assumes "distinct (map (tg_slot \<circ> fst) ps)"
    and "\<forall>tp \<in> set ps. p_reservations (snd tp) = lq_id (wq w (tg_slot (fst tp))) \<and> \<not> wclosed w (tg_slot (fst tp))"
  shows "wq (fold (\<lambda>tp w. settle_one (tg_slot (fst tp)) (commit_one env tp w)) ps w) r =
    (case permit_at r ps of
       None \<Rightarrow> wq w r
     | Some tp \<Rightarrow> snd (commit (snd tp) env (en_key env) (en_update_id env) (wq w r)))"
  using assms
proof (induction ps arbitrary: w)
  case (Cons tp ps)
  let ?w = "settle_one (tg_slot (fst tp)) (commit_one env tp w)"
  have c: "wq ?w r = (if r = tg_slot (fst tp) then snd (commit (snd tp) env (en_key env) (en_update_id env) (wq w r)) else wq w r)"
    "wclosed ?w r = wclosed w r" for r
    using commit_one_slots [of tp w env r] Cons.prems(2) by simp_all
  have other: "tg_slot (fst tp') \<noteq> tg_slot (fst tp)" if "tp' \<in> set ps" for tp'
    using Cons.prems(1) that by (force simp: image_iff)
  have "permit_at (tg_slot (fst tp)) ps = None" by (rule permit_at_None) (use Cons.prems(1) in auto)
  moreover have "\<forall>tp' \<in> set ps. p_reservations (snd tp') = lq_id (wq ?w (tg_slot (fst tp'))) \<and> \<not> wclosed ?w (tg_slot (fst tp'))"
    using Cons.prems(2) other by (auto simp: c)
  ultimately show ?case using Cons.IH [of ?w] Cons.prems(1) by (auto simp: c split: option.splits)
qed simp

definition all_targets :: "('ac, 're) engine_state \<Rightarrow> consumer_id list \<Rightarrow> target_slot list" where
  "all_targets st ids = List.map_filter (target_get st) ids"

definition target_ready :: "('ac, 're) world \<Rightarrow> target_slot \<Rightarrow> bool" where
  "target_ready w t \<longleftrightarrow> \<not> wclosed w (tg_slot t) \<and> queue_ready (wq w (tg_slot t)) \<and>
     tg_on_full t = qc_on_full (lq_cfg (wq w (tg_slot t)))"

lemma pass_targets_alt: "pass_targets st ids pass = filter (\<lambda>t. tg_on_full t = pass) (all_targets st ids)"
  by (simp add: pass_targets_def all_targets_def)

definition targets_result ::
  "('ac, 're) world \<Rightarrow> nat \<Rightarrow> instant \<Rightarrow> target_slot list \<Rightarrow> attempt \<times> ('ac, 're) world \<Rightarrow> bool" where
  "targets_result w0 sz now ts res \<longleftrightarrow>
     (if list_ex (\<lambda>t. tg_on_full t = Backpressure \<and> queue_full sz (wq w0 (tg_slot t))) ts
      then fst res = Done ABackpressure \<and> (\<forall>r. wq (snd res) r = wq w0 r)
      else (\<exists>ps. fst res = Reserved ps now \<and> reserved_as w0 sz ps (snd res) \<and> distinct (map (tg_slot \<circ> fst) ps) \<and>
              set (map fst ps) = {t \<in> set ts. grants sz (wq w0 (tg_slot t))}))"

lemma reserve_targets_result:
  assumes d: "distinct (map tg_slot (all_targets st ids))" and ok: "\<forall>t \<in> set (all_targets st ids). target_ready w t"
  shows "\<exists>res. reserve_targets st ids now sz w = Some res \<and> targets_result w sz now (all_targets st ids) res"
proof -
  let ?ts = "all_targets st ids" and ?A = "pass_targets st ids Backpressure" and ?B = "pass_targets st ids DropOldest"
  have sets: "set ?A = {t \<in> set ?ts. tg_on_full t = Backpressure}" "set ?B = {t \<in> set ?ts. tg_on_full t = DropOldest}"
    by (auto simp: pass_targets_alt)
  have dA: "distinct (map tg_slot ?A)" and dB: "distinct (map tg_slot ?B)"
    using d by (auto simp: pass_targets_alt distinct_map intro: inj_on_subset)
  have dAB: "tg_slot a \<noteq> tg_slot b" if "a \<in> set ?A" "b \<in> set ?B" for a b
    using d that by (auto simp: sets distinct_map inj_on_def)
  have r0: "reserved_as w sz [] w" by (simp add: reserved_as_def)
  have okA: "\<forall>t \<in> set ?A. pass_ready Backpressure w t" and okB: "\<forall>t \<in> set ?B. pass_ready DropOldest w t"
    using ok by (auto simp: sets target_ready_def pass_ready_def)
  from reserve_pass_result [OF r0 _ okA, of now] dA obtain res1 where
    A: "reserve_pass Backpressure now sz ?A [] w = Some res1" "pass_result Backpressure w sz ?A [] res1"
    by auto
  have ex: "list_ex (\<lambda>t. queue_full sz (wq w (tg_slot t))) ?A \<longleftrightarrow>
      list_ex (\<lambda>t. tg_on_full t = Backpressure \<and> queue_full sz (wq w (tg_slot t))) ?ts"
    by (auto simp: list_ex_iff sets)
  obtain r1 w1 where res1: "res1 = (r1, w1)" by fastforce
  show ?thesis
  proof (cases r1)
    case (Inl a)
    with A res1 ex show ?thesis by (auto simp: reserve_targets_def pass_result_def targets_result_def)
  next
    case (Inr ps1)
    with A(2) res1 have p1: "reserved_as w sz ps1 w1" "map fst ps1 = filter (\<lambda>t. grants sz (wq w (tg_slot t))) ?A"
      "\<not> list_ex (\<lambda>t. queue_full sz (wq w (tg_slot t))) ?A" by (auto simp: pass_result_def)
    have dp: "distinct (map tg_slot (map fst ps1 @ ?B))"
      using dA dB dAB by (auto simp: p1(2) distinct_map intro: inj_on_subset)
    from reserve_pass_result [OF p1(1) dp okB, of now] obtain res2 where
      B: "reserve_pass DropOldest now sz ?B ps1 w1 = Some res2" "pass_result DropOldest w sz ?B ps1 res2"
      by auto
    obtain ps2 w2 where res2: "res2 = (Inr ps2, w2)" using B(2)
      by (cases res2; cases "fst res2") (auto simp: pass_result_def)
    with B(2) have p2: "reserved_as w sz ps2 w2" "map fst ps2 = map fst ps1 @ filter (\<lambda>t. grants sz (wq w (tg_slot t))) ?B"
      by (auto simp: pass_result_def)
    have "distinct (map tg_slot (map fst ps2))"
      using dA dB dAB by (auto simp: p2(2) p1(2) distinct_map intro: inj_on_subset)
    moreover have "set (map fst ps2) = {t \<in> set ?ts. grants sz (wq w (tg_slot t))}"
    proof -
      have "tg_on_full t = Backpressure \<or> tg_on_full t = DropOldest" for t by (cases "tg_on_full t") auto
      then show ?thesis unfolding p2(2) p1(2) by (auto simp: sets)
    qed
    ultimately have "targets_result w sz now ?ts (Reserved ps2 now, w2)"
      using p2(1) p1(3) ex by (simp add: targets_result_def)
    with A(1) B(1) res1 res2 Inr show ?thesis by (auto simp: reserve_targets_def)
  qed
qed

section \<open>One admission\<close>

definition next_scratch :: "('ac, 're) world \<Rightarrow> match_scratch" where
  "next_scratch w = (if w_scratch w = [] then scratch_default else last (w_scratch w))"

definition envelope_of :: "source_id \<Rightarrow> int \<Rightarrow> bytes \<Rightarrow> facts \<Rightarrow> instant \<Rightarrow> envelope" where
  "envelope_of src update_id payload f now =
     \<lparr>en_source = src, en_update_id = update_id, en_update_type = f_update_type f, en_key = ordering_key f,
      en_payload = payload, en_received_at = now\<rparr>"

lemma envelope_of_sel [simp]:
  "en_key (envelope_of src update_id payload f now) = ordering_key f"
  "en_update_id (envelope_of src update_id payload f now) = update_id"
  by (simp_all add: envelope_of_def)

lemma reserved_permits:
  assumes "reserved_as w0 sz ps w" and "distinct (map (tg_slot \<circ> fst) ps)" and "tp \<in> set ps"
    and "wf_queue (wq w0 (tg_slot (fst tp)))"
  shows "p_reservations (snd tp) = lq_id (wq w (tg_slot (fst tp)))"
proof -
  obtain tp' where tp': "permit_at (tg_slot (fst tp)) ps = Some tp'"
    using permit_at_in [OF assms(3)] by blast
  then have "tp' = tp" using permit_at_SomeD [OF tp'] assms(2,3) by (auto simp: distinct_map inj_on_def)
  with reserved_asD(3) [OF assms(1) tp'] try_reserve_Ok(4,7) [OF assms(4)] show ?thesis by simp
qed

lemma commit_reserved_offers:
  assumes r: "reserved_as w0 sz ps w" "distinct (map (tg_slot \<circ> fst) ps)"
    and ts: "set (map fst ps) = {t \<in> set ts. grants sz (wq w0 (tg_slot t))}" "\<forall>t \<in> set ts. target_ready w0 t"
  shows "fst (commit_reserved ps now src update_id payload f w) = Admitted"
    and "wq (snd (commit_reserved ps now src update_id payload f w)) s =
      (if s \<in> tg_slot ` set ts then offer (envelope_of src update_id payload f now) sz (wq w0 s) else wq w0 s)"
proof -
  show "fst (commit_reserved ps now src update_id payload f w) = Admitted" by (simp add: commit_reserved_def Let_def)
  have in_ts: "fst tp \<in> set ts" if "tp \<in> set ps" for tp using ts(1) that by (auto simp: set_eq_iff)
  have "\<forall>tp \<in> set ps. p_reservations (snd tp) = lq_id (wq w (tg_slot (fst tp))) \<and> \<not> wclosed w (tg_slot (fst tp))"
    using reserved_permits [OF r] reserved_asD(1) [OF r(1)] in_ts ts(2) by (auto simp: target_ready_def queue_ready_def)
  note c = commit_all_slots [OF r(2) this, of "envelope_of src update_id payload f now" s]
  have q: "wq (snd (commit_reserved ps now src update_id payload f w)) s =
    (case permit_at s ps of
       None \<Rightarrow> wq w s
     | Some tp \<Rightarrow> snd (commit (snd tp) (envelope_of src update_id payload f now) (ordering_key f) update_id (wq w s)))"
    using c unfolding commit_reserved_def Let_def envelope_of_def [symmetric] by (simp split: option.split)
  show "wq (snd (commit_reserved ps now src update_id payload f w)) s =
      (if s \<in> tg_slot ` set ts then offer (envelope_of src update_id payload f now) sz (wq w0 s) else wq w0 s)"
  proof (cases "permit_at s ps")
    case None
    have "\<not> grants sz (wq w0 s)" if "s \<in> tg_slot ` set ts"
    proof
      assume "grants sz (wq w0 s)"
      with that ts(1) obtain tp where "tp \<in> set ps" "tg_slot (fst tp) = s" by (force simp: set_eq_iff)
      with None permit_at_in [of tp ps] show False by simp
    qed
    then have "s \<in> tg_slot ` set ts \<Longrightarrow> offer env sz (wq w0 s) = wq w0 s" for env
      by (auto simp: offer_def grants_def split: option.splits sum.splits)
    with None reserved_asD(2) [OF r(1) None] show ?thesis unfolding q by auto
  next
    case (Some tp)
    have "s \<in> tg_slot ` set ts" using permit_at_SomeD [OF Some] in_ts [of tp] by auto
    with reserved_asD(3) [OF r(1) Some] Some show ?thesis
      unfolding q by (simp add: offer_def)
  qed
qed

lemma reserve_route:
  "reserve en gen src sz f now w =
     (case route en src f (es_table (w_states w gen)) (next_scratch w) of
        None \<Rightarrow> None
      | Some (matched, ids, t, sc) \<Rightarrow>
          (let st = w_states w gen; info = source_of st src;
               w = w\<lparr>w_states := (w_states w)(gen := st\<lparr>es_table := t\<rparr>), w_scratch := butlast (w_scratch w) @ [sc]\<rparr>
           in case matched of
                None \<Rightarrow> Some (Done Unroutable, (case info of None \<Rightarrow> w | Some i \<Rightarrow> source_unmatched i w))
              | Some _ \<Rightarrow>
                  reserve_targets st ids now sz (case info of None \<Rightarrow> w | Some i \<Rightarrow> source_matched i w)))"
  unfolding reserve_def next_scratch_def Let_def by (simp only:)


text \<open>
  Two pull consumers with backpressure, the second one full: the update is refused, and the
  room reserved in the first one is given back.
\<close>

definition demo_slot :: "nat \<Rightarrow> nat \<Rightarrow> slot" where
  "demo_slot i n =
     \<lparr>sl_name = ''p'', sl_queue = new_queue i \<lparr>capacity = n, capacity_bytes = 100, lease_timeout = 10, qc_ordering = Unordered,
        qc_on_full = Backpressure\<rparr>, sl_pressured_since = 0, sl_epoch = 0, sl_overflowing = False, sl_closed = False,
      sl_drain = None, sl_stopped = False\<rparr>"

definition demo_state :: "(bool \<times> string list, string list) engine_state" where
  "demo_state =
     \<lparr>es_table = \<lparr>rt_sources = [Some \<lparr>sr_rules = [\<lparr>c_update_types = {}, c_chat_ids = {}, c_chat_types = 0,
          c_user_ids = {}, c_commands = None, c_text = None, c_callback_data = None, c_root = 2\<rparr>], sr_username = None\<rparr>],
        rt_nodes = [NConsumer 0, NConsumer 1, NAll 0 2], rt_children = [0, 1], rt_text_regex = None,
        rt_callback_regex = None, rt_token = 1\<rparr>,
      es_sources = [],
      es_targets = [\<lparr>tg_slot = 0, tg_on_full = Backpressure, tg_capacity_bytes = 100\<rparr>,
                    \<lparr>tg_slot = 1, tg_on_full = Backpressure, tg_capacity_bytes = 100\<rparr>]\<rparr>"

definition demo_world :: "(bool \<times> string list, string list) world" where
  "demo_world =
     \<lparr>w_slots = (\<lambda>i. if i = 0 then demo_slot 0 5 else demo_slot 1 0), w_states = (\<lambda>_. demo_state), w_current = 0,
      w_scratch = [], w_flags = (\<lambda>_. False),
      w_counters = \<lparr>ct_dropped = (\<lambda>_ _. 0), ct_pressure = (\<lambda>_. 0), ct_unmatched = (\<lambda>_. 0)\<rparr>,
      w_retired = [], w_cancelled = {}, w_next_token = 0\<rparr>"

lemma new_queue_ready [simp]: "queue_ready (new_queue i cfg)" "lq_cfg (new_queue i cfg) = cfg"
  using wf_new [of i cfg] by (simp_all add: queue_ready_def new_queue_def new_inner_def)


text \<open>
  \<open>Admit::Admitted\<close> is documented as queued for at least one consumer; an update too large for
  its only target is admitted and queued nowhere.
\<close>

definition demo_single :: "(bool \<times> string list, string list) world" where
  "demo_single = demo_world\<lparr>w_states := (\<lambda>_. demo_state\<lparr>es_targets := [\<lparr>tg_slot = 0, tg_on_full = Backpressure, tg_capacity_bytes = 100\<rparr>]\<rparr>)\<rparr>"

lemma admitted_unqueued:
  "map_option (\<lambda>(r, w'). (r, Mapping.size (q_entries (lq_inner (wq w' 0)))))
     (sink_admit demo_engines 0 7 (replicate 101 CHR ''a'') (demo_facts ''hi'' None) 3 demo_single) = Some (Admitted, 0)"
  by code_simp

end
