(* ===== verification/Slot_Retire.thy ===== *)
theory Slot_Retire
  imports Admission
begin

text \<open>
  Retiring a consumer instance while updates are being admitted: \<open>Shared::retire\<close> of
  \<open>crates/tgin-core/src/engine.rs\<close> and the parts of \<open>commit\<close> in
  \<open>crates/tgin-core/src/reload.rs\<close> that start and call off a drain. Admission takes no lock
  that retirement holds, so their accesses to a slot interleave: an update may be committed
  after the final drain has run. Cancellation tokens are numbers, and \<open>w_cancelled\<close> the
  cancelled ones.
\<close>

section \<open>The operations\<close>

definition begin_retire :: "nat \<Rightarrow> ('ac, 're) world \<Rightarrow> ('ac, 're) world" where
  "begin_retire s w =
     (let tok = w_next_token w
      in upd_slot s (\<lambda>sl. sl\<lparr>sl_drain := Some tok\<rparr>)
           (w\<lparr>w_next_token := tok + 1, w_retired := w_retired w @ [s]\<rparr>))"

definition revive :: "nat \<Rightarrow> ('ac, 're) world \<Rightarrow> ('ac, 're) world" where
  "revive s w =
     (let w = (case sl_drain (w_slots w s) of
                 None \<Rightarrow> w
               | Some tok \<Rightarrow> upd_slot s (\<lambda>sl. sl\<lparr>sl_drain := None\<rparr>) (w\<lparr>w_cancelled := insert tok (w_cancelled w)\<rparr>))
      in w\<lparr>w_retired := filter (\<lambda>r. r \<noteq> s) (w_retired w)\<rparr>)"

text \<open>\<open>retire\<close> up to the store of \<open>closed\<close>, and from the final drain on.\<close>

definition retire_close :: "nat \<Rightarrow> nat \<Rightarrow> ('ac, 're) world \<Rightarrow> ('ac, 're) world option" where
  "retire_close s tok w =
     (if tok \<in> w_cancelled w then None
      else if s \<notin> set (w_retired w) then None
      else Some (upd_slot s (\<lambda>sl. sl\<lparr>sl_drain := None, sl_closed := True\<rparr>)
                   (w\<lparr>w_retired := remove1 s (w_retired w)\<rparr>)))"

definition name_in_use :: "string \<Rightarrow> ('ac, 're) world \<Rightarrow> bool" where
  "name_in_use name w \<longleftrightarrow>
     list_ex (\<lambda>t. sl_name (w_slots w (tg_slot t)) = name) (es_targets (w_states w (w_current w))) \<or>
     list_ex (\<lambda>s. sl_name (w_slots w s) = name) (w_retired w)"

definition remove_consumer :: "string \<Rightarrow> counters \<Rightarrow> counters" where
  "remove_consumer name c =
     c\<lparr>ct_dropped := (ct_dropped c)(name := (\<lambda>_. 0)), ct_pressure := (ct_pressure c)(name := 0)\<rparr>"

definition retire_finish :: "nat \<Rightarrow> ('ac, 're) world \<Rightarrow> ('ac, 're) world" where
  "retire_finish s w =
     (let w = upd_slot s (\<lambda>sl. sl\<lparr>sl_stopped := True\<rparr>) (drain_late s w);
          name = sl_name (w_slots w s)
      in if name_in_use name w then w else w\<lparr>w_counters := remove_consumer name (w_counters w)\<rparr>)"

definition retire :: "nat \<Rightarrow> nat \<Rightarrow> ('ac, 're) world \<Rightarrow> ('ac, 're) world option" where
  "retire s tok w = map_option (retire_finish s) (retire_close s tok w)"

section \<open>Interleavings\<close>

text \<open>
  The state of the system: the world, the slots an admission has committed to and not yet
  checked again (\<open>lf_pending\<close>) and the slots a retirement has closed and not yet drained
  (\<open>lf_closing\<close>). Each step is one locked or atomic access of the code: an operation on a
  slot's queue by anyone (reservations, leases, acks, expiry, purges, reconfiguration), a
  commit, the check after it, the start of a drain, its cancellation, and the two halves of
  \<open>retire\<close>.
\<close>

record ('ac, 're) life =
  lf_world :: "('ac, 're) world"
  lf_pending :: "nat list"
  lf_closing :: "nat list"

fun adds :: "'a qop \<Rightarrow> bool" where
  "adds (Commit p item key ack) = True"
| "adds _ = False"

inductive life_step :: "('ac, 're) life \<Rightarrow> ('ac, 're) life \<Rightarrow> bool" where
  queue_op: "queue_step op (sl_queue (w_slots (lf_world L) s), ps) (Q, ps') \<Longrightarrow> \<not> adds op \<Longrightarrow>
    life_step L (L\<lparr>lf_world := upd_slot s (\<lambda>sl. sl\<lparr>sl_queue := Q\<rparr>) (lf_world L)\<rparr>)"
| commit_step: "life_step L (L\<lparr>lf_world := commit_one env tp (lf_world L),
    lf_pending := tg_slot (fst tp) # lf_pending L\<rparr>)"
| settle_step: "s \<in> set (lf_pending L) \<Longrightarrow>
    life_step L (L\<lparr>lf_world := settle_one s (lf_world L), lf_pending := remove1 s (lf_pending L)\<rparr>)"
| begin_step: "life_step L (L\<lparr>lf_world := begin_retire s (lf_world L)\<rparr>)"
| revive_step: "life_step L (L\<lparr>lf_world := revive s (lf_world L)\<rparr>)"
| close_step: "retire_close s tok (lf_world L) = Some w \<Longrightarrow>
    life_step L (L\<lparr>lf_world := w, lf_closing := s # lf_closing L\<rparr>)"
| finish_step: "s \<in> set (lf_closing L) \<Longrightarrow>
    life_step L (L\<lparr>lf_world := retire_finish s (lf_world L), lf_closing := remove1 s (lf_closing L)\<rparr>)"

inductive life_reach :: "('ac, 're) life \<Rightarrow> ('ac, 're) life \<Rightarrow> bool" for L where
  life_refl: "life_reach L L"
| life_more: "life_reach L L' \<Longrightarrow> life_step L' L'' \<Longrightarrow> life_reach L L''"

definition life_inv :: "('ac, 're) life \<Rightarrow> bool" where
  "life_inv L \<longleftrightarrow> (\<forall>s. wf_queue (wq (lf_world L) s) \<and>
     (wclosed (lf_world L) s \<and> s \<notin> set (lf_closing L) \<and> lq_entry (wq (lf_world L) s) \<noteq> Map.empty \<longrightarrow>
        s \<in> set (lf_pending L)))"

lemma no_adds:
  assumes "wf_queue Q" and "queue_step op (Q, ps) (Q', ps')" and "\<not> adds op" and "lq_entry Q = Map.empty"
  shows "lq_entry Q' = Map.empty"
  using step_refines [OF assms(1,2)] assms(3,4)
  by (cases op) (auto simp: evict_oldest_def lease_all_def unlease_all_def drop_all_def renew_all_def
      fun_eq_iff split: if_splits)

lemma drain_late_slots:
  "wclosed (drain_late s w) r = wclosed w r"
  "wq (drain_late s w) r = (if r = s then snd (drain_all (wq w s)) else wq w r)"
  by (auto simp: drain_late_def Let_def split: prod.splits)

lemma retire_finish_slots:
  "wclosed (retire_finish s w) r = wclosed w r"
  "wq (retire_finish s w) r = (if r = s then snd (drain_all (wq w s)) else wq w r)"
  by (auto simp: retire_finish_def Let_def drain_late_slots)

lemma commit_one_life:
  assumes "\<And>s. wf_queue (wq w s)"
  shows "wf_queue (wq (commit_one env tp w) r)" and "wclosed (commit_one env tp w) r = wclosed w r"
    and "r \<noteq> tg_slot (fst tp) \<Longrightarrow> lq_entry (wq (commit_one env tp w) r) = lq_entry (wq w r)"
proof -
  let ?s = "tg_slot (fst tp)"
  obtain x Q where c: "commit (snd tp) env (en_key env) (en_update_id env) (wq w ?s) = (x, Q)" by fastforce
  have "wf_queue Q" using commit_simps(1) [OF assms, of "snd tp" env "en_key env" "en_update_id env" ?s] c by simp
  with assms c show "wf_queue (wq (commit_one env tp w) r)" "wclosed (commit_one env tp w) r = wclosed w r"
    "r \<noteq> ?s \<Longrightarrow> lq_entry (wq (commit_one env tp w) r) = lq_entry (wq w r)"
    by (auto simp: commit_one_def drop_anywhere_def Let_def split: sum.splits)
qed

lemma life_step_inv: "life_step L L' \<Longrightarrow> life_inv L \<Longrightarrow> life_inv L'"
proof (induction rule: life_step.induct)
  case (queue_op op L s ps Q ps')
  have wf: "wf_queue (wq (lf_world L) s)" using queue_op.prems by (simp add: life_inv_def)
  from step_refines [OF wf queue_op.hyps(1)] no_adds [OF wf queue_op.hyps(1,2)] queue_op.prems
  show ?case by (auto simp: life_inv_def)
next
  case (commit_step L tp env)
  have "\<And>r. wf_queue (wq (lf_world L) r)" using commit_step.prems by (simp add: life_inv_def)
  note c = commit_one_life [OF this, where env = env and tp = tp]
  have "s \<in> set (tg_slot (fst tp) # lf_pending L)"
    if "wclosed (lf_world L) s" "s \<notin> set (lf_closing L)" "lq_entry (wq (commit_one env tp (lf_world L)) s) \<noteq> Map.empty" for s
  proof (cases "s = tg_slot (fst tp)")
    case False
    with that c(3) commit_step.prems show ?thesis by (auto simp: life_inv_def)
  qed simp
  with c(1) show ?case by (simp add: life_inv_def c(2))
next
  case (settle_step s L)
  have wf: "\<And>r. wf_queue (wq (lf_world L) r)" using settle_step.prems by (simp add: life_inv_def)
  have "wclosed (settle_one s (lf_world L)) r = wclosed (lf_world L) r"
    "wq (settle_one s (lf_world L)) r = (if r = s \<and> wclosed (lf_world L) s then snd (drain_all (wq (lf_world L) s)) else wq (lf_world L) r)" for r
    by (auto simp: settle_one_def drain_late_slots)
  note c = this
  have "r \<in> set (remove1 s (lf_pending L))"
    if "wclosed (lf_world L) r" "r \<notin> set (lf_closing L)" "lq_entry (wq (settle_one s (lf_world L)) r) \<noteq> Map.empty" for r
  proof -
    have "r \<noteq> s" using that drain_all_spec(2) [OF wf] by (auto simp: c)
    with that settle_step.prems show ?thesis by (auto simp: life_inv_def c)
  qed
  moreover have "wf_queue (wq (settle_one s (lf_world L)) r)" for r
    using wf drain_all_spec(1) [OF wf] by (simp add: c)
  ultimately show ?case by (simp add: life_inv_def c(1))
next
  case (begin_step L s)
  then show ?case by (auto simp: life_inv_def begin_retire_def Let_def)
next
  case (revive_step L s)
  then show ?case by (auto simp: life_inv_def revive_def Let_def split: option.splits)
next
  case (close_step s tok L w)
  then show ?case by (auto simp: life_inv_def retire_close_def split: if_splits)
next
  case (finish_step s L)
  have wf: "\<And>r. wf_queue (wq (lf_world L) r)" using finish_step.prems by (simp add: life_inv_def)
  with finish_step.prems drain_all_spec(1,2) [OF wf] show ?case
    by (auto simp: life_inv_def retire_finish_slots)
qed

text \<open>Once closed, a slot stays closed, and it is never a draining one that a reload revives.\<close>

lemma closed_stays: "life_step L L' \<Longrightarrow> wclosed (lf_world L) s \<Longrightarrow> wclosed (lf_world L') s"
proof (induction rule: life_step.induct)
  case (commit_step L tp env)
  then show ?case
    by (auto simp: commit_one_def drop_anywhere_def Let_def split: prod.splits sum.splits)
qed (auto simp: settle_one_def drain_late_slots retire_finish_slots begin_retire_def revive_def
    retire_close_def Let_def split: option.splits if_splits)

lemma life_reach_inv: "life_reach L L' \<Longrightarrow> life_inv L \<Longrightarrow> life_inv L'"
  by (induction rule: life_reach.induct) (auto intro: life_step_inv)

lemma reach_closed: "life_reach L L' \<Longrightarrow> wclosed (lf_world L) s \<Longrightarrow> wclosed (lf_world L') s"
  by (induction rule: life_reach.induct) (auto intro: closed_stays)

text \<open>
  C33. No update is stranded in a retired consumer. From a state in which no slot is closed,
  whatever the interleaving of admissions, consumers and retirements: whenever no admission is
  between its commit and the check after it and no retirement between closing a slot and
  draining it, every closed slot is empty, and a slot once closed stays closed. So an update
  committed after the final drain of its target is dropped by the admission itself.
\<close>

theorem retired_empty:
  assumes "life_reach L L'" and "\<forall>s. wf_queue (wq (lf_world L) s) \<and> \<not> wclosed (lf_world L) s"
    and "lf_pending L' = []" and "lf_closing L' = []"
  shows "(\<forall>s. wclosed (lf_world L') s \<longrightarrow> lq_entry (wq (lf_world L') s) = Map.empty) \<and>
    (\<forall>s L''. wclosed (lf_world L') s \<and> life_reach L' L'' \<longrightarrow> wclosed (lf_world L'') s)"
proof -
  have "life_inv L" using assms(2) by (simp add: life_inv_def)
  with life_reach_inv [OF assms(1)] have "life_inv L'" .
  with assms(3,4) reach_closed [of L'] show ?thesis by (auto simp: life_inv_def)
qed

text \<open>
  A slot is retired between an admission's reservation and its commit: the commit lands in the
  closed queue, and the check after it drops the update.
\<close>

definition demo_env :: envelope where
  "demo_env = envelope_of 0 7 ''{}'' (demo_facts ''hi'' None) 3"

definition demo_late_permit :: permit where
  "demo_late_permit = \<lparr>evicted = 0, p_size = 2, p_reservations = 0\<rparr>"

definition demo_target :: target_slot where
  "demo_target = \<lparr>tg_slot = 0, tg_on_full = Backpressure, tg_capacity_bytes = 100\<rparr>"

definition demo_life :: "(bool \<times> string list, string list) life" where
  "demo_life = \<lparr>lf_world = demo_world, lf_pending = [], lf_closing = []\<rparr>"

definition demo_closed :: "(bool \<times> string list, string list) world" where
  "demo_closed = retire_finish 0 (the (retire_close 0 0 (begin_retire 0 demo_world)))"

definition demo_late :: "(bool \<times> string list, string list) world" where
  "demo_late = commit_one demo_env (demo_target, demo_late_permit) demo_closed"

theorem retired_empty_witness:
  "lq_entry (wq demo_late 0) \<noteq> Map.empty \<and> wclosed demo_late 0 \<and>
   lq_entry (wq (settle_one 0 demo_late) 0) = Map.empty"
proof -
  let ?w1 = "begin_retire 0 demo_world" and ?life = "\<lambda>w p c. \<lparr>lf_world = w, lf_pending = p, lf_closing = c\<rparr>"
  let ?w2 = "the (retire_close 0 0 ?w1)"
  have "retire_close 0 0 ?w1 \<noteq> None"
    by (simp add: retire_close_def begin_retire_def demo_world_def Let_def upd_slot_def)
  then have close: "retire_close 0 0 (lf_world (?life ?w1 [] [])) = Some ?w2" by simp
  have s1: "life_step demo_life (?life ?w1 [] [])" using life_step.begin_step [of demo_life 0] by (simp add: demo_life_def)
  have s2: "life_step (?life ?w1 [] []) (?life ?w2 [] [0])" using life_step.close_step [OF close] by simp
  have s3: "life_step (?life ?w2 [] [0]) (?life demo_closed [] [])"
    using life_step.finish_step [of 0 "?life ?w2 [] [0]"] by (simp add: demo_closed_def)
  have s4: "life_step (?life demo_closed [] []) (?life demo_late [0] [])"
    using life_step.commit_step [of "?life demo_closed [] []" "(demo_target, demo_late_permit)" demo_env]
    by (simp add: demo_late_def demo_target_def)
  have s5: "life_step (?life demo_late [0] []) (?life (settle_one 0 demo_late) [] [])"
    using life_step.settle_step [of 0 "?life demo_late [0] []"] by simp
  note reach = life_more [OF life_more [OF life_more [OF life_more [OF life_more [OF life_refl s1] s2] s3] s4] s5]
  have new: "\<forall>s. wf_queue (wq (lf_world demo_life) s) \<and> \<not> wclosed (lf_world demo_life) s"
    by (simp add: demo_life_def demo_world_def demo_slot_def wf_new)
  have closed: "wclosed demo_closed 0" "wclosed demo_late 0" "wclosed (settle_one 0 demo_late) 0"
    "lq_entry (wq demo_late 0) 0 \<noteq> None" by code_simp+
  from retired_empty [OF reach new] closed show ?thesis by auto
qed

end
