(* ===== verification/Lease_Queue_Notify.thy ===== *)
theory Lease_Queue_Notify
  imports Lease_Queue_Props
begin

text \<open>
  What a waiter relies on: the interface \<open>notified_source\<close> of something that is waited for and
  counts its notifications, and the lease queue (\<open>Notify\<close> inside \<open>LeaseQueue\<close>) as an instance
  of it. A waiter registers before it looks; if it finds nothing, it may sleep until the
  count changes.
\<close>

section \<open>The interface\<close>

locale notified_source =
  fixes step :: "'s \<Rightarrow> 's \<Rightarrow> bool" and good :: "'s \<Rightarrow> bool" and ready :: "'s \<Rightarrow> bool" and count :: "'s \<Rightarrow> nat"
  assumes good_step: "good s \<Longrightarrow> step s s' \<Longrightarrow> good s'"
    and count_mono: "good s \<Longrightarrow> step s s' \<Longrightarrow> count s \<le> count s'"
    and quiet: "good s \<Longrightarrow> step s s' \<Longrightarrow> \<not> ready s \<Longrightarrow> count s' = count s \<Longrightarrow> \<not> ready s'"
begin

text \<open>
  \<open>asleep n s\<close>: a waiter that registered at count \<open>n\<close> and found nothing may still sleep, or it
  has been notified.
\<close>

definition asleep :: "nat \<Rightarrow> 's \<Rightarrow> bool" where
  "asleep n s \<longleftrightarrow> good s \<and> n \<le> count s \<and> (count s = n \<longrightarrow> \<not> ready s)"

lemma asleep_start: "good s \<Longrightarrow> \<not> ready s \<Longrightarrow> asleep (count s) s"
  by (simp add: asleep_def)

lemma asleep_step:
  assumes "asleep n s" and "step s s'"
  shows "asleep n s'"
proof -
  from assms have g: "good s" and n: "n \<le> count s" and r: "count s = n \<Longrightarrow> \<not> ready s"
    by (auto simp: asleep_def)
  from count_mono [OF g assms(2)] have le: "count s \<le> count s'" .
  have "\<not> ready s'" if "count s' = n"
  proof -
    from le n that have "count s = n" by simp
    with quiet [OF g assms(2) r] that show ?thesis by simp
  qed
  with g le n good_step [OF g assms(2)] show ?thesis by (simp add: asleep_def)
qed

lemma asleep_notified: "asleep n s \<Longrightarrow> ready s \<Longrightarrow> n < count s"
  by (auto simp: asleep_def le_less)

end

section \<open>The lease queue\<close>

definition queue_moves :: "'a lease_queue \<Rightarrow> 'a lease_queue \<Rightarrow> bool" where
  "queue_moves Q Q' \<longleftrightarrow> (\<exists>op ps ps'. queue_step op (Q, ps) (Q', ps'))"

definition leasable :: "'a lease_queue \<Rightarrow> bool" where
  "leasable Q \<longleftrightarrow> candidates (lq_inner Q) \<noteq> {}"

lemma step_notify_mono:
  assumes "wf_queue Q" and "queue_step op (Q, ps) (Q', ps')"
  shows "lq_notify Q \<le> lq_notify Q'"
  using assms(2)
proof (cases rule: queue_step.cases)
  case (reserve_ok sz p)
  with try_reserve_Ok(8) [OF assms(1)] show ?thesis by simp
next
  case (reserve_full sz full)
  with try_reserve_Err(1) [OF assms(1) reserve_full(3)] show ?thesis by simp
qed (use assms(1) in \<open>simp_all add: commit_simps cancel_def ack_below_each_def ack_all_each_def ack_where_spec
    ack_seq_spec release_seq_spec expire_spec\<close>)

interpretation lq: notified_source queue_moves wf_queue leasable lq_notify
proof (unfold_locales, goal_cases)
  case (1 s s')
  with step_refines show ?case by (force simp: queue_moves_def)
next
  case (2 s s')
  with step_notify_mono show ?case by (force simp: queue_moves_def)
next
  case (3 s s')
  then obtain op ps ps' where st: "queue_step op (s, ps) (s', ps')" by (auto simp: queue_moves_def)
  with step_refines [OF 3(1) st] step_quiet [OF st 3(1)] 3 show ?case
    by (auto simp: leasable_def candidates_cands)
qed

end
