(* ===== verification/Pull_Consumer.thy ===== *)
theory Pull_Consumer
  imports Lease_Queue_Notify Admission
begin

text \<open>
  The pull consumer, \<open>crates/tgin-core/src/consumer/pull.rs\<close>: polls of downstream bots on a
  lease queue of envelopes. \<open>poll\<close> is split at its only await, the \<open>select!\<close> in its loop: up
  to it a poll either answers or is parked with what it waits for, and every wake runs one
  more round of the loop, taken as one step. A parked poll and everything else that touches
  the consumer interleave between rounds, as the step relation \<open>poll_step\<close>.
\<close>

section \<open>The consumer\<close>

definition MAX_LIMIT :: nat where
  "MAX_LIMIT = 100"

definition MAX_TIMEOUT :: duration where
  "MAX_TIMEOUT = 50 * NANOS_PER_SEC"

definition DRAIN_HOLD :: duration where
  "DRAIN_HOLD = NANOS_PER_SEC div 2"

definition EXPIRY_PERIOD :: duration where
  "EXPIRY_PERIOD = NANOS_PER_SEC"

record poll_request =
  pr_instance :: holder_id
  pr_offset :: int
  pr_limit :: nat
  pr_timeout :: duration

record pull_consumer =
  pc_name :: string
  pc_queue :: "envelope lease_queue"
  pc_latencies :: "duration list"
  pc_depth :: "int \<times> int"
  pc_draining :: bool
  pc_paused :: bool
  pc_gauges :: bool
  pc_wake :: nat

definition pull_new :: "string \<Rightarrow> nat \<Rightarrow> queue_config \<Rightarrow> pull_consumer" where
  "pull_new name qid cfg =
     \<lparr>pc_name = name, pc_queue = new_queue qid cfg, pc_latencies = [], pc_depth = (0, 0),
      pc_draining = False, pc_paused = False, pc_gauges = True, pc_wake = 0\<rparr>"

definition from_leases :: "envelope lease list \<Rightarrow> bytes list" where
  "from_leases ls = map (\<lambda>l. en_payload (l_item l)) ls"

definition gauge :: "nat \<Rightarrow> int" where
  "gauge n = min (int n) (2 ^ 63 - 1)"

definition update_depth :: "pull_consumer \<Rightarrow> pull_consumer" where
  "update_depth c =
     (if pc_gauges c
      then c\<lparr>pc_depth := (gauge (st_available (stats (pc_queue c))), gauge (st_leased (stats (pc_queue c))))\<rparr>
      else c)"

definition poll_ack :: "holder_id \<Rightarrow> int \<Rightarrow> instant \<Rightarrow> pull_consumer \<Rightarrow> pull_consumer" where
  "poll_ack h offset now c =
     (case (if offset = 0 then ((0, []), pc_queue c)
            else if offset > 0 then ack_below_each h offset (pc_queue c)
            else ack_all_each h (pc_queue c)) of
        ((acked, items), Q) \<Rightarrow>
          (let c = c\<lparr>pc_queue := Q,
                    pc_latencies := pc_latencies c @ map (\<lambda>e. inst_since now (en_received_at e)) items\<rparr>
           in if acked > 0 then update_depth c else c))"

text \<open>
  A poll is answered, or parked: with the notification counts at which it registered, the end
  of the drain hold if it saw one, and until when it waits.
\<close>

datatype poll_state = Answered "bytes list" | Parked nat nat "instant option" instant

text \<open>One round of the loop. \<open>None\<close>: the sum with \<open>DRAIN_HOLD\<close> overflows and panics.\<close>

definition poll_check ::
  "poll_request \<Rightarrow> instant \<Rightarrow> instant option \<Rightarrow> instant \<Rightarrow> pull_consumer \<Rightarrow> (poll_state \<times> pull_consumer) option" where
  "poll_check req deadline drain_deadline now c =
     (let n = lq_notify (pc_queue c); m = pc_wake c in
      case (if pc_paused c then ([], pc_queue c) else lease (pr_instance req) (pr_limit req) now (pc_queue c)) of
        (ls, Q) \<Rightarrow>
          (let c' = c\<lparr>pc_queue := Q\<rparr> in
           if ls \<noteq> [] then Some (Answered (from_leases ls), update_depth c')
           else
             (case (if \<not> pc_draining c then Some drain_deadline
                    else (case drain_deadline of
                            Some hold \<Rightarrow> Some (Some hold)
                          | None \<Rightarrow> map_option Some (inst_checked_add now DRAIN_HOLD))) of
                None \<Rightarrow> None
              | Some dd \<Rightarrow>
                  (let til = (if pc_draining c then min deadline (the dd) else deadline)
                   in if now \<ge> til then Some (Answered [], update_depth c')
                      else Some (Parked n m dd til, c')))))"

definition poll_deadline :: "poll_request \<Rightarrow> instant \<Rightarrow> instant" where
  "poll_deadline req start =
     (case inst_checked_add start (pr_timeout req) of None \<Rightarrow> start | Some d \<Rightarrow> d)"

definition poll_start :: "poll_request \<Rightarrow> instant \<Rightarrow> pull_consumer \<Rightarrow> (poll_state \<times> pull_consumer) option" where
  "poll_start req start c =
     (let c = poll_ack (pr_instance req) (pr_offset req) start c in
      case held (pr_instance req) (pr_offset req) start (pc_queue c) of
        (ls, Q) \<Rightarrow>
          (let c = c\<lparr>pc_queue := Q\<rparr>; kept = take (pr_limit req) ls
           in if kept \<noteq> [] then Some (Answered (from_leases kept), update_depth c)
              else poll_check req (poll_deadline req start) None start c))"

definition pull_pending :: "pull_consumer \<Rightarrow> nat" where
  "pull_pending c = st_available (stats (pc_queue c)) + st_leased (stats (pc_queue c))"

definition pull_begin_drain :: "pull_consumer \<Rightarrow> pull_consumer" where
  "pull_begin_drain c = c\<lparr>pc_draining := True, pc_wake := pc_wake c + 1\<rparr>"

definition pull_end_drain :: "pull_consumer \<Rightarrow> pull_consumer" where
  "pull_end_drain c = c\<lparr>pc_draining := False\<rparr>"

definition publish_gauges :: "bool \<Rightarrow> pull_consumer \<Rightarrow> pull_consumer" where
  "publish_gauges on c = c\<lparr>pc_gauges := on\<rparr>"

definition pull_pause :: "pull_consumer \<Rightarrow> pull_consumer" where
  "pull_pause c = c\<lparr>pc_paused := True\<rparr>"

definition pull_resume :: "pull_consumer \<Rightarrow> pull_consumer" where
  "pull_resume c = c\<lparr>pc_paused := False, pc_wake := pc_wake c + 1\<rparr>"

definition expiry_tick :: "instant \<Rightarrow> pull_consumer \<Rightarrow> pull_consumer" where
  "expiry_tick now c = update_depth (c\<lparr>pc_queue := snd (expire now (pc_queue c))\<rparr>)"

section \<open>Polls and everyone else\<close>

text \<open>
  What others do to the consumer: any operation on its queue, and its switches. \<open>Notify\<close> of
  the queue and \<open>wake\<close> of the consumer both count.
\<close>

inductive consumer_moves :: "pull_consumer \<Rightarrow> pull_consumer \<Rightarrow> bool" where
  by_queue: "queue_step op (pc_queue c, ps) (Q, ps') \<Longrightarrow> consumer_moves c (c\<lparr>pc_queue := Q\<rparr>)"
| by_depth: "consumer_moves c (update_depth c)"
| by_begin_drain: "consumer_moves c (pull_begin_drain c)"
| by_end_drain: "consumer_moves c (pull_end_drain c)"
| by_gauges: "consumer_moves c (publish_gauges on c)"
| by_pause: "consumer_moves c (pull_pause c)"
| by_resume: "consumer_moves c (pull_resume c)"

inductive_cases consumer_movesE: "consumer_moves c c'"

definition poll_ready :: "pull_consumer \<Rightarrow> bool" where
  "poll_ready c \<longleftrightarrow> \<not> pc_paused c \<and> leasable (pc_queue c)"

definition notifications :: "pull_consumer \<Rightarrow> nat" where
  "notifications c = lq_notify (pc_queue c) + pc_wake c"

lemma update_depth_frame [simp]:
  "pc_queue (update_depth c) = pc_queue c" "pc_paused (update_depth c) = pc_paused c"
  "pc_wake (update_depth c) = pc_wake c" "pc_draining (update_depth c) = pc_draining c"
  by (simp_all add: update_depth_def)

interpretation pull: notified_source consumer_moves "\<lambda>c. wf_queue (pc_queue c)" poll_ready notifications
proof (unfold_locales, goal_cases)
  case (1 s s')
  from 1(2,1) show ?case
  proof (cases rule: consumer_moves.cases)
    case (by_queue op ps Q ps')
    with lq.good_step [OF 1(1), of Q] show ?thesis by (auto simp: queue_moves_def)
  qed (auto simp: pull_begin_drain_def pull_end_drain_def publish_gauges_def pull_pause_def pull_resume_def)
next
  case (2 s s')
  from 2(2) show ?case
  proof (cases rule: consumer_moves.cases)
    case (by_queue op ps Q ps')
    with lq.count_mono [OF 2(1), of Q] show ?thesis by (auto simp: queue_moves_def notifications_def)
  qed (auto simp: pull_begin_drain_def pull_end_drain_def publish_gauges_def pull_pause_def pull_resume_def notifications_def)
next
  case (3 s s')
  from 3(2) show ?case
  proof (cases rule: consumer_moves.cases)
    case (by_queue op ps Q ps')
    with lq.quiet [OF 3(1), of Q] 3 show ?thesis by (auto simp: queue_moves_def notifications_def poll_ready_def)
  qed (use 3 in \<open>auto simp: pull_begin_drain_def pull_end_drain_def publish_gauges_def pull_pause_def pull_resume_def
      notifications_def poll_ready_def\<close>)
qed

text \<open>
  A poll in progress: its state, the consumer and the time. Others move the consumer, time
  passes, and a parked poll is resumed by whichever of its events has happened.
\<close>

type_synonym poll_conf = "poll_state \<times> pull_consumer \<times> instant"

inductive poll_step :: "poll_request \<Rightarrow> instant \<Rightarrow> poll_conf \<Rightarrow> poll_conf \<Rightarrow> bool"
  for req :: poll_request and deadline :: instant where
  others: "consumer_moves c c' \<Longrightarrow> poll_step req deadline (st, c, t) (st, c', t)"
| time_passes: "t \<le> t' \<Longrightarrow> poll_step req deadline (st, c, t) (st, c, t')"
| woken: "lq_notify (pc_queue c) \<noteq> n \<or> pc_wake c \<noteq> m \<Longrightarrow> poll_check req deadline dd t c = Some (st', c') \<Longrightarrow>
    poll_step req deadline (Parked n m dd til, c, t) (st', c', t)"
| timed_out: "til \<le> t \<Longrightarrow> poll_step req deadline (Parked n m dd til, c, t) (Answered [], update_depth c, t)"
| cancelled: "poll_step req deadline (Parked n m dd til, c, t) (Answered [], update_depth c, t)"

inductive_cases poll_stepE: "poll_step req deadline (st, c, t) conf"

inductive poll_reach :: "poll_request \<Rightarrow> instant \<Rightarrow> poll_conf \<Rightarrow> poll_conf \<Rightarrow> bool"
  for req :: poll_request and deadline :: instant and a :: poll_conf where
  poll_refl: "poll_reach req deadline a a"
| poll_more: "poll_reach req deadline a b \<Longrightarrow> poll_step req deadline b c \<Longrightarrow> poll_reach req deadline a c"

section \<open>One round\<close>

lemma lease_empty_iff:
  assumes "wf_queue Q"
  shows "fst (lease h n now Q) = [] \<longleftrightarrow> n = 0 \<or> \<not> leasable Q"
proof -
  have "finite (candidates (lq_inner Q))" by (rule finite_candidates [OF wf_innerD(1) [OF assms]])
  then show ?thesis by (auto simp: lease_spec(3) [OF assms] picked_def leasable_def)
qed

definition drain_seen :: "bool \<Rightarrow> instant option \<Rightarrow> instant \<Rightarrow> bool" where
  "drain_seen draining dd til \<longleftrightarrow> (draining \<longrightarrow> (\<exists>hold. dd = Some hold \<and> til \<le> hold))"

text \<open>The leases of a round, and the round in terms of them.\<close>

definition round_leases :: "poll_request \<Rightarrow> instant \<Rightarrow> pull_consumer \<Rightarrow> envelope lease list \<times> envelope lease_queue" where
  "round_leases req now c =
     (if pc_paused c then ([], pc_queue c) else lease (pr_instance req) (pr_limit req) now (pc_queue c))"

lemma round_leases_empty:
  assumes "wf_queue (pc_queue c)" and "0 < pr_limit req" and "fst (round_leases req now c) = []"
  shows "snd (round_leases req now c) = pc_queue c" and "\<not> poll_ready c"
proof -
  have "snd (lease h n now Q) = Q" if "fst (lease h n now Q) = []" "wf_queue Q" for h n and Q :: "envelope lease_queue"
  proof -
    have "picked n (lq_inner Q) = []" using that lease_spec(3) [OF that(2), of h n now] by simp
    then show ?thesis by (simp add: lease_def lease_inner_def picked_def)
  qed
  with assms(1,3) show "snd (round_leases req now c) = pc_queue c"
    by (auto simp: round_leases_def split: if_splits)
  show "\<not> poll_ready c"
    using assms(3) lease_empty_iff [OF assms(1)] assms(2) by (auto simp: round_leases_def poll_ready_def split: if_splits)
qed

lemma poll_check_cases:
  assumes "poll_check req deadline dd now c = Some (st, c')"
  obtains (leased) "fst (round_leases req now c) \<noteq> []" "st = Answered (from_leases (fst (round_leases req now c)))"
      "c' = update_depth (c\<lparr>pc_queue := snd (round_leases req now c)\<rparr>)"
  | (empty) "fst (round_leases req now c) = []" "st = Answered []" "c' = update_depth (c\<lparr>pc_queue := snd (round_leases req now c)\<rparr>)"
  | (parked) dd' til where "fst (round_leases req now c) = []" "st = Parked (lq_notify (pc_queue c)) (pc_wake c) dd' til"
      "c' = c\<lparr>pc_queue := snd (round_leases req now c)\<rparr>" "now < til" "til \<le> deadline"
      "drain_seen (pc_draining c) dd' til" "\<not> pc_draining c \<or> dd = None \<Longrightarrow> pc_draining c \<Longrightarrow> til \<le> now + DRAIN_HOLD"
proof (cases "fst (round_leases req now c) = []")
  case False
  with assms leased show thesis
    by (auto simp: poll_check_def round_leases_def [symmetric] Let_def split_beta)
next
  case True
  let ?hold = "if \<not> pc_draining c then Some dd
    else (case dd of Some hold \<Rightarrow> Some (Some hold) | None \<Rightarrow> map_option Some (inst_checked_add now DRAIN_HOLD))"
  obtain dd' where dd': "?hold = Some dd'" using assms True
    by (cases ?hold) (auto simp: poll_check_def round_leases_def [symmetric] Let_def split_beta)
  let ?til = "if pc_draining c then min deadline (the dd') else deadline"
  have r: "(st, c') = (if now \<ge> ?til then (Answered [], update_depth (c\<lparr>pc_queue := snd (round_leases req now c)\<rparr>))
      else (Parked (lq_notify (pc_queue c)) (pc_wake c) dd' ?til, c\<lparr>pc_queue := snd (round_leases req now c)\<rparr>))"
    using assms True dd' unfolding poll_check_def round_leases_def [symmetric] Let_def split_beta by (auto split: if_splits)
  show thesis
  proof (cases "now \<ge> ?til")
    case True
    with r \<open>fst (round_leases req now c) = []\<close> empty show thesis by simp
  next
    case False
    have "pc_draining c \<Longrightarrow> \<exists>hold. dd' = Some hold \<and> (dd = None \<longrightarrow> hold = now + DRAIN_HOLD)"
      using dd' by (auto dest: inst_checked_add_SomeD split: option.splits)
    then have "drain_seen (pc_draining c) dd' ?til" "\<not> pc_draining c \<or> dd = None \<Longrightarrow> pc_draining c \<Longrightarrow> ?til \<le> now + DRAIN_HOLD"
      by (auto simp: drain_seen_def)
    with False r True show thesis by (intro parked [of dd' ?til]) auto
  qed
qed

section \<open>A parked poll\<close>

definition poll_inv :: "instant \<Rightarrow> poll_conf \<Rightarrow> bool" where
  "poll_inv deadline conf \<longleftrightarrow>
     (case conf of (st, c, t) \<Rightarrow> wf_queue (pc_queue c) \<and>
        (case st of
           Answered _ \<Rightarrow> True
         | Parked n m dd til \<Rightarrow> pull.asleep (n + m) c \<and> m \<le> pc_wake c \<and> til \<le> deadline \<and>
             (pc_wake c = m \<longrightarrow> drain_seen (pc_draining c) dd til)))"

lemma poll_check_inv:
  assumes wf: "wf_queue (pc_queue c)" and lim: "0 < pr_limit req"
    and "poll_check req deadline dd now c = Some (st, c')"
  shows "poll_inv deadline (st, c', t)"
  using assms(3)
proof (cases rule: poll_check_cases)
  case leased
  moreover have "wf_queue (snd (round_leases req now c))"
    using lease_spec(1) [OF wf] wf by (simp add: round_leases_def)
  ultimately show ?thesis by (simp add: poll_inv_def)
next
  case empty
  with round_leases_empty(1) [OF wf lim empty(1)] wf show ?thesis by (simp add: poll_inv_def)
next
  case (parked dd' til)
  have "c' = c" using round_leases_empty(1) [OF wf lim parked(1)] parked(3) by simp
  moreover have "pull.asleep (notifications c) c"
    by (rule pull.asleep_start [OF wf round_leases_empty(2) [OF wf lim parked(1)]])
  ultimately show ?thesis using parked wf by (simp add: poll_inv_def notifications_def)
qed

lemma consumer_moves_wake:
  assumes "consumer_moves c c'"
  shows "pc_wake c \<le> pc_wake c'" and "pc_wake c' = pc_wake c \<Longrightarrow> pc_draining c' \<Longrightarrow> pc_draining c"
  using assms by (cases rule: consumer_moves.cases;
      auto simp: pull_begin_drain_def pull_end_drain_def publish_gauges_def pull_pause_def pull_resume_def)+

lemma poll_step_inv:
  assumes "poll_step req deadline conf conf'" and "0 < pr_limit req" and "poll_inv deadline conf"
  shows "poll_inv deadline conf'"
  using assms(1,3)
proof (induction rule: poll_step.induct)
  case (others c c' st t)
  note m = consumer_moves_wake [OF others(1)]
  have "wf_queue (pc_queue c')" using pull.good_step [OF _ others(1)] others(2) by (simp add: poll_inv_def)
  with others m pull.asleep_step [OF _ others(1)] show ?case
    by (cases st) (auto simp: poll_inv_def drain_seen_def)
next
  case (woken c n m dd t st' c' til)
  then show ?case using poll_check_inv [OF _ assms(2)] by (auto simp: poll_inv_def)
qed (auto simp: poll_inv_def split: poll_state.splits)

lemma poll_reach_inv:
  "poll_reach req deadline conf conf' \<Longrightarrow> 0 < pr_limit req \<Longrightarrow> poll_inv deadline conf \<Longrightarrow> poll_inv deadline conf'"
  by (induction rule: poll_reach.induct) (auto intro: poll_step_inv)

section \<open>What a poll does to the queue\<close>

definition acked_by :: "poll_request \<Rightarrow> envelope emap \<Rightarrow> nat set" where
  "acked_by req E =
     (if pr_offset req = 0 then {}
      else if pr_offset req > 0 then hits (pr_instance req) (\<lambda>e. e_ack_id e < pr_offset req) E
      else held_by E (pr_instance req))"

text \<open>
  \<open>hands_out req E E' xs\<close>: from the entries \<open>E\<close> to \<open>E'\<close> nothing came or went, and \<open>xs\<close> are the
  payloads, in queue order, of at most \<open>limit\<close> entries the instance now holds.
\<close>

definition hands_out :: "poll_request \<Rightarrow> envelope emap \<Rightarrow> envelope emap \<Rightarrow> bytes list \<Rightarrow> bool" where
  "hands_out req E E' xs \<longleftrightarrow>
     dom E' = dom E \<and> (\<forall>s \<in> dom E. e_item (the (E' s)) = e_item (the (E s))) \<and>
     (\<exists>ss. sorted_wrt (<) ss \<and> length ss \<le> pr_limit req \<and> set ss \<subseteq> held_by E' (pr_instance req) \<and>
        xs = map (\<lambda>s. en_payload (e_item (the (E' s)))) ss)"

primrec answer_of :: "poll_state \<Rightarrow> bytes list" where
  "answer_of (Answered xs) = xs"
| "answer_of (Parked n m dd til) = []"

lemma poll_ack_spec:
  assumes wf: "wf_queue (pc_queue c)"
  shows "wf_queue (pc_queue (poll_ack (pr_instance req) (pr_offset req) now c))"
    and "lq_entry (pc_queue (poll_ack (pr_instance req) (pr_offset req) now c)) =
      drop_all (acked_by req (lq_entry (pc_queue c))) (lq_entry (pc_queue c))"
proof -
  let ?Q = "pc_queue c" and ?h = "pr_instance req"
  have q: "pc_queue (poll_ack ?h (pr_offset req) now c) =
      (if pr_offset req = 0 then ?Q else if pr_offset req > 0 then snd (ack_below_each ?h (pr_offset req) ?Q)
       else snd (ack_all_each ?h ?Q))"
    by (auto simp: poll_ack_def Let_def split: prod.splits)
  show "wf_queue (pc_queue (poll_ack ?h (pr_offset req) now c))"
    using wf by (simp add: q ack_below_each_def ack_all_each_def ack_where_spec(1))
  show "lq_entry (pc_queue (poll_ack ?h (pr_offset req) now c)) = drop_all (acked_by req (lq_entry ?Q)) (lq_entry ?Q)"
    using ack_where_spec(2) [OF wf] by (simp add: q ack_below_each_def ack_all_each_def acked_by_def)
qed

text \<open>Leasing or renewing keeps the entries and their items.\<close>

lemma lease_all_items:
  "dom (lease_all S hold E) = dom E" "s \<in> dom E \<Longrightarrow> e_item (the (lease_all S hold E s)) = e_item (the (E s))"
  by (auto simp: lease_all_def split: if_splits)

lemma renew_all_items:
  "dom (renew_all S d E) = dom E" "s \<in> dom E \<Longrightarrow> e_item (the (renew_all S d E s)) = e_item (the (E s))"
  by (auto simp: renew_all_def renew_def split: if_splits)

lemma hands_out_leases:
  assumes wf: "wf_queue Q"
  shows "hands_out req (lq_entry Q) (lq_entry (snd (lease (pr_instance req) (pr_limit req) now Q)))
    (from_leases (fst (lease (pr_instance req) (pr_limit req) now Q)))"
proof -
  let ?p = "picked (pr_limit req) (lq_inner Q)"
  let ?E = "lq_entry Q" and ?E' = "lq_entry (snd (lease (pr_instance req) (pr_limit req) now Q))"
  note p = picked_props [OF wf_innerD(1) [OF wf], of "pr_limit req"]
  have E': "?E' = lease_all (set ?p) \<lparr>h_holder = pr_instance req, h_deadline = inst_checked_add now (lease_timeout (lq_cfg Q))\<rparr> ?E"
    by (rule lease_spec(2) [OF wf])
  have dom: "set ?p \<subseteq> dom ?E" using p(3) by (auto simp: unleased_def)
  have items: "e_item (the (?E' s)) = e_item (the (?E s))" if "s \<in> set ?p" for s
    unfolding E' by (rule lease_all_items(2)) (use dom that in blast)
  have "set ?p \<subseteq> held_by ?E' (pr_instance req)"
    using dom by (auto simp: E' held_by_def lease_all_def)
  moreover have "from_leases (fst (lease (pr_instance req) (pr_limit req) now Q)) =
      map (\<lambda>s. en_payload (e_item (the (?E' s)))) ?p"
    unfolding from_leases_def lease_spec(3) [OF wf] map_map
    by (rule map_cong [OF refl]) (use items in \<open>simp add: to_lease_def\<close>)
  moreover have "length ?p \<le> pr_limit req" by (simp add: picked_def)
  moreover have "sorted_wrt (<) ?p" using p(1,2) by (simp add: strict_sorted_iff)
  ultimately show ?thesis
    unfolding hands_out_def E' lease_all_items(1) by (blast intro: lease_all_items(2))
qed

lemma hands_out_nothing: "hands_out req E E []"
  by (auto simp: hands_out_def intro!: exI [of _ "[]"])

lemma round_hands_out:
  assumes "wf_queue (pc_queue c)" and "poll_check req deadline dd now c = Some (st, c')"
  shows "hands_out req (lq_entry (pc_queue c)) (lq_entry (pc_queue c')) (answer_of st)"
proof -
  have r: "hands_out req (lq_entry (pc_queue c)) (lq_entry (snd (round_leases req now c)))
      (from_leases (fst (round_leases req now c)))"
    using hands_out_leases [OF assms(1)] hands_out_nothing by (simp add: round_leases_def from_leases_def)
  from assms(2) show ?thesis
    by (cases rule: poll_check_cases) (use r in \<open>simp_all add: from_leases_def\<close>)
qed

lemma held_hands_out:
  assumes wf: "wf_queue Q" and "held (pr_instance req) (pr_offset req) now Q = (ls, Q')"
  shows "hands_out req (lq_entry Q) (lq_entry Q') (from_leases (take (pr_limit req) ls))" and "wf_queue Q'"
proof -
  let ?S = "hits (pr_instance req) (\<lambda>e. pr_offset req \<le> e_ack_id e) (lq_entry Q)"
  let ?ss = "take (pr_limit req) (sorted_list_of_set ?S)" and ?E' = "lq_entry Q'"
  note h = held_spec [OF wf, of "pr_instance req" "pr_offset req" now, unfolded assms(2) fst_conv snd_conv]
  show "wf_queue Q'" by (rule h(1))
  have fin: "finite ?S" by (rule finite_hits [OF finite_entries [OF wf]])
  then have sub: "set ?ss \<subseteq> ?S" by (metis set_sorted_list_of_set set_take_subset)
  have dom: "?S \<subseteq> dom (lq_entry Q)" by (auto simp: hits_def)
  have items: "e_item (the (?E' s)) = e_item (the (lq_entry Q s))" if "s \<in> set ?ss" for s
    unfolding h(2) by (rule renew_all_items(2)) (use sub dom that in blast)
  have "?S \<subseteq> held_by ?E' (pr_instance req)"
    unfolding h(2) by (auto simp: hits_def held_by_def renew_all_def renew_def)
  with sub have "set ?ss \<subseteq> held_by ?E' (pr_instance req)" by blast
  moreover have "from_leases (take (pr_limit req) ls) = map (\<lambda>s. en_payload (e_item (the (?E' s)))) ?ss"
    unfolding h(3) take_map from_leases_def map_map
    by (rule map_cong [OF refl]) (use items in \<open>simp add: to_lease_def\<close>)
  moreover have "sorted_wrt (<) ?ss" "length ?ss \<le> pr_limit req"
    by (simp_all add: sorted_wrt_take strict_sorted_iff)
  ultimately show "hands_out req (lq_entry Q) (lq_entry Q') (from_leases (take (pr_limit req) ls))"
    unfolding hands_out_def h(2) renew_all_items(1) by (blast intro: renew_all_items(2))
qed

lemma hands_out_trans:
  "hands_out req E E1 [] \<Longrightarrow> hands_out req E1 E2 xs \<Longrightarrow> hands_out req E E2 xs"
  unfolding hands_out_def by (elim conjE) (intro conjI, auto)

lemma poll_start_hands_out:
  assumes wf: "wf_queue (pc_queue c)" and s: "poll_start req start c = Some (st, c')"
  defines "E \<equiv> lq_entry (pc_queue c)"
  shows "hands_out req (drop_all (acked_by req E) E) (lq_entry (pc_queue c')) (answer_of st)"
proof -
  define c1 where "c1 = poll_ack (pr_instance req) (pr_offset req) start c"
  have wf1: "wf_queue (pc_queue c1)" and E1: "lq_entry (pc_queue c1) = drop_all (acked_by req E) E"
    using poll_ack_spec [OF wf, of req start] by (simp_all add: c1_def E_def)
  obtain ls Q where h: "held (pr_instance req) (pr_offset req) start (pc_queue c1) = (ls, Q)" by fastforce
  note o = held_hands_out [OF wf1 h]
  show ?thesis
  proof (cases "take (pr_limit req) ls = []")
    case False
    with s h o(1) show ?thesis by (auto simp: poll_start_def c1_def [symmetric] Let_def E1)
  next
    case True
    with s h have "poll_check req (poll_deadline req start) None start (c1\<lparr>pc_queue := Q\<rparr>) = Some (st, c')"
      by (auto simp: poll_start_def c1_def [symmetric] Let_def)
    from round_hands_out [OF _ this] o True show ?thesis
      by (simp add: E1 from_leases_def) (blast intro: hands_out_trans)
  qed
qed

lemma poll_start_inv:
  assumes wf: "wf_queue (pc_queue c)" and lim: "0 < pr_limit req" and s: "poll_start req start c = Some (st, c')"
  shows "poll_inv (poll_deadline req start) (st, c', start)"
proof -
  define c1 where "c1 = poll_ack (pr_instance req) (pr_offset req) start c"
  have wf1: "wf_queue (pc_queue c1)" using poll_ack_spec(1) [OF wf, of req start] by (simp add: c1_def)
  obtain ls Q where h: "held (pr_instance req) (pr_offset req) start (pc_queue c1) = (ls, Q)" by fastforce
  note wf2 = held_hands_out(2) [OF wf1 h]
  show ?thesis
  proof (cases "take (pr_limit req) ls = []")
    case False
    with s h wf2 show ?thesis by (auto simp: poll_start_def c1_def [symmetric] Let_def poll_inv_def)
  next
    case True
    with s h have "poll_check req (poll_deadline req start) None start (c1\<lparr>pc_queue := Q\<rparr>) = Some (st, c')"
      by (auto simp: poll_start_def c1_def [symmetric] Let_def)
    from poll_check_inv [OF _ lim this] wf2 show ?thesis by simp
  qed
qed

section \<open>Properties\<close>

text \<open>
  C34. No parked poll sleeps through what it waits for. However admissions, other polls, acks,
  expiry, purges, pauses and drains interleave with its rounds: a parked poll never waits past its
  deadline; whenever the consumer is not paused and has an update to lease, one of the two
  notifications the poll registered for has been sent since, so it runs another round; and
  once the consumer drains, the poll has been woken or already waits no longer than the
  drain hold.
\<close>

theorem poll_never_oversleeps:
  assumes "wf_queue (pc_queue c0)" and "0 < pr_limit req" and "poll_start req start c0 = Some (st0, c1)"
    and "poll_reach req (poll_deadline req start) (st0, c1, start) (Parked n m dd til, c, t)"
  shows "til \<le> poll_deadline req start \<and>
    (\<not> pc_paused c \<and> candidates (lq_inner (pc_queue c)) \<noteq> {} \<longrightarrow> lq_notify (pc_queue c) \<noteq> n \<or> pc_wake c \<noteq> m) \<and>
    (pc_draining c \<longrightarrow> pc_wake c \<noteq> m \<or> (\<exists>hold. dd = Some hold \<and> til \<le> hold))"
proof -
  have "poll_inv (poll_deadline req start) (Parked n m dd til, c, t)"
    by (rule poll_reach_inv [OF assms(4,2) poll_start_inv [OF assms(1-3)]])
  then have inv: "pull.asleep (n + m) c" "til \<le> poll_deadline req start"
    "pc_wake c = m \<longrightarrow> drain_seen (pc_draining c) dd til" by (simp_all add: poll_inv_def)
  have "lq_notify (pc_queue c) \<noteq> n \<or> pc_wake c \<noteq> m" if "poll_ready c"
    using pull.asleep_notified [OF inv(1) that] by (auto simp: notifications_def)
  with inv(2,3) show ?thesis by (auto simp: poll_ready_def leasable_def drain_seen_def)
qed

text \<open>A poll parks on an empty consumer, and an update is admitted.\<close>

definition demo_consumer :: pull_consumer where
  "demo_consumer = pull_new ''bot'' 7 demo_cfg"

definition demo_poll :: poll_request where
  "demo_poll = \<lparr>pr_instance = ''a'', pr_offset = 0, pr_limit = 10, pr_timeout = 50\<rparr>"

definition demo_update :: envelope where
  "demo_update = \<lparr>en_source = 0, en_update_id = 5, en_update_type = ''message'', en_key = None,
     en_payload = ''{}'', en_received_at = 2\<rparr>"

definition demo_waiting :: pull_consumer where
  "demo_waiting = demo_consumer\<lparr>pc_queue := (pc_queue demo_consumer)\<lparr>lq_res_items := 1, lq_res_bytes := 3\<rparr>\<rparr>"

definition demo_filled :: pull_consumer where
  "demo_filled = demo_waiting\<lparr>pc_queue := snd (commit demo_permit demo_update None 5 (pc_queue demo_waiting))\<rparr>"

lemma demo_pull_wf: "wf_queue (pc_queue demo_consumer)"
  by (simp add: demo_consumer_def pull_new_def wf_new)

lemma demo_poll_parks: "poll_start demo_poll 0 demo_consumer = Some (Parked 0 0 None 50, demo_consumer)"
  by code_simp

lemma demo_moves: "consumer_moves demo_consumer demo_waiting" "consumer_moves demo_waiting demo_filled"
proof -
  have r: "try_reserve 3 (pc_queue demo_consumer) = Some (Inr demo_permit, pc_queue demo_waiting)"
    by code_simp
  have "demo_waiting = demo_consumer\<lparr>pc_queue := pc_queue demo_waiting\<rparr>" by (simp add: demo_waiting_def)
  then show "consumer_moves demo_consumer demo_waiting"
    using by_queue [OF reserve_ok [OF r, of "[]"]] by simp
  show "consumer_moves demo_waiting demo_filled"
    unfolding demo_filled_def
    by (rule by_queue [OF commit_ok [of demo_permit "[demo_permit]"]]) simp
qed

theorem poll_never_oversleeps_witness:
  "poll_reach demo_poll 50 (Parked 0 0 None 50, demo_consumer, 0) (Parked 0 0 None 50, demo_filled, 3) \<and>
   candidates (lq_inner (pc_queue demo_filled)) \<noteq> {} \<and> lq_notify (pc_queue demo_filled) \<noteq> 0"
proof -
  have d: "poll_deadline demo_poll 0 = 50" by code_simp
  have r: "poll_reach demo_poll (poll_deadline demo_poll 0) (Parked 0 0 None 50, demo_consumer, 0)
      (Parked 0 0 None 50, demo_filled, 3)"
    by (rule poll_more [OF poll_more [OF poll_more [OF poll_refl]]],
        rule others [OF demo_moves(1)], rule others [OF demo_moves(2)], rule time_passes) simp
  have f: "candidates (lq_inner (pc_queue demo_filled)) \<noteq> {}" "pc_wake demo_filled = 0" "\<not> pc_paused demo_filled"
    by code_simp+
  from poll_never_oversleeps [OF demo_pull_wf _ demo_poll_parks r] r f d show ?thesis
    by (simp add: demo_poll_def)
qed

text \<open>
  C35. A poll loses nothing. Its first round removes exactly the updates it acks: those the
  instance holds below a positive offset, all the instance holds for a negative one, none for
  zero. Every round keeps all other updates, and answers at most \<open>limit\<close> payloads, in queue
  order, each of an update the instance then holds.
\<close>

theorem poll_exact:
  assumes "wf_queue (pc_queue c)"
  shows "(poll_start req start c = Some (st, c') \<longrightarrow>
      hands_out req (drop_all (acked_by req (lq_entry (pc_queue c))) (lq_entry (pc_queue c)))
        (lq_entry (pc_queue c')) (answer_of st)) \<and>
    (poll_check req deadline dd now c = Some (st, c') \<longrightarrow>
      hands_out req (lq_entry (pc_queue c)) (lq_entry (pc_queue c')) (answer_of st))"
  using poll_start_hands_out [OF assms] round_hands_out [OF assms] by blast

theorem poll_exact_witness:
  "\<exists>c'. poll_check demo_poll 50 None 3 demo_filled = Some (Answered [''{}''], c') \<and>
     hands_out demo_poll (lq_entry (pc_queue demo_filled)) (lq_entry (pc_queue c')) [''{}'']"
proof -
  have wf: "wf_queue (pc_queue demo_filled)"
    by (rule pull.good_step [OF pull.good_step [OF demo_pull_wf demo_moves(1)] demo_moves(2)])
  have "map_option fst (poll_check demo_poll 50 None 3 demo_filled) = Some (Answered [''{}''])"
    by code_simp
  then obtain c' where "poll_check demo_poll 50 None 3 demo_filled = Some (Answered [''{}''], c')" by force
  with poll_exact [OF wf, of demo_poll 0 "Answered [''{}'']" c' 50 None 3] show ?thesis by auto
qed

end
