(* ===== verification/Push_Consumer.thy ===== *)
theory Push_Consumer
  imports Pull_Consumer Breaker Backoff
begin

text \<open>
  The push consumer, \<open>crates/tgin-core/src/consumer/push.rs\<close>: one dispatcher task leases
  updates as the holder \<open>push\<close> and delivers each to an HTTP endpoint, with retries, balancing
  and a circuit breaker per endpoint; webhook replies, \<open>crates/tgin-core/src/reply.rs\<close>.

  The slots behind \<open>Arc<Slot>\<close> are shared by the endpoint sets that keep them: they live in a
  heap, and a set names them by address. A delivery is split at its awaits: the wait for an
  endpoint, the request on the wire, the reply being executed, the backoff. The dispatcher
  polls its deliveries itself, so what one of them does between two awaits is one step.
\<close>

section \<open>Webhook replies\<close>

definition MAX_REPLY_BYTES :: nat where
  "MAX_REPLY_BYTES = 2 ^ 20"

record binding =
  bd_source :: source_id
  bd_token_fingerprint :: nat

record reply =
  rp_content_type :: bytes
  rp_body :: bytes
  rp_bound_to :: "binding option"

definition carries_parameters :: "bytes \<Rightarrow> bool" where
  "carries_parameters content_type =
     list_ex (\<lambda>name. list_ex (\<lambda>window. eq_ignore_ascii_case window name) (windows (length name) content_type))
       [''application/json'', ''application/x-www-form-urlencoded'', ''multipart/form-data'']"

text \<open>The frames of a reply body read so far.\<close>

record collected =
  co_first :: bytes
  co_more :: "bytes option"
  co_len :: nat

definition collected_default :: collected where
  "collected_default = \<lparr>co_first = [], co_more = None, co_len = 0\<rparr>"

definition collected_push :: "bytes \<Rightarrow> collected \<Rightarrow> collected" where
  "collected_push data b =
     (let b = b\<lparr>co_len := co_len b + length data\<rparr> in
      case co_more b of
        Some m \<Rightarrow> b\<lparr>co_more := Some (m @ data)\<rparr>
      | None \<Rightarrow>
          if co_first b = [] then b\<lparr>co_first := data\<rparr>
          else if data \<noteq> [] then b\<lparr>co_more := Some (co_first b @ data)\<rparr>
          else b)"

definition collected_bytes :: "collected \<Rightarrow> bytes" where
  "collected_bytes b = (case co_more b of Some m \<Rightarrow> m | None \<Rightarrow> co_first b)"

section \<open>Endpoints and options\<close>

definition LEASE_TIMEOUT :: duration where
  "LEASE_TIMEOUT = 365 * 24 * 60 * 60 * NANOS_PER_SEC"

definition HOLDER :: holder_id where
  "HOLDER = ''push''"

datatype balance = BRoundRobin | BHashChat | BLeastInFlight

record retry_policy =
  rt_initial :: duration
  rt_max :: duration
  rt_max_attempts :: nat
  rt_max_age :: duration

record endpoint =
  ep_url :: string
  ep_origin :: string
  ep_secret_token :: "string option"
  ep_timeout :: duration
  ep_breaker :: breaker

text \<open>\<open>po_reply\<close> names the \<open>OnceLock\<close> that will hold the executor.\<close>

record push_options =
  po_max_in_flight :: nat
  po_balance :: balance
  po_retry :: retry_policy
  po_source_names :: "string list"
  po_breaker :: breaker_config
  po_runtime_timeout :: duration
  po_reply :: "nat option"

record runtime_endpoint =
  re_url :: string
  re_secret_token :: "string option"
  re_source :: source_id
  re_token_fingerprint :: nat

definition re_same :: "runtime_endpoint \<Rightarrow> runtime_endpoint \<Rightarrow> bool" where
  "re_same a b =
     (re_url a = re_url b \<and> re_source a = re_source b \<and>
      re_token_fingerprint a = re_token_fingerprint b \<and> re_secret_token a = re_secret_token b)"

datatype secret_header = SecretNone | SecretValid string | SecretInvalid

record push_slot =
  ps_url :: string
  ps_origin :: string
  ps_secret :: secret_header
  ps_timeout :: duration
  ps_breaker :: breaker
  ps_in_flight :: nat
  ps_label :: "nat option"
  ps_runtime :: bool

record targets =
  tt_slots :: "nat list"
  tt_runtime :: "runtime_endpoint option"
  tt_opts :: push_options
  tt_source_headers :: "string option list"

text \<open>
  What the HTTP crates decide: which strings are header values, and the origin of a URL.
\<close>

record push_env =
  pe_header_ok :: "string \<Rightarrow> bool"
  pe_origin :: "string \<Rightarrow> string"

definition secret_header :: "push_env \<Rightarrow> string option \<Rightarrow> secret_header" where
  "secret_header env secret =
     (case secret of
        None \<Rightarrow> SecretNone
      | Some s \<Rightarrow> if pe_header_ok env s then SecretValid s else SecretInvalid)"

definition source_headers :: "push_env \<Rightarrow> string list \<Rightarrow> string option list" where
  "source_headers env names = map (\<lambda>name. if pe_header_ok env name then Some name else None) names"

definition configured_slots :: "push_env \<Rightarrow> endpoint list \<Rightarrow> push_slot list" where
  "configured_slots env eps =
     map (\<lambda>(index, e).
       \<lparr>ps_url = ep_url e, ps_origin = ep_origin e, ps_secret = secret_header env (ep_secret_token e),
        ps_timeout = ep_timeout e, ps_breaker = ep_breaker e, ps_in_flight = 0,
        ps_label = Some index, ps_runtime = False\<rparr>) (enumerate 0 eps)"

definition runtime_slot :: "push_env \<Rightarrow> instant \<Rightarrow> runtime_endpoint \<Rightarrow> push_options \<Rightarrow> push_slot" where
  "runtime_slot env now e opts =
     \<lparr>ps_url = re_url e, ps_origin = pe_origin env (re_url e), ps_secret = secret_header env (re_secret_token e),
      ps_timeout = po_runtime_timeout opts, ps_breaker = breaker_new (po_breaker opts) now,
      ps_in_flight = 0, ps_label = None, ps_runtime = True\<rparr>"

definition configured :: "targets \<Rightarrow> nat list" where
  "configured tt = take (length (tt_slots tt) - (if tt_runtime tt = None then 0 else 1)) (tt_slots tt)"

section \<open>The consumer\<close>

datatype cause = CStatus nat | CError string | CInvalidSecret | CExpired

datatype delivery_outcome = Delivered | Retried | DeadLettered

record push_request =
  rq_url :: string
  rq_timeout :: duration
  rq_attempt :: nat
  rq_secret :: "string option"
  rq_source :: "string option"
  rq_update_type :: "string option"
  rq_via :: string
  rq_body :: bytes

record dead_letter =
  dl_envelope :: envelope
  dl_endpoint :: "nat option"
  dl_cause :: cause
  dl_reason :: string

text \<open>
  The consumer with its metrics, the requests it sent and the calls it had executed as logs;
  \<open>pu_executors\<close> are the reply handles that are set.
\<close>

record push_consumer =
  pu_name :: string
  pu_queue :: "envelope lease_queue"
  pu_targets :: targets
  pu_heap :: "push_slot list"
  pu_via :: string
  pu_cursor :: nat
  pu_in_flight :: nat
  pu_draining :: bool
  pu_paused :: bool
  pu_gauges :: bool
  pu_changed :: nat
  pu_depth :: "int \<times> int \<times> int"
  pu_latencies :: "duration list"
  pu_attempts :: "(nat option \<times> delivery_outcome) list"
  pu_letters :: "dead_letter list"
  pu_wire :: "push_request list"
  pu_executors :: "nat set"
  pu_calls :: "(source_id \<times> reply) list"
  pu_too_large :: "source_id list"

definition push_new ::
  "push_env \<Rightarrow> string \<Rightarrow> nat \<Rightarrow> queue_config \<Rightarrow> endpoint list \<Rightarrow> push_options \<Rightarrow> string \<Rightarrow> push_consumer" where
  "push_new env name qid cfg eps opts via =
     (let slots = configured_slots env eps in
      \<lparr>pu_name = name, pu_queue = new_queue qid cfg,
       pu_targets = \<lparr>tt_slots = [0..<length slots], tt_runtime = None, tt_opts = opts,
                     tt_source_headers = source_headers env (po_source_names opts)\<rparr>,
       pu_heap = slots, pu_via = via, pu_cursor = 0, pu_in_flight = 0, pu_draining = False,
       pu_paused = False, pu_gauges = True, pu_changed = 0, pu_depth = (0, 0, 0),
       pu_latencies = [], pu_attempts = [], pu_letters = [], pu_wire = [],
       pu_executors = {}, pu_calls = [], pu_too_large = []\<rparr>)"

definition executor :: "push_consumer \<Rightarrow> push_options \<Rightarrow> bool" where
  "executor c opts = (case po_reply opts of None \<Rightarrow> False | Some handle \<Rightarrow> handle \<in> pu_executors c)"

definition notify_changed :: "push_consumer \<Rightarrow> push_consumer" where
  "notify_changed c = c\<lparr>pu_changed := pu_changed c + 1\<rparr>"

definition set_endpoints ::
  "push_env \<Rightarrow> instant \<Rightarrow> endpoint list \<Rightarrow> push_options \<Rightarrow> push_consumer \<Rightarrow> push_consumer" where
  "set_endpoints env now eps opts c =
     (let fresh = configured_slots env eps;
          h = length (pu_heap c);
          addrs = [h..<h + length fresh];
          current = pu_targets c;
          (heap, slots) =
            (case tt_runtime current of
               None \<Rightarrow> (pu_heap c @ fresh, addrs)
             | Some r \<Rightarrow>
                 if tt_slots current = [] then (pu_heap c @ fresh, addrs)
                 else if po_breaker (tt_opts current) = po_breaker opts \<and>
                   po_runtime_timeout (tt_opts current) = po_runtime_timeout opts
                 then (pu_heap c @ fresh, addrs @ [last (tt_slots current)])
                 else (pu_heap c @ fresh @ [runtime_slot env now r opts], addrs @ [h + length fresh]))
      in notify_changed (c\<lparr>pu_heap := heap,
           pu_targets := \<lparr>tt_slots = slots, tt_runtime = tt_runtime current, tt_opts = opts,
             tt_source_headers = source_headers env (po_source_names opts)\<rparr>\<rparr>))"

definition set_options :: "push_env \<Rightarrow> push_options \<Rightarrow> push_consumer \<Rightarrow> push_consumer" where
  "set_options env opts c =
     notify_changed (c\<lparr>pu_targets := (pu_targets c)\<lparr>tt_opts := opts,
       tt_source_headers := source_headers env (po_source_names opts)\<rparr>\<rparr>)"

definition set_runtime_endpoint ::
  "push_env \<Rightarrow> instant \<Rightarrow> runtime_endpoint option \<Rightarrow> push_consumer \<Rightarrow> push_consumer" where
  "set_runtime_endpoint env now e c =
     (let current = pu_targets c;
          (heap, slots) =
            (case e of
               None \<Rightarrow> (pu_heap c, configured current)
             | Some r \<Rightarrow> (pu_heap c @ [runtime_slot env now r (tt_opts current)],
                          configured current @ [length (pu_heap c)]))
      in notify_changed (c\<lparr>pu_heap := heap,
           pu_targets := current\<lparr>tt_slots := slots, tt_runtime := e\<rparr>\<rparr>))"

definition runtime_endpoint_owner :: "push_consumer \<Rightarrow> (source_id \<times> nat) option" where
  "runtime_endpoint_owner c =
     map_option (\<lambda>r. (re_source r, re_token_fingerprint r)) (tt_runtime (pu_targets c))"

definition has_runtime_endpoint :: "runtime_endpoint \<Rightarrow> push_consumer \<Rightarrow> bool" where
  "has_runtime_endpoint e c =
     (case tt_runtime (pu_targets c) of None \<Rightarrow> False | Some current \<Rightarrow> re_same current e)"

definition push_pending :: "push_consumer \<Rightarrow> nat" where
  "push_pending c = st_available (stats (pu_queue c)) + st_leased (stats (pu_queue c))"

definition push_begin_drain :: "push_consumer \<Rightarrow> push_consumer" where
  "push_begin_drain c = c\<lparr>pu_draining := True\<rparr>"

definition push_end_drain :: "push_consumer \<Rightarrow> push_consumer" where
  "push_end_drain c = c\<lparr>pu_draining := False\<rparr>"

definition push_publish_gauges :: "bool \<Rightarrow> push_consumer \<Rightarrow> push_consumer" where
  "push_publish_gauges on c = c\<lparr>pu_gauges := on\<rparr>"

definition push_pause :: "push_consumer \<Rightarrow> push_consumer" where
  "push_pause c = c\<lparr>pu_paused := True\<rparr>"

definition push_resume :: "push_consumer \<Rightarrow> push_consumer" where
  "push_resume c = notify_changed (c\<lparr>pu_paused := False\<rparr>)"

definition push_endpoints :: "push_consumer \<Rightarrow> (string \<times> breaker_state \<times> bool) list" where
  "push_endpoints c =
     map (\<lambda>a. let slot = pu_heap c ! a in (ps_origin slot, state_of (ps_breaker slot), ps_runtime slot))
       (tt_slots (pu_targets c))"

definition push_update_depth :: "push_consumer \<Rightarrow> push_consumer" where
  "push_update_depth c =
     (if pu_gauges c
      then c\<lparr>pu_depth := (gauge (st_available (stats (pu_queue c))), gauge (st_leased (stats (pu_queue c))),
                          gauge (pu_in_flight c))\<rparr>
      else c)"

end
