(* ===== verification/Push_Delivery.thy ===== *)
theory Push_Delivery
  imports Push_Consumer
begin

text \<open>
  Deliveries and the dispatcher of the push consumer: \<open>Sending\<close>, \<open>Held\<close>, \<open>pick\<close>, \<open>choose\<close>,
  \<open>send\<close>, \<open>reply\<close>, \<open>deliver\<close> and \<open>dispatch\<close> of \<open>consumer/push.rs\<close>, each cut at its awaits, and
  the step relation in which they interleave with everything else that touches the consumer.
\<close>

section \<open>Claims on endpoints and leases\<close>

record sending =
  sd_targets :: targets
  sd_index :: nat

definition slot_addr :: "targets \<Rightarrow> nat \<Rightarrow> nat" where
  "slot_addr tt i = tt_slots tt ! i"

definition sd_addr :: "sending \<Rightarrow> nat" where
  "sd_addr s = slot_addr (sd_targets s) (sd_index s)"

definition upd_heap :: "nat \<Rightarrow> (push_slot \<Rightarrow> push_slot) \<Rightarrow> push_consumer \<Rightarrow> push_consumer" where
  "upd_heap a f c = c\<lparr>pu_heap := (pu_heap c)[a := f (pu_heap c ! a)]\<rparr>"

definition report :: "bool \<Rightarrow> instant \<Rightarrow> sending \<Rightarrow> push_consumer \<Rightarrow> push_consumer" where
  "report up now s c =
     upd_heap (sd_addr s)
       (\<lambda>slot. slot\<lparr>ps_breaker := (if up then on_success (ps_breaker slot) else on_failure now (ps_breaker slot))\<rparr>) c"

definition drop_sending :: "bool \<Rightarrow> instant \<Rightarrow> sending \<Rightarrow> push_consumer \<Rightarrow> push_consumer" where
  "drop_sending reported now s c =
     notify_changed (upd_heap (sd_addr s)
       (\<lambda>slot. slot\<lparr>ps_in_flight := ps_in_flight slot - 1,
          ps_breaker := (if \<not> reported \<and> state_of (ps_breaker slot) = HalfOpen
                         then on_failure now (ps_breaker slot) else ps_breaker slot)\<rparr>) c)"

definition held_new :: "push_consumer \<Rightarrow> push_consumer" where
  "held_new c = c\<lparr>pu_in_flight := pu_in_flight c + 1\<rparr>"

definition held_drop :: "bool \<Rightarrow> nat \<Rightarrow> push_consumer \<Rightarrow> push_consumer" where
  "held_drop acked seq c =
     (let c = (if acked then c else c\<lparr>pu_queue := snd (release_seq HOLDER seq (pu_queue c))\<rparr>)
      in push_update_depth (c\<lparr>pu_in_flight := pu_in_flight c - 1\<rparr>))"

definition held_ack :: "nat \<Rightarrow> push_consumer \<Rightarrow> push_consumer" where
  "held_ack seq c = held_drop True seq (c\<lparr>pu_queue := snd (ack_seq HOLDER seq (pu_queue c))\<rparr>)"

section \<open>Choosing an endpoint\<close>

fun scan_slots :: "instant \<Rightarrow> (nat \<times> push_slot) list \<Rightarrow> nat list \<Rightarrow> duration option \<Rightarrow> nat list \<times> duration option" where
  "scan_slots now [] healthy wait = (healthy, wait)"
| "scan_slots now ((i, slot) # rest) healthy wait =
     (case ready_in now (ps_breaker slot) of
        None \<Rightarrow> scan_slots now rest healthy wait
      | Some left \<Rightarrow>
          if left = 0 then scan_slots now rest (healthy @ [i]) wait
          else scan_slots now rest healthy (Some (case wait of None \<Rightarrow> left | Some w \<Rightarrow> min w left)))"

definition min_by_key :: "('a \<Rightarrow> nat) \<Rightarrow> 'a list \<Rightarrow> 'a" where
  "min_by_key f xs = fold (\<lambda>y x. if f y < f x then y else x) (tl xs) (hd xs)"

definition balance_index :: "targets \<Rightarrow> nat option \<Rightarrow> nat list \<Rightarrow> push_consumer \<Rightarrow> nat \<times> push_consumer" where
  "balance_index tt key healthy c =
     (case (po_balance (tt_opts tt), key) of
        (BHashChat, Some k) \<Rightarrow> (healthy ! (k mod length healthy), c)
      | (BLeastInFlight, _) \<Rightarrow> (min_by_key (\<lambda>i. ps_in_flight (pu_heap c ! slot_addr tt i)) healthy, c)
      | (_, _) \<Rightarrow> (healthy ! (pu_cursor c mod length healthy), c\<lparr>pu_cursor := wrap_add64 (pu_cursor c) 1\<rparr>))"

definition slots_of :: "targets \<Rightarrow> push_consumer \<Rightarrow> (nat \<times> push_slot) list" where
  "slots_of tt c = enumerate 0 (map (\<lambda>a. pu_heap c ! a) (tt_slots tt))"

partial_function (option) pick ::
  "targets \<Rightarrow> nat option \<Rightarrow> instant \<Rightarrow> push_consumer \<Rightarrow> ((duration option + nat) \<times> push_consumer) option" where
  "pick tt key now c =
     (case scan_slots now (slots_of tt c) [] None of
        (healthy, wait) \<Rightarrow>
          if healthy = [] then Some (Inl wait, c)
          else
            (case balance_index tt key healthy c of
               (index, c) \<Rightarrow>
                 (case allow now (ps_breaker (pu_heap c ! slot_addr tt index)) of
                    (allowed, b) \<Rightarrow>
                      (let c = upd_heap (slot_addr tt index) (\<lambda>slot. slot\<lparr>ps_breaker := b\<rparr>) c
                       in if allowed
                          then Some (Inr index,
                            upd_heap (slot_addr tt index) (\<lambda>slot. slot\<lparr>ps_in_flight := ps_in_flight slot + 1\<rparr>) c)
                          else pick tt key now c))))"

declare pick.simps [code]

datatype choice = Send sending | Expired | Cancelled | NoEndpoint | Await nat "instant option"

definition choose_round ::
  "instant \<Rightarrow> bool \<Rightarrow> envelope \<Rightarrow> push_consumer \<Rightarrow> (choice \<times> push_consumer) option" where
  "choose_round now cancelled e c =
     (let tt = pu_targets c; n = pu_changed c;
          deadline = inst_checked_add (en_received_at e) (rt_max_age (po_retry (tt_opts tt)))
      in if cancelled then Some (Cancelled, c)
         else if tt_slots tt = [] then Some (NoEndpoint, c)
         else if (case deadline of None \<Rightarrow> False | Some d \<Rightarrow> now \<ge> d) then Some (Expired, c)
         else
           (case pick tt (en_key e) now c of
              None \<Rightarrow> None
            | Some (Inr index, c) \<Rightarrow> Some (Send \<lparr>sd_targets = tt, sd_index = index\<rparr>, c)
            | Some (Inl wait, c) \<Rightarrow>
                (let reopen = Option.bind wait (inst_checked_add now);
                     til = (case (reopen, deadline) of
                              (Some r, Some d) \<Rightarrow> Some (min r d)
                            | (Some r, None) \<Rightarrow> Some r
                            | (None, d) \<Rightarrow> d)
                 in Some (Await n til, c))))"

section \<open>Sending\<close>

datatype failure = Transient cause "duration option" | Permanent cause

text \<open>
  What a request came to. Of the response: the status, the header values that are strings
  (\<open>HeaderValue::to_str\<close>), and the frames of the body, \<open>None\<close> where one failed to arrive.
\<close>

record http_response =
  hr_status :: nat
  hr_via :: "string list"
  hr_retry_after :: "string option"
  hr_content_type :: "bytes option"
  hr_content_length :: "nat option"
  hr_chunks :: "bytes option list"

datatype answer = Response http_response | BuilderError string | TransportError string

definition is_ws :: "char \<Rightarrow> bool" where
  "is_ws ch \<longleftrightarrow> ch \<in> {CHR 0x20, CHR 0x09, CHR 0x0A, CHR 0x0B, CHR 0x0C, CHR 0x0D}"

definition str_trim :: "string \<Rightarrow> string" where
  "str_trim s = rev (dropWhile is_ws (rev (dropWhile is_ws s)))"

definition split_whitespace :: "string \<Rightarrow> string list" where
  "split_whitespace s =
     filter (\<lambda>w. w \<noteq> []) (split_on (CHR 0x20) (map (\<lambda>ch. if is_ws ch then CHR 0x20 else ch) s))"

definition seen_in :: "string \<Rightarrow> string list \<Rightarrow> bool" where
  "seen_in pseudonym via =
     list_ex (\<lambda>element. let ws = split_whitespace element in 1 < length ws \<and> ws ! 1 = pseudonym)
       (concat (map (split_on (CHR '','')) via))"

definition digit_val :: "char \<Rightarrow> nat" where
  "digit_val ch = of_char ch - 48"

definition parse_u64 :: "string \<Rightarrow> nat option" where
  "parse_u64 s =
     (let ds = (case s of ch # rest \<Rightarrow> if ch = CHR ''+'' then rest else s | [] \<Rightarrow> []);
          n = fold (\<lambda>ch n. n * 10 + digit_val ch) ds 0
      in if ds \<noteq> [] \<and> list_all is_ascii_digit ds \<and> n \<le> U64_MAX then Some n else None)"

definition retry_after_of :: "http_response \<Rightarrow> duration option" where
  "retry_after_of r =
     map_option (\<lambda>secs. secs * NANOS_PER_SEC) (Option.bind (hr_retry_after r) (\<lambda>v. parse_u64 (str_trim v)))"

fun read_chunks :: "bytes option list \<Rightarrow> collected \<Rightarrow> bool + collected" where
  "read_chunks [] b = Inr b"
| "read_chunks (None # _) b = Inl False"
| "read_chunks (Some chunk # rest) b =
     (if sat_add64 (co_len b) (length chunk) > MAX_REPLY_BYTES then Inl True
      else read_chunks rest (collected_push chunk b))"

text \<open>\<open>Inl True\<close>: the reply is too large; \<open>Inl False\<close>: there is none, or it did not arrive.\<close>

definition read_reply :: "sending \<Rightarrow> push_consumer \<Rightarrow> http_response \<Rightarrow> bool + reply" where
  "read_reply s c r =
     (case hr_content_type r of
        None \<Rightarrow> Inl False
      | Some content_type \<Rightarrow>
          if \<not> carries_parameters content_type then Inl False
          else if hr_content_length r = Some 0 then Inl False
          else if (case hr_content_length r of None \<Rightarrow> False | Some n \<Rightarrow> n > MAX_REPLY_BYTES) then Inl True
          else
            (case read_chunks (hr_chunks r) collected_default of
               Inl too_large \<Rightarrow> Inl too_large
             | Inr b \<Rightarrow>
                 (let body = collected_bytes b;
                      bound = (case tt_runtime (sd_targets s) of
                                 None \<Rightarrow> None
                               | Some re \<Rightarrow>
                                   if ps_runtime (pu_heap c ! sd_addr s)
                                   then Some \<lparr>bd_source = re_source re, bd_token_fingerprint = re_token_fingerprint re\<rparr>
                                   else None)
                  in if body \<noteq> []
                     then Inr \<lparr>rp_content_type = content_type, rp_body = body, rp_bound_to = bound\<rparr>
                     else Inl False)))"

definition classify :: "string \<Rightarrow> answer \<Rightarrow> failure option" where
  "classify via ans =
     (case ans of
        Response r \<Rightarrow>
          (let st = hr_status r in
           if 200 \<le> st \<and> st < 300 then None
           else if st = 508 \<and> seen_in via (hr_via r) then Some (Permanent (CStatus st))
           else if st = 408 \<or> st = 429 \<or> (500 \<le> st \<and> st < 600) then Some (Transient (CStatus st) (retry_after_of r))
           else Some (Permanent (CStatus st)))
      | BuilderError err \<Rightarrow> Some (Permanent (CError err))
      | TransportError err \<Rightarrow> Some (Transient (CError err) None))"

text \<open>The result of \<open>send\<close> once the answer is there, with the executor told of a reply too large.\<close>

definition send_result ::
  "sending \<Rightarrow> envelope \<Rightarrow> answer \<Rightarrow> push_consumer \<Rightarrow> (failure + reply option) \<times> push_consumer" where
  "send_result s e ans c =
     (case classify (pu_via c) ans of
        Some f \<Rightarrow> (Inl f, c)
      | None \<Rightarrow>
          (case ans of
             Response r \<Rightarrow>
               if \<not> executor c (tt_opts (sd_targets s)) then (Inr None, c)
               else
                 (case read_reply s c r of
                    Inr rep \<Rightarrow> (Inr (Some rep), c)
                  | Inl too_large \<Rightarrow>
                      (Inr None, if too_large then c\<lparr>pu_too_large := pu_too_large c @ [en_source e]\<rparr> else c))
           | _ \<Rightarrow> (Inr None, c)))"

definition permanent_reason :: "cause \<Rightarrow> string" where
  "permanent_reason ca =
     (case ca of CStatus st \<Rightarrow> if 300 \<le> st \<and> st < 400 then ''redirect'' else ''rejected'' | _ \<Rightarrow> ''rejected'')"

text \<open>The request of an attempt; \<open>None\<close>: the secret cannot be sent, so nothing is.\<close>

definition request_of :: "push_env \<Rightarrow> sending \<Rightarrow> envelope \<Rightarrow> nat \<Rightarrow> push_consumer \<Rightarrow> push_request option" where
  "request_of env s e att c =
     (let slot = pu_heap c ! sd_addr s; names = tt_source_headers (sd_targets s);
          rq = (\<lambda>secret. \<lparr>rq_url = ps_url slot, rq_timeout = ps_timeout slot, rq_attempt = att, rq_secret = secret,
                  rq_source = (if en_source e < length names then names ! en_source e else None),
                  rq_update_type = (if pe_header_ok env (en_update_type e) then Some (en_update_type e) else None),
                  rq_via = pu_via c, rq_body = en_payload e\<rparr>)
      in case ps_secret slot of
           SecretNone \<Rightarrow> Some (rq None)
         | SecretValid v \<Rightarrow> Some (rq (Some v))
         | SecretInvalid \<Rightarrow> None)"

section \<open>Delivering\<close>

datatype stage = Choosing | AwaitChoice nat "instant option" | OnWire sending | Executing sending
  | BackingOff "instant option"

record delivery =
  d_seq :: nat
  d_env :: envelope
  d_attempt :: nat
  d_backoff :: "backoff option"
  d_last :: "(nat \<times> cause) option"
  d_stage :: stage

definition delivery_new :: "envelope lease \<Rightarrow> delivery" where
  "delivery_new l =
     \<lparr>d_seq = l_seq l, d_env = l_item l, d_attempt = 0, d_backoff = None, d_last = None, d_stage = Choosing\<rparr>"

definition count_attempt :: "sending \<Rightarrow> delivery_outcome \<Rightarrow> push_consumer \<Rightarrow> push_consumer" where
  "count_attempt s out c = c\<lparr>pu_attempts := pu_attempts c @ [(ps_label (pu_heap c ! sd_addr s), out)]\<rparr>"

definition push_dead_letter ::
  "nat \<Rightarrow> envelope \<Rightarrow> nat option \<Rightarrow> cause \<Rightarrow> string \<Rightarrow> push_consumer \<Rightarrow> push_consumer" where
  "push_dead_letter seq e ep ca reason c =
     (let c = held_ack seq c
      in c\<lparr>pu_letters := pu_letters c @ [\<lparr>dl_envelope = e, dl_endpoint = ep, dl_cause = ca, dl_reason = reason\<rparr>]\<rparr>)"

text \<open>The reply has run, or there was none: the update is acked.\<close>

definition delivered :: "delivery \<Rightarrow> sending \<Rightarrow> push_consumer \<Rightarrow> push_consumer" where
  "delivered d s c = count_attempt s Delivered (held_ack (d_seq d) c)"

definition too_old :: "retry_policy \<Rightarrow> envelope \<Rightarrow> instant \<Rightarrow> duration \<Rightarrow> bool" where
  "too_old rt e now delay =
     (case (inst_checked_add (en_received_at e) (rt_max_age rt), inst_checked_add now delay) of
        (Some deadline, Some retry_at) \<Rightarrow> retry_at \<ge> deadline
      | (None, _) \<Rightarrow> False
      | (Some _, None) \<Rightarrow> True)"

text \<open>What follows the result of an attempt; no delivery left means that it returned.\<close>

definition settle ::
  "(nat \<Rightarrow> nat) \<Rightarrow> instant \<Rightarrow> delivery \<Rightarrow> sending \<Rightarrow> failure + reply option \<Rightarrow> push_consumer \<Rightarrow>
     delivery option \<times> push_consumer" where
  "settle draw now d s result c =
     (case result of
        Inr rep \<Rightarrow>
          (let c = report True now s c;
               c = c\<lparr>pu_latencies := pu_latencies c @ [inst_since now (en_received_at (d_env d))]\<rparr>;
               c = drop_sending True now s c
           in case rep of
                Some r \<Rightarrow>
                  if executor c (tt_opts (sd_targets s))
                  then (Some (d\<lparr>d_stage := Executing s\<rparr>), c\<lparr>pu_calls := pu_calls c @ [(en_source (d_env d), r)]\<rparr>)
                  else (None, delivered d s c)
              | None \<Rightarrow> (None, delivered d s c))
      | Inl (Permanent ca) \<Rightarrow>
          (let c = count_attempt s DeadLettered (report True now s c);
               c = push_dead_letter (d_seq d) (d_env d) (Some (sd_index s)) ca (permanent_reason ca) c
           in (None, drop_sending True now s c))
      | Inl (Transient ca ra) \<Rightarrow>
          (let c = report False now s c;
               rt = po_retry (tt_opts (sd_targets s));
               bo = (case d_backoff d of Some bo \<Rightarrow> bo | None \<Rightarrow> backoff_new (rt_initial rt) (rt_max rt) 0);
               (computed, bo) = next_delay draw bo;
               delay = honor_retry_after computed ra (rt_max rt);
               exhausted = (d_attempt d \<ge> rt_max_attempts rt)
           in if exhausted \<or> too_old rt (d_env d) now delay
              then (let c = count_attempt s DeadLettered c;
                        c = push_dead_letter (d_seq d) (d_env d) (Some (sd_index s)) ca
                              (if exhausted then ''max_attempts'' else ''max_age'') c
                    in (None, drop_sending True now s c))
              else (Some (d\<lparr>d_backoff := Some bo, d_last := Some (sd_index s, ca),
                           d_stage := BackingOff (inst_checked_add now delay)\<rparr>),
                    drop_sending True now s (count_attempt s Retried c))))"

text \<open>From the top of the loop to the first await.\<close>

definition deliver_round ::
  "push_env \<Rightarrow> (nat \<Rightarrow> nat) \<Rightarrow> instant \<Rightarrow> bool \<Rightarrow> delivery \<Rightarrow> push_consumer \<Rightarrow>
     (delivery option \<times> push_consumer) option" where
  "deliver_round env draw now cancelled d c =
     (case choose_round now cancelled (d_env d) c of
        None \<Rightarrow> None
      | Some (ch, c) \<Rightarrow> Some
          (case ch of
             Cancelled \<Rightarrow> (None, held_drop False (d_seq d) c)
           | NoEndpoint \<Rightarrow> (None, held_drop False (d_seq d) c)
           | Expired \<Rightarrow>
               (None, push_dead_letter (d_seq d) (d_env d) (map_option fst (d_last d))
                  (case d_last d of None \<Rightarrow> CExpired | Some (_, ca) \<Rightarrow> ca) ''max_age'' c)
           | Await n til \<Rightarrow> (Some (d\<lparr>d_stage := AwaitChoice n til\<rparr>), c)
           | Send s \<Rightarrow>
               (let d = d\<lparr>d_attempt := min (d_attempt d + 1) U32_MAX\<rparr>
                in case request_of env s (d_env d) (d_attempt d) c of
                     None \<Rightarrow> settle draw now d s (Inl (Permanent CInvalidSecret)) c
                   | Some rq \<Rightarrow> (Some (d\<lparr>d_stage := OnWire s\<rparr>), c\<lparr>pu_wire := pu_wire c @ [rq]\<rparr>))))"

definition deliver_answer ::
  "(nat \<Rightarrow> nat) \<Rightarrow> instant \<Rightarrow> answer \<Rightarrow> delivery \<Rightarrow> sending \<Rightarrow> push_consumer \<Rightarrow> delivery option \<times> push_consumer" where
  "deliver_answer draw now ans d s c =
     (case send_result s (d_env d) ans c of (result, c) \<Rightarrow> settle draw now d s result c)"

text \<open>Dropping a delivery wherever it is: its request is aborted and its lease returned.\<close>

definition drop_delivery :: "instant \<Rightarrow> delivery \<Rightarrow> push_consumer \<Rightarrow> push_consumer" where
  "drop_delivery now d c =
     held_drop False (d_seq d) (case d_stage d of OnWire s \<Rightarrow> drop_sending False now s c | _ \<Rightarrow> c)"

section \<open>Dispatching\<close>

datatype dispatcher = Rounding | DWaiting nat nat bool | DStopped

definition dispatch_round ::
  "bool \<Rightarrow> instant \<Rightarrow> delivery list \<Rightarrow> push_consumer \<Rightarrow> dispatcher \<times> delivery list \<times> push_consumer" where
  "dispatch_round cancelled now ds c =
     (let waiting = DWaiting (lq_notify (pu_queue c)) (pu_changed c) cancelled; tt = pu_targets c;
          room = po_max_in_flight (tt_opts tt) - length ds
      in if cancelled then (if ds = [] then DStopped else waiting, ds, c)
         else if pu_paused c then (waiting, ds, c)
         else if room > 0 \<and> tt_slots tt \<noteq> []
         then (case lease HOLDER room now (pu_queue c) of
                 (ls, Q) \<Rightarrow>
                   (let c = c\<lparr>pu_queue := Q\<rparr>
                    in if ls = [] then (waiting, ds, c)
                       else (waiting, ds @ map delivery_new ls,
                             push_update_depth (fold (\<lambda>_. held_new) ls c))))
         else (waiting, ds, c))"

text \<open>
  What others do to the consumer: operations on its queue that do not act for the holder
  \<open>push\<close> and do not expire leases, new endpoints with closed breakers, new options, and the
  switches.
\<close>

definition foreign_op :: "envelope qop \<Rightarrow> bool" where
  "foreign_op op =
     (case op of
        Lease h _ _ \<Rightarrow> h \<noteq> HOLDER | Held h _ _ \<Rightarrow> h \<noteq> HOLDER | AckBelow h _ \<Rightarrow> h \<noteq> HOLDER
      | AckAll h \<Rightarrow> h \<noteq> HOLDER | AckSeq h _ \<Rightarrow> h \<noteq> HOLDER | ReleaseSeq h _ \<Rightarrow> h \<noteq> HOLDER
      | Expire _ \<Rightarrow> False | _ \<Rightarrow> True)"

inductive push_others :: "push_env \<Rightarrow> push_consumer \<Rightarrow> push_consumer \<Rightarrow> bool" for env :: push_env where
  push_queue: "foreign_op op \<Longrightarrow> queue_step op (pu_queue c, ps) (Q, ps') \<Longrightarrow> push_others env c (c\<lparr>pu_queue := Q\<rparr>)"
| push_endpoints: "\<forall>e \<in> set eps. state_of (ep_breaker e) = Breaker.Closed \<Longrightarrow>
    push_others env c (set_endpoints env now eps opts c)"
| push_options: "push_others env c (set_options env opts c)"
| push_runtime: "push_others env c (set_runtime_endpoint env now e c)"
| push_executor: "push_others env c (c\<lparr>pu_executors := insert handle (pu_executors c)\<rparr>)"
| push_begins: "push_others env c (push_begin_drain c)"
| push_ends: "push_others env c (push_end_drain c)"
| push_gauges: "push_others env c (push_publish_gauges on c)"
| push_depth: "push_others env c (push_update_depth c)"
| push_pauses: "push_others env c (push_pause c)"
| push_resumes: "push_others env c (push_resume c)"

record push_conf =
  cf_consumer :: push_consumer
  cf_deliveries :: "delivery list"
  cf_dispatcher :: dispatcher
  cf_cancelled :: bool
  cf_now :: instant

definition replace_at :: "nat \<Rightarrow> 'a option \<Rightarrow> 'a list \<Rightarrow> 'a list" where
  "replace_at i x xs = take i xs @ (case x of None \<Rightarrow> [] | Some y \<Rightarrow> [y]) @ drop (Suc i) xs"

text \<open>
  One segment of the delivery \<open>d\<close>: what it does from the await it is at to the next one. A
  cancelled delivery leaves its waits; a sleep ends no earlier than its time.
\<close>

inductive segment ::
  "push_env \<Rightarrow> instant \<Rightarrow> bool \<Rightarrow> delivery \<Rightarrow> push_consumer \<Rightarrow> delivery option \<Rightarrow> push_consumer \<Rightarrow> bool"
  for env :: push_env and now :: instant and cancelled :: bool and d :: delivery and c :: push_consumer where
  seg_start: "d_stage d = Choosing \<Longrightarrow> deliver_round env draw now cancelled d c = Some (r, c') \<Longrightarrow>
    segment env now cancelled d c r c'"
| seg_wait: "d_stage d = AwaitChoice n til \<Longrightarrow>
    pu_changed c \<noteq> n \<or> (\<exists>u. til = Some u \<and> u \<le> now) \<Longrightarrow>
    deliver_round env draw now cancelled d c = Some (r, c') \<Longrightarrow> segment env now cancelled d c r c'"
| seg_wait_cancelled: "d_stage d = AwaitChoice n til \<Longrightarrow> cancelled \<Longrightarrow>
    segment env now cancelled d c None (held_drop False (d_seq d) c)"
| seg_answer: "d_stage d = OnWire s \<Longrightarrow> deliver_answer draw now ans d s c = (r, c') \<Longrightarrow>
    segment env now cancelled d c r c'"
| seg_executed: "d_stage d = Executing s \<Longrightarrow> segment env now cancelled d c None (delivered d s c)"
| seg_slept: "d_stage d = BackingOff til \<Longrightarrow> (\<And>u. til = Some u \<Longrightarrow> u \<le> now) \<Longrightarrow> \<not> cancelled \<Longrightarrow>
    deliver_round env draw now cancelled d c = Some (r, c') \<Longrightarrow> segment env now cancelled d c r c'"
| seg_sleep_cancelled: "d_stage d = BackingOff til \<Longrightarrow> cancelled \<Longrightarrow>
    segment env now cancelled d c None (held_drop False (d_seq d) c)"

inductive push_step :: "push_env \<Rightarrow> push_conf \<Rightarrow> push_conf \<Rightarrow> bool" for env :: push_env where
  st_others: "push_others env (cf_consumer k) c \<Longrightarrow> push_step env k (k\<lparr>cf_consumer := c\<rparr>)"
| st_time: "cf_now k \<le> t \<Longrightarrow> push_step env k (k\<lparr>cf_now := t\<rparr>)"
| st_cancel: "push_step env k (k\<lparr>cf_cancelled := True\<rparr>)"
| st_round: "cf_dispatcher k = Rounding \<Longrightarrow>
    dispatch_round (cf_cancelled k) (cf_now k) (cf_deliveries k) (cf_consumer k) = (dp, ds, c) \<Longrightarrow>
    push_step env k (k\<lparr>cf_dispatcher := dp, cf_deliveries := ds, cf_consumer := c\<rparr>)"
| st_wake: "cf_dispatcher k = DWaiting n m False \<Longrightarrow>
    lq_notify (pu_queue (cf_consumer k)) \<noteq> n \<or> pu_changed (cf_consumer k) \<noteq> m \<or> cf_cancelled k \<Longrightarrow>
    push_step env k (k\<lparr>cf_dispatcher := Rounding\<rparr>)"
| st_segment: "cf_dispatcher k = DWaiting n m stopping \<Longrightarrow> i < length (cf_deliveries k) \<Longrightarrow>
    segment env (cf_now k) (cf_cancelled k) (cf_deliveries k ! i) (cf_consumer k) r c \<Longrightarrow>
    push_step env k (k\<lparr>cf_deliveries := replace_at i r (cf_deliveries k), cf_consumer := c,
      cf_dispatcher := (if r = None then Rounding else DWaiting n m stopping)\<rparr>)"
| st_force: "cf_dispatcher k = DWaiting n m stopping \<Longrightarrow>
    push_step env k (k\<lparr>cf_deliveries := [], cf_dispatcher := DStopped,
      cf_consumer := fold (drop_delivery (cf_now k)) (cf_deliveries k) (cf_consumer k)\<rparr>)"
| st_respawn: "cf_dispatcher k = DStopped \<Longrightarrow>
    push_step env k (k\<lparr>cf_dispatcher := Rounding, cf_cancelled := False\<rparr>)"

definition push_started :: "push_env \<Rightarrow> push_consumer \<Rightarrow> instant \<Rightarrow> push_conf" where
  "push_started env c t =
     \<lparr>cf_consumer = c, cf_deliveries = [], cf_dispatcher = Rounding, cf_cancelled = False, cf_now = t\<rparr>"

inductive push_reach :: "push_env \<Rightarrow> push_conf \<Rightarrow> bool" for env :: push_env where
  push_start: "\<forall>e \<in> set eps. state_of (ep_breaker e) = Breaker.Closed \<Longrightarrow>
    push_reach env (push_started env (push_new env name qid cfg eps opts via) t)"
| push_next: "push_reach env k \<Longrightarrow> push_step env k k' \<Longrightarrow> push_reach env k'"

end
