(* ===== verification/Push_Pick.thy ===== *)
theory Push_Pick
  imports Push_Delivery
begin

text \<open>
  \<open>PushConsumer::pick\<close>: that its loop ends, which endpoint it takes, and what it reports
  when none is ready.
\<close>

section \<open>Looking at the breakers\<close>

lemma scan_slots_healthy:
  "fst (scan_slots now xs healthy wait) =
     healthy @ map fst (filter (\<lambda>(i, slot). ready_in now (ps_breaker slot) = Some 0) xs)"
  by (induction xs arbitrary: healthy wait) (auto split: option.splits)

lemma set_first_insert_min:
  "finite S \<Longrightarrow> set_first (insert w (insert x S)) = set_first (insert (min w x) (S :: nat set))"
  by (cases "S = {}") (auto simp: set_first_def min.assoc)

definition waits :: "instant \<Rightarrow> (nat \<times> push_slot) list \<Rightarrow> duration set" where
  "waits now xs = {left. left \<noteq> 0 \<and> Some left \<in> (\<lambda>(i, slot). ready_in now (ps_breaker slot)) ` set xs}"

lemma waits_simps [simp]:
  "waits now [] = {}"
  "waits now ((i, slot) # xs) = (case ready_in now (ps_breaker slot) of
     None \<Rightarrow> waits now xs | Some left \<Rightarrow> if left = 0 then waits now xs else insert left (waits now xs))"
  by (auto simp: waits_def split: option.splits)

lemma finite_waits [simp]: "finite (waits now xs)"
  by (induction xs) (auto split: option.splits)

lemma scan_slots_wait:
  "snd (scan_slots now xs healthy wait) = set_first (set_option wait \<union> waits now xs)"
proof (induction xs arbitrary: healthy wait)
  case Nil
  show ?case by (cases wait) (auto simp: set_first_def)
next
  case (Cons x xs)
  obtain i slot where x: "x = (i, slot)" by fastforce
  show ?case
    by (cases wait)
      (auto simp: x Cons.IH set_first_insert_min split: option.splits)
qed

lemma slots_of_nth: "map fst (slots_of tt c) = [0..<length (tt_slots tt)]"
  "(i, slot) \<in> set (slots_of tt c) \<longleftrightarrow> i < length (tt_slots tt) \<and> slot = pu_heap c ! slot_addr tt i"
  by (auto simp: slots_of_def slot_addr_def in_set_enumerate_eq)

definition ready_at :: "targets \<Rightarrow> instant \<Rightarrow> push_consumer \<Rightarrow> nat list" where
  "ready_at tt now c =
     filter (\<lambda>i. ready_in now (ps_breaker (pu_heap c ! slot_addr tt i)) = Some 0) [0..<length (tt_slots tt)]"

definition least_wait :: "targets \<Rightarrow> instant \<Rightarrow> push_consumer \<Rightarrow> duration option" where
  "least_wait tt now c =
     set_first {left. list_ex (\<lambda>i. ready_in now (ps_breaker (pu_heap c ! slot_addr tt i)) = Some left)
                        [0..<length (tt_slots tt)]}"

lemma filter_slots_of:
  "map fst (filter (\<lambda>(i, slot). P slot) (slots_of tt c)) =
     filter (\<lambda>i. P (pu_heap c ! slot_addr tt i)) [0..<length (tt_slots tt)]"
proof -
  have "slots_of tt c = map (\<lambda>i. (i, pu_heap c ! slot_addr tt i)) [0..<length (tt_slots tt)]"
    by (rule nth_equalityI) (auto simp: slots_of_def slot_addr_def nth_enumerate_eq)
  then show ?thesis by (simp add: filter_map comp_def)
qed

lemma scan_slots_of:
  "scan_slots now (slots_of tt c) [] None = (ready_at tt now c, set_first (waits now (slots_of tt c)))"
  by (rule prod_eqI) (simp_all add: scan_slots_healthy scan_slots_wait filter_slots_of ready_at_def)

section \<open>Taking one\<close>

lemma fold_min_spec:
  "fold (\<lambda>y x. if f y < f x then y else x) ys x \<in> set (x # ys) \<and>
   (\<forall>y \<in> set (x # ys). f (fold (\<lambda>y x. if f y < f x then y else x) ys x) \<le> (f y :: nat))"
proof (induction ys arbitrary: x)
  case (Cons y ys)
  show ?case using Cons.IH [of x] Cons.IH [of y] by (auto intro: order_trans less_imp_le)
qed simp

lemma min_by_key_spec:
  assumes "xs \<noteq> []"
  shows "min_by_key f xs \<in> set xs" and "x \<in> set xs \<Longrightarrow> f (min_by_key f xs) \<le> f x"
  using fold_min_spec [of f "tl xs" "hd xs"] unfolding min_by_key_def list.collapse [OF assms] by blast+

lemma balance_index_spec:
  assumes "healthy \<noteq> []" and "balance_index tt key healthy c = (i, c')"
  shows "i \<in> set healthy" and "c' = c\<lparr>pu_cursor := pu_cursor c'\<rparr>"
proof -
  have m: "healthy ! (n mod length healthy) \<in> set healthy" for n using assms(1) by simp
  from assms show "i \<in> set healthy"
    by (auto simp: balance_index_def m min_by_key_spec split: balance.splits option.splits)
  from assms(2) show "c' = c\<lparr>pu_cursor := pu_cursor c'\<rparr>"
    by (auto simp: balance_index_def split: balance.splits option.splits)
qed

text \<open>A breaker that is ready admits the request.\<close>

lemma ready_allowed: "ready_in now b = Some 0 \<Longrightarrow> fst (allow now b)"
  by (auto simp: ready_in_def allow_def cas_def Let_def split: if_splits)

definition taken :: "instant \<Rightarrow> push_slot \<Rightarrow> push_slot" where
  "taken now slot = slot\<lparr>ps_breaker := snd (allow now (ps_breaker slot)), ps_in_flight := ps_in_flight slot + 1\<rparr>"

lemma upd_heap_twice:
  "upd_heap a f (upd_heap a g c) = upd_heap a (\<lambda>slot. f (g slot)) c"
  by (cases "a < length (pu_heap c)") (simp_all add: upd_heap_def list_update_beyond not_less)

lemma ready_at_mem: "i \<in> set (ready_at tt now c) \<longleftrightarrow>
    i < length (tt_slots tt) \<and> ready_in now (ps_breaker (pu_heap c ! slot_addr tt i)) = Some 0"
  by (auto simp: ready_at_def)

lemma pick_unfold:
  "pick tt key now c =
     (if ready_at tt now c = [] then Some (Inl (least_wait tt now c), c)
      else (case balance_index tt key (ready_at tt now c) c of
              (i, c') \<Rightarrow> Some (Inr i, upd_heap (slot_addr tt i) (taken now) c')))"
proof (cases "ready_at tt now c = []")
  case True
  have "left \<in> waits now (slots_of tt c) \<longleftrightarrow>
      list_ex (\<lambda>i. ready_in now (ps_breaker (pu_heap c ! slot_addr tt i)) = Some left) [0..<length (tt_slots tt)]" for left
  proof -
    have "left \<noteq> 0" if "i < length (tt_slots tt)" "ready_in now (ps_breaker (pu_heap c ! slot_addr tt i)) = Some left" for i
      using that ready_at_mem [of i tt now c] True by auto
    then show ?thesis
      unfolding waits_def list_ex_iff mem_Collect_eq image_iff Bex_def split_paired_Ex slots_of_nth(2) by auto
  qed
  then have "waits now (slots_of tt c) = {left. list_ex (\<lambda>i. ready_in now (ps_breaker (pu_heap c ! slot_addr tt i)) = Some left)
      [0..<length (tt_slots tt)]}" by blast
  with True show ?thesis by (subst pick.simps) (simp add: scan_slots_of least_wait_def)
next
  case False
  obtain i c' where b: "balance_index tt key (ready_at tt now c) c = (i, c')" by fastforce
  note bi = balance_index_spec [OF False b]
  have heap: "pu_heap c' = pu_heap c" using bi(2) by (metis push_consumer.select_convs(4) push_consumer.surjective push_consumer.update_convs(6))
  have "fst (allow now (ps_breaker (pu_heap c' ! slot_addr tt i)))"
    using bi(1) unfolding heap ready_at_mem by (blast intro: ready_allowed)
  then obtain br where a: "allow now (ps_breaker (pu_heap c' ! slot_addr tt i)) = (True, br)" by (cases "allow now (ps_breaker (pu_heap c' ! slot_addr tt i))") auto
  have "upd_heap (slot_addr tt i) (\<lambda>slot. slot\<lparr>ps_in_flight := ps_in_flight slot + 1\<rparr>)
      (upd_heap (slot_addr tt i) (\<lambda>slot. slot\<lparr>ps_breaker := br\<rparr>) c') = upd_heap (slot_addr tt i) (taken now) c'"
    unfolding upd_heap_twice using a by (simp add: upd_heap_def taken_def)
  with False b a show ?thesis by (subst pick.simps) (simp add: scan_slots_of)
qed

lemma pick_total: "\<exists>r c'. pick tt key now c = Some (r, c')"
  by (auto simp: pick_unfold split: prod.splits)

lemma pick_Inr:
  assumes "pick tt key now c = Some (Inr i, c')"
  shows "i < length (tt_slots tt)" and "ready_in now (ps_breaker (pu_heap c ! slot_addr tt i)) = Some 0"
    and "c' = c\<lparr>pu_heap := (pu_heap c)[slot_addr tt i := taken now (pu_heap c ! slot_addr tt i)], pu_cursor := pu_cursor c'\<rparr>"
proof -
  from assms have ne: "ready_at tt now c \<noteq> []" by (auto simp: pick_unfold split: if_splits)
  obtain j c1 where b: "balance_index tt key (ready_at tt now c) c = (j, c1)" by fastforce
  from assms ne b have c': "j = i" "c' = upd_heap (slot_addr tt i) (taken now) c1" by (auto simp: pick_unfold)
  note bi = balance_index_spec [OF ne b]
  from bi(1) c'(1) show "i < length (tt_slots tt)" "ready_in now (ps_breaker (pu_heap c ! slot_addr tt i)) = Some 0"
    by (simp_all add: ready_at_mem)
  show "c' = c\<lparr>pu_heap := (pu_heap c)[slot_addr tt i := taken now (pu_heap c ! slot_addr tt i)], pu_cursor := pu_cursor c'\<rparr>"
    unfolding c'(2) by (subst (1 2) bi(2)) (simp add: upd_heap_def)
qed

lemma pick_Inl:
  assumes "pick tt key now c = Some (Inl w, c')"
  shows "c' = c"
  using assms by (auto simp: pick_unfold split: if_splits prod.splits)

section \<open>Property\<close>

text \<open>
  C39. \<open>pick\<close> always returns. When some endpoint's breaker is ready it takes one of those:
  the chat's own among them, the one with the fewest requests in flight, or the next in turn,
  as configured; that breaker admits the request, and exactly its slot is charged with it.
  When none is ready it changes nothing and reports the shortest wait of an open breaker, or
  none when every breaker waits for its probe.
\<close>

theorem pick_returns:
  "let ready = ready_at tt now c; slot = (\<lambda>i. pu_heap c ! slot_addr tt i) in
   if ready = [] then pick tt key now c = Some (Inl (least_wait tt now c), c)
   else \<exists>i c'. pick tt key now c = Some (Inr i, c') \<and> i \<in> set ready \<and>
     (case (po_balance (tt_opts tt), key) of
        (BHashChat, Some k) \<Rightarrow> i = ready ! (k mod length ready)
      | (BLeastInFlight, _) \<Rightarrow> list_all (\<lambda>j. ps_in_flight (slot i) \<le> ps_in_flight (slot j)) ready
      | (_, _) \<Rightarrow> i = ready ! (pu_cursor c mod length ready)) \<and>
     fst (allow now (ps_breaker (slot i))) \<and>
     pu_heap c' = (pu_heap c)[slot_addr tt i := taken now (slot i)]"
proof (cases "ready_at tt now c = []")
  case True
  then show ?thesis by (simp add: pick_unfold)
next
  case False
  obtain i c1 where b: "balance_index tt key (ready_at tt now c) c = (i, c1)" by fastforce
  then have p: "pick tt key now c = Some (Inr i, upd_heap (slot_addr tt i) (taken now) c1)"
    using False by (simp add: pick_unfold)
  have "case (po_balance (tt_opts tt), key) of
        (BHashChat, Some k) \<Rightarrow> i = ready_at tt now c ! (k mod length (ready_at tt now c))
      | (BLeastInFlight, _) \<Rightarrow> list_all (\<lambda>j. ps_in_flight (pu_heap c ! slot_addr tt i) \<le> ps_in_flight (pu_heap c ! slot_addr tt j)) (ready_at tt now c)
      | (_, _) \<Rightarrow> i = ready_at tt now c ! (pu_cursor c mod length (ready_at tt now c))"
    using b min_by_key_spec(2) [OF False, where f = "\<lambda>i. ps_in_flight (pu_heap c ! slot_addr tt i)"]
    by (auto simp: balance_index_def list_all_iff split: balance.splits option.splits)
  moreover have "pu_heap (upd_heap (slot_addr tt i) (taken now) c1) = (pu_heap c)[slot_addr tt i := taken now (pu_heap c ! slot_addr tt i)]"
    by (subst pick_Inr(3) [OF p]) simp
  moreover have "fst (allow now (ps_breaker (pu_heap c ! slot_addr tt i)))"
    by (rule ready_allowed [OF pick_Inr(2) [OF p]])
  ultimately show ?thesis using False p balance_index_spec(1) [OF False b] by (simp add: Let_def)
qed

end
