(* ===== verification/Push_Inv.thy ===== *)
theory Push_Inv
  imports Push_Pick
begin

text \<open>
  The invariant of the push consumer: who holds which lease, and who has which request on the
  wire.
\<close>

section \<open>Sequence numbers are never reused\<close>

lemma remove_all_next_seq [simp]: "q_next_seq (snd (remove_all seqs q)) = q_next_seq q"
  by (induction seqs arbitrary: q) (auto simp: Let_def split_beta split: option.splits)

lemma held_loop_next_seq [simp]: "q_next_seq (snd (held_loop m d seqs q)) = q_next_seq q"
  by (induction seqs arbitrary: q) (auto simp: Let_def split_beta split: option.splits)

lemma fold_requeue_next_seq [simp]: "q_next_seq (fold requeue seqs q) = q_next_seq q"
  by (induction seqs arbitrary: q) auto

lemma step_next_seq:
  assumes "wf_queue Q" and "queue_step op (Q, ps) (Q', ps')"
  shows "q_next_seq (lq_inner Q) \<le> q_next_seq (lq_inner Q')"
  using assms(2)
proof (cases rule: queue_step.cases)
  case (reserve_ok sz p)
  with try_reserve_Ok(1) [OF assms(1)] show ?thesis by (simp add: makes_room_def)
next
  case (reserve_full sz full)
  with try_reserve_Err(1) [OF assms(1) reserve_full(3)] show ?thesis by simp
qed (auto simp: commit_def commit_inner_def cancel_def lease_spec(5) [OF assms(1)] purge_spec(5) [OF assms(1)]
    held_def ack_below_each_def ack_all_each_def ack_where_def ack_seq_def release_seq_def expire_def
    purge_where_def drain_all_def set_config_def Let_def split_beta split: option.splits)

section \<open>The leases of the dispatcher\<close>

text \<open>The items leased to \<open>push\<close>.\<close>

definition mine :: "envelope emap \<Rightarrow> nat \<rightharpoonup> envelope" where
  "mine E s = (case E s of
       None \<Rightarrow> None
     | Some e \<Rightarrow> if map_option h_holder (e_lease e) = Some HOLDER then Some (e_item e) else None)"

lemma dom_mine: "dom (mine E) = held_by E HOLDER"
proof -
  have "s \<in> dom (mine E) \<longleftrightarrow> s \<in> held_by E HOLDER" for s
    by (cases "E s") (auto simp: mine_def held_by_def split: if_splits)
  then show ?thesis by blast
qed

lemma mine_SomeD: "mine E s = Some x \<Longrightarrow> \<exists>e. E s = Some e \<and> map_option h_holder (e_lease e) = Some HOLDER \<and> e_item e = x"
  by (auto simp: mine_def split: option.splits if_splits)

definition mine_kept :: "nat \<Rightarrow> envelope emap \<Rightarrow> envelope emap \<Rightarrow> bool" where
  "mine_kept nxt E E' \<longleftrightarrow>
     (\<forall>s x. mine E' s = Some x \<longrightarrow> mine E s = Some x) \<and>
     (\<forall>s x. mine E s = Some x \<longrightarrow> E' s \<noteq> None \<longrightarrow> mine E' s = Some x) \<and>
     (\<forall>s < nxt. E s = None \<longrightarrow> E' s = None)"

lemma mine_drop_all: "mine_kept nxt E (drop_all S E)"
  by (auto simp: mine_kept_def mine_def drop_all_def)

lemma mine_foreign:
  assumes "spec_step own cfg nxt op E E'" and "foreign_op op" and "finite (dom E)" and "E nxt = None"
  shows "mine_kept nxt E E'"
proof (cases op)
  case (Reserve sz)
  with assms(1) obtain n where "E' = evict_oldest n E" by auto
  then show ?thesis by (simp add: evict_oldest_def mine_drop_all)
next
  case (Lease h n now)
  let ?S = "set (take n (sorted_list_of_set (cands cfg E)))"
  have "?S \<subseteq> unleased E"
    using set_take_subset [of n "sorted_list_of_set (cands cfg E)"] elig_subset [OF assms(3)]
      finite_emap_sets(1) [OF assms(3)] finite_subset [OF elig_subset [OF assms(3)] finite_emap_sets(1) [OF assms(3)]]
    by (auto simp: cands_def split: ordering.splits)
  then have "s \<in> ?S \<Longrightarrow> mine E s = None" for s by (auto simp: mine_def unleased_def)
  with assms(1,2) Lease show ?thesis
    by (auto simp: mine_kept_def mine_def lease_all_def foreign_op_def split: option.splits if_splits)
qed (use assms in \<open>auto simp: foreign_op_def mine_drop_all\<close>,
    use assms in \<open>auto simp: mine_kept_def mine_def renew_all_def renew_def unlease_all_def held_by_def foreign_op_def
      split: option.splits if_splits\<close>)

text \<open>
  Every lease of \<open>push\<close> belongs to one delivery, and every delivery carries the update of its
  lease, unless that update was dropped behind its back.
\<close>

definition lease_inv :: "envelope emap \<Rightarrow> nat \<Rightarrow> delivery list \<Rightarrow> bool" where
  "lease_inv E nxt ds \<longleftrightarrow>
     distinct (map d_seq ds) \<and> dom (mine E) \<subseteq> set (map d_seq ds) \<and>
     (\<forall>d \<in> set ds. d_seq d < nxt \<and> (E (d_seq d) \<noteq> None \<longrightarrow> mine E (d_seq d) = Some (d_env d)))"

lemma lease_inv_kept:
  assumes "lease_inv E nxt ds" and "mine_kept nxt E E'" and "nxt \<le> nxt'"
  shows "lease_inv E' nxt' ds"
proof -
  have "dom (mine E') \<subseteq> dom (mine E)" using assms(2) unfolding mine_kept_def by blast
  then have "dom (mine E') \<subseteq> set (map d_seq ds)" using assms(1) unfolding lease_inv_def by blast
  moreover have "d_seq d < nxt' \<and> (E' (d_seq d) \<noteq> None \<longrightarrow> mine E' (d_seq d) = Some (d_env d))" if "d \<in> set ds" for d
  proof -
    from assms(1) that have "d_seq d < nxt" "E (d_seq d) \<noteq> None \<longrightarrow> mine E (d_seq d) = Some (d_env d)"
      by (simp_all add: lease_inv_def)
    moreover have "E (d_seq d) = None \<longrightarrow> E' (d_seq d) = None"
      "mine E (d_seq d) = Some (d_env d) \<longrightarrow> E' (d_seq d) \<noteq> None \<longrightarrow> mine E' (d_seq d) = Some (d_env d)"
      using assms(2) \<open>d_seq d < nxt\<close> unfolding mine_kept_def by blast+
    ultimately show ?thesis using assms(3) by linarith
  qed
  ultimately show ?thesis using assms(1) by (simp add: lease_inv_def)
qed

text \<open>One delivery goes on, or ends with its lease.\<close>

lemma replace_at_seqs:
  assumes "i < length ds"
  shows "map d_seq (replace_at i (Some d) ds) = (map d_seq ds)[i := d_seq d]"
    and "map d_seq (replace_at i None ds) = take i (map d_seq ds) @ drop (Suc i) (map d_seq ds)"
  using assms by (simp_all add: replace_at_def upd_conv_take_nth_drop take_map drop_map)

lemma set_replace_at: "set (replace_at i r ds) \<subseteq> set_option r \<union> set ds"
  by (auto simp: replace_at_def dest: in_set_takeD in_set_dropD split: option.splits)

lemma distinct_except:
  assumes "distinct xs" and "i < length xs"
  shows "distinct (take i xs @ drop (Suc i) xs)" and "set (take i xs @ drop (Suc i) xs) = set xs - {xs ! i}"
proof -
  have "xs = take i xs @ xs ! i # drop (Suc i) xs" using assms(2) by (rule id_take_nth_drop)
  with assms(1) have "distinct (take i xs @ xs ! i # drop (Suc i) xs)" by simp
  then show "distinct (take i xs @ drop (Suc i) xs)" by auto
  have "set xs = set (take i xs @ xs ! i # drop (Suc i) xs)" using id_take_nth_drop [OF assms(2)] by simp
  with \<open>distinct (take i xs @ xs ! i # drop (Suc i) xs)\<close>
  show "set (take i xs @ drop (Suc i) xs) = set xs - {xs ! i}" by auto
qed

lemma lease_inv_goes_on:
  assumes "lease_inv E nxt ds" and "i < length ds" and "d_seq d = d_seq (ds ! i)" and "d_env d = d_env (ds ! i)"
  shows "lease_inv E nxt (replace_at i (Some d) ds)"
proof -
  have seqs: "map d_seq (replace_at i (Some d) ds) = map d_seq ds"
    using assms(2,3) by (metis replace_at_seqs(1) length_map list_update_id nth_map)
  have "ds ! i \<in> set ds" using assms(2) by simp
  with assms(1,3,4) set_replace_at [of i "Some d" ds] show ?thesis
    unfolding lease_inv_def seqs by auto
qed

lemma lease_inv_ends:
  assumes inv: "lease_inv E nxt ds" and i: "i < length ds"
    and E': "dom (mine E') \<subseteq> dom (mine E) - {d_seq (ds ! i)}" "\<And>s. s \<noteq> d_seq (ds ! i) \<Longrightarrow> E' s = E s"
  shows "lease_inv E' nxt (replace_at i None ds)"
proof -
  let ?ds = "replace_at i None ds" and ?x = "d_seq (ds ! i)"
  have dist: "distinct (map d_seq ds)" using inv by (simp add: lease_inv_def)
  note ex = distinct_except [OF dist, of i]
  have seqs: "distinct (map d_seq ?ds)" "set (map d_seq ?ds) = set (map d_seq ds) - {?x}"
    using ex i by (simp_all add: replace_at_seqs(2) [OF i] del: set_map)
  have "d_seq d < nxt \<and> (E' (d_seq d) \<noteq> None \<longrightarrow> mine E' (d_seq d) = Some (d_env d))" if d: "d \<in> set ?ds" for d
  proof -
    from d seqs(2) have "d_seq d \<noteq> ?x" by auto
    moreover have "d \<in> set ds" using d set_replace_at [of i None ds] by auto
    ultimately show ?thesis using inv E'(2) by (auto simp: lease_inv_def mine_def)
  qed
  moreover have "dom (mine E') \<subseteq> set (map d_seq ?ds)"
    using E'(1) inv unfolding seqs(2) lease_inv_def by blast
  ultimately show ?thesis using seqs(1) by (simp add: lease_inv_def)
qed

lemma acked_lease:
  assumes "wf_queue Q"
  shows "dom (mine (lq_entry (snd (ack_seq HOLDER s Q)))) \<subseteq> dom (mine (lq_entry Q)) - {s}"
    and "t \<noteq> s \<Longrightarrow> lq_entry (snd (ack_seq HOLDER s Q)) t = lq_entry Q t"
  unfolding ack_seq_spec(3) [OF assms] dom_mine by (auto simp: drop_all_def held_by_def)

lemma released_lease:
  assumes "wf_queue Q"
  shows "dom (mine (lq_entry (snd (release_seq HOLDER s Q)))) \<subseteq> dom (mine (lq_entry Q)) - {s}"
    and "t \<noteq> s \<Longrightarrow> lq_entry (snd (release_seq HOLDER s Q)) t = lq_entry Q t"
  unfolding release_seq_spec(3) [OF assms] dom_mine by (auto simp: unlease_all_def held_by_def split: if_splits)

section \<open>What the parts of a delivery leave alone\<close>

lemma frame_queue [simp]:
  "pu_queue (upd_heap a f c) = pu_queue c" "pu_queue (notify_changed c) = pu_queue c"
  "pu_queue (report up now s c) = pu_queue c" "pu_queue (drop_sending rep now s c) = pu_queue c"
  "pu_queue (push_update_depth c) = pu_queue c" "pu_queue (count_attempt s out c) = pu_queue c"
  "pu_queue (held_new c) = pu_queue c"
  "pu_queue (held_drop acked n c) = (if acked then pu_queue c else snd (release_seq HOLDER n (pu_queue c)))"
  "pu_queue (held_ack n c) = snd (ack_seq HOLDER n (pu_queue c))"
  "pu_queue (push_dead_letter n e ep ca reason c) = snd (ack_seq HOLDER n (pu_queue c))"
  "pu_queue (delivered d s c) = snd (ack_seq HOLDER (d_seq d) (pu_queue c))"
  by (simp_all add: upd_heap_def notify_changed_def report_def drop_sending_def push_update_depth_def
      count_attempt_def held_new_def held_drop_def held_ack_def push_dead_letter_def delivered_def Let_def)

lemma frame_in_flight [simp]:
  "pu_in_flight (upd_heap a f c) = pu_in_flight c" "pu_in_flight (notify_changed c) = pu_in_flight c"
  "pu_in_flight (report up now s c) = pu_in_flight c" "pu_in_flight (drop_sending rep now s c) = pu_in_flight c"
  "pu_in_flight (push_update_depth c) = pu_in_flight c" "pu_in_flight (count_attempt s out c) = pu_in_flight c"
  "pu_in_flight (held_new c) = Suc (pu_in_flight c)"
  "pu_in_flight (held_drop acked n c) = pu_in_flight c - 1"
  "pu_in_flight (held_ack n c) = pu_in_flight c - 1"
  "pu_in_flight (push_dead_letter n e ep ca reason c) = pu_in_flight c - 1"
  "pu_in_flight (delivered d s c) = pu_in_flight c - 1"
  by (simp_all add: upd_heap_def notify_changed_def report_def drop_sending_def push_update_depth_def
      count_attempt_def held_new_def held_drop_def held_ack_def push_dead_letter_def delivered_def Let_def)

lemma frame_targets [simp]:
  "pu_targets (upd_heap a f c) = pu_targets c" "pu_targets (notify_changed c) = pu_targets c"
  "pu_targets (report up now s c) = pu_targets c" "pu_targets (drop_sending rep now s c) = pu_targets c"
  "pu_targets (push_update_depth c) = pu_targets c" "pu_targets (count_attempt s out c) = pu_targets c"
  "pu_targets (held_new c) = pu_targets c" "pu_targets (held_drop acked n c) = pu_targets c"
  "pu_targets (held_ack n c) = pu_targets c" "pu_targets (push_dead_letter n e ep ca reason c) = pu_targets c"
  "pu_targets (delivered d s c) = pu_targets c"
  by (simp_all add: upd_heap_def notify_changed_def report_def drop_sending_def push_update_depth_def
      count_attempt_def held_new_def held_drop_def held_ack_def push_dead_letter_def delivered_def Let_def)

lemma frame_heap [simp]:
  "pu_heap (notify_changed c) = pu_heap c" "pu_heap (push_update_depth c) = pu_heap c"
  "pu_heap (count_attempt s out c) = pu_heap c" "pu_heap (held_new c) = pu_heap c"
  "pu_heap (held_drop acked n c) = pu_heap c" "pu_heap (held_ack n c) = pu_heap c"
  "pu_heap (push_dead_letter n e ep ca reason c) = pu_heap c" "pu_heap (delivered d s c) = pu_heap c"
  "pu_heap (upd_heap a f c) = (pu_heap c)[a := f (pu_heap c ! a)]"
  by (simp_all add: upd_heap_def notify_changed_def push_update_depth_def
      count_attempt_def held_new_def held_drop_def held_ack_def push_dead_letter_def delivered_def Let_def)

section \<open>Requests on the wire\<close>

definition on_wire :: "nat \<Rightarrow> delivery \<Rightarrow> bool" where
  "on_wire a d = (case d_stage d of OnWire s \<Rightarrow> sd_addr s = a | _ \<Rightarrow> False)"

definition wires :: "delivery list \<Rightarrow> nat \<Rightarrow> nat" where
  "wires ds a = length (filter (on_wire a) ds)"

text \<open>
  The slot at \<open>a\<close> counts \<open>f a\<close> requests; a breaker waits for a probe only while one of them is
  on the wire.
\<close>

definition heap_inv :: "push_slot list \<Rightarrow> (nat \<Rightarrow> nat) \<Rightarrow> bool" where
  "heap_inv heap f \<longleftrightarrow>
     (\<forall>a < length heap. ps_in_flight (heap ! a) = f a \<and> wf_breaker (ps_breaker (heap ! a)) \<and>
        (state_of (ps_breaker (heap ! a)) = HalfOpen \<longrightarrow> 0 < f a))"

lemma heap_inv_update:
  assumes "heap_inv heap f" and "ps_in_flight slot = n" and "wf_breaker (ps_breaker slot)"
    and "state_of (ps_breaker slot) = HalfOpen \<longrightarrow> 0 < n"
  shows "heap_inv (heap[a := slot]) (f(a := n))"
  using assms by (auto simp: heap_inv_def nth_list_update)

lemma settled_breaker:
  "state_of (on_success b) \<noteq> HalfOpen" "wf_breaker b \<Longrightarrow> state_of (on_failure now b) \<noteq> HalfOpen"
  by (auto simp: state_of_def on_success_def on_failure_def open_from_def cas_def wf_breaker_def Let_def)

lemma heap_inv_take:
  assumes "heap_inv heap f" and "a < length heap"
  shows "heap_inv (heap[a := taken now (heap ! a)]) (f(a := f a + 1))"
  using assms by (intro heap_inv_update) (auto simp: taken_def heap_inv_def wf_breaker_ops)

definition returned :: "bool option \<Rightarrow> instant \<Rightarrow> push_slot \<Rightarrow> push_slot" where
  "returned up now slot =
     slot\<lparr>ps_in_flight := ps_in_flight slot - 1,
       ps_breaker := (case up of
          Some ok \<Rightarrow> if ok then on_success (ps_breaker slot) else on_failure now (ps_breaker slot)
        | None \<Rightarrow> if state_of (ps_breaker slot) = HalfOpen then on_failure now (ps_breaker slot) else ps_breaker slot)\<rparr>"

lemma heap_inv_return:
  assumes "heap_inv heap f" and "a < length heap"
  shows "heap_inv (heap[a := returned up now (heap ! a)]) (f(a := f a - 1))"
proof (rule heap_inv_update [OF assms(1)])
  have h: "ps_in_flight (heap ! a) = f a" "wf_breaker (ps_breaker (heap ! a))"
    using assms by (simp_all add: heap_inv_def)
  then show "ps_in_flight (returned up now (heap ! a)) = f a - 1" by (simp add: returned_def)
  have "wf_breaker (ps_breaker (returned up now (heap ! a))) \<and>
      state_of (ps_breaker (returned up now (heap ! a))) \<noteq> HalfOpen"
    using h(2) by (cases up) (simp_all add: returned_def wf_breaker_ops settled_breaker)
  then show "wf_breaker (ps_breaker (returned up now (heap ! a)))"
    "state_of (ps_breaker (returned up now (heap ! a))) = HalfOpen \<longrightarrow> 0 < f a - 1" by simp_all
qed

lemma upd_heap_cong:
  "f (pu_heap c ! a) = g (pu_heap c ! a) \<Longrightarrow> upd_heap a f c = upd_heap a g c"
  by (simp add: upd_heap_def)

lemma drop_heap:
  "pu_heap (drop_sending True now s (report up now s c)) =
     (pu_heap c)[sd_addr s := returned (Some up) now (pu_heap c ! sd_addr s)]"
  "pu_heap (drop_sending False now s c) = (pu_heap c)[sd_addr s := returned None now (pu_heap c ! sd_addr s)]"
proof -
  have "pu_heap (drop_sending True now s (report up now s c)) = pu_heap (upd_heap (sd_addr s) (returned (Some up) now) c)"
    unfolding drop_sending_def report_def upd_heap_twice frame_heap(1)
    by (rule arg_cong [of _ _ pu_heap], rule upd_heap_cong) (simp add: returned_def)
  then show "pu_heap (drop_sending True now s (report up now s c)) =
     (pu_heap c)[sd_addr s := returned (Some up) now (pu_heap c ! sd_addr s)]" by simp
  have "pu_heap (drop_sending False now s c) = pu_heap (upd_heap (sd_addr s) (returned None now) c)"
    unfolding drop_sending_def frame_heap(1)
    by (rule arg_cong [of _ _ pu_heap], rule upd_heap_cong) (simp add: returned_def)
  then show "pu_heap (drop_sending False now s c) = (pu_heap c)[sd_addr s := returned None now (pu_heap c ! sd_addr s)]"
    by simp
qed

end
