(* ===== verification/Push_Segments.thy ===== *)
theory Push_Segments
  imports Push_Inv
begin

text \<open>
  What one segment of a delivery does to the queue, to the slots and to the logs.
\<close>

section \<open>After an attempt\<close>

text \<open>
  \<open>ended\<close>: the update was delivered, or it was dead-lettered; \<open>going_on\<close>: neither.
\<close>

definition deliveries_made :: "push_consumer \<Rightarrow> nat" where
  "deliveries_made c = length (filter (\<lambda>(_, out). out = Delivered) (pu_attempts c))"

definition ended :: "envelope \<Rightarrow> push_consumer \<Rightarrow> push_consumer \<Rightarrow> bool" where
  "ended e c c' \<longleftrightarrow>
     deliveries_made c' = deliveries_made c + 1 \<and> pu_letters c' = pu_letters c \<or>
     deliveries_made c' = deliveries_made c \<and> (\<exists>dl. pu_letters c' = pu_letters c @ [dl] \<and> dl_envelope dl = e)"

definition going_on :: "push_consumer \<Rightarrow> push_consumer \<Rightarrow> bool" where
  "going_on c c' \<longleftrightarrow> deliveries_made c' = deliveries_made c \<and> pu_letters c' = pu_letters c"

lemma frame_logs [simp]:
  "pu_letters (upd_heap a f c) = pu_letters c" "pu_letters (notify_changed c) = pu_letters c"
  "pu_letters (report up now s c) = pu_letters c" "pu_letters (drop_sending rep now s c) = pu_letters c"
  "pu_letters (push_update_depth c) = pu_letters c" "pu_letters (count_attempt s out c) = pu_letters c"
  "pu_letters (held_new c) = pu_letters c" "pu_letters (held_drop acked n c) = pu_letters c"
  "pu_letters (held_ack n c) = pu_letters c" "pu_letters (delivered d s c) = pu_letters c"
  "pu_letters (push_dead_letter n e ep ca reason c) =
     pu_letters c @ [\<lparr>dl_envelope = e, dl_endpoint = ep, dl_cause = ca, dl_reason = reason\<rparr>]"
  by (simp_all add: upd_heap_def notify_changed_def report_def drop_sending_def push_update_depth_def
      count_attempt_def held_new_def held_drop_def held_ack_def push_dead_letter_def delivered_def Let_def)

lemma frame_made [simp]:
  "deliveries_made (upd_heap a f c) = deliveries_made c" "deliveries_made (notify_changed c) = deliveries_made c"
  "deliveries_made (report up now s c) = deliveries_made c" "deliveries_made (drop_sending rep now s c) = deliveries_made c"
  "deliveries_made (push_update_depth c) = deliveries_made c"
  "deliveries_made (held_new c) = deliveries_made c" "deliveries_made (held_drop acked n c) = deliveries_made c"
  "deliveries_made (held_ack n c) = deliveries_made c"
  "deliveries_made (push_dead_letter n e ep ca reason c) = deliveries_made c"
  "deliveries_made (count_attempt s out c) = deliveries_made c + (if out = Delivered then 1 else 0)"
  "deliveries_made (delivered d s c) = deliveries_made c + 1"
  by (simp_all add: deliveries_made_def upd_heap_def notify_changed_def report_def drop_sending_def push_update_depth_def
      count_attempt_def held_new_def held_drop_def held_ack_def push_dead_letter_def delivered_def Let_def)

lemma made_frame [simp]:
  "deliveries_made (c\<lparr>pu_latencies := x1\<rparr>) = deliveries_made c" "deliveries_made (c\<lparr>pu_calls := x2\<rparr>) = deliveries_made c"
  "deliveries_made (c\<lparr>pu_wire := x3\<rparr>) = deliveries_made c" "deliveries_made (c\<lparr>pu_too_large := x4\<rparr>) = deliveries_made c"
  "deliveries_made (c\<lparr>pu_heap := x5\<rparr>) = deliveries_made c" "deliveries_made (c\<lparr>pu_cursor := x6\<rparr>) = deliveries_made c"
  "deliveries_made (c\<lparr>pu_queue := x7\<rparr>) = deliveries_made c"
  by (simp_all add: deliveries_made_def)

text \<open>A delivery that ends takes its lease along; one that goes on keeps its update.\<close>

definition acks :: "delivery \<Rightarrow> push_consumer \<Rightarrow> push_consumer \<Rightarrow> bool" where
  "acks d c c' \<longleftrightarrow> pu_queue c' = snd (ack_seq HOLDER (d_seq d) (pu_queue c)) \<and>
     pu_in_flight c' = pu_in_flight c - 1 \<and> ended (d_env d) c c'"

definition releases :: "delivery \<Rightarrow> push_consumer \<Rightarrow> push_consumer \<Rightarrow> bool" where
  "releases d c c' \<longleftrightarrow> pu_queue c' = snd (release_seq HOLDER (d_seq d) (pu_queue c)) \<and>
     pu_in_flight c' = pu_in_flight c - 1 \<and> going_on c c'"

definition goes_on :: "delivery \<Rightarrow> push_consumer \<Rightarrow> delivery \<Rightarrow> push_consumer \<Rightarrow> bool" where
  "goes_on d c d' c' \<longleftrightarrow> pu_queue c' = pu_queue c \<and> pu_in_flight c' = pu_in_flight c \<and> going_on c c' \<and>
     d_seq d' = d_seq d \<and> d_env d' = d_env d"

definition ends :: "delivery \<Rightarrow> push_consumer \<Rightarrow> delivery option \<Rightarrow> push_consumer \<Rightarrow> bool" where
  "ends d c r c' = (case r of None \<Rightarrow> acks d c c' \<or> releases d c c' | Some d' \<Rightarrow> goes_on d c d' c')"

lemma sent_heap:
  assumes "pu_heap c1 = pu_heap (report up now s c)"
  shows "pu_heap (drop_sending True now s c1) =
    (pu_heap c)[sd_addr s := returned (Some up) now (pu_heap c ! sd_addr s)]"
  using drop_heap(1) [of now s up c] assms by (simp add: drop_sending_def)

definition seen_up :: "failure + 'a \<Rightarrow> bool" where
  "seen_up result = (case result of Inl (Transient _ _) \<Rightarrow> False | _ \<Rightarrow> True)"

lemma settle_spec:
  assumes "settle draw now d s result c = (r, c')"
  shows "pu_heap c' = (pu_heap c)[sd_addr s := returned (Some (seen_up result)) now (pu_heap c ! sd_addr s)]"
    and "pu_targets c' = pu_targets c"
    and "case r of None \<Rightarrow> acks d c c'
       | Some d' \<Rightarrow> goes_on d c d' c' \<and> (d_stage d' = Executing s \<or> (\<exists>til. d_stage d' = BackingOff til))"
proof -
  have "pu_heap c' = (pu_heap c)[sd_addr s := returned (Some (seen_up result)) now (pu_heap c ! sd_addr s)] \<and>
    pu_targets c' = pu_targets c \<and>
    (case r of None \<Rightarrow> acks d c c'
       | Some d' \<Rightarrow> goes_on d c d' c' \<and> (d_stage d' = Executing s \<or> (\<exists>til. d_stage d' = BackingOff til)))"
  proof (cases result)
    case (Inr rep)
    with assms show ?thesis
      by (cases rep)
        (auto simp: settle_def Let_def seen_up_def sent_heap acks_def goes_on_def ended_def going_on_def
          split: if_splits)
  next
    case (Inl f)
    show ?thesis
    proof (cases f)
      case (Permanent ca)
      with Inl assms show ?thesis
        by (auto simp: settle_def Let_def seen_up_def sent_heap acks_def ended_def)
    next
      case (Transient ca ra)
      with Inl assms show ?thesis
        by (auto simp: settle_def Let_def seen_up_def sent_heap acks_def goes_on_def ended_def going_on_def
            split: if_splits prod.splits)
    qed
  qed
  then show "pu_heap c' = (pu_heap c)[sd_addr s := returned (Some (seen_up result)) now (pu_heap c ! sd_addr s)]"
    "pu_targets c' = pu_targets c"
    "case r of None \<Rightarrow> acks d c c'
       | Some d' \<Rightarrow> goes_on d c d' c' \<and> (d_stage d' = Executing s \<or> (\<exists>til. d_stage d' = BackingOff til))"
    by blast+
qed

section \<open>A round of the loop\<close>

text \<open>An endpoint of the current set was taken.\<close>

definition picked_slot :: "instant \<Rightarrow> push_consumer \<Rightarrow> sending \<Rightarrow> push_consumer \<Rightarrow> bool" where
  "picked_slot now c s c1 \<longleftrightarrow> sd_targets s = pu_targets c \<and> sd_index s < length (tt_slots (pu_targets c)) \<and>
     c1 = c\<lparr>pu_heap := (pu_heap c)[sd_addr s := taken now (pu_heap c ! sd_addr s)], pu_cursor := pu_cursor c1\<rparr>"

lemma choose_round_total: "\<exists>ch c'. choose_round now cancelled e c = Some (ch, c')"
proof -
  obtain r c' where "pick (pu_targets c) (en_key e) now c = Some (r, c')" using pick_total by blast
  then show ?thesis by (cases r) (simp_all add: choose_round_def Let_def)
qed

lemma choose_round_spec:
  assumes "choose_round now cancelled e c = Some (ch, c')"
  shows "case ch of Send s \<Rightarrow> picked_slot now c s c' | _ \<Rightarrow> c' = c"
proof -
  obtain r c1 where p: "pick (pu_targets c) (en_key e) now c = Some (r, c1)" using pick_total by blast
  show ?thesis
  proof (cases r)
    case (Inl w)
    with p pick_Inl [of "pu_targets c" "en_key e" now c w c1] assms show ?thesis
      by (auto simp: choose_round_def Let_def split: if_splits)
  next
    case (Inr i)
    note pk = pick_Inr [OF p [unfolded Inr]]
    from pk have "picked_slot now c \<lparr>sd_targets = pu_targets c, sd_index = i\<rparr> c1"
      by (simp add: picked_slot_def sd_addr_def)
    with p Inr assms show ?thesis
      by (auto simp: choose_round_def Let_def split: if_splits)
  qed
qed

lemma deliver_round_cases:
  assumes "deliver_round env draw now cancelled d c = Some (r, c')"
  obtains
    (released) "r = None" "c' = held_drop False (d_seq d) c"
  | (expired) "r = None" "c' = push_dead_letter (d_seq d) (d_env d) (map_option fst (d_last d))
        (case d_last d of None \<Rightarrow> CExpired | Some (_, ca) \<Rightarrow> ca) ''max_age'' c"
  | (waits) n til where "r = Some (d\<lparr>d_stage := AwaitChoice n til\<rparr>)" "c' = c"
  | (sent) s rq att c1 where "picked_slot now c s c1" "r = Some (d\<lparr>d_attempt := att, d_stage := OnWire s\<rparr>)"
      "c' = c1\<lparr>pu_wire := pu_wire c1 @ [rq]\<rparr>"
  | (unsendable) s att c1 where "picked_slot now c s c1"
      "settle draw now (d\<lparr>d_attempt := att\<rparr>) s (Inl (Permanent CInvalidSecret)) c1 = (r, c')"
proof -
  obtain ch c1 where ch: "choose_round now cancelled (d_env d) c = Some (ch, c1)" using choose_round_total by blast
  note sp = choose_round_spec [OF ch]
  show thesis
  proof (cases ch)
    case (Send s)
    define d' where "d' = d\<lparr>d_attempt := min (d_attempt d + 1) U32_MAX\<rparr>"
    have pk: "picked_slot now c s c1" using sp Send by simp
    show thesis
    proof (cases "request_of env s (d_env d) (d_attempt d') c1")
      case None
      with assms ch Send have "settle draw now d' s (Inl (Permanent CInvalidSecret)) c1 = (r, c')"
        by (simp add: deliver_round_def Let_def d'_def)
      with pk show thesis unfolding d'_def by (rule unsendable)
    next
      case (Some rq)
      with assms ch Send have "r = Some (d'\<lparr>d_stage := OnWire s\<rparr>)" "c' = c1\<lparr>pu_wire := pu_wire c1 @ [rq]\<rparr>"
        by (auto simp: deliver_round_def Let_def d'_def)
      with pk show thesis unfolding d'_def by (intro sent)
    qed
  qed (use assms ch sp in \<open>auto simp: deliver_round_def intro: released expired waits\<close>)
qed

lemma picked_frame:
  assumes "picked_slot now c s c1"
  shows "pu_queue c1 = pu_queue c" "pu_in_flight c1 = pu_in_flight c" "pu_targets c1 = pu_targets c"
    "pu_letters c1 = pu_letters c" "deliveries_made c1 = deliveries_made c"
    "pu_heap c1 = (pu_heap c)[sd_addr s := taken now (pu_heap c ! sd_addr s)]"
proof -
  from assms obtain n where c1: "c1 = c\<lparr>pu_heap := (pu_heap c)[sd_addr s := taken now (pu_heap c ! sd_addr s)], pu_cursor := n\<rparr>"
    unfolding picked_slot_def by blast
  show "pu_queue c1 = pu_queue c" "pu_in_flight c1 = pu_in_flight c" "pu_targets c1 = pu_targets c"
    "pu_letters c1 = pu_letters c" "deliveries_made c1 = deliveries_made c"
    "pu_heap c1 = (pu_heap c)[sd_addr s := taken now (pu_heap c ! sd_addr s)]"
    unfolding c1 by simp_all
qed

lemma round_ends:
  assumes "deliver_round env draw now cancelled d c = Some (r, c')"
  shows "ends d c r c'" and "pu_targets c' = pu_targets c"
proof -
  from assms have "ends d c r c' \<and> pu_targets c' = pu_targets c"
  proof (cases rule: deliver_round_cases)
    case (unsendable s att c1)
    note st = settle_spec [OF unsendable(2)] and pf = picked_frame [OF unsendable(1)]
    from st(2,3) pf show ?thesis
      by (cases r) (simp_all add: ends_def acks_def goes_on_def ended_def going_on_def)
  next
    case (sent s rq att c1)
    with picked_frame [OF sent(1)] show ?thesis by (simp add: ends_def goes_on_def going_on_def)
  qed (simp_all add: ends_def acks_def releases_def goes_on_def ended_def going_on_def)
  then show "ends d c r c'" "pu_targets c' = pu_targets c" by blast+
qed

section \<open>Segments\<close>

lemma send_result_frame:
  assumes "send_result s e ans c = (result, c1)"
  shows "c1 = c \<or> (\<exists>x. c1 = c\<lparr>pu_too_large := x\<rparr>)"
  using assms by (auto simp: send_result_def split: option.splits answer.splits if_splits sum.splits)

lemma answer_settles:
  assumes "deliver_answer draw now ans d s c = (r, c')"
  obtains result c1 where "settle draw now d s result c1 = (r, c')" "c1 = c \<or> (\<exists>x. c1 = c\<lparr>pu_too_large := x\<rparr>)"
proof -
  obtain result c1 where "send_result s (d_env d) ans c = (result, c1)" by fastforce
  with assms send_result_frame [OF this] that show thesis by (simp add: deliver_answer_def)
qed

lemma segment_ends:
  assumes "segment env now cancelled d c r c'"
  shows "ends d c r c' \<and> pu_targets c' = pu_targets c"
  using assms
proof (cases rule: segment.cases)
  case (seg_answer s draw ans)
  then obtain result c1 where st: "settle draw now d s result c1 = (r, c')"
    and c1: "c1 = c \<or> (\<exists>x. c1 = c\<lparr>pu_too_large := x\<rparr>)" using answer_settles by blast
  from settle_spec(2,3) [OF st] c1 show ?thesis
    by (cases r) (auto simp: ends_def acks_def goes_on_def ended_def going_on_def)
qed (use round_ends in \<open>auto simp: ends_def acks_def releases_def ended_def going_on_def\<close>)

end
