(* ===== verification/Push_Props.thy ===== *)
theory Push_Props
  imports Push_Segments
begin

text \<open>
  Push consumers: the invariant of everything reachable, and what every step does with the
  updates.
\<close>

section \<open>Slots under a segment\<close>

definition wired :: "delivery option \<Rightarrow> nat \<Rightarrow> nat" where
  "wired r a = (case r of None \<Rightarrow> 0 | Some d \<Rightarrow> of_bool (on_wire a d))"

lemma wires_replace:
  assumes "i < length ds"
  shows "wires (replace_at i r ds) a = wires ds a - of_bool (on_wire a (ds ! i)) + wired r a"
    and "of_bool (on_wire a (ds ! i)) \<le> wires ds a"
proof -
  have "ds = take i ds @ ds ! i # drop (Suc i) ds" using assms by (rule id_take_nth_drop)
  then have w: "wires ds a = wires (take i ds @ ds ! i # drop (Suc i) ds) a" by simp
  show "wires (replace_at i r ds) a = wires ds a - of_bool (on_wire a (ds ! i)) + wired r a"
    unfolding w by (cases r) (simp_all add: wires_def replace_at_def wired_def)
  show "of_bool (on_wire a (ds ! i)) \<le> wires ds a" unfolding w by (simp add: wires_def)
qed

definition stage_ok :: "nat \<Rightarrow> delivery \<Rightarrow> bool" where
  "stage_ok n d = (case d_stage d of OnWire s \<Rightarrow> sd_addr s < n | Executing s \<Rightarrow> sd_addr s < n | _ \<Rightarrow> True)"

definition targets_ok :: "nat \<Rightarrow> targets \<Rightarrow> bool" where
  "targets_ok n tt \<longleftrightarrow> (\<forall>a \<in> set (tt_slots tt). a < n)"

lemma picked_addr: "picked_slot now c s c1 \<Longrightarrow> targets_ok (length (pu_heap c)) (pu_targets c) \<Longrightarrow> sd_addr s < length (pu_heap c)"
  by (auto simp: picked_slot_def targets_ok_def sd_addr_def slot_addr_def)

definition heap_moves :: "(nat \<Rightarrow> nat) \<Rightarrow> delivery \<Rightarrow> push_consumer \<Rightarrow> delivery option \<Rightarrow> push_consumer \<Rightarrow> bool" where
  "heap_moves f d c r c' \<longleftrightarrow> heap_inv (pu_heap c') (\<lambda>a. f a - of_bool (on_wire a d) + wired r a) \<and>
     length (pu_heap c') = length (pu_heap c) \<and> (case r of None \<Rightarrow> True | Some d' \<Rightarrow> stage_ok (length (pu_heap c)) d')"

lemma heap_stays:
  assumes "heap_inv (pu_heap c) f" and "pu_heap c' = pu_heap c" and "\<And>a. \<not> on_wire a d"
    and "case r of None \<Rightarrow> True | Some d' \<Rightarrow> (\<forall>a. \<not> on_wire a d') \<and> stage_ok (length (pu_heap c)) d'"
  shows "heap_moves f d c r c'"
proof -
  have "(\<lambda>a. f a - of_bool (on_wire a d) + wired r a) = f"
    using assms(3,4) by (auto simp: wired_def split: option.splits)
  with assms show ?thesis by (auto simp: heap_moves_def split: option.splits)
qed

lemma settle_heap_inv:
  assumes "settle draw now d s result c = (r, c')" and "heap_inv (pu_heap c) f" and "sd_addr s < length (pu_heap c)"
  shows "heap_inv (pu_heap c') (\<lambda>a. f a - of_bool (a = sd_addr s) + wired r a)"
    and "length (pu_heap c') = length (pu_heap c)"
    and "case r of None \<Rightarrow> True | Some d' \<Rightarrow> stage_ok (length (pu_heap c)) d'"
proof -
  note st = settle_spec [OF assms(1)]
  have w: "wired r a = 0" for a using st(3) by (cases r) (auto simp: wired_def on_wire_def)
  have "(\<lambda>a. f a - of_bool (a = sd_addr s) + wired r a) = f(sd_addr s := f (sd_addr s) - 1)"
    by (auto simp: w)
  with heap_inv_return [OF assms(2,3)] st(1)
  show "heap_inv (pu_heap c') (\<lambda>a. f a - of_bool (a = sd_addr s) + wired r a)" by simp
  show "length (pu_heap c') = length (pu_heap c)" using st(1) by simp
  show "case r of None \<Rightarrow> True | Some d' \<Rightarrow> stage_ok (length (pu_heap c)) d'"
    using st(3) assms(3) by (cases r) (auto simp: stage_ok_def)
qed

lemma round_heap:
  assumes "deliver_round env draw now cancelled d c = Some (r, c')" and inv: "heap_inv (pu_heap c) f"
    and tt: "targets_ok (length (pu_heap c)) (pu_targets c)" and idle: "\<And>a. \<not> on_wire a d"
  shows "heap_moves f d c r c'"
  using assms(1)
proof (cases rule: deliver_round_cases)
  case (sent s rq att c1)
  note a = picked_addr [OF sent(1) tt]
  have "(\<lambda>a. f a - of_bool (on_wire a d) + wired r a) = f(sd_addr s := f (sd_addr s) + 1)"
    using idle sent(2) by (auto simp: wired_def on_wire_def)
  with heap_inv_take [OF inv a, of now] sent a picked_frame(6) [OF sent(1)] show ?thesis
    by (simp add: heap_moves_def stage_ok_def)
next
  case (unsendable s att c1)
  note a = picked_addr [OF unsendable(1) tt] and h = picked_frame(6) [OF unsendable(1)]
  have inv1: "heap_inv (pu_heap c1) (f(sd_addr s := f (sd_addr s) + 1))"
    using heap_inv_take [OF inv a] h by simp
  have a1: "sd_addr s < length (pu_heap c1)" using a h by simp
  note st = settle_heap_inv [OF unsendable(2) inv1 a1]
  have eq: "(\<lambda>a. (f(sd_addr s := f (sd_addr s) + 1)) a - of_bool (a = sd_addr s) + wired r a) =
      (\<lambda>a. f a - of_bool (on_wire a d) + wired r a)"
    using idle by auto
  have "length (pu_heap c1) = length (pu_heap c)" using h by simp
  with st(1) [unfolded eq] st(2,3) show ?thesis by (simp add: heap_moves_def split: option.splits)
qed (use inv idle in \<open>auto intro!: heap_stays simp: on_wire_def stage_ok_def\<close>)

lemma segment_heap:
  assumes "segment env now cancelled d c r c'" and inv: "heap_inv (pu_heap c) f"
    and tt: "targets_ok (length (pu_heap c)) (pu_targets c)" and ok: "stage_ok (length (pu_heap c)) d"
  shows "heap_moves f d c r c'"
  using assms(1)
proof (cases rule: segment.cases)
  case (seg_answer s draw ans)
  then obtain result c1 where st: "settle draw now d s result c1 = (r, c')"
    and c1: "c1 = c \<or> (\<exists>x. c1 = c\<lparr>pu_too_large := x\<rparr>)" using answer_settles by blast
  have h: "pu_heap c1 = pu_heap c" using c1 by auto
  have a: "sd_addr s < length (pu_heap c)" using ok seg_answer(1) by (simp add: stage_ok_def)
  have eq: "on_wire a d \<longleftrightarrow> a = sd_addr s" for a using seg_answer(1) by (auto simp: on_wire_def)
  from settle_heap_inv [OF st, unfolded h, OF inv a] show ?thesis by (simp add: heap_moves_def eq)
qed (use inv tt round_heap in \<open>auto intro!: heap_stays simp: on_wire_def\<close>)

section \<open>The invariant\<close>

definition core_inv :: "push_consumer \<Rightarrow> delivery list \<Rightarrow> bool" where
  "core_inv c ds \<longleftrightarrow>
     wf_queue (pu_queue c) \<and> lease_inv (lq_entry (pu_queue c)) (q_next_seq (lq_inner (pu_queue c))) ds \<and>
     pu_in_flight c = length ds \<and> heap_inv (pu_heap c) (wires ds) \<and>
     targets_ok (length (pu_heap c)) (pu_targets c) \<and> list_all (stage_ok (length (pu_heap c))) ds"

definition push_inv :: "push_conf \<Rightarrow> bool" where
  "push_inv k \<longleftrightarrow> core_inv (cf_consumer k) (cf_deliveries k) \<and>
     (cf_dispatcher k = DStopped \<longrightarrow> cf_deliveries k = [])"

text \<open>Leases new to the dispatcher.\<close>

lemma lease_inv_grow:
  assumes wf: "wf_queue Q" and inv: "lease_inv (lq_entry Q) (q_next_seq (lq_inner Q)) ds"
    and l: "lease HOLDER n now Q = (ls, Q')"
  shows "wf_queue Q'" and "lease_inv (lq_entry Q') (q_next_seq (lq_inner Q')) (ds @ map delivery_new ls)"
proof -
  let ?p = "picked n (lq_inner Q)" and ?E = "lq_entry Q"
  note sp = lease_spec [OF wf, of HOLDER n now, unfolded l fst_conv snd_conv]
  note p = picked_props [OF wf_innerD(1) [OF wf], of n]
  have un: "set ?p \<subseteq> unleased ?E" using p(3) by simp
  have seqs: "map d_seq (map delivery_new ls) = ?p"
    by (simp add: sp(3) comp_def delivery_new_def to_lease_def)
  have E': "lq_entry Q' s = (if s \<in> set ?p then map_option (\<lambda>e. e\<lparr>e_lease :=
      Some \<lparr>h_holder = HOLDER, h_deadline = inst_checked_add now (lease_timeout (lq_cfg Q))\<rparr>\<rparr>) (?E s) else ?E s)" for s
    by (simp add: sp(2) lease_all_def)
  have mine': "mine (lq_entry Q') s = (if s \<in> set ?p then map_option e_item (?E s) else mine ?E s)" for s
    by (cases "?E s") (simp_all add: mine_def E')
  have old: "d_seq d \<notin> set ?p" if "d \<in> set ds" for d
  proof
    assume "d_seq d \<in> set ?p"
    with un have "?E (d_seq d) \<noteq> None" "mine ?E (d_seq d) = None" by (auto simp: unleased_def mine_def)
    with inv that show False by (simp add: lease_inv_def)
  qed
  have new: "d_seq d \<in> set ?p \<and> ?E (d_seq d) \<noteq> None \<and> d_env d = e_item (the (?E (d_seq d)))"
    if d: "d \<in> set (map delivery_new ls)" for d
    using d un by (auto simp: sp(3) delivery_new_def to_lease_def unleased_def)
  have lt: "s < q_next_seq (lq_inner Q)" if "?E s \<noteq> None" for s
    using that wf_coreD(8) [OF wf_innerD(1) [OF wf]] by blast
  show "wf_queue Q'" by (rule sp(1))
  have "distinct (map d_seq (ds @ map delivery_new ls))"
    unfolding map_append seqs distinct_append using inv p(1) old by (auto simp: lease_inv_def)
  moreover have "dom (mine (lq_entry Q')) \<subseteq> set (map d_seq (ds @ map delivery_new ls))"
    unfolding map_append seqs set_append using inv by (auto simp: lease_inv_def mine' split: if_splits)
  moreover have "d_seq d < q_next_seq (lq_inner Q') \<and>
      (lq_entry Q' (d_seq d) \<noteq> None \<longrightarrow> mine (lq_entry Q') (d_seq d) = Some (d_env d))"
    if d: "d \<in> set (ds @ map delivery_new ls)" for d
  proof (cases "d \<in> set ds")
    case True
    with inv old [OF True] show ?thesis by (simp add: lease_inv_def mine' E' sp(5))
  next
    case False
    with d have "d \<in> set (map delivery_new ls)" by auto
    from new [OF this] lt show ?thesis by (auto simp: mine' sp(5))
  qed
  ultimately show "lease_inv (lq_entry Q') (q_next_seq (lq_inner Q')) (ds @ map delivery_new ls)"
    by (simp add: lease_inv_def del: map_append set_append)
qed

text \<open>One delivery moves.\<close>

lemma next_seq_settle [simp]:
  "q_next_seq (lq_inner (snd (ack_seq h s Q))) = q_next_seq (lq_inner Q)"
  "q_next_seq (lq_inner (snd (release_seq h s Q))) = q_next_seq (lq_inner Q)"
  by (auto simp: ack_seq_def release_seq_def Let_def split_beta split: option.splits)

lemma core_step:
  assumes inv: "core_inv c ds" and i: "i < length ds" and e: "ends (ds ! i) c r c'"
    and t: "pu_targets c' = pu_targets c" and h: "heap_moves (wires ds) (ds ! i) c r c'"
  shows "core_inv c' (replace_at i r ds)"
proof -
  let ?d = "ds ! i" and ?Q = "pu_queue c"
  from inv have wf: "wf_queue ?Q" and li: "lease_inv (lq_entry ?Q) (q_next_seq (lq_inner ?Q)) ds"
    and fl: "pu_in_flight c = length ds" by (simp_all add: core_inv_def)
  have "wires (replace_at i r ds) = (\<lambda>a. wires ds a - of_bool (on_wire a ?d) + wired r a)"
    using wires_replace(1) [OF i] by blast
  with h inv t have rest: "heap_inv (pu_heap c') (wires (replace_at i r ds))" "targets_ok (length (pu_heap c')) (pu_targets c')"
    by (simp_all add: heap_moves_def core_inv_def)
  have st: "list_all (stage_ok (length (pu_heap c'))) (replace_at i r ds)"
    using h inv set_replace_at [of i r ds]
    by (auto simp: heap_moves_def core_inv_def list_all_iff split: option.splits)
  have "wf_queue (pu_queue c') \<and> pu_in_flight c' = length (replace_at i r ds) \<and>
      lease_inv (lq_entry (pu_queue c')) (q_next_seq (lq_inner (pu_queue c'))) (replace_at i r ds)"
  proof (cases r)
    case (Some d')
    with e have g: "goes_on ?d c d' c'" by (simp add: ends_def)
    with lease_inv_goes_on [OF li i, of d'] wf fl i Some show ?thesis by (simp add: goes_on_def replace_at_def)
  next
    case None
    with e consider "acks ?d c c'" | "releases ?d c c'" by (auto simp: ends_def)
    then show ?thesis
    proof cases
      case 1
      with lease_inv_ends [OF li i acked_lease [OF wf]] ack_seq_spec(1) [OF wf] fl i None show ?thesis
        by (simp add: acks_def replace_at_def)
    next
      case 2
      with lease_inv_ends [OF li i released_lease [OF wf]] release_seq_spec(1) [OF wf] fl i None show ?thesis
        by (simp add: releases_def replace_at_def)
    qed
  qed
  with rest st show ?thesis by (simp add: core_inv_def)
qed

lemma core_segment:
  assumes "core_inv c ds" and "i < length ds" and "segment env now cancelled (ds ! i) c r c'"
  shows "core_inv c' (replace_at i r ds)"
proof -
  from assms have h: "heap_inv (pu_heap c) (wires ds)" "targets_ok (length (pu_heap c)) (pu_targets c)"
    "stage_ok (length (pu_heap c)) (ds ! i)" by (auto simp: core_inv_def list_all_length)
  from core_step [OF assms(1,2) _ _ segment_heap [OF assms(3) h]] segment_ends [OF assms(3)] show ?thesis by blast
qed

lemma core_drop:
  assumes "core_inv c (d # ds)"
  shows "core_inv (drop_delivery now d c) ds"
proof -
  have h: "heap_inv (pu_heap c) (wires (d # ds))" and ok: "stage_ok (length (pu_heap c)) d"
    using assms by (simp_all add: core_inv_def)
  have "heap_moves (wires (d # ds)) d c None (drop_delivery now d c)"
  proof (cases "\<exists>s. d_stage d = OnWire s")
    case True
    then obtain s where s: "d_stage d = OnWire s" by blast
    then have a: "sd_addr s < length (pu_heap c)" using ok by (simp add: stage_ok_def)
    have "(\<lambda>a. wires (d # ds) a - of_bool (on_wire a d) + wired None a) =
        (wires (d # ds))(sd_addr s := wires (d # ds) (sd_addr s) - 1)"
      using s by (auto simp: on_wire_def wired_def)
    with heap_inv_return [OF h a] s show ?thesis by (simp add: heap_moves_def drop_delivery_def drop_heap(2))
  next
    case False
    then show ?thesis
      by (intro heap_stays [OF h]) (auto simp: drop_delivery_def on_wire_def split: stage.splits)
  qed
  moreover have "ends d c None (drop_delivery now d c)" "pu_targets (drop_delivery now d c) = pu_targets c"
    by (auto simp: ends_def releases_def going_on_def drop_delivery_def split: stage.splits)
  ultimately have "core_inv (drop_delivery now d c) (replace_at 0 None (d # ds))"
    using core_step [OF assms, of 0 None] by simp
  then show ?thesis by (simp add: replace_at_def)
qed

lemma core_force: "core_inv c ds \<Longrightarrow> core_inv (fold (drop_delivery now) ds c) []"
  by (induction ds arbitrary: c) (auto dest: core_drop)

text \<open>New slots.\<close>

definition fresh_slot :: "push_slot \<Rightarrow> bool" where
  "fresh_slot slot \<longleftrightarrow> ps_in_flight slot = 0 \<and> wf_breaker (ps_breaker slot) \<and> state_of (ps_breaker slot) \<noteq> HalfOpen"

lemma fresh_runtime: "fresh_slot (runtime_slot env now e opts)"
  using wf_breaker_ops(1) [of "po_breaker opts" now]
  by (simp add: fresh_slot_def runtime_slot_def state_of_def breaker_new_def Let_def)

lemma closed_wf: "state_of b = Breaker.Closed \<Longrightarrow> wf_breaker b"
  by (auto simp: state_of_def wf_breaker_def Let_def split: if_splits)

lemma fresh_configured:
  assumes "\<forall>e \<in> set eps. state_of (ep_breaker e) = Breaker.Closed" and "slot \<in> set (configured_slots env eps)"
  shows "fresh_slot slot"
proof -
  from assms(2) obtain e where "e \<in> set eps" "ps_breaker slot = ep_breaker e" "ps_in_flight slot = 0"
    by (force simp: configured_slots_def in_set_enumerate_eq)
  with assms(1) closed_wf [of "ep_breaker e"] show ?thesis by (simp add: fresh_slot_def)
qed

lemma stage_ok_mono: "stage_ok n d \<Longrightarrow> n \<le> m \<Longrightarrow> stage_ok m d"
  by (auto simp: stage_ok_def split: stage.splits)

lemma core_slots:
  assumes inv: "core_inv c ds" and "\<forall>slot \<in> set fresh. fresh_slot slot"
    and "pu_queue c' = pu_queue c" "pu_in_flight c' = pu_in_flight c" "pu_heap c' = pu_heap c @ fresh"
    and "targets_ok (length (pu_heap c')) (pu_targets c')"
  shows "core_inv c' ds"
proof -
  have w: "wires ds a = 0" if "length (pu_heap c) \<le> a" for a
    using inv that by (auto simp: core_inv_def wires_def filter_empty_conv list_all_iff on_wire_def stage_ok_def split: stage.splits)
  have "heap_inv (pu_heap c @ fresh) (wires ds)"
    using inv assms(2) w by (auto simp: core_inv_def heap_inv_def nth_append fresh_slot_def)
  moreover have "list_all (stage_ok (length (pu_heap c @ fresh))) ds"
    using inv stage_ok_mono by (auto simp: core_inv_def list_all_iff)
  ultimately show ?thesis using inv assms(3-6) by (simp add: core_inv_def)
qed

lemma targets_okI: "set (tt_slots tt) \<subseteq> {..<n} \<Longrightarrow> targets_ok n tt"
  by (auto simp: targets_ok_def)

lemma core_set_endpoints:
  assumes inv: "core_inv c ds" and "\<forall>e \<in> set eps. state_of (ep_breaker e) = Breaker.Closed"
  shows "core_inv (set_endpoints env now eps opts c) ds"
proof -
  let ?f = "configured_slots env eps" and ?c = "set_endpoints env now eps opts c"
  have old: "set (tt_slots (pu_targets c)) \<subseteq> {..<length (pu_heap c)}"
    using inv by (auto simp: core_inv_def targets_ok_def)
  have last: "tt_slots (pu_targets c) \<noteq> [] \<Longrightarrow> last (tt_slots (pu_targets c)) < length (pu_heap c)"
    using old last_in_set by blast
  have "\<exists>fresh. (\<forall>slot \<in> set fresh. fresh_slot slot) \<and> pu_heap ?c = pu_heap c @ fresh \<and>
      set (tt_slots (pu_targets ?c)) \<subseteq> {..<length (pu_heap ?c)}"
  proof (cases "pu_heap ?c = pu_heap c @ ?f")
    case True
    then show ?thesis
      using fresh_configured [OF assms(2)] last
      by (intro exI [of _ ?f]) (auto simp: set_endpoints_def Let_def split: option.splits if_splits)
  next
    case False
    then obtain r where "pu_heap ?c = pu_heap c @ ?f @ [runtime_slot env now r opts]"
      "tt_slots (pu_targets ?c) = [length (pu_heap c)..<length (pu_heap c) + length ?f] @ [length (pu_heap c) + length ?f]"
      by (auto simp: set_endpoints_def Let_def split: option.splits if_splits)
    with fresh_configured [OF assms(2)] fresh_runtime show ?thesis
      by (intro exI [of _ "?f @ [runtime_slot env now r opts]"]) auto
  qed
  then obtain fresh where "\<forall>slot \<in> set fresh. fresh_slot slot" "pu_heap ?c = pu_heap c @ fresh"
      "set (tt_slots (pu_targets ?c)) \<subseteq> {..<length (pu_heap ?c)}" by blast
  moreover have "pu_queue ?c = pu_queue c" "pu_in_flight ?c = pu_in_flight c"
    by (simp_all add: set_endpoints_def Let_def split_beta)
  ultimately show ?thesis by (intro core_slots [OF inv _ _ _ _ targets_okI])
qed

lemma core_set_runtime:
  assumes inv: "core_inv c ds"
  shows "core_inv (set_runtime_endpoint env now e c) ds"
proof -
  have "set (configured (pu_targets c)) \<subseteq> {..<length (pu_heap c)}"
    using inv set_take_subset by (fastforce simp: configured_def core_inv_def targets_ok_def)
  then show ?thesis
    using fresh_runtime [of env now "the e" "tt_opts (pu_targets c)"]
    by (intro core_slots [OF inv, of "case e of None \<Rightarrow> [] | Some r \<Rightarrow> [runtime_slot env now r (tt_opts (pu_targets c))]"])
      (auto simp: set_runtime_endpoint_def Let_def targets_ok_def split: option.splits)
qed

lemma core_others:
  assumes "push_others env c c'" and inv: "core_inv c ds"
  shows "core_inv c' ds"
  using assms(1)
proof (cases rule: push_others.cases)
  case (push_queue op ps Q ps')
  from inv have wf: "wf_queue (pu_queue c)" by (simp add: core_inv_def)
  note ref = step_refines [OF wf push_queue(3)]
  have "mine_kept (q_next_seq (lq_inner (pu_queue c))) (lq_entry (pu_queue c)) (lq_entry Q)"
    by (rule mine_foreign [OF conjunct2 [OF ref] push_queue(2) finite_entries [OF wf] next_seq_fresh [OF wf]])
  from lease_inv_kept [OF _ this step_next_seq [OF wf push_queue(3)]] inv ref push_queue(1) show ?thesis
    by (simp add: core_inv_def)
next
  case (push_endpoints eps now opts)
  with core_set_endpoints [OF inv] show ?thesis by simp
next
  case (push_runtime now e)
  with core_set_runtime [OF inv] show ?thesis by simp
qed (use inv in \<open>auto simp: core_inv_def set_options_def targets_ok_def push_begin_drain_def push_end_drain_def
    push_publish_gauges_def push_pause_def push_resume_def\<close>)

lemma held_new_frame:
  "pu_queue (fold (\<lambda>_. held_new) ls c) = pu_queue c" "pu_heap (fold (\<lambda>_. held_new) ls c) = pu_heap c"
  "pu_targets (fold (\<lambda>_. held_new) ls c) = pu_targets c"
  "pu_in_flight (fold (\<lambda>_. held_new) ls c) = pu_in_flight c + length ls"
  "pu_letters (fold (\<lambda>_. held_new) ls c) = pu_letters c" "deliveries_made (fold (\<lambda>_. held_new) ls c) = deliveries_made c"
  by (induction ls arbitrary: c) auto

lemma wires_new: "wires (ds @ map delivery_new ls) = wires ds"
  by (auto simp: wires_def on_wire_def delivery_new_def filter_empty_conv fun_eq_iff)

lemma core_round:
  assumes inv: "core_inv c ds" and r: "dispatch_round cancelled now ds c = (dp, ds', c')"
  shows "core_inv c' ds'" and "dp = DStopped \<Longrightarrow> ds' = []"
proof -
  from r show "dp = DStopped \<Longrightarrow> ds' = []"
    by (auto simp: dispatch_round_def Let_def split: if_splits prod.splits)
  show "core_inv c' ds'"
  proof (cases "c' = c \<and> ds' = ds")
    case False
    let ?n = "po_max_in_flight (tt_opts (pu_targets c)) - length ds"
    obtain ls Q where l: "lease HOLDER ?n now (pu_queue c) = (ls, Q)" by fastforce
    have wf: "wf_queue (pu_queue c)" "lease_inv (lq_entry (pu_queue c)) (q_next_seq (lq_inner (pu_queue c))) ds"
      using inv by (simp_all add: core_inv_def)
    note g = lease_inv_grow [OF wf l]
    have st: "list_all (stage_ok (length (pu_heap c))) (ds @ map delivery_new ls)"
      using inv by (auto simp: core_inv_def list_all_iff delivery_new_def stage_ok_def)
    from False r l have "(ls = [] \<and> ds' = ds \<and> c' = c\<lparr>pu_queue := Q\<rparr>) \<or>
        (ds' = ds @ map delivery_new ls \<and> c' = push_update_depth (fold (\<lambda>_. held_new) ls (c\<lparr>pu_queue := Q\<rparr>)))"
      by (auto simp: dispatch_round_def Let_def split: if_splits)
    then show ?thesis
      using g st inv by (auto simp: core_inv_def held_new_frame wires_new)
  qed (use inv in simp)
qed

lemma push_step_inv:
  assumes "push_step env k k'" and "push_inv k"
  shows "push_inv k'"
  using assms(1)
proof (cases rule: push_step.cases)
  case (st_others c)
  with assms(2) core_others show ?thesis by (auto simp: push_inv_def)
next
  case (st_round dp ds c)
  with assms(2) core_round [OF _ st_round(3)] show ?thesis by (auto simp: push_inv_def)
next
  case (st_segment n m stopping i r c)
  with assms(2) core_segment [OF _ st_segment(3,4)] show ?thesis by (auto simp: push_inv_def)
next
  case (st_force n m stopping)
  with assms(2) core_force show ?thesis by (auto simp: push_inv_def)
qed (use assms(2) in \<open>auto simp: push_inv_def\<close>)

lemma push_reach_inv: "push_reach env k \<Longrightarrow> push_inv k"
proof (induction rule: push_reach.induct)
  case (push_start eps name qid cfg opts via t)
  let ?c = "push_new env name qid cfg eps opts via"
  have "lease_inv (lq_entry (pu_queue ?c)) n []" for n
    by (auto simp: lease_inv_def push_new_def new_queue_def new_inner_def mine_def Let_def dom_def)
  moreover have "heap_inv (pu_heap ?c) (wires [])"
    using fresh_configured [OF push_start, of _ env] nth_mem
    by (fastforce simp: heap_inv_def wires_def push_new_def Let_def fresh_slot_def)
  ultimately show ?case
    by (simp add: push_inv_def core_inv_def push_started_def targets_ok_def wf_new)
      (simp add: push_new_def Let_def wf_new)
next
  case (push_next k k')
  with push_step_inv show ?case by blast
qed

section \<open>What a step does with the updates\<close>

definition carries_over :: "envelope emap \<Rightarrow> envelope emap \<Rightarrow> bool" where
  "carries_over E E' \<longleftrightarrow> (\<forall>s e. E s = Some e \<longrightarrow> (\<exists>e'. E' s = Some e' \<and> payload e' = payload e))"

lemma carries_over_refl [simp]: "carries_over E E"
  by (simp add: carries_over_def)

lemma carries_over_trans: "carries_over E E1 \<Longrightarrow> carries_over E1 E2 \<Longrightarrow> carries_over E E2"
  by (fastforce simp: carries_over_def)

lemma lease_carries_over: "wf_queue Q \<Longrightarrow> carries_over (lq_entry Q) (lq_entry (snd (lease h n now Q)))"
  by (auto simp: carries_over_def lease_spec(2) lease_all_def)

lemma release_carries_over: "wf_queue Q \<Longrightarrow> carries_over (lq_entry Q) (lq_entry (snd (release_seq h n Q)))"
  by (auto simp: carries_over_def release_seq_spec(3) unlease_all_def)

lemma force_carries_over:
  "core_inv c ds \<Longrightarrow> carries_over (lq_entry (pu_queue c)) (lq_entry (pu_queue (fold (drop_delivery now) ds c)))"
proof (induction ds arbitrary: c)
  case (Cons d ds)
  have "pu_queue (drop_delivery now d c) = snd (release_seq HOLDER (d_seq d) (pu_queue c))"
    by (auto simp: drop_delivery_def split: stage.splits)
  moreover have "wf_queue (pu_queue c)" using Cons.prems by (simp add: core_inv_def)
  ultimately have "carries_over (lq_entry (pu_queue c)) (lq_entry (pu_queue (drop_delivery now d c)))"
    using release_carries_over by metis
  with Cons.IH [OF core_drop [OF Cons.prems]] show ?case by (auto intro: carries_over_trans)
qed simp

lemma round_carries_over:
  assumes "wf_queue (pu_queue c)" and "dispatch_round cancelled now ds c = (dp, ds', c')"
  shows "carries_over (lq_entry (pu_queue c)) (lq_entry (pu_queue c'))"
  using assms(2) lease_carries_over [OF assms(1)]
  by (auto simp: dispatch_round_def Let_def split_beta held_new_frame split: if_splits)

lemma segment_carries_over:
  assumes inv: "core_inv c ds" and d: "d \<in> set ds" and e: "ends d c r c'" and "lq_entry (pu_queue c) s = Some x"
  shows "(\<exists>x'. lq_entry (pu_queue c') s = Some x' \<and> payload x' = payload x) \<or>
    d_seq d = s \<and> d_env d = e_item x \<and> r = None \<and> ended (d_env d) c c'"
proof -
  from inv have wf: "wf_queue (pu_queue c)" by (simp add: core_inv_def)
  consider "acks d c c'" "r = None" | "releases d c c'" | "pu_queue c' = pu_queue c"
    using e by (cases r) (auto simp: ends_def goes_on_def)
  then show ?thesis
  proof cases
    case 1
    show ?thesis
    proof (cases "d_seq d = s")
      case True
      have "mine (lq_entry (pu_queue c)) s = Some (d_env d)"
        using inv d assms(4) True by (auto simp: core_inv_def lease_inv_def)
      with 1 True assms(4) show ?thesis by (auto simp: acks_def dest!: mine_SomeD)
    next
      case False
      with 1 acked_lease(2) [OF wf, of s "d_seq d"] assms(4) show ?thesis by (simp add: acks_def)
    qed
  next
    case 2
    with release_carries_over [OF wf] assms(4) show ?thesis by (auto simp: releases_def carries_over_def)
  qed (use assms(4) in simp)
qed

section \<open>Dead letters\<close>

definition transient_cause :: "cause \<Rightarrow> bool" where
  "transient_cause ca =
     (case ca of CStatus st \<Rightarrow> st = 408 \<or> st = 429 \<or> (500 \<le> st \<and> st < 600) | CError _ \<Rightarrow> True | _ \<Rightarrow> False)"

definition permanent_cause :: "cause \<Rightarrow> bool" where
  "permanent_cause ca =
     (case ca of
        CStatus st \<Rightarrow> \<not> (200 \<le> st \<and> st < 300) \<and> st \<noteq> 408 \<and> st \<noteq> 429 \<and> \<not> (500 \<le> st \<and> st < 600 \<and> st \<noteq> 508)
      | CError _ \<Rightarrow> True | CInvalidSecret \<Rightarrow> True | CExpired \<Rightarrow> False)"

text \<open>Why an update may be given up.\<close>

definition letter_ok :: "dead_letter \<Rightarrow> bool" where
  "letter_ok dl \<longleftrightarrow>
     (if dl_reason dl = ''redirect'' then dl_endpoint dl \<noteq> None \<and> (\<exists>st. dl_cause dl = CStatus st \<and> 300 \<le> st \<and> st < 400)
      else if dl_reason dl = ''rejected'' then dl_endpoint dl \<noteq> None \<and> permanent_cause (dl_cause dl)
      else if dl_reason dl = ''max_attempts'' then dl_endpoint dl \<noteq> None \<and> transient_cause (dl_cause dl)
      else dl_reason dl = ''max_age'' \<and>
        (if dl_endpoint dl = None then dl_cause dl = CExpired else transient_cause (dl_cause dl)))"

definition last_ok :: "delivery \<Rightarrow> bool" where
  "last_ok d = (case d_last d of None \<Rightarrow> True | Some (_, ca) \<Rightarrow> transient_cause ca)"

definition letters_grow :: "push_consumer \<Rightarrow> delivery option \<Rightarrow> push_consumer \<Rightarrow> bool" where
  "letters_grow c r c' \<longleftrightarrow> (list_all letter_ok (pu_letters c) \<longrightarrow> list_all letter_ok (pu_letters c')) \<and>
     (case r of None \<Rightarrow> True | Some d \<Rightarrow> last_ok d)"

lemma classify_causes:
  "classify via ans = Some (Permanent ca) \<Longrightarrow> permanent_cause ca"
  "classify via ans = Some (Transient ca ra) \<Longrightarrow> transient_cause ca"
  by (cases ans; auto simp: classify_def permanent_cause_def transient_cause_def Let_def split: if_splits)+

lemma settle_letters:
  assumes "settle draw now d s result c = (r, c')" and "last_ok d"
    and "\<And>ca. result = Inl (Permanent ca) \<Longrightarrow> permanent_cause ca"
    and "\<And>ca ra. result = Inl (Transient ca ra) \<Longrightarrow> transient_cause ca"
  shows "letters_grow c r c'"
proof (cases result)
  case (Inr rep)
  with assms(1,2) show ?thesis
    by (cases rep) (auto simp: settle_def Let_def letters_grow_def last_ok_def split: if_splits)
next
  case (Inl f)
  show ?thesis
  proof (cases f)
    case (Permanent ca)
    with Inl assms(1) assms(3) [of ca] show ?thesis
      by (cases ca) (auto simp: settle_def Let_def letters_grow_def letter_ok_def permanent_reason_def split: if_splits)
  next
    case (Transient ca ra)
    with Inl assms(1,2) assms(4) [of ca ra] show ?thesis
      by (auto simp: settle_def Let_def letters_grow_def letter_ok_def last_ok_def split: if_splits prod.splits)
  qed
qed

lemma round_letters:
  assumes "deliver_round env draw now cancelled d c = Some (r, c')" and ok: "last_ok d"
  shows "letters_grow c r c'"
  using assms(1)
proof (cases rule: deliver_round_cases)
  case (unsendable s att c1)
  have "letters_grow c1 r c'"
    by (rule settle_letters [OF unsendable(2)]) (use ok in \<open>auto simp: last_ok_def permanent_cause_def\<close>)
  with picked_frame(4) [OF unsendable(1)] show ?thesis by (simp add: letters_grow_def)
next
  case (sent s rq att c1)
  with ok picked_frame(4) [OF sent(1)] show ?thesis by (simp add: letters_grow_def last_ok_def)
qed (use ok in \<open>auto simp: letters_grow_def letter_ok_def last_ok_def split: option.splits\<close>)

lemma segment_letters:
  assumes "segment env now cancelled d c r c'" and ok: "last_ok d"
  shows "letters_grow c r c'"
  using assms(1)
proof (cases rule: segment.cases)
  case (seg_answer s draw ans)
  obtain result c1 where sr: "send_result s (d_env d) ans c = (result, c1)" by fastforce
  with seg_answer(2) have st: "settle draw now d s result c1 = (r, c')" by (simp add: deliver_answer_def)
  have f: "classify (pu_via c) ans = Some f" if "result = Inl f" for f
    using sr that by (auto simp: send_result_def split: option.splits answer.splits if_splits sum.splits)
  have "letters_grow c1 r c'"
    by (rule settle_letters [OF st ok]) (auto dest!: f intro: classify_causes)
  with send_result_frame [OF sr] show ?thesis by (auto simp: letters_grow_def)
qed (use ok round_letters in \<open>auto simp: letters_grow_def\<close>)

end
