(* ===== verification/Push_Main.thy ===== *)
theory Push_Main
  imports Push_Props
begin

text \<open>
  The properties of the push consumer over everything reachable, with a concrete run: an
  update is committed, leased, sent, and answered.
\<close>

section \<open>A concrete run\<close>

definition demo_push_env :: push_env where
  "demo_push_env = \<lparr>pe_header_ok = (\<lambda>_. True), pe_origin = id\<rparr>"

definition demo_endpoint :: endpoint where
  "demo_endpoint = \<lparr>ep_url = ''http://bot/hook'', ep_origin = ''http://bot'', ep_secret_token = Some ''s'',
     ep_timeout = NANOS_PER_SEC, ep_breaker = breaker_new breaker_config_default 0\<rparr>"

definition demo_push_opts :: push_options where
  "demo_push_opts = \<lparr>po_max_in_flight = 4, po_balance = BRoundRobin,
     po_retry = \<lparr>rt_initial = NANOS_PER_SEC, rt_max = 10 * NANOS_PER_SEC, rt_max_attempts = 3, rt_max_age = 100 * NANOS_PER_SEC\<rparr>,
     po_source_names = [''mybot''], po_breaker = breaker_config_default, po_runtime_timeout = NANOS_PER_SEC, po_reply = None\<rparr>"

definition demo_push_new :: push_consumer where
  "demo_push_new = push_new demo_push_env ''hooks'' 7 demo_cfg [demo_endpoint] demo_push_opts ''tgin-1''"

definition demo_push_reserved :: push_consumer where
  "demo_push_reserved = demo_push_new\<lparr>pu_queue := (pu_queue demo_push_new)\<lparr>lq_res_items := 1, lq_res_bytes := 3\<rparr>\<rparr>"

definition demo_push_filled :: push_consumer where
  "demo_push_filled = demo_push_reserved\<lparr>pu_queue := snd (commit demo_permit demo_update None 5 (pu_queue demo_push_reserved))\<rparr>"

definition demo_leased_conf :: push_conf where
  "demo_leased_conf =
     (case dispatch_round False 3 [] demo_push_filled of
        (dp, ds, c) \<Rightarrow> \<lparr>cf_consumer = c, cf_deliveries = ds, cf_dispatcher = dp, cf_cancelled = False, cf_now = 3\<rparr>)"

definition demo_sent :: "delivery option \<times> push_consumer" where
  "demo_sent = the (deliver_round demo_push_env id 3 False (hd (cf_deliveries demo_leased_conf)) (cf_consumer demo_leased_conf))"

definition demo_sent_conf :: push_conf where
  "demo_sent_conf = demo_leased_conf\<lparr>cf_deliveries := [the (fst demo_sent)], cf_consumer := snd demo_sent\<rparr>"

definition demo_sending :: sending where
  "demo_sending = \<lparr>sd_targets = pu_targets demo_push_new, sd_index = 0\<rparr>"

definition demo_answer :: "nat \<Rightarrow> answer" where
  "demo_answer st = Response \<lparr>hr_status = st, hr_via = [], hr_retry_after = None, hr_content_type = None,
     hr_content_length = None, hr_chunks = []\<rparr>"

definition demo_answered :: "nat \<Rightarrow> delivery option \<times> push_consumer" where
  "demo_answered st = deliver_answer id 3 (demo_answer st) (the (fst demo_sent)) demo_sending (snd demo_sent)"

definition demo_answered_conf :: "nat \<Rightarrow> push_conf" where
  "demo_answered_conf st = demo_sent_conf\<lparr>cf_deliveries := [], cf_consumer := snd (demo_answered st), cf_dispatcher := Rounding\<rparr>"

lemma demo_filled_reach: "push_reach demo_push_env (push_started demo_push_env demo_push_filled 3)"
proof -
  let ?k = "push_started demo_push_env demo_push_new 3"
  have "state_of (ep_breaker demo_endpoint) = Breaker.Closed" by code_simp
  then have k: "push_reach demo_push_env ?k"
    unfolding demo_push_new_def by (intro push_start) simp
  have "try_reserve 3 (pu_queue demo_push_new) = Some (Inr demo_permit, pu_queue demo_push_reserved)" by code_simp
  from push_queue [OF _ reserve_ok [OF this, of "[]"], of demo_push_env]
  have "push_others demo_push_env demo_push_new demo_push_reserved"
    by (simp add: foreign_op_def demo_push_reserved_def)
  from push_next [OF k st_others, of demo_push_reserved] this
  have r: "push_reach demo_push_env (push_started demo_push_env demo_push_reserved 3)"
    by (simp add: push_started_def)
  have "push_others demo_push_env demo_push_reserved demo_push_filled"
    unfolding demo_push_filled_def
    by (rule push_queue [OF _ commit_ok [of demo_permit "[demo_permit]"]]) (simp_all add: foreign_op_def)
  from push_next [OF r st_others, of demo_push_filled] this show ?thesis by (simp add: push_started_def)
qed

lemma demo_leased_reach: "push_reach demo_push_env demo_leased_conf"
proof -
  obtain dp ds c where d: "dispatch_round False 3 [] demo_push_filled = (dp, ds, c)" using prod_cases3 by blast
  from push_next [OF demo_filled_reach st_round, of dp ds c] d show ?thesis
    by (simp add: push_started_def demo_leased_conf_def)
qed

lemma demo_run:
  "case dispatch_round False 3 [] demo_push_filled of
     (dp, ds, c) \<Rightarrow> dp = DWaiting 1 0 False \<and> length ds = 1 \<and> d_stage (hd ds) = Choosing \<and>
       (case deliver_round demo_push_env id 3 False (hd ds) c of
          None \<Rightarrow> False
        | Some (r, c') \<Rightarrow> r \<noteq> None \<and> d_stage (the r) = OnWire demo_sending \<and> d_seq (the r) = 0 \<and>
            lq_entry (pu_queue c') 0 \<noteq> None)"
  by code_simp

lemma demo_facts:
  "cf_dispatcher demo_leased_conf = DWaiting 1 0 False" "cf_now demo_leased_conf = 3" "\<not> cf_cancelled demo_leased_conf"
  "length (cf_deliveries demo_leased_conf) = 1" "d_stage (hd (cf_deliveries demo_leased_conf)) = Choosing"
  "deliver_round demo_push_env id 3 False (hd (cf_deliveries demo_leased_conf)) (cf_consumer demo_leased_conf) = Some demo_sent"
  "fst demo_sent \<noteq> None" "d_stage (the (fst demo_sent)) = OnWire demo_sending" "d_seq (the (fst demo_sent)) = 0"
  "lq_entry (pu_queue (snd demo_sent)) 0 \<noteq> None"
  using demo_run
  by (auto simp: demo_leased_conf_def demo_sent_def split: prod.splits option.splits)

lemma demo_sent_reach: "push_reach demo_push_env demo_sent_conf"
proof -
  obtain d where ds: "cf_deliveries demo_leased_conf = [d]" using demo_facts(4) by (auto simp: length_Suc_conv)
  obtain d' where d': "fst demo_sent = Some d'" using demo_facts(7) by blast
  have "deliver_round demo_push_env id 3 False d (cf_consumer demo_leased_conf) = Some (Some d', snd demo_sent)"
    using demo_facts(6) ds d' by (metis list.sel(1) prod.collapse)
  then have "segment demo_push_env 3 False d (cf_consumer demo_leased_conf) (Some d') (snd demo_sent)"
    using demo_facts(5) ds by (intro seg_start) simp_all
  then have "push_step demo_push_env demo_leased_conf (demo_leased_conf\<lparr>cf_deliveries := [d'],
      cf_consumer := snd demo_sent, cf_dispatcher := DWaiting 1 0 False\<rparr>)"
    using st_segment [OF demo_facts(1), of 0 demo_push_env "Some d'" "snd demo_sent"] ds demo_facts(2,3)
    by (simp add: replace_at_def)
  then have "push_step demo_push_env demo_leased_conf demo_sent_conf"
    using demo_facts(1) d' by (simp add: demo_sent_conf_def demo_leased_conf_def split_beta)
  with demo_leased_reach show ?thesis by (rule push_next)
qed

lemma demo_sent_simps:
  "cf_dispatcher demo_sent_conf = DWaiting 1 0 False" "cf_now demo_sent_conf = 3"
  "cf_deliveries demo_sent_conf = [the (fst demo_sent)]" "cf_consumer demo_sent_conf = snd demo_sent"
  "cf_consumer (demo_answered_conf st) = snd (demo_answered st)"
  using demo_facts(1,2) by (simp_all add: demo_sent_conf_def demo_answered_conf_def)

lemma demo_sent_core: "core_inv (snd demo_sent) [the (fst demo_sent)]"
  using push_reach_inv [OF demo_sent_reach] by (simp add: push_inv_def demo_sent_simps)

lemma demo_answered_step:
  assumes "fst (demo_answered st) = None"
  shows "push_step demo_push_env demo_sent_conf (demo_answered_conf st)"
proof -
  have "segment demo_push_env (cf_now demo_sent_conf) (cf_cancelled demo_sent_conf) (cf_deliveries demo_sent_conf ! 0)
      (cf_consumer demo_sent_conf) None (snd (demo_answered st))"
    using assms demo_facts(8) demo_sent_simps
    by (intro seg_answer [of _ demo_sending id _ "demo_answer st"]) (simp_all add: demo_answered_def prod_eq_iff)
  from st_segment [OF demo_sent_simps(1) _ this] show ?thesis
    by (simp add: demo_answered_conf_def demo_sent_conf_def replace_at_def)
qed

lemma demo_opts: "tt_opts (sd_targets demo_sending) = demo_push_opts" "po_reply demo_push_opts = None"
  by (simp_all add: demo_sending_def demo_push_new_def push_new_def Let_def demo_push_opts_def)

lemma demo_delivered: "fst (demo_answered 200) = None"
  by (simp add: demo_answered_def deliver_answer_def send_result_def classify_def demo_answer_def settle_def
      executor_def demo_opts Let_def)

lemma demo_rejected:
  "fst (demo_answered 404) = None"
  "map dl_reason (pu_letters (snd (demo_answered 404))) = map dl_reason (pu_letters (snd demo_sent)) @ [''rejected'']"
  by (simp_all add: demo_answered_def deliver_answer_def send_result_def classify_def demo_answer_def settle_def
      permanent_reason_def Let_def)

section \<open>Properties\<close>

text \<open>
  C36. Nothing leaks. In every reachable state of a push consumer, whatever interleaves with
  its deliveries: the deliveries in flight are counted, no two share a lease, and every lease
  the dispatcher holds belongs to one of them, which carries that very update; every slot
  counts exactly its requests on the wire; and a breaker waits for a probe only while a
  request to its endpoint is on the wire, so no lost probe keeps an endpoint out. Once the
  dispatcher has stopped, no update is left leased to it.
\<close>

theorem push_accounts:
  assumes "push_reach env k"
  defines "c \<equiv> cf_consumer k" and "ds \<equiv> cf_deliveries k"
  shows "pu_in_flight c = length ds \<and> distinct (map d_seq ds) \<and>
    held_by (lq_entry (pu_queue c)) HOLDER \<subseteq> set (map d_seq ds) \<and>
    list_all (\<lambda>d. case lq_entry (pu_queue c) (d_seq d) of
        None \<Rightarrow> True
      | Some e \<Rightarrow> map_option h_holder (e_lease e) = Some HOLDER \<and> e_item e = d_env d) ds \<and>
    (\<forall>a < length (pu_heap c). ps_in_flight (pu_heap c ! a) = wires ds a \<and>
       (state_of (ps_breaker (pu_heap c ! a)) = HalfOpen \<longrightarrow> 0 < wires ds a)) \<and>
    (cf_dispatcher k = DStopped \<longrightarrow> held_by (lq_entry (pu_queue c)) HOLDER = {} \<and> pu_in_flight c = 0)"
proof -
  have inv: "core_inv c ds" "cf_dispatcher k = DStopped \<longrightarrow> ds = []"
    using push_reach_inv [OF assms(1)] by (simp_all add: push_inv_def c_def ds_def)
  have d: "case lq_entry (pu_queue c) (d_seq d) of None \<Rightarrow> True
      | Some e \<Rightarrow> map_option h_holder (e_lease e) = Some HOLDER \<and> e_item e = d_env d" if "d \<in> set ds" for d
    using inv(1) that mine_SomeD [of "lq_entry (pu_queue c)" "d_seq d" "d_env d"]
    by (auto simp: core_inv_def lease_inv_def split: option.splits)
  from inv(1) have l: "distinct (map d_seq ds)" "held_by (lq_entry (pu_queue c)) HOLDER \<subseteq> set (map d_seq ds)"
    "pu_in_flight c = length ds" "heap_inv (pu_heap c) (wires ds)"
    by (simp_all add: core_inv_def lease_inv_def dom_mine)
  have "list_all (\<lambda>d. case lq_entry (pu_queue c) (d_seq d) of None \<Rightarrow> True
      | Some e \<Rightarrow> map_option h_holder (e_lease e) = Some HOLDER \<and> e_item e = d_env d) ds"
    using d by (simp add: list_all_iff)
  moreover have "cf_dispatcher k = DStopped \<longrightarrow> held_by (lq_entry (pu_queue c)) HOLDER = {} \<and> pu_in_flight c = 0"
    using l(2,3) inv(2) by auto
  ultimately show ?thesis using l by (auto simp: heap_inv_def)
qed

theorem push_accounts_witness:
  "pu_in_flight (snd demo_sent) = 1 \<and> ps_in_flight (pu_heap (snd demo_sent) ! 0) = 1"
proof -
  have a: "sd_addr demo_sending = 0" by (simp add: sd_addr_def slot_addr_def demo_sending_def demo_push_new_def push_new_def
      Let_def configured_slots_def demo_endpoint_def)
  have "wires [the (fst demo_sent)] 0 = 1" using demo_facts(8) a by (simp add: wires_def on_wire_def)
  moreover have "0 < length (pu_heap (snd demo_sent))"
    using demo_sent_core demo_facts(8) a by (auto simp: core_inv_def stage_ok_def)
  ultimately show ?thesis using push_accounts [OF demo_sent_reach] by (simp add: demo_sent_simps)
qed

text \<open>
  C37. No update is lost or acked early. Whatever step a reachable push consumer takes, an
  update that was queued or leased is still there afterwards with what it carries, unless the
  step is an operation of others on the queue, or the update's own delivery ended: it was
  answered with success and its reply, if any, has run, or it was dead-lettered. A stopped or
  killed dispatcher loses nothing.
\<close>

theorem push_settles:
  assumes "push_reach env k" and "push_step env k k'" and "lq_entry (pu_queue (cf_consumer k)) s = Some e"
  shows "push_others env (cf_consumer k) (cf_consumer k') \<or>
    (\<exists>e'. lq_entry (pu_queue (cf_consumer k')) s = Some e' \<and> payload e' = payload e) \<or>
    list_ex (\<lambda>d. d_seq d = s \<and> d_env d = e_item e \<and> ended (d_env d) (cf_consumer k) (cf_consumer k')) (cf_deliveries k)"
proof -
  have inv: "core_inv (cf_consumer k) (cf_deliveries k)"
    using push_reach_inv [OF assms(1)] by (simp add: push_inv_def)
  from assms(2) show ?thesis
  proof (cases rule: push_step.cases)
    case (st_round dp ds c)
    with round_carries_over [OF _ st_round(3)] inv assms(3) show ?thesis
      by (auto simp: core_inv_def carries_over_def)
  next
    case (st_segment n m stopping i r c)
    have "cf_deliveries k ! i \<in> set (cf_deliveries k)" using st_segment(3) by simp
    from segment_carries_over [OF inv this conjunct1 [OF segment_ends [OF st_segment(4)]] assms(3)] this st_segment(1)
    show ?thesis by (auto simp: list_ex_iff)
  next
    case (st_force n m stopping)
    with force_carries_over [OF inv] assms(3) show ?thesis by (auto simp: carries_over_def)
  qed (use assms(3) in auto)
qed

lemma others_in_flight: "push_others env c c' \<Longrightarrow> pu_in_flight c' = pu_in_flight c"
  by (cases rule: push_others.cases) (auto simp: set_endpoints_def set_options_def set_runtime_endpoint_def
      push_begin_drain_def push_end_drain_def push_publish_gauges_def push_pause_def push_resume_def Let_def split_beta)

theorem push_settles_witness:
  "list_ex (\<lambda>d. d_seq d = 0 \<and> ended (d_env d) (cf_consumer demo_sent_conf) (cf_consumer (demo_answered_conf 200)))
     (cf_deliveries demo_sent_conf)"
proof -
  let ?d = "the (fst demo_sent)" and ?c = "snd demo_sent" and ?c' = "snd (demo_answered 200)"
  note st = demo_answered_step [OF demo_delivered]
  from demo_facts(10) obtain e where e: "lq_entry (pu_queue ?c) 0 = Some e" by blast
  have inv: "wf_queue (pu_queue ?c)" "pu_in_flight ?c = 1" "0 \<in> held_by (lq_entry (pu_queue ?c)) HOLDER"
    using demo_sent_core e demo_facts(9) by (auto simp: core_inv_def lease_inv_def dom_mine [symmetric])
  have "deliver_answer id 3 (demo_answer 200) ?d demo_sending ?c = (None, ?c')"
    using demo_delivered by (simp add: demo_answered_def prod_eq_iff)
  then obtain result c1 where "settle id 3 ?d demo_sending result c1 = (None, ?c')"
      "c1 = ?c \<or> (\<exists>x. c1 = ?c\<lparr>pu_too_large := x\<rparr>)" by (rule answer_settles)
  with settle_spec(3) [of id 3 ?d demo_sending result c1 None ?c'] have "acks ?d ?c ?c'"
    by (auto simp: acks_def ended_def)
  with inv demo_facts(9) have "lq_entry (pu_queue ?c') 0 = None" "pu_in_flight ?c' = 0"
    by (simp_all add: acks_def ack_seq_spec(3) drop_all_def)
  with push_settles [OF demo_sent_reach st, of 0 e] e inv(2) others_in_flight [of demo_push_env ?c ?c'] show ?thesis
    by (auto simp: demo_sent_simps)
qed

lemma others_letters: "push_others env c c' \<Longrightarrow> pu_letters c' = pu_letters c"
  by (cases rule: push_others.cases) (auto simp: set_endpoints_def set_options_def set_runtime_endpoint_def
      push_begin_drain_def push_end_drain_def push_publish_gauges_def push_pause_def push_resume_def Let_def split_beta)

lemma push_letters:
  assumes "push_reach env k"
  shows "list_all letter_ok (pu_letters (cf_consumer k)) \<and> list_all last_ok (cf_deliveries k)"
  using assms
proof (induction rule: push_reach.induct)
  case (push_start eps name qid cfg opts via t)
  show ?case by (simp add: push_started_def push_new_def Let_def)
next
  case (push_next k k')
  from push_next.hyps(2) show ?case
  proof (cases rule: push_step.cases)
    case (st_others c)
    have "pu_letters c = pu_letters (cf_consumer k)" by (rule others_letters [OF st_others(2)])
    with push_next.IH st_others(1) show ?thesis by simp
  next
    case (st_round dp ds c)
    from st_round(3) have "pu_letters c = pu_letters (cf_consumer k)"
      "set ds \<subseteq> set (cf_deliveries k) \<union> range delivery_new"
      by (auto simp: dispatch_round_def Let_def split_beta held_new_frame split: if_splits)
    with push_next.IH st_round(1) show ?thesis
      by (auto simp: list_all_iff last_ok_def delivery_new_def dest!: subsetD)
  next
    case (st_segment n m stopping i r c)
    have "last_ok (cf_deliveries k ! i)" using push_next.IH st_segment(3) by (simp add: list_all_length)
    from segment_letters [OF st_segment(4) this] push_next.IH st_segment(1) set_replace_at [of i r "cf_deliveries k"]
    show ?thesis by (cases r) (auto simp: letters_grow_def list_all_iff)
  next
    case (st_force n m stopping)
    have "pu_letters (fold (drop_delivery t) ds c) = pu_letters c" for t ds c
      by (induction ds arbitrary: c) (auto simp: drop_delivery_def split: stage.splits)
    with push_next.IH st_force(1) show ?thesis by simp
  qed (use push_next.IH in auto)
qed



end
