(* ===== verification/Engine.thy ===== *)
theory Engine
  imports Push_Main "HOL-Library.List_Lexorder" "HOL-Library.Char_ord"
begin

text \<open>
  The engine's control plane, \<open>crates/tgin-core/src/engine.rs\<close>: the state of one configuration
  generation, the consumer instances behind it, the lookups the gateway and the admin API make,
  and the operations on consumers. The configuration it is built from is the resolved one of
  \<open>config/resolve.rs\<close>, as far as the engine reads it. \<open>Arc<Slot>\<close>s live in a store; the write lock
  makes every operation one step. Admission's view of the same slots is in \<open>Admission\<close>.
\<close>

section \<open>Configuration\<close>

datatype upstream_kind = UpCloud | UpLocal

record upstream =
  us_name :: string
  us_kind :: upstream_kind
  us_url :: string
  us_local_mode :: bool

definition same_server :: "upstream \<Rightarrow> upstream \<Rightarrow> bool" where
  "same_server a b \<longleftrightarrow> us_name a = us_name b \<and> us_url a = us_url b"

record long_poll =
  lp_timeout :: duration
  lp_limit :: nat
  lp_allowed_updates :: "string list option"
  lp_delete_webhook_on_start :: bool

datatype webhook_secret = SecretAuto | SecretOff | SecretToken string

datatype ip_allowlist = AllowAny | AllowTelegram | AllowNetworks "string list"

record webhook =
  wh_path :: string
  wh_public_url :: "string option"
  wh_register :: bool
  wh_secret_token :: webhook_secret
  wh_allowed_updates :: "string list option"
  wh_max_connections :: "nat option"
  wh_drop_pending_updates :: bool
  wh_ip_address :: "string option"
  wh_certificate_file :: "string option"
  wh_ip_allowlist :: ip_allowlist

datatype ingress = LongPoll long_poll | Webhook webhook

record bot =
  bt_name :: string
  bt_token :: string
  bt_upstream :: upstream
  bt_ingress :: "ingress option"
  bt_rules :: "rule_spec list"

record pull_config =
  pl_queue :: queue_config
  pl_auth_token :: "string option"
  pl_aliases :: "string list"
  pl_honor_drop_pending :: bool

record endpoint_config =
  ec_url :: string
  ec_secret_token :: "string option"
  ec_timeout :: duration

datatype webhook_reply = ReplyExecute | ReplyIgnore

record push_config =
  pp_endpoints :: "endpoint_config list"
  pp_balance :: balance
  pp_max_in_flight :: nat
  pp_ordering :: ordering
  pp_capacity :: nat
  pp_capacity_bytes :: nat
  pp_on_full :: on_full
  pp_retry :: retry_policy
  pp_breaker :: breaker_config
  pp_accept_set_webhook :: bool
  pp_webhook_reply :: webhook_reply
  pp_honor_drop_pending :: bool

definition push_queue_config :: "push_config \<Rightarrow> queue_config" where
  "push_queue_config p =
     \<lparr>capacity = pp_capacity p, capacity_bytes = pp_capacity_bytes p, lease_timeout = LEASE_TIMEOUT,
      qc_ordering = pp_ordering p, qc_on_full = pp_on_full p\<rparr>"

datatype consumer_kind = KPull pull_config | KPush push_config

record consumer_config =
  cc_id :: consumer_id
  cc_name :: string
  cc_kind :: consumer_kind

record server_config =
  sc_listen :: "string list"
  sc_tls :: "(string \<times> string) option"
  sc_max_connections :: nat
  sc_header_read_timeout :: duration

record config =
  cf_worker_threads :: "nat option"
  cf_log_format :: string
  cf_server :: "server_config option"
  cf_admin_listen :: "string list"
  cf_drain_timeout :: duration
  cf_bots :: "bot list"
  cf_consumers :: "consumer_config list"

section \<open>Consumer instances\<close>

datatype mode = MPull | MPush

datatype consumer = CPull pull_consumer | CPush push_consumer

primrec consumer_name :: "consumer \<Rightarrow> string" where
  "consumer_name (CPull c) = pc_name c"
| "consumer_name (CPush c) = pu_name c"

primrec consumer_mode :: "consumer \<Rightarrow> mode" where
  "consumer_mode (CPull c) = MPull"
| "consumer_mode (CPush c) = MPush"

primrec consumer_queue :: "consumer \<Rightarrow> envelope lease_queue" where
  "consumer_queue (CPull c) = pc_queue c"
| "consumer_queue (CPush c) = pu_queue c"

primrec with_queue :: "envelope lease_queue \<Rightarrow> consumer \<Rightarrow> consumer" where
  "with_queue Q (CPull c) = CPull (c\<lparr>pc_queue := Q\<rparr>)"
| "with_queue Q (CPush c) = CPush (c\<lparr>pu_queue := Q\<rparr>)"

primrec consumer_pending :: "consumer \<Rightarrow> nat" where
  "consumer_pending (CPull c) = pull_pending c"
| "consumer_pending (CPush c) = push_pending c"

primrec consumer_in_flight :: "consumer \<Rightarrow> nat" where
  "consumer_in_flight (CPull c) = 0"
| "consumer_in_flight (CPush c) = pu_in_flight c"

primrec consumer_paused :: "consumer \<Rightarrow> bool" where
  "consumer_paused (CPull c) = pc_paused c"
| "consumer_paused (CPush c) = pu_paused c"

primrec consumer_pause :: "consumer \<Rightarrow> consumer" where
  "consumer_pause (CPull c) = CPull (pull_pause c)"
| "consumer_pause (CPush c) = CPush (push_pause c)"

primrec consumer_resume :: "consumer \<Rightarrow> consumer" where
  "consumer_resume (CPull c) = CPull (pull_resume c)"
| "consumer_resume (CPush c) = CPush (push_resume c)"

primrec consumer_begin_drain :: "consumer \<Rightarrow> consumer" where
  "consumer_begin_drain (CPull c) = CPull (pull_begin_drain c)"
| "consumer_begin_drain (CPush c) = CPush (push_begin_drain c)"

primrec consumer_end_drain :: "consumer \<Rightarrow> consumer" where
  "consumer_end_drain (CPull c) = CPull (pull_end_drain c)"
| "consumer_end_drain (CPush c) = CPush (push_end_drain c)"

primrec consumer_gauges :: "bool \<Rightarrow> consumer \<Rightarrow> consumer" where
  "consumer_gauges on (CPull c) = CPull (publish_gauges on c)"
| "consumer_gauges on (CPush c) = CPush (push_publish_gauges on c)"

primrec consumer_depth :: "consumer \<Rightarrow> consumer" where
  "consumer_depth (CPull c) = CPull (update_depth c)"
| "consumer_depth (CPush c) = CPush (push_update_depth c)"

primrec consumer_owner :: "consumer \<Rightarrow> (source_id \<times> nat) option" where
  "consumer_owner (CPull c) = None"
| "consumer_owner (CPush c) = runtime_endpoint_owner c"

record instance_slot =
  is_name :: string
  is_consumer :: consumer
  is_closed :: bool
  is_started :: bool
  is_stop :: bool
  is_kill :: bool
  is_drain :: "nat option"
  is_fed_by :: "source_id option"

definition slot_new :: "string \<Rightarrow> consumer \<Rightarrow> instance_slot" where
  "slot_new name c =
     \<lparr>is_name = name, is_consumer = c, is_closed = False, is_started = False, is_stop = False, is_kill = False,
      is_drain = None, is_fed_by = None\<rparr>"

section \<open>The state of a generation\<close>

text \<open>
  The flag of unmatched updates goes with the id: a kept bot keeps both, a new one gets new ones.
\<close>

record source_entry =
  se_id :: source_id
  se_name :: string
  se_username :: "string option"

record ('ac, 're) generation =
  gn_number :: nat
  gn_table :: "('ac, 're) route_table"
  gn_sources :: "source_entry option list"
  gn_targets :: "target_slot list"
  gn_source_names :: "string list"
  gn_config :: config

record ('ac, 're) engine =
  eg_state :: "('ac, 're) generation"
  eg_slots :: "instance_slot list"
  eg_retired :: "nat list"
  eg_draining :: bool
  eg_cancelled :: "nat set"
  eg_next_token :: nat
  eg_dropped :: "(string \<times> drop_reason \<times> nat) list"

text \<open>What the engine is built with; \<open>ee_fingerprint\<close> is the keyed hash of tokens.\<close>

record ('ac, 're) engine_env =
  ee_push :: push_env
  ee_rules :: "('ac, 're) engines"
  ee_fingerprint :: "string \<Rightarrow> nat"
  ee_via :: string
  ee_reply :: nat

definition find_target :: "('ac, 're) generation \<Rightarrow> instance_slot list \<Rightarrow> string \<Rightarrow> target_slot option" where
  "find_target st slots name = find (\<lambda>t. is_name (slots ! tg_slot t) = name) (gn_targets st)"

definition find_source :: "('ac, 're) generation \<Rightarrow> source_id \<Rightarrow> source_entry option" where
  "find_source st i = (if i < length (gn_sources st) then gn_sources st ! i else None)"

definition source_named :: "('ac, 're) generation \<Rightarrow> string \<Rightarrow> source_entry option" where
  "source_named st name = find (\<lambda>s. se_name s = name) (List.map_filter id (gn_sources st))"

fun reaches :: "consumer_id \<Rightarrow> target_spec \<Rightarrow> bool" where
  "reaches c (TConsumer i) = (i = c)"
| "reaches c (TAll among) = list_ex (reaches c) among"
| "reaches c (TSplit _ among _) = list_ex (reaches c) among"

definition bot_targets :: "bot \<Rightarrow> consumer_id \<Rightarrow> bool" where
  "bot_targets b c = list_ex (\<lambda>rule. list_ex (reaches c) (r_targets rule)) (bt_rules b)"

definition find_consumer :: "config \<Rightarrow> string \<Rightarrow> consumer_config option" where
  "find_consumer cfg name = find (\<lambda>c. cc_name c = name) (cf_consumers cfg)"

definition find_bot :: "config \<Rightarrow> string \<Rightarrow> bot option" where
  "find_bot cfg name = find (\<lambda>b. bt_name b = name) (cf_bots cfg)"

definition feeds :: "('ac, 're) generation \<Rightarrow> source_id \<Rightarrow> string \<Rightarrow> bool" where
  "feeds st src name =
     (case find_source st src of
        None \<Rightarrow> False
      | Some info \<Rightarrow>
          (case find_consumer (gn_config st) name of
             None \<Rightarrow> False
           | Some c \<Rightarrow>
               (case find_bot (gn_config st) (se_name info) of
                  None \<Rightarrow> False
                | Some b \<Rightarrow> bot_targets b (cc_id c))))"

definition feeder :: "('ac, 're) generation \<Rightarrow> string \<Rightarrow> source_id option" where
  "feeder st name = find (\<lambda>i. feeds st i name) (map se_id (List.map_filter id (gn_sources st)))"

definition token_fingerprint :: "('ac, 're) engine_env \<Rightarrow> ('ac, 're) generation \<Rightarrow> source_id \<Rightarrow> nat option" where
  "token_fingerprint env st src =
     (case find_source st src of
        None \<Rightarrow> None
      | Some info \<Rightarrow> map_option (\<lambda>b. ee_fingerprint env (bt_token b)) (find_bot (gn_config st) (se_name info)))"

text \<open>\<open>None\<close> is \<open>TokenChanged\<close>.\<close>

definition authenticated :: "('ac, 're) engine_env \<Rightarrow> ('ac, 're) generation \<Rightarrow> source_id \<Rightarrow> string \<Rightarrow> nat option" where
  "authenticated env st src token =
     (if token_fingerprint env st src = Some (ee_fingerprint env token) then Some (ee_fingerprint env token) else None)"

definition accepts_webhook :: "config \<Rightarrow> string \<Rightarrow> bool" where
  "accepts_webhook cfg name =
     list_ex (\<lambda>c. cc_name c = name \<and> (case cc_kind c of KPush p \<Rightarrow> pp_accept_set_webhook p | KPull _ \<Rightarrow> False))
       (cf_consumers cfg)"

definition honors_drop :: "config \<Rightarrow> string \<Rightarrow> bool" where
  "honors_drop cfg name =
     list_ex (\<lambda>c. cc_name c = name \<and>
         (case cc_kind c of KPull p \<Rightarrow> pl_honor_drop_pending p | KPush p \<Rightarrow> pp_honor_drop_pending p))
       (cf_consumers cfg)"

section \<open>The control plane\<close>

definition upd_instance :: "nat \<Rightarrow> (instance_slot \<Rightarrow> instance_slot) \<Rightarrow> ('ac, 're) engine \<Rightarrow> ('ac, 're) engine" where
  "upd_instance a f e = e\<lparr>eg_slots := (eg_slots e)[a := f (eg_slots e ! a)]\<rparr>"

definition on_consumer :: "(consumer \<Rightarrow> consumer) \<Rightarrow> instance_slot \<Rightarrow> instance_slot" where
  "on_consumer f s = s\<lparr>is_consumer := f (is_consumer s)\<rparr>"

definition source_id_of :: "('ac, 're) engine \<Rightarrow> string \<Rightarrow> source_id option" where
  "source_id_of e name = map_option se_id (source_named (eg_state e) name)"

definition current_target :: "('ac, 're) engine \<Rightarrow> string \<Rightarrow> nat option" where
  "current_target e name = map_option tg_slot (find_target (eg_state e) (eg_slots e) name)"

definition knows_consumer :: "('ac, 're) engine \<Rightarrow> string \<Rightarrow> bool" where
  "knows_consumer e name \<longleftrightarrow>
     current_target e name \<noteq> None \<or> list_ex (\<lambda>a. is_name (eg_slots e ! a) = name) (eg_retired e)"

definition is_pull :: "('ac, 're) engine \<Rightarrow> nat \<Rightarrow> bool" where
  "is_pull e a \<longleftrightarrow> consumer_mode (is_consumer (eg_slots e ! a)) = MPull"

text \<open>The address of the instance to poll.\<close>

definition pull_consumer_of :: "('ac, 're) engine \<Rightarrow> string \<Rightarrow> nat option" where
  "pull_consumer_of e name =
     (case current_target e name of
        Some a \<Rightarrow> if is_pull e a then Some a else find (\<lambda>a. is_name (eg_slots e ! a) = name \<and> is_pull e a) (eg_retired e)
      | None \<Rightarrow> find (\<lambda>a. is_name (eg_slots e ! a) = name \<and> is_pull e a) (eg_retired e))"

definition routes_to :: "('ac, 're) engine \<Rightarrow> source_id \<Rightarrow> string \<Rightarrow> bool" where
  "routes_to e src name \<longleftrightarrow>
     feeds (eg_state e) src name \<or>
     list_ex (\<lambda>a. is_name (eg_slots e ! a) = name \<and> is_pull e a \<and> is_fed_by (eg_slots e ! a) = Some src) (eg_retired e)"

definition pull_consumer_for :: "('ac, 're) engine \<Rightarrow> source_id \<Rightarrow> string \<Rightarrow> nat option" where
  "pull_consumer_for e src name =
     (let draining = find (\<lambda>a. is_name (eg_slots e ! a) = name \<and> is_fed_by (eg_slots e ! a) = Some src \<and> is_pull e a)
            (eg_retired e)
      in case current_target e name of
           Some a \<Rightarrow> if is_pull e a \<and> feeds (eg_state e) src name then Some a else draining
         | None \<Rightarrow> draining)"

definition consumer_for :: "('ac, 're) engine \<Rightarrow> source_id \<Rightarrow> string \<Rightarrow> nat option" where
  "consumer_for e src name =
     (if feeds (eg_state e) src name \<and> current_target e name \<noteq> None then current_target e name
      else pull_consumer_for e src name)"

record consumer_settings =
  cs_mode :: mode
  cs_accept_set_webhook :: bool
  cs_honor_drop_pending :: bool

definition consumer_settings_of :: "('ac, 're) engine \<Rightarrow> source_id \<Rightarrow> string \<Rightarrow> consumer_settings option" where
  "consumer_settings_of e src name =
     (if \<not> feeds (eg_state e) src name then None
      else map_option
        (\<lambda>c. case cc_kind c of
           KPull p \<Rightarrow> \<lparr>cs_mode = MPull, cs_accept_set_webhook = False, cs_honor_drop_pending = pl_honor_drop_pending p\<rparr>
         | KPush p \<Rightarrow> \<lparr>cs_mode = MPush, cs_accept_set_webhook = pp_accept_set_webhook p,
                       cs_honor_drop_pending = pp_honor_drop_pending p\<rparr>)
        (find_consumer (gn_config (eg_state e)) name))"

definition purged :: "nat \<Rightarrow> nat \<times> envelope lease_queue \<Rightarrow> ('ac, 're) engine \<Rightarrow> nat \<times> ('ac, 're) engine" where
  "purged a r e =
     (case r of (n, Q) \<Rightarrow>
        (n, upd_instance a (on_consumer (\<lambda>c. consumer_depth (with_queue Q c)))
              (e\<lparr>eg_dropped := eg_dropped e @ [(is_name (eg_slots e ! a), DropPurge, n)]\<rparr>)))"

definition drop_pending ::
  "('ac, 're) engine_env \<Rightarrow> source_id \<Rightarrow> string \<Rightarrow> string \<Rightarrow> ('ac, 're) engine \<Rightarrow>
     (unit + nat option) \<times> ('ac, 're) engine" where
  "drop_pending env src token name e =
     (case authenticated env (eg_state e) src token of
        None \<Rightarrow> (Inl (), e)
      | Some _ \<Rightarrow>
          if \<not> honors_drop (gn_config (eg_state e)) name \<or> \<not> feeds (eg_state e) src name then (Inr None, e)
          else
            (case current_target e name of
               None \<Rightarrow> (Inr None, e)
             | Some a \<Rightarrow>
                 (case purged a (purge_where (\<lambda>en. en_source en = src) (consumer_queue (is_consumer (eg_slots e ! a)))) e of
                    (n, e) \<Rightarrow> (Inr (Some n), e))))"

definition holds_token :: "('ac, 're) engine_env \<Rightarrow> binding \<Rightarrow> string \<Rightarrow> ('ac, 're) engine \<Rightarrow> bool" where
  "holds_token env b token e \<longleftrightarrow>
     authenticated env (eg_state e) (bd_source b) token = Some (bd_token_fingerprint b)"

datatype webhook_change = WebhookSet | WebhookUnchanged | WebhookDeleted | WebhookAlreadyDeleted

definition put_runtime ::
  "('ac, 're) engine_env \<Rightarrow> instant \<Rightarrow> nat \<Rightarrow> runtime_endpoint option \<Rightarrow> ('ac, 're) engine \<Rightarrow> ('ac, 're) engine" where
  "put_runtime env now a r e =
     upd_instance a (on_consumer (\<lambda>c. case c of CPush p \<Rightarrow> CPush (set_runtime_endpoint (ee_push env) now r p) | _ \<Rightarrow> c)) e"

definition engine_set_runtime ::
  "('ac, 're) engine_env \<Rightarrow> instant \<Rightarrow> string \<Rightarrow> source_id \<Rightarrow> string \<Rightarrow> (string \<times> string option) option \<Rightarrow>
     ('ac, 're) engine \<Rightarrow> (unit + webhook_change option) \<times> ('ac, 're) engine" where
  "engine_set_runtime env now name src token ep e =
     (case authenticated env (eg_state e) src token of
        None \<Rightarrow> (Inl (), e)
      | Some fp \<Rightarrow>
          (case current_target e name of
             None \<Rightarrow> (Inr None, e)
           | Some a \<Rightarrow>
               (case is_consumer (eg_slots e ! a) of
                  CPull _ \<Rightarrow> (Inr None, e)
                | CPush push \<Rightarrow>
                    if \<not> accepts_webhook (gn_config (eg_state e)) name \<or> \<not> feeds (eg_state e) src name
                    then (Inr None, e)
                    else
                      (case ep of
                         None \<Rightarrow>
                           if runtime_endpoint_owner push = None then (Inr (Some WebhookAlreadyDeleted), e)
                           else (Inr (Some WebhookDeleted), put_runtime env now a None e)
                       | Some (url, secret) \<Rightarrow>
                           (let re = \<lparr>re_url = url, re_secret_token = secret, re_source = src, re_token_fingerprint = fp\<rparr>
                            in if has_runtime_endpoint re push then (Inr (Some WebhookUnchanged), e)
                               else (Inr (Some WebhookSet), put_runtime env now a (Some re) e))))))"

definition recompile ::
  "('ac, 're) engine_env \<Rightarrow> nat \<Rightarrow> config \<Rightarrow> source_entry option list \<Rightarrow> rule_error + ('ac, 're) route_table" where
  "recompile env tok cfg srcs =
     (let entries = List.map_filter
            (\<lambda>info. map_option (\<lambda>b. (info, b)) (find_bot cfg (se_name info))) (List.map_filter id srcs)
      in compile (ee_rules env) tok (map (\<lambda>(info, b). (se_id info, bt_rules b)) entries)
           (map (\<lambda>(info, b). (se_id info, se_username info)) entries))"

definition set_username ::
  "('ac, 're) engine_env \<Rightarrow> nat \<Rightarrow> source_id \<Rightarrow> string option \<Rightarrow> ('ac, 're) engine \<Rightarrow> ('ac, 're) engine" where
  "set_username env tok src username e =
     (let old = eg_state e in
      case find_source old src of
        None \<Rightarrow> e
      | Some info \<Rightarrow>
          if se_username info = username then e
          else
            (let srcs = (gn_sources old)[src := Some (info\<lparr>se_username := username\<rparr>)]
             in case recompile env tok (gn_config old) srcs of
                  Inl _ \<Rightarrow> e
                | Inr table \<Rightarrow> e\<lparr>eg_state := old\<lparr>gn_table := table, gn_sources := srcs\<rparr>\<rparr>))"

definition on_slots :: "nat list \<Rightarrow> (consumer \<Rightarrow> consumer) \<Rightarrow> ('ac, 're) engine \<Rightarrow> ('ac, 're) engine" where
  "on_slots as f e = fold (\<lambda>a. upd_instance a (on_consumer f)) as e"

definition engine_begin_drain :: "('ac, 're) engine \<Rightarrow> ('ac, 're) engine" where
  "engine_begin_drain e =
     on_slots (map tg_slot (gn_targets (eg_state e)) @ eg_retired e) consumer_begin_drain (e\<lparr>eg_draining := True\<rparr>)"

definition engine_pending :: "('ac, 're) engine \<Rightarrow> nat" where
  "engine_pending e =
     sum_list (map (\<lambda>a. consumer_pending (is_consumer (eg_slots e ! a)))
       (map tg_slot (gn_targets (eg_state e)) @ eg_retired e))"

definition pending_from :: "('ac, 're) engine \<Rightarrow> source_id \<Rightarrow> nat" where
  "pending_from e src =
     sum_list (map (\<lambda>a. count_where (\<lambda>en. en_source en = src) (consumer_queue (is_consumer (eg_slots e ! a))))
       (map tg_slot (gn_targets (eg_state e)) @ eg_retired e))"

record endpoint_status =
  es_index :: nat
  es_origin :: string
  es_breaker :: breaker_state
  es_is_runtime :: bool

record consumer_status =
  ct_name :: string
  ct_mode :: mode
  ct_depth :: nat
  ct_leased :: nat
  ct_in_flight :: nat
  ct_paused :: bool
  ct_endpoints :: "endpoint_status list option"

definition consumer_status_of :: "consumer \<Rightarrow> consumer_status" where
  "consumer_status_of c =
     (let st = stats (consumer_queue c)
      in \<lparr>ct_name = consumer_name c, ct_mode = consumer_mode c, ct_depth = st_available st, ct_leased = st_leased st,
          ct_in_flight = consumer_in_flight c, ct_paused = consumer_paused c,
          ct_endpoints =
            (case c of
               CPull _ \<Rightarrow> None
             | CPush push \<Rightarrow>
                 Some (map (\<lambda>(i, origin, breaker, runtime).
                     \<lparr>es_index = i, es_origin = origin, es_breaker = breaker, es_is_runtime = runtime\<rparr>)
                   (enumerate 0 (push_endpoints push))))\<rparr>)"

definition engine_status :: "('ac, 're) engine \<Rightarrow> nat \<times> consumer_status list" where
  "engine_status e =
     (gn_number (eg_state e), map (\<lambda>t. consumer_status_of (is_consumer (eg_slots e ! tg_slot t))) (gn_targets (eg_state e)))"

definition on_current :: "string \<Rightarrow> (consumer \<Rightarrow> consumer) \<Rightarrow> ('ac, 're) engine \<Rightarrow> bool \<times> ('ac, 're) engine" where
  "on_current name f e =
     (case current_target e name of None \<Rightarrow> (False, e) | Some a \<Rightarrow> (True, upd_instance a (on_consumer f) e))"

definition engine_pause :: "string \<Rightarrow> ('ac, 're) engine \<Rightarrow> bool \<times> ('ac, 're) engine" where
  "engine_pause name e = on_current name consumer_pause e"

definition engine_resume :: "string \<Rightarrow> ('ac, 're) engine \<Rightarrow> bool \<times> ('ac, 're) engine" where
  "engine_resume name e =
     on_current name (\<lambda>c. if eg_draining e then consumer_resume c else consumer_end_drain (consumer_resume c)) e"

definition engine_drain :: "string \<Rightarrow> ('ac, 're) engine \<Rightarrow> bool \<times> ('ac, 're) engine" where
  "engine_drain name e = on_current name consumer_begin_drain e"

definition engine_purge :: "string \<Rightarrow> ('ac, 're) engine \<Rightarrow> nat option \<times> ('ac, 're) engine" where
  "engine_purge name e =
     (case current_target e name of
        None \<Rightarrow> (None, e)
      | Some a \<Rightarrow>
          (case purged a (purge (consumer_queue (is_consumer (eg_slots e ! a)))) e of (n, e) \<Rightarrow> (Some n, e)))"

end
