(* ===== verification/Reload.thy ===== *)
theory Reload
  imports Engine
begin

text \<open>
  Live reload, \<open>crates/tgin-core/src/reload.rs\<close>: the plan from the running generation to a new
  configuration, its commit, and the end of a drain (\<open>Shared::retire\<close> of \<open>engine.rs\<close>). All of it runs
  under the engine's write lock. The clock, and an identity for the compiled route table, are
  arguments; metric families are left out.
\<close>

section \<open>Consumers from their configuration\<close>

definition DEFAULT_ENDPOINT_TIMEOUT :: duration where
  "DEFAULT_ENDPOINT_TIMEOUT = 10 * NANOS_PER_SEC"

definition kind_mode :: "consumer_kind \<Rightarrow> mode" where
  "kind_mode k = (case k of KPull _ \<Rightarrow> MPull | KPush _ \<Rightarrow> MPush)"

definition kind_queue :: "consumer_kind \<Rightarrow> queue_config" where
  "kind_queue k = (case k of KPull p \<Rightarrow> pl_queue p | KPush p \<Rightarrow> push_queue_config p)"

definition kind_on_full :: "consumer_kind \<Rightarrow> on_full" where
  "kind_on_full k = qc_on_full (kind_queue k)"

definition config_endpoints :: "('ac, 're) engine_env \<Rightarrow> instant \<Rightarrow> push_config \<Rightarrow> endpoint list" where
  "config_endpoints env now p =
     map (\<lambda>e. \<lparr>ep_url = ec_url e, ep_origin = pe_origin (ee_push env) (ec_url e), ep_secret_token = ec_secret_token e,
            ep_timeout = ec_timeout e, ep_breaker = breaker_new (pp_breaker p) now\<rparr>) (pp_endpoints p)"

definition config_options :: "('ac, 're) engine_env \<Rightarrow> string list \<Rightarrow> push_config \<Rightarrow> push_options" where
  "config_options env names p =
     \<lparr>po_max_in_flight = pp_max_in_flight p, po_balance = pp_balance p, po_retry = pp_retry p, po_source_names = names,
      po_breaker = pp_breaker p, po_runtime_timeout = DEFAULT_ENDPOINT_TIMEOUT,
      po_reply = (if pp_webhook_reply p = ReplyExecute then Some (ee_reply env) else None)\<rparr>"

definition new_slot :: "('ac, 're) engine_env \<Rightarrow> instant \<Rightarrow> nat \<Rightarrow> string list \<Rightarrow> consumer_config \<Rightarrow> instance_slot" where
  "new_slot env now qid names c =
     slot_new (cc_name c)
       (case cc_kind c of
          KPull p \<Rightarrow> CPull (pull_new (cc_name c) qid (pl_queue p))
        | KPush p \<Rightarrow> CPush (push_new (ee_push env) (cc_name c) qid (push_queue_config p)
                             (config_endpoints env now p) (config_options env names p) (ee_via env)))"

section \<open>The plan\<close>

record live =
  lv_slot :: nat
  lv_queue :: "queue_config option"
  lv_endpoints :: "(endpoint list \<times> push_options) option"
  lv_options :: "push_options option"

record reload_report =
  rr_generation :: nat
  rr_added :: "string list"
  rr_removed :: "string list"
  rr_changed :: "string list"
  rr_sources_added :: "string list"
  rr_sources_removed :: "string list"
  rr_sources_restarted :: "string list"
  rr_upstream_changed :: "string list"
  rr_restart_required :: "string list"

record changes =
  ch_live :: "live list"
  ch_started :: "nat list"
  ch_revived :: "nat list"
  ch_retiring :: "nat list"
  ch_report :: reload_report

datatype build_error = RulesError rule_error | SourceIdsExhausted

definition known_username :: "('ac, 're) generation \<Rightarrow> source_entry \<Rightarrow> bot \<Rightarrow> string option" where
  "known_username old ke b =
     (case find_bot (gn_config old) (bt_name b) of
        None \<Rightarrow> None
      | Some previous \<Rightarrow> if bt_token previous \<noteq> bt_token b then None else se_username ke)"

text \<open>Source ids by name: the entries of the bots, every name ever given an id, and the new ones.\<close>

fun assign_ids ::
  "('ac, 're) generation option \<Rightarrow> bot list \<Rightarrow> string list \<Rightarrow> string list \<Rightarrow>
     build_error + (source_entry \<times> bot) list \<times> string list \<times> string list" where
  "assign_ids old [] names added = Inr ([], names, added)"
| "assign_ids old (b # bs) names added =
     (case Option.bind old (\<lambda>old. map_option (\<lambda>ke. (old, ke)) (source_named old (bt_name b))) of
        Some (old', ke) \<Rightarrow>
          (case assign_ids old bs names added of
             Inl err \<Rightarrow> Inl err
           | Inr (es, names, added) \<Rightarrow>
               Inr ((\<lparr>se_id = se_id ke, se_name = bt_name b, se_username = known_username old' ke b\<rparr>, b) # es, names, added))
      | None \<Rightarrow>
          if length names > 65535 then Inl SourceIdsExhausted
          else
            (case assign_ids old bs (names @ [bt_name b]) (added @ [bt_name b]) of
               Inl err \<Rightarrow> Inl err
             | Inr (es, names', added) \<Rightarrow>
                 Inr ((\<lparr>se_id = length names, se_name = bt_name b, se_username = None\<rparr>, b) # es, names', added)))"

definition live_change ::
  "('ac, 're) engine_env \<Rightarrow> instant \<Rightarrow> nat \<Rightarrow> consumer_kind \<Rightarrow> consumer_kind \<Rightarrow> bool \<Rightarrow> string list \<Rightarrow> live option" where
  "live_change env now a old new names_grew names =
     (let (queue, eps, opts) =
        (case (old, new) of
           (KPull old, KPull new) \<Rightarrow> (if pl_queue old \<noteq> pl_queue new then Some (pl_queue new) else None, None, None)
         | (KPush old, KPush new) \<Rightarrow>
             (let delivery = (pp_endpoints old \<noteq> pp_endpoints new \<or> pp_balance old \<noteq> pp_balance new \<or>
                    pp_max_in_flight old \<noteq> pp_max_in_flight new \<or> pp_retry old \<noteq> pp_retry new \<or>
                    pp_breaker old \<noteq> pp_breaker new);
                  refresh = (names_grew \<or> pp_webhook_reply old \<noteq> pp_webhook_reply new)
              in (if push_queue_config old \<noteq> push_queue_config new then Some (push_queue_config new) else None,
                  if delivery then Some (config_endpoints env now new, config_options env names new) else None,
                  if \<not> delivery \<and> refresh then Some (config_options env names new) else None))
         | _ \<Rightarrow> (None, None, None))
      in if queue \<noteq> None \<or> eps \<noteq> None \<or> opts \<noteq> None
         then Some \<lparr>lv_slot = a, lv_queue = queue, lv_endpoints = eps, lv_options = opts\<rparr> else None)"

record plan_state =
  pa_slots :: "instance_slot list"
  pa_live :: "live list"
  pa_started :: "nat list"
  pa_revived :: "nat list"
  pa_retiring :: "nat list"
  pa_targets :: "target_slot list"
  pa_added :: "string list"
  pa_changed :: "string list"

definition slot_mode :: "instance_slot \<Rightarrow> mode" where
  "slot_mode s = consumer_mode (is_consumer s)"

text \<open>The instance a consumer of the new configuration had, with how it was written.\<close>

definition previous_of ::
  "('ac, 're) generation option \<Rightarrow> instance_slot list \<Rightarrow> string \<Rightarrow> (nat \<times> consumer_config) option" where
  "previous_of old slots name =
     (case old of
        None \<Rightarrow> None
      | Some old \<Rightarrow>
          (case find_target old slots name of
             None \<Rightarrow> None
           | Some t \<Rightarrow> map_option (\<lambda>written. (tg_slot t, written)) (find_consumer (gn_config old) name)))"

definition plan_consumer ::
  "('ac, 're) engine_env \<Rightarrow> instant \<Rightarrow> ('ac, 're) generation option \<Rightarrow> nat list \<Rightarrow> bool \<Rightarrow> string list \<Rightarrow>
     consumer_config \<Rightarrow> plan_state \<Rightarrow> plan_state" where
  "plan_consumer env now old retired names_grew names c pa =
     (let m = kind_mode (cc_kind c);
          previous = previous_of old (pa_slots pa) (cc_name c);
          (a, pa) =
            (case (case previous of
                     Some (a, written) \<Rightarrow> if slot_mode (pa_slots pa ! a) = m then Some (a, written) else None
                   | None \<Rightarrow> None) of
               Some (a, written) \<Rightarrow>
                 (a, pa\<lparr>pa_changed := pa_changed pa @ (if cc_kind written \<noteq> cc_kind c then [cc_name c] else []),
                        pa_live := pa_live pa @
                          (case live_change env now a (cc_kind written) (cc_kind c) names_grew names of
                             None \<Rightarrow> [] | Some l \<Rightarrow> [l])\<rparr>)
             | None \<Rightarrow>
                 (let pa = (case previous of
                              Some (a, _) \<Rightarrow> pa\<lparr>pa_changed := pa_changed pa @ [cc_name c], pa_retiring := pa_retiring pa @ [a]\<rparr>
                            | None \<Rightarrow> pa\<lparr>pa_added := pa_added pa @ [cc_name c]\<rparr>)
                  in case find (\<lambda>a. is_name (pa_slots pa ! a) = cc_name c \<and> slot_mode (pa_slots pa ! a) = m) retired of
                       Some a \<Rightarrow>
                         (a, pa\<lparr>pa_live := pa_live pa @
                                 [\<lparr>lv_slot = a, lv_queue = Some (kind_queue (cc_kind c)),
                                   lv_endpoints = (case cc_kind c of
                                      KPush p \<Rightarrow> Some (config_endpoints env now p, config_options env names p)
                                    | KPull _ \<Rightarrow> None),
                                   lv_options = None\<rparr>],
                                pa_revived := pa_revived pa @ [a]\<rparr>)
                     | None \<Rightarrow>
                         (let a = length (pa_slots pa)
                          in (a, pa\<lparr>pa_slots := pa_slots pa @ [new_slot env now a names c],
                                    pa_started := pa_started pa @ [a]\<rparr>))))
      in pa\<lparr>pa_targets := pa_targets pa @
            [\<lparr>tg_slot = a, tg_on_full = kind_on_full (cc_kind c), tg_capacity_bytes = capacity_bytes (kind_queue (cc_kind c))\<rparr>]\<rparr>)"

definition source_restarts :: "bot \<Rightarrow> bot \<Rightarrow> bool" where
  "source_restarts was new \<longleftrightarrow>
     \<not> same_server (bt_upstream new) (bt_upstream was) \<or> bt_token new \<noteq> bt_token was \<or>
     us_kind (bt_upstream new) \<noteq> us_kind (bt_upstream was) \<or>
     us_local_mode (bt_upstream new) \<noteq> us_local_mode (bt_upstream was) \<or> bt_ingress new \<noteq> bt_ingress was"

definition restart_required :: "config \<Rightarrow> config \<Rightarrow> string list" where
  "restart_required old new =
     (let was = cf_server old; now = cf_server new;
          tls = (\<lambda>s. case s of None \<Rightarrow> False | Some s \<Rightarrow> sc_tls s \<noteq> None)
      in map fst (filter snd
           [(''server.listen'', map_option sc_listen was \<noteq> map_option sc_listen now),
            (''server.max_connections'', map_option sc_max_connections was \<noteq> map_option sc_max_connections now),
            (''server.header_read_timeout'', map_option sc_header_read_timeout was \<noteq> map_option sc_header_read_timeout now),
            (''server.tls'', tls was \<noteq> tls now),
            (''admin.listen'', cf_admin_listen old \<noteq> cf_admin_listen new),
            (''runtime.worker_threads'', cf_worker_threads old \<noteq> cf_worker_threads new),
            (''log.format'', cf_log_format old \<noteq> cf_log_format new)]))"

definition place_sources :: "nat \<Rightarrow> source_entry list \<Rightarrow> source_entry option list" where
  "place_sources n es = fold (\<lambda>info srcs. srcs[se_id info := Some info]) es (replicate n None)"

definition plan_build ::
  "('ac, 're) engine_env \<Rightarrow> instant \<Rightarrow> nat \<Rightarrow> config \<Rightarrow> ('ac, 're) generation option \<Rightarrow> nat list \<Rightarrow> instance_slot list \<Rightarrow>
     build_error + ('ac, 're) generation \<times> changes \<times> instance_slot list" where
  "plan_build env now tok cfg old retired slots =
     (let gen = (case old of None \<Rightarrow> 1 | Some old \<Rightarrow> gn_number old + 1);
          names0 = (case old of None \<Rightarrow> [] | Some old \<Rightarrow> gn_source_names old)
      in case assign_ids old (cf_bots cfg) names0 [] of
           Inl err \<Rightarrow> Inl err
         | Inr (entries, names, sources_added) \<Rightarrow>
             (case compile (ee_rules env) tok (map (\<lambda>(info, b). (se_id info, bt_rules b)) entries)
                     (map (\<lambda>(info, b). (se_id info, se_username info)) entries) of
                Inl err \<Rightarrow> Inl (RulesError err)
              | Inr table \<Rightarrow>
                  (let names_grew = (old \<noteq> None \<and> length names0 \<noteq> length names);
                       pa = fold (plan_consumer env now old retired names_grew names) (cf_consumers cfg)
                              \<lparr>pa_slots = slots, pa_live = [], pa_started = [], pa_revived = [], pa_retiring = [],
                               pa_targets = [], pa_added = [], pa_changed = []\<rparr>;
                       gone = (case old of
                                 None \<Rightarrow> []
                               | Some old \<Rightarrow> filter (\<lambda>t. find_consumer cfg (is_name (slots ! tg_slot t)) = None) (gn_targets old));
                       old_bots = (case old of None \<Rightarrow> [] | Some old \<Rightarrow> cf_bots (gn_config old));
                       both = List.map_filter (\<lambda>was. map_option (\<lambda>new. (was, new)) (find_bot cfg (bt_name was))) old_bots;
                       report = \<lparr>rr_generation = gen, rr_added = sort (pa_added pa),
                         rr_removed = sort (map (\<lambda>t. is_name (slots ! tg_slot t)) gone),
                         rr_changed = sort (pa_changed pa), rr_sources_added = sort sources_added,
                         rr_sources_removed = sort (map bt_name (filter (\<lambda>was. find_bot cfg (bt_name was) = None) old_bots)),
                         rr_sources_restarted = sort (map (\<lambda>(was, new). bt_name new) (filter (\<lambda>(was, new). source_restarts was new) both)),
                         rr_upstream_changed = sort (map (\<lambda>(was, new). bt_name new)
                           (filter (\<lambda>(was, new). \<not> same_server (bt_upstream new) (bt_upstream was)) both)),
                         rr_restart_required = sort (case old of None \<Rightarrow> [] | Some old \<Rightarrow> restart_required (gn_config old) cfg)\<rparr>
                   in Inr (\<lparr>gn_number = gen, gn_table = table, gn_sources = place_sources (length names) (map fst entries),
                            gn_targets = pa_targets pa, gn_source_names = names, gn_config = cfg\<rparr>,
                           \<lparr>ch_live = pa_live pa, ch_started = pa_started pa, ch_revived = pa_revived pa,
                            ch_retiring = pa_retiring pa @ map tg_slot gone, ch_report = report\<rparr>,
                           pa_slots pa))))"

section \<open>The commit\<close>

definition apply_live :: "('ac, 're) engine_env \<Rightarrow> instant \<Rightarrow> live \<Rightarrow> ('ac, 're) engine \<Rightarrow> ('ac, 're) engine" where
  "apply_live env now l e =
     upd_instance (lv_slot l) (on_consumer (\<lambda>c.
       (let c = (case lv_queue l of None \<Rightarrow> c | Some q \<Rightarrow> with_queue (set_config q (consumer_queue c)) c)
        in case c of
             CPull _ \<Rightarrow> c
           | CPush p \<Rightarrow>
               (case lv_endpoints l of
                  Some (eps, opts) \<Rightarrow> CPush (set_endpoints (ee_push env) now eps opts p)
                | None \<Rightarrow>
                    (case lv_options l of
                       Some opts \<Rightarrow> CPush (set_options (ee_push env) opts p)
                     | None \<Rightarrow> c))))) e"

definition commit_revive :: "nat \<Rightarrow> ('ac, 're) engine \<Rightarrow> ('ac, 're) engine" where
  "commit_revive a e =
     (let e = (case is_drain (eg_slots e ! a) of
                 None \<Rightarrow> e
               | Some token \<Rightarrow> upd_instance a (\<lambda>s. s\<lparr>is_drain := None\<rparr>) (e\<lparr>eg_cancelled := insert token (eg_cancelled e)\<rparr>));
          e = e\<lparr>eg_retired := filter (\<lambda>b. b \<noteq> a) (eg_retired e)\<rparr>
      in if eg_draining e then e else upd_instance a (on_consumer consumer_end_drain) e)"

definition commit_start :: "nat \<Rightarrow> ('ac, 're) engine \<Rightarrow> ('ac, 're) engine" where
  "commit_start a e =
     (let e = upd_instance a (\<lambda>s. s\<lparr>is_started := True\<rparr>) e
      in if eg_draining e then upd_instance a (on_consumer consumer_begin_drain) e else e)"

definition commit_retire :: "('ac, 're) generation \<Rightarrow> nat \<Rightarrow> ('ac, 're) engine \<Rightarrow> ('ac, 're) engine" where
  "commit_retire previous a e =
     (let token = eg_next_token e;
          e = upd_instance a (\<lambda>s. on_consumer consumer_begin_drain
                (s\<lparr>is_fed_by := (if slot_mode s = MPull then feeder previous (is_name s) else is_fed_by s),
                   is_drain := Some token\<rparr>)) e
      in e\<lparr>eg_retired := eg_retired e @ [a], eg_next_token := token + 1\<rparr>)"

definition publish_all :: "('ac, 're) generation \<Rightarrow> ('ac, 're) engine \<Rightarrow> ('ac, 're) engine" where
  "publish_all current e =
     (let e = on_slots (map tg_slot (gn_targets current)) (consumer_gauges True) e
      in fold (\<lambda>a e. upd_instance a (on_consumer
                (consumer_gauges (find_target current (eg_slots e) (is_name (eg_slots e ! a)) = None))) e) (eg_retired e) e)"

text \<open>Whether a current push consumer may keep its runtime endpoint.\<close>

definition may_keep :: "('ac, 're) engine_env \<Rightarrow> ('ac, 're) generation \<Rightarrow> string \<Rightarrow> source_id \<times> nat \<Rightarrow> bool" where
  "may_keep env st name owner \<longleftrightarrow>
     accepts_webhook (gn_config st) name \<and> feeds st (fst owner) name \<and>
     token_fingerprint env st (fst owner) = Some (snd owner)"

definition keep_runtime ::
  "('ac, 're) engine_env \<Rightarrow> instant \<Rightarrow> ('ac, 're) generation \<Rightarrow> nat \<Rightarrow> ('ac, 're) engine \<Rightarrow> ('ac, 're) engine" where
  "keep_runtime env now st a e =
     (case consumer_owner (is_consumer (eg_slots e ! a)) of
        None \<Rightarrow> e
      | Some owner \<Rightarrow> if may_keep env st (is_name (eg_slots e ! a)) owner then e else put_runtime env now a None e)"

definition keep_runtime_endpoints ::
  "('ac, 're) engine_env \<Rightarrow> instant \<Rightarrow> ('ac, 're) generation \<Rightarrow> ('ac, 're) engine \<Rightarrow> ('ac, 're) engine" where
  "keep_runtime_endpoints env now st e = fold (keep_runtime env now st) (map tg_slot (gn_targets st)) e"

definition evict_rotated ::
  "('ac, 're) engine_env \<Rightarrow> instant \<Rightarrow> ('ac, 're) generation \<Rightarrow> nat \<Rightarrow> ('ac, 're) engine \<Rightarrow> ('ac, 're) engine" where
  "evict_rotated env now st a e =
     (case consumer_owner (is_consumer (eg_slots e ! a)) of
        None \<Rightarrow> e
      | Some (src, fp) \<Rightarrow>
          (case token_fingerprint env st src of
             None \<Rightarrow> e
           | Some current \<Rightarrow> if current \<noteq> fp then put_runtime env now a None e else e))"

definition evict_rotated_captures ::
  "('ac, 're) engine_env \<Rightarrow> instant \<Rightarrow> ('ac, 're) generation \<Rightarrow> ('ac, 're) engine \<Rightarrow> ('ac, 're) engine" where
  "evict_rotated_captures env now st e = fold (evict_rotated env now st) (eg_retired e) e"

definition reload_commit ::
  "('ac, 're) engine_env \<Rightarrow> instant \<Rightarrow> ('ac, 're) generation option \<Rightarrow> changes \<Rightarrow> ('ac, 're) engine \<Rightarrow> ('ac, 're) engine" where
  "reload_commit env now state ch e =
     (let e = fold (apply_live env now) (ch_live ch) e;
          e = fold commit_revive (ch_revived ch) e;
          e = fold commit_start (ch_started ch) e;
          e = fold (commit_retire (eg_state e)) (ch_retiring ch) e;
          e = publish_all (case state of Some st \<Rightarrow> st | None \<Rightarrow> eg_state e) e;
          e = (case state of
                 None \<Rightarrow> e
               | Some st \<Rightarrow> (evict_rotated_captures env now st (keep_runtime_endpoints env now st e))\<lparr>eg_state := st\<rparr>)
      in on_slots (ch_started ch @ ch_revived ch) consumer_depth e)"

definition engine_apply ::
  "('ac, 're) engine_env \<Rightarrow> instant \<Rightarrow> nat \<Rightarrow> config \<Rightarrow> ('ac, 're) engine \<Rightarrow>
     (build_error + reload_report) \<times> ('ac, 're) engine" where
  "engine_apply env now tok cfg e =
     (case plan_build env now tok cfg (Some (eg_state e)) (eg_retired e) (eg_slots e) of
        Inl err \<Rightarrow> (Inl err, e)
      | Inr (st, ch, slots) \<Rightarrow> (Inr (ch_report ch), reload_commit env now (Some st) ch (e\<lparr>eg_slots := slots\<rparr>)))"

definition engine_new ::
  "('ac, 're) engine_env \<Rightarrow> instant \<Rightarrow> nat \<Rightarrow> config \<Rightarrow> build_error + ('ac, 're) engine" where
  "engine_new env now tok cfg =
     (case plan_build env now tok cfg None [] [] of
        Inl err \<Rightarrow> Inl err
      | Inr (st, ch, slots) \<Rightarrow>
          Inr (reload_commit env now None ch
            \<lparr>eg_state = st, eg_slots = slots, eg_retired = [], eg_draining = False, eg_cancelled = {},
             eg_next_token = 0, eg_dropped = []\<rparr>))"

text \<open>The end of the drain \<open>token\<close> of the instance at \<open>a\<close>; \<open>False\<close>: it was called off.\<close>

definition engine_retire :: "nat \<Rightarrow> nat \<Rightarrow> ('ac, 're) engine \<Rightarrow> bool \<times> ('ac, 're) engine" where
  "engine_retire a token e =
     (if token \<in> eg_cancelled e \<or> a \<notin> set (eg_retired e) then (False, e)
      else
        (let dropped = length (fst (drain_all (consumer_queue (is_consumer (eg_slots e ! a)))));
             name = is_name (eg_slots e ! a);
             e = e\<lparr>eg_retired := remove1 a (eg_retired e),
                   eg_dropped := eg_dropped e @ (if dropped > 0 then [(name, DropReload, dropped)] else [])\<rparr>;
             e = upd_instance a (\<lambda>s. on_consumer (\<lambda>c. with_queue (snd (drain_all (consumer_queue c))) c)
                   (s\<lparr>is_drain := None, is_closed := True, is_stop := True, is_kill := True\<rparr>)) e
         in (True, case current_target e name of
                     None \<Rightarrow> e
                   | Some b \<Rightarrow> upd_instance b (on_consumer consumer_depth) e)))"

section \<open>The drain of a retired instance\<close>

definition DRAIN_CHECK :: duration where
  "DRAIN_CHECK = NANOS_PER_SEC div 10"

definition drain_deadline :: "instant \<Rightarrow> duration \<Rightarrow> instant option" where
  "drain_deadline now timeout = inst_checked_add now (max timeout DRAIN_CHECK)"

datatype drain_next = DrainOver | DrainSleep instant

text \<open>
  One round of \<open>drain_retired\<close>: \<open>DrainOver\<close> goes on to \<open>engine_retire\<close>; a sleep cut short by the
  cancellation of the drain returns without it, which \<open>engine_retire\<close> would refuse as well.
\<close>

definition drain_round :: "instant option \<Rightarrow> instant \<Rightarrow> nat \<Rightarrow> drain_next" where
  "drain_round deadline now pending =
     (if pending = 0 \<or> (case deadline of None \<Rightarrow> False | Some d \<Rightarrow> d \<le> now) then DrainOver
      else DrainSleep (case deadline of None \<Rightarrow> now + DRAIN_CHECK | Some d \<Rightarrow> min d (now + DRAIN_CHECK)))"

end
