(* ===== verification/Reload_Inv.thy ===== *)
theory Reload_Inv
  imports Reload "HOL-Library.Sublist"
begin

text \<open>
  What the stages of a commit do to the consumer instances. A relation between an instance before
  and after, reflexive and transitive, is lifted to the whole store once (\<open>slot_relation\<close>); it is
  used for what an instance keeps (name, mode and queued updates) and for the bot that
  owns its runtime endpoint.
\<close>

section \<open>Relations on the store of instances\<close>

definition slots_rel ::
  "(instance_slot \<Rightarrow> instance_slot \<Rightarrow> bool) \<Rightarrow> ('ac, 're) engine \<Rightarrow> ('ac, 're) engine \<Rightarrow> bool" where
  "slots_rel R e e' \<longleftrightarrow> list_all2 R (eg_slots e) (eg_slots e')"

locale slot_relation =
  fixes R :: "instance_slot \<Rightarrow> instance_slot \<Rightarrow> bool"
  assumes R_refl: "R s s"
    and R_trans: "R s s1 \<Longrightarrow> R s1 s2 \<Longrightarrow> R s s2"
begin

lemma rel_refl: "slots_rel R e e"
  by (simp add: slots_rel_def list_all2_refl R_refl)

lemma rel_trans: "slots_rel R e e1 \<Longrightarrow> slots_rel R e1 e2 \<Longrightarrow> slots_rel R e e2"
  unfolding slots_rel_def by (rule list_all2_trans [of R R R]) (auto intro: R_trans)

lemma rel_frame: "eg_slots e1 = eg_slots e \<Longrightarrow> slots_rel R e e1"
  using rel_refl [of e] by (simp add: slots_rel_def)

lemma rel_frames: "slots_rel R e e1 \<Longrightarrow> eg_slots e2 = eg_slots e1 \<Longrightarrow> slots_rel R e e2"
  by (simp add: slots_rel_def)

lemma rel_upd:
  assumes "\<And>s. R s (f s)"
  shows "slots_rel R e (upd_instance a f e)"
  using assms R_refl by (cases "a < length (eg_slots e)")
    (auto simp: slots_rel_def upd_instance_def list_all2_conv_all_nth nth_list_update list_update_beyond)

lemma rel_fold:
  assumes "\<And>x e. slots_rel R e (g x e)"
  shows "slots_rel R e (fold g xs e)"
  by (induction xs arbitrary: e) (auto intro: rel_trans rel_refl assms)

lemma rel_on_slots:
  assumes "\<And>s. R s (on_consumer f s)"
  shows "slots_rel R e (on_slots as f e)"
  unfolding on_slots_def by (intro rel_fold rel_upd assms)

end

lemma slots_rel_length: "slots_rel R e e' \<Longrightarrow> length (eg_slots e') = length (eg_slots e)"
  by (simp add: slots_rel_def list_all2_lengthD)

lemma slots_rel_nth: "slots_rel R e e' \<Longrightarrow> a < length (eg_slots e) \<Longrightarrow> R (eg_slots e ! a) (eg_slots e' ! a)"
  by (simp add: slots_rel_def list_all2_nthD)

text \<open>An instance keeps its name, its mode and the updates it holds.\<close>

definition evolves :: "instance_slot \<Rightarrow> instance_slot \<Rightarrow> bool" where
  "evolves s s' \<longleftrightarrow> is_name s' = is_name s \<and> slot_mode s' = slot_mode s \<and>
     lq_entry (consumer_queue (is_consumer s')) = lq_entry (consumer_queue (is_consumer s))"

text \<open>It also keeps the owner of its runtime endpoint.\<close>

definition stays :: "instance_slot \<Rightarrow> instance_slot \<Rightarrow> bool" where
  "stays s s' \<longleftrightarrow> evolves s s' \<and> consumer_owner (is_consumer s') = consumer_owner (is_consumer s)"

interpretation ev: slot_relation evolves
  by unfold_locales (auto simp: evolves_def)

interpretation sy: slot_relation stays
  by unfold_locales (auto simp: stays_def intro: ev.R_refl ev.R_trans)

text \<open>What the other operations keep: name, mode and owner, not the updates.\<close>

definition steady :: "instance_slot \<Rightarrow> instance_slot \<Rightarrow> bool" where
  "steady s s' \<longleftrightarrow> is_name s' = is_name s \<and> slot_mode s' = slot_mode s \<and>
     consumer_owner (is_consumer s') = consumer_owner (is_consumer s)"

interpretation sd: slot_relation steady
  by unfold_locales (auto simp: steady_def)

lemma stays_evolve: "slots_rel stays e e' \<Longrightarrow> slots_rel evolves e e'"
  unfolding slots_rel_def by (erule list_all2_mono) (simp add: stays_def)

section \<open>Operations of a consumer\<close>

lemma mode_simps [simp]:
  "consumer_mode (with_queue Q c) = consumer_mode c" "consumer_mode (consumer_end_drain c) = consumer_mode c"
  "consumer_mode (consumer_begin_drain c) = consumer_mode c" "consumer_mode (consumer_gauges on c) = consumer_mode c"
  "consumer_mode (consumer_depth c) = consumer_mode c"
  by (cases c; simp)+

lemma queue_simps [simp]:
  "consumer_queue (with_queue Q c) = Q" "consumer_queue (consumer_end_drain c) = consumer_queue c"
  "consumer_queue (consumer_begin_drain c) = consumer_queue c" "consumer_queue (consumer_gauges on c) = consumer_queue c"
  "consumer_queue (consumer_depth c) = consumer_queue c"
  by (cases c; simp add: pull_end_drain_def push_end_drain_def pull_begin_drain_def push_begin_drain_def
      publish_gauges_def push_publish_gauges_def)+

lemma push_config_queue [simp]:
  "pu_queue (set_endpoints pe now eps opts p) = pu_queue p" "pu_queue (set_options pe opts p) = pu_queue p"
  "pu_queue (set_runtime_endpoint pe now r p) = pu_queue p"
  by (simp_all add: set_endpoints_def set_options_def set_runtime_endpoint_def Let_def split_beta)

lemma owner_simps [simp]:
  "consumer_owner (with_queue Q c) = consumer_owner c" "consumer_owner (consumer_end_drain c) = consumer_owner c"
  "consumer_owner (consumer_begin_drain c) = consumer_owner c" "consumer_owner (consumer_gauges on c) = consumer_owner c"
  "consumer_owner (consumer_depth c) = consumer_owner c" "consumer_owner (consumer_pause c) = consumer_owner c"
  "consumer_owner (consumer_resume c) = consumer_owner c"
  by (cases c; simp add: runtime_endpoint_owner_def push_end_drain_def push_begin_drain_def
      push_publish_gauges_def push_update_depth_def push_pause_def push_resume_def notify_changed_def Let_def)+

lemma push_config_owner [simp]:
  "runtime_endpoint_owner (p\<lparr>pu_queue := Q\<rparr>) = runtime_endpoint_owner p"
  "runtime_endpoint_owner (set_endpoints pe now eps opts p) = runtime_endpoint_owner p"
  "runtime_endpoint_owner (set_options pe opts p) = runtime_endpoint_owner p"
  "runtime_endpoint_owner (set_runtime_endpoint pe now r p) =
     map_option (\<lambda>r. (re_source r, re_token_fingerprint r)) r"
  by (simp_all add: runtime_endpoint_owner_def set_endpoints_def set_options_def set_runtime_endpoint_def
      notify_changed_def Let_def split_beta)

lemma new_owner [simp]: "consumer_owner (is_consumer (new_slot env now qid names c)) = None"
  by (cases "cc_kind c") (simp_all add: new_slot_def slot_new_def push_new_def runtime_endpoint_owner_def Let_def)

lemma new_slot_same [simp]:
  "is_name (new_slot env now qid names c) = cc_name c" "slot_mode (new_slot env now qid names c) = kind_mode (cc_kind c)"
  by (cases "cc_kind c"; simp add: new_slot_def slot_new_def slot_mode_def kind_mode_def)+

lemma evolves_on_consumer:
  "consumer_mode (f (is_consumer s)) = consumer_mode (is_consumer s) \<Longrightarrow>
   lq_entry (consumer_queue (f (is_consumer s))) = lq_entry (consumer_queue (is_consumer s)) \<Longrightarrow>
   evolves s (on_consumer f s)"
  by (simp add: evolves_def on_consumer_def slot_mode_def)

lemma stays_on_consumer:
  "consumer_mode (f (is_consumer s)) = consumer_mode (is_consumer s) \<Longrightarrow>
   lq_entry (consumer_queue (f (is_consumer s))) = lq_entry (consumer_queue (is_consumer s)) \<Longrightarrow>
   consumer_owner (f (is_consumer s)) = consumer_owner (is_consumer s) \<Longrightarrow> stays s (on_consumer f s)"
  by (simp add: stays_def evolves_on_consumer) (simp add: on_consumer_def)

lemma stays_fields:
  "stays s (s\<lparr>is_drain := d\<rparr>)" "stays s (s\<lparr>is_started := b\<rparr>)" "stays s (s\<lparr>is_fed_by := w, is_drain := d\<rparr>)"
  by (simp_all add: stays_def evolves_def slot_mode_def)

section \<open>The stages of a commit\<close>

lemma upd_instance_frame [simp]:
  "eg_state (upd_instance a f e) = eg_state e" "eg_retired (upd_instance a f e) = eg_retired e"
  "eg_draining (upd_instance a f e) = eg_draining e" "length (eg_slots (upd_instance a f e)) = length (eg_slots e)"
  by (simp_all add: upd_instance_def)

text \<open>The operations that only touch flags and settings, as a function on one instance.\<close>

lemma stays_upd_consumer:
  "(\<And>c. consumer_mode (f c) = consumer_mode c) \<Longrightarrow>
   (\<And>c. lq_entry (consumer_queue (f c)) = lq_entry (consumer_queue c)) \<Longrightarrow>
   (\<And>c. consumer_owner (f c) = consumer_owner c) \<Longrightarrow> slots_rel stays e (upd_instance a (on_consumer f) e)"
  by (rule sy.rel_upd, rule stays_on_consumer) simp_all

definition applied_live :: "('ac, 're) engine_env \<Rightarrow> instant \<Rightarrow> live \<Rightarrow> consumer \<Rightarrow> consumer" where
  "applied_live env now l c =
     (let c = (case lv_queue l of None \<Rightarrow> c | Some q \<Rightarrow> with_queue (set_config q (consumer_queue c)) c)
      in case c of
           CPull _ \<Rightarrow> c
         | CPush p \<Rightarrow>
             (case lv_endpoints l of
                Some (eps, opts) \<Rightarrow> CPush (set_endpoints (ee_push env) now eps opts p)
              | None \<Rightarrow>
                  (case lv_options l of
                     Some opts \<Rightarrow> CPush (set_options (ee_push env) opts p)
                   | None \<Rightarrow> c)))"

lemma apply_live_stays: "slots_rel stays e (apply_live env now l e)"
proof -
  have "apply_live env now l e = upd_instance (lv_slot l) (on_consumer (applied_live env now l)) e"
    unfolding apply_live_def applied_live_def by (rule refl)
  moreover have "consumer_mode (applied_live env now l c) = consumer_mode c"
    "lq_entry (consumer_queue (applied_live env now l c)) = lq_entry (consumer_queue c)"
    "consumer_owner (applied_live env now l c) = consumer_owner c" for c
    by (cases c; auto simp: applied_live_def Let_def split: option.splits)+
  ultimately show ?thesis by (simp add: stays_upd_consumer)
qed

lemma commit_revive_stays: "slots_rel stays e (commit_revive a e)"
proof -
  let ?d = "case is_drain (eg_slots e ! a) of None \<Rightarrow> e
     | Some token \<Rightarrow> upd_instance a (\<lambda>s. s\<lparr>is_drain := None\<rparr>) (e\<lparr>eg_cancelled := insert token (eg_cancelled e)\<rparr>)"
  have "slots_rel stays e (e\<lparr>eg_cancelled := insert t (eg_cancelled e)\<rparr>)" for t by (rule sy.rel_frame) simp
  moreover have "slots_rel stays k (upd_instance a (\<lambda>s. s\<lparr>is_drain := None\<rparr>) k)" for k :: "('a, 'b) engine"
    by (rule sy.rel_upd) (rule stays_fields)
  ultimately have "slots_rel stays e ?d" by (auto split: option.splits intro: sy.rel_trans sy.rel_refl)
  then have r: "slots_rel stays e (?d\<lparr>eg_retired := filter (\<lambda>b. b \<noteq> a) (eg_retired ?d)\<rparr>)"
    by (rule sy.rel_frames) simp
  have "slots_rel stays k (upd_instance a (on_consumer consumer_end_drain) k)" for k :: "('a, 'b) engine"
    by (rule stays_upd_consumer) simp_all
  with r show ?thesis unfolding commit_revive_def Let_def by (auto intro: sy.rel_trans)
qed

lemma commit_start_stays: "slots_rel stays e (commit_start a e)"
proof -
  have "slots_rel stays e (upd_instance a (\<lambda>s. s\<lparr>is_started := True\<rparr>) e)" by (rule sy.rel_upd) (rule stays_fields)
  moreover have "slots_rel stays k (upd_instance a (on_consumer consumer_begin_drain) k)" for k :: "('a, 'b) engine"
    by (rule stays_upd_consumer) simp_all
  ultimately show ?thesis unfolding commit_start_def Let_def by (auto intro: sy.rel_trans)
qed

lemma commit_retire_stays: "slots_rel stays e (commit_retire previous a e)"
  unfolding commit_retire_def Let_def
  by (rule sy.rel_frames, rule sy.rel_upd, rule sy.R_trans, rule stays_fields(3), rule stays_on_consumer) simp_all

lemma publish_all_stays: "slots_rel stays e (publish_all current e)"
proof -
  let ?m = "on_slots (map tg_slot (gn_targets current)) (consumer_gauges True) e"
  have "slots_rel stays e ?m" by (rule sy.rel_on_slots, rule stays_on_consumer) simp_all
  moreover have "slots_rel stays ?m (publish_all current e)"
    unfolding publish_all_def Let_def by (intro sy.rel_fold stays_upd_consumer) simp_all
  ultimately show ?thesis by (rule sy.rel_trans)
qed

text \<open>What a commit does to the lists of instances.\<close>

lemma upd_fold_frame:
  assumes "\<And>x e. eg_retired (g x e) = eg_retired e" and "\<And>x e. eg_state (g x e) = eg_state e"
  shows "eg_retired (fold g xs e) = eg_retired e" "eg_state (fold g xs e) = eg_state e"
  by (induction xs arbitrary: e) (simp_all add: assms)

lemma on_slots_frame [simp]: "eg_retired (on_slots as f e) = eg_retired e" "eg_state (on_slots as f e) = eg_state e"
  unfolding on_slots_def by (rule upd_fold_frame; simp)+

lemma publish_all_frame [simp]:
  "eg_retired (publish_all current e) = eg_retired e" "eg_state (publish_all current e) = eg_state e"
  unfolding publish_all_def Let_def by (simp_all add: upd_fold_frame)

lemma apply_live_frame [simp]:
  "eg_retired (apply_live env now l e) = eg_retired e" "eg_state (apply_live env now l e) = eg_state e"
  by (simp_all add: apply_live_def)

lemma commit_start_frame [simp]:
  "eg_retired (commit_start a e) = eg_retired e" "eg_state (commit_start a e) = eg_state e"
  by (simp_all add: commit_start_def Let_def)

lemma commit_revive_frame [simp]:
  "eg_retired (commit_revive a e) = filter (\<lambda>b. b \<noteq> a) (eg_retired e)" "eg_state (commit_revive a e) = eg_state e"
  by (auto simp: commit_revive_def Let_def split: option.splits)

lemma commit_retire_frame [simp]:
  "eg_retired (commit_retire previous a e) = eg_retired e @ [a]" "eg_state (commit_retire previous a e) = eg_state e"
  by (simp_all add: commit_retire_def Let_def)

lemma fold_revive_frame:
  "set (eg_retired (fold commit_revive as e)) = set (eg_retired e) - set as"
  "eg_state (fold commit_revive as e) = eg_state e"
  by (induction as arbitrary: e) auto

lemma fold_retire_frame:
  "eg_retired (fold (commit_retire previous) as e) = eg_retired e @ as"
  "eg_state (fold (commit_retire previous) as e) = eg_state e"
  by (induction as arbitrary: e) auto

section \<open>Clearing runtime endpoints\<close>

text \<open>Both sweeps clear the runtime endpoint of the listed instances that fail a condition.\<close>

definition cleared :: "('ac, 're) engine_env \<Rightarrow> instant \<Rightarrow> (instance_slot \<Rightarrow> bool) \<Rightarrow> instance_slot \<Rightarrow> instance_slot" where
  "cleared env now P s =
     (if P s then s
      else on_consumer (\<lambda>c. case c of CPush p \<Rightarrow> CPush (set_runtime_endpoint (ee_push env) now None p) | _ \<Rightarrow> c) s)"

definition allowed :: "('ac, 're) engine_env \<Rightarrow> ('ac, 're) generation \<Rightarrow> instance_slot \<Rightarrow> bool" where
  "allowed env st s = (case consumer_owner (is_consumer s) of None \<Rightarrow> True | Some owner \<Rightarrow> may_keep env st (is_name s) owner)"

definition current_token :: "('ac, 're) engine_env \<Rightarrow> ('ac, 're) generation \<Rightarrow> instance_slot \<Rightarrow> bool" where
  "current_token env st s =
     (case consumer_owner (is_consumer s) of
        None \<Rightarrow> True
      | Some (src, fp) \<Rightarrow> (case token_fingerprint env st src of None \<Rightarrow> True | Some current \<Rightarrow> current = fp))"

lemma upd_instance_id: "f (eg_slots e ! a) = eg_slots e ! a \<Longrightarrow> upd_instance a f e = e"
  by (simp add: upd_instance_def)

lemma keep_runtime_cleared: "keep_runtime env now st a e = upd_instance a (cleared env now (allowed env st)) e"
  by (auto simp: keep_runtime_def allowed_def cleared_def put_runtime_def upd_instance_def split: option.splits)

lemma evict_rotated_cleared: "evict_rotated env now st a e = upd_instance a (cleared env now (current_token env st)) e"
  by (auto simp: evict_rotated_def current_token_def cleared_def put_runtime_def upd_instance_def split: option.splits)

lemma cleared_owner: "\<not> P s \<Longrightarrow> consumer_owner (is_consumer (cleared env now P s)) = None"
  by (cases "is_consumer s") (simp_all add: cleared_def on_consumer_def)

lemma cleared_name [simp]: "is_name (cleared env now P s) = is_name s"
  by (simp add: cleared_def on_consumer_def)

lemma cleared_evolves: "evolves s (cleared env now P s)"
  by (cases "is_consumer s") (simp_all add: cleared_def evolves_def on_consumer_def slot_mode_def)

lemma cleared_id: "P s \<Longrightarrow> cleared env now P s = s"
  by (simp add: cleared_def)

lemma allowed_no_owner: "consumer_owner (is_consumer s) = None \<Longrightarrow> allowed env st s \<and> current_token env st s"
  by (simp add: allowed_def current_token_def)

lemma cleared_holds:
  "allowed env st (cleared env now (allowed env st) s)" "current_token env st (cleared env now (current_token env st) s)"
  using cleared_owner allowed_no_owner cleared_id by metis+

lemma allowed_cleared: "allowed env st s \<Longrightarrow> allowed env st (cleared env now P s)"
  using cleared_owner allowed_no_owner cleared_id by metis

lemma upd_instance_nth:
  "a < length (eg_slots e) \<Longrightarrow> eg_slots (upd_instance b g e) ! a = (if a = b then g (eg_slots e ! a) else eg_slots e ! a)"
  by (simp add: upd_instance_def nth_list_update)

lemma fold_upd_keeps:
  assumes "\<And>s. P s \<Longrightarrow> P (g s)" and "a < length (eg_slots e)" and "P (eg_slots e ! a)"
  shows "P (eg_slots (fold (\<lambda>b. upd_instance b g) bs e) ! a)"
  using assms(2,3)
proof (induction bs arbitrary: e)
  case (Cons b bs)
  have "P (eg_slots (upd_instance b g e) ! a)" using Cons.prems assms(1) by (auto simp: upd_instance_nth)
  then show ?case using Cons by simp
qed simp

lemma fold_upd_holds:
  assumes "\<And>s. P (g s)" and "a \<in> set bs" and "a < length (eg_slots e)"
  shows "P (eg_slots (fold (\<lambda>b. upd_instance b g) bs e) ! a)"
  using assms(2,3)
proof (induction bs arbitrary: e)
  case (Cons b bs)
  show ?case
  proof (cases "a = b")
    case True
    then have "P (eg_slots (upd_instance b g e) ! a)" using Cons.prems(2) assms(1) by (simp add: upd_instance_nth)
    from fold_upd_keeps [of P g a "upd_instance b g e" bs, OF assms(1) _ this] Cons.prems(2) show ?thesis by simp
  next
    case False
    then show ?thesis using Cons by simp
  qed
qed simp

lemma keep_all_fold:
  "keep_runtime_endpoints env now st e = fold (\<lambda>a. upd_instance a (cleared env now (allowed env st))) (map tg_slot (gn_targets st)) e"
  unfolding keep_runtime_endpoints_def by (rule fold_cong) (simp_all add: keep_runtime_cleared fun_eq_iff)

lemma evict_all_fold:
  "evict_rotated_captures env now st e = fold (\<lambda>a. upd_instance a (cleared env now (current_token env st))) (eg_retired e) e"
  unfolding evict_rotated_captures_def by (rule fold_cong) (simp_all add: evict_rotated_cleared fun_eq_iff)

lemma sweep_evolves: "slots_rel evolves e (fold (\<lambda>a. upd_instance a (cleared env now P)) as e)"
  by (intro ev.rel_fold ev.rel_upd cleared_evolves)

lemma sweep_frame [simp]:
  "eg_retired (fold (\<lambda>a. upd_instance a g) as e) = eg_retired e"
  "eg_state (fold (\<lambda>a. upd_instance a g) as e) = eg_state e"
  "length (eg_slots (fold (\<lambda>a. upd_instance a g) as e)) = length (eg_slots e)"
  by (induction as arbitrary: e) simp_all

section \<open>The commit\<close>

definition commit_stages ::
  "('ac, 're) engine_env \<Rightarrow> instant \<Rightarrow> ('ac, 're) generation option \<Rightarrow> changes \<Rightarrow> ('ac, 're) engine \<Rightarrow> ('ac, 're) engine" where
  "commit_stages env now state ch e =
     (let e = fold (apply_live env now) (ch_live ch) e;
          e = fold commit_revive (ch_revived ch) e;
          e = fold commit_start (ch_started ch) e;
          e = fold (commit_retire (eg_state e)) (ch_retiring ch) e
      in publish_all (case state of Some st \<Rightarrow> st | None \<Rightarrow> eg_state e) e)"

lemma reload_commit_stages:
  "reload_commit env now state ch e =
     on_slots (ch_started ch @ ch_revived ch) consumer_depth
       (case state of
          None \<Rightarrow> commit_stages env now state ch e
        | Some st \<Rightarrow> (evict_rotated_captures env now st (keep_runtime_endpoints env now st (commit_stages env now state ch e)))
                      \<lparr>eg_state := st\<rparr>)"
  by (cases state) (simp_all add: reload_commit_def commit_stages_def Let_def)

lemma commit_stages_stays: "slots_rel stays e (commit_stages env now state ch e)"
  unfolding commit_stages_def Let_def
  by (intro sy.rel_trans [OF _ publish_all_stays] sy.rel_trans [OF _ sy.rel_fold [OF commit_retire_stays]]
      sy.rel_trans [OF _ sy.rel_fold [OF commit_start_stays]] sy.rel_trans [OF _ sy.rel_fold [OF commit_revive_stays]]
      sy.rel_fold apply_live_stays)

lemma commit_stages_frame:
  "set (eg_retired (commit_stages env now state ch e)) = (set (eg_retired e) - set (ch_revived ch)) \<union> set (ch_retiring ch)"
  "eg_state (commit_stages env now state ch e) = eg_state e"
  by (simp_all add: commit_stages_def Let_def fold_retire_frame fold_revive_frame upd_fold_frame)

lemma depth_stays: "slots_rel stays e (on_slots as consumer_depth e)"
  by (rule sy.rel_on_slots, rule stays_on_consumer) simp_all

lemma commit_frame:
  "set (eg_retired (reload_commit env now state ch e)) = (set (eg_retired e) - set (ch_revived ch)) \<union> set (ch_retiring ch)"
  "eg_state (reload_commit env now state ch e) = (case state of None \<Rightarrow> eg_state e | Some st \<Rightarrow> st)"
  by (simp_all add: reload_commit_stages commit_stages_frame keep_all_fold evict_all_fold split: option.splits)

lemma commit_evolves: "slots_rel evolves e (reload_commit env now state ch e)"
proof -
  let ?s = "commit_stages env now state ch e"
  have s: "slots_rel evolves e ?s" by (rule stays_evolve, rule commit_stages_stays)
  have "slots_rel evolves ?s ((evict_rotated_captures env now st (keep_runtime_endpoints env now st ?s))\<lparr>eg_state := st\<rparr>)" for st
    unfolding keep_all_fold evict_all_fold
    by (rule ev.rel_frames, rule ev.rel_trans, rule sweep_evolves, rule sweep_evolves) simp
  with s have "slots_rel evolves e (case state of None \<Rightarrow> ?s
      | Some st \<Rightarrow> (evict_rotated_captures env now st (keep_runtime_endpoints env now st ?s))\<lparr>eg_state := st\<rparr>)"
    by (auto split: option.splits intro: ev.rel_trans)
  then show ?thesis unfolding reload_commit_stages by (rule ev.rel_trans) (rule stays_evolve, rule depth_stays)
qed

lemma new_commit_owner:
  assumes "a < length (eg_slots e)"
  shows "consumer_owner (is_consumer (eg_slots (reload_commit env now None ch e) ! a)) = consumer_owner (is_consumer (eg_slots e ! a))"
proof -
  have "slots_rel stays e (reload_commit env now None ch e)"
    unfolding reload_commit_stages by (simp add: sy.rel_trans [OF commit_stages_stays depth_stays])
  from slots_rel_nth [OF this assms] show ?thesis by (simp add: stays_def)
qed

lemma stays_steady: "stays s s' \<Longrightarrow> steady s s'"
  by (simp add: stays_def evolves_def steady_def)

lemma allowed_steady: "steady s s' \<Longrightarrow> allowed env st s' = allowed env st s" "steady s s' \<Longrightarrow> current_token env st s' = current_token env st s"
  by (auto simp: steady_def allowed_def current_token_def split: option.splits)

lemma commit_confines:
  assumes a: "a < length (eg_slots e)"
  shows "a \<in> set (map tg_slot (gn_targets st)) \<Longrightarrow> allowed env st (eg_slots (reload_commit env now (Some st) ch e) ! a)"
    and "a \<in> set (eg_retired (reload_commit env now (Some st) ch e)) \<Longrightarrow>
      current_token env st (eg_slots (reload_commit env now (Some st) ch e) ! a)"
proof -
  let ?s = "commit_stages env now (Some st) ch e"
  let ?k = "fold (\<lambda>a. upd_instance a (cleared env now (allowed env st))) (map tg_slot (gn_targets st)) ?s"
  let ?v = "fold (\<lambda>a. upd_instance a (cleared env now (current_token env st))) (eg_retired ?k) ?k"
  have r: "reload_commit env now (Some st) ch e = on_slots (ch_started ch @ ch_revived ch) consumer_depth (?v\<lparr>eg_state := st\<rparr>)"
    by (simp add: reload_commit_stages keep_all_fold evict_all_fold)
  have al: "a < length (eg_slots ?s)" using a slots_rel_length [OF commit_stages_stays [of e env now "Some st" ch]] by simp
  then have d: "steady (eg_slots ?v ! a) (eg_slots (reload_commit env now (Some st) ch e) ! a)"
    unfolding r using stays_steady [OF slots_rel_nth [OF depth_stays, of a "?v\<lparr>eg_state := st\<rparr>"]] by simp
  { assume "a \<in> set (map tg_slot (gn_targets st))"
    from fold_upd_holds [of "allowed env st" "cleared env now (allowed env st)", OF cleared_holds(1) this al]
    have "allowed env st (eg_slots ?k ! a)" .
    from fold_upd_keeps [of "allowed env st" "cleared env now (current_token env st)", OF allowed_cleared _ this] al
    have "allowed env st (eg_slots ?v ! a)" by simp
    then show "allowed env st (eg_slots (reload_commit env now (Some st) ch e) ! a)" by (simp only: allowed_steady(1) [OF d]) }
  { assume "a \<in> set (eg_retired (reload_commit env now (Some st) ch e))"
    then have "a \<in> set (eg_retired ?k)" unfolding r by simp
    then have "current_token env st (eg_slots ?v ! a)"
      by (rule fold_upd_holds [of "current_token env st", OF cleared_holds(2)]) (simp add: al)
    then show "current_token env st (eg_slots (reload_commit env now (Some st) ch e) ! a)" by (simp only: allowed_steady(2) [OF d]) }
qed

end
