(* ===== verification/Reload_Plan.thy ===== *)
theory Reload_Plan
  imports Reload_Inv
begin

text \<open>
  What the plan of a reload holds: the instance each consumer gets, the instances that drain or
  come back, and the ids of the bots.
\<close>

section \<open>Consumers\<close>

definition slot_kind :: "instance_slot \<Rightarrow> string \<times> mode" where
  "slot_kind s = (is_name s, slot_mode s)"

definition written_kind :: "consumer_config \<Rightarrow> string \<times> mode" where
  "written_kind c = (cc_name c, kind_mode (cc_kind c))"

text \<open>Where the plan stands after the consumers \<open>fin\<close> of the new configuration.\<close>

definition plan_ok ::
  "('ac, 're) generation option \<Rightarrow> nat list \<Rightarrow> instance_slot list \<Rightarrow> consumer_config list \<Rightarrow> plan_state \<Rightarrow> bool" where
  "plan_ok old retired slots fin pa \<longleftrightarrow>
     prefix slots (pa_slots pa) \<and>
     map (\<lambda>a. slot_kind (pa_slots pa ! a)) (map tg_slot (pa_targets pa)) = map written_kind fin \<and>
     (\<forall>a \<in> set (map tg_slot (pa_targets pa)). a < length (pa_slots pa)) \<and>
     (\<forall>s \<in> set (drop (length slots) (pa_slots pa)). consumer_owner (is_consumer s) = None) \<and>
     set (pa_retiring pa) \<subseteq> (case old of None \<Rightarrow> {} | Some old \<Rightarrow> tg_slot ` set (gn_targets old)) \<and>
     set (pa_revived pa) \<subseteq> set retired \<inter> set (map tg_slot (pa_targets pa)) \<and>
     (\<forall>c \<in> set fin. \<forall>a written. previous_of old slots (cc_name c) = Some (a, written) \<longrightarrow>
        (if slot_mode (slots ! a) = kind_mode (cc_kind c) then a \<in> set (map tg_slot (pa_targets pa))
         else a \<in> set (pa_retiring pa)))"

definition addresses_ok :: "('ac, 're) generation option \<Rightarrow> nat list \<Rightarrow> instance_slot list \<Rightarrow> bool" where
  "addresses_ok old retired slots \<longleftrightarrow>
     (\<forall>t \<in> set (case old of None \<Rightarrow> [] | Some old \<Rightarrow> gn_targets old). tg_slot t < length slots) \<and>
     (\<forall>a \<in> set retired. a < length slots)"

lemma previous_of_prefix:
  assumes "addresses_ok old retired slots"
  shows "previous_of old (slots @ xs) name = previous_of old slots name"
proof (cases old)
  case (Some st)
  with assms have "find (\<lambda>t. is_name ((slots @ xs) ! tg_slot t) = name) (gn_targets st) =
      find (\<lambda>t. is_name (slots ! tg_slot t) = name) (gn_targets st)"
    by (intro find_cong) (simp_all add: addresses_ok_def nth_append)
  then show ?thesis using Some by (simp add: previous_of_def find_target_def)
qed (simp add: previous_of_def)

lemma find_in: "find P xs = Some x \<Longrightarrow> x \<in> set xs \<and> P x"
  by (auto simp: find_Some_iff)

lemma previous_of_in:
  assumes "previous_of old slots name = Some (a, written)"
  obtains st t where "old = Some st" "t \<in> set (gn_targets st)" "tg_slot t = a" "is_name (slots ! a) = name"
proof (cases old)
  case (Some st)
  with assms obtain t where "find_target st slots name = Some t" "tg_slot t = a"
    by (auto simp: previous_of_def split: option.splits)
  with find_in [of _ "gn_targets st" t] Some that show thesis unfolding find_target_def by blast
qed (use assms in \<open>simp add: previous_of_def\<close>)

lemma previous_of_target:
  "previous_of old slots name = Some (a, written) \<Longrightarrow>
   a \<in> (case old of None \<Rightarrow> {} | Some old \<Rightarrow> tg_slot ` set (gn_targets old))"
  by (erule previous_of_in) auto

text \<open>The outcomes for one consumer: its instance is kept, one comes back, or one is created.\<close>

lemma plan_kept:
  assumes "previous_of old (pa_slots pa) (cc_name c) = Some (a, written)" and "slot_mode (pa_slots pa ! a) = kind_mode (cc_kind c)"
  shows "map tg_slot (pa_targets (plan_consumer env now old retired grew names c pa)) = map tg_slot (pa_targets pa) @ [a]"
    "pa_slots (plan_consumer env now old retired grew names c pa) = pa_slots pa"
    "pa_retiring (plan_consumer env now old retired grew names c pa) = pa_retiring pa"
    "pa_revived (plan_consumer env now old retired grew names c pa) = pa_revived pa"
  using assms by (simp_all add: plan_consumer_def Let_def)

definition comes_back :: "nat list \<Rightarrow> instance_slot list \<Rightarrow> consumer_config \<Rightarrow> nat option" where
  "comes_back retired slots c =
     find (\<lambda>a. is_name (slots ! a) = cc_name c \<and> slot_mode (slots ! a) = kind_mode (cc_kind c)) retired"

lemma plan_replaced:
  assumes "case previous_of old (pa_slots pa) (cc_name c) of
      None \<Rightarrow> True | Some (b, written) \<Rightarrow> slot_mode (pa_slots pa ! b) \<noteq> kind_mode (cc_kind c)"
  shows "map tg_slot (pa_targets (plan_consumer env now old retired grew names c pa)) =
      map tg_slot (pa_targets pa) @ [case comes_back retired (pa_slots pa) c of Some a \<Rightarrow> a | None \<Rightarrow> length (pa_slots pa)]"
    "pa_slots (plan_consumer env now old retired grew names c pa) = pa_slots pa @
      (case comes_back retired (pa_slots pa) c of Some a \<Rightarrow> [] | None \<Rightarrow> [new_slot env now (length (pa_slots pa)) names c])"
    "pa_retiring (plan_consumer env now old retired grew names c pa) = pa_retiring pa @
      (case previous_of old (pa_slots pa) (cc_name c) of None \<Rightarrow> [] | Some (b, _) \<Rightarrow> [b])"
    "pa_revived (plan_consumer env now old retired grew names c pa) = pa_revived pa @
      (case comes_back retired (pa_slots pa) c of Some a \<Rightarrow> [a] | None \<Rightarrow> [])"
  using assms by (auto simp: plan_consumer_def comes_back_def Let_def split: option.splits)

lemma plan_ok_step:
  assumes ok: "plan_ok old retired slots fin pa" and ad: "addresses_ok old retired slots"
  shows "plan_ok old retired slots (fin @ [c]) (plan_consumer env now old retired grew names c pa)"
proof -
  let ?pa = "plan_consumer env now old retired grew names c pa"
  obtain xs where xs: "pa_slots pa = slots @ xs" using ok by (auto simp: plan_ok_def prefix_def)
  have prev: "previous_of old (pa_slots pa) n = previous_of old slots n" for n
    unfolding xs by (rule previous_of_prefix [OF ad])
  have old_lt: "a < length slots" if "previous_of old slots n = Some (a, w)" for a n w
    using previous_of_in [OF that] ad by (force simp: addresses_ok_def)
  show ?thesis
  proof (cases "\<exists>a w. previous_of old slots (cc_name c) = Some (a, w) \<and> slot_mode (slots ! a) = kind_mode (cc_kind c)")
    case True
    then obtain a w where p: "previous_of old slots (cc_name c) = Some (a, w)" and m: "slot_mode (slots ! a) = kind_mode (cc_kind c)"
      by blast
    have a: "a < length slots" "pa_slots pa ! a = slots ! a" using old_lt [OF p] xs by (simp_all add: nth_append)
    have nm: "slot_kind (slots ! a) = written_kind c"
      using previous_of_in [OF p] m unfolding slot_kind_def written_kind_def by metis
    note k = plan_kept [OF p [folded prev], unfolded a(2), OF m, of env now retired grew names]
    show ?thesis unfolding plan_ok_def k using ok p m a nm xs by (auto simp: plan_ok_def)
  next
    case False
    have pm: "case previous_of old (pa_slots pa) (cc_name c) of
        None \<Rightarrow> True | Some (b, w) \<Rightarrow> slot_mode (pa_slots pa ! b) \<noteq> kind_mode (cc_kind c)"
      using False old_lt xs unfolding prev by (auto simp: nth_append split: option.splits)
    note k = plan_replaced [OF pm, of env now retired grew names, unfolded prev]
    have ret: "set (case previous_of old slots (cc_name c) of None \<Rightarrow> [] | Some (b, _) \<Rightarrow> [b])
        \<subseteq> (case old of None \<Rightarrow> {} | Some old \<Rightarrow> tg_slot ` set (gn_targets old))"
      using previous_of_target [of old slots "cc_name c"]
      by (cases "previous_of old slots (cc_name c)") (auto simp del: option.case_eq_if)
    show ?thesis
    proof (cases "comes_back retired (pa_slots pa) c")
      case None
      note k = k [unfolded None option.case]
      have "map (\<lambda>a. slot_kind ((pa_slots pa @ [new_slot env now (length (pa_slots pa)) names c]) ! a)) (map tg_slot (pa_targets pa)) =
          map (\<lambda>a. slot_kind (pa_slots pa ! a)) (map tg_slot (pa_targets pa))"
        using ok by (intro map_cong refl) (auto simp: plan_ok_def nth_append)
      also have "\<dots> = map written_kind fin" using ok unfolding plan_ok_def by (elim conjE)
      finally have nm: "map (\<lambda>a. slot_kind ((pa_slots pa @ [new_slot env now (length (pa_slots pa)) names c]) ! a))
          (map tg_slot (pa_targets pa) @ [length (pa_slots pa)]) = map written_kind (fin @ [c])"
        unfolding map_append by (simp add: slot_kind_def written_kind_def)
      show ?thesis unfolding plan_ok_def k nm using ok ret False xs
        by (auto simp: plan_ok_def less_Suc_eq split: if_splits)
    next
      case (Some a)
      then have a: "a \<in> set retired" "slot_kind (pa_slots pa ! a) = written_kind c"
        unfolding comes_back_def slot_kind_def written_kind_def using find_in by fastforce+
      then have "a < length (pa_slots pa)" using ad xs by (auto simp: addresses_ok_def)
      note k = k [unfolded Some option.case]
      show ?thesis unfolding plan_ok_def k using ok ret False xs a \<open>a < length (pa_slots pa)\<close>
        by (auto simp: plan_ok_def split: if_splits)
    qed
  qed
qed

lemma plan_ok_fold:
  assumes "addresses_ok old retired slots" and "plan_ok old retired slots fin pa"
  shows "plan_ok old retired slots (fin @ cs) (fold (plan_consumer env now old retired grew names) cs pa)"
  using assms(2)
proof (induction cs arbitrary: fin pa)
  case (Cons c cs)
  from Cons.IH [OF plan_ok_step [OF Cons.prems assms(1), of c env now grew names]] show ?case by simp
qed simp

definition plan_start :: "instance_slot list \<Rightarrow> plan_state" where
  "plan_start slots = \<lparr>pa_slots = slots, pa_live = [], pa_started = [], pa_revived = [], pa_retiring = [],
     pa_targets = [], pa_added = [], pa_changed = []\<rparr>"

lemma plan_ok_all:
  assumes "addresses_ok old retired slots"
  shows "plan_ok old retired slots cs (fold (plan_consumer env now old retired grew names) cs (plan_start slots))"
proof -
  have "plan_ok old retired slots [] (plan_start slots)" by (simp add: plan_ok_def plan_start_def)
  from plan_ok_fold [OF assms this, of cs env now grew names] show ?thesis by simp
qed

section \<open>Bots\<close>

text \<open>The entry at an id has that id and the name the id was given to; no two have the same name.\<close>

definition sources_wf :: "('ac, 're) generation \<Rightarrow> bool" where
  "sources_wf st \<longleftrightarrow> length (gn_sources st) = length (gn_source_names st) \<and>
     (\<forall>i info. i < length (gn_sources st) \<longrightarrow> gn_sources st ! i = Some info \<longrightarrow>
        se_id info = i \<and> se_name info = gn_source_names st ! i \<and> find_bot (gn_config st) (se_name info) \<noteq> None) \<and>
     (\<forall>info info'. Some info \<in> set (gn_sources st) \<longrightarrow> Some info' \<in> set (gn_sources st) \<longrightarrow>
        se_name info = se_name info' \<longrightarrow> info = info')"

lemma set_live: "set (List.map_filter id xs) = {x. Some x \<in> set xs}"
  by (induction xs) (auto simp: List.map_filter_simps split: option.splits)

lemma source_named_iff:
  assumes "sources_wf st"
  shows "source_named st name = Some info \<longleftrightarrow> Some info \<in> set (gn_sources st) \<and> se_name info = name"
proof
  assume "source_named st name = Some info"
  then show "Some info \<in> set (gn_sources st) \<and> se_name info = name"
    using find_in [of "\<lambda>s. se_name s = name"] by (fastforce simp: source_named_def set_live)
next
  assume r: "Some info \<in> set (gn_sources st) \<and> se_name info = name"
  then have "source_named st name \<noteq> None" by (auto simp: source_named_def find_None_iff set_live)
  then obtain info' where i: "source_named st name = Some info'" by auto
  then have "Some info' \<in> set (gn_sources st)" "se_name info' = name"
    using find_in [of "\<lambda>s. se_name s = name"] by (fastforce simp: source_named_def set_live)+
  with r i assms show "source_named st name = Some info" by (auto simp: sources_wf_def)
qed

lemma source_named_id:
  assumes "sources_wf st" and "source_named st name = Some info"
  shows "se_id info < length (gn_source_names st)" "gn_source_names st ! se_id info = name" "se_name info = name"
    "gn_sources st ! se_id info = Some info"
proof -
  from assms have n: "se_name info = name" and "Some info \<in> set (gn_sources st)" by (simp_all add: source_named_iff)
  then obtain i where i: "i < length (gn_sources st)" "gn_sources st ! i = Some info" by (auto simp: in_set_conv_nth)
  with assms(1) have "se_id info = i" "se_name info = gn_source_names st ! i" "i < length (gn_source_names st)"
    unfolding sources_wf_def by metis+
  with i n show "se_id info < length (gn_source_names st)" "gn_source_names st ! se_id info = name" "se_name info = name"
    "gn_sources st ! se_id info = Some info" by simp_all
qed

definition id_rule :: "('ac, 're) generation option \<Rightarrow> nat \<Rightarrow> source_entry \<Rightarrow> bool" where
  "id_rule old n info =
     (case Option.bind old (\<lambda>st. source_named st (se_name info)) of
        Some ke \<Rightarrow> se_id info = se_id ke | None \<Rightarrow> n \<le> se_id info)"

lemma id_rule_mono: "id_rule old n info \<Longrightarrow> m \<le> n \<Longrightarrow> id_rule old m info"
  by (auto simp: id_rule_def split: option.splits)

lemma assign_ids_spec:
  assumes "assign_ids old bs names added = Inr (es, names', added')"
    and "\<And>st. old = Some st \<Longrightarrow> sources_wf st \<and> prefix (gn_source_names st) names"
  shows "prefix names names' \<and> map snd es = bs \<and>
     (\<forall>p \<in> set es. se_name (fst p) = bt_name (snd p) \<and> se_id (fst p) < length names' \<and>
        names' ! se_id (fst p) = se_name (fst p) \<and> id_rule old (length names) (fst p))"
  using assms
proof (induction old bs names added arbitrary: es names' added' rule: assign_ids.induct)
  case (2 old b bs names added)
  show ?case
  proof (cases "Option.bind old (\<lambda>old. map_option (\<lambda>ke. (old, ke)) (source_named old (bt_name b)))")
    case None
    with 2(3) obtain es1 where r: "assign_ids old bs (names @ [bt_name b]) (added @ [bt_name b]) = Inr (es1, names', added')"
      and es: "es = (\<lparr>se_id = length names, se_name = bt_name b, se_username = None\<rparr>, b) # es1" and le: "\<not> length names > 65535"
      by (auto split: if_splits sum.splits)
    have st: "sources_wf st \<and> prefix (gn_source_names st) (names @ [bt_name b])" if "old = Some st" for st
      using 2(4) [OF that] by (simp add: prefix_prefix)
    have ih: "prefix (names @ [bt_name b]) names' \<and> map snd es1 = bs \<and>
       (\<forall>p \<in> set es1. se_name (fst p) = bt_name (snd p) \<and> se_id (fst p) < length names' \<and>
        names' ! se_id (fst p) = se_name (fst p) \<and> id_rule old (length (names @ [bt_name b])) (fst p))"
      using 2(1) [OF None le r st] by simp
    then obtain ys where ys: "names' = names @ [bt_name b] @ ys" by (auto simp: prefix_def)
    have "Option.bind old (\<lambda>st. source_named st (bt_name b)) = None" using None by (cases old) auto
    then have "id_rule old (length names) \<lparr>se_id = length names, se_name = bt_name b, se_username = None\<rparr>"
      by (simp add: id_rule_def)
    moreover have "\<forall>p \<in> set es1. id_rule old (length names) (fst p)" using ih id_rule_mono by fastforce
    moreover have "names' ! length names = bt_name b" "length names < length names'" "prefix names names'" using ys by simp_all
    ultimately show ?thesis using ih unfolding es by simp
  next
    case (Some p)
    then obtain st ke where p: "p = (st, ke)" and st: "old = Some st" and ke: "source_named st (bt_name b) = Some ke"
      by (cases old) auto
    with 2(3) Some obtain es1 where r: "assign_ids old bs names added = Inr (es1, names', added')"
      and es: "es = (\<lparr>se_id = se_id ke, se_name = bt_name b, se_username = known_username st ke b\<rparr>, b) # es1"
      by (auto split: sum.splits)
    have ih: "prefix names names' \<and> map snd es1 = bs \<and>
       (\<forall>p \<in> set es1. se_name (fst p) = bt_name (snd p) \<and> se_id (fst p) < length names' \<and>
        names' ! se_id (fst p) = se_name (fst p) \<and> id_rule old (length names) (fst p))"
      using 2(2) [OF Some p [symmetric] r 2(4)] by simp
    have wf: "sources_wf st" "prefix (gn_source_names st) names" using 2(4) [OF st] by simp_all
    with ih have "prefix (gn_source_names st) names'" by (meson prefix_order.trans)
    then have "se_id ke < length names'" "names' ! se_id ke = bt_name b"
      using source_named_id [OF wf(1) ke] by (auto simp: prefix_def nth_append)
    with ih show ?thesis unfolding es by (auto simp: id_rule_def st ke)
  qed
qed simp

text \<open>The table of the bots by id.\<close>

lemma place_nth:
  assumes "distinct (map se_id es)" and "i < length srcs"
  shows "fold (\<lambda>info srcs. srcs[se_id info := Some info]) es srcs ! i =
     (case find (\<lambda>info. se_id info = i) es of None \<Rightarrow> srcs ! i | Some info \<Rightarrow> Some info)"
  using assms
proof (induction es arbitrary: srcs)
  case (Cons e es)
  have "find (\<lambda>info. se_id info = i) es = None" if "se_id e = i" using Cons.prems that by (auto simp: find_None_iff image_iff)
  then show ?case using Cons by (auto simp: nth_list_update split: option.splits)
qed simp

lemma place_length: "length (place_sources n es) = n"
proof -
  have "length (fold (\<lambda>info srcs. srcs[se_id info := Some info]) es srcs) = length srcs" for srcs :: "source_entry option list"
    by (induction es arbitrary: srcs) simp_all
  then show ?thesis by (simp add: place_sources_def)
qed

lemma place_iff:
  assumes d: "distinct (map se_id es)" and i: "i < n"
  shows "place_sources n es ! i = Some info \<longleftrightarrow> info \<in> set es \<and> se_id info = i"
proof -
  have p: "place_sources n es ! i = find (\<lambda>info. se_id info = i) es"
    using place_nth [OF d, of i "replicate n None"] i by (simp add: place_sources_def split: option.splits)
  show ?thesis
  proof
    assume "place_sources n es ! i = Some info"
    with find_in show "info \<in> set es \<and> se_id info = i" unfolding p by fastforce
  next
    assume r: "info \<in> set es \<and> se_id info = i"
    then obtain info' where f: "find (\<lambda>info. se_id info = i) es = Some info'"
      by (cases "find (\<lambda>info. se_id info = i) es") (auto simp: find_None_iff)
    with find_in [OF f] r d have "info' = info" by (auto simp: distinct_map inj_on_def)
    with f p show "place_sources n es ! i = Some info" by simp
  qed
qed

definition config_named :: "config \<Rightarrow> bool" where
  "config_named cfg \<longleftrightarrow> distinct (map bt_name (cf_bots cfg)) \<and> distinct (map cc_name (cf_consumers cfg))"

definition plan_bots ::
  "('ac, 're) generation option \<Rightarrow> config \<Rightarrow> ('ac, 're) generation \<Rightarrow> bool" where
  "plan_bots old cfg st \<longleftrightarrow> sources_wf st \<and>
     prefix (case old of None \<Rightarrow> [] | Some old \<Rightarrow> gn_source_names old) (gn_source_names st) \<and>
     (\<forall>name. source_named st name \<noteq> None \<longleftrightarrow> find_bot cfg name \<noteq> None) \<and>
     (\<forall>name info. source_named st name = Some info \<longrightarrow>
        id_rule old (length (case old of None \<Rightarrow> [] | Some old \<Rightarrow> gn_source_names old)) info)"

lemma plan_bots_ok:
  assumes a: "assign_ids old (cf_bots cfg) (case old of None \<Rightarrow> [] | Some old \<Rightarrow> gn_source_names old) [] = Inr (es, names, added)"
    and wf: "\<And>st. old = Some st \<Longrightarrow> sources_wf st" and cfg: "config_named cfg"
    and st: "gn_sources st = place_sources (length names) (map fst es)" "gn_source_names st = names" "gn_config st = cfg"
  shows "plan_bots old cfg st"
proof -
  let ?n0 = "case old of None \<Rightarrow> [] | Some old \<Rightarrow> gn_source_names old"
  have sp: "prefix ?n0 names" "map snd es = cf_bots cfg"
    "\<And>p. p \<in> set es \<Longrightarrow> se_name (fst p) = bt_name (snd p) \<and> se_id (fst p) < length names \<and>
        names ! se_id (fst p) = se_name (fst p) \<and> id_rule old (length ?n0) (fst p)"
    using assign_ids_spec [OF a] wf by auto
  have nm: "map se_name (map fst es) = map bt_name (cf_bots cfg)"
    unfolding sp(2) [symmetric] using sp(3) by simp
  then have dn: "distinct (map se_name (map fst es))" using cfg by (simp add: config_named_def)
  have "map (\<lambda>i. names ! i) (map se_id (map fst es)) = map se_name (map fst es)" using sp(3) by simp
  then have di: "distinct (map se_id (map fst es))" using dn by (metis distinct_map)
  have iff: "Some info \<in> set (gn_sources st) \<longleftrightarrow> info \<in> set (map fst es)" for info
  proof
    assume "Some info \<in> set (gn_sources st)"
    then obtain i where "i < length names" "place_sources (length names) (map fst es) ! i = Some info"
      unfolding st(1) in_set_conv_nth place_length by blast
    then show "info \<in> set (map fst es)" using place_iff [OF di] by blast
  next
    assume r: "info \<in> set (map fst es)"
    then have l: "se_id info < length names" using sp(3) by auto
    with r have "place_sources (length names) (map fst es) ! se_id info = Some info" using place_iff [OF di l] by simp
    with l show "Some info \<in> set (gn_sources st)" unfolding st(1) in_set_conv_nth place_length by blast
  qed
  have fb: "find_bot cfg name \<noteq> None \<longleftrightarrow> name \<in> set (map se_name (map fst es))" for name
    unfolding nm by (auto simp: find_bot_def find_None_iff)
  have wf': "sources_wf st"
    unfolding sources_wf_def
  proof (intro conjI allI impI)
    show "length (gn_sources st) = length (gn_source_names st)" by (simp add: st place_length)
  next
    fix i info assume i: "i < length (gn_sources st)" "gn_sources st ! i = Some info"
    then have "info \<in> set (map fst es)" "se_id info = i" using place_iff [OF di] by (simp_all add: st(1) place_length)
    with sp(3) fb show "se_id info = i" "se_name info = gn_source_names st ! i" "find_bot (gn_config st) (se_name info) \<noteq> None"
      by (auto simp: st)
  next
    fix info info' assume "Some info \<in> set (gn_sources st)" "Some info' \<in> set (gn_sources st)" "se_name info = se_name info'"
    with dn iff show "info = info'" unfolding distinct_map inj_on_def by metis
  qed
  have "source_named st name \<noteq> None \<longleftrightarrow> find_bot cfg name \<noteq> None" for name
  proof -
    have "source_named st name \<noteq> None \<longleftrightarrow> (\<exists>info. info \<in> set (map fst es) \<and> se_name info = name)"
      unfolding iff [symmetric] source_named_iff [OF wf', symmetric] by blast
    then show ?thesis unfolding fb by auto
  qed
  moreover have "id_rule old (length ?n0) info" if "source_named st name = Some info" for name info
    using that sp(3) iff unfolding source_named_iff [OF wf'] by auto
  ultimately show ?thesis using wf' sp(1) st(2) unfolding plan_bots_def by blast
qed

end
