(* ===== verification/Reload_Props.thy ===== *)
theory Reload_Props
  imports Reload_Plan
begin

text \<open>
  The engine over its whole life: the states its control operations and reloads reach, what
  every reload keeps, and where runtime endpoints may stay.
\<close>

section \<open>The plan, whole\<close>

definition gone_targets :: "config \<Rightarrow> ('ac, 're) generation option \<Rightarrow> instance_slot list \<Rightarrow> target_slot list" where
  "gone_targets cfg old slots =
     (case old of
        None \<Rightarrow> []
      | Some old \<Rightarrow> filter (\<lambda>t. find_consumer cfg (is_name (slots ! tg_slot t)) = None) (gn_targets old))"

lemma plan_build_spec:
  assumes pb: "plan_build env now tok cfg old retired slots = Inr (st, ch, slots')"
    and ad: "addresses_ok old retired slots" and wf0: "case old of None \<Rightarrow> True | Some st \<Rightarrow> sources_wf st" and cfg: "config_named cfg"
  obtains pa where "plan_ok old retired slots (cf_consumers cfg) pa" "slots' = pa_slots pa" "gn_targets st = pa_targets pa"
    "ch_revived ch = pa_revived pa" "ch_retiring ch = pa_retiring pa @ map tg_slot (gone_targets cfg old slots)"
    "plan_bots old cfg st" "gn_config st = cfg" "gn_number st = (case old of None \<Rightarrow> 1 | Some old \<Rightarrow> gn_number old + 1)"
    "rr_generation (ch_report ch) = gn_number st"
proof -
  let ?n0 = "case old of None \<Rightarrow> [] | Some old \<Rightarrow> gn_source_names old"
  have wf: "sources_wf st" if "old = Some st" for st using wf0 that by simp
  from pb obtain es names added where a: "assign_ids old (cf_bots cfg) ?n0 [] = Inr (es, names, added)"
    by (auto simp: plan_build_def Let_def split: sum.splits)
  from pb a obtain table where t: "compile (ee_rules env) tok (map (\<lambda>(info, b). (se_id info, bt_rules b)) es)
      (map (\<lambda>(info, b). (se_id info, se_username info)) es) = Inr table"
    by (auto simp: plan_build_def Let_def split: sum.splits)
  let ?pa = "fold (plan_consumer env now old retired (old \<noteq> None \<and> length ?n0 \<noteq> length names) names) (cf_consumers cfg) (plan_start slots)"
  have r: "slots' = pa_slots ?pa" "gn_targets st = pa_targets ?pa" "ch_revived ch = pa_revived ?pa"
    "ch_retiring ch = pa_retiring ?pa @ map tg_slot (gone_targets cfg old slots)" "gn_config st = cfg"
    "gn_number st = (case old of None \<Rightarrow> 1 | Some old \<Rightarrow> gn_number old + 1)" "rr_generation (ch_report ch) = gn_number st"
    "gn_sources st = place_sources (length names) (map fst es)" "gn_source_names st = names"
    using pb unfolding plan_build_def Let_def a sum.case prod.case t plan_start_def [symmetric] gone_targets_def by auto
  from that [OF plan_ok_all [OF ad] r(1-4) plan_bots_ok [OF a wf cfg r(8,9,5)] r(5-7)] show thesis .
qed

section \<open>Reachable engines\<close>

definition engine_wf :: "('ac, 're) engine \<Rightarrow> bool" where
  "engine_wf e \<longleftrightarrow> addresses_ok (Some (eg_state e)) (eg_retired e) (eg_slots e) \<and> sources_wf (eg_state e) \<and>
     config_named (gn_config (eg_state e)) \<and>
     map (\<lambda>a. slot_kind (eg_slots e ! a)) (map tg_slot (gn_targets (eg_state e))) = map written_kind (cf_consumers (gn_config (eg_state e)))"

definition confined :: "('ac, 're) engine_env \<Rightarrow> ('ac, 're) engine \<Rightarrow> bool" where
  "confined env e \<longleftrightarrow>
     (\<forall>a \<in> set (map tg_slot (gn_targets (eg_state e))). allowed env (eg_state e) (eg_slots e ! a)) \<and>
     (\<forall>a \<in> set (eg_retired e). current_token env (eg_state e) (eg_slots e ! a))"

text \<open>
  The steps of an engine. A consumer's own operations (polls, deliveries, admission into its queue)
  are any change that keeps its mode and the owner of its runtime endpoint:
  \<open>push_step_owner\<close> below shows that its dispatcher's do.
\<close>

inductive engine_step :: "('ac, 're) engine_env \<Rightarrow> ('ac, 're) engine \<Rightarrow> ('ac, 're) engine \<Rightarrow> bool"
  for env :: "('ac, 're) engine_env" and e :: "('ac, 're) engine" where
  es_apply: "config_named cfg \<Longrightarrow> engine_step env e (snd (engine_apply env now tok cfg e))"
| es_retire: "engine_step env e (snd (engine_retire a token e))"
| es_username: "engine_step env e (set_username env tok src username e)"
| es_runtime: "engine_step env e (snd (engine_set_runtime env now name src token ep e))"
| es_drop_pending: "engine_step env e (snd (drop_pending env src token name e))"
| es_begin_drain: "engine_step env e (engine_begin_drain e)"
| es_pause: "engine_step env e (snd (engine_pause name e))"
| es_resume: "engine_step env e (snd (engine_resume name e))"
| es_drain: "engine_step env e (snd (engine_drain name e))"
| es_purge: "engine_step env e (snd (engine_purge name e))"
| es_consumer: "consumer_mode c = consumer_mode (is_consumer (eg_slots e ! a)) \<Longrightarrow>
    consumer_owner c = consumer_owner (is_consumer (eg_slots e ! a)) \<Longrightarrow>
    engine_step env e (upd_instance a (on_consumer (\<lambda>_. c)) e)"

inductive engine_reach :: "('ac, 're) engine_env \<Rightarrow> ('ac, 're) engine \<Rightarrow> bool" for env :: "('ac, 're) engine_env" where
  er_new: "config_named cfg \<Longrightarrow> engine_new env now tok cfg = Inr e \<Longrightarrow> engine_reach env e"
| er_step: "engine_reach env e \<Longrightarrow> engine_step env e e' \<Longrightarrow> engine_reach env e'"

lemma slot_kind_evolves: "evolves s s' \<Longrightarrow> slot_kind s' = slot_kind s"
  by (simp add: evolves_def slot_kind_def)

text \<open>A step that touches neither the state nor a name, mode or owner.\<close>

lemma steady_inv:
  assumes wf: "engine_wf e" and con: "confined env e" and rel: "slots_rel steady e e'"
    and st: "eg_state e' = eg_state e" and ret: "set (eg_retired e') \<subseteq> set (eg_retired e)"
  shows "engine_wf e' \<and> confined env e'"
proof -
  let ?ts = "map tg_slot (gn_targets (eg_state e))"
  have lt: "a < length (eg_slots e)" if "a \<in> set ?ts \<union> set (eg_retired e)" for a
    using wf that by (auto simp: engine_wf_def addresses_ok_def)
  have sd: "steady (eg_slots e ! a) (eg_slots e' ! a)" if "a \<in> set ?ts \<union> set (eg_retired e)" for a
    using slots_rel_nth [OF rel lt [OF that]] .
  have "map (\<lambda>a. slot_kind (eg_slots e' ! a)) ?ts = map (\<lambda>a. slot_kind (eg_slots e ! a)) ?ts"
    using sd by (intro map_cong refl) (simp add: steady_def slot_kind_def)
  with wf have "engine_wf e'" unfolding engine_wf_def addresses_ok_def st
    using slots_rel_length [OF rel] ret by auto
  moreover have "confined env e'" unfolding confined_def st
  proof (intro conjI ballI)
    fix a assume a: "a \<in> set ?ts"
    with con have "allowed env (eg_state e) (eg_slots e ! a)" by (simp only: confined_def)
    then show "allowed env (eg_state e) (eg_slots e' ! a)" using a allowed_steady(1) [OF sd] by blast
  next
    fix a assume a: "a \<in> set (eg_retired e')"
    with con ret have "current_token env (eg_state e) (eg_slots e ! a)" by (auto simp: confined_def)
    then show "current_token env (eg_state e) (eg_slots e' ! a)" using a ret allowed_steady(2) [OF sd] by blast
  qed
  ultimately show ?thesis by blast
qed

section \<open>What a reload does\<close>

lemma old_addresses:
  "engine_wf e \<Longrightarrow> a \<in> set (map tg_slot (gn_targets (eg_state e))) \<union> set (eg_retired e) \<Longrightarrow> a < length (eg_slots e)"
  by (auto simp: engine_wf_def addresses_ok_def)

lemma plan_retiring_old:
  "plan_ok (Some st) retired slots fin pa \<Longrightarrow>
   set (pa_retiring pa) \<union> tg_slot ` set (gone_targets cfg (Some st) slots) \<subseteq> set (map tg_slot (gn_targets st))"
  by (auto simp: plan_ok_def gone_targets_def)

lemma plan_ok_lt: "plan_ok old retired slots fin pa \<Longrightarrow> a \<in> set (map tg_slot (pa_targets pa)) \<Longrightarrow> a < length (pa_slots pa)"
  unfolding plan_ok_def by blast

lemma apply_facts:
  assumes wf: "engine_wf e" and cfg: "config_named cfg" and ap: "engine_apply env now tok cfg e = (Inr rep, e')"
  obtains pa where "plan_ok (Some (eg_state e)) (eg_retired e) (eg_slots e) (cf_consumers cfg) pa"
    "gn_targets (eg_state e') = pa_targets pa"
    "set (eg_retired e') = (set (eg_retired e) - set (pa_revived pa)) \<union>
       (set (pa_retiring pa) \<union> tg_slot ` set (gone_targets cfg (Some (eg_state e)) (eg_slots e)))"
    "list_all2 evolves (pa_slots pa) (eg_slots e')" "plan_bots (Some (eg_state e)) cfg (eg_state e')"
    "gn_config (eg_state e') = cfg" "gn_number (eg_state e') = gn_number (eg_state e) + 1"
    "rr_generation rep = gn_number (eg_state e')" "confined env e'"
proof -
  from ap obtain st ch slots where pb: "plan_build env now tok cfg (Some (eg_state e)) (eg_retired e) (eg_slots e) = Inr (st, ch, slots)"
    and r: "rep = ch_report ch" and e': "e' = reload_commit env now (Some st) ch (e\<lparr>eg_slots := slots\<rparr>)"
    by (auto simp: engine_apply_def split: sum.splits)
  have ad: "addresses_ok (Some (eg_state e)) (eg_retired e) (eg_slots e)" and "sources_wf (eg_state e)"
    using wf by (simp_all add: engine_wf_def)
  then obtain pa where ok: "plan_ok (Some (eg_state e)) (eg_retired e) (eg_slots e) (cf_consumers cfg) pa"
    and p: "slots = pa_slots pa" "gn_targets st = pa_targets pa" "ch_revived ch = pa_revived pa"
      "ch_retiring ch = pa_retiring pa @ map tg_slot (gone_targets cfg (Some (eg_state e)) (eg_slots e))"
    and q: "plan_bots (Some (eg_state e)) cfg st" "gn_config st = cfg" "gn_number st = gn_number (eg_state e) + 1"
      "rr_generation (ch_report ch) = gn_number st"
    using plan_build_spec [OF pb _ _ cfg] by auto
  have st: "eg_state e' = st" by (simp add: e' commit_frame)
  have ret: "set (eg_retired e') = (set (eg_retired e) - set (pa_revived pa)) \<union>
      (set (pa_retiring pa) \<union> tg_slot ` set (gone_targets cfg (Some (eg_state e)) (eg_slots e)))"
    by (auto simp: e' commit_frame p)
  have len: "length (eg_slots e) \<le> length slots" using ok p(1) by (auto simp: plan_ok_def prefix_def)
  have "a < length slots" if "a \<in> set (map tg_slot (gn_targets st)) \<union> set (eg_retired e')" for a
  proof (cases "a \<in> set (map tg_slot (gn_targets st))")
    case True then show ?thesis using plan_ok_lt [OF ok] p(1,2) by simp
  next
    case False
    with that have "a \<in> set (map tg_slot (gn_targets (eg_state e))) \<union> set (eg_retired e)"
      using plan_retiring_old [OF ok, of cfg] unfolding ret by auto
    from old_addresses [OF wf this] len show ?thesis by simp
  qed
  then have "confined env e'"
    unfolding confined_def st using commit_confines [where e = "e\<lparr>eg_slots := slots\<rparr>" and st = st and env = env and now = now and ch = ch]
    unfolding e' [symmetric] by auto
  moreover have "list_all2 evolves (pa_slots pa) (eg_slots e')"
    using commit_evolves [of "e\<lparr>eg_slots := slots\<rparr>" env now "Some st" ch] unfolding slots_rel_def e' p(1) by simp
  ultimately show thesis using that [OF ok _ ret] p(2) q r st by simp
qed

lemma kinds_evolve:
  assumes ok: "plan_ok old retired slots cs pa" and ev: "list_all2 evolves (pa_slots pa) slots'"
  shows "map (\<lambda>a. slot_kind (slots' ! a)) (map tg_slot (pa_targets pa)) = map written_kind cs"
proof -
  have "slot_kind (slots' ! a) = slot_kind (pa_slots pa ! a)" if "a \<in> set (map tg_slot (pa_targets pa))" for a
    by (rule slot_kind_evolves, rule list_all2_nthD [OF ev plan_ok_lt [OF ok that]])
  then have "map (\<lambda>a. slot_kind (slots' ! a)) (map tg_slot (pa_targets pa)) = map (\<lambda>a. slot_kind (pa_slots pa ! a)) (map tg_slot (pa_targets pa))"
    by (intro map_cong refl)
  also have "\<dots> = map written_kind cs" using ok unfolding plan_ok_def by (elim conjE)
  finally show ?thesis .
qed

lemma apply_inv:
  assumes wf: "engine_wf e" and cfg: "config_named cfg" and ap: "engine_apply env now tok cfg e = (Inr rep, e')"
  shows "engine_wf e' \<and> confined env e'"
  using apply_facts [OF assms]
proof cases
  case (1 pa)
  have len: "length (eg_slots e') = length (pa_slots pa)" using 1(4) by (simp add: list_all2_lengthD)
  have le: "length (eg_slots e) \<le> length (pa_slots pa)" using 1(1) by (auto simp: plan_ok_def prefix_def)
  have "addresses_ok (Some (eg_state e')) (eg_retired e') (eg_slots e')"
  proof -
    have "a < length (pa_slots pa)" if "a \<in> set (eg_retired e')" for a
      using that 1(3) plan_retiring_old [OF 1(1), of cfg] old_addresses [OF wf, of a] le by auto
    moreover have "tg_slot t < length (pa_slots pa)" if "t \<in> set (pa_targets pa)" for t
      using plan_ok_lt [OF 1(1)] that by simp
    ultimately show ?thesis unfolding addresses_ok_def len 1(2) option.case by blast
  qed
  moreover have "map (\<lambda>a. slot_kind (eg_slots e' ! a)) (map tg_slot (gn_targets (eg_state e'))) = map written_kind (cf_consumers cfg)"
    unfolding 1(2) by (rule kinds_evolve [OF 1(1,4)])
  ultimately show ?thesis using 1(5,6,9) cfg by (auto simp: engine_wf_def plan_bots_def)
qed

section \<open>The other steps\<close>

lemma steady_upd:
  assumes "\<And>c. consumer_mode (f c) = consumer_mode c" and "\<And>c. consumer_owner (f c) = consumer_owner c"
  shows "slots_rel steady e (upd_instance a (on_consumer f) e)"
  by (rule sd.rel_upd) (simp add: steady_def slot_mode_def on_consumer_def assms)

lemma mode_more [simp]:
  "consumer_mode (consumer_pause c) = consumer_mode c" "consumer_mode (consumer_resume c) = consumer_mode c"
  by (cases c; simp)+

lemma on_current_steady:
  assumes "\<And>c. consumer_mode (f c) = consumer_mode c" and "\<And>c. consumer_owner (f c) = consumer_owner c"
  shows "slots_rel steady e (snd (on_current name f e)) \<and> eg_state (snd (on_current name f e)) = eg_state e \<and>
     eg_retired (snd (on_current name f e)) = eg_retired e"
  by (auto simp: on_current_def steady_upd assms intro: sd.rel_refl split: option.splits)

lemma purged_steady:
  "slots_rel steady e (snd (purged a r e)) \<and> eg_state (snd (purged a r e)) = eg_state e \<and>
   eg_retired (snd (purged a r e)) = eg_retired e"
proof -
  obtain n Q where r: "r = (n, Q)" by (cases r)
  let ?e = "e\<lparr>eg_dropped := eg_dropped e @ [(is_name (eg_slots e ! a), DropPurge, n)]\<rparr>"
  have "slots_rel steady e ?e" by (rule sd.rel_frame) simp
  moreover have "slots_rel steady ?e (snd (purged a r e))" unfolding r purged_def by (simp add: steady_upd)
  ultimately have "slots_rel steady e (snd (purged a r e))" by (rule sd.rel_trans)
  then show ?thesis by (simp add: purged_def r)
qed

lemma retire_steady:
  "slots_rel steady e (snd (engine_retire a token e)) \<and> eg_state (snd (engine_retire a token e)) = eg_state e \<and>
   set (eg_retired (snd (engine_retire a token e))) \<subseteq> set (eg_retired e)"
proof (cases "token \<in> eg_cancelled e \<or> a \<notin> set (eg_retired e)")
  case True
  then show ?thesis by (auto simp: engine_retire_def intro: sd.rel_refl)
next
  case False
  let ?n = "length (fst (drain_all (consumer_queue (is_consumer (eg_slots e ! a)))))"
  let ?c = "e\<lparr>eg_retired := remove1 a (eg_retired e),
       eg_dropped := eg_dropped e @ (if ?n > 0 then [(is_name (eg_slots e ! a), DropReload, ?n)] else [])\<rparr>"
  let ?d = "upd_instance a (\<lambda>s. on_consumer (\<lambda>c. with_queue (snd (drain_all (consumer_queue c))) c)
       (s\<lparr>is_drain := None, is_closed := True, is_stop := True, is_kill := True\<rparr>)) ?c"
  let ?r = "case current_target ?d (is_name (eg_slots e ! a)) of None \<Rightarrow> ?d | Some b \<Rightarrow> upd_instance b (on_consumer consumer_depth) ?d"
  have r: "snd (engine_retire a token e) = ?r" using False unfolding engine_retire_def Let_def by simp
  have "slots_rel steady e ?c" by (rule sd.rel_frame) simp
  moreover have "slots_rel steady ?c ?d" by (rule sd.rel_upd) (simp add: steady_def on_consumer_def slot_mode_def)
  moreover have "slots_rel steady ?d ?r" by (auto simp: steady_upd intro: sd.rel_refl split: option.splits)
  ultimately have "slots_rel steady e ?r" by (blast intro: sd.rel_trans)
  moreover have "eg_state ?r = eg_state e" "eg_retired ?r = remove1 a (eg_retired e)" by (auto split: option.splits)
  ultimately show ?thesis unfolding r using set_remove1_subset by metis
qed

text \<open>What a bot's name and the configuration determine.\<close>

lemma feeds_names:
  "feeds st i name =
     (case map_option se_name (find_source st i) of
        None \<Rightarrow> False
      | Some n \<Rightarrow>
          (case (find_consumer (gn_config st) name, find_bot (gn_config st) n) of
             (Some c, Some b) \<Rightarrow> bot_targets b (cc_id c) | _ \<Rightarrow> False))"
  by (simp add: feeds_def split: option.splits)

lemma fingerprint_names:
  "token_fingerprint env st i =
     (case map_option se_name (find_source st i) of
        None \<Rightarrow> None | Some n \<Rightarrow> map_option (\<lambda>b. ee_fingerprint env (bt_token b)) (find_bot (gn_config st) n))"
  by (simp add: token_fingerprint_def split: option.splits)

lemma same_names:
  assumes "map_option se_name (find_source st' i) = map_option se_name (find_source st i)" and "gn_config st' = gn_config st"
  shows "feeds st' i name = feeds st i name" "token_fingerprint env st' i = token_fingerprint env st i"
  unfolding feeds_names fingerprint_names assms by (rule refl)+

lemma allowed_same_names:
  assumes "\<And>i. map_option se_name (find_source st' i) = map_option se_name (find_source st i)" and "gn_config st' = gn_config st"
  shows "allowed env st' s = allowed env st s" "current_token env st' s = current_token env st s"
  unfolding allowed_def current_token_def may_keep_def assms(2) same_names [OF assms(1,2)] by (rule refl)+

lemma sources_wf_username:
  assumes wf: "sources_wf st" and at: "src < length (gn_sources st)" "gn_sources st ! src = Some info"
    and new: "gn_sources st' = (gn_sources st)[src := Some (info\<lparr>se_username := username\<rparr>)]"
      "gn_source_names st' = gn_source_names st" "gn_config st' = gn_config st"
  shows "sources_wf st'"
proof -
  have was: "\<exists>old. gn_sources st ! i = Some old \<and> se_id x = se_id old \<and> se_name x = se_name old"
    if "i < length (gn_sources st)" "gn_sources st' ! i = Some x" for i x
    using that at by (cases "i = src") (auto simp: new)
  show ?thesis unfolding sources_wf_def
  proof (intro conjI allI impI)
    show "length (gn_sources st') = length (gn_source_names st')" using wf by (simp add: sources_wf_def new)
  next
    fix i x assume i: "i < length (gn_sources st')" "gn_sources st' ! i = Some x"
    then obtain old where o: "gn_sources st ! i = Some old" "se_id x = se_id old" "se_name x = se_name old" "i < length (gn_sources st)"
      using was [of i x] new by auto
    with wf show "se_id x = i" "se_name x = gn_source_names st' ! i" "find_bot (gn_config st') (se_name x) \<noteq> None"
      unfolding sources_wf_def new(2,3) by metis+
  next
    fix x y assume "Some x \<in> set (gn_sources st')" "Some y \<in> set (gn_sources st')" and nm: "se_name x = se_name y"
    then obtain i j where i: "i < length (gn_sources st)" "gn_sources st' ! i = Some x"
      and j: "j < length (gn_sources st)" "gn_sources st' ! j = Some y" by (auto simp: in_set_conv_nth new(1))
    obtain x0 where x0: "gn_sources st ! i = Some x0" "se_name x = se_name x0" using was [OF i] by blast
    obtain y0 where y0: "gn_sources st ! j = Some y0" "se_name y = se_name y0" using was [OF j] by blast
    have "Some x0 \<in> set (gn_sources st)" "Some y0 \<in> set (gn_sources st)" using x0(1) y0(1) i(1) j(1) by (metis nth_mem)+
    moreover have "se_name x0 = se_name y0" using nm x0(2) y0(2) by simp
    ultimately have "x0 = y0" using wf unfolding sources_wf_def by blast
    moreover have "se_id x0 = i" "se_id y0 = j" using wf x0(1) y0(1) i(1) j(1) unfolding sources_wf_def by blast+
    ultimately show "x = y" using i j by simp
  qed
qed

lemma username_inv:
  assumes wf: "engine_wf e" and con: "confined env e"
  shows "engine_wf (set_username env tok src username e) \<and> confined env (set_username env tok src username e)"
proof (cases "set_username env tok src username e = e")
  case False
  let ?st = "eg_state e"
  from False obtain info table where i: "find_source ?st src = Some info"
    and e': "set_username env tok src username e = e\<lparr>eg_state := ?st\<lparr>gn_table := table,
        gn_sources := (gn_sources ?st)[src := Some (info\<lparr>se_username := username\<rparr>)]\<rparr>\<rparr>" (is "_ = e\<lparr>eg_state := ?new\<rparr>")
    by (auto simp: set_username_def Let_def split: option.splits if_splits sum.splits)
  have at: "src < length (gn_sources ?st)" "gn_sources ?st ! src = Some info" using i by (auto simp: find_source_def split: if_splits)
  have names: "map_option se_name (find_source ?new j) = map_option se_name (find_source ?st j)" for j
    using at by (auto simp: find_source_def nth_list_update)
  have "sources_wf ?new" by (rule sources_wf_username [OF _ at]) (use wf in \<open>simp_all add: engine_wf_def\<close>)
  with wf have "engine_wf (e\<lparr>eg_state := ?new\<rparr>)" by (simp add: engine_wf_def addresses_ok_def)
  moreover have "confined env (e\<lparr>eg_state := ?new\<rparr>)"
    using con unfolding confined_def by (simp add: allowed_same_names [OF names])
  ultimately show ?thesis unfolding e' by blast
qed (use assms in simp)

text \<open>Setting or clearing the runtime endpoint of one instance.\<close>

lemma put_runtime_inv:
  assumes wf: "engine_wf e" and con: "confined env e"
    and ok: "\<And>re. r = Some re \<Longrightarrow> may_keep env (eg_state e) (is_name (eg_slots e ! a)) (re_source re, re_token_fingerprint re)"
  shows "engine_wf (put_runtime env now a r e) \<and> confined env (put_runtime env now a r e)"
proof -
  let ?f = "on_consumer (\<lambda>c. case c of CPush p \<Rightarrow> CPush (set_runtime_endpoint (ee_push env) now r p) | _ \<Rightarrow> c)"
  have kind: "slot_kind (?f s) = slot_kind s" for s
    by (cases "is_consumer s") (simp_all add: slot_kind_def slot_mode_def on_consumer_def)
  have owner: "allowed env (eg_state e) (?f (eg_slots e ! a)) \<and> current_token env (eg_state e) (?f (eg_slots e ! a))"
    using ok by (cases "is_consumer (eg_slots e ! a)"; cases r)
      (simp_all add: allowed_def current_token_def on_consumer_def may_keep_def)
  have nth: "eg_slots (put_runtime env now a r e) ! b = (if b = a then ?f (eg_slots e ! b) else eg_slots e ! b)"
    if "b \<in> set (map tg_slot (gn_targets (eg_state e))) \<union> set (eg_retired e)" for b
    unfolding put_runtime_def by (rule upd_instance_nth [OF old_addresses [OF wf that]])
  have fr: "eg_state (put_runtime env now a r e) = eg_state e" "eg_retired (put_runtime env now a r e) = eg_retired e"
    "length (eg_slots (put_runtime env now a r e)) = length (eg_slots e)" by (simp_all add: put_runtime_def)
  have "map (\<lambda>b. slot_kind (eg_slots (put_runtime env now a r e) ! b)) (map tg_slot (gn_targets (eg_state e))) =
      map (\<lambda>b. slot_kind (eg_slots e ! b)) (map tg_slot (gn_targets (eg_state e)))"
    by (intro map_cong refl) (simp add: nth kind)
  with wf have "engine_wf (put_runtime env now a r e)" unfolding engine_wf_def addresses_ok_def fr by auto
  moreover have "confined env (put_runtime env now a r e)" unfolding confined_def fr
  proof (intro conjI ballI)
    fix b assume "b \<in> set (map tg_slot (gn_targets (eg_state e)))"
    with con owner nth [of b] show "allowed env (eg_state e) (eg_slots (put_runtime env now a r e) ! b)"
      unfolding confined_def by (cases "b = a") auto
  next
    fix b assume "b \<in> set (eg_retired e)"
    with con owner nth [of b] show "current_token env (eg_state e) (eg_slots (put_runtime env now a r e) ! b)"
      unfolding confined_def by (cases "b = a") auto
  qed
  ultimately show ?thesis by blast
qed

lemma current_target_name: "current_target e name = Some a \<Longrightarrow> is_name (eg_slots e ! a) = name \<and> a \<in> set (map tg_slot (gn_targets (eg_state e)))"
  unfolding current_target_def find_target_def using find_in by fastforce

lemma set_runtime_put:
  "snd (engine_set_runtime env now name src token ep e) = e \<or>
   (\<exists>a. current_target e name = Some a \<and>
      snd (engine_set_runtime env now name src token ep e) =
        put_runtime env now a (map_option (\<lambda>(url, secret). \<lparr>re_url = url, re_secret_token = secret, re_source = src,
            re_token_fingerprint = ee_fingerprint env token\<rparr>) ep) e \<and>
      may_keep env (eg_state e) name (src, ee_fingerprint env token))"
proof (cases "authenticated env (eg_state e) src token")
  case (Some fp)
  then have fp: "fp = ee_fingerprint env token" "token_fingerprint env (eg_state e) src = Some (ee_fingerprint env token)"
    by (auto simp: authenticated_def split: if_splits)
  show ?thesis
  proof (cases "current_target e name")
    case (Some a)
    then show ?thesis using \<open>authenticated env (eg_state e) src token = Some fp\<close> fp
      by (cases "is_consumer (eg_slots e ! a)"; cases ep) (auto simp: engine_set_runtime_def may_keep_def Let_def)
  qed (simp add: engine_set_runtime_def split: option.splits)
qed (simp add: engine_set_runtime_def)

lemma runtime_inv:
  assumes wf: "engine_wf e" and con: "confined env e"
  shows "engine_wf (snd (engine_set_runtime env now name src token ep e)) \<and> confined env (snd (engine_set_runtime env now name src token ep e))"
  using set_runtime_put [of env now name src token ep e]
proof
  assume "\<exists>a. current_target e name = Some a \<and>
      snd (engine_set_runtime env now name src token ep e) =
        put_runtime env now a (map_option (\<lambda>(url, secret). \<lparr>re_url = url, re_secret_token = secret, re_source = src,
            re_token_fingerprint = ee_fingerprint env token\<rparr>) ep) e \<and>
      may_keep env (eg_state e) name (src, ee_fingerprint env token)"
  then obtain a where a: "current_target e name = Some a" and m: "may_keep env (eg_state e) name (src, ee_fingerprint env token)"
    and e': "snd (engine_set_runtime env now name src token ep e) =
        put_runtime env now a (map_option (\<lambda>(url, secret). \<lparr>re_url = url, re_secret_token = secret, re_source = src,
            re_token_fingerprint = ee_fingerprint env token\<rparr>) ep) e" by blast
  show ?thesis unfolding e' by (rule put_runtime_inv [OF wf con]) (use m current_target_name [OF a] in auto)
qed (use assms in simp)

text \<open>The steps of a push consumer leave its runtime endpoint alone, but for \<open>set_runtime_endpoint\<close>.\<close>

lemma fold_drop_targets: "pu_targets (fold (drop_delivery now) ds c) = pu_targets c"
  by (induction ds arbitrary: c) (simp_all add: drop_delivery_def split: stage.splits)

lemma others_owner:
  "push_others pe c c' \<Longrightarrow> runtime_endpoint_owner c' = runtime_endpoint_owner c \<or> (\<exists>now r. c' = set_runtime_endpoint pe now r c)"
  by (erule push_others.cases)
    (auto simp: runtime_endpoint_owner_def set_endpoints_def set_options_def notify_changed_def push_begin_drain_def
      push_end_drain_def push_publish_gauges_def push_pause_def push_resume_def Let_def split_beta)

lemma round_targets: "dispatch_round cancelled now ds c = (dp, ds', c') \<Longrightarrow> pu_targets c' = pu_targets c"
  by (auto simp: dispatch_round_def held_new_frame Let_def split: if_splits prod.splits)

lemma push_step_owner:
  assumes "push_step pe k k'"
  shows "runtime_endpoint_owner (cf_consumer k') = runtime_endpoint_owner (cf_consumer k) \<or>
     (\<exists>now r. cf_consumer k' = set_runtime_endpoint pe now r (cf_consumer k))"
  using assms
proof (cases rule: push_step.cases)
  case (st_others c)
  with others_owner [OF st_others(2)] show ?thesis by simp
next
  case (st_round dp ds c)
  with round_targets [OF st_round(3)] show ?thesis by (simp add: runtime_endpoint_owner_def)
next
  case (st_segment n m stopping i r c)
  with segment_ends [OF st_segment(4)] show ?thesis by (simp add: runtime_endpoint_owner_def)
next
  case (st_force n m stopping)
  then show ?thesis by (simp add: runtime_endpoint_owner_def fold_drop_targets)
qed simp_all

section \<open>The invariant\<close>

lemma new_inv:
  assumes cfg: "config_named cfg" and new: "engine_new env now tok cfg = Inr e"
  shows "engine_wf e \<and> confined env e"
proof -
  from new obtain st ch slots where pb: "plan_build env now tok cfg None [] [] = Inr (st, ch, slots)"
    and e: "e = reload_commit env now None ch \<lparr>eg_state = st, eg_slots = slots, eg_retired = [], eg_draining = False,
        eg_cancelled = {}, eg_next_token = 0, eg_dropped = []\<rparr>" (is "_ = reload_commit _ _ _ _ ?e0")
    by (auto simp: engine_new_def split: sum.splits)
  have ad: "addresses_ok (None :: ('a, 'b) generation option) [] []" by (simp add: addresses_ok_def)
  have none: "case None :: ('a, 'b) generation option of None \<Rightarrow> True | Some st \<Rightarrow> sources_wf st" by simp
  from plan_build_spec [OF pb ad none cfg] show ?thesis
  proof cases
    case (1 pa)
    have emp: "pa_retiring pa = []" "pa_revived pa = []" using 1(1) by (auto simp: plan_ok_def)
    then have ret: "eg_retired e = []" using commit_frame(1) [of env now None ch ?e0] 1(4,5) unfolding e [symmetric]
      by (simp add: gone_targets_def)
    have st: "eg_state e = st" by (simp add: e commit_frame)
    have ev: "list_all2 evolves (pa_slots pa) (eg_slots e)"
      using commit_evolves [of ?e0 env now None ch] unfolding slots_rel_def e [symmetric] by (simp add: 1(2))
    have lt: "a < length (pa_slots pa)" if "a \<in> set (map tg_slot (gn_targets st))" for a
      using plan_ok_lt [OF 1(1)] that by (simp add: 1(3))
    have none: "consumer_owner (is_consumer (eg_slots e ! a)) = None" if "a \<in> set (map tg_slot (gn_targets st))" for a
    proof -
      have "consumer_owner (is_consumer (eg_slots e ! a)) = consumer_owner (is_consumer (pa_slots pa ! a))"
        using new_commit_owner [of a ?e0 env now ch] lt [OF that] unfolding e [symmetric] by (simp add: 1(2))
      also have "\<dots> = None" using 1(1) nth_mem [OF lt [OF that]] by (simp add: plan_ok_def)
      finally show ?thesis .
    qed
    then have "confined env e" unfolding confined_def st ret using allowed_no_owner by auto
    moreover have "engine_wf e"
      using kinds_evolve [OF 1(1) ev] lt 1(3,6,7) cfg list_all2_lengthD [OF ev]
      unfolding engine_wf_def addresses_ok_def st ret plan_bots_def by auto
    ultimately show ?thesis by blast
  qed
qed

lemma begin_drain_steady: "slots_rel steady e (engine_begin_drain e)"
proof -
  have "slots_rel steady e (e\<lparr>eg_draining := True\<rparr>)" by (rule sd.rel_frame) simp
  moreover have "slots_rel steady k (on_slots as consumer_begin_drain k)" for as and k :: "('a, 'b) engine"
    by (rule sd.rel_on_slots) (simp add: steady_def slot_mode_def on_consumer_def)
  ultimately show ?thesis unfolding engine_begin_drain_def by (rule sd.rel_trans)
qed

lemma drop_pending_steady:
  "slots_rel steady e (snd (drop_pending env src token name e)) \<and> eg_state (snd (drop_pending env src token name e)) = eg_state e \<and>
   eg_retired (snd (drop_pending env src token name e)) = eg_retired e"
  using purged_steady [of e] by (auto simp: drop_pending_def split_beta intro: sd.rel_refl split: option.splits)

lemma purge_steady:
  "slots_rel steady e (snd (engine_purge name e)) \<and> eg_state (snd (engine_purge name e)) = eg_state e \<and>
   eg_retired (snd (engine_purge name e)) = eg_retired e"
  using purged_steady [of e] by (auto simp: engine_purge_def split_beta intro: sd.rel_refl split: option.splits)

lemma apply_error: "engine_apply env now tok cfg e = (Inl err, e') \<Longrightarrow> e' = e"
  by (auto simp: engine_apply_def split: sum.splits)

lemma step_inv:
  assumes "engine_step env e e'" and wf: "engine_wf e" and con: "confined env e"
  shows "engine_wf e' \<and> confined env e'"
  using assms(1)
proof cases
  case (es_apply cfg now tok)
  show ?thesis
  proof (cases "fst (engine_apply env now tok cfg e)")
    case (Inl err)
    then have "engine_apply env now tok cfg e = (Inl err, e')" using es_apply(1) by (metis prod.collapse)
    from apply_error [OF this] wf con show ?thesis by simp
  next
    case (Inr rep)
    then have "engine_apply env now tok cfg e = (Inr rep, e')" using es_apply(1) by (metis prod.collapse)
    from apply_inv [OF wf es_apply(2) this] show ?thesis .
  qed
next
  case (es_retire a token)
  from steady_inv [OF wf con] retire_steady [of e a token] show ?thesis
    unfolding local.es_retire by simp
next
  case (es_username tok src username)
  with username_inv [OF wf con] show ?thesis by blast
next
  case (es_runtime now name src token ep)
  with runtime_inv [OF wf con] show ?thesis by blast
next
  case (es_drop_pending src token name)
  from steady_inv [OF wf con] drop_pending_steady [of e env src token name] show ?thesis
    unfolding local.es_drop_pending by simp
next
  case es_begin_drain
  with steady_inv [OF wf con begin_drain_steady] show ?thesis by (simp add: engine_begin_drain_def)
next
  case (es_pause name)
  with steady_inv [OF wf con] on_current_steady [of consumer_pause e name] show ?thesis by (simp add: engine_pause_def)
next
  case (es_resume name)
  with steady_inv [OF wf con]
    on_current_steady [of "\<lambda>c. if eg_draining e then consumer_resume c else consumer_end_drain (consumer_resume c)" e name]
  show ?thesis by (simp add: engine_resume_def)
next
  case (es_drain name)
  with steady_inv [OF wf con] on_current_steady [of consumer_begin_drain e name] show ?thesis by (simp add: engine_drain_def)
next
  case (es_purge name)
  from steady_inv [OF wf con] purge_steady [of e name] show ?thesis
    unfolding local.es_purge by simp
next
  case (es_consumer c a)
  then have "list_all2 steady (eg_slots e) (eg_slots e')"
    by (cases "a < length (eg_slots e)") (auto simp: upd_instance_def list_all2_conv_all_nth nth_list_update steady_def slot_mode_def on_consumer_def)
  with es_consumer steady_inv [OF wf con, of e'] show ?thesis by (simp add: slots_rel_def)
qed

lemma reach_inv: "engine_reach env e \<Longrightarrow> engine_wf e \<and> confined env e"
  by (induction rule: engine_reach.induct) (use new_inv step_inv in blast)+

section \<open>Lookups in a well-formed engine\<close>

lemma wf_names:
  assumes "engine_wf e"
  shows "map (\<lambda>a. is_name (eg_slots e ! a)) (map tg_slot (gn_targets (eg_state e))) = map cc_name (cf_consumers (gn_config (eg_state e)))"
proof -
  have "map fst (map (\<lambda>a. slot_kind (eg_slots e ! a)) (map tg_slot (gn_targets (eg_state e)))) =
      map fst (map written_kind (cf_consumers (gn_config (eg_state e))))"
    using assms unfolding engine_wf_def by (elim conjE) (rule arg_cong)
  then show ?thesis by (simp add: slot_kind_def written_kind_def comp_def)
qed

lemma current_target_iff:
  assumes wf: "engine_wf e"
  shows "current_target e name = Some a \<longleftrightarrow> a \<in> set (map tg_slot (gn_targets (eg_state e))) \<and> is_name (eg_slots e ! a) = name"
proof
  assume r: "a \<in> set (map tg_slot (gn_targets (eg_state e))) \<and> is_name (eg_slots e ! a) = name"
  then obtain b where b: "current_target e name = Some b"
    by (cases "current_target e name") (auto simp: current_target_def find_target_def find_None_iff)
  have "distinct (map (\<lambda>a. is_name (eg_slots e ! a)) (map tg_slot (gn_targets (eg_state e))))"
    using wf unfolding wf_names [OF wf] by (simp add: engine_wf_def config_named_def)
  then have "inj_on (\<lambda>a. is_name (eg_slots e ! a)) (set (map tg_slot (gn_targets (eg_state e))))"
    by (simp only: distinct_map)
  from inj_onD [OF this, of b a] current_target_name [OF b] r b show "current_target e name = Some a" by simp
qed (use current_target_name in blast)

lemma find_consumer_None: "find_consumer cfg name = None \<longleftrightarrow> name \<notin> set (map cc_name (cf_consumers cfg))"
  by (auto simp: find_consumer_def find_None_iff)

lemma current_target_None:
  assumes "engine_wf e"
  shows "current_target e name = None \<longleftrightarrow> find_consumer (gn_config (eg_state e)) name = None"
proof -
  have "current_target e name = None \<longleftrightarrow> name \<notin> set (map (\<lambda>a. is_name (eg_slots e ! a)) (map tg_slot (gn_targets (eg_state e))))"
    by (auto simp: current_target_def find_target_def find_None_iff)
  then show ?thesis unfolding wf_names [OF assms] find_consumer_None .
qed

text \<open>The current instance of a consumer is of the mode it is written with.\<close>

lemma current_target_mode:
  assumes wf: "engine_wf e" and c: "find_consumer (gn_config (eg_state e)) name = Some c" and a: "current_target e name = Some a"
  shows "slot_mode (eg_slots e ! a) = kind_mode (cc_kind c)"
proof -
  let ?cs = "cf_consumers (gn_config (eg_state e))"
  have k: "map (\<lambda>a. slot_kind (eg_slots e ! a)) (map tg_slot (gn_targets (eg_state e))) = map written_kind ?cs"
    and d: "distinct (map cc_name ?cs)" using wf by (simp_all add: engine_wf_def config_named_def)
  have "slot_kind (eg_slots e ! a) \<in> set (map written_kind ?cs)"
    unfolding k [symmetric] using current_target_name [OF a] by (metis image_eqI set_map)
  then obtain c' where c': "c' \<in> set ?cs" "slot_kind (eg_slots e ! a) = written_kind c'" by auto
  have "c \<in> set ?cs" "cc_name c = name" using c find_in unfolding find_consumer_def by fastforce+
  moreover have "cc_name c' = name" using c'(2) current_target_name [OF a] by (simp add: slot_kind_def written_kind_def)
  ultimately have "c' = c" using c'(1) d by (auto simp: distinct_map inj_on_def)
  with c'(2) show ?thesis by (simp add: slot_kind_def written_kind_def)
qed

lemma current_previous:
  assumes wf: "engine_wf e" and a: "current_target e name = Some a"
  obtains written where "previous_of (Some (eg_state e)) (eg_slots e) name = Some (a, written)"
proof -
  from a have "find_consumer (gn_config (eg_state e)) name \<noteq> None" using current_target_None [OF wf] by force
  then obtain w where "find_consumer (gn_config (eg_state e)) name = Some w" by auto
  moreover obtain t where "find_target (eg_state e) (eg_slots e) name = Some t" "tg_slot t = a"
    using a by (auto simp: current_target_def)
  ultimately show thesis using that [of w] by (simp add: previous_of_def)
qed

section \<open>What a reload keeps\<close>

definition instances :: "('ac, 're) engine \<Rightarrow> nat set" where
  "instances e = set (map tg_slot (gn_targets (eg_state e))) \<union> set (eg_retired e)"

lemma apply_evolves:
  assumes wf: "engine_wf e" and cfg: "config_named cfg" and ap: "engine_apply env now tok cfg e = (Inr rep, e')"
    and a: "a < length (eg_slots e)"
  shows "evolves (eg_slots e ! a) (eg_slots e' ! a)"
  using apply_facts [OF assms(1-3)]
proof cases
  case (1 pa)
  obtain xs where xs: "pa_slots pa = eg_slots e @ xs" using 1(1) by (auto simp: plan_ok_def prefix_def)
  with a list_all2_nthD [OF 1(4), of a] show ?thesis by (simp add: nth_append)
qed

lemma apply_current:
  assumes wf: "engine_wf e" and cfg: "config_named cfg" and ap: "engine_apply env now tok cfg e = (Inr rep, e')"
    and c: "find_consumer cfg name = Some c" and a: "current_target e name = Some a"
  shows "if slot_mode (eg_slots e ! a) = kind_mode (cc_kind c) then current_target e' name = Some a else a \<in> set (eg_retired e')"
  using apply_facts [OF assms(1-3)]
proof cases
  case (1 pa)
  have cn: "c \<in> set (cf_consumers cfg)" "cc_name c = name" using c find_in unfolding find_consumer_def by fastforce+
  obtain w where "previous_of (Some (eg_state e)) (eg_slots e) name = Some (a, w)" using current_previous [OF wf a] by blast
  with 1(1) cn have p: "if slot_mode (eg_slots e ! a) = kind_mode (cc_kind c) then a \<in> set (map tg_slot (pa_targets pa))
      else a \<in> set (pa_retiring pa)"
    unfolding plan_ok_def by blast
  have "a < length (eg_slots e)" by (rule old_addresses [OF wf]) (use current_target_name [OF a] in simp)
  from apply_evolves [OF wf cfg ap this] have nm: "is_name (eg_slots e' ! a) = name"
    using current_target_name [OF a] by (simp add: evolves_def)
  have wf': "engine_wf e'" using apply_inv [OF wf cfg ap] by blast
  show ?thesis
  proof (cases "slot_mode (eg_slots e ! a) = kind_mode (cc_kind c)")
    case True
    with p nm 1(2) current_target_iff [OF wf', of name a] show ?thesis by simp
  next
    case False
    with p 1(3) show ?thesis by simp
  qed
qed

lemma apply_instances:
  assumes wf: "engine_wf e" and cfg: "config_named cfg" and ap: "engine_apply env now tok cfg e = (Inr rep, e')"
  shows "instances e \<subseteq> instances e'"
  using apply_facts [OF assms]
proof cases
  case (1 pa)
  show ?thesis
  proof
    fix a assume "a \<in> instances e"
    then consider "a \<in> set (eg_retired e)" | "a \<in> set (map tg_slot (gn_targets (eg_state e)))" by (auto simp: instances_def)
    then show "a \<in> instances e'"
    proof cases
      case r: 1
      then show ?thesis using 1(1-3) by (cases "a \<in> set (pa_revived pa)") (auto simp: instances_def plan_ok_def)
    next
      case 2
      let ?n = "is_name (eg_slots e ! a)"
      have cur: "current_target e ?n = Some a" using 2 current_target_iff [OF wf] by simp
      show ?thesis
      proof (cases "find_consumer cfg ?n")
        case None
        with 2 have "a \<in> tg_slot ` set (gone_targets cfg (Some (eg_state e)) (eg_slots e))" by (auto simp: gone_targets_def)
        with 1(3) show ?thesis by (simp add: instances_def)
      next
        case (Some c)
        from apply_current [OF wf cfg ap Some cur] current_target_name [of e' ?n a] show ?thesis
          by (auto simp: instances_def split: if_splits)
      qed
    qed
  qed
qed

lemma apply_ids:
  assumes wf: "engine_wf e" and cfg: "config_named cfg" and ap: "engine_apply env now tok cfg e = (Inr rep, e')"
  shows "case source_id_of e' name of
      None \<Rightarrow> find_bot cfg name = None
    | Some i \<Rightarrow> find_bot cfg name \<noteq> None \<and>
        (case source_id_of e name of Some j \<Rightarrow> i = j | None \<Rightarrow> length (gn_source_names (eg_state e)) \<le> i)"
  using apply_facts [OF assms]
proof cases
  case (1 pa)
  have pb: "source_named (eg_state e') name \<noteq> None \<longleftrightarrow> find_bot cfg name \<noteq> None"
    and rule: "\<And>info. source_named (eg_state e') name = Some info \<Longrightarrow>
      id_rule (Some (eg_state e)) (length (gn_source_names (eg_state e))) info"
    and swf: "sources_wf (eg_state e')"
    using 1(5) unfolding plan_bots_def option.case by blast+
  show ?thesis
  proof (cases "source_named (eg_state e') name")
    case None
    with pb show ?thesis by (simp add: source_id_of_def)
  next
    case (Some info)
    with rule pb source_named_id(3) [OF swf Some] show ?thesis
      by (auto simp: source_id_of_def id_rule_def split: option.splits)
  qed
qed

section \<open>The end of a drain\<close>

text \<open>
  A drain looks again within \<open>DRAIN_CHECK\<close> and never sleeps past its deadline: it is over, and its
  instance retired, no later than the first round at the deadline.
\<close>

lemma drain_round_bounds:
  assumes "drain_round (Some d) now pending = DrainSleep til"
  shows "now < til \<and> til \<le> d \<and> til \<le> now + DRAIN_CHECK \<and> 0 < pending"
  using assms by (auto simp: drain_round_def DRAIN_CHECK_def NANOS_PER_SEC_def split: if_splits)

lemma drain_round_over: "d \<le> now \<Longrightarrow> drain_round (Some d) now pending = DrainOver"
  by (simp add: drain_round_def)

lemma drain_deadline_late: "drain_deadline now timeout = Some d \<Longrightarrow> now + DRAIN_CHECK \<le> d \<and> now + timeout \<le> d"
  by (auto simp: drain_deadline_def dest!: inst_checked_add_SomeD)

end
