(* ===== verification/Reload_Main.thy ===== *)
theory Reload_Main
  imports Reload_Props Rules_Props
begin

text \<open>
  The properties of the engine and its reloads, with a concrete life: an engine of two
  consumers whose bot captures one of them with \<open>setWebhook\<close>, and a reload that rotates its token.
\<close>

section \<open>A concrete engine\<close>

definition demo_engine_env :: "(bool \<times> string list, string list) engine_env" where
  "demo_engine_env = \<lparr>ee_push = demo_push_env, ee_rules = demo_engines, ee_fingerprint = length, ee_via = ''tgin'', ee_reply = 0\<rparr>"

definition demo_upstream :: upstream where
  "demo_upstream = \<lparr>us_name = ''cloud'', us_kind = UpCloud, us_url = ''https://api.telegram.org'', us_local_mode = False\<rparr>"

definition demo_bot :: "string \<Rightarrow> string \<Rightarrow> bot" where
  "demo_bot name token = \<lparr>bt_name = name, bt_token = token, bt_upstream = demo_upstream, bt_ingress = None,
     bt_rules = [\<lparr>r_predicates = demo_predicates, r_targets = [TAll [TConsumer 0, TConsumer 1]]\<rparr>]\<rparr>"

definition demo_hooks :: push_config where
  "demo_hooks = \<lparr>pp_endpoints = [\<lparr>ec_url = ''http://bot/hook'', ec_secret_token = None, ec_timeout = 5\<rparr>], pp_balance = BRoundRobin,
     pp_max_in_flight = 4, pp_ordering = PerKey, pp_capacity = 10, pp_capacity_bytes = 100, pp_on_full = qc_on_full demo_cfg,
     pp_retry = po_retry demo_push_opts, pp_breaker = breaker_config_default, pp_accept_set_webhook = True,
     pp_webhook_reply = ReplyIgnore, pp_honor_drop_pending = False\<rparr>"

definition demo_inbox :: pull_config where
  "demo_inbox = \<lparr>pl_queue = demo_cfg, pl_auth_token = None, pl_aliases = [], pl_honor_drop_pending = True\<rparr>"

definition demo_config :: "bot list \<Rightarrow> consumer_kind \<Rightarrow> config" where
  "demo_config bots second = \<lparr>cf_worker_threads = None, cf_log_format = ''json'', cf_server = None, cf_admin_listen = [],
     cf_drain_timeout = 5, cf_bots = bots,
     cf_consumers = [\<lparr>cc_id = 0, cc_name = ''hooks'', cc_kind = KPush demo_hooks\<rparr>, \<lparr>cc_id = 1, cc_name = ''inbox'', cc_kind = second\<rparr>]\<rparr>"

definition demo_started :: "(bool \<times> string list, string list) engine" where
  "demo_started = projr (engine_new demo_engine_env 0 7 (demo_config [demo_bot ''mybot'' ''old''] (KPull demo_inbox)))"

definition demo_captured :: "(bool \<times> string list, string list) engine" where
  "demo_captured = snd (engine_set_runtime demo_engine_env 1 ''hooks'' 0 ''old'' (Some (''http://capture/'', None)) demo_started)"

definition demo_rotated :: config where
  "demo_rotated = demo_config [demo_bot ''second'' ''tok'', demo_bot ''mybot'' ''rotated''] (KPush demo_hooks)"

definition demo_reloaded :: "(build_error + reload_report) \<times> (bool \<times> string list, string list) engine" where
  "demo_reloaded = engine_apply demo_engine_env 2 8 demo_rotated demo_captured"

lemma demo_new_ok: "\<not> isl (engine_new demo_engine_env 0 7 (demo_config [demo_bot ''mybot'' ''old''] (KPull demo_inbox)))"
  by code_simp

lemma demo_capture_state:
  "map (\<lambda>t. (tg_slot t, is_name (eg_slots demo_captured ! tg_slot t), slot_mode (eg_slots demo_captured ! tg_slot t),
       consumer_owner (is_consumer (eg_slots demo_captured ! tg_slot t))))
     (gn_targets (eg_state demo_captured)) = [(0, ''hooks'', MPush, Some (0, 3)), (1, ''inbox'', MPull, None)] \<and>
   gn_number (eg_state demo_captured) = 1 \<and> gn_source_names (eg_state demo_captured) = [''mybot''] \<and>
   gn_sources (eg_state demo_captured) = [Some \<lparr>se_id = 0, se_name = ''mybot'', se_username = None\<rparr>]"
  by code_simp

lemma demo_captured_reach: "engine_reach demo_engine_env demo_captured"
proof -
  have "config_named (demo_config [demo_bot ''mybot'' ''old''] (KPull demo_inbox))" by code_simp
  moreover have "engine_new demo_engine_env 0 7 (demo_config [demo_bot ''mybot'' ''old''] (KPull demo_inbox)) = Inr demo_started"
    using demo_new_ok by (simp add: demo_started_def sum.collapse)
  ultimately have "engine_reach demo_engine_env demo_started" by (rule er_new)
  then show ?thesis unfolding demo_captured_def by (rule er_step) (rule es_runtime)
qed

definition demo_entries :: "(source_entry \<times> bot) list" where
  "demo_entries = [(\<lparr>se_id = 1, se_name = ''second'', se_username = None\<rparr>, demo_bot ''second'' ''tok''),
     (\<lparr>se_id = 0, se_name = ''mybot'', se_username = None\<rparr>, demo_bot ''mybot'' ''rotated'')]"

lemma demo_assigned:
  "assign_ids (Some (eg_state demo_captured)) (cf_bots demo_rotated) (gn_source_names (eg_state demo_captured)) [] =
     Inr (demo_entries, [''mybot'', ''second''], [''second''])"
  using demo_capture_state
  by (simp add: demo_rotated_def demo_config_def demo_bot_def demo_entries_def source_named_def List.map_filter_simps known_username_def
    split: option.splits)

lemma demo_reload_ok: "\<not> isl (fst demo_reloaded)"
proof -
  have "\<not> isl (compile (ee_rules demo_engine_env) 8 (map (\<lambda>(info, b). (se_id info, bt_rules b)) demo_entries)
      (map (\<lambda>(info, b). (se_id info, se_username info)) demo_entries))" by code_simp
  then show ?thesis using demo_assigned
    by (auto simp: demo_reloaded_def engine_apply_def plan_build_def Let_def split: sum.splits)
qed

text \<open>
  C9. What a reload keeps, from any state the engine can reach. A configuration whose rules do not
  compile, or that finds no source id left, changes nothing at all. Otherwise the generation goes
  up by one; no source id is ever given to another bot: a bot that stays keeps its id and a new one
  gets an id never used before; every current or draining instance is still current or draining;
  no instance changes its name or mode or loses an update it holds; a consumer whose mode
  stays keeps its current instance, one whose mode changes leaves it draining, and every
  consumer of the new configuration has a current instance of its mode.
\<close>

theorem reload_keeps:
  assumes "engine_reach env e" and "config_named cfg" and "engine_apply env now tok cfg e = (r, e')"
  shows "case r of
      Inl err \<Rightarrow> e' = e
    | Inr rep \<Rightarrow>
        gn_number (eg_state e') = gn_number (eg_state e) + 1 \<and> rr_generation rep = gn_number (eg_state e') \<and>
        prefix (gn_source_names (eg_state e)) (gn_source_names (eg_state e')) \<and>
        (\<forall>name. case source_id_of e' name of
            None \<Rightarrow> find_bot cfg name = None
          | Some i \<Rightarrow> find_bot cfg name \<noteq> None \<and>
              (case source_id_of e name of Some j \<Rightarrow> i = j | None \<Rightarrow> length (gn_source_names (eg_state e)) \<le> i)) \<and>
        instances e \<subseteq> instances e' \<and>
        (\<forall>a < length (eg_slots e). evolves (eg_slots e ! a) (eg_slots e' ! a)) \<and>
        (\<forall>name. case find_consumer cfg name of
            None \<Rightarrow> current_target e' name = None
          | Some c \<Rightarrow>
              (\<exists>b. current_target e' name = Some b \<and> slot_mode (eg_slots e' ! b) = kind_mode (cc_kind c)) \<and>
              (case current_target e name of
                 None \<Rightarrow> True
               | Some a \<Rightarrow> if slot_mode (eg_slots e ! a) = kind_mode (cc_kind c) then current_target e' name = Some a
                           else a \<in> set (eg_retired e')))"
proof (cases r)
  case (Inl err)
  with apply_error assms(3) show ?thesis by simp
next
  case (Inr rep)
  have wf: "engine_wf e" using reach_inv [OF assms(1)] by blast
  have ap: "engine_apply env now tok cfg e = (Inr rep, e')" using assms(3) Inr by simp
  note h = wf assms(2) ap
  have wf': "engine_wf e'" using apply_inv [OF h] by blast
  from apply_facts [OF h] have f: "prefix (gn_source_names (eg_state e)) (gn_source_names (eg_state e'))"
    "gn_config (eg_state e') = cfg" "gn_number (eg_state e') = gn_number (eg_state e) + 1" "rr_generation rep = gn_number (eg_state e')"
    by (metis plan_bots_def option.case(2))+
  have cur: "case find_consumer cfg name of
      None \<Rightarrow> current_target e' name = None
    | Some c \<Rightarrow>
        (\<exists>b. current_target e' name = Some b \<and> slot_mode (eg_slots e' ! b) = kind_mode (cc_kind c)) \<and>
        (case current_target e name of
           None \<Rightarrow> True
         | Some a \<Rightarrow> if slot_mode (eg_slots e ! a) = kind_mode (cc_kind c) then current_target e' name = Some a
                     else a \<in> set (eg_retired e'))" for name
    using current_target_None [OF wf', of name] current_target_mode [OF wf', of name] apply_current [OF h, of name] f(2)
    by (auto split: option.splits)
  show ?thesis unfolding Inr sum.case
    using f(1,3,4) apply_ids [OF h] apply_instances [OF h] apply_evolves [OF h] cur by blast
qed

theorem reload_keeps_witness:
  "config_named demo_rotated \<and> isl (fst demo_reloaded) = False \<and> gn_number (eg_state (snd demo_reloaded)) = 2 \<and>
   source_id_of (snd demo_reloaded) ''mybot'' = Some 0 \<and> (\<exists>i \<ge> 1. source_id_of (snd demo_reloaded) ''second'' = Some i) \<and>
   current_target (snd demo_reloaded) ''hooks'' = Some 0 \<and> 1 \<in> set (eg_retired (snd demo_reloaded))"
proof -
  have cfg: "config_named demo_rotated" by code_simp
  obtain rep where rep: "fst demo_reloaded = Inr rep" using demo_reload_ok by (cases "fst demo_reloaded") auto
  then have ap: "engine_apply demo_engine_env 2 8 demo_rotated demo_captured = (Inr rep, snd demo_reloaded)"
    by (simp add: demo_reloaded_def prod_eq_iff)
  note k = reload_keeps [OF demo_captured_reach cfg ap, unfolded sum.case]
  have b: "find_bot demo_rotated ''mybot'' \<noteq> None" "find_bot demo_rotated ''second'' \<noteq> None" by code_simp+
  have old: "source_id_of demo_captured ''mybot'' = Some 0" "source_id_of demo_captured ''second'' = None"
    using demo_capture_state by (simp_all add: source_id_of_def source_named_def List.map_filter_simps)
  have tg: "current_target demo_captured ''hooks'' = Some 0" "current_target demo_captured ''inbox'' = Some 1"
    using demo_capture_state by (auto simp: current_target_def find_target_def map_eq_Cons_conv)
  have c: "map_option (\<lambda>c. kind_mode (cc_kind c)) (find_consumer demo_rotated ''hooks'') = Some MPush"
    "map_option (\<lambda>c. kind_mode (cc_kind c)) (find_consumer demo_rotated ''inbox'') = Some MPush" by code_simp+
  have m: "slot_mode (eg_slots demo_captured ! 0) = MPush" "slot_mode (eg_slots demo_captured ! 1) = MPull"
    using demo_capture_state by (auto simp: map_eq_Cons_conv)
  note ids = k [THEN conjunct2, THEN conjunct2, THEN conjunct2, THEN conjunct1, THEN spec]
  note targets = k [THEN conjunct2, THEN conjunct2, THEN conjunct2, THEN conjunct2, THEN conjunct2, THEN conjunct2, THEN spec]
  have "source_id_of (snd demo_reloaded) ''mybot'' = Some 0" "\<exists>i \<ge> 1. source_id_of (snd demo_reloaded) ''second'' = Some i"
    using ids [of "''mybot''"] ids [of "''second''"] b old demo_capture_state by (auto split: option.splits)
  moreover have "current_target (snd demo_reloaded) ''hooks'' = Some 0" "1 \<in> set (eg_retired (snd demo_reloaded))"
    using targets [of "''hooks''"] targets [of "''inbox''"] c tg m by (auto split: option.splits)
  ultimately show ?thesis using k cfg rep demo_capture_state by simp
qed

lemma current_token_alt:
  "current_token env st s =
     (case consumer_owner (is_consumer s) of None \<Rightarrow> True | Some (src, fp) \<Rightarrow> token_fingerprint env st src \<in> {None, Some fp})"
  by (auto simp: current_token_def split: option.splits)

text \<open>
  C31. A token holder never redirects another bot's updates, in no reachable state of the engine,
  across every sequence of reloads and control operations: where a current consumer has a runtime
  endpoint, the configuration lets it accept one, a rule of the bot whose \<open>setWebhook\<close> set it still
  targets the consumer, and the token it was set with is still the bot's; a draining instance keeps
  its runtime endpoint only while its bot's token is the one it was set with, or the bot is gone.
\<close>

theorem capture_confined:
  assumes "engine_reach env e"
  shows "list_all (\<lambda>t. case consumer_owner (is_consumer (eg_slots e ! tg_slot t)) of
             None \<Rightarrow> True
           | Some (src, fp) \<Rightarrow>
               accepts_webhook (gn_config (eg_state e)) (is_name (eg_slots e ! tg_slot t)) \<and>
               feeds (eg_state e) src (is_name (eg_slots e ! tg_slot t)) \<and> token_fingerprint env (eg_state e) src = Some fp)
           (gn_targets (eg_state e)) \<and>
         list_all (\<lambda>a. case consumer_owner (is_consumer (eg_slots e ! a)) of
             None \<Rightarrow> True
           | Some (src, fp) \<Rightarrow> token_fingerprint env (eg_state e) src \<in> {None, Some fp})
           (eg_retired e)"
proof -
  have "confined env e" using reach_inv [OF assms] by blast
  then show ?thesis
    by (auto simp: confined_def allowed_def current_token_alt may_keep_def list_all_iff split: option.splits)
qed

theorem capture_confined_witness:
  "consumer_owner (is_consumer (eg_slots demo_captured ! 0)) = Some (0, 3) \<and>
   feeds (eg_state demo_captured) 0 ''hooks'' \<and> token_fingerprint demo_engine_env (eg_state demo_captured) 0 = Some 3"
  using capture_confined [OF demo_captured_reach] demo_capture_state by (auto simp: map_eq_Cons_conv)

end
