(* ===== verification/Bot_Client.thy ===== *)
theory Bot_Client
  imports Bytes
begin

text \<open>
  The Bot API client, \<open>crates/tgin-botapi/src/client.rs\<close>: how an answer becomes a result or an
  error, and how the bot token is masked in the text of errors. Outside it are the HTTP client
  (what a request got: \<open>transport\<close>), the JSON decoder (\<open>dec\<close>: the envelope of a body, or where decoding
  failed) and the reason phrases of statuses. Text is \<open>string\<close>s of bytes.
\<close>

section \<open>Errors\<close>

datatype api_error =
    ApiNetwork string
  | ApiHttp nat string "duration option"
  | ApiDecode string
  | ApiConfig string

definition api_retry_after :: "api_error \<Rightarrow> duration option" where
  "api_retry_after e = (case e of ApiHttp _ _ ra \<Rightarrow> ra | _ \<Rightarrow> None)"

datatype json_category = JIo | JSyntax | JData | JEof

record json_error =
  je_category :: json_category
  je_line :: nat
  je_column :: nat

fun show_nat :: "nat \<Rightarrow> string" where
  "show_nat n = (if n < 10 then [char_of (48 + n)] else show_nat (n div 10) @ [char_of (48 + n mod 10)])"

declare show_nat.simps [simp del]

definition decode_error :: "json_error \<Rightarrow> api_error" where
  "decode_error e = ApiDecode
     ((case je_category e of
         JIo \<Rightarrow> ''I/O error'' | JSyntax \<Rightarrow> ''invalid JSON'' | JData \<Rightarrow> ''unexpected JSON shape'' | JEof \<Rightarrow> ''truncated JSON'')
      @ '' at line '' @ show_nat (je_line e) @ '' column '' @ show_nat (je_column e))"

definition encode_error :: api_error where
  "encode_error = ApiDecode ''the request body could not be encoded''"

section \<open>Answers\<close>

record 'r api_envelope =
  av_ok :: bool
  av_result :: "'r option"
  av_description :: "string option"
  av_error_code :: "int option"
  av_retry_after :: "nat option"

definition into_error :: "nat \<Rightarrow> duration option \<Rightarrow> 'r api_envelope \<Rightarrow> api_error" where
  "into_error status retry_after v =
     ApiHttp (case av_error_code v of None \<Rightarrow> status | Some c \<Rightarrow> if 0 \<le> c \<and> c \<le> 65535 then nat c else status)
       (case av_description v of None \<Rightarrow> [] | Some d \<Rightarrow> d)
       (case av_retry_after v of None \<Rightarrow> retry_after | Some s \<Rightarrow> Some (s * NANOS_PER_SEC))"

definition parse_result :: "(bytes \<Rightarrow> json_error + 'r api_envelope) \<Rightarrow> bytes \<Rightarrow> api_error + 'r" where
  "parse_result dec body =
     (case dec body of
        Inl e \<Rightarrow> Inl (decode_error e)
      | Inr v \<Rightarrow>
          if \<not> av_ok v then Inl (into_error 200 None v)
          else (case av_result v of None \<Rightarrow> Inl (ApiDecode ''the response has no result'') | Some r \<Rightarrow> Inr r))"

definition parse_description :: "(bytes \<Rightarrow> json_error + 'r api_envelope) \<Rightarrow> bytes \<Rightarrow> api_error + string option" where
  "parse_description dec body =
     (case dec body of
        Inl e \<Rightarrow> Inl (decode_error e)
      | Inr v \<Rightarrow> if \<not> av_ok v then Inl (into_error 200 None v) else Inr (av_description v))"

definition api_failure ::
  "(nat \<Rightarrow> string option) \<Rightarrow> (bytes \<Rightarrow> json_error + 'r api_envelope) \<Rightarrow> nat \<Rightarrow> duration option \<Rightarrow> bytes \<Rightarrow> api_error" where
  "api_failure reason dec status retry_after body =
     (let plain = ApiHttp status (case reason status of None \<Rightarrow> ''unexpected HTTP status'' | Some r \<Rightarrow> r) retry_after
      in case dec body of
           Inr v \<Rightarrow> if \<not> av_ok v then into_error status retry_after v else plain
         | Inl _ \<Rightarrow> plain)"

section \<open>Masking the token\<close>

definition valid_bot_token :: "string \<Rightarrow> bool" where
  "valid_bot_token token \<longleftrightarrow> token \<noteq> [] \<and>
     list_all (\<lambda>b. is_ascii_alphanumeric b \<or> b \<in> {CHR '':'', CHR ''_'', CHR ''-''}) token"

text \<open>\<open>str::replace\<close>: occurrences from the left that do not overlap; an empty pattern is at every place.\<close>

function replace_from :: "string \<Rightarrow> string \<Rightarrow> string \<Rightarrow> string" where
  "replace_from p r s =
     (if p = [] \<or> s = [] then s
      else if prefix p s then r @ replace_from p r (drop (length p) s)
      else hd s # replace_from p r (tl s))"
  by pat_completeness auto
termination by (relation "measure (\<lambda>(p, r, s). length s)") auto

declare replace_from.simps [simp del]

definition str_replace :: "string \<Rightarrow> string \<Rightarrow> string \<Rightarrow> string" where
  "str_replace p r s = (if p = [] then r @ concat (map (\<lambda>c. c # r) s) else replace_from p r s)"

definition MASK :: string where
  "MASK = ''[redacted]''"

definition clean :: "string \<Rightarrow> string \<Rightarrow> string" where
  "clean token s = (if sublist token s then str_replace token MASK s else s)"

definition scrub :: "string \<Rightarrow> api_error \<Rightarrow> api_error" where
  "scrub token e =
     (case e of
        ApiNetwork s \<Rightarrow> ApiNetwork (clean token s)
      | ApiHttp status d ra \<Rightarrow> ApiHttp status (clean token d) ra
      | ApiDecode s \<Rightarrow> ApiDecode (clean token s)
      | ApiConfig s \<Rightarrow> ApiConfig s)"

definition scrubbed :: "string \<Rightarrow> api_error + 'r \<Rightarrow> api_error + 'r" where
  "scrubbed token r = (case r of Inl e \<Rightarrow> Inl (scrub token e) | Inr x \<Rightarrow> Inr x)"

section \<open>Calls\<close>

text \<open>
  What a request came to: no whole answer, with the description of the error and whether the
  request could not even be built, or a status with its \<open>Retry-After\<close> and body.
\<close>

datatype transport = Lost string bool | Answered nat "duration option" bytes

text \<open>What an observer of the upstream hears: whether it answered.\<close>

definition call_observed :: "transport \<Rightarrow> bool option" where
  "call_observed t = (case t of Lost _ builder \<Rightarrow> if builder then None else Some False | Answered _ _ _ \<Rightarrow> Some True)"

definition send ::
  "(nat \<Rightarrow> string option) \<Rightarrow> (bytes \<Rightarrow> json_error + 'r api_envelope) \<Rightarrow> string \<Rightarrow> transport \<Rightarrow> api_error + bytes" where
  "send reason dec token t =
     (case t of
        Lost what _ \<Rightarrow> Inl (scrub token (ApiNetwork what))
      | Answered status retry_after body \<Rightarrow>
          if 200 \<le> status \<and> status < 300 then Inr body
          else Inl (scrub token (api_failure reason dec status retry_after body)))"

definition OK_TRUE :: bytes where
  "OK_TRUE = CHR ''{'' # CHR 0x22 # ''ok'' @ CHR 0x22 # '':true''"

text \<open>\<open>getUpdates\<close>, still undecoded.\<close>

definition get_updates ::
  "(nat \<Rightarrow> string option) \<Rightarrow> (bytes \<Rightarrow> json_error + 'r api_envelope) \<Rightarrow> string \<Rightarrow> transport \<Rightarrow> api_error + bytes" where
  "get_updates reason dec token t =
     (case send reason dec token t of
        Inl e \<Rightarrow> Inl e
      | Inr body \<Rightarrow>
          if prefix OK_TRUE body then Inr body
          else (case dec body of
                  Inr v \<Rightarrow> if \<not> av_ok v then Inl (scrub token (into_error 200 None v)) else Inr body
                | Inl _ \<Rightarrow> Inr body))"

text \<open>The calls whose result is decoded: \<open>getMe\<close>, \<open>setWebhook\<close>, \<open>deleteWebhook\<close>, \<open>getWebhookInfo\<close>.\<close>

definition call_result ::
  "(nat \<Rightarrow> string option) \<Rightarrow> (bytes \<Rightarrow> json_error + 'r api_envelope) \<Rightarrow> string \<Rightarrow> transport \<Rightarrow> api_error + 'r" where
  "call_result reason dec token t =
     (case send reason dec token t of Inl e \<Rightarrow> Inl e | Inr body \<Rightarrow> scrubbed token (parse_result dec body))"

text \<open>\<open>logOut\<close> and \<open>close\<close>.\<close>

definition described ::
  "(nat \<Rightarrow> string option) \<Rightarrow> (bytes \<Rightarrow> json_error + 'r api_envelope) \<Rightarrow> string \<Rightarrow> transport \<Rightarrow> api_error + string option" where
  "described reason dec token t =
     (case send reason dec token t of
        Inl e \<Rightarrow> Inl e
      | Inr body \<Rightarrow>
          (case scrubbed token (parse_description dec body) of
             Inl e \<Rightarrow> Inl e
           | Inr d \<Rightarrow> Inr (map_option (clean token) d)))"

section \<open>Splitting \<open>getUpdates\<close>\<close>

text \<open>\<open>str::parse::<i64>\<close>: an optional sign, then digits, within the width.\<close>

definition I64_MAX :: int where "I64_MAX = 2 ^ 63 - 1"

definition digits_value :: "string \<Rightarrow> nat" where
  "digits_value ds = fold (\<lambda>c n. n * 10 + (of_char c - 48)) ds 0"

definition parse_i64 :: "string \<Rightarrow> int option" where
  "parse_i64 s =
     (let (neg, ds) = (case s of c # cs \<Rightarrow> if c = CHR ''-'' then (True, cs) else if c = CHR ''+'' then (False, cs) else (False, s)
                       | [] \<Rightarrow> (False, []));
          n = (if neg then - int (digits_value ds) else int (digits_value ds))
      in if ds \<noteq> [] \<and> list_all is_ascii_digit ds \<and> - I64_MAX - 1 \<le> n \<and> n \<le> I64_MAX then Some n else None)"

definition UPDATE_ID :: bytes where
  "UPDATE_ID = CHR ''{'' # CHR 0x22 # ''update_id'' @ CHR 0x22 # '':''"

text \<open>An update's id, read off its start or else decoded (\<open>dec\<close>).\<close>

definition update_id :: "(bytes \<Rightarrow> json_error + int) \<Rightarrow> bytes \<Rightarrow> api_error + int" where
  "update_id dec raw =
     (let leading = Option.bind (strip_prefix UPDATE_ID raw) (\<lambda>rest.
            Option.bind (index_where (\<lambda>c. c = CHR '','' \<or> c = CHR ''}'') rest) (\<lambda>i. parse_i64 (take i rest)))
      in case leading of
           Some n \<Rightarrow> Inr n
         | None \<Rightarrow> (case dec raw of Inl e \<Rightarrow> Inl (decode_error e) | Inr n \<Rightarrow> Inr n))"

fun ids_of :: "(bytes \<Rightarrow> json_error + int) \<Rightarrow> bytes list \<Rightarrow> api_error + (int \<times> bytes) list" where
  "ids_of dec [] = Inr []"
| "ids_of dec (raw # raws) =
     (case update_id dec raw of
        Inl e \<Rightarrow> Inl e
      | Inr n \<Rightarrow> (case ids_of dec raws of Inl e \<Rightarrow> Inl e | Inr us \<Rightarrow> Inr ((n, raw) # us)))"

definition split_updates ::
  "(bytes \<Rightarrow> json_error + bytes list api_envelope) \<Rightarrow> (bytes \<Rightarrow> json_error + int) \<Rightarrow> bytes \<Rightarrow> api_error + (int \<times> bytes) list" where
  "split_updates dec dec_id body =
     (case parse_result dec body of Inl e \<Rightarrow> Inl e | Inr raws \<Rightarrow> ids_of dec_id raws)"

section \<open>No token in what is shown\<close>

lemma replace_from_end [simp]: "replace_from p r [] = []" "replace_from [] r s = s"
  by (simp_all add: replace_from.simps)

lemma replace_from_cons:
  "p \<noteq> [] \<Longrightarrow> replace_from p r (x # xs) =
     (if prefix p (x # xs) then r @ replace_from p r (drop (length p) (x # xs)) else x # replace_from p r xs)"
  by (simp add: replace_from.simps [of p r "x # xs"])

text \<open>What starts without the first byte of a replacement was there before.\<close>

lemma prefix_replace:
  "p \<noteq> [] \<Longrightarrow> prefix q (replace_from p (c # r) s) \<Longrightarrow> c \<notin> set q \<Longrightarrow> prefix q s"
proof (induction s arbitrary: q)
  case (Cons x xs)
  show ?case
  proof (cases q)
    case q: (Cons y q')
    then have "\<not> prefix p (x # xs)" using Cons.prems by (auto simp: replace_from_cons)
    then have "y = x" "prefix q' (replace_from p (c # r) xs)" using Cons.prems q by (simp_all add: replace_from_cons)
    with Cons.IH [of q'] Cons.prems q show ?thesis by simp
  qed simp
qed simp

lemma sublist_replacement:
  assumes "sublist p (r @ s)" and "p \<noteq> []" and "r \<noteq> []" and "last r \<notin> set p"
  shows "sublist p r \<or> sublist p s"
proof -
  consider "sublist p r \<or> sublist p s" | p1 p2 where "p = p1 @ p2" "suffix p1 r" "prefix p2 s"
    using assms(1) unfolding sublist_append by blast
  then show ?thesis
  proof cases
    case 2
    show ?thesis
    proof (cases "p1 = []")
      case False
      then have "last p1 = last r" using 2(2) by (auto simp: suffix_def)
      moreover have "last p1 \<in> set p" using False 2(1) by simp
      ultimately show ?thesis using assms(4) by simp
    qed (use 2 in simp)
  qed
qed

lemma replaced_free:
  assumes p: "p \<noteq> []" and r: "\<not> sublist p (c # r)" "c \<notin> set p" "last (c # r) \<notin> set p"
  shows "\<not> sublist p (replace_from p (c # r) s)"
proof (induction s rule: length_induct)
  case (1 s)
  show ?case
  proof (cases s)
    case (Cons x xs)
    show ?thesis
    proof (cases "prefix p s")
      case True
      have "length (drop (length p) s) < length s" using Cons p by (cases p) auto
      with 1 have "\<not> sublist p (replace_from p (c # r) (drop (length p) s))" by blast
      with sublist_replacement [of p "c # r" "replace_from p (c # r) (drop (length p) s)"] r p
      show ?thesis using True unfolding Cons replace_from_cons [OF p] by auto
    next
      case False
      have "\<not> sublist p (replace_from p (c # r) xs)" using 1 Cons by simp
      moreover have "\<not> prefix p (x # replace_from p (c # r) xs)"
      proof
        assume a: "prefix p (x # replace_from p (c # r) xs)"
        obtain q where q: "p = x # q" using a p by (cases p) auto
        with a have "prefix q (replace_from p (c # r) xs)" by simp
        from prefix_replace [OF p this] r(2) q have "prefix q xs" by simp
        with False Cons q show False by simp
      qed
      ultimately show ?thesis using False unfolding Cons replace_from_cons [OF p] by (simp add: sublist_Cons_right)
    qed
  qed (use p in simp)
qed

text \<open>Whether the text of an error shows the token; \<open>ApiConfig\<close> texts are literals of the source.\<close>

definition shows_token :: "string \<Rightarrow> api_error \<Rightarrow> bool" where
  "shows_token token e =
     (case e of ApiNetwork s \<Rightarrow> sublist token s | ApiHttp _ d _ \<Rightarrow> sublist token d | ApiDecode s \<Rightarrow> sublist token s
      | ApiConfig _ \<Rightarrow> False)"

lemma clean_masks:
  assumes v: "valid_bot_token token" and colon: "CHR '':'' \<in> set token"
  shows "\<not> sublist token (clean token s)"
proof (cases "sublist token s")
  case True
  have ne: "token \<noteq> []" and ch: "\<And>b. b \<in> set token \<Longrightarrow> is_ascii_alphanumeric b \<or> b \<in> {CHR '':'', CHR ''_'', CHR ''-''}"
    using v by (simp_all add: valid_bot_token_def list_all_iff)
  have br: "CHR ''['' \<notin> set token" "CHR '']'' \<notin> set token"
    using ch [of "CHR ''[''"] ch [of "CHR '']''"]
    by (auto simp: is_ascii_alphanumeric_def is_ascii_alphabetic_def is_ascii_digit_def)
  have "CHR '':'' \<notin> set MASK" by (simp add: MASK_def)
  then have "\<not> sublist token MASK" using colon set_mono_sublist by blast
  with replaced_free [of token "CHR ''[''" "''redacted]''" s] ne br True show ?thesis
    by (simp add: clean_def str_replace_def MASK_def)
qed (simp add: clean_def)

lemma scrub_masks:
  "valid_bot_token token \<Longrightarrow> CHR '':'' \<in> set token \<Longrightarrow> \<not> shows_token token (scrub token e)"
  by (cases e) (simp_all add: shows_token_def scrub_def clean_masks)

lemma show_nat_digits: "c \<in> set (show_nat n) \<Longrightarrow> c \<noteq> CHR '':''"
proof (induction n rule: show_nat.induct)
  case (1 n)
  have d: "char_of (48 + k) \<noteq> CHR '':''" if "k < 10" for k :: nat
  proof -
    have "\<forall>k \<in> {..<10::nat}. char_of (48 + k) \<noteq> CHR '':''" by code_simp
    with that show ?thesis by blast
  qed
  show ?case
  proof (cases "n < 10")
    case True
    then have c: "c = char_of (48 + n)" using 1(2) by (simp add: show_nat.simps [of n])
    show ?thesis unfolding c by (rule d [OF True])
  next
    case False
    then consider "c \<in> set (show_nat (n div 10))" | "c = char_of (48 + n mod 10)"
      using 1(2) by (auto simp: show_nat.simps [of n])
    then show ?thesis
    proof cases
      case 2
      show ?thesis unfolding 2 by (rule d) simp
    qed (rule 1(1) [OF False])
  qed
qed

lemma no_colon_hidden: "CHR '':'' \<in> set token \<Longrightarrow> CHR '':'' \<notin> set s \<Longrightarrow> \<not> sublist token s"
  using set_mono_sublist by blast

lemma decode_error_hides:
  assumes "CHR '':'' \<in> set token"
  shows "\<not> shows_token token (decode_error e)"
proof -
  have "CHR '':'' \<notin> set (show_nat n)" for n using show_nat_digits by blast
  then show ?thesis using assms
    by (cases "je_category e"; simp add: decode_error_def shows_token_def; intro no_colon_hidden) simp_all
qed

text \<open>
  A decoder reads \<open>ok\<close> alike whatever the result is decoded to, and as true from a body
  that starts with it; this is how \<open>serde_json\<close> reads the two types.
\<close>

definition reads_ok :: "(bytes \<Rightarrow> json_error + 'r api_envelope) \<Rightarrow> (bytes \<Rightarrow> json_error + 'q api_envelope) \<Rightarrow> bool" where
  "reads_ok dec any \<longleftrightarrow>
     (\<forall>body v. dec body = Inr v \<longrightarrow> (\<exists>w. any body = Inr w \<and> av_ok w = av_ok v) \<and> (prefix OK_TRUE body \<longrightarrow> av_ok v))"

lemma ids_of_error: "ids_of dec raws = Inl e \<Longrightarrow> \<exists>je. e = decode_error je"
  by (induction raws) (auto simp: update_id_def Let_def split: option.splits sum.splits)

definition polled_updates ::
  "(nat \<Rightarrow> string option) \<Rightarrow> (bytes \<Rightarrow> json_error + 'q api_envelope) \<Rightarrow> (bytes \<Rightarrow> json_error + bytes list api_envelope) \<Rightarrow>
     (bytes \<Rightarrow> json_error + int) \<Rightarrow> string \<Rightarrow> transport \<Rightarrow> api_error + (int \<times> bytes) list" where
  "polled_updates reason any dec dec_id token t =
     (case get_updates reason any token t of Inl e \<Rightarrow> Inl e | Inr body \<Rightarrow> split_updates dec dec_id body)"

lemma polled_hides:
  assumes v: "valid_bot_token token" and c: "CHR '':'' \<in> set token" and ok: "reads_ok dec any"
    and r: "polled_updates reason any dec dec_id token t = Inl e"
  shows "\<not> shows_token token e"
proof (cases "get_updates reason any token t")
  case (Inl e')
  then show ?thesis using r scrub_masks [OF v c]
    by (auto simp: polled_updates_def get_updates_def send_def split: transport.splits if_splits sum.splits)
next
  case (Inr body)
  then have sp: "split_updates dec dec_id body = Inl e" using r by (simp add: polled_updates_def)
  have body: "prefix OK_TRUE body \<or> (\<forall>w. any body = Inr w \<longrightarrow> av_ok w)"
    using Inr by (auto simp: get_updates_def split: sum.splits if_splits)
  show ?thesis
  proof (cases "dec body")
    case (Inl je)
    then show ?thesis using sp decode_error_hides [OF c] by (auto simp: split_updates_def parse_result_def)
  next
    case (Inr w)
    then have "av_ok w" using ok body unfolding reads_ok_def by metis
    then have "e = ApiDecode ''the response has no result'' \<or> (\<exists>je. e = decode_error je)"
      using sp Inr ids_of_error by (auto simp: split_updates_def parse_result_def split: option.splits)
    moreover have "\<not> sublist token ''the response has no result''" by (rule no_colon_hidden [OF c]) simp
    ultimately show ?thesis using decode_error_hides [OF c] by (auto simp: shows_token_def)
  qed
qed

text \<open>
  C25. No error of a Bot API call shows the bot token, even if the server echoes it in its
  answer, and neither does a description that a call returns: for any token the client accepts of
  the form Telegram issues (with a colon), whatever the request came to. The errors of decoding the
  updates after \<open>getUpdates\<close>, which are not masked, cannot hold it either.
\<close>

theorem errors_hide_token:
  assumes "valid_bot_token token" and "CHR '':'' \<in> set token" and "reads_ok dec any"
  shows "(case call_result reason rdec token t of Inl e \<Rightarrow> \<not> shows_token token e | Inr _ \<Rightarrow> True) \<and>
    (case described reason rdec token t of
       Inl e \<Rightarrow> \<not> shows_token token e | Inr d \<Rightarrow> (case d of None \<Rightarrow> True | Some text \<Rightarrow> \<not> sublist token text)) \<and>
    (case polled_updates reason any dec dec_id token t of Inl e \<Rightarrow> \<not> shows_token token e | Inr _ \<Rightarrow> True)"
proof (intro conjI)
  note m = scrub_masks [OF assms(1,2)] clean_masks [OF assms(1,2)]
  show "case call_result reason rdec token t of Inl e \<Rightarrow> \<not> shows_token token e | Inr _ \<Rightarrow> True"
    by (auto simp: call_result_def send_def scrubbed_def m split: sum.splits transport.splits if_splits)
  show "case described reason rdec token t of
       Inl e \<Rightarrow> \<not> shows_token token e | Inr d \<Rightarrow> (case d of None \<Rightarrow> True | Some text \<Rightarrow> \<not> sublist token text)"
    by (auto simp: described_def send_def scrubbed_def m split: sum.splits transport.splits if_splits option.splits)
  show "case polled_updates reason any dec dec_id token t of Inl e \<Rightarrow> \<not> shows_token token e | Inr _ \<Rightarrow> True"
    using polled_hides [OF assms] by (auto split: sum.splits)
qed

text \<open>A server that answers 401 and echoes the token.\<close>

definition demo_token :: string where "demo_token = ''12:ab''"

definition demo_echo :: "bytes \<Rightarrow> json_error + bytes list api_envelope" where
  "demo_echo body = Inr \<lparr>av_ok = prefix OK_TRUE body, av_result = Some [], av_description = Some (''no 12:ab12:ab here''),
     av_error_code = None, av_retry_after = None\<rparr>"

theorem errors_hide_token_witness:
  "call_result (\<lambda>_. None) demo_echo demo_token (Answered 401 None []) =
     Inl (ApiHttp 401 ''no [redacted][redacted] here'' None) \<and>
   \<not> shows_token demo_token (ApiHttp 401 ''no [redacted][redacted] here'' None)"
proof -
  have v: "valid_bot_token demo_token" "CHR '':'' \<in> set demo_token" by code_simp+
  have r: "reads_ok demo_echo demo_echo" by (simp add: reads_ok_def demo_echo_def)
  have c: "call_result (\<lambda>_. None) demo_echo demo_token (Answered 401 None []) =
     Inl (ApiHttp 401 ''no [redacted][redacted] here'' None)" by code_simp
  from errors_hide_token [OF v r, of "\<lambda>_. None" demo_echo "Answered 401 None []" "\<lambda>_. Inr 0"] c show ?thesis by simp
qed

end
