(* ===== verification/Facts_Extract.thy ===== *)
theory Facts_Extract
  imports Bot_Client Rules
begin

text \<open>
  The routing facts of an update, \<open>crates/tgin-botapi/src/facts.rs\<close>. A \<open>&str\<close> is its UTF-8
  bytes. The JSON reader of \<open>serde_json\<close> is an argument: from a payload it gives the tree below, in
  which a string carries its text if it can be decoded (no lone surrogate, valid UTF-8) and whether it
  can be borrowed (no escapes), a number its value if it is in range, and an object the source text of each of
  its values, if that is UTF-8. Asking for what is missing there is an error, ignoring it is not; this is how the
  visitors of the code fail. The buffer \<open>decoded\<close> is threaded.
\<close>

section \<open>UTF-8\<close>

definition encode_utf8 :: "nat \<Rightarrow> string" where
  "encode_utf8 c = map char_of
     (if c < 128 then [c]
      else if c < 2048 then [192 + c div 64, 128 + c mod 64]
      else if c < 65536 then [224 + c div 4096, 128 + c div 64 mod 64, 128 + c mod 64]
      else [240 + c div 262144, 128 + c div 4096 mod 64, 128 + c div 64 mod 64, 128 + c mod 64])"

definition is_scalar :: "nat \<Rightarrow> bool" where
  "is_scalar c \<longleftrightarrow> c < 1114112 \<and> \<not> (55296 \<le> c \<and> c < 57344)"

definition REPLACEMENT_CHARACTER :: nat where "REPLACEMENT_CHARACTER = 65533"

definition is_continuation :: "byte \<Rightarrow> bool" where
  "is_continuation b \<longleftrightarrow> 128 \<le> (of_char b :: nat) \<and> (of_char b :: nat) < 192"

definition is_char_boundary :: "string \<Rightarrow> nat \<Rightarrow> bool" where
  "is_char_boundary s i \<longleftrightarrow> i = 0 \<or> i = length s \<or> i < length s \<and> \<not> is_continuation (s ! i)"

definition str_get :: "string \<Rightarrow> nat \<Rightarrow> string option" where
  "str_get s n = (if is_char_boundary s n then Some (take n s) else None)"

text \<open>The bytes of the first char, by its first byte.\<close>

definition char_width :: "byte \<Rightarrow> nat" where
  "char_width b = (let n = (of_char b :: nat) in if n < 128 then 1 else if n < 224 then 2 else if n < 240 then 3 else 4)"

definition WHITE :: "nat list" where
  "WHITE =
     [9, 10, 11, 12, 13, 32, 133, 160, 5760, 8192, 8193, 8194, 8195, 8196, 8197, 8198, 8199, 8200, 8201, 8202,
      8232, 8233, 8239, 8287, 12288]"

definition starts_white :: "string \<Rightarrow> bool" where
  "starts_white s = list_ex (\<lambda>w. prefix (encode_utf8 w) s) WHITE"

fun find_whitespace :: "string \<Rightarrow> nat option" where
  "find_whitespace [] = None"
| "find_whitespace (b # s) = (if starts_white (b # s) then Some 0 else map_option Suc (find_whitespace s))"

section \<open>Decoding a JSON string\<close>

definition TEXT_CAP :: nat where "TEXT_CAP = 4096"

fun floor_end :: "string \<Rightarrow> nat \<Rightarrow> nat" where
  "floor_end s 0 = 0"
| "floor_end s (Suc i) = (if is_char_boundary s (Suc i) then Suc i else floor_end s i)"

definition floor_str :: "string \<Rightarrow> nat \<Rightarrow> string" where
  "floor_str s limit = (if length s \<le> limit then s else take (floor_end s limit) s)"

definition hex_digit_value :: "byte \<Rightarrow> nat option" where
  "hex_digit_value b =
     (let n = (of_char b :: nat)
      in if 48 \<le> n \<and> n \<le> 57 then Some (n - 48)
         else if 65 \<le> n \<and> n \<le> 70 then Some (n - 55)
         else if 97 \<le> n \<and> n \<le> 102 then Some (n - 87) else None)"

definition hex_value :: "string \<Rightarrow> nat" where
  "hex_value s = fold (\<lambda>b n. 16 * n + the (hex_digit_value b)) s 0"

definition hex4 :: "string \<Rightarrow> nat option" where
  "hex4 s =
     (case str_get s 4 of
        None \<Rightarrow> None
      | Some digits \<Rightarrow> if list_all (\<lambda>b. hex_digit_value b \<noteq> None) digits then Some (hex_value digits) else None)"

definition is_high :: "nat \<Rightarrow> bool" where "is_high u \<longleftrightarrow> 55296 \<le> u \<and> u < 56320"
definition is_low :: "nat \<Rightarrow> bool" where "is_low u \<longleftrightarrow> 56320 \<le> u \<and> u < 57344"

definition pair_char :: "nat \<Rightarrow> nat \<Rightarrow> nat" where
  "pair_char hi lo = 65536 + 1024 * (hi - 55296) + (lo - 56320)"

definition from_unit :: "nat \<Rightarrow> nat" where
  "from_unit u = (if is_scalar u then u else REPLACEMENT_CHARACTER)"

definition unescape_unicode :: "string \<Rightarrow> nat \<times> string" where
  "unescape_unicode s =
     (case hex4 s of
        None \<Rightarrow> (REPLACEMENT_CHARACTER, s)
      | Some unit \<Rightarrow>
          (let rest = drop 4 s
           in case (if is_high unit then Option.bind (strip_prefix [CHR 0x5C, CHR ''u''] rest) hex4 else None) of
                None \<Rightarrow> (from_unit unit, rest)
              | Some low \<Rightarrow> if is_low low then (pair_char unit low, drop 6 rest) else (from_unit unit, rest)))"

definition unescape_one :: "string \<Rightarrow> nat \<times> string" where
  "unescape_one s =
     (case s of
        [] \<Rightarrow> (REPLACEMENT_CHARACTER, s)
      | c # _ \<Rightarrow>
          (let rest = drop (char_width c) s
           in if c \<in> {CHR 0x22, CHR 0x5C, CHR ''/''} then (of_char c, rest)
              else if c = CHR ''b'' then (8, rest)
              else if c = CHR ''f'' then (12, rest)
              else if c = CHR ''n'' then (10, rest)
              else if c = CHR ''r'' then (13, rest)
              else if c = CHR ''t'' then (9, rest)
              else if c = CHR ''u'' then unescape_unicode rest
              else (REPLACEMENT_CHARACTER, rest)))"

lemma unescape_unicode_shrinks: "length (snd (unescape_unicode s)) \<le> length s"
  by (auto simp: unescape_unicode_def Let_def split: option.split)

lemma unescape_one_shrinks: "length (snd (unescape_one s)) \<le> length s"
proof (cases s)
  case (Cons c cs)
  have "length (snd (unescape_unicode (drop (char_width c) s))) \<le> length s"
    by (rule order_trans [OF unescape_unicode_shrinks]) simp
  with Cons show ?thesis by (auto simp: unescape_one_def Let_def)
qed (simp add: unescape_one_def)

function unescape_loop :: "nat \<Rightarrow> nat \<Rightarrow> string \<Rightarrow> string \<Rightarrow> string" where
  "unescape_loop limit start rest out =
     (if rest = [] then out
      else
        let plain = takeWhile (\<lambda>b. b \<noteq> CHR 0x5C) rest;
            room = limit - (length out - start)
        in if room < length plain then out @ floor_str plain room
           else
             let out = out @ plain
             in case dropWhile (\<lambda>b. b \<noteq> CHR 0x5C) rest of
                  [] \<Rightarrow> out
                | _ # escaped \<Rightarrow>
                    (case unescape_one escaped of
                       (c, after) \<Rightarrow>
                         if limit - (length out - start) < length (encode_utf8 c) then out
                         else unescape_loop limit start after (out @ encode_utf8 c)))"
  by pat_completeness auto
termination
proof (relation "measure (\<lambda>(limit, start, rest, out). length rest)", goal_cases)
  case (2 limit start rest out)
  then show ?case using unescape_one_shrinks length_dropWhile_le [of "\<lambda>b. b \<noteq> CHR 0x5C" rest]
    by (simp, metis Suc_le_eq le_trans length_Cons less_Suc_eq_le not_less snd_conv)
qed simp

declare unescape_loop.simps [simp del]

text \<open>Where the text of a JSON string is: verbatim in the payload, or in the buffer at a range.\<close>

datatype text_at = Verbatim string | DecodedAt nat nat

primrec resolve :: "string \<Rightarrow> text_at \<Rightarrow> string" where
  "resolve decoded (Verbatim s) = s"
| "resolve decoded (DecodedAt a b) = drop a (take b decoded)"

definition unescape_text :: "string \<Rightarrow> nat \<Rightarrow> string \<Rightarrow> text_at \<times> string" where
  "unescape_text inner limit out =
     (if CHR 0x5C \<notin> set inner then (Verbatim (floor_str inner limit), out)
      else let out' = unescape_loop limit (length out) inner out in (DecodedAt (length out) (length out'), out'))"

definition string_contents :: "string \<Rightarrow> string option" where
  "string_contents raw =
     (case strip_prefix [CHR 0x22] raw of
        None \<Rightarrow> None
      | Some s \<Rightarrow> if s \<noteq> [] \<and> last s = CHR 0x22 then Some (butlast s) else None)"

definition SLASHES :: "string list" where
  "SLASHES = [''/'', CHR 0x5C # ''/'', CHR 0x5C # ''u002f'', CHR 0x5C # ''u002F'']"

definition command :: "string \<Rightarrow> bool \<Rightarrow> string \<Rightarrow> (string \<times> string option) option" where
  "command txt escaped raw =
     (case strip_prefix ''/'' txt of
        None \<Rightarrow> None
      | Some rest \<Rightarrow>
          (let len = (case find_whitespace rest of None \<Rightarrow> length rest | Some i \<Rightarrow> i);
               token =
                 (if escaped then
                    (case List.map_filter (\<lambda>slash. strip_prefix slash raw) SLASHES of
                       [] \<Rightarrow> None
                     | after # _ \<Rightarrow>
                         Option.bind (str_get after len) (\<lambda>t. if t = take len rest then Some t else None))
                  else if is_char_boundary txt 1 then map_option (drop 1) (str_get txt (1 + len)) else None)
           in case token of
                None \<Rightarrow> None
              | Some t \<Rightarrow>
                  (case split_once CHR ''@'' t of Some (name, to) \<Rightarrow> Some (name, Some to) | None \<Rightarrow> Some (t, None))))"

section \<open>Reading the update\<close>

datatype json_number = JU64 nat | JI64 int | JF64

type_synonym json_string = "bool \<times> string option"

datatype json_value =
    JNull | JBool bool | JNumber "json_number option" | JString "bool \<times> string option" | JArray "json_value list"
  | JObject "((bool \<times> string option) \<times> string option \<times> json_value) list"

type_synonym json_fields = "(json_string \<times> string option \<times> json_value) list"

datatype facts_error = FactsJson | MissingUpdateId

record chat_facts =
  ch_id :: "int option"
  ch_kind :: "chat_type option"

record payload_facts =
  pl_chat :: "chat_facts option"
  pl_message_chat :: "chat_facts option"
  pl_from :: "int option option"
  pl_user :: "int option option"
  pl_text :: "string option"
  pl_caption :: "string option"
  pl_query :: "string option"
  pl_data :: "string option"

record update_facts =
  uf_update_id :: "int option"
  uf_kind :: "(string \<times> payload_facts) option"

text \<open>\<open>deserialize_any\<close> decodes a scalar before it is visited.\<close>

definition any_ok :: "json_value \<Rightarrow> bool" where
  "any_ok v = (case v of JNumber n \<Rightarrow> n \<noteq> None | JString s \<Rightarrow> snd s \<noteq> None | _ \<Rightarrow> True)"

definition lenient_i64 :: "json_value \<Rightarrow> int option option" where
  "lenient_i64 v =
     (if \<not> any_ok v then None
      else Some (case v of
                   JNumber (Some (JI64 i)) \<Rightarrow> Some i
                 | JNumber (Some (JU64 n)) \<Rightarrow> if int n \<le> I64_MAX then Some (int n) else None
                 | _ \<Rightarrow> None))"

definition chat_type_seed :: "json_value \<Rightarrow> chat_type option option" where
  "chat_type_seed v =
     (if \<not> any_ok v then None
      else Some (case v of
                   JString (_, Some s) \<Rightarrow>
                     Some (if s = ''private'' then Private else if s = ''group'' then Group
                           else if s = ''supergroup'' then Supergroup else if s = ''channel'' then Channel else Other)
                 | _ \<Rightarrow> None))"

fun chat_fields :: "json_fields \<Rightarrow> chat_facts \<Rightarrow> chat_facts option" where
  "chat_fields [] c = Some c"
| "chat_fields (((_, k), _, v) # es) c =
     (case k of
        None \<Rightarrow> None
      | Some k \<Rightarrow>
          if k = ''id'' then Option.bind (lenient_i64 v) (\<lambda>i. chat_fields es (c\<lparr>ch_id := i\<rparr>))
          else if k = ''type'' then Option.bind (chat_type_seed v) (\<lambda>t. chat_fields es (c\<lparr>ch_kind := t\<rparr>))
          else chat_fields es c)"

definition chat_seed :: "json_value \<Rightarrow> chat_facts option option" where
  "chat_seed v =
     (case v of
        JObject es \<Rightarrow> map_option Some (chat_fields es \<lparr>ch_id = None, ch_kind = None\<rparr>)
      | _ \<Rightarrow> if any_ok v then Some None else None)"

fun message_chat_fields :: "json_fields \<Rightarrow> chat_facts option \<Rightarrow> chat_facts option option" where
  "message_chat_fields [] c = Some c"
| "message_chat_fields (((_, k), _, v) # es) c =
     (case k of
        None \<Rightarrow> None
      | Some k \<Rightarrow> if k = ''chat'' then Option.bind (chat_seed v) (message_chat_fields es) else message_chat_fields es c)"

definition message_chat_seed :: "json_value \<Rightarrow> chat_facts option option" where
  "message_chat_seed v =
     (case v of JObject es \<Rightarrow> message_chat_fields es None | _ \<Rightarrow> if any_ok v then Some None else None)"

fun user_fields :: "json_fields \<Rightarrow> int option \<Rightarrow> int option option" where
  "user_fields [] i = Some i"
| "user_fields (((_, k), _, v) # es) i =
     (case k of
        None \<Rightarrow> None
      | Some k \<Rightarrow> if k = ''id'' then Option.bind (lenient_i64 v) (user_fields es) else user_fields es i)"

definition user_seed :: "json_value \<Rightarrow> int option option option" where
  "user_seed v =
     (case v of JObject es \<Rightarrow> map_option Some (user_fields es None) | _ \<Rightarrow> if any_ok v then Some None else None)"

definition payload_entry ::
  "bool \<Rightarrow> bool \<Rightarrow> string \<Rightarrow> string option \<Rightarrow> json_value \<Rightarrow> payload_facts \<Rightarrow> payload_facts option" where
  "payload_entry cq iq k raw v p =
     (if k = ''chat'' then map_option (\<lambda>x. p\<lparr>pl_chat := x\<rparr>) (chat_seed v)
      else if k = ''message'' \<and> cq then map_option (\<lambda>x. p\<lparr>pl_message_chat := x\<rparr>) (message_chat_seed v)
      else if k = ''from'' then map_option (\<lambda>x. p\<lparr>pl_from := x\<rparr>) (user_seed v)
      else if k = ''user'' then map_option (\<lambda>x. p\<lparr>pl_user := x\<rparr>) (user_seed v)
      else if k = ''text'' then map_option (\<lambda>x. p\<lparr>pl_text := Some x\<rparr>) raw
      else if k = ''caption'' then map_option (\<lambda>x. p\<lparr>pl_caption := Some x\<rparr>) raw
      else if k = ''query'' \<and> iq then map_option (\<lambda>x. p\<lparr>pl_query := Some x\<rparr>) raw
      else if k = ''data'' \<and> cq then map_option (\<lambda>x. p\<lparr>pl_data := Some x\<rparr>) raw
      else Some p)"

fun payload_fields :: "bool \<Rightarrow> bool \<Rightarrow> json_fields \<Rightarrow> payload_facts \<Rightarrow> payload_facts option" where
  "payload_fields cq iq [] p = Some p"
| "payload_fields cq iq (((_, k), raw, v) # es) p =
     (case k of None \<Rightarrow> None | Some k \<Rightarrow> Option.bind (payload_entry cq iq k raw v p) (payload_fields cq iq es))"

definition payload_default :: payload_facts where
  "payload_default = \<lparr>pl_chat = None, pl_message_chat = None, pl_from = None, pl_user = None, pl_text = None,
     pl_caption = None, pl_query = None, pl_data = None\<rparr>"

definition payload_seed :: "string \<Rightarrow> json_value \<Rightarrow> payload_facts option option" where
  "payload_seed name v =
     (case v of
        JObject es \<Rightarrow> map_option Some (payload_fields (name = ''callback_query'') (name = ''inline_query'') es payload_default)
      | _ \<Rightarrow> if any_ok v then Some None else None)"

definition KNOWN_UPDATE_TYPES :: "string list" where
  "KNOWN_UPDATE_TYPES =
     [''message'', ''edited_message'', ''channel_post'', ''edited_channel_post'', ''business_connection'',
      ''business_message'', ''edited_business_message'', ''deleted_business_messages'', ''message_reaction'',
      ''message_reaction_count'', ''inline_query'', ''chosen_inline_result'', ''callback_query'', ''shipping_query'',
      ''pre_checkout_query'', ''purchased_paid_media'', ''poll'', ''poll_answer'', ''my_chat_member'', ''chat_member'',
      ''chat_join_request'', ''chat_boost'', ''removed_chat_boost'']"

datatype top_key = TopUpdateId | TopName string | TopUnborrowable

definition top_key_of :: "bool \<Rightarrow> string \<Rightarrow> top_key" where
  "top_key_of borrowed k =
     (if k = ''update_id'' then TopUpdateId
      else if borrowed \<or> k \<in> set KNOWN_UPDATE_TYPES then TopName k else TopUnborrowable)"

text \<open>An \<open>i64\<close> proper, as \<open>update_id\<close> has to be.\<close>

definition strict_i64 :: "json_value \<Rightarrow> int option" where
  "strict_i64 v = Option.bind (lenient_i64 v) id"

fun update_fields :: "json_fields \<Rightarrow> update_facts \<Rightarrow> update_facts option" where
  "update_fields [] u = Some u"
| "update_fields (((borrowed, k), _, v) # es) u =
     (case k of
        None \<Rightarrow> None
      | Some k \<Rightarrow>
          (case top_key_of borrowed k of
             TopUpdateId \<Rightarrow> Option.bind (strict_i64 v) (\<lambda>i. update_fields es (u\<lparr>uf_update_id := Some i\<rparr>))
           | TopName name \<Rightarrow>
               if uf_kind u = None
               then Option.bind (payload_seed name v) (\<lambda>p. update_fields es (u\<lparr>uf_kind := map_option (Pair name) p\<rparr>))
               else update_fields es u
           | TopUnborrowable \<Rightarrow> update_fields es u))"

definition read_update :: "json_value \<Rightarrow> update_facts option" where
  "read_update v = (case v of JObject es \<Rightarrow> update_fields es \<lparr>uf_update_id = None, uf_kind = None\<rparr> | _ \<Rightarrow> None)"

definition facts_default :: facts where
  "facts_default = \<lparr>f_update_type = [], f_chat_id = None, f_chat_type = None, f_user_id = None, f_text = None,
     f_callback_data = None, f_command = None\<rparr>"

definition into_facts :: "update_facts \<Rightarrow> string \<Rightarrow> facts \<times> string" where
  "into_facts u decoded0 =
     (case uf_kind u of
        None \<Rightarrow> (facts_default, [])
      | Some (update_type, p) \<Rightarrow>
          (let decoded = [];
               chat = (case pl_chat p of None \<Rightarrow> pl_message_chat p | Some c \<Rightarrow> Some c);
               raw_text = (case List.map_filter (\<lambda>r. Option.bind r string_contents) [pl_text p, pl_caption p, pl_query p] of
                             [] \<Rightarrow> None | r # _ \<Rightarrow> Some r);
               (txt, decoded) =
                 (case raw_text of
                    None \<Rightarrow> (None, decoded)
                  | Some inner \<Rightarrow> (case unescape_text inner TEXT_CAP decoded of (t, d) \<Rightarrow> (Some t, d)));
               (callback_data, decoded) =
                 (case Option.bind (pl_data p) string_contents of
                    None \<Rightarrow> (None, decoded)
                  | Some inner \<Rightarrow> (case unescape_text inner U64_MAX decoded of (t, d) \<Rightarrow> (Some t, d)));
               (txt, cmd) =
                 (case (txt, raw_text) of
                    (Some t, Some raw) \<Rightarrow>
                      (let escaped = (case t of DecodedAt _ _ \<Rightarrow> True | Verbatim _ \<Rightarrow> False);
                           t = resolve decoded t
                       in (Some t, command t escaped raw))
                  | _ \<Rightarrow> (None, None))
           in (\<lparr>f_update_type = update_type, f_chat_id = Option.bind chat ch_id, f_chat_type = Option.bind chat ch_kind,
                f_user_id = (case pl_from p of None \<Rightarrow> Option.bind (pl_user p) id | Some i \<Rightarrow> i),
                f_text = txt, f_callback_data = map_option (resolve decoded) callback_data, f_command = cmd\<rparr>, decoded)))"

definition extract_facts :: "(bytes \<Rightarrow> json_value option) \<Rightarrow> bytes \<Rightarrow> string \<Rightarrow> (facts_error + int \<times> facts) \<times> string" where
  "extract_facts parse payload decoded =
     (case Option.bind (parse payload) read_update of
        None \<Rightarrow> (Inl FactsJson, decoded)
      | Some u \<Rightarrow>
          (case uf_update_id u of
             None \<Rightarrow> (Inl MissingUpdateId, decoded)
           | Some i \<Rightarrow> (case into_facts u decoded of (f, d) \<Rightarrow> (Inr (i, f), d))))"

end
