(* ===== verification/Long_Poll.thy ===== *)
theory Long_Poll
  imports Facts_Extract Backoff Admission
begin

text \<open>
  Long-poll ingress, \<open>crates/tgin-botapi/src/longpoll.rs\<close>: \<open>getMe\<close>, an optional \<open>deleteWebhook\<close>, then
  \<open>getUpdates\<close> into the sink. The source is cut at its awaits: a program counter says what it waits
  for, and one definition per await says what happens from there to the next. The sink, the JSON
  reader and the answers of the server are arguments. An error message is the call with
  its error.
\<close>

section \<open>Options and errors\<close>

definition MIN_POLL_TIMEOUT :: duration where "MIN_POLL_TIMEOUT = NANOS_PER_SEC"
definition MAX_POLL_TIMEOUT :: duration where "MAX_POLL_TIMEOUT = 50 * NANOS_PER_SEC"
definition POLL_MAX_LIMIT :: nat where "POLL_MAX_LIMIT = 100"
definition RETRY_AFTER_CAP :: duration where "RETRY_AFTER_CAP = 3600 * NANOS_PER_SEC"
definition REJECTED_BACKOFF_MAX :: duration where "REJECTED_BACKOFF_MAX = 300 * NANOS_PER_SEC"
definition WEBHOOK_REDELETE_GUARD :: duration where "WEBHOOK_REDELETE_GUARD = 60 * NANOS_PER_SEC"

record lp_opts =
  lo_timeout :: duration
  lo_limit :: nat
  lo_allowed_updates :: "string list"
  lo_delete_webhook_on_start :: bool
  lo_backoff :: "duration \<times> duration \<times> duration"
  lo_local_upstream :: bool
  lo_conflict_backoff :: duration
  lo_admit_retry :: duration

definition lp_clamped :: "lp_opts \<Rightarrow> lp_opts" where
  "lp_clamped o1 = o1\<lparr>lo_timeout := max MIN_POLL_TIMEOUT (min MAX_POLL_TIMEOUT (lo_timeout o1)),
     lo_limit := max 1 (min POLL_MAX_LIMIT (lo_limit o1))\<rparr>"

definition is_fatal :: "api_error \<Rightarrow> bool \<Rightarrow> bool" where
  "is_fatal err local_upstream =
     (case err of
        ApiHttp status _ _ \<Rightarrow> if status = 401 \<or> status = 404 then \<not> local_upstream else status = 403
      | ApiConfig _ \<Rightarrow> True
      | _ \<Rightarrow> False)"

datatype source_reason = SrNetwork | SrDecode | SrUnauthorized | SrRateLimited | SrConflict | SrHttp

definition reason_of :: "api_error \<Rightarrow> source_reason option" where
  "reason_of err =
     (case err of
        ApiNetwork _ \<Rightarrow> Some SrNetwork
      | ApiDecode _ \<Rightarrow> Some SrDecode
      | ApiHttp status _ _ \<Rightarrow>
          Some (if status \<in> {401, 403, 404} then SrUnauthorized else if status = 429 then SrRateLimited
                else if status = 409 then SrConflict else SrHttp)
      | ApiConfig _ \<Rightarrow> None)"

record backoffs =
  bf_errors :: backoff
  bf_rejected :: backoff

definition backoffs_new :: "duration \<times> duration \<times> duration \<Rightarrow> backoffs" where
  "backoffs_new b = (case b of (initial, mx, floor) \<Rightarrow>
     \<lparr>bf_errors = backoff_new initial mx floor, bf_rejected = backoff_new initial REJECTED_BACKOFF_MAX floor\<rparr>)"

definition backoffs_reset :: "backoffs \<Rightarrow> backoffs" where
  "backoffs_reset b = \<lparr>bf_errors = backoff_reset (bf_errors b), bf_rejected = backoff_reset (bf_rejected b)\<rparr>"

definition backoffs_delay :: "(nat \<Rightarrow> nat) \<Rightarrow> api_error \<Rightarrow> backoffs \<Rightarrow> duration \<times> backoffs" where
  "backoffs_delay draw err b =
     (let rejected = (case err of ApiHttp status _ _ \<Rightarrow> status = 401 \<or> status = 404 | _ \<Rightarrow> False);
          (computed, b) =
            (if rejected then (case next_delay draw (bf_rejected b) of (d, k) \<Rightarrow> (d, b\<lparr>bf_rejected := k\<rparr>))
             else (case next_delay draw (bf_errors b) of (d, k) \<Rightarrow> (d, b\<lparr>bf_errors := k\<rparr>)))
      in (honor_retry_after computed (api_retry_after err) RETRY_AFTER_CAP, b))"

section \<open>The source\<close>

datatype source_label = SlStarting | SlRunning | SlBackoff | SlStopped | SlFailed

datatype lp_exit = LpDone | LpFatal string api_error

text \<open>
  Where the source waits: for \<open>getMe\<close>, for \<open>deleteWebhook\<close> at the start or in between, for
  \<open>getUpdates\<close> (whether it drains, and the version of the drain it has seen), for the sink with the rest
  of a batch, for a drain to be called off, on a backoff; or not at all.
\<close>

datatype lp_pc =
    LpIdle | LpIdentify | LpIdentifyWait duration | LpFirstDelete | LpPoll bool nat
  | LpAdmit "(int \<times> bytes) list" | LpHold | LpRedelete | LpWait duration | LpExited lp_exit

record 's lp =
  lp_pc :: lp_pc
  lp_offset :: int
  lp_backoffs :: backoffs
  lp_deleted :: "instant option"
  lp_running :: bool
  lp_error :: "(string \<times> api_error) option"
  lp_label :: source_label
  lp_drain :: bool
  lp_version :: nat
  lp_empty :: nat
  lp_sink :: 's
  lp_taken :: "(int \<times> bytes) list"
  lp_counts :: "source_reason list"
  lp_requests :: "(int \<times> nat \<times> duration) list"

record 's lp_env =
  le_opts :: lp_opts
  le_sink :: "int \<Rightarrow> bytes \<Rightarrow> facts \<Rightarrow> 's \<Rightarrow> admit_result \<times> 's"
  le_parse :: "bytes \<Rightarrow> json_value option"

definition lp_new :: "'s lp_env \<Rightarrow> 's \<Rightarrow> 's lp" where
  "lp_new env k =
     \<lparr>lp_pc = LpIdle, lp_offset = 0, lp_backoffs = backoffs_new (lo_backoff (le_opts env)), lp_deleted = None,
      lp_running = False, lp_error = None, lp_label = SlStopped, lp_drain = False, lp_version = 0, lp_empty = 0,
      lp_sink = k, lp_taken = [], lp_counts = [], lp_requests = []\<rparr>"

definition lp_leave :: "lp_exit \<Rightarrow> 's lp \<Rightarrow> 's lp" where
  "lp_leave x s = s\<lparr>lp_pc := LpExited x, lp_label := (case x of LpDone \<Rightarrow> SlStopped | LpFatal _ _ \<Rightarrow> SlFailed)\<rparr>"

definition lp_count :: "api_error \<Rightarrow> 's lp \<Rightarrow> 's lp" where
  "lp_count err s = (case reason_of err of None \<Rightarrow> s | Some r \<Rightarrow> s\<lparr>lp_counts := lp_counts s @ [r]\<rparr>)"

definition lp_run :: "'s lp_env \<Rightarrow> 's lp \<Rightarrow> 's lp" where
  "lp_run env s =
     s\<lparr>lp_pc := LpIdentify, lp_label := SlStarting, lp_backoffs := backoffs_new (lo_backoff (le_opts env))\<rparr>"

text \<open>The top of the poll loop, up to sending \<open>getUpdates\<close>.\<close>

definition lp_top :: "'s lp_env \<Rightarrow> 's lp \<Rightarrow> 's lp" where
  "lp_top env s =
     s\<lparr>lp_pc := LpPoll (lp_drain s) (lp_version s),
       lp_requests := lp_requests s @
         [(lp_offset s, lo_limit (le_opts env), if lp_drain s then 0 else lo_timeout (le_opts env))]\<rparr>"

definition on_identity :: "'s lp_env \<Rightarrow> (nat \<Rightarrow> nat) \<Rightarrow> api_error + unit \<Rightarrow> 's lp \<Rightarrow> 's lp" where
  "on_identity env draw r s =
     (case r of
        Inl err \<Rightarrow>
          (let s = lp_count err s
           in if is_fatal err (lo_local_upstream (le_opts env)) then lp_leave (LpFatal ''getMe'' err) s
              else (case backoffs_delay draw err (lp_backoffs s) of
                      (delay, b) \<Rightarrow> s\<lparr>lp_backoffs := b, lp_error := Some (''getMe'', err), lp_label := SlBackoff,
                                      lp_pc := LpIdentifyWait delay\<rparr>))
      | Inr _ \<Rightarrow>
          (let s = s\<lparr>lp_error := None, lp_label := SlRunning, lp_backoffs := backoffs_reset (lp_backoffs s),
                     lp_offset := 0, lp_deleted := None, lp_running := True\<rparr>
           in if lo_delete_webhook_on_start (le_opts env) then s\<lparr>lp_pc := LpFirstDelete\<rparr> else lp_top env s))"

definition on_first_delete :: "'s lp_env \<Rightarrow> instant \<Rightarrow> api_error + unit \<Rightarrow> 's lp \<Rightarrow> 's lp" where
  "on_first_delete env now r s =
     lp_top env (case r of Inr _ \<Rightarrow> s\<lparr>lp_deleted := Some now\<rparr> | Inl err \<Rightarrow> lp_count err s)"

definition lp_waits :: "duration \<Rightarrow> 's lp \<Rightarrow> 's lp" where
  "lp_waits delay s =
     (let s = (if lp_running s then s\<lparr>lp_running := False, lp_label := SlBackoff\<rparr> else s)
      in s\<lparr>lp_pc := LpWait delay\<rparr>)"

definition lp_backs_off :: "(nat \<Rightarrow> nat) \<Rightarrow> api_error \<Rightarrow> 's lp \<Rightarrow> 's lp" where
  "lp_backs_off draw err s =
     (case backoffs_delay draw err (lp_backoffs s) of (delay, b) \<Rightarrow> lp_waits delay (s\<lparr>lp_backoffs := b\<rparr>))"

definition recover :: "'s lp_env \<Rightarrow> instant \<Rightarrow> (nat \<Rightarrow> nat) \<Rightarrow> api_error \<Rightarrow> 's lp \<Rightarrow> 's lp" where
  "recover env now draw err s0 =
     (let s = (lp_count err s0)\<lparr>lp_error := Some (''getUpdates'', err)\<rparr>;
          opts = le_opts env;
          other = (if is_fatal err (lo_local_upstream opts) then lp_leave (LpFatal ''getUpdates'' err) s
                   else lp_backs_off draw err s)
      in case err of
           ApiHttp status description _ \<Rightarrow>
             if status = 409 \<and> sublist ''webhook is active'' description then
               (if \<not> lo_delete_webhook_on_start opts then lp_waits (lo_conflict_backoff opts) s
                else if (case lp_deleted s of None \<Rightarrow> False | Some at \<Rightarrow> inst_since now at < WEBHOOK_REDELETE_GUARD)
                then lp_waits (lo_conflict_backoff opts) s
                else s\<lparr>lp_pc := LpRedelete\<rparr>)
             else if status = 409 \<and> sublist ''terminated by setWebhook'' description then lp_top env s
             else if status = 409 then lp_waits (lo_conflict_backoff opts) s
             else other
         | _ \<Rightarrow> other)"

definition on_redelete :: "'s lp_env \<Rightarrow> instant \<Rightarrow> (nat \<Rightarrow> nat) \<Rightarrow> api_error + unit \<Rightarrow> 's lp \<Rightarrow> 's lp" where
  "on_redelete env now draw r s =
     (case r of
        Inr _ \<Rightarrow> lp_top env (s\<lparr>lp_deleted := Some now\<rparr>)
      | Inl err \<Rightarrow> lp_backs_off draw err (lp_count err s))"

text \<open>An unreadable update is routed without facts; the reused buffer does not change what is read.\<close>

definition admit_facts :: "'s lp_env \<Rightarrow> bytes \<Rightarrow> facts" where
  "admit_facts env payload =
     (case fst (extract_facts (le_parse env) payload []) of Inr (_, f) \<Rightarrow> f | Inl _ \<Rightarrow> facts_default)"

text \<open>\<open>admit\<close>, up to the first update the sink pushes back: the rest of the batch.\<close>

fun lp_offer :: "'s lp_env \<Rightarrow> (int \<times> bytes) list \<Rightarrow> 's lp \<Rightarrow> (int \<times> bytes) list \<times> 's lp" where
  "lp_offer env [] s = ([], s)"
| "lp_offer env ((n, payload) # us) s =
     (case le_sink env n payload (admit_facts env payload) (lp_sink s) of
        (r, k) \<Rightarrow>
          (let s = s\<lparr>lp_sink := k\<rparr>
           in if r = ABackpressure then ((n, payload) # us, s)
              else lp_offer env us (s\<lparr>lp_taken := lp_taken s @ [(n, payload)], lp_offset := min (n + 1) I64_MAX\<rparr>)))"

definition after_offer :: "'s lp_env \<Rightarrow> (int \<times> bytes) list \<times> 's lp \<Rightarrow> 's lp" where
  "after_offer env p = (case p of (rest, s) \<Rightarrow> if rest = [] then lp_top env s else s\<lparr>lp_pc := LpAdmit rest\<rparr>)"

definition hold_drain :: "'s lp \<Rightarrow> 's lp" where
  "hold_drain s = s\<lparr>lp_empty := lp_empty s + 1, lp_pc := LpHold\<rparr>"

definition on_updates :: "'s lp_env \<Rightarrow> bool \<Rightarrow> (int \<times> bytes) list \<Rightarrow> 's lp \<Rightarrow> 's lp" where
  "on_updates env draining us s =
     (let s = s\<lparr>lp_backoffs := backoffs_reset (lp_backoffs s)\<rparr>;
          s = (if lp_running s then s else s\<lparr>lp_running := True, lp_error := None, lp_label := SlRunning\<rparr>)
      in if draining \<and> us = [] then hold_drain s else after_offer env (lp_offer env us s))"

definition on_polled ::
  "'s lp_env \<Rightarrow> instant \<Rightarrow> (nat \<Rightarrow> nat) \<Rightarrow> bool \<Rightarrow> api_error + (int \<times> bytes) list \<Rightarrow> 's lp \<Rightarrow> 's lp" where
  "on_polled env now draw draining r s =
     (case r of Inl err \<Rightarrow> recover env now draw err s | Inr us \<Rightarrow> on_updates env draining us s)"

text \<open>\<open>LongPollSource::drain\<close> begins, and is dropped before it returned.\<close>

definition drain_begin :: "'s lp \<Rightarrow> 's lp" where
  "drain_begin s = s\<lparr>lp_drain := True, lp_version := lp_version s + 1\<rparr>"

definition drain_resume :: "'s lp \<Rightarrow> 's lp" where
  "drain_resume s = s\<lparr>lp_drain := False, lp_version := lp_version s + 1\<rparr>"

section \<open>Steps\<close>

text \<open>The steps of the source but for a successful \<open>getUpdates\<close>.\<close>

inductive lp_step :: "'s lp_env \<Rightarrow> 's lp \<Rightarrow> 's lp \<Rightarrow> bool" for env :: "'s lp_env" and s :: "'s lp" where
  lp_starts: "lp_pc s = LpIdle \<or> lp_pc s = LpExited x \<Longrightarrow> lp_step env s (lp_run env s)"
| lp_cancelled: "lp_pc s \<noteq> LpIdle \<Longrightarrow> (\<And>x. lp_pc s \<noteq> LpExited x) \<Longrightarrow> lp_step env s (lp_leave LpDone s)"
| lp_identified: "lp_pc s = LpIdentify \<Longrightarrow> lp_step env s (on_identity env draw r s)"
| lp_retries: "lp_pc s = LpIdentifyWait d \<Longrightarrow> lp_step env s (s\<lparr>lp_pc := LpIdentify\<rparr>)"
| lp_first: "lp_pc s = LpFirstDelete \<Longrightarrow> lp_step env s (on_first_delete env now r s)"
| lp_failed: "lp_pc s = LpPoll dr v \<Longrightarrow> lp_step env s (on_polled env now draw dr (Inl err) s)"
| lp_drains: "lp_pc s = LpPoll False v \<Longrightarrow> v \<noteq> lp_version s \<Longrightarrow> lp_step env s (lp_top env s)"
| lp_offers: "lp_pc s = LpAdmit rest \<Longrightarrow> lp_step env s (after_offer env (lp_offer env rest s))"
| lp_resumes: "lp_pc s = LpHold \<Longrightarrow> \<not> lp_drain s \<Longrightarrow> lp_step env s (lp_top env s)"
| lp_redeleted: "lp_pc s = LpRedelete \<Longrightarrow> lp_step env s (on_redelete env now draw r s)"
| lp_waited: "lp_pc s = LpWait d \<Longrightarrow> lp_step env s (lp_top env s)"
| lp_drain_on: "lp_step env s (drain_begin s)"
| lp_drain_off: "lp_step env s (drain_resume s)"
| lp_sink_moves: "lp_step env s (s\<lparr>lp_sink := k\<rparr>)"

text \<open>
  The source with its server, as Telegram documents \<open>getUpdates\<close>: ids are positive and grow; a call
  with an offset confirms every update below it; the answer holds the earliest unconfirmed updates, in
  order, at least one if there is one. A request may reach the server late, or after the
  source gave it up.
\<close>

record 's lp_system =
  ls_source :: "'s lp"
  ls_arrived :: "(int \<times> bytes) list"
  ls_confirmed :: int
  ls_dry :: "(int \<times> bytes) list list"

definition ls_pending :: "int \<Rightarrow> (int \<times> bytes) list \<Rightarrow> (int \<times> bytes) list" where
  "ls_pending c us = filter (\<lambda>u. c \<le> fst u) us"

definition ls_answered :: "'s lp \<Rightarrow> int \<Rightarrow> 's lp_system \<Rightarrow> 's lp_system" where
  "ls_answered s c k =
     k\<lparr>ls_source := s, ls_confirmed := c,
       ls_dry := (if lp_empty s = lp_empty (ls_source k) then ls_dry k else ls_dry k @ [ls_arrived k])\<rparr>"

inductive ls_step :: "'s lp_env \<Rightarrow> 's lp_system \<Rightarrow> 's lp_system \<Rightarrow> bool" for env :: "'s lp_env" and k :: "'s lp_system" where
  ls_arrives: "0 < n \<Longrightarrow> n \<le> I64_MAX \<Longrightarrow> (\<And>u. u \<in> set (ls_arrived k) \<Longrightarrow> fst u < n) \<Longrightarrow>
    ls_step env k (k\<lparr>ls_arrived := ls_arrived k @ [(n, payload)]\<rparr>)"
| ls_reaches: "q \<in> set (lp_requests (ls_source k)) \<Longrightarrow> ls_step env k (k\<lparr>ls_confirmed := max (ls_confirmed k) (fst q)\<rparr>)"
| ls_answers: "lp_pc (ls_source k) = LpPoll dr v \<Longrightarrow> 0 < n \<Longrightarrow> c = max (ls_confirmed k) (lp_offset (ls_source k)) \<Longrightarrow>
    ls_step env k (ls_answered (on_polled env now draw dr (Inr (take n (ls_pending c (ls_arrived k)))) (ls_source k)) c k)"
| ls_source_step: "lp_step env (ls_source k) s \<Longrightarrow> ls_step env k (k\<lparr>ls_source := s\<rparr>)"

inductive ls_reach :: "'s lp_env \<Rightarrow> 's lp_system \<Rightarrow> bool" for env :: "'s lp_env" where
  ls_init: "ls_reach env \<lparr>ls_source = lp_new env k, ls_arrived = [], ls_confirmed = 0, ls_dry = []\<rparr>"
| ls_next: "ls_reach env k \<Longrightarrow> ls_step env k k' \<Longrightarrow> ls_reach env k'"

end
