(* ===== verification/Long_Poll_Props.thy ===== *)
theory Long_Poll_Props
  imports Long_Poll
begin

text \<open>
  Long polling loses nothing: an update is confirmed to the server only after the sink took it,
  through errors, conflicts, cancellations, restarts and drains.
\<close>

section \<open>What a step keeps\<close>

text \<open>
  The offsets in use stay as they are, or start at zero again; the updates taken stay; the source
  goes on admitting only where it was. Every step but an offer is of this kind.
\<close>

definition quiet :: "'s lp \<Rightarrow> 's lp \<Rightarrow> bool" where
  "quiet s s' \<longleftrightarrow> lp_taken s' = lp_taken s \<and> lp_empty s' = lp_empty s \<and> (lp_offset s' = lp_offset s \<or> lp_offset s' = 0) \<and>
     fst ` set (lp_requests s') \<subseteq> fst ` set (lp_requests s) \<union> {lp_offset s'} \<and>
     (\<forall>rest. lp_pc s' = LpAdmit rest \<longrightarrow> lp_pc s = LpAdmit rest)"

lemma quiet_top: "lp_taken s = lp_taken s0 \<Longrightarrow> lp_empty s = lp_empty s0 \<Longrightarrow> lp_offset s = lp_offset s0 \<or> lp_offset s = 0 \<Longrightarrow>
   lp_requests s = lp_requests s0 \<Longrightarrow> quiet s0 (lp_top env s)"
  by (auto simp: quiet_def lp_top_def)

lemma count_frame [simp]:
  "lp_taken (lp_count err s) = lp_taken s" "lp_empty (lp_count err s) = lp_empty s" "lp_offset (lp_count err s) = lp_offset s"
  "lp_requests (lp_count err s) = lp_requests s" "lp_pc (lp_count err s) = lp_pc s"
  by (simp_all add: lp_count_def split: option.splits)

lemma waits_frame [simp]:
  "lp_taken (lp_waits d s) = lp_taken s" "lp_empty (lp_waits d s) = lp_empty s" "lp_offset (lp_waits d s) = lp_offset s"
  "lp_requests (lp_waits d s) = lp_requests s" "lp_pc (lp_waits d s) = LpWait d"
  by (simp_all add: lp_waits_def Let_def)

lemma backs_off_frame [simp]:
  "lp_taken (lp_backs_off draw err s) = lp_taken s" "lp_empty (lp_backs_off draw err s) = lp_empty s"
  "lp_offset (lp_backs_off draw err s) = lp_offset s" "lp_requests (lp_backs_off draw err s) = lp_requests s"
  "lp_pc (lp_backs_off draw err s) \<noteq> LpAdmit rest"
  by (simp_all add: lp_backs_off_def split_beta)

lemma quiet_same:
  "lp_taken s' = lp_taken s \<Longrightarrow> lp_empty s' = lp_empty s \<Longrightarrow> lp_offset s' = lp_offset s \<or> lp_offset s' = 0 \<Longrightarrow>
   lp_requests s' = lp_requests s \<Longrightarrow> (\<And>rest. lp_pc s' \<noteq> LpAdmit rest) \<Longrightarrow> quiet s s'"
  by (auto simp: quiet_def)

lemma recover_quiet: "quiet s (recover env now draw err s)"
proof -
  let ?s = "(lp_count err s)\<lparr>lp_error := Some (''getUpdates'', err)\<rparr>"
  have "quiet s (lp_waits d ?s)" for d by (rule quiet_same) simp_all
  moreover have "quiet s (lp_backs_off draw err ?s)" by (rule quiet_same) simp_all
  moreover have "quiet s (lp_leave x ?s)" for x by (rule quiet_same) (simp_all add: lp_leave_def)
  moreover have "quiet s (lp_top env ?s)" by (rule quiet_top) simp_all
  moreover have "quiet s (?s\<lparr>lp_pc := LpRedelete\<rparr>)" by (rule quiet_same) simp_all
  ultimately show ?thesis by (auto simp: recover_def Let_def split: api_error.splits)
qed

lemma identity_quiet: "quiet s (on_identity env draw r s)"
proof (cases r)
  case (Inl err)
  then show ?thesis by (intro quiet_same) (auto simp: on_identity_def Let_def lp_leave_def split_beta)
next
  case (Inr x)
  then show ?thesis
    by (cases "lo_delete_webhook_on_start (le_opts env)")
      (auto simp: on_identity_def Let_def intro!: quiet_top quiet_same)
qed

lemma lp_step_cases:
  assumes "lp_step env s s'"
  shows "quiet s s' \<or> (\<exists>rest. lp_pc s = LpAdmit rest \<and> s' = after_offer env (lp_offer env rest s))"
  using assms
proof cases
  case (lp_identified draw r)
  with identity_quiet show ?thesis by blast
next
  case (lp_first now r)
  then show ?thesis by (auto simp: on_first_delete_def intro!: quiet_top split: sum.splits)
next
  case (lp_failed dr v now draw err)
  with recover_quiet show ?thesis by (simp add: on_polled_def) blast
next
  case (lp_redeleted now draw r)
  then show ?thesis by (auto simp: on_redelete_def intro!: quiet_top quiet_same split: sum.splits)
qed (auto simp: quiet_def lp_run_def lp_leave_def lp_top_def drain_begin_def drain_resume_def)

section \<open>The invariant\<close>

text \<open>An offset is safe when every update below it is taken; it is never past the updates that arrived.\<close>

definition safe_offset :: "(int \<times> bytes) list \<Rightarrow> (int \<times> bytes) set \<Rightarrow> int \<Rightarrow> bool" where
  "safe_offset arrived took n \<longleftrightarrow>
     (\<forall>u \<in> set arrived. fst u < n \<longrightarrow> u \<in> took) \<and> (n \<le> 0 \<or> (\<exists>u \<in> set arrived. n \<le> fst u + 1))"

text \<open>The batch being admitted is next in what arrived: all before it is taken.\<close>

definition next_batch :: "(int \<times> bytes) list \<Rightarrow> (int \<times> bytes) set \<Rightarrow> (int \<times> bytes) list \<Rightarrow> bool" where
  "next_batch arrived took us \<longleftrightarrow> (\<exists>pre post. arrived = pre @ us @ post \<and> set pre \<subseteq> took)"

definition arrivals_ok :: "(int \<times> bytes) list \<Rightarrow> bool" where
  "arrivals_ok arrived \<longleftrightarrow> sorted_wrt (<) (map fst arrived) \<and> (\<forall>u \<in> set arrived. 0 < fst u \<and> fst u \<le> I64_MAX)"

definition ls_inv :: "'s lp_system \<Rightarrow> bool" where
  "ls_inv k \<longleftrightarrow>
     arrivals_ok (ls_arrived k) \<and> set (lp_taken (ls_source k)) \<subseteq> set (ls_arrived k) \<and>
     (\<forall>n \<in> {ls_confirmed k, lp_offset (ls_source k)} \<union> fst ` set (lp_requests (ls_source k)).
        safe_offset (ls_arrived k) (set (lp_taken (ls_source k))) n) \<and>
     (\<forall>rest. lp_pc (ls_source k) = LpAdmit rest \<longrightarrow> next_batch (ls_arrived k) (set (lp_taken (ls_source k))) rest) \<and>
     (\<forall>us \<in> set (ls_dry k). set us \<subseteq> set (lp_taken (ls_source k)))"

lemma safe_mono: "safe_offset arrived took n \<Longrightarrow> took \<subseteq> took' \<Longrightarrow> safe_offset arrived took' n"
  by (auto simp: safe_offset_def)

lemma safe_max: "safe_offset arrived took m \<Longrightarrow> safe_offset arrived took n \<Longrightarrow> safe_offset arrived took (max m n)"
  by (simp add: max_def)

lemma safe_arrival:
  "safe_offset arrived took n \<Longrightarrow> 0 < i \<Longrightarrow> (\<And>u. u \<in> set arrived \<Longrightarrow> fst u < i) \<Longrightarrow> safe_offset (arrived @ [(i, p)]) took n"
  unfolding safe_offset_def by fastforce

lemma safe_zero: "arrivals_ok arrived \<Longrightarrow> safe_offset arrived took 0"
  by (fastforce simp: safe_offset_def arrivals_ok_def)

lemma ls_inv_safe:
  assumes inv: "ls_inv k" and n: "n \<in> {0, ls_confirmed k, lp_offset (ls_source k)} \<union> fst ` set (lp_requests (ls_source k))"
  shows "safe_offset (ls_arrived k) (set (lp_taken (ls_source k))) n"
proof (cases "n = 0")
  case True
  then show ?thesis using inv safe_zero by (simp add: ls_inv_def)
next
  case False
  with n have "n \<in> {ls_confirmed k, lp_offset (ls_source k)} \<union> fst ` set (lp_requests (ls_source k))" by blast
  with inv show ?thesis unfolding ls_inv_def by (elim conjE) (drule (1) bspec)
qed

lemma ls_inv_dry: "ls_inv k \<Longrightarrow> us \<in> set (ls_dry k) \<Longrightarrow> set us \<subseteq> set (lp_taken (ls_source k))"
  by (simp add: ls_inv_def)

text \<open>Taking the next update moves the offset past it and no further.\<close>

lemma safe_taken:
  assumes ok: "arrivals_ok arrived" and b: "arrived = pre @ (i, p) # post" and t: "set pre \<subseteq> took"
  shows "safe_offset arrived (insert (i, p) took) (min (i + 1) I64_MAX)"
proof -
  have "u \<in> insert (i, p) took" if u: "u \<in> set arrived" "fst u < min (i + 1) I64_MAX" for u
  proof -
    have "fst u \<le> i" using u(2) by simp
    moreover have "i < fst v" if "v \<in> set post" for v
      using ok that by (auto simp: arrivals_ok_def b sorted_wrt_append)
    ultimately have "u \<notin> set post" by fastforce
    then show ?thesis using u(1) t by (auto simp: b)
  qed
  moreover have "\<exists>u \<in> set arrived. min (i + 1) I64_MAX \<le> fst u + 1" by (auto simp: b)
  ultimately show ?thesis by (auto simp: safe_offset_def)
qed

lemma offer_spec:
  assumes "lp_offer env us s = (rest, s')" and "arrivals_ok arrived" and "next_batch arrived (set (lp_taken s)) us"
    and "safe_offset arrived (set (lp_taken s)) (lp_offset s)"
  shows "(\<exists>done. us = done @ rest \<and> lp_taken s' = lp_taken s @ done) \<and> next_batch arrived (set (lp_taken s')) rest \<and>
    safe_offset arrived (set (lp_taken s')) (lp_offset s') \<and> lp_requests s' = lp_requests s \<and> lp_empty s' = lp_empty s"
  using assms(1,3,4)
proof (induction env us s arbitrary: rest s' rule: lp_offer.induct)
  case (2 env n payload us s)
  obtain r k where k: "le_sink env n payload (admit_facts env payload) (lp_sink s) = (r, k)" by fastforce
  show ?case
  proof (cases "r = ABackpressure")
    case True
    then show ?thesis using 2(2-4) k by auto
  next
    case False
    let ?s = "s\<lparr>lp_sink := k, lp_taken := lp_taken s @ [(n, payload)], lp_offset := min (n + 1) I64_MAX\<rparr>"
    have o: "lp_offer env us ?s = (rest, s')" using 2(2) k False by simp
    obtain pre post where b: "arrived = pre @ (n, payload) # us @ post" "set pre \<subseteq> set (lp_taken s)"
      using 2(3) by (auto simp: next_batch_def)
    then have "next_batch arrived (set (lp_taken ?s)) us" unfolding next_batch_def
      by (intro exI [of _ "pre @ [(n, payload)]"] exI [of _ post]) auto
    moreover have "safe_offset arrived (set (lp_taken ?s)) (lp_offset ?s)"
      using safe_taken [OF assms(2) b] by simp
    ultimately have "(\<exists>done. us = done @ rest \<and> lp_taken s' = lp_taken ?s @ done) \<and> next_batch arrived (set (lp_taken s')) rest \<and>
        safe_offset arrived (set (lp_taken s')) (lp_offset s') \<and> lp_requests s' = lp_requests ?s \<and> lp_empty s' = lp_empty ?s"
      using 2(1) [OF k [symmetric] refl False] o by simp
    then show ?thesis by auto
  qed
qed auto

text \<open>Admitting the next batch keeps the invariant, whether the sink takes it all or pushes back.\<close>

lemma after_offer_inv:
  assumes inv: "ls_inv k" and src: "ls_source k = s0" and nb: "next_batch (ls_arrived k) (set (lp_taken s)) us"
    and s: "lp_taken s = lp_taken s0" "lp_offset s = lp_offset s0" "lp_requests s = lp_requests s0" "lp_empty s = lp_empty s0"
  shows "ls_inv (k\<lparr>ls_source := after_offer env (lp_offer env us s)\<rparr>) \<and> lp_empty (after_offer env (lp_offer env us s)) = lp_empty s0"
proof -
  let ?arr = "ls_arrived k"
  obtain rest s1 where o: "lp_offer env us s = (rest, s1)" by fastforce
  have ok: "arrivals_ok ?arr" and sf: "safe_offset ?arr (set (lp_taken s)) (lp_offset s)"
    using inv by (simp_all add: ls_inv_def src s)
  from offer_spec [OF o ok nb sf] obtain dn where d: "us = dn @ rest" "lp_taken s1 = lp_taken s @ dn"
    and n: "next_batch ?arr (set (lp_taken s1)) rest" "safe_offset ?arr (set (lp_taken s1)) (lp_offset s1)"
      "lp_requests s1 = lp_requests s" "lp_empty s1 = lp_empty s" by blast
  let ?s2 = "after_offer env (lp_offer env us s)"
  have f: "lp_taken ?s2 = lp_taken s1" "lp_offset ?s2 = lp_offset s1" "lp_empty ?s2 = lp_empty s0"
    "fst ` set (lp_requests ?s2) \<subseteq> insert (lp_offset s1) (fst ` set (lp_requests s0))"
    "\<And>r. lp_pc ?s2 = LpAdmit r \<Longrightarrow> r = rest"
    unfolding o after_offer_def using n(3,4) s by (auto simp: lp_top_def split: if_splits)
  have mono: "set (lp_taken s0) \<subseteq> set (lp_taken s1)" using d(2) s(1) by auto
  have "set dn \<subseteq> set ?arr" using nb d(1) by (auto simp: next_batch_def)
  then have "set (lp_taken s1) \<subseteq> set ?arr" using inv d(2) by (auto simp: ls_inv_def src s(1))
  moreover have "safe_offset ?arr (set (lp_taken s1)) m"
    if "m \<in> {ls_confirmed k, lp_offset s1} \<union> fst ` set (lp_requests ?s2)" for m
  proof (cases "m = lp_offset s1")
    case False
    then have "m \<in> {ls_confirmed k} \<union> fst ` set (lp_requests s0)" using that f(4) by auto
    then have "safe_offset ?arr (set (lp_taken s0)) m" using ls_inv_safe [OF inv, of m] src by auto
    then show ?thesis by (rule safe_mono [OF _ mono])
  qed (use n(2) in simp)
  moreover have "set v \<subseteq> set (lp_taken s1)" if "v \<in> set (ls_dry k)" for v
    using ls_inv_dry [OF inv that] mono src by (meson subset_trans)
  ultimately show ?thesis using ok n(1) f unfolding ls_inv_def by auto
qed

lemma quiet_inv:
  assumes inv: "ls_inv k" and q: "quiet (ls_source k) s"
  shows "ls_inv (k\<lparr>ls_source := s\<rparr>)"
proof -
  have f: "lp_taken s = lp_taken (ls_source k)" "lp_offset s \<in> {0, lp_offset (ls_source k)}"
    "fst ` set (lp_requests s) \<subseteq> fst ` set (lp_requests (ls_source k)) \<union> {lp_offset s}"
    "\<And>rest. lp_pc s = LpAdmit rest \<Longrightarrow> lp_pc (ls_source k) = LpAdmit rest"
    using q by (auto simp: quiet_def)
  have sub: "{ls_confirmed k, lp_offset s} \<union> fst ` set (lp_requests s)
      \<subseteq> {0, ls_confirmed k, lp_offset (ls_source k)} \<union> fst ` set (lp_requests (ls_source k))"
    using f(2,3) by auto
  have "safe_offset (ls_arrived k) (set (lp_taken (ls_source k))) n"
    if "n \<in> {ls_confirmed k, lp_offset s} \<union> fst ` set (lp_requests s)" for n
    by (rule ls_inv_safe [OF inv subsetD [OF sub that]])
  then show ?thesis using inv f(1,4) unfolding ls_inv_def by auto
qed

lemma pending_suffix:
  assumes ok: "arrivals_ok arrived"
  obtains pre where "arrived = pre @ ls_pending c arrived" "\<And>u. u \<in> set pre \<Longrightarrow> fst u < c"
proof -
  have "\<exists>pre. us = pre @ filter (\<lambda>u. c \<le> fst u) us \<and> (\<forall>u \<in> set pre. fst u < c)" if "sorted_wrt (<) (map fst us)" for us :: "(int \<times> bytes) list"
    using that
  proof (induction us)
    case (Cons u us)
    show ?case
    proof (cases "c \<le> fst u")
      case True
      then have "filter (\<lambda>u. c \<le> fst u) us = us" using Cons.prems by (intro filter_True) force
      with True show ?thesis by auto
    next
      case False
      from Cons obtain pre where "us = pre @ filter (\<lambda>u. c \<le> fst u) us" "\<forall>u \<in> set pre. fst u < c" by auto
      with False show ?thesis by (intro exI [of _ "u # pre"]) auto
    qed
  qed simp
  from this [of arrived] ok that show thesis unfolding ls_pending_def arrivals_ok_def by blast
qed

section \<open>Every step keeps the invariant\<close>

lemma arrives_inv:
  assumes inv: "ls_inv k" and n: "0 < n" "n \<le> I64_MAX" "\<And>u. u \<in> set (ls_arrived k) \<Longrightarrow> fst u < n"
  shows "ls_inv (k\<lparr>ls_arrived := ls_arrived k @ [(n, payload)]\<rparr>)"
proof -
  let ?took = "set (lp_taken (ls_source k))"
  have "arrivals_ok (ls_arrived k @ [(n, payload)])"
    using inv n by (auto simp: ls_inv_def arrivals_ok_def sorted_wrt_append)
  moreover have "safe_offset (ls_arrived k @ [(n, payload)]) ?took m"
    if "m \<in> {ls_confirmed k, lp_offset (ls_source k)} \<union> fst ` set (lp_requests (ls_source k))" for m
    by (rule safe_arrival [OF ls_inv_safe [OF inv] n(1) n(3)]) (use that in auto)
  moreover have "next_batch (ls_arrived k @ [(n, payload)]) ?took rest" if "next_batch (ls_arrived k) ?took rest" for rest
  proof -
    from that obtain pre post where "ls_arrived k = pre @ rest @ post" "set pre \<subseteq> ?took" unfolding next_batch_def by blast
    then show ?thesis unfolding next_batch_def by (intro exI [of _ pre] exI [of _ "post @ [(n, payload)]"]) simp
  qed
  ultimately show ?thesis using inv unfolding ls_inv_def by auto
qed

lemma confirmed_inv:
  assumes "ls_inv k" and "safe_offset (ls_arrived k) (set (lp_taken (ls_source k))) c"
  shows "ls_inv (k\<lparr>ls_confirmed := c\<rparr>)"
  using assms by (simp add: ls_inv_def)

text \<open>An empty answer to a draining poll: everything that arrived is taken.\<close>

lemma hold_inv:
  assumes inv: "ls_inv k" and all: "set (ls_arrived k) \<subseteq> set (lp_taken (ls_source k))"
    and s: "lp_taken s = lp_taken (ls_source k)" "lp_offset s = lp_offset (ls_source k)" "lp_requests s = lp_requests (ls_source k)"
  shows "ls_inv (k\<lparr>ls_source := hold_drain s, ls_dry := ls_dry k @ [ls_arrived k]\<rparr>)"
proof -
  have "set us \<subseteq> set (lp_taken (ls_source k))" if "us \<in> set (ls_dry k @ [ls_arrived k])" for us
    using that all ls_inv_dry [OF inv] by auto
  then show ?thesis using inv s unfolding ls_inv_def hold_drain_def by simp
qed

definition polled :: "'s lp \<Rightarrow> 's lp" where
  "polled s = (let s = s\<lparr>lp_backoffs := backoffs_reset (lp_backoffs s)\<rparr>
               in if lp_running s then s else s\<lparr>lp_running := True, lp_error := None, lp_label := SlRunning\<rparr>)"

lemma polled_frame [simp]:
  "lp_taken (polled s) = lp_taken s" "lp_offset (polled s) = lp_offset s" "lp_requests (polled s) = lp_requests s"
  "lp_empty (polled s) = lp_empty s"
  by (simp_all add: polled_def Let_def)

lemma on_updates_polled:
  "on_updates env dr us s = (if dr \<and> us = [] then hold_drain (polled s) else after_offer env (lp_offer env us (polled s)))"
  by (simp add: on_updates_def polled_def Let_def)

lemma answers_inv:
  assumes inv: "ls_inv k" and n: "0 < n" and c: "c = max (ls_confirmed k) (lp_offset (ls_source k))"
  shows "ls_inv (ls_answered (on_polled env now draw dr (Inr (take n (ls_pending c (ls_arrived k)))) (ls_source k)) c k)"
proof -
  let ?arr = "ls_arrived k" and ?s = "ls_source k" and ?k = "k\<lparr>ls_confirmed := c\<rparr>"
  let ?us = "take n (ls_pending c ?arr)"
  have ok: "arrivals_ok ?arr" using inv by (simp add: ls_inv_def)
  have sc: "safe_offset ?arr (set (lp_taken ?s)) c"
    unfolding c by (rule safe_max; rule ls_inv_safe [OF inv]) auto
  from confirmed_inv [OF inv sc] have inv': "ls_inv ?k" .
  obtain pre where pre: "?arr = pre @ ls_pending c ?arr" "\<And>u. u \<in> set pre \<Longrightarrow> fst u < c" by (rule pending_suffix [OF ok]) blast
  have took: "set pre \<subseteq> set (lp_taken ?s)"
  proof
    fix u assume u: "u \<in> set pre"
    then have "u \<in> set ?arr" by (subst pre(1)) simp
    with sc pre(2) [OF u] show "u \<in> set (lp_taken ?s)" by (simp add: safe_offset_def)
  qed
  show ?thesis
  proof (cases "dr \<and> ?us = []")
    case True
    then have "ls_pending c ?arr = []" using n by (cases "ls_pending c ?arr"; cases n) auto
    then have all: "set ?arr \<subseteq> set (lp_taken ?s)" using pre(1) took by simp
    have "ls_inv (?k\<lparr>ls_source := hold_drain (polled ?s), ls_dry := ls_dry ?k @ [ls_arrived ?k]\<rparr>)"
      by (rule hold_inv [OF inv']) (use all in simp_all)
    moreover have "ls_answered (on_polled env now draw dr (Inr ?us) ?s) c k =
        ?k\<lparr>ls_source := hold_drain (polled ?s), ls_dry := ls_dry ?k @ [ls_arrived ?k]\<rparr>"
      using True by (simp add: ls_answered_def on_polled_def on_updates_polled hold_drain_def)
    ultimately show ?thesis by simp
  next
    case False
    have nb: "next_batch ?arr (set (lp_taken ?s)) ?us" unfolding next_batch_def
      by (intro exI [of _ pre] exI [of _ "drop n (ls_pending c ?arr)"]) (use pre(1) took in simp)
    let ?s' = "after_offer env (lp_offer env ?us (polled ?s))"
    have i: "ls_inv (?k\<lparr>ls_source := ?s'\<rparr>) \<and> lp_empty ?s' = lp_empty ?s"
      by (rule after_offer_inv [OF inv']) (use nb in simp_all)
    have "ls_answered (on_polled env now draw dr (Inr ?us) ?s) c k = ?k\<lparr>ls_source := ?s'\<rparr>"
      unfolding on_polled_def sum.case on_updates_polled if_not_P [OF False] ls_answered_def using i by simp
    with i show ?thesis by simp
  qed
qed

lemma ls_step_inv: "ls_step env k k' \<Longrightarrow> ls_inv k \<Longrightarrow> ls_inv k'"
proof (induction rule: ls_step.cases)
  case (ls_arrives n payload)
  from arrives_inv [OF ls_arrives(5,2,3,4)] ls_arrives(1) show ?case by blast
next
  case (ls_reaches q)
  then have "safe_offset (ls_arrived k) (set (lp_taken (ls_source k))) (max (ls_confirmed k) (fst q))"
    by (intro safe_max; intro ls_inv_safe) auto
  then show ?case using ls_reaches confirmed_inv by blast
next
  case (ls_answers dr v n c now draw)
  then show ?case using answers_inv by blast
next
  case (ls_source_step s)
  then consider "quiet (ls_source k) s"
    | rest where "lp_pc (ls_source k) = LpAdmit rest" "s = after_offer env (lp_offer env rest (ls_source k))"
    using lp_step_cases by blast
  then show ?case
  proof cases
    case 1
    then show ?thesis using quiet_inv ls_source_step by blast
  next
    case 2
    then have "next_batch (ls_arrived k) (set (lp_taken (ls_source k))) rest" using ls_source_step by (simp add: ls_inv_def)
    from after_offer_inv [OF ls_source_step(3) refl this refl refl refl refl] 2 ls_source_step show ?thesis by blast
  qed
qed

lemma ls_reach_inv: "ls_reach env k \<Longrightarrow> ls_inv k"
proof (induction rule: ls_reach.induct)
  case (ls_init k)
  show ?case by (simp add: ls_inv_def lp_new_def arrivals_ok_def safe_offset_def)
qed (rule ls_step_inv)


text \<open>
  A sink with room for one update, two updates: the second is pushed back, still unconfirmed, and is
  taken when there is room again; then a drain finds nothing left.
\<close>

definition demo_lp_env :: "nat lp_env" where
  "demo_lp_env =
     \<lparr>le_opts = \<lparr>lo_timeout = 30, lo_limit = 100, lo_allowed_updates = [], lo_delete_webhook_on_start = False,
        lo_backoff = (1, 2, 0), lo_local_upstream = False, lo_conflict_backoff = 5, lo_admit_retry = 1\<rparr>,
      le_sink = (\<lambda>_ _ _ room. if room = 0 then (ABackpressure, 0) else (Admitted, room - 1)),
      le_parse = (\<lambda>_. None)\<rparr>"

definition demo_sent_two :: "nat lp_system" where
  "demo_sent_two = \<lparr>ls_source = lp_new demo_lp_env 1, ls_arrived = [(5, ''a''), (6, ''b'')], ls_confirmed = 0, ls_dry = []\<rparr>"

definition demo_polls :: "nat lp" where
  "demo_polls = on_identity demo_lp_env (\<lambda>_. 0) (Inr ()) (lp_run demo_lp_env (ls_source demo_sent_two))"

definition demo_pushed_back :: "nat lp_system" where
  "demo_pushed_back =
     (let k = demo_sent_two\<lparr>ls_source := demo_polls\<rparr>
      in ls_answered (on_polled demo_lp_env 0 (\<lambda>_. 0) False (Inr (take 2 (ls_pending 0 (ls_arrived k)))) (ls_source k)) 0 k)"

definition demo_took_all :: "nat lp" where
  "demo_took_all = after_offer demo_lp_env (lp_offer demo_lp_env [(6, ''b'')] (ls_source demo_pushed_back\<lparr>lp_sink := 1\<rparr>))"

definition demo_dry :: "nat lp_system" where
  "demo_dry =
     (let k = demo_pushed_back\<lparr>ls_source := lp_top demo_lp_env (drain_begin demo_took_all)\<rparr>
      in ls_answered (on_polled demo_lp_env 0 (\<lambda>_. 0) True (Inr (take 100 (ls_pending 7 (ls_arrived k)))) (ls_source k)) 7 k)"

lemma demo_two_reached: "ls_reach demo_lp_env demo_sent_two"
proof -
  let ?k = "\<lambda>us. \<lparr>ls_source = lp_new demo_lp_env 1, ls_arrived = us, ls_confirmed = 0, ls_dry = []\<rparr>"
  have "ls_reach demo_lp_env (?k [])" by (rule ls_init)
  from ls_next [OF this ls_arrives [of 5 "?k []" demo_lp_env "''a''"]]
  have "ls_reach demo_lp_env (?k [(5, ''a'')])" by (simp add: I64_MAX_def)
  from ls_next [OF this ls_arrives [of 6 "?k [(5, ''a'')]" demo_lp_env "''b''"]]
  show ?thesis by (simp add: I64_MAX_def demo_sent_two_def)
qed

lemma ls_next_source: "ls_reach env k \<Longrightarrow> lp_step env (ls_source k) s \<Longrightarrow> ls_reach env (k\<lparr>ls_source := s\<rparr>)"
  by (erule ls_next) (rule ls_source_step)

lemma demo_back_reached: "ls_reach demo_lp_env demo_pushed_back"
proof -
  have "ls_reach demo_lp_env (demo_sent_two\<lparr>ls_source := lp_run demo_lp_env (ls_source demo_sent_two)\<rparr>)"
    by (rule ls_next_source [OF demo_two_reached]) (rule lp_starts, simp add: demo_sent_two_def lp_new_def)
  from ls_next_source [OF this lp_identified [of _ demo_lp_env "\<lambda>_. 0" "Inr ()"]]
  have k: "ls_reach demo_lp_env (demo_sent_two\<lparr>ls_source := demo_polls\<rparr>)"
    by (simp add: lp_run_def demo_polls_def demo_sent_two_def)
  have "lp_pc demo_polls = LpPoll False 0" "lp_offset demo_polls = 0" by code_simp+
  then show ?thesis unfolding demo_pushed_back_def Let_def
    by (intro ls_next [OF k] ls_answers) (simp_all add: demo_sent_two_def)
qed

lemma demo_dry_reached: "ls_reach demo_lp_env demo_dry"
proof -
  have pc: "lp_pc (ls_source demo_pushed_back) = LpAdmit [(6, ''b'')]" by code_simp
  have "ls_reach demo_lp_env (demo_pushed_back\<lparr>ls_source := (ls_source demo_pushed_back)\<lparr>lp_sink := 1\<rparr>\<rparr>)"
    by (rule ls_next_source [OF demo_back_reached lp_sink_moves])
  from ls_next_source [OF this lp_offers [of _ "[(6, ''b'')]"]] pc
  have "ls_reach demo_lp_env (demo_pushed_back\<lparr>ls_source := demo_took_all\<rparr>)" by (simp add: demo_took_all_def)
  from ls_next_source [OF this lp_drain_on]
  have d: "ls_reach demo_lp_env (demo_pushed_back\<lparr>ls_source := drain_begin demo_took_all\<rparr>)" by simp
  have "lp_pc (drain_begin demo_took_all) = LpPoll False 0" "lp_version (drain_begin demo_took_all) = 1" by code_simp+
  with ls_next_source [OF d lp_drains]
  have k: "ls_reach demo_lp_env (demo_pushed_back\<lparr>ls_source := lp_top demo_lp_env (drain_begin demo_took_all)\<rparr>)" by simp
  have "lp_pc (lp_top demo_lp_env (drain_begin demo_took_all)) = LpPoll True 1"
    "lp_offset (lp_top demo_lp_env (drain_begin demo_took_all)) = 7" "ls_confirmed demo_pushed_back = 0" by code_simp+
  then show ?thesis unfolding demo_dry_def Let_def
    by (intro ls_next [OF k] ls_answers) simp_all
qed


end
