(* ===== verification/Facts_Text.thy ===== *)
theory Facts_Text
  imports Facts_Extract
begin

text \<open>
  The text of an update: decoding the contents of a JSON string under a cap, against the characters it
  was written from, and the command at its start, against the characters of the text.
\<close>

section \<open>UTF-8\<close>

definition utf8_of :: "nat list \<Rightarrow> string" where "utf8_of cs = concat (map encode_utf8 cs)"

lemma utf8_of_simps [simp]:
  "utf8_of [] = []" "utf8_of (c # cs) = encode_utf8 c @ utf8_of cs" "utf8_of (cs @ ds) = utf8_of cs @ utf8_of ds"
  by (simp_all add: utf8_of_def)

lemma continuation_iff: "is_continuation (char_of n) \<longleftrightarrow> 128 \<le> n mod 256 \<and> n mod 256 < 192" for n :: nat
  by (simp add: is_continuation_def)

lemma encode_len: "length (encode_utf8 c) = (if c < 128 then 1 else if c < 2048 then 2 else if c < 65536 then 3 else 4)"
  by (simp add: encode_utf8_def)

lemma encode_ne [simp]: "encode_utf8 c \<noteq> []"
  by (simp add: encode_utf8_def)

lemma scalar_lt: "is_scalar c \<Longrightarrow> c < 1114112"
  by (simp add: is_scalar_def)

lemma encode_head: "c < 1114112 \<Longrightarrow> \<not> is_continuation (hd (encode_utf8 c))"
  by (auto simp: encode_utf8_def continuation_iff)

lemma encode_tail:
  assumes "b \<in> set (tl (encode_utf8 c))"
  shows "is_continuation b"
proof -
  have k: "is_continuation (char_of (128 + n mod 64))" for n :: nat
  proof -
    have "n mod 64 < 64" by simp
    then have "(128 + n mod 64) mod 256 = 128 + n mod 64" by (intro mod_less) simp
    then show ?thesis using \<open>n mod 64 < 64\<close> by (simp add: continuation_iff del: mod_less)
  qed
  from assms show ?thesis by (auto simp: encode_utf8_def k split: if_splits)
qed

lemma encode_width:
  assumes "c < 1114112"
  shows "char_width (hd (encode_utf8 c)) = length (encode_utf8 c)"
  using assms by (auto simp: encode_utf8_def char_width_def Let_def)

lemma continuation_high: "is_continuation b \<Longrightarrow> 128 \<le> (of_char b :: nat)"
  by (simp add: is_continuation_def)

lemma encode_ascii:
  assumes "c < 1114112" "b \<in> set (encode_utf8 c)" "(of_char b :: nat) < 128"
  shows "c = of_char b"
proof -
  have "b \<notin> set (tl (encode_utf8 c))" using encode_tail continuation_high assms(3) by fastforce
  then have b: "b = hd (encode_utf8 c)" using assms(2) by (cases "encode_utf8 c") auto
  show ?thesis using assms(1,3) unfolding b by (auto simp: encode_utf8_def split: if_splits)
qed

lemma div_mod_eqI: "c div k = d div k \<Longrightarrow> c mod k = d mod k \<Longrightarrow> c = d" for c d k :: nat
  by (metis mult_div_mod_eq)

lemma encode_inj:
  assumes "encode_utf8 c = encode_utf8 d" "c < 1114112" "d < 1114112"
  shows "c = d"
proof -
  have e: "map (of_char :: char \<Rightarrow> nat) (encode_utf8 c) = map of_char (encode_utf8 d)" using assms(1) by simp
  have len: "length (encode_utf8 c) = length (encode_utf8 d)" using assms(1) by simp
  consider "c < 128" "d < 128" | "128 \<le> c" "c < 2048" "128 \<le> d" "d < 2048"
    | "2048 \<le> c" "c < 65536" "2048 \<le> d" "d < 65536" | "65536 \<le> c" "65536 \<le> d"
    using len by (auto simp: encode_len split: if_splits)
  then show ?thesis
  proof cases
    case 1
    then show ?thesis using e by (simp add: encode_utf8_def)
  next
    case 2
    then have "c div 64 = d div 64" "c mod 64 = d mod 64" using e by (auto simp: encode_utf8_def)
    then show ?thesis by (rule div_mod_eqI)
  next
    case 3
    then have "c div 4096 = d div 4096" "c div 64 mod 64 = d div 64 mod 64" "c mod 64 = d mod 64"
      using e by (auto simp: encode_utf8_def)
    then show ?thesis
      by (intro div_mod_eqI [of c 64 d] div_mod_eqI [of "c div 64" 64 "d div 64"]) (simp_all add: div_mult2_eq [symmetric])
  next
    case 4
    then have "c div 262144 = d div 262144" "c div 4096 mod 64 = d div 4096 mod 64" "c div 64 mod 64 = d div 64 mod 64"
      "c mod 64 = d mod 64" using e assms(2,3) by (auto simp: encode_utf8_def)
    then show ?thesis
      by (intro div_mod_eqI [of c 64 d] div_mod_eqI [of "c div 64" 64 "d div 64"]
          div_mod_eqI [of "c div 64 div 64" 64 "d div 64 div 64"]) (simp_all add: div_mult2_eq [symmetric])
  qed
qed

lemma encode_prefix_free:
  assumes "encode_utf8 c @ x = encode_utf8 d @ y" "c < 1114112" "d < 1114112"
  shows "c = d \<and> x = y"
proof -
  have "hd (encode_utf8 c) = hd (encode_utf8 d)" using assms(1) by (metis encode_ne hd_append2)
  then have "length (encode_utf8 c) = length (encode_utf8 d)" using encode_width assms(2,3) by metis
  then have "encode_utf8 c = encode_utf8 d" "x = y" using assms(1) by simp_all
  then show ?thesis using encode_inj assms(2,3) by blast
qed

section \<open>Cutting on a char boundary\<close>

text \<open>The longest start of a text whose UTF-8 fits.\<close>

fun fitting :: "nat \<Rightarrow> nat list \<Rightarrow> nat list" where
  "fitting room [] = []"
| "fitting room (c # cs) =
     (if length (encode_utf8 c) \<le> room then c # fitting (room - length (encode_utf8 c)) cs else [])"

lemma fitting_length: "length (utf8_of (fitting room cs)) \<le> room"
proof (induction cs arbitrary: room)
  case (Cons c cs)
  from Cons [of "room - length (encode_utf8 c)"] show ?case by auto
qed simp

lemma fitting_all: "length (utf8_of cs) \<le> room \<Longrightarrow> fitting room cs = cs"
  by (induction cs arbitrary: room) auto

lemma fitting_append_all:
  "length (utf8_of ps) \<le> room \<Longrightarrow> fitting room (ps @ qs) = ps @ fitting (room - length (utf8_of ps)) qs"
  by (induction ps arbitrary: room) auto

lemma fitting_append_part: "room < length (utf8_of ps) \<Longrightarrow> fitting room (ps @ qs) = fitting room ps"
  by (induction ps arbitrary: room) auto

lemma fitting_split:
  obtains rest where "cs = fitting room cs @ rest"
    "\<And>c ds. rest = c # ds \<Longrightarrow> room < length (utf8_of (fitting room cs)) + length (encode_utf8 c)"
proof -
  have "\<exists>rest. cs = fitting room cs @ rest \<and>
      (\<forall>c ds. rest = c # ds \<longrightarrow> room < length (utf8_of (fitting room cs)) + length (encode_utf8 c))"
    by (induction cs arbitrary: room) force+
  then show thesis using that by blast
qed

lemma floor_end_greatest:
  "floor_end s i \<le> i \<and> is_char_boundary s (floor_end s i) \<and> (\<forall>j \<le> i. is_char_boundary s j \<longrightarrow> j \<le> floor_end s i)"
proof (induction i)
  case 0
  then show ?case by (simp add: is_char_boundary_def)
next
  case (Suc i)
  then show ?case by (auto simp: le_Suc_eq)
qed

lemma floor_str_fitting:
  assumes sc: "list_all is_scalar cs"
  shows "floor_str (utf8_of cs) limit = utf8_of (fitting limit cs)"
proof (cases "length (utf8_of cs) \<le> limit")
  case True
  then show ?thesis by (simp add: floor_str_def fitting_all)
next
  case False
  let ?s = "utf8_of cs" and ?f = "fitting limit cs"
  let ?m = "length (utf8_of ?f)"
  obtain rest where r: "cs = ?f @ rest" "\<And>c ds. rest = c # ds \<Longrightarrow> limit < ?m + length (encode_utf8 c)"
    by (rule fitting_split [of cs limit]) blast
  have "rest \<noteq> []" using r(1) False fitting_length [of limit cs] by auto
  then obtain c ds where c: "rest = c # ds" by (cases rest) auto
  have s: "?s = utf8_of ?f @ encode_utf8 c @ utf8_of ds" by (subst r(1)) (simp add: c)
  have at: "?s ! (?m + i) = encode_utf8 c ! i" if "i < length (encode_utf8 c)" for i
    using that by (subst s) (simp add: nth_append)
  have sc': "c < 1114112" using sc r(1) c by (metis in_set_conv_decomp list_all_iff scalar_lt)
  have "is_char_boundary ?s ?m" using at [of 0] encode_head [OF sc'] s by (simp add: is_char_boundary_def hd_conv_nth)
  then have "?m \<le> floor_end ?s limit" using floor_end_greatest fitting_length by blast
  moreover have "\<not> is_char_boundary ?s j" if j: "?m < j" "j \<le> limit" for j
  proof -
    obtain i where i: "j = ?m + i" "0 < i" using j(1) less_imp_add_positive by blast
    then have "i < length (encode_utf8 c)" using r(2) [OF c] j(2) by simp
    then have "encode_utf8 c ! i \<in> set (tl (encode_utf8 c))" using i(2) by (cases "encode_utf8 c"; cases i) auto
    then have "is_continuation (?s ! j)" using at [OF \<open>i < _\<close>] i(1) encode_tail by simp
    then show ?thesis using j False by (auto simp: is_char_boundary_def)
  qed
  ultimately have "floor_end ?s limit = ?m" using floor_end_greatest [of ?s limit] by (metis le_neq_implies_less)
  then show ?thesis using False s by (simp add: floor_str_def)
qed

section \<open>What a JSON string is written from\<close>

definition hex_unit :: "string \<Rightarrow> nat \<Rightarrow> bool" where
  "hex_unit h u \<longleftrightarrow> length h = 4 \<and> list_all (\<lambda>b. hex_digit_value b \<noteq> None) h \<and> hex_value h = u"

definition SHORT :: "(char \<times> nat) list" where
  "SHORT = [(CHR 0x22, 34), (CHR 0x5C, 92), (CHR ''/'', 47), (CHR ''b'', 8), (CHR ''f'', 12), (CHR ''n'', 10),
     (CHR ''r'', 13), (CHR ''t'', 9)]"

text \<open>An escape, what it stands for and what follows it: a lone surrogate stands for U+FFFD.\<close>

inductive json_escape :: "string \<Rightarrow> nat \<Rightarrow> string \<Rightarrow> bool" for s :: string where
  short: "(b, c) \<in> set SHORT \<Longrightarrow> json_escape s c [b]"
| unit: "hex_unit h u \<Longrightarrow> is_scalar u \<Longrightarrow> json_escape s u (CHR ''u'' # h)"
| pair: "hex_unit h u \<Longrightarrow> hex_unit l v \<Longrightarrow> is_high u \<Longrightarrow> is_low v \<Longrightarrow>
    json_escape s (pair_char u v) (CHR ''u'' # h @ CHR 0x5C # CHR ''u'' # l)"
| lone: "hex_unit h u \<Longrightarrow> is_low u \<or> is_high u \<and> (case Option.bind (strip_prefix [CHR 0x5C, CHR ''u''] s) hex4 of
      None \<Rightarrow> True | Some v \<Rightarrow> \<not> is_low v) \<Longrightarrow> json_escape s REPLACEMENT_CHARACTER (CHR ''u'' # h)"

inductive json_written :: "nat list \<Rightarrow> string \<Rightarrow> bool" where
  jw_nil: "json_written [] []"
| jw_plain: "is_scalar c \<Longrightarrow> c \<noteq> 92 \<Longrightarrow> json_written cs s \<Longrightarrow> json_written (c # cs) (encode_utf8 c @ s)"
| jw_escape: "json_escape s c e \<Longrightarrow> json_written cs s \<Longrightarrow> json_written (c # cs) (CHR 0x5C # e @ s)"

lemma hex4_unit:
  assumes "hex_unit h u" and "s = [] \<or> \<not> is_continuation (hd s)"
  shows "hex4 (h @ s) = Some u"
proof -
  have "is_char_boundary (h @ s) 4"
    using assms by (cases s) (auto simp: is_char_boundary_def hex_unit_def nth_append)
  then show ?thesis using assms(1) by (simp add: hex4_def str_get_def hex_unit_def)
qed

lemma hex_digit_lt: "hex_digit_value b = Some n \<Longrightarrow> n < 16"
  by (auto simp: hex_digit_value_def Let_def split: if_splits)

lemma hex_unit_lt:
  assumes "hex_unit h u"
  shows "u < 65536"
proof -
  have "fold (\<lambda>b n. 16 * n + the (hex_digit_value b)) h m < 16 ^ length h * (m + 1)"
    if "list_all (\<lambda>b. hex_digit_value b \<noteq> None) h" for h m
    using that
  proof (induction h arbitrary: m)
    case (Cons b h)
    then obtain d where d: "hex_digit_value b = Some d" "d < 16" using hex_digit_lt by fastforce
    have "fold (\<lambda>b n. 16 * n + the (hex_digit_value b)) h (16 * m + d) < 16 ^ length h * (16 * m + d + 1)"
      using Cons by simp
    also have "\<dots> \<le> 16 ^ length h * (16 * (m + 1))" using d(2) by (intro mult_le_mono2) simp
    finally show ?case using d(1) by (simp add: algebra_simps)
  qed simp
  from this [of h 0] assms show ?thesis by (simp add: hex_unit_def hex_value_def)
qed

lemma escape_one:
  assumes "json_escape s c e" and s: "s = [] \<or> \<not> is_continuation (hd s)"
  shows "unescape_one (e @ s) = (c, s) \<and> length (encode_utf8 c) \<le> length e \<and> is_scalar c"
  using assms(1)
proof cases
  case (short b)
  then show ?thesis by (auto simp: SHORT_def unescape_one_def char_width_def encode_len is_scalar_def)
next
  case (unit h)
  then have "\<not> is_high c" "length h = 4" by (auto simp: is_high_def is_scalar_def hex_unit_def)
  then show ?thesis using unit hex4_unit [OF unit(2) s] hex_unit_lt [OF unit(2)]
    by (simp add: unescape_one_def char_width_def unescape_unicode_def Let_def from_unit_def encode_len)
next
  case (pair h u l v)
  let ?t = "CHR 0x5C # CHR ''u'' # l @ s"
  have "hex4 (h @ ?t) = Some u" by (rule hex4_unit [OF pair(3)]) (simp add: is_continuation_def)
  moreover have "strip_prefix [CHR 0x5C, CHR ''u''] ?t = Some (l @ s)" by (simp add: strip_prefix_Some_iff)
  moreover have "hex4 (l @ s) = Some v" by (rule hex4_unit [OF pair(4) s])
  moreover have "length h = 4" "length l = 4" using pair(3,4) by (simp_all add: hex_unit_def)
  moreover have "pair_char u v < 1114112" "65536 \<le> pair_char u v"
    using pair(5,6) unfolding pair_char_def is_high_def is_low_def by (linarith, simp)
  ultimately show ?thesis using pair(1,2,5,6)
    by (simp add: unescape_one_def char_width_def unescape_unicode_def Let_def encode_len is_scalar_def)
next
  case (lone h u)
  then have "\<not> is_scalar u" "length h = 4" by (auto simp: is_high_def is_low_def is_scalar_def hex_unit_def)
  moreover have "\<not> is_high u" if "is_low u" using that by (simp add: is_high_def is_low_def)
  ultimately show ?thesis using lone hex4_unit [OF lone(3) s]
    by (auto simp: unescape_one_def char_width_def unescape_unicode_def Let_def from_unit_def encode_len
        REPLACEMENT_CHARACTER_def is_scalar_def split: option.splits)
qed

lemma written_head: "json_written cs s \<Longrightarrow> s = [] \<or> \<not> is_continuation (hd s)"
proof (induction rule: json_written.induct)
  case (jw_plain c cs s)
  from encode_head [OF scalar_lt [OF jw_plain(1)]] show ?case by simp
qed (simp_all add: is_continuation_def)

lemma written_plain:
  assumes "json_written cs s"
  obtains ps qs t where "cs = ps @ qs" "s = utf8_of ps @ t" "list_all is_scalar ps" "92 \<notin> set ps" "qs = []" "t = []"
  | ps c qs e t where "cs = ps @ c # qs" "s = utf8_of ps @ CHR 0x5C # e @ t" "list_all is_scalar ps" "92 \<notin> set ps"
      "json_escape t c e" "json_written qs t"
proof -
  have "\<exists>ps. list_all is_scalar ps \<and> 92 \<notin> set ps \<and> (cs = ps \<and> s = utf8_of ps \<or>
      (\<exists>c qs e t. cs = ps @ c # qs \<and> s = utf8_of ps @ CHR 0x5C # e @ t \<and> json_escape t c e \<and> json_written qs t))"
    using assms
  proof (induction rule: json_written.induct)
    case (jw_plain c cs s)
    from jw_plain.IH obtain ps where ps: "list_all is_scalar ps" "92 \<notin> set ps" "cs = ps \<and> s = utf8_of ps \<or>
      (\<exists>d qs e t. cs = ps @ d # qs \<and> s = utf8_of ps @ CHR 0x5C # e @ t \<and> json_escape t d e \<and> json_written qs t)" by blast
    with jw_plain(1,2) show ?case by (intro exI [of _ "c # ps"]) auto
  next
    case (jw_escape s c e cs)
    then show ?case by (intro exI [of _ "[]"]) auto
  qed (intro exI [of _ "[]"], simp)
  then show thesis using that by auto
qed

lemma plain_no_backslash:
  assumes "list_all is_scalar ps" "92 \<notin> set ps"
  shows "CHR 0x5C \<notin> set (utf8_of ps)"
proof
  assume "CHR 0x5C \<in> set (utf8_of ps)"
  then obtain c where c: "c \<in> set ps" "CHR 0x5C \<in> set (encode_utf8 c)" by (auto simp: utf8_of_def)
  then have "c < 1114112" using assms(1) by (auto simp: list_all_iff intro: scalar_lt)
  from encode_ascii [OF this c(2)] c(1) assms(2) show False by simp
qed

section \<open>Decoding\<close>

lemma unescape_loop_written:
  assumes "json_written cs s" and "start \<le> length out" and "length out - start \<le> limit"
  shows "unescape_loop limit start s out = out @ utf8_of (fitting (limit - (length out - start)) cs)"
  using assms
proof (induction "length s" arbitrary: cs s out rule: less_induct)
  case less
  let ?room = "limit - (length out - start)"
  show ?case
  proof (cases rule: written_plain [OF less(2)])
    case (1 ps qs t)
    note nb = plain_no_backslash [OF 1(3,4)]
    have tw: "takeWhile (\<lambda>b. b \<noteq> CHR 0x5C) s = utf8_of ps" "dropWhile (\<lambda>b. b \<noteq> CHR 0x5C) s = []"
      using nb 1(2,6) by (auto simp: takeWhile_eq_all_conv dropWhile_eq_Nil_conv)
    have sp: "s = utf8_of ps" "cs = ps" using 1(1,2,5,6) by simp_all
    show ?thesis
    proof (cases "?room < length (utf8_of ps)")
      case True
      then have "s \<noteq> []" using sp(1) by auto
      with True show ?thesis
        unfolding unescape_loop.simps [of limit start s out] tw Let_def sp(2) by (simp add: floor_str_fitting [OF 1(3)])
    next
      case False
      then show ?thesis unfolding unescape_loop.simps [of limit start s out] tw Let_def sp(2)
        using sp(1) by (simp add: fitting_all)
    qed
  next
    case (2 ps c qs e t)
    note nb = plain_no_backslash [OF 2(3,4)]
    have tw: "takeWhile (\<lambda>b. b \<noteq> CHR 0x5C) s = utf8_of ps" "dropWhile (\<lambda>b. b \<noteq> CHR 0x5C) s = CHR 0x5C # e @ t"
      using nb unfolding 2(2) by (subst takeWhile_append2 dropWhile_append2; auto)+
    have ne: "s \<noteq> []" using 2(2) by simp
    have one: "unescape_one (e @ t) = (c, t)" "length (encode_utf8 c) \<le> length e"
      using escape_one [OF 2(5) written_head [OF 2(6)]] by simp_all
    show ?thesis
    proof (cases "?room < length (utf8_of ps)")
      case True
      then show ?thesis using ne unfolding unescape_loop.simps [of limit start s out] tw Let_def 2(1)
        by (simp add: floor_str_fitting [OF 2(3)] fitting_append_part)
    next
      case False
      let ?out = "out @ utf8_of ps"
      have room: "limit - (length ?out - start) = ?room - length (utf8_of ps)" using less(3) by simp
      have f: "fitting ?room cs = ps @ fitting (?room - length (utf8_of ps)) (c # qs)"
        unfolding 2(1) by (rule fitting_append_all) (use False in simp)
      show ?thesis
      proof (cases "limit - (length ?out - start) < length (encode_utf8 c)")
        case True
        then show ?thesis using ne one False f room unfolding unescape_loop.simps [of limit start s out] tw Let_def by simp
      next
        case fits: False
        let ?out' = "?out @ encode_utf8 c"
        have "length t < length s" using 2(2) by simp
        then have "unescape_loop limit start t ?out' = ?out' @ utf8_of (fitting (limit - (length ?out' - start)) qs)"
          by (rule less(1) [OF _ 2(6)]) (use less(3,4) False fits in auto)
        moreover have "limit - (length ?out' - start) = ?room - length (utf8_of ps) - length (encode_utf8 c)"
          using less(3) by simp
        ultimately show ?thesis using ne one False fits f room
          unfolding unescape_loop.simps [of limit start s out] tw Let_def by simp
      qed
    qed
  qed
qed

lemma written_length: "json_written cs s \<Longrightarrow> length (utf8_of cs) \<le> length s"
  by (induction rule: json_written.induct) (use escape_one written_head in fastforce)+

text \<open>
  C17. Decoding the contents of a JSON string gives the longest start of the text it was written from that
  fits the limit in UTF-8, whatever was escaped and how, surrogate pairs joined and lone surrogates as U+FFFD;
  it appends to the buffer at most the limit and no more bytes than the source has (the room it
  reserved), and the text stays readable when the buffer grows later.
\<close>

theorem text_decoded:
  assumes "json_written cs inner"
  shows "case unescape_text inner limit out of (t, out') \<Rightarrow>
    resolve (out' @ later) t = utf8_of (fitting limit cs) \<and>
    (\<exists>app. out' = out @ app \<and> length app \<le> min (length inner) limit)"
proof (cases "CHR 0x5C \<in> set inner")
  case True
  let ?app = "utf8_of (fitting limit cs)"
  have l: "unescape_loop limit (length out) inner out = out @ ?app"
    using unescape_loop_written [OF assms, of "length out" out limit] by simp
  obtain rest where "cs = fitting limit cs @ rest" by (rule fitting_split [of cs limit]) blast
  then have "length ?app \<le> length (utf8_of cs)" by (metis utf8_of_simps(3) length_append le_add1)
  then have "length ?app \<le> min (length inner) limit" using written_length [OF assms] fitting_length [of limit cs] by simp
  then show ?thesis using True by (simp add: unescape_text_def l)
next
  case False
  then have "\<exists>ps. cs = ps \<and> inner = utf8_of ps \<and> list_all is_scalar ps"
    by (cases rule: written_plain [OF assms]) auto
  then show ?thesis using False by (auto simp: unescape_text_def floor_str_fitting)
qed

theorem text_decoded_witness:
  "unescape_text (''a'' @ CHR 0x5C # ''u00e9'' @ CHR 0x5C # ''ud83d'' @ CHR 0x5C # ''ude00'') 6 [] =
     (DecodedAt 0 3, utf8_of [97, 233]) \<and>
   resolve (utf8_of [97, 233]) (DecodedAt 0 3) = utf8_of (fitting 6 [97, 233, 128512]) \<and>
   resolve (utf8_of [97, 233, 128512]) (DecodedAt 0 7) = utf8_of (fitting 7 [97, 233, 128512])"
proof -
  let ?inner = "encode_utf8 97 @ CHR 0x5C # (CHR ''u'' # ''00e9'') @
    CHR 0x5C # (CHR ''u'' # ''d83d'' @ CHR 0x5C # CHR ''u'' # ''de00'') @ []"
  have h: "hex_unit ''00e9'' 233" "hex_unit ''d83d'' 55357" "hex_unit ''de00'' 56832" by code_simp+
  have p: "json_escape [] (pair_char 55357 56832) (CHR ''u'' # ''d83d'' @ CHR 0x5C # CHR ''u'' # ''de00'')"
    by (rule json_escape.pair [OF h(2,3)]) (simp_all add: is_high_def is_low_def)
  then have "json_escape [] 128512 (CHR ''u'' # ''d83d'' @ CHR 0x5C # CHR ''u'' # ''de00'')" by (simp add: pair_char_def)
  from jw_escape [OF json_escape.unit [OF h(1)] jw_escape [OF this jw_nil]]
  have w: "json_written [97, 233, 128512] ?inner" by (intro jw_plain) (simp_all add: is_scalar_def)
  have e: "?inner = ''a'' @ CHR 0x5C # ''u00e9'' @ CHR 0x5C # ''ud83d'' @ CHR 0x5C # ''ude00''" by code_simp
  have r: "unescape_text ?inner 6 [] = (DecodedAt 0 3, utf8_of [97, 233])"
    "unescape_text ?inner 7 [] = (DecodedAt 0 7, utf8_of [97, 233, 128512])" by code_simp+
  from text_decoded [OF w, of "[]" 6 "[]"] text_decoded [OF w, of "[]" 7 "[]"] show ?thesis unfolding r e [symmetric]
    by (simp add: r)
qed

section \<open>Commands\<close>

definition command_token :: "nat list \<Rightarrow> string" where
  "command_token cs = utf8_of (takeWhile (\<lambda>c. c \<notin> set WHITE) (tl cs))"

text \<open>The command of a text: what follows its leading slash up to white space, split at the first \<open>@\<close>.\<close>

definition command_of :: "nat list \<Rightarrow> (string \<times> string option) option" where
  "command_of cs =
     (if cs = [] \<or> hd cs \<noteq> 47 then None
      else (case split_once CHR ''@'' (command_token cs) of
              Some (name, to) \<Rightarrow> Some (name, Some to) | None \<Rightarrow> Some (command_token cs, None)))"

lemma white_scalar: "w \<in> set WHITE \<Longrightarrow> w < 1114112"
proof -
  have "list_all (\<lambda>w. w < 1114112) WHITE" by code_simp
  then show "w \<in> set WHITE \<Longrightarrow> w < 1114112" by (simp add: list_all_iff)
qed

lemma starts_white_char:
  assumes "c < 1114112"
  shows "starts_white (encode_utf8 c @ s) \<longleftrightarrow> c \<in> set WHITE"
proof -
  have "w = c" if "w \<in> set WHITE" "prefix (encode_utf8 w) (encode_utf8 c @ s)" for w
    using that encode_prefix_free [OF _ white_scalar assms] unfolding prefix_def by metis
  moreover have "prefix (encode_utf8 c) (encode_utf8 c @ s)" by simp
  ultimately show ?thesis unfolding starts_white_def list_ex_iff by blast
qed

lemma starts_white_continuation:
  assumes "is_continuation b"
  shows "\<not> starts_white (b # s)"
proof
  assume "starts_white (b # s)"
  then obtain w where w: "w \<in> set WHITE" "prefix (encode_utf8 w) (b # s)" by (auto simp: starts_white_def list_ex_iff)
  then have "hd (encode_utf8 w) = b" by (cases "encode_utf8 w") auto
  with encode_head [OF white_scalar [OF w(1)]] assms show False by simp
qed

lemma find_whitespace_skip:
  "list_all is_continuation xs \<Longrightarrow> find_whitespace (xs @ s) = map_option (\<lambda>i. length xs + i) (find_whitespace s)"
  by (induction xs; cases "find_whitespace s") (simp_all add: starts_white_continuation)

lemma find_whitespace_chars:
  assumes "list_all is_scalar cs"
  shows "(case find_whitespace (utf8_of cs) of None \<Rightarrow> length (utf8_of cs) | Some i \<Rightarrow> i) =
    length (utf8_of (takeWhile (\<lambda>c. c \<notin> set WHITE) cs))"
  using assms
proof (induction cs)
  case (Cons c cs)
  obtain b xs where b: "encode_utf8 c = b # xs" by (cases "encode_utf8 c") auto
  have t: "list_all is_continuation xs" using encode_tail [of _ c] b by (auto simp: list_all_iff)
  have sw: "starts_white (b # xs @ utf8_of cs) \<longleftrightarrow> c \<in> set WHITE"
    using starts_white_char [of c "utf8_of cs"] Cons.prems b scalar_lt by simp
  show ?case
  proof (cases "c \<in> set WHITE")
    case True
    then show ?thesis using sw b by simp
  next
    case False
    then have "find_whitespace (utf8_of (c # cs)) = map_option (\<lambda>i. length (encode_utf8 c) + i) (find_whitespace (utf8_of cs))"
      using sw find_whitespace_skip [OF t] b by (simp add: option.map_comp comp_def)
    then show ?thesis using Cons False by (simp split: option.splits)
  qed
qed simp

lemma utf8_prefix:
  assumes "utf8_of ds = utf8_of as @ q" "list_all is_scalar ds" "list_all is_scalar as"
  shows "q = [] \<or> \<not> is_continuation (hd q)"
  using assms
proof (induction as arbitrary: ds)
  case Nil
  then show ?case by (cases ds) (auto simp: encode_head scalar_lt)
next
  case (Cons c as)
  then obtain d ds' where d: "ds = d # ds'" by (cases ds) auto
  then have "utf8_of ds' = utf8_of as @ q"
    using encode_prefix_free [of d "utf8_of ds'" c "utf8_of as @ q"] Cons.prems scalar_lt by simp
  then show ?case using Cons d by simp
qed

lemma slash_char:
  assumes "list_all is_scalar cs"
  shows "strip_prefix ''/'' (utf8_of cs) = (if cs \<noteq> [] \<and> hd cs = 47 then Some (utf8_of (tl cs)) else None)"
proof (cases cs)
  case (Cons c cs')
  then have c: "c < 1114112" using assms scalar_lt by simp
  have s47: "encode_utf8 47 = ''/''" by code_simp
  show ?thesis
  proof (cases "c = 47")
    case True
    then show ?thesis using Cons s47 strip_prefix_append [of "''/''" "utf8_of cs'"] by simp
  next
    case False
    have "encode_utf8 c @ utf8_of cs' \<noteq> ''/'' @ r" for r
      using encode_prefix_free [OF _ c, of "utf8_of cs'" 47 r] False s47 by auto
    then have "strip_prefix ''/'' (utf8_of cs) = None" using Cons
      by (metis strip_prefix_Some_iff not_None_eq utf8_of_simps(2))
    then show ?thesis using False Cons by simp
  qed
qed (simp add: strip_prefix_def)

text \<open>Of the ways to write the leading slash at most one starts a text.\<close>

lemma slashes_exclusive:
  assumes "slash \<in> set SLASHES"
  shows "List.map_filter (\<lambda>sl. strip_prefix sl (slash @ after)) SLASHES = [after]"
  using assms by (auto simp: SLASHES_def List.map_filter_def strip_prefix_def)

lemma no_slash: "(\<And>slash. slash \<in> set SLASHES \<Longrightarrow> \<not> prefix slash raw) \<Longrightarrow> List.map_filter (\<lambda>sl. strip_prefix sl raw) SLASHES = []"
proof -
  assume a: "\<And>slash. slash \<in> set SLASHES \<Longrightarrow> \<not> prefix slash raw"
  have "strip_prefix sl raw = None" if "sl \<in> set SLASHES" for sl
    using a [OF that] by (cases "strip_prefix sl raw") (auto simp: strip_prefix_Some_iff)
  then show ?thesis unfolding List.map_filter_def by (simp add: filter_empty_conv)
qed

lemma slash_ascii: "slash \<in> set SLASHES \<Longrightarrow> \<exists>cs. slash = utf8_of cs \<and> list_all is_scalar cs"
proof -
  assume s: "slash \<in> set SLASHES"
  have "list_all (\<lambda>slash. list_all is_scalar (map of_char slash) \<and> utf8_of (map of_char slash) = slash) SLASHES" by code_simp
  with s show ?thesis unfolding list_all_iff by (intro exI [of _ "map of_char slash"]) simp
qed

lemma escaped_token:
  assumes ds: "list_all is_scalar ds" and tk: "tok = utf8_of ts" "list_all is_scalar ts"
  shows "(case List.map_filter (\<lambda>slash. strip_prefix slash (utf8_of ds)) SLASHES of
      [] \<Rightarrow> None
    | after # _ \<Rightarrow> Option.bind (str_get after (length tok)) (\<lambda>t. if t = tok then Some t else None)) =
    (if list_ex (\<lambda>slash. prefix (slash @ tok) (utf8_of ds)) SLASHES then Some tok else None)"
proof (cases "\<exists>slash \<in> set SLASHES. prefix slash (utf8_of ds)")
  case False
  then have "\<not> list_ex (\<lambda>slash. prefix (slash @ tok) (utf8_of ds)) SLASHES"
    by (auto simp: list_ex_iff dest: append_prefixD)
  with False show ?thesis by (simp add: no_slash)
next
  case True
  then obtain slash after where sl: "slash \<in> set SLASHES" "utf8_of ds = slash @ after" by (auto simp: prefix_def)
  note mf = slashes_exclusive [OF sl(1), of after, folded sl(2)]
  have only: "prefix (sl' @ tok) (utf8_of ds) \<longleftrightarrow> sl' = slash \<and> prefix tok after" if sl': "sl' \<in> set SLASHES" for sl'
  proof (cases "sl' = slash")
    case True
    then show ?thesis using sl(2) by simp
  next
    case other: False
    have "\<not> prefix sl' (utf8_of ds)"
    proof
      assume "prefix sl' (utf8_of ds)"
      then obtain x where x: "utf8_of ds = sl' @ x" by (auto simp: prefix_def)
      have "sl' = slash" using sl sl' x by (auto simp: SLASHES_def)
      with other show False by simp
    qed
    then show ?thesis using other append_prefixD by blast
  qed
  show ?thesis
  proof (cases "prefix tok after")
    case True
    then obtain q where q: "after = tok @ q" by (auto simp: prefix_def)
    obtain ss where ss: "slash = utf8_of ss" "list_all is_scalar ss" using slash_ascii [OF sl(1)] by blast
    have "utf8_of ds = utf8_of (ss @ ts) @ q" using sl(2) q ss(1) tk(1) by simp
    from utf8_prefix [OF this ds] ss(2) tk(2) have "q = [] \<or> \<not> is_continuation (hd q)" by simp
    then have "str_get after (length tok) = Some tok"
      by (cases q) (auto simp: str_get_def is_char_boundary_def q nth_append)
    then show ?thesis using mf only sl(1) True by (auto simp: list_ex_iff)
  next
    case False
    then have "take (length tok) after \<noteq> tok" by (metis take_is_prefix)
    then show ?thesis using mf only False by (auto simp: list_ex_iff str_get_def)
  qed
qed

text \<open>
  C6. A command is read exactly: the token after the leading slash up to white space of any kind, split
  at its first \<open>@\<close>, of the decoded text; from a text with escapes it is read only where its source, after
  any way to write the slash, holds the token as it is.
\<close>

theorem command_exact:
  assumes "list_all is_scalar cs" and "list_all is_scalar ds"
  shows "command (utf8_of cs) escaped (utf8_of ds) =
    (if escaped \<and> \<not> list_ex (\<lambda>slash. prefix (slash @ command_token cs) (utf8_of ds)) SLASHES then None else command_of cs)"
proof (cases "cs \<noteq> [] \<and> hd cs = 47")
  case False
  then show ?thesis unfolding command_def slash_char [OF assms(1)] if_not_P [OF False] by (auto simp: command_of_def)
next
  case True
  let ?ts = "takeWhile (\<lambda>c. c \<notin> set WHITE) (tl cs)" and ?rest = "utf8_of (tl cs)"
  have sc: "list_all is_scalar (tl cs)" "list_all is_scalar ?ts"
    using assms(1) True by (cases cs; auto simp: list_all_iff dest: set_takeWhileD)+
  have tok: "take (length (command_token cs)) ?rest = command_token cs"
    unfolding command_token_def by (metis append_eq_conv_conj takeWhile_dropWhile_id utf8_of_simps(3))
  have c: "cs = 47 # tl cs" using True by (cases cs) auto
  have tx: "utf8_of cs = CHR ''/'' # ?rest"
  proof -
    have "encode_utf8 47 = ''/''" by code_simp
    then show ?thesis by (subst c) simp
  qed
  have len: "(case find_whitespace ?rest of None \<Rightarrow> length ?rest | Some i \<Rightarrow> i) = length (command_token cs)"
    using find_whitespace_chars [OF sc(1)] by (simp add: command_token_def)
  have plain: "(if is_char_boundary (utf8_of cs) 1 then map_option (drop 1) (str_get (utf8_of cs) (1 + length (command_token cs)))
      else None) = Some (command_token cs)"
  proof -
    let ?q = "utf8_of (dropWhile (\<lambda>c. c \<notin> set WHITE) (tl cs))"
    have r: "?rest = command_token cs @ ?q" unfolding command_token_def by (metis takeWhile_dropWhile_id utf8_of_simps(3))
    have b1: "?rest = [] \<or> \<not> is_continuation (hd ?rest)" using utf8_prefix [of "tl cs" "[]" ?rest] sc by simp
    have b2: "?q = [] \<or> \<not> is_continuation (hd ?q)" using utf8_prefix [of "tl cs" ?ts ?q] sc r by (simp add: command_token_def)
    have "is_char_boundary (utf8_of cs) 1" using b1 by (cases ?rest) (auto simp: is_char_boundary_def tx)
    moreover have "is_char_boundary (utf8_of cs) (1 + length (command_token cs))"
      using b2 by (cases ?q) (auto simp: is_char_boundary_def tx r nth_append)
    ultimately show ?thesis using tok by (simp add: str_get_def tx)
  qed
  show ?thesis unfolding command_def slash_char [OF assms(1)] Let_def if_P [OF True] option.case len plain tok
    using escaped_token [OF assms(2) command_token_def sc(2)] True by (cases escaped) (simp_all add: command_of_def)
qed

text \<open>An escaped slash and an escape after the command; then an escape within it.\<close>

definition demo_points :: "string \<Rightarrow> nat list" where "demo_points = map of_char"

theorem command_exact_witness:
  "command (utf8_of (demo_points ''/start@bot hi'')) True
     (utf8_of (demo_points (CHR 0x5C # ''/start@bot '' @ CHR 0x5C # ''u0068i''))) = Some (''start'', Some ''bot'') \<and>
   command (utf8_of (demo_points ''/start'')) True (utf8_of (demo_points (''/st'' @ CHR 0x5C # ''u0061rt''))) = None"
proof -
  let ?cs = "demo_points ''/start@bot hi''" and ?ds = "demo_points (CHR 0x5C # ''/start@bot '' @ CHR 0x5C # ''u0068i'')"
  let ?cs' = "demo_points ''/start''" and ?ds' = "demo_points (''/st'' @ CHR 0x5C # ''u0061rt'')"
  have s: "list_all is_scalar ?cs" "list_all is_scalar ?ds" "list_all is_scalar ?cs'" "list_all is_scalar ?ds'" by code_simp+
  have "list_ex (\<lambda>slash. prefix (slash @ command_token ?cs) (utf8_of ?ds)) SLASHES" by code_simp
  moreover have "command_of ?cs = Some (''start'', Some ''bot'')" by code_simp
  moreover have "\<not> list_ex (\<lambda>slash. prefix (slash @ command_token ?cs') (utf8_of ?ds')) SLASHES" by code_simp
  ultimately show ?thesis unfolding command_exact [OF s(1,2)] command_exact [OF s(3,4)] by simp
qed

end
