(* ===== verification/Facts_Props.thy ===== *)
theory Facts_Props
  imports Facts_Text
begin

text \<open>
  What the visitors read: the last value of each key, of the first named object of the update, against lookups in the
  tree.
\<close>

section \<open>Lookups in the tree\<close>

text \<open>The last entry of a key.\<close>

fun last_field :: "string \<Rightarrow> json_fields \<Rightarrow> (string option \<times> json_value) option" where
  "last_field k [] = None"
| "last_field k (((_, k'), x) # es) = (case last_field k es of Some y \<Rightarrow> Some y | None \<Rightarrow> if k' = Some k then Some x else None)"

definition as_i64 :: "json_value \<Rightarrow> int option" where
  "as_i64 v =
     (case v of
        JNumber (Some (JI64 i)) \<Rightarrow> Some i
      | JNumber (Some (JU64 n)) \<Rightarrow> if int n \<le> I64_MAX then Some (int n) else None
      | _ \<Rightarrow> None)"

definition as_chat_type :: "json_value \<Rightarrow> chat_type option" where
  "as_chat_type v =
     (case v of
        JString (_, Some s) \<Rightarrow>
          Some (if s = ''private'' then Private else if s = ''group'' then Group
                else if s = ''supergroup'' then Supergroup else if s = ''channel'' then Channel else Other)
      | _ \<Rightarrow> None)"

definition as_object :: "json_value \<Rightarrow> json_fields option" where
  "as_object v = (case v of JObject es \<Rightarrow> Some es | _ \<Rightarrow> None)"

definition at_key :: "string \<Rightarrow> (json_value \<Rightarrow> 'a option) \<Rightarrow> json_fields \<Rightarrow> 'a option" where
  "at_key k f es = Option.bind (last_field k es) (\<lambda>x. f (snd x))"

definition chat_at :: "json_fields \<Rightarrow> json_fields option" where
  "chat_at = at_key ''chat'' as_object"

text \<open>The first entry with a name and an object for a value.\<close>

fun first_object :: "json_fields \<Rightarrow> (string \<times> json_fields) option" where
  "first_object [] = None"
| "first_object (((borrowed, k), _, v) # es) =
     (case Option.bind k (\<lambda>k. case top_key_of borrowed k of TopName n \<Rightarrow> map_option (Pair n) (as_object v) | _ \<Rightarrow> None) of
        Some x \<Rightarrow> Some x
      | None \<Rightarrow> first_object es)"

definition chat_of :: "string \<Rightarrow> json_fields \<Rightarrow> json_fields option" where
  "chat_of name fs =
     (case chat_at fs of
        Some c \<Rightarrow> Some c
      | None \<Rightarrow> if name = ''callback_query'' then Option.bind (at_key ''message'' as_object fs) chat_at else None)"

definition user_of :: "json_fields \<Rightarrow> json_fields option" where
  "user_of fs = (case at_key ''from'' as_object fs of Some u \<Rightarrow> Some u | None \<Rightarrow> at_key ''user'' as_object fs)"

definition string_at :: "string \<Rightarrow> json_fields \<Rightarrow> string option" where
  "string_at k fs = Option.bind (last_field k fs) (\<lambda>x. Option.bind (fst x) string_contents)"

definition first_some :: "'a option list \<Rightarrow> 'a option" where
  "first_some xs = Option.bind (List.find (\<lambda>x. x \<noteq> None) xs) id"

definition text_of :: "string \<Rightarrow> json_fields \<Rightarrow> string option" where
  "text_of name fs =
     first_some [string_at ''text'' fs, string_at ''caption'' fs, if name = ''inline_query'' then string_at ''query'' fs else None]"

definition data_of :: "string \<Rightarrow> json_fields \<Rightarrow> string option" where
  "data_of name fs = (if name = ''callback_query'' then string_at ''data'' fs else None)"

text \<open>The contents of a JSON string decoded into an empty buffer.\<close>

definition decoded_text :: "nat \<Rightarrow> string \<Rightarrow> string" where
  "decoded_text limit inner = (case unescape_text inner limit [] of (t, d) \<Rightarrow> resolve d t)"

text \<open>Everything in the tree can be decoded.\<close>

fun sound_value :: "json_value \<Rightarrow> bool" where
  "sound_value (JNumber n) = (n \<noteq> None)"
| "sound_value (JString s) = (snd s \<noteq> None)"
| "sound_value (JArray vs) = list_all sound_value vs"
| "sound_value (JObject es) = list_all (\<lambda>(k, raw, v). snd k \<noteq> None \<and> raw \<noteq> None \<and> sound_value v) es"
| "sound_value _ = True"

section \<open>The visitors\<close>

lemma lenient_i64_Some: "lenient_i64 v = Some i \<longleftrightarrow> any_ok v \<and> i = as_i64 v"
  by (auto simp: lenient_i64_def as_i64_def)

lemma strict_i64_Some: "strict_i64 v = Some i \<longleftrightarrow> any_ok v \<and> as_i64 v = Some i"
  by (auto simp: strict_i64_def lenient_i64_def as_i64_def)

lemma chat_type_Some: "chat_type_seed v = Some t \<longleftrightarrow> any_ok v \<and> t = as_chat_type v"
  by (auto simp: chat_type_seed_def as_chat_type_def)

lemma chat_fields_read:
  "chat_fields es c = Some c' \<Longrightarrow>
     ch_id c' = (case last_field ''id'' es of None \<Rightarrow> ch_id c | Some x \<Rightarrow> as_i64 (snd x)) \<and>
     ch_kind c' = (case last_field ''type'' es of None \<Rightarrow> ch_kind c | Some x \<Rightarrow> as_chat_type (snd x))"
  by (induction es c rule: chat_fields.induct)
    (auto simp: bind_eq_Some_conv lenient_i64_Some chat_type_Some split: option.splits if_splits)

lemma chat_seed_read:
  "chat_seed v = Some c \<Longrightarrow> c = map_option (\<lambda>es. \<lparr>ch_id = at_key ''id'' as_i64 es, ch_kind = at_key ''type'' as_chat_type es\<rparr>) (as_object v)"
  by (cases v) (auto simp: chat_seed_def as_object_def at_key_def dest!: chat_fields_read split: if_splits option.splits)

lemma user_fields_read:
  "user_fields es i = Some i' \<Longrightarrow> i' = (case last_field ''id'' es of None \<Rightarrow> i | Some x \<Rightarrow> as_i64 (snd x))"
  by (induction es i rule: user_fields.induct) (auto simp: bind_eq_Some_conv lenient_i64_Some split: option.splits if_splits)

lemma user_seed_read: "user_seed v = Some u \<Longrightarrow> u = map_option (at_key ''id'' as_i64) (as_object v)"
  by (cases v) (auto simp: user_seed_def as_object_def at_key_def dest!: user_fields_read split: if_splits option.splits)

lemma message_chat_fields_read:
  "message_chat_fields es c = Some c' \<Longrightarrow> (case last_field ''chat'' es of None \<Rightarrow> c' = c | Some x \<Rightarrow> chat_seed (snd x) = Some c')"
  by (induction es arbitrary: c) (auto simp: bind_eq_Some_conv split: option.splits if_splits, metis)

definition chat_record :: "json_fields \<Rightarrow> chat_facts" where
  "chat_record es = \<lparr>ch_id = at_key ''id'' as_i64 es, ch_kind = at_key ''type'' as_chat_type es\<rparr>"

lemma chat_seed_record: "chat_seed v = Some c \<Longrightarrow> c = map_option chat_record (as_object v)"
  using chat_seed_read [of v c] by (simp add: chat_record_def [abs_def])

lemma message_chat_seed_read:
  assumes "message_chat_seed v = Some c"
  shows "c = map_option chat_record (Option.bind (as_object v) chat_at)"
proof (cases v)
  case (JObject es)
  then have "message_chat_fields es None = Some c" using assms by (simp add: message_chat_seed_def)
  from message_chat_fields_read [OF this] JObject show ?thesis
    by (auto simp: as_object_def chat_at_def at_key_def dest: chat_seed_record split: option.splits)
qed (use assms in \<open>auto simp: message_chat_seed_def as_object_def split: if_splits\<close>)

text \<open>What the visitor of the update's object leaves, field by field.\<close>

lemma payload_field_read:
  assumes "payload_fields cq iq es p = Some p'"
    and "\<And>k raw v p p'. payload_entry cq iq k raw v p = Some p' \<Longrightarrow>
      if on \<and> k = key then R raw v (get p') else get p' = get p"
  shows "case (if on then last_field key es else None) of None \<Rightarrow> get p' = get p | Some x \<Rightarrow> R (fst x) (snd x) (get p')"
  using assms(1)
proof (induction es arbitrary: p)
  case (Cons e es)
  obtain b k raw v where e: "e = ((b, Some k), raw, v)" using Cons.prems by (cases e) (auto split: option.splits)
  obtain p1 where p1: "payload_entry cq iq k raw v p = Some p1" "payload_fields cq iq es p1 = Some p'"
    using Cons.prems e by (auto simp: bind_eq_Some_conv)
  from Cons.IH [OF p1(2)] assms(2) [OF p1(1)] show ?case by (auto simp: e split: option.splits if_splits)
qed simp

lemma payload_entry_reads:
  assumes "payload_entry cq iq k raw v p = Some p'"
  shows "if True \<and> k = ''chat'' then chat_seed v = Some (pl_chat p') else pl_chat p' = pl_chat p"
    and "if cq \<and> k = ''message'' then message_chat_seed v = Some (pl_message_chat p') else pl_message_chat p' = pl_message_chat p"
    and "if True \<and> k = ''from'' then user_seed v = Some (pl_from p') else pl_from p' = pl_from p"
    and "if True \<and> k = ''user'' then user_seed v = Some (pl_user p') else pl_user p' = pl_user p"
    and "if True \<and> k = ''text'' then pl_text p' = raw else pl_text p' = pl_text p"
    and "if True \<and> k = ''caption'' then pl_caption p' = raw else pl_caption p' = pl_caption p"
    and "if iq \<and> k = ''query'' then pl_query p' = raw else pl_query p' = pl_query p"
    and "if cq \<and> k = ''data'' then pl_data p' = raw else pl_data p' = pl_data p"
  using assms by (auto simp: payload_entry_def split: if_splits)

lemma payload_fields_read:
  assumes "payload_fields cq iq es payload_default = Some p'"
  shows "case last_field ''chat'' es of None \<Rightarrow> pl_chat p' = None | Some x \<Rightarrow> chat_seed (snd x) = Some (pl_chat p')"
    and "case if cq then last_field ''message'' es else None of
        None \<Rightarrow> pl_message_chat p' = None | Some x \<Rightarrow> message_chat_seed (snd x) = Some (pl_message_chat p')"
    and "case last_field ''from'' es of None \<Rightarrow> pl_from p' = None | Some x \<Rightarrow> user_seed (snd x) = Some (pl_from p')"
    and "case last_field ''user'' es of None \<Rightarrow> pl_user p' = None | Some x \<Rightarrow> user_seed (snd x) = Some (pl_user p')"
    and "pl_text p' = Option.bind (last_field ''text'' es) fst"
    and "pl_caption p' = Option.bind (last_field ''caption'' es) fst"
    and "pl_query p' = (if iq then Option.bind (last_field ''query'' es) fst else None)"
    and "pl_data p' = (if cq then Option.bind (last_field ''data'' es) fst else None)"
proof -
  note r = payload_field_read [OF assms]
  have r1: "case if True then last_field ''chat'' es else None of
      None \<Rightarrow> pl_chat p' = pl_chat payload_default | Some x \<Rightarrow> (\<lambda>raw v x. chat_seed v = Some x) (fst x) (snd x) (pl_chat p')"
    by (rule r [where on = True and key = "''chat''" and get = pl_chat]) (drule payload_entry_reads(1), simp)
  have r2: "case if cq then last_field ''message'' es else None of
      None \<Rightarrow> pl_message_chat p' = pl_message_chat payload_default | Some x \<Rightarrow> (\<lambda>raw v x. message_chat_seed v = Some x) (fst x) (snd x) (pl_message_chat p')"
    by (rule r [where on = cq and key = "''message''" and get = pl_message_chat]) (drule payload_entry_reads(2), simp)
  have r3: "case if True then last_field ''from'' es else None of
      None \<Rightarrow> pl_from p' = pl_from payload_default | Some x \<Rightarrow> (\<lambda>raw v x. user_seed v = Some x) (fst x) (snd x) (pl_from p')"
    by (rule r [where on = True and key = "''from''" and get = pl_from]) (drule payload_entry_reads(3), simp)
  have r4: "case if True then last_field ''user'' es else None of
      None \<Rightarrow> pl_user p' = pl_user payload_default | Some x \<Rightarrow> (\<lambda>raw v x. user_seed v = Some x) (fst x) (snd x) (pl_user p')"
    by (rule r [where on = True and key = "''user''" and get = pl_user]) (drule payload_entry_reads(4), simp)
  have r5: "case if True then last_field ''text'' es else None of
      None \<Rightarrow> pl_text p' = pl_text payload_default | Some x \<Rightarrow> (\<lambda>raw v x. x = raw) (fst x) (snd x) (pl_text p')"
    by (rule r [where on = True and key = "''text''" and get = pl_text]) (drule payload_entry_reads(5), simp)
  have r6: "case if True then last_field ''caption'' es else None of
      None \<Rightarrow> pl_caption p' = pl_caption payload_default | Some x \<Rightarrow> (\<lambda>raw v x. x = raw) (fst x) (snd x) (pl_caption p')"
    by (rule r [where on = True and key = "''caption''" and get = pl_caption]) (drule payload_entry_reads(6), simp)
  have r7: "case if iq then last_field ''query'' es else None of
      None \<Rightarrow> pl_query p' = pl_query payload_default | Some x \<Rightarrow> (\<lambda>raw v x. x = raw) (fst x) (snd x) (pl_query p')"
    by (rule r [where on = iq and key = "''query''" and get = pl_query]) (drule payload_entry_reads(7), simp)
  have r8: "case if cq then last_field ''data'' es else None of
      None \<Rightarrow> pl_data p' = pl_data payload_default | Some x \<Rightarrow> (\<lambda>raw v x. x = raw) (fst x) (snd x) (pl_data p')"
    by (rule r [where on = cq and key = "''data''" and get = pl_data]) (drule payload_entry_reads(8), simp)
  note d = payload_default_def
  show "case last_field ''chat'' es of None \<Rightarrow> pl_chat p' = None | Some x \<Rightarrow> chat_seed (snd x) = Some (pl_chat p')"
    using r1 by (auto simp: d split: option.splits if_splits)
  show "case if cq then last_field ''message'' es else None of
        None \<Rightarrow> pl_message_chat p' = None | Some x \<Rightarrow> message_chat_seed (snd x) = Some (pl_message_chat p')"
    using r2 by (auto simp: d split: option.splits if_splits)
  show "case last_field ''from'' es of None \<Rightarrow> pl_from p' = None | Some x \<Rightarrow> user_seed (snd x) = Some (pl_from p')"
    using r3 by (auto simp: d split: option.splits if_splits)
  show "case last_field ''user'' es of None \<Rightarrow> pl_user p' = None | Some x \<Rightarrow> user_seed (snd x) = Some (pl_user p')"
    using r4 by (auto simp: d split: option.splits if_splits)
  show "pl_text p' = Option.bind (last_field ''text'' es) fst" using r5 by (simp add: d split: option.splits)
  show "pl_caption p' = Option.bind (last_field ''caption'' es) fst" using r6 by (simp add: d split: option.splits)
  show "pl_query p' = (if iq then Option.bind (last_field ''query'' es) fst else None)"
    using r7 by (simp add: d split: option.splits if_splits)
  show "pl_data p' = (if cq then Option.bind (last_field ''data'' es) fst else None)"
    using r8 by (simp add: d split: option.splits if_splits)
qed

lemma chat_record_bind [simp]:
  "Option.bind (map_option chat_record c) ch_id = Option.bind c (at_key ''id'' as_i64)"
  "Option.bind (map_option chat_record c) ch_kind = Option.bind c (at_key ''type'' as_chat_type)"
  by (cases c; simp add: chat_record_def)+

lemma bind_map_id [simp]: "Option.bind (map_option f x) id = Option.bind x f"
  by (cases x) simp_all

lemma payload_seed_read:
  assumes "payload_seed name v = Some p"
  shows "case p of
      None \<Rightarrow> as_object v = None
    | Some q \<Rightarrow> (\<exists>fs. as_object v = Some fs \<and>
        (case pl_chat q of None \<Rightarrow> pl_message_chat q | Some c \<Rightarrow> Some c) = map_option chat_record (chat_of name fs) \<and>
        (case pl_from q of None \<Rightarrow> Option.bind (pl_user q) id | Some i \<Rightarrow> i) = Option.bind (user_of fs) (at_key ''id'' as_i64) \<and>
        pl_text q = Option.bind (last_field ''text'' fs) fst \<and> pl_caption q = Option.bind (last_field ''caption'' fs) fst \<and>
        pl_query q = (if name = ''inline_query'' then Option.bind (last_field ''query'' fs) fst else None) \<and>
        pl_data q = (if name = ''callback_query'' then Option.bind (last_field ''data'' fs) fst else None))"
proof (cases v)
  case (JObject fs)
  then obtain q where q: "p = Some q" "payload_fields (name = ''callback_query'') (name = ''inline_query'') fs payload_default = Some q"
    using assms by (auto simp: payload_seed_def)
  note r = payload_fields_read [OF q(2)]
  have chat: "pl_chat q = map_option chat_record (chat_at fs)"
    using r(1) by (auto simp: chat_at_def at_key_def dest: chat_seed_record split: option.splits)
  have msg: "pl_message_chat q =
      (if name = ''callback_query'' then map_option chat_record (Option.bind (at_key ''message'' as_object fs) chat_at) else None)"
    using r(2) by (auto simp: at_key_def dest: message_chat_seed_read split: option.splits if_splits)
  have users: "pl_from q = map_option (at_key ''id'' as_i64) (at_key ''from'' as_object fs)"
    "pl_user q = map_option (at_key ''id'' as_i64) (at_key ''user'' as_object fs)"
    using r(3,4) by (auto simp: at_key_def dest: user_seed_read split: option.splits)
  show ?thesis using JObject q(1) chat msg users r(5-8)
    by (auto simp: as_object_def chat_of_def user_of_def split: option.splits)
qed (use assms in \<open>auto simp: payload_seed_def as_object_def split: if_splits\<close>)

lemma update_fields_read:
  "update_fields es u = Some u' \<Longrightarrow>
     (case last_field ''update_id'' es of None \<Rightarrow> uf_update_id u' = uf_update_id u | Some x \<Rightarrow> uf_update_id u' = as_i64 (snd x)) \<and>
     (case uf_kind u of
        Some k \<Rightarrow> uf_kind u' = Some k
      | None \<Rightarrow> (case first_object es of
            None \<Rightarrow> uf_kind u' = None
          | Some (name, fs) \<Rightarrow> \<exists>q. uf_kind u' = Some (name, q) \<and> payload_seed name (JObject fs) = Some (Some q)))"
proof (induction es arbitrary: u)
  case (Cons e es)
  obtain b k raw v where e: "e = ((b, k), raw, v)" by (cases e) auto
  with Cons.prems obtain key where k: "k = Some key" by (auto split: option.splits)
  show ?case
  proof (cases "top_key_of b key")
    case TopUpdateId
    then have key: "key = ''update_id''" by (simp add: top_key_of_def split: if_splits)
    obtain i where i: "as_i64 v = Some i" "update_fields es (u\<lparr>uf_update_id := Some i\<rparr>) = Some u'"
      using Cons.prems e k TopUpdateId by (auto simp: bind_eq_Some_conv strict_i64_Some)
    from Cons.IH [OF i(2)] show ?thesis using e k key TopUpdateId i(1) by (auto split: option.splits)
  next
    case (TopName name)
    then have key: "key \<noteq> ''update_id''" "name = key" by (auto simp: top_key_of_def split: if_splits)
    show ?thesis
    proof (cases "uf_kind u")
      case None
      then obtain p where p: "payload_seed name v = Some p" "update_fields es (u\<lparr>uf_kind := map_option (Pair name) p\<rparr>) = Some u'"
        using Cons.prems e k TopName by (auto simp: bind_eq_Some_conv)
      note ih = Cons.IH [OF p(2)]
      show ?thesis
      proof (cases p)
        case p0: None
        with payload_seed_read [OF p(1)] have "as_object v = None" by simp
        with ih p0 show ?thesis using e k key TopName None by (auto split: option.splits)
      next
        case (Some q)
        with payload_seed_read [OF p(1)] obtain fs where "v = JObject fs" "as_object v = Some fs"
          by (auto simp: as_object_def split: json_value.splits)
        with ih Some p(1) show ?thesis using e k key TopName None by (auto split: option.splits)
      qed
    next
      case (Some kd)
      then have "update_fields es u = Some u'" using Cons.prems e k TopName by simp
      from Cons.IH [OF this] show ?thesis using e k key Some by (auto split: option.splits)
    qed
  next
    case TopUnborrowable
    then have key: "key \<noteq> ''update_id''" by (auto simp: top_key_of_def split: if_splits)
    have "update_fields es u = Some u'" using Cons.prems e k TopUnborrowable by simp
    from Cons.IH [OF this] show ?thesis using e k key TopUnborrowable by (auto split: option.splits)
  qed
qed (simp split: option.splits)

lemma update_ids:
  "update_fields es u = Some u' \<Longrightarrow> last_field ''update_id'' es \<noteq> None \<or> uf_update_id u \<noteq> None \<Longrightarrow> uf_update_id u' \<noteq> None"
proof (induction es arbitrary: u)
  case (Cons e es)
  obtain b k raw v where e: "e = ((b, k), raw, v)" by (cases e) auto
  with Cons.prems obtain key where k: "k = Some key" by (auto split: option.splits)
  have "top_key_of b key = TopUpdateId \<longleftrightarrow> key = ''update_id''" by (simp add: top_key_of_def)
  then show ?case using Cons e k
    by (auto simp: bind_eq_Some_conv split: top_key.splits option.splits if_splits)
qed simp

section \<open>The texts\<close>

lemma unescape_loop_shift:
  "unescape_loop limit (length held) s (held @ out) = held @ unescape_loop limit 0 s out"
proof (induction "length s" arbitrary: s out rule: less_induct)
  case less
  have ih: "unescape_loop limit (length held) (snd (unescape_one escaped)) (held @ o1) =
      held @ unescape_loop limit 0 (snd (unescape_one escaped)) o1"
    if "dropWhile (\<lambda>b. b \<noteq> CHR 0x5C) s = b # escaped" for b escaped o1
  proof (rule less)
    have "length (b # escaped) \<le> length s" using that length_dropWhile_le by metis
    then show "length (snd (unescape_one escaped)) < length s" using unescape_one_shrinks [of escaped] by simp
  qed
  show ?case
  proof (cases "dropWhile (\<lambda>b. b \<noteq> CHR 0x5C) s")
    case Nil
    show ?thesis
      unfolding unescape_loop.simps [of limit "length held" s "held @ out"] unescape_loop.simps [of limit 0 s out] Let_def Nil
      by simp
  next
    case (Cons b escaped)
    note i = ih [OF Cons, of "out @ takeWhile (\<lambda>b. b \<noteq> CHR 0x5C) s @ encode_utf8 (fst (unescape_one escaped))"]
    show ?thesis
      unfolding unescape_loop.simps [of limit "length held" s "held @ out"] unescape_loop.simps [of limit 0 s out] Let_def Cons
      using i by (simp add: split_beta)
  qed
qed

lemma unescape_text_shift:
  assumes "unescape_text inner limit out = (t, d)"
  shows "\<exists>app. d = out @ app" and "resolve (d @ later) t = decoded_text limit inner"
proof -
  let ?app = "unescape_loop limit 0 inner []"
  have l: "unescape_loop limit (length out) inner out = out @ ?app" using unescape_loop_shift [of limit out inner "[]"] by simp
  show "\<exists>app. d = out @ app" "resolve (d @ later) t = decoded_text limit inner"
    using assms by (auto simp: unescape_text_def Let_def l decoded_text_def split: if_splits)
qed

lemma first_some_filter:
  "(case List.map_filter (\<lambda>r. Option.bind r f) xs of [] \<Rightarrow> None | r # _ \<Rightarrow> Some r) = first_some (map (\<lambda>r. Option.bind r f) xs)"
  by (induction xs) (auto simp: List.map_filter_def first_some_def)

text \<open>Whether the source of a text has escapes is what \<open>Text::Decoded\<close> says.\<close>

lemma unescape_text_kind:
  "unescape_text inner limit out = (t, d) \<Longrightarrow> (case t of DecodedAt _ _ \<Rightarrow> True | Verbatim _ \<Rightarrow> False) = (CHR 0x5C \<in> set inner)"
  by (auto simp: unescape_text_def Let_def split: if_splits)

definition text_facts :: "string \<Rightarrow> json_fields \<Rightarrow> facts \<Rightarrow> bool" where
  "text_facts name fs f \<longleftrightarrow>
     f_text f = map_option (decoded_text TEXT_CAP) (text_of name fs) \<and>
     f_callback_data f = map_option (decoded_text U64_MAX) (data_of name fs) \<and>
     f_command f = Option.bind (text_of name fs) (\<lambda>raw. command (decoded_text TEXT_CAP raw) (CHR 0x5C \<in> set raw) raw)"

lemma into_facts_read:
  assumes "uf_kind u = Some (name, q)" and q: "payload_seed name (JObject fs) = Some (Some q)" and i: "into_facts u decoded = (f, d)"
  shows "f_update_type f = name \<and> f_chat_id f = Option.bind (chat_of name fs) (at_key ''id'' as_i64) \<and>
    f_chat_type f = Option.bind (chat_of name fs) (at_key ''type'' as_chat_type) \<and>
    f_user_id f = Option.bind (user_of fs) (at_key ''id'' as_i64) \<and> text_facts name fs f"
proof -
  from payload_seed_read [OF q] have r:
    "(case pl_chat q of None \<Rightarrow> pl_message_chat q | Some c \<Rightarrow> Some c) = map_option chat_record (chat_of name fs)"
    "(case pl_from q of None \<Rightarrow> Option.bind (pl_user q) id | Some i \<Rightarrow> i) = Option.bind (user_of fs) (at_key ''id'' as_i64)"
    and t: "pl_text q = Option.bind (last_field ''text'' fs) fst" "pl_caption q = Option.bind (last_field ''caption'' fs) fst"
    "pl_query q = (if name = ''inline_query'' then Option.bind (last_field ''query'' fs) fst else None)"
    "pl_data q = (if name = ''callback_query'' then Option.bind (last_field ''data'' fs) fst else None)"
    by (auto simp: as_object_def)
  have tx: "(case List.map_filter (\<lambda>r. Option.bind r string_contents) [pl_text q, pl_caption q, pl_query q] of
      [] \<Rightarrow> None | r # _ \<Rightarrow> Some r) = text_of name fs"
    unfolding first_some_filter text_of_def string_at_def by (simp add: t Option.bind_assoc)
  have dt: "Option.bind (pl_data q) string_contents = data_of name fs"
    by (simp add: t data_of_def string_at_def Option.bind_assoc)
  obtain t1 d1 where d1: "(case text_of name fs of None \<Rightarrow> (None, [])
      | Some inner \<Rightarrow> (case unescape_text inner TEXT_CAP [] of (t, d) \<Rightarrow> (Some t, d))) = (t1, d1)" by fastforce
  obtain t2 d2 where d2: "(case data_of name fs of None \<Rightarrow> (None, d1)
      | Some inner \<Rightarrow> (case unescape_text inner U64_MAX d1 of (t, d) \<Rightarrow> (Some t, d))) = (t2, d2)" by fastforce
  have two: "map_option (resolve d2) t2 = map_option (decoded_text U64_MAX) (data_of name fs)" "\<exists>app. d2 = d1 @ app"
    using d2 unescape_text_shift(1) [of _ U64_MAX d1] unescape_text_shift(2) [of _ U64_MAX d1 _ _ "[]"] by (auto split: option.splits prod.splits)
  then obtain app where app: "d2 = d1 @ app" by blast
  have one: "map_option (resolve d2) t1 = map_option (decoded_text TEXT_CAP) (text_of name fs)"
    unfolding app using d1 unescape_text_shift(2) [of _ TEXT_CAP "[]" _ _ app] by (auto split: option.splits prod.splits)
  have k: "t1 = Some t \<Longrightarrow> text_of name fs = Some raw \<Longrightarrow>
      (case t of DecodedAt _ _ \<Rightarrow> True | Verbatim _ \<Rightarrow> False) = (CHR 0x5C \<in> set raw)" for t raw
    using d1 unescape_text_kind [of raw TEXT_CAP "[]"] by (auto split: prod.splits)
  show ?thesis using i unfolding into_facts_def assms(1) option.case prod.case Let_def tx dt d1 d2 r
    using one two(1) k
    by (auto simp: text_facts_def split: option.splits)
qed

section \<open>Sound trees are read\<close>

lemma sound_any: "sound_value v \<Longrightarrow> any_ok v"
  by (cases v) (simp_all add: any_ok_def)

lemma sound_lenient: "sound_value v \<Longrightarrow> lenient_i64 v = Some (as_i64 v)"
  by (simp add: lenient_i64_Some sound_any)

lemma sound_chat_type: "sound_value v \<Longrightarrow> chat_type_seed v = Some (as_chat_type v)"
  by (simp add: chat_type_Some sound_any)

lemma sound_chat_fields: "sound_value (JObject es) \<Longrightarrow> \<exists>c'. chat_fields es c = Some c'"
  by (induction es arbitrary: c) (auto simp: sound_lenient sound_chat_type)

lemma sound_user_fields: "sound_value (JObject es) \<Longrightarrow> \<exists>i'. user_fields es i = Some i'"
  by (induction es arbitrary: i) (auto simp: sound_lenient)

lemma sound_chat_seed: "sound_value v \<Longrightarrow> \<exists>c. chat_seed v = Some c"
  using sound_chat_fields sound_any [of v] by (cases v) (fastforce simp: chat_seed_def)+

lemma sound_user_seed: "sound_value v \<Longrightarrow> \<exists>c. user_seed v = Some c"
  using sound_user_fields sound_any [of v] by (cases v) (fastforce simp: user_seed_def)+

lemma sound_message_chat_fields: "sound_value (JObject es) \<Longrightarrow> \<exists>c'. message_chat_fields es c = Some c'"
proof (induction es arbitrary: c)
  case (Cons e es)
  then show ?case using sound_chat_seed [of "snd (snd e)"] by (cases e) fastforce
qed simp

lemma sound_message_chat_seed: "sound_value v \<Longrightarrow> \<exists>c. message_chat_seed v = Some c"
  using sound_message_chat_fields sound_any [of v] by (cases v) (fastforce simp: message_chat_seed_def)+

lemma sound_payload_fields: "sound_value (JObject es) \<Longrightarrow> \<exists>p'. payload_fields cq iq es p = Some p'"
proof (induction es arbitrary: p)
  case (Cons e es)
  obtain b k raw v where e: "e = ((b, Some k), Some raw, v)" and v: "sound_value v" "sound_value (JObject es)"
    using Cons.prems by (cases e) auto
  note ih = Cons.IH [OF v(2)]
  obtain c m u where s: "chat_seed v = Some c" "message_chat_seed v = Some m" "user_seed v = Some u"
    using sound_chat_seed sound_message_chat_seed sound_user_seed v(1) by blast
  show ?case using ih by (cases cq; cases iq; simp add: e s payload_entry_def)
qed simp

lemma sound_payload_seed: "sound_value v \<Longrightarrow> \<exists>p. payload_seed name v = Some p"
  using sound_payload_fields [where p = payload_default] sound_any [of v] by (cases v) (fastforce simp: payload_seed_def)+

text \<open>Every \<open>update_id\<close> of the object is an \<open>i64\<close>.\<close>

definition ids_ok :: "json_fields \<Rightarrow> bool" where
  "ids_ok es = list_all (\<lambda>(k, raw, v). snd k = Some ''update_id'' \<longrightarrow> as_i64 v \<noteq> None) es"

lemma sound_update_fields: "sound_value (JObject es) \<Longrightarrow> ids_ok es \<Longrightarrow> \<exists>u'. update_fields es u = Some u'"
proof (induction es arbitrary: u)
  case (Cons e es)
  obtain b k raw v where e: "e = ((b, Some k), Some raw, v)" and v: "sound_value v" "sound_value (JObject es)"
    using Cons.prems by (cases e) auto
  have ids: "ids_ok es" "k = ''update_id'' \<longrightarrow> as_i64 v \<noteq> None" using Cons.prems(2) e by (auto simp: ids_ok_def)
  note ih = Cons.IH [OF v(2) ids(1)]
  have "strict_i64 v = as_i64 v" by (simp add: strict_i64_def sound_lenient [OF v(1)])
  moreover have "top_key_of b k = TopUpdateId \<longleftrightarrow> k = ''update_id''" by (simp add: top_key_of_def)
  moreover obtain pf where "\<And>name. payload_seed name v = Some (pf name)" using sound_payload_seed [OF v(1)] by metis
  ultimately show ?case using ih ids(2) by (auto simp: e split: top_key.splits)
qed simp

section \<open>Extraction\<close>

text \<open>
  C12. The facts of an update are the ones documented: the id is the last \<open>update_id\<close>, the type the first
  key whose value is an object, the chat \<open>.chat\<close> or for a callback query \<open>.message.chat\<close>, the user
  \<open>.from\<close> or \<open>.user\<close>, the text \<open>.text\<close>, \<open>.caption\<close> or for an inline query \<open>.query\<close>, each the last of its key
  and absent if of another type; whatever the buffer held before. Every object whose strings and numbers decode and
  whose \<open>update_id\<close>s are integers is read, and without \<open>update_id\<close> the error says so.
\<close>

theorem facts_exact:
  assumes p: "parse payload = Some (JObject es)"
  shows "(case fst (extract_facts parse payload decoded) of
      Inr (i, f) \<Rightarrow>
        Option.bind (last_field ''update_id'' es) (\<lambda>x. as_i64 (snd x)) = Some i \<and>
        (case first_object es of
           None \<Rightarrow> f = facts_default
         | Some (name, fs) \<Rightarrow>
             f_update_type f = name \<and> f_chat_id f = Option.bind (chat_of name fs) (at_key ''id'' as_i64) \<and>
             f_chat_type f = Option.bind (chat_of name fs) (at_key ''type'' as_chat_type) \<and>
             f_user_id f = Option.bind (user_of fs) (at_key ''id'' as_i64) \<and> text_facts name fs f)
    | Inl FactsJson \<Rightarrow> \<not> (sound_value (JObject es) \<and> ids_ok es)
    | Inl MissingUpdateId \<Rightarrow> last_field ''update_id'' es = None) \<and>
    fst (extract_facts parse payload decoded) = fst (extract_facts parse payload [])" (is "?P \<and> ?same")
proof -
  let ?u0 = "\<lparr>uf_update_id = None, uf_kind = None\<rparr>"
  have same: ?same
    by (simp add: extract_facts_def into_facts_def split_beta split: option.splits)
  have ?P
  proof (cases "update_fields es ?u0")
    case None
    then show ?thesis using sound_update_fields [of es ?u0] by (auto simp: extract_facts_def p read_update_def)
  next
    case (Some u)
    note r = update_fields_read [OF Some, simplified]
    have ex: "extract_facts parse payload decoded = (case uf_update_id u of
        None \<Rightarrow> (Inl MissingUpdateId, decoded) | Some i \<Rightarrow> (case into_facts u decoded of (f, d) \<Rightarrow> (Inr (i, f), d)))"
      by (simp add: extract_facts_def p read_update_def Some)
    show ?thesis
    proof (cases "uf_update_id u")
      case None
      have "last_field ''update_id'' es = None"
      proof (rule ccontr)
        assume "last_field ''update_id'' es \<noteq> None"
        with update_ids [OF Some] None show False by blast
      qed
      with None show ?thesis by (simp add: ex)
    next
      case i: (Some i)
      obtain f d where f: "into_facts u decoded = (f, d)" by fastforce
      have "Option.bind (last_field ''update_id'' es) (\<lambda>x. as_i64 (snd x)) = Some i" using r i by (simp split: option.splits)
      moreover have "f = facts_default" if "first_object es = None" using r that f by (simp add: into_facts_def)
      moreover have "f_update_type f = name \<and> f_chat_id f = Option.bind (chat_of name fs) (at_key ''id'' as_i64) \<and>
          f_chat_type f = Option.bind (chat_of name fs) (at_key ''type'' as_chat_type) \<and>
          f_user_id f = Option.bind (user_of fs) (at_key ''id'' as_i64) \<and> text_facts name fs f"
        if "first_object es = Some (name, fs)" for name fs
      proof -
        from r that obtain q where "uf_kind u = Some (name, q)" "payload_seed name (JObject fs) = Some (Some q)" by auto
        then show ?thesis using f by (rule into_facts_read)
      qed
      ultimately show ?thesis by (auto simp: ex i f split: option.splits)
    qed
  qed
  with same show ?thesis by blast
qed

definition demo_group_chat :: json_value where
  "demo_group_chat = JObject [((True, Some ''id''), Some ''-5'', JNumber (Some (JI64 (-5)))),
     ((True, Some ''type''), Some [CHR 0x22, CHR ''g'', CHR 0x22], JString (True, Some ''group''))]"

definition demo_update_fields :: json_fields where
  "demo_update_fields =
     [((True, Some ''x''), Some ''1'', JNumber (Some (JU64 1))),
      ((False, Some ''update_id''), Some ''10'', JNumber (Some (JU64 10))),
      ((False, Some ''message''), Some ''{}'', JObject
        [((True, Some ''chat''), Some ''{}'', demo_group_chat),
         ((True, Some ''text''), Some ([CHR 0x22] @ ''/go hi'' @ [CHR 0x22]), JString (True, Some ''/go hi''))])]"

theorem facts_exact_witness:
  "\<exists>f. fst (extract_facts (\<lambda>_. Some (JObject demo_update_fields)) [] ''junk'') = Inr (10, f) \<and> f_update_type f = ''message'' \<and>
     f_chat_id f = Some (- 5) \<and> f_chat_type f = Some Group \<and> f_user_id f = None \<and> f_command f = Some (''go'', None)"
proof -
  let ?e = "\<lambda>d. extract_facts (\<lambda>_. Some (JObject demo_update_fields)) [] d"
  have "case fst (?e []) of Inl _ \<Rightarrow> False | Inr (i, f) \<Rightarrow> i = 10 \<and> f_command f = Some (''go'', None)" by code_simp
  then obtain f where f: "fst (?e []) = Inr (10, f)" "f_command f = Some (''go'', None)" by (auto split: sum.splits)
  note x = facts_exact [of "\<lambda>_. Some (JObject demo_update_fields)" "[]" demo_update_fields "''junk''", OF refl]
  have fo: "map_option fst (first_object demo_update_fields) = Some ''message''"
    "Option.bind (first_object demo_update_fields) (\<lambda>x. Option.bind (chat_of (fst x) (snd x)) (at_key ''id'' as_i64)) = Some (- 5)"
    "Option.bind (first_object demo_update_fields) (\<lambda>x. Option.bind (chat_of (fst x) (snd x)) (at_key ''type'' as_chat_type)) = Some Group"
    "Option.bind (first_object demo_update_fields) (\<lambda>x. Option.bind (user_of (snd x)) (at_key ''id'' as_i64)) = None" by code_simp+
  from x f(1) have j: "fst (?e ''junk'') = Inr (10, f)" by simp
  with x fo f(2) show ?thesis by (intro exI [of _ f]) (auto split: option.splits prod.splits)
qed

end
