(* ===== verification/Redactor.thy ===== *)
theory Redactor
  imports Bytes "HOL-Library.Product_Lexorder"
begin

text \<open>
  Secrets and what log lines show of them, \<open>crates/tgin-runtime/src/secret.rs\<close>: constant-time
  comparison and the redactor. Text is its UTF-8 bytes. The comparison of the \<open>subtle\<close> crate, the
  Aho-Corasick automaton (the spans of the overlapping matches of some patterns in a text) and the
  replacement of the token regex are arguments.
\<close>

section \<open>Definitions\<close>

definition secret_eq :: "(bytes \<Rightarrow> bytes \<Rightarrow> bool) \<Rightarrow> bytes \<Rightarrow> bytes \<Rightarrow> bool" where
  "secret_eq ct_eq provided expected =
     (let len_eq = (length provided = length expected);
          padded = replicate (length expected) (CHR 0x00);
          copy_len = min (length provided) (length expected);
          padded = take copy_len provided @ drop copy_len padded
      in len_eq \<and> ct_eq padded expected)"

definition LOG_MASK :: string where "LOG_MASK = ''#####''"
definition MIN_SECRET_LEN :: nat where "MIN_SECRET_LEN = 8"

type_synonym span_finder = "string list \<Rightarrow> string \<Rightarrow> (nat \<times> nat) list"

text \<open>The patterns of the automaton; without any there is none.\<close>

definition redactor_new :: "string list \<Rightarrow> string list option" where
  "redactor_new secrets =
     (let patterns = filter (\<lambda>s. MIN_SECRET_LEN \<le> length s) secrets in if patterns = [] then None else Some patterns)"

definition slice :: "nat \<Rightarrow> nat \<Rightarrow> string \<Rightarrow> string" where
  "slice a b s = drop a (take b s)"

fun mask_loop :: "string \<Rightarrow> nat \<Rightarrow> nat \<times> nat \<Rightarrow> string \<Rightarrow> (nat \<times> nat) list \<Rightarrow> string" where
  "mask_loop s copied current out [] = out @ slice copied (fst current) s @ LOG_MASK @ drop (snd current) s"
| "mask_loop s copied current out ((start, stop) # spans) =
     (if start \<le> snd current then mask_loop s copied (fst current, max (snd current) stop) out spans
      else mask_loop s (snd current) (start, stop) (out @ slice copied (fst current) s @ LOG_MASK) spans)"

datatype cow = CowBorrowed string | CowOwned string

definition mask_spans :: "(nat \<times> nat) list \<Rightarrow> string \<Rightarrow> cow" where
  "mask_spans spans s =
     (case sort spans of [] \<Rightarrow> CowBorrowed s | current # rest \<Rightarrow> CowOwned (mask_loop s 0 current [] rest))"

text \<open>\<open>is_match\<close> and \<open>replace_all\<close> of the token regex.\<close>

definition redact :: "span_finder \<Rightarrow> (string \<Rightarrow> bool) \<Rightarrow> (string \<Rightarrow> string) \<Rightarrow> string list option \<Rightarrow> string \<Rightarrow> string" where
  "redact finder is_match replace_all secrets s =
     (let masked = (case secrets of Some patterns \<Rightarrow> mask_spans (finder patterns s) s | None \<Rightarrow> CowBorrowed s)
      in case masked of
           CowBorrowed b \<Rightarrow> replace_all b
         | CowOwned w \<Rightarrow> if is_match w then replace_all w else w)"

section \<open>Comparison\<close>

lemma secret_eq_exact: "(\<And>a b. ct_eq a b \<longleftrightarrow> a = b) \<Longrightarrow> secret_eq ct_eq provided expected \<longleftrightarrow> provided = expected"
  by (auto simp: secret_eq_def Let_def)

section \<open>Masking\<close>

text \<open>The text with every run of covered positions as one mask.\<close>

fun masked :: "(nat \<Rightarrow> bool) \<Rightarrow> nat \<Rightarrow> bool \<Rightarrow> string \<Rightarrow> string" where
  "masked P i run [] = []"
| "masked P i run (b # s) =
     (if P i then (if run then [] else LOG_MASK) @ masked P (Suc i) True s else b # masked P (Suc i) False s)"

definition covered :: "(nat \<times> nat) set \<Rightarrow> nat \<Rightarrow> bool" where
  "covered spans i \<longleftrightarrow> (\<exists>(a, b) \<in> spans. a \<le> i \<and> i < b)"

lemma masked_cong: "(\<And>j. i \<le> j \<Longrightarrow> P j = Q j) \<Longrightarrow> masked P i run s = masked Q i run s"
proof (induction s arbitrary: i run)
  case (Cons b s)
  have "masked P (Suc i) r s = masked Q (Suc i) r s" for r by (rule Cons.IH) (use Cons.prems in simp)
  with Cons.prems [of i] show ?case by simp
qed simp

lemma masked_free: "(\<And>j. i \<le> j \<Longrightarrow> \<not> P j) \<Longrightarrow> masked P i run s = s"
  by (induction s arbitrary: i run) simp_all

lemma masked_plain:
  "(\<And>j. i \<le> j \<Longrightarrow> j < i + length xs \<Longrightarrow> \<not> P j) \<Longrightarrow> masked P i run (xs @ ys) = xs @ masked P (i + length xs) (run \<and> xs = []) ys"
  by (induction xs arbitrary: i run) simp_all

lemma masked_run:
  "(\<And>j. i \<le> j \<Longrightarrow> j < i + length xs \<Longrightarrow> P j) \<Longrightarrow> masked P i True (xs @ ys) = masked P (i + length xs) True ys"
  by (induction xs arbitrary: i) simp_all

lemma masked_after: "\<not> P i \<Longrightarrow> masked P i True s = masked P i False s"
  by (cases s) simp_all

text \<open>Up to and through the first covered run.\<close>

lemma masked_first:
  assumes "copied \<le> a" "a < b" "b \<le> length s"
    and "\<And>j. copied \<le> j \<Longrightarrow> j < a \<Longrightarrow> \<not> P j" "\<And>j. a \<le> j \<Longrightarrow> j < b \<Longrightarrow> P j" "\<not> P b"
  shows "masked P copied False (drop copied s) = slice copied a s @ LOG_MASK @ masked P b False (drop b s)"
proof -
  have s1: "drop copied s = slice copied a s @ drop a s"
    unfolding slice_def by (metis append_take_drop_id assms(1) drop_append drop_drop le_add_diff_inverse2 drop_take)
  let ?t = "take (b - a) (drop a s)"
  have t: "drop a s = ?t @ drop b s" "length ?t = b - a"
    using assms(2,3) by (metis append_take_drop_id drop_drop le_add_diff_inverse2 less_imp_le, simp)
  obtain c xs where cx: "?t = c # xs" using t(2) assms(2) by (cases ?t) auto
  have s2: "drop a s = (c # xs) @ drop b s" "length (c # xs) = b - a" using t unfolding cx by blast+
  have l: "length (slice copied a s) = a - copied" using assms(2,3) by (simp add: slice_def)
  have "masked P copied False (drop copied s) = slice copied a s @ masked P a False (drop a s)"
    unfolding s1 by (subst masked_plain) (use l assms(1,4) in auto)
  also have "masked P a False (drop a s) = LOG_MASK @ masked P (Suc a) True (xs @ drop b s)"
    unfolding s2(1) using assms(2,5) by simp
  also have "masked P (Suc a) True (xs @ drop b s) = masked P b True (drop b s)"
  proof -
    have e: "Suc a + length xs = b" using s2(2) assms(2) by simp
    show ?thesis by (subst masked_run) (use e assms(5) in auto)
  qed
  also have "masked P b True (drop b s) = masked P b False (drop b s)" by (rule masked_after [of P, OF assms(6)])
  finally show ?thesis .
qed

lemma mask_loop_masked:
  assumes "sorted ((a, b) # spans)" and "\<And>x y. (x, y) \<in> set ((a, b) # spans) \<Longrightarrow> x < y \<and> y \<le> length s" and "copied \<le> a"
  shows "mask_loop s copied (a, b) out spans = out @ masked (covered (set ((a, b) # spans))) copied False (drop copied s)"
  using assms
proof (induction spans arbitrary: a b copied out)
  case Nil
  then have ab: "a < b" "b \<le> length s" by simp_all
  have "masked (covered {(a, b)}) copied False (drop copied s) =
      slice copied a s @ LOG_MASK @ masked (covered {(a, b)}) b False (drop b s)"
    by (rule masked_first) (use Nil.prems(3) ab in \<open>auto simp: covered_def\<close>)
  also have "masked (covered {(a, b)}) b False (drop b s) = drop b s" by (rule masked_free) (auto simp: covered_def)
  finally show ?case by simp
next
  case (Cons x spans)
  obtain c d where x: "x = (c, d)" by (cases x) auto
  have v: "a < b" "b \<le> length s" "c < d" "d \<le> length s" using Cons.prems(2) x by auto
  have ac: "a \<le> c" using Cons.prems(1) x by (auto simp: less_eq_prod_def)
  have starts: "c \<le> y" if "(y, z) \<in> set ((c, d) # spans)" for y z
    using Cons.prems(1) x that by (auto simp: less_eq_prod_def)
  show ?case
  proof (cases "c \<le> b")
    case True
    have cov: "covered (set ((a, max b d) # spans)) = covered (set ((a, b) # x # spans))"
    proof
      fix i
      show "covered (set ((a, max b d) # spans)) i = covered (set ((a, b) # x # spans)) i"
        using True ac v by (auto simp: covered_def x max_def)
    qed
    have "(a, max b d) \<le> y" if "y \<in> set spans" for y
      using Cons.prems(1) x that by (auto simp: less_eq_prod_def max_def)
    then have "sorted ((a, max b d) # spans)" using Cons.prems(1) by simp
    then have "mask_loop s copied (a, max b d) out spans =
        out @ masked (covered (set ((a, max b d) # spans))) copied False (drop copied s)"
    proof (rule Cons.IH [OF _ _ Cons.prems(3)])
      fix y z assume "(y, z) \<in> set ((a, max b d) # spans)"
      then show "y < z \<and> z \<le> length s" using Cons.prems(2) [of y z] v by (auto simp: max_def)
    qed
    then show ?thesis unfolding cov using True x by simp
  next
    case False
    let ?P = "covered (set ((a, b) # x # spans))" and ?Q = "covered (set ((c, d) # spans))"
    have "masked ?P copied False (drop copied s) = slice copied a s @ LOG_MASK @ masked ?P b False (drop b s)"
    proof (rule masked_first)
      show "\<not> ?P j" if "copied \<le> j" "j < a" for j using that ac starts by (fastforce simp: covered_def x)
      show "\<not> ?P b" using False starts by (fastforce simp: covered_def x)
    qed (use Cons.prems(3) v in \<open>auto simp: covered_def\<close>)
    also have "masked ?P b False (drop b s) = masked ?Q b False (drop b s)"
      by (rule masked_cong) (auto simp: covered_def x)
    finally show ?thesis using Cons.IH [of c d b "out @ slice copied a s @ LOG_MASK"] Cons.prems False x by auto
  qed
qed

section \<open>Redaction\<close>

text \<open>The automaton finds all the matches of its patterns, overlapping ones too, in any order.\<close>

definition finds_all :: "span_finder \<Rightarrow> bool" where
  "finds_all finder \<longleftrightarrow>
     (\<forall>patterns s. set (finder patterns s) = {(k, k + length p) |k p. p \<in> set patterns \<and> prefix p (drop k s) \<and> k \<le> length s})"

definition in_secret :: "string list \<Rightarrow> string \<Rightarrow> nat \<Rightarrow> bool" where
  "in_secret secrets s i \<longleftrightarrow>
     (\<exists>p \<in> set secrets. MIN_SECRET_LEN \<le> length p \<and> (\<exists>k \<le> i. i < k + length p \<and> prefix p (drop k s)))"

lemma mask_spans_masked:
  assumes "\<And>x y. (x, y) \<in> set spans \<Longrightarrow> x < y \<and> y \<le> length s"
  shows "(case mask_spans spans s of CowBorrowed t \<Rightarrow> t | CowOwned t \<Rightarrow> t) = masked (covered (set spans)) 0 False s"
proof (cases "sort spans")
  case Nil
  then have "spans = []" by (metis length_0_conv length_sort)
  then show ?thesis using Nil by (simp add: mask_spans_def masked_free covered_def)
next
  case (Cons x rest)
  obtain a b where x: "x = (a, b)" by (cases x) auto
  have e: "set ((a, b) # rest) = set spans" using Cons x by (metis set_sort)
  have "mask_loop s 0 (a, b) [] rest = [] @ masked (covered (set ((a, b) # rest))) 0 False (drop 0 s)"
  proof (rule mask_loop_masked)
    show "sorted ((a, b) # rest)" by (metis Cons sorted_sort x)
    show "\<And>x y. (x, y) \<in> set ((a, b) # rest) \<Longrightarrow> x < y \<and> y \<le> length s" unfolding e by (rule assms)
  qed simp
  then show ?thesis using Cons x e by (simp add: mask_spans_def)
qed

text \<open>
  C30. No part of a registered secret reaches a log: in the redacted text every run of bytes that
  belong to occurrences of secrets of eight bytes or more, overlapping and touching ones together, is one mask,
  before the token pattern is replaced; so texts that differ only within secrets are shown alike.
\<close>

theorem redact_masks_secrets:
  assumes finder: "finds_all finder" and re: "\<And>t. \<not> is_match t \<Longrightarrow> replace_all t = t"
  shows "redact finder is_match replace_all (redactor_new secrets) s = replace_all (masked (in_secret secrets s) 0 False s)"
proof -
  let ?pats = "filter (\<lambda>s. MIN_SECRET_LEN \<le> length s) secrets"
  have cov: "covered (set (finder ?pats s)) = in_secret secrets s"
  proof
    fix i
    have "covered (set (finder ?pats s)) i \<longleftrightarrow>
        (\<exists>k p. p \<in> set ?pats \<and> prefix p (drop k s) \<and> k \<le> length s \<and> k \<le> i \<and> i < k + length p)"
      using finder by (auto simp: finds_all_def covered_def)
    also have "\<dots> \<longleftrightarrow> in_secret secrets s i" unfolding in_secret_def
    proof
      assume "\<exists>p \<in> set secrets. MIN_SECRET_LEN \<le> length p \<and> (\<exists>k \<le> i. i < k + length p \<and> prefix p (drop k s))"
      then obtain p k where p: "p \<in> set secrets" "MIN_SECRET_LEN \<le> length p" "k \<le> i" "i < k + length p" "prefix p (drop k s)" by blast
      then have "k \<le> length s" using prefix_length_le [OF p(5)] by (simp add: MIN_SECRET_LEN_def)
      with p show "\<exists>k p. p \<in> set ?pats \<and> prefix p (drop k s) \<and> k \<le> length s \<and> k \<le> i \<and> i < k + length p" by auto
    qed auto
    finally show "covered (set (finder ?pats s)) i = in_secret secrets s i" .
  qed
  have valid: "x < y \<and> y \<le> length s" if xy: "(x, y) \<in> set (finder ?pats s)" for x y
  proof -
    obtain p where p: "y = x + length p" "p \<in> set ?pats" "prefix p (drop x s)" "x \<le> length s"
      using finder xy by (auto simp: finds_all_def)
    then show ?thesis using prefix_length_le [OF p(3)] by (auto simp: MIN_SECRET_LEN_def)
  qed
  have m: "(case mask_spans (finder ?pats s) s of CowBorrowed t \<Rightarrow> t | CowOwned t \<Rightarrow> t) = masked (in_secret secrets s) 0 False s"
    unfolding cov [symmetric] by (rule mask_spans_masked) (rule valid)
  show ?thesis
  proof (cases "?pats = []")
    case True
    then have "masked (in_secret secrets s) 0 False s = s"
      by (intro masked_free) (auto simp: in_secret_def filter_empty_conv)
    then show ?thesis using True by (simp add: redact_def redactor_new_def)
  next
    case False
    then show ?thesis using m re by (cases "mask_spans (finder ?pats s) s") (auto simp: redact_def redactor_new_def Let_def)
  qed
qed

text \<open>Two secrets that overlap in a line, and one too short to register.\<close>

definition demo_finder :: span_finder where
  "demo_finder patterns s =
     concat (map (\<lambda>k. map (\<lambda>p. (k, k + length p)) (filter (\<lambda>p. prefix p (drop k s)) patterns)) [0..<Suc (length s)])"

lemma demo_finder_all: "finds_all demo_finder"
  unfolding finds_all_def demo_finder_def
proof (intro allI set_eqI)
  fix patterns s and x :: "nat \<times> nat"
  show "x \<in> set (concat (map (\<lambda>k. map (\<lambda>p. (k, k + length p)) (filter (\<lambda>p. prefix p (drop k s)) patterns)) [0..<Suc (length s)])) \<longleftrightarrow>
      x \<in> {(k, k + length p) |k p. p \<in> set patterns \<and> prefix p (drop k s) \<and> k \<le> length s}"
    unfolding set_concat set_map image_iff set_filter set_upt by (cases x) (fastforce simp: less_Suc_eq_le)
qed

theorem redact_masks_secrets_witness:
  "redact demo_finder (\<lambda>_. False) id (redactor_new [''word1234'', ''password1'', ''y'']) ''in password1234 y'' = ''in ##### y'' \<and>
   masked (in_secret [''word1234'', ''password1'', ''y''] ''in password1234 y'') 0 False ''in password1234 y'' = ''in ##### y''"
proof -
  have new: "redactor_new [''word1234'', ''password1'', ''y''] = Some [''word1234'', ''password1'']" by code_simp
  have spans: "demo_finder [''word1234'', ''password1''] ''in password1234 y'' = [(3, 12), (7, 15)]" by code_simp
  have "sort [(3, 12), (7, 15)] = [(3, 12), (7, 15 :: nat) :: nat \<times> nat]" by (simp add: less_eq_prod_def)
  moreover have "mask_loop ''in password1234 y'' 0 (3, 12) [] [(7, 15)] = ''in ##### y''" by code_simp
  ultimately have r: "redact demo_finder (\<lambda>_. False) id (redactor_new [''word1234'', ''password1'', ''y'']) ''in password1234 y'' = ''in ##### y''"
    by (simp add: redact_def new spans mask_spans_def)
  from redact_masks_secrets [OF demo_finder_all, of "\<lambda>_. False" id "[''word1234'', ''password1'', ''y'']" "''in password1234 y''"] r
  show ?thesis by simp
qed

end
