(* ===== verification/Webhook.thy ===== *)
theory Webhook
  imports Facts_Extract Redactor Long_Poll
begin

text \<open>
  Webhook ingress, \<open>crates/tgin-botapi/src/webhook.rs\<close>: which client may post, reading the body under
  its cap, the order of the checks, admission before the answer, and the retried Bot API call. The
  networks of the \<open>ipnet\<close> crate, the comparison of \<open>subtle\<close>, the JSON reader and the sink are arguments. A
  header line is its text, if it is visible ASCII (\<open>HeaderValue::to_str\<close>).
\<close>

section \<open>IP addresses\<close>

datatype ip_addr = V4 "nat list" | V6 "nat list"

definition to_canonical :: "ip_addr \<Rightarrow> ip_addr" where
  "to_canonical a =
     (case a of
        V6 [0, 0, 0, 0, 0, m, hi, lo] \<Rightarrow>
          if m = 65535 then V4 [hi div 256, hi mod 256, lo div 256, lo mod 256] else a
      | _ \<Rightarrow> a)"

text \<open>Parsing, as the standard library does it.\<close>

definition digit_value :: "nat \<Rightarrow> byte \<Rightarrow> nat option" where
  "digit_value radix b = (case hex_digit_value b of Some d \<Rightarrow> if d < radix then Some d else None | None \<Rightarrow> None)"

definition read_number :: "nat \<Rightarrow> nat \<Rightarrow> bool \<Rightarrow> nat \<Rightarrow> string \<Rightarrow> (nat \<times> string) option" where
  "read_number radix max_digits allow_zero_prefix bound s =
     (let ds = takeWhile (\<lambda>b. digit_value radix b \<noteq> None) s;
          n = fold (\<lambda>b n. radix * n + the (digit_value radix b)) ds 0
      in if ds = [] \<or> max_digits < length ds \<or> bound < n then None
         else if \<not> allow_zero_prefix \<and> hd ds = CHR ''0'' \<and> 1 < length ds then None
         else Some (n, drop (length ds) s))"

definition read_separator :: "char \<Rightarrow> bool \<Rightarrow> (string \<Rightarrow> ('a \<times> string) option) \<Rightarrow> string \<Rightarrow> ('a \<times> string) option" where
  "read_separator sep first p s =
     (if first then p s else (case strip_prefix [sep] s of None \<Rightarrow> None | Some s \<Rightarrow> p s))"

fun read_octets :: "nat \<Rightarrow> bool \<Rightarrow> string \<Rightarrow> (nat list \<times> string) option" where
  "read_octets 0 first s = Some ([], s)"
| "read_octets (Suc n) first s =
     (case read_separator CHR ''.'' first (read_number 10 3 False 255) s of
        None \<Rightarrow> None
      | Some (x, s) \<Rightarrow> (case read_octets n False s of None \<Rightarrow> None | Some (xs, s) \<Rightarrow> Some (x # xs, s)))"

fun read_groups :: "nat \<Rightarrow> bool \<Rightarrow> string \<Rightarrow> nat list \<times> bool \<times> string" where
  "read_groups 0 first s = ([], False, s)"
| "read_groups (Suc n) first s =
     (case (if 0 < n then read_separator CHR '':'' first (read_octets 4 True) s else None) of
        Some (os, s') \<Rightarrow> ([256 * os ! 0 + os ! 1, 256 * os ! 2 + os ! 3], True, s')
      | None \<Rightarrow>
          (case read_separator CHR '':'' first (read_number 16 4 True 65535) s of
             None \<Rightarrow> ([], False, s)
           | Some (g, s') \<Rightarrow> (case read_groups n False s' of (gs, v4, s'') \<Rightarrow> (g # gs, v4, s''))))"

definition read_ipv6 :: "string \<Rightarrow> (nat list \<times> string) option" where
  "read_ipv6 s =
     (case read_groups 8 True s of
        (head, v4, r) \<Rightarrow>
          if length head = 8 then Some (head, r)
          else if v4 then None
          else (case strip_prefix ''::'' r of
                  None \<Rightarrow> None
                | Some r \<Rightarrow>
                    (case read_groups (7 - length head) True r of
                       (tail, _, r) \<Rightarrow> Some (head @ replicate (8 - length head - length tail) 0 @ tail, r))))"

definition parse_ip :: "string \<Rightarrow> ip_addr option" where
  "parse_ip s =
     (case read_octets 4 True s of
        Some (os, r) \<Rightarrow> if r = [] then Some (V4 os) else None
      | None \<Rightarrow> (case read_ipv6 s of Some (gs, r) \<Rightarrow> if r = [] then Some (V6 gs) else None | None \<Rightarrow> None))"

definition is_trimmed :: "char \<Rightarrow> bool" where
  "is_trimmed c \<longleftrightarrow> (of_char c :: nat) \<in> {9, 10, 11, 12, 13, 32}"

definition str_trim :: "string \<Rightarrow> string" where
  "str_trim s = rev (dropWhile is_trimmed (rev (dropWhile is_trimmed s)))"

section \<open>Who may post\<close>

datatype 'net wh_allowlist = AllowAny | AllowTelegram | AllowCidrs "'net list"

record ('net, 's) wh_ingress =
  ig_secret :: "bytes option"
  ig_allowlist :: "'net wh_allowlist"
  ig_trusted_proxies :: "'net list"
  ig_body_limit :: nat
  ig_net :: "ip_addr \<Rightarrow> nat \<Rightarrow> 'net"
  ig_contains :: "'net \<Rightarrow> ip_addr \<Rightarrow> bool"
  ig_ct_eq :: "bytes \<Rightarrow> bytes \<Rightarrow> bool"
  ig_parse :: "bytes \<Rightarrow> json_value option"
  ig_sink :: "int \<Rightarrow> bytes \<Rightarrow> facts \<Rightarrow> 's \<Rightarrow> admit_result \<times> 's"

definition TELEGRAM_NETS :: "('net, 's) wh_ingress \<Rightarrow> 'net list" where
  "TELEGRAM_NETS ig = [ig_net ig (V4 [149, 154, 160, 0]) 20, ig_net ig (V4 [91, 108, 4, 0]) 22]"

definition allows :: "('net, 's) wh_ingress \<Rightarrow> ip_addr \<Rightarrow> bool" where
  "allows ig addr =
     (let addr = to_canonical addr
      in case ig_allowlist ig of
           AllowAny \<Rightarrow> True
         | AllowTelegram \<Rightarrow> list_ex (\<lambda>n. ig_contains ig n addr) (TELEGRAM_NETS ig)
         | AllowCidrs nets \<Rightarrow> list_ex (\<lambda>n. ig_contains ig n addr) nets)"

text \<open>One line, right to left: the client so far, or the answer.\<close>

fun forwarded_line :: "(ip_addr \<Rightarrow> bool) \<Rightarrow> string list \<Rightarrow> ip_addr option \<Rightarrow> ip_addr option + ip_addr option" where
  "forwarded_line trusted [] client = Inl client"
| "forwarded_line trusted (entry # entries) client =
     (case parse_ip (str_trim entry) of
        None \<Rightarrow> Inr None
      | Some ip \<Rightarrow>
          (let ip = to_canonical ip
           in if \<not> trusted ip then Inr (Some ip) else forwarded_line trusted entries (Some ip)))"

fun forwarded_lines :: "(ip_addr \<Rightarrow> bool) \<Rightarrow> string option list \<Rightarrow> ip_addr option \<Rightarrow> ip_addr option" where
  "forwarded_lines trusted [] client = client"
| "forwarded_lines trusted (None # lines) client = None"
| "forwarded_lines trusted (Some line # lines) client =
     (case forwarded_line trusted (rev (split_on CHR '','' line)) client of
        Inr answer \<Rightarrow> answer
      | Inl client \<Rightarrow> forwarded_lines trusted lines client)"

definition forwarded_client :: "string option list \<Rightarrow> (ip_addr \<Rightarrow> bool) \<Rightarrow> ip_addr option option" where
  "forwarded_client lines trusted = (if lines = [] then None else Some (forwarded_lines trusted (rev lines) None))"

definition client_ip :: "('net \<Rightarrow> ip_addr \<Rightarrow> bool) \<Rightarrow> ip_addr \<Rightarrow> string option list \<Rightarrow> 'net list \<Rightarrow> ip_addr option" where
  "client_ip contains peer lines trusted_proxies =
     (let trusted = (\<lambda>ip. list_ex (\<lambda>n. contains n ip) trusted_proxies);
          peer = to_canonical peer
      in if \<not> trusted peer then Some peer
         else (case forwarded_client lines trusted of Some answer \<Rightarrow> answer | None \<Rightarrow> Some peer))"

section \<open>The request\<close>

datatype body_frame = Data bytes | Trailers | Broken

record wh_request =
  wq_peer :: "ip_addr option"
  wq_forwarded :: "string option list"
  wq_secret :: "bytes option"
  wq_size_hint :: nat
  wq_frames :: "body_frame list"

datatype body_error = TooLarge | BodyRead

fun read_frames :: "nat \<Rightarrow> body_frame list \<Rightarrow> bytes option \<Rightarrow> bytes \<Rightarrow> nat \<Rightarrow> body_error + bytes" where
  "read_frames limit [] first rest len = Inr (case first of None \<Rightarrow> rest | Some d \<Rightarrow> d)"
| "read_frames limit (Broken # fs) first rest len = Inl BodyRead"
| "read_frames limit (Trailers # fs) first rest len = read_frames limit fs first rest len"
| "read_frames limit (Data d # fs) first rest len =
     (let len = sat_add64 len (length d)
      in if limit < len then Inl TooLarge
         else if first = None \<and> rest = [] then read_frames limit fs (Some d) rest len
         else read_frames limit fs None (rest @ (case first of None \<Rightarrow> [] | Some e \<Rightarrow> e) @ d) len)"

definition read_body :: "nat \<Rightarrow> wh_request \<Rightarrow> body_error + bytes" where
  "read_body limit req =
     (if limit < wq_size_hint req then Inl TooLarge else read_frames limit (wq_frames req) None [] 0)"

definition address_allowed :: "('net, 's) wh_ingress \<Rightarrow> wh_request \<Rightarrow> bool" where
  "address_allowed ig req =
     (case ig_allowlist ig of
        AllowAny \<Rightarrow> True
      | _ \<Rightarrow>
          (case Option.bind (wq_peer req) (\<lambda>peer. client_ip (ig_contains ig) peer (wq_forwarded req) (ig_trusted_proxies ig)) of
             None \<Rightarrow> False | Some ip \<Rightarrow> allows ig ip))"

definition secret_matches :: "('net, 's) wh_ingress \<Rightarrow> wh_request \<Rightarrow> bool" where
  "secret_matches ig req =
     (case ig_secret ig of
        None \<Rightarrow> True
      | Some expected \<Rightarrow> (case wq_secret req of None \<Rightarrow> False | Some v \<Rightarrow> secret_eq (ig_ct_eq ig) v expected))"

text \<open>
  What the handler leaves: the status, whether it asks to retry later, the sink, the counted errors and
  updates. Whether ingest is cancelled is an argument for each time it is looked at: on the head, after
  the body, after the commit.
\<close>

record 's wh_result =
  wr_status :: nat
  wr_retry_after :: bool
  wr_sink :: 's
  wr_errors :: "source_reason list"
  wr_updates :: nat

definition wh_answer :: "nat \<Rightarrow> 's \<Rightarrow> source_reason list \<Rightarrow> nat \<Rightarrow> 's wh_result" where
  "wh_answer status k errors n = \<lparr>wr_status = status, wr_retry_after = False, wr_sink = k, wr_errors = errors, wr_updates = n\<rparr>"

definition retry_later :: "'s \<Rightarrow> nat \<Rightarrow> 's wh_result" where
  "retry_later k n = \<lparr>wr_status = 503, wr_retry_after = True, wr_sink = k, wr_errors = [], wr_updates = n\<rparr>"

definition handle :: "('net, 's) wh_ingress \<Rightarrow> bool \<times> bool \<times> bool \<Rightarrow> wh_request \<Rightarrow> 's \<Rightarrow> 's wh_result" where
  "handle ig cancelled req k =
     (case cancelled of
        (at_head, after_body, after_commit) \<Rightarrow>
          if \<not> address_allowed ig req then wh_answer 403 k [SrUnauthorized] 0
          else if \<not> secret_matches ig req then wh_answer 401 k [SrUnauthorized] 0
          else if at_head then retry_later k 0
          else
            (case read_body (ig_body_limit ig) req of
               Inl TooLarge \<Rightarrow> wh_answer 413 k [SrDecode] 0
             | Inl BodyRead \<Rightarrow> wh_answer 400 k [SrNetwork] 0
             | Inr body \<Rightarrow>
                 (case fst (extract_facts (ig_parse ig) body []) of
                    Inl _ \<Rightarrow> wh_answer 400 k [SrDecode] 0
                  | Inr (update, facts) \<Rightarrow>
                      if after_body then retry_later k 0
                      else
                        (case ig_sink ig update body facts k of
                           (Admitted, k) \<Rightarrow> if after_commit then retry_later k 1 else wh_answer 200 k [] 1
                         | (Unroutable, k) \<Rightarrow> wh_answer 200 k [] 1
                         | (ABackpressure, k) \<Rightarrow> retry_later k 0))))"

section \<open>Registration\<close>

datatype 'a retried = RetriedDone 'a | RetriedStopped | RetriedRejected api_error

definition RETRY_BACKOFF :: "duration \<times> duration" where
  "RETRY_BACKOFF = (1 * NANOS_PER_SEC, 300 * NANOS_PER_SEC)"

text \<open>
  One turn per element: the random draw, whether the wait was cut short, and what the attempt came to,
  \<open>None\<close> if it was cancelled. \<open>Inl\<close>: more turns are needed; the waits so far are kept.
\<close>

fun retry_turns ::
  "bool \<Rightarrow> api_error option \<Rightarrow> backoff \<Rightarrow> ((nat \<Rightarrow> nat) \<times> bool \<times> (api_error + 'a) option) list \<Rightarrow>
     (api_error option + 'a retried) \<times> duration list" where
  "retry_turns local_upstream failed b [] =
     (case failed of
        Some err \<Rightarrow> if is_fatal err local_upstream then (Inr (RetriedRejected err), []) else (Inl failed, [])
      | None \<Rightarrow> (Inl None, []))"
| "retry_turns local_upstream failed b ((draw, stopped, outcome) # turns) =
     (case failed of
        None \<Rightarrow>
          (case outcome of
             None \<Rightarrow> (Inr RetriedStopped, [])
           | Some (Inr v) \<Rightarrow> (Inr (RetriedDone v), [])
           | Some (Inl err) \<Rightarrow> retry_turns local_upstream (Some err) b turns)
      | Some err \<Rightarrow>
          if is_fatal err local_upstream then (Inr (RetriedRejected err), [])
          else
            (case next_delay draw b of
               (computed, b) \<Rightarrow>
                 (let delay = honor_retry_after computed (api_retry_after err) RETRY_AFTER_CAP;
                      (r, ds) =
                        (if stopped then (Inr RetriedStopped, [])
                         else (case outcome of
                                 None \<Rightarrow> (Inr RetriedStopped, [])
                               | Some (Inr v) \<Rightarrow> (Inr (RetriedDone v), [])
                               | Some (Inl err) \<Rightarrow> retry_turns local_upstream (Some err) b turns))
                  in (r, delay # ds))))"

definition retry_call ::
  "bool \<Rightarrow> api_error option \<Rightarrow> ((nat \<Rightarrow> nat) \<times> bool \<times> (api_error + 'a) option) list \<Rightarrow>
     (api_error option + 'a retried) \<times> duration list" where
  "retry_call local_upstream failed turns =
     (case RETRY_BACKOFF of (initial, mx) \<Rightarrow> retry_turns local_upstream failed (backoff_new initial mx 0) turns)"

end
