(* ===== verification/Webhook_Props.thy ===== *)
theory Webhook_Props
  imports Webhook
begin

text \<open>
  A webhook request is acknowledged only if everything about it held and the sink took the update; and
  the address it is judged by cannot be forged.
\<close>

section \<open>The body\<close>

definition frame_data :: "body_frame \<Rightarrow> bytes" where
  "frame_data f = (case f of Data d \<Rightarrow> d | _ \<Rightarrow> [])"

definition body_of :: "wh_request \<Rightarrow> bytes" where
  "body_of req = concat (map frame_data (wq_frames req))"

definition body_within :: "nat \<Rightarrow> wh_request \<Rightarrow> bool" where
  "body_within limit req \<longleftrightarrow> wq_size_hint req \<le> limit \<and> Broken \<notin> set (wq_frames req) \<and> length (body_of req) \<le> limit"

lemma read_frames_exact:
  assumes "limit < U64_MAX" and "len = length (rest @ (case first of None \<Rightarrow> [] | Some e \<Rightarrow> e))" and "len \<le> limit"
    and "first = None \<or> rest = []"
  shows "read_frames limit fs first rest len = Inr body \<longleftrightarrow>
    Broken \<notin> set fs \<and> body = rest @ (case first of None \<Rightarrow> [] | Some e \<Rightarrow> e) @ concat (map frame_data fs) \<and> length body \<le> limit"
  using assms
proof (induction limit fs first rest len rule: read_frames.induct)
  case (4 limit d fs first rest len)
  have sat: "sat_add64 len (length d) = len + length d \<or> limit < sat_add64 len (length d) \<and> limit < len + length d"
    using 4(3) by (auto simp: sat_add64_def)
  show ?case
  proof (cases "limit < sat_add64 len (length d)")
    case True
    then have "limit < len + length d" using sat by auto
    with True 4(4) show ?thesis by (auto simp: frame_data_def Let_def split: option.splits)
  next
    case False
    then have len: "sat_add64 len (length d) = len + length d" using sat by auto
    show ?thesis
    proof (cases "first = None \<and> rest = []")
      case True
      with False len 4(4) show ?thesis
        using 4(1) [OF refl _ True] 4(3) by (simp add: frame_data_def)
    next
      case first: False
      have "read_frames limit (Data d # fs) first rest len =
          read_frames limit fs None (rest @ (case first of None \<Rightarrow> [] | Some e \<Rightarrow> e) @ d) (len + length d)"
        using False len first by (auto simp: Let_def)
      with False len 4(4) first show ?thesis
        using 4(2) [OF refl _ first] 4(3) by (simp add: frame_data_def)
    qed
  qed
qed (auto simp: frame_data_def split: option.splits)

lemma read_body_exact:
  assumes "limit < U64_MAX"
  shows "read_body limit req = Inr body \<longleftrightarrow> body_within limit req \<and> body = body_of req"
  using read_frames_exact [OF assms, of 0 "[]" None "wq_frames req" body]
  by (auto simp: read_body_def body_within_def body_of_def)

section \<open>Acknowledgement\<close>

definition secret_given :: "('net, 's) wh_ingress \<Rightarrow> wh_request \<Rightarrow> bool" where
  "secret_given ig req = (case ig_secret ig of None \<Rightarrow> True | Some s \<Rightarrow> wq_secret req = Some s)"

text \<open>What is offered to the sink: the update of a request that passed every check.\<close>

definition offered :: "('net, 's) wh_ingress \<Rightarrow> bool \<times> bool \<times> bool \<Rightarrow> wh_request \<Rightarrow> (int \<times> bytes \<times> facts) option" where
  "offered ig cancelled req =
     (if address_allowed ig req \<and> secret_given ig req \<and> \<not> fst cancelled \<and> \<not> fst (snd cancelled) \<and> body_within (ig_body_limit ig) req
      then (case fst (extract_facts (ig_parse ig) (body_of req) []) of Inr (i, f) \<Rightarrow> Some (i, body_of req, f) | Inl _ \<Rightarrow> None)
      else None)"

text \<open>
  C26. A webhook request is acknowledged with 200 exactly if it came from an allowed address with the
  right secret, its whole body was read within the limit and is a readable update, ingest ran throughout, and the
  sink admitted the update or no rule matches it. The sink is offered the whole body, once, and only
  then; an update it may hold that is not acknowledged is asked for again with a 503.
\<close>

theorem webhook_acknowledges:
  assumes "\<And>a b. ig_ct_eq ig a b \<longleftrightarrow> a = b" and "ig_body_limit ig < U64_MAX"
  shows "case offered ig cancelled req of
      None \<Rightarrow> wr_sink (handle ig cancelled req k) = k \<and> wr_status (handle ig cancelled req k) \<noteq> 200
    | Some (i, body, f) \<Rightarrow>
        wr_sink (handle ig cancelled req k) = snd (ig_sink ig i body f k) \<and>
        (if fst (ig_sink ig i body f k) = Unroutable \<or> fst (ig_sink ig i body f k) = Admitted \<and> \<not> snd (snd cancelled)
         then wr_status (handle ig cancelled req k) = 200
         else wr_status (handle ig cancelled req k) = 503 \<and> wr_retry_after (handle ig cancelled req k))"
proof -
  obtain c1 c2 c3 where c: "cancelled = (c1, c2, c3)" by (cases cancelled) auto
  have sec: "secret_matches ig req \<longleftrightarrow> secret_given ig req"
    using secret_eq_exact [of "ig_ct_eq ig"] assms(1)
    by (auto simp: secret_matches_def secret_given_def split: option.splits)
  note body = read_body_exact [OF assms(2), of req]
  show ?thesis
  proof (cases "read_body (ig_body_limit ig) req")
    case (Inl e)
    then have "\<not> body_within (ig_body_limit ig) req" using body by auto
    then show ?thesis using Inl by (cases e) (auto simp: handle_def offered_def c wh_answer_def retry_later_def)
  next
    case (Inr b)
    then have b: "body_within (ig_body_limit ig) req" "b = body_of req" using body by auto
    show ?thesis
      using Inr b sec by (auto simp: handle_def offered_def c wh_answer_def retry_later_def split: sum.splits prod.splits admit_result.splits)
  qed
qed

text \<open>A post through a trusted proxy, with the secret, in two frames; a stop during the commit is not acknowledged.\<close>

definition demo_ingress :: "(ip_addr, nat) wh_ingress" where
  "demo_ingress =
     \<lparr>ig_secret = Some ''s3'', ig_allowlist = AllowCidrs [V4 [9, 9, 9, 9]], ig_trusted_proxies = [V4 [10, 0, 0, 1]],
      ig_body_limit = 10, ig_net = (\<lambda>a _. a), ig_contains = (=), ig_ct_eq = (=),
      ig_parse = (\<lambda>_. Some (JObject [((True, Some ''update_id''), Some ''7'', JNumber (Some (JU64 7)))])),
      ig_sink = (\<lambda>_ _ _ n. (Admitted, n + 1))\<rparr>"

definition demo_post :: wh_request where
  "demo_post = \<lparr>wq_peer = Some (V6 [0, 0, 0, 0, 0, 65535, 2560, 1]), wq_forwarded = [Some ''6.6.6.6, 9.9.9.9''],
     wq_secret = Some ''s3'', wq_size_hint = 2, wq_frames = [Data ''{'', Trailers, Data ''}'']\<rparr>"

theorem webhook_acknowledges_witness:
  "wr_status (handle demo_ingress (False, False, False) demo_post 4) = 200 \<and>
   wr_sink (handle demo_ingress (False, False, False) demo_post 4) = 5 \<and>
   wr_status (handle demo_ingress (False, False, True) demo_post 4) = 503 \<and>
   wr_status (handle demo_ingress (False, False, False) (demo_post\<lparr>wq_secret := None\<rparr>) 4) \<noteq> 200"
proof -
  have h: "ig_ct_eq demo_ingress a b \<longleftrightarrow> a = b" "ig_body_limit demo_ingress < U64_MAX" for a b
    by (simp_all add: demo_ingress_def U64_MAX_def)
  have sink: "ig_sink demo_ingress i b f 4 = (Admitted, 5)" for i b f by (simp add: demo_ingress_def)
  have a: "address_allowed demo_ingress demo_post" by code_simp
  have w: "secret_given demo_ingress demo_post" "body_within (ig_body_limit demo_ingress) demo_post" by code_simp+
  have x: "fst (extract_facts (ig_parse demo_ingress) b []) = Inr (7, facts_default)" for b
    by (simp add: extract_facts_def demo_ingress_def read_update_def top_key_of_def strict_i64_def lenient_i64_def any_ok_def
        I64_MAX_def into_facts_def)
  have o: "offered demo_ingress (False, False, c) demo_post = Some (7, body_of demo_post, facts_default)" for c
    by (simp add: offered_def a w x)
  have n: "offered demo_ingress (False, False, False) (demo_post\<lparr>wq_secret := None\<rparr>) = None"
    by (simp add: offered_def secret_given_def demo_ingress_def)
  from webhook_acknowledges [OF h, of "(False, False, False)" demo_post 4] webhook_acknowledges [OF h, of "(False, False, True)" demo_post 4]
    webhook_acknowledges [OF h, of "(False, False, False)" "demo_post\<lparr>wq_secret := None\<rparr>" 4]
  show ?thesis unfolding o n by (simp add: sink)
qed

section \<open>The client address\<close>

text \<open>The entries of all the lines, in order; an unreadable line is an unreadable entry.\<close>

definition forwarded_entries :: "string option list \<Rightarrow> ip_addr option list" where
  "forwarded_entries lines =
     concat (map (\<lambda>l. case l of None \<Rightarrow> [None] | Some t \<Rightarrow> map (\<lambda>e. map_option to_canonical (parse_ip (str_trim e))) (split_on CHR '','' t)) lines)"

definition is_proxy :: "(ip_addr \<Rightarrow> bool) \<Rightarrow> ip_addr option \<Rightarrow> bool" where
  "is_proxy trusted e = (case e of None \<Rightarrow> False | Some ip \<Rightarrow> trusted ip)"

text \<open>The right-most entry that is not a trusted proxy's, or else the left-most.\<close>

definition named_client :: "(ip_addr \<Rightarrow> bool) \<Rightarrow> ip_addr option list \<Rightarrow> ip_addr option" where
  "named_client trusted es = (case dropWhile (is_proxy trusted) (rev es) of [] \<Rightarrow> hd es | e # _ \<Rightarrow> e)"

lemma forwarded_line_reads:
  "forwarded_line trusted es client =
     (let ips = map (\<lambda>e. map_option to_canonical (parse_ip (str_trim e))) es
      in case dropWhile (is_proxy trusted) ips of
           [] \<Rightarrow> Inl (if es = [] then client else last ips)
         | e # _ \<Rightarrow> Inr e)"
proof (induction es arbitrary: client)
  case (Cons a es)
  then show ?case by (auto simp: is_proxy_def Let_def simp del: dropWhile_eq_Nil_conv split: option.split list.split)
qed simp

lemma forwarded_lines_reads:
  "forwarded_lines trusted lines client =
     (let es = concat (map (\<lambda>l. rev (forwarded_entries [l])) lines)
      in case dropWhile (is_proxy trusted) es of [] \<Rightarrow> (if es = [] then client else last es) | e # _ \<Rightarrow> e)"
proof (induction trusted lines client rule: forwarded_lines.induct)
  case (3 trusted line lines client)
  let ?es = "rev (forwarded_entries [Some line])"
  have e: "?es = map (\<lambda>e. map_option to_canonical (parse_ip (str_trim e))) (rev (split_on CHR '','' line))"
    by (simp add: forwarded_entries_def rev_map)
  have ne: "?es \<noteq> []" using e by simp
  show ?case
  proof (cases "dropWhile (is_proxy trusted) ?es")
    case Nil
    then have all: "\<And>x. x \<in> set ?es \<Longrightarrow> is_proxy trusted x" by (simp add: dropWhile_eq_Nil_conv)
    have l: "forwarded_line trusted (rev (split_on CHR '','' line)) client = Inl (last ?es)"
      unfolding forwarded_line_reads e [symmetric] Let_def using Nil ne by (simp del: dropWhile_eq_Nil_conv)
    obtain tl where tl: "concat (map (\<lambda>l. rev (forwarded_entries [l])) lines) = tl" by blast
    have d: "dropWhile (is_proxy trusted) (?es @ tl) = dropWhile (is_proxy trusted) tl" by (rule dropWhile_append2) (rule all)
    have c: "concat (map (\<lambda>l. rev (forwarded_entries [l])) (Some line # lines)) = ?es @ tl" by (simp add: tl)
    have "forwarded_lines trusted (Some line # lines) client = forwarded_lines trusted lines (last ?es)" by (simp add: l)
    also have "\<dots> = (case dropWhile (is_proxy trusted) tl of [] \<Rightarrow> if tl = [] then last ?es else last tl | e # _ \<Rightarrow> e)"
      using 3 [OF l] unfolding Let_def tl .
    finally show ?thesis unfolding c Let_def d last_append using ne by (cases tl) simp_all
  next
    case (Cons x xs)
    then have "forwarded_line trusted (rev (split_on CHR '','' line)) client = Inr x"
      unfolding forwarded_line_reads e [symmetric] Let_def by simp
    moreover have "dropWhile (is_proxy trusted) (?es @ ys) = (x # xs) @ ys" for ys
      using Cons by (metis dropWhile_append dropWhile_eq_Nil_conv list.distinct(1) dropWhile_append1 append_Nil2 dropWhile_append3)
    ultimately show ?thesis by (simp add: Let_def)
  qed
qed (simp_all add: forwarded_entries_def is_proxy_def)

lemma forwarded_client_reads:
  "lines \<noteq> [] \<Longrightarrow> forwarded_client lines trusted = Some (named_client trusted (forwarded_entries lines))"
proof -
  assume ne: "lines \<noteq> []"
  have r: "concat (map (\<lambda>l. rev (forwarded_entries [l])) (rev lines)) = rev (forwarded_entries lines)"
    by (simp add: forwarded_entries_def rev_concat rev_map comp_def)
  have "forwarded_entries lines \<noteq> []" using ne by (cases lines) (auto simp: forwarded_entries_def split: option.splits)
  then show ?thesis using ne unfolding forwarded_client_def forwarded_lines_reads r Let_def named_client_def
    by (simp add: last_rev del: dropWhile_eq_Nil_conv split: list.split)
qed

definition in_nets :: "('net \<Rightarrow> ip_addr \<Rightarrow> bool) \<Rightarrow> 'net list \<Rightarrow> ip_addr \<Rightarrow> bool" where
  "in_nets contains nets ip = list_ex (\<lambda>n. contains n ip) nets"

lemma client_ip_reads:
  "lines \<noteq> [] \<Longrightarrow> client_ip contains peer lines proxies =
     (if in_nets contains proxies (to_canonical peer) then named_client (in_nets contains proxies) (forwarded_entries lines)
      else Some (to_canonical peer))"
  by (simp add: client_ip_def forwarded_client_reads in_nets_def [abs_def] Let_def)

text \<open>
  C18. The client's address is the peer's, or behind a trusted proxy the right-most forwarded address
  that is not a trusted proxy's (the left-most if all are), unknown if an entry that has to be read is
  malformed. It cannot be forged: whatever a client puts before the entries the proxies added changes
  nothing, once one of these is not a trusted proxy's.
\<close>

theorem client_address_unforgeable:
  assumes "forwarded_entries forged = fake @ forwarded_entries lines" and "\<not> list_all (is_proxy (in_nets contains proxies)) (forwarded_entries lines)"
  shows "client_ip contains peer forged proxies = client_ip contains peer lines proxies \<and>
    client_ip contains peer lines proxies =
      (if in_nets contains proxies (to_canonical peer) then named_client (in_nets contains proxies) (forwarded_entries lines)
       else Some (to_canonical peer))"
proof -
  let ?t = "in_nets contains proxies"
  have ne: "lines \<noteq> []" using assms(2) by (auto simp: forwarded_entries_def)
  have "forwarded_entries lines \<noteq> []" using assms(2) by auto
  then have nf: "forged \<noteq> []" using assms(1) by (auto simp: forwarded_entries_def simp del: concat_eq_Nil_conv)
  have "named_client ?t (forwarded_entries forged) = named_client ?t (forwarded_entries lines)"
  proof -
    have "\<exists>e \<in> set (rev (forwarded_entries lines)). \<not> is_proxy ?t e" using assms(2) by (simp add: list_all_iff)
    then have "dropWhile (is_proxy ?t) (rev (forwarded_entries forged)) = dropWhile (is_proxy ?t) (rev (forwarded_entries lines)) @ rev fake"
      "dropWhile (is_proxy ?t) (rev (forwarded_entries lines)) \<noteq> []"
      unfolding assms(1) rev_append by (auto simp: dropWhile_append1)
    then show ?thesis unfolding named_client_def
      by (cases "dropWhile (is_proxy ?t) (rev (forwarded_entries lines))") (simp_all del: dropWhile_eq_Nil_conv)
  qed
  then show ?thesis unfolding client_ip_reads [OF ne] client_ip_reads [OF nf] by simp
qed

theorem client_address_unforgeable_witness:
  "client_ip (=) (V4 [10, 0, 0, 1]) [Some ''9.9.9.9'', Some ''1.2.3.4, 10.0.0.2''] [V4 [10, 0, 0, 1], V4 [10, 0, 0, 2]] = Some (V4 [1, 2, 3, 4])"
proof -
  have e: "forwarded_entries [Some ''9.9.9.9'', Some ''1.2.3.4, 10.0.0.2''] =
      [Some (V4 [9, 9, 9, 9])] @ forwarded_entries [Some ''1.2.3.4, 10.0.0.2'']" by code_simp
  have n: "\<not> list_all (is_proxy (in_nets (=) [V4 [10, 0, 0, 1], V4 [10, 0, 0, 2]])) (forwarded_entries [Some ''1.2.3.4, 10.0.0.2''])"
    by code_simp
  have "client_ip (=) (V4 [10, 0, 0, 1]) [Some ''1.2.3.4, 10.0.0.2''] [V4 [10, 0, 0, 1], V4 [10, 0, 0, 2]] = Some (V4 [1, 2, 3, 4])"
    by code_simp
  with client_address_unforgeable [OF e n, of "V4 [10, 0, 0, 1]"] show ?thesis by simp
qed

section \<open>Registration\<close>

text \<open>A retried call gives up only for a final error, and never waits more than the cap.\<close>

lemma retry_turns_ends:
  "fst (retry_turns l failed b turns) = Inr (RetriedRejected e) \<Longrightarrow> is_fatal e l"
proof (induction l failed b turns rule: retry_turns.induct)
  case (2 l failed b draw stopped outcome turns)
  then show ?case
    by (auto simp: Let_def split: option.splits sum.splits if_splits prod.splits)
qed (simp split: option.splits if_splits)

lemma retry_turns_waits:
  assumes "bo_floor b = 0" and "bo_max b \<le> RETRY_AFTER_CAP" and "\<And>draw x c. (draw, x) \<in> set turns \<Longrightarrow> draw c \<le> c"
  shows "\<forall>d \<in> set (snd (retry_turns l failed b turns)). d \<le> RETRY_AFTER_CAP"
  using assms
proof (induction turns arbitrary: failed b)
  case (Cons t turns)
  obtain draw stopped outcome where t: "t = (draw, stopped, outcome)" by (cases t) auto
  obtain c b' where nd: "next_delay draw b = (c, b')" by fastforce
  have dr: "draw x \<le> x" for x by (rule Cons.prems(3) [of _ "(stopped, outcome)"]) (simp add: t)
  have "c \<le> bo_max b" using next_delay_bounds(2) [OF dr, of b] Cons.prems(1) nd by simp
  then have cap: "c \<le> RETRY_AFTER_CAP" using Cons.prems(2) by simp
  have b': "bo_floor b' = 0" "bo_max b' \<le> RETRY_AFTER_CAP" using nd Cons.prems(1,2) by (auto simp: next_delay_def Let_def)
  have ih: "\<forall>d \<in> set (snd (retry_turns l f k turns)). d \<le> RETRY_AFTER_CAP" if "bo_floor k = 0" "bo_max k \<le> RETRY_AFTER_CAP" for f k
    by (rule Cons.IH [OF that]) (use Cons.prems(3) in auto)
  have "honor_retry_after c r RETRY_AFTER_CAP \<le> RETRY_AFTER_CAP" for r
    using cap by (simp add: honor_retry_after_def split: option.split)
  then show ?case using ih [OF b'] ih [OF Cons.prems(1,2)]
    by (simp add: t nd Let_def split_beta split: option.split sum.split)
qed (simp split: option.split)

end
