(* ===== verification/Gateway_Path.thy ===== *)
theory Gateway_Path
  imports Facts_Extract
begin

text \<open>
  Gateway request paths, \<open>crates/tgin-botapi/src/gateway/path.rs\<close>, and the rules for tokens and
  names in \<open>crates/tgin-core/src/config/mod.rs\<close>. Percent-decoding to UTF-8 (the \<open>percent_encoding\<close> crate) is an
  argument.
\<close>

section \<open>Definitions\<close>

definition gateway_token :: "string \<Rightarrow> bool" where
  "gateway_token token =
     (case split_once CHR '':'' token of
        None \<Rightarrow> False
      | Some (ident, secret) \<Rightarrow>
          ident \<noteq> [] \<and> list_all is_ascii_digit ident \<and> 1 \<le> length secret \<and> length secret \<le> 128 \<and>
          list_all (\<lambda>b. is_ascii_alphanumeric b \<or> b \<in> {CHR ''_'', CHR ''-''}) secret)"

definition name_char :: "char \<Rightarrow> bool" where
  "name_char c \<longleftrightarrow> 97 \<le> (of_char c :: nat) \<and> (of_char c :: nat) \<le> 122 \<or> is_ascii_digit c"

definition valid_name :: "string \<Rightarrow> bool" where
  "valid_name name \<longleftrightarrow> length name \<le> 63 \<and> name \<noteq> [] \<and> name_char (hd name) \<and> list_all (\<lambda>c. name_char c \<or> c = CHR ''-'') name"

datatype gateway_path =
    PathMethod (path_consumer: "string option") (path_token: string) string
  | PathFile (path_consumer: "string option") (path_token: string) string

definition token_segment :: "(string \<Rightarrow> string option) \<Rightarrow> string \<Rightarrow> string option" where
  "token_segment decode segment =
     (case strip_prefix ''bot'' segment of
        None \<Rightarrow> None
      | Some encoded \<Rightarrow> Option.bind (decode encoded) (\<lambda>token. if gateway_token token then Some token else None))"

definition valid_method :: "string \<Rightarrow> bool" where
  "valid_method m \<longleftrightarrow>
     length m \<le> 64 \<and> m \<noteq> [] \<and> is_ascii_alphabetic (hd m) \<and> list_all (\<lambda>c. is_ascii_alphanumeric c \<or> c = CHR ''_'') m"

definition is_dot :: "string \<Rightarrow> bool" where
  "is_dot s \<longleftrightarrow> s = ''.'' \<or> eq_ignore_ascii_case s ''%2e''"

definition is_dot_segment :: "string \<Rightarrow> bool" where
  "is_dot_segment segment \<longleftrightarrow>
     is_dot segment \<or>
     list_ex (\<lambda>n. is_char_boundary segment n \<and> is_dot (take n segment) \<and> is_dot (drop n segment)) [1, 3]"

definition valid_file_path :: "string \<Rightarrow> bool" where
  "valid_file_path p \<longleftrightarrow> p \<noteq> [] \<and> CHR 0x5C \<notin> set p \<and> list_all (\<lambda>s. \<not> is_dot_segment s) (split_on CHR ''/'' p)"

definition parse_rest :: "(string \<Rightarrow> string option) \<Rightarrow> string option \<Rightarrow> string \<Rightarrow> gateway_path option" where
  "parse_rest decode consumer rest =
     (case strip_prefix ''file/'' rest of
        Some rest \<Rightarrow>
          Option.bind (split_once CHR ''/'' rest) (\<lambda>(token, file_path).
            Option.bind (token_segment decode token) (\<lambda>token.
              if valid_file_path file_path then Some (PathFile consumer token file_path) else None))
      | None \<Rightarrow>
          Option.bind (split_once CHR ''/'' rest) (\<lambda>(token, method).
            Option.bind (token_segment decode token) (\<lambda>token.
              if valid_method method then Some (PathMethod consumer token method) else None)))"

definition parse_path :: "(string \<Rightarrow> string option) \<Rightarrow> string \<Rightarrow> gateway_path option" where
  "parse_path decode path =
     (case strip_prefix ''/'' path of
        None \<Rightarrow> None
      | Some rest \<Rightarrow>
          (case strip_prefix ''c/'' rest of
             Some rest \<Rightarrow>
               Option.bind (split_once CHR ''/'' rest) (\<lambda>(name, rest).
                 if valid_name name then parse_rest decode (Some name) rest else None)
           | None \<Rightarrow> parse_rest decode None rest))"

section \<open>The paths that are served\<close>

text \<open>A dot, in the ways a URL can write it.\<close>

definition DOTS :: "string set" where "DOTS = {''.'', ''%2e'', ''%2E''}"

text \<open>The path of a request: its token is written as \<open>enc\<close>.\<close>

definition render_path :: "gateway_path \<Rightarrow> string \<Rightarrow> string" where
  "render_path p enc =
     ''/'' @ (case path_consumer p of None \<Rightarrow> [] | Some c \<Rightarrow> ''c/'' @ c @ ''/'') @
     (case p of
        PathMethod _ _ m \<Rightarrow> ''bot'' @ enc @ ''/'' @ m
      | PathFile _ _ f \<Rightarrow> ''file/bot'' @ enc @ ''/'' @ f)"

definition path_ok :: "gateway_path \<Rightarrow> bool" where
  "path_ok p \<longleftrightarrow>
     (case path_consumer p of None \<Rightarrow> True | Some c \<Rightarrow> valid_name c) \<and> gateway_token (path_token p) \<and>
     (case p of
        PathMethod _ _ m \<Rightarrow> valid_method m
      | PathFile _ _ f \<Rightarrow>
          f \<noteq> [] \<and> CHR 0x5C \<notin> set f \<and> (\<forall>s \<in> set (split_on CHR ''/'' f). s \<notin> DOTS \<and> (\<forall>a \<in> DOTS. \<forall>b \<in> DOTS. s \<noteq> a @ b)))"

lemma ascii_lower_cases:
  "ascii_lower x = y \<Longrightarrow> x = y \<or> 65 \<le> (of_char x :: nat) \<and> (of_char x :: nat) \<le> 90 \<and> (of_char y :: nat) = of_char x + 32"
  by (auto simp: ascii_lower_def Let_def split: if_splits)

lemma is_dot_iff: "is_dot s \<longleftrightarrow> s \<in> DOTS"
proof -
  have low: "ascii_lower CHR ''%'' = CHR ''%''" "ascii_lower CHR ''2'' = CHR ''2''" "ascii_lower CHR ''e'' = CHR ''e''"
    "ascii_lower CHR ''E'' = CHR ''e''" by code_simp+
  have "eq_ignore_ascii_case s ''%2e'' \<longleftrightarrow> s = ''%2e'' \<or> s = ''%2E''"
  proof
    assume "eq_ignore_ascii_case s ''%2e''"
    then have "map ascii_lower s = ''%2e''" by (simp add: eq_ignore_ascii_case_def low)
    then obtain a b c where s: "s = [a, b, c]" and l: "ascii_lower a = CHR ''%''" "ascii_lower b = CHR ''2''" "ascii_lower c = CHR ''e''"
      by (auto simp: map_eq_Cons_conv)
    have "a = CHR ''%''" "b = CHR ''2''" using ascii_lower_cases [OF l(1)] ascii_lower_cases [OF l(2)] by auto
    moreover have "c = CHR ''e'' \<or> c = CHR ''E''"
    proof -
      have "(of_char c :: nat) = 69 \<Longrightarrow> c = char_of (69 :: nat)" by (metis char_of_char)
      moreover have "char_of (69 :: nat) = CHR ''E''" by code_simp
      ultimately show ?thesis using ascii_lower_cases [OF l(3)] by auto
    qed
    ultimately show "s = ''%2e'' \<or> s = ''%2E''" using s by blast
  qed (auto simp: eq_ignore_ascii_case_def low)
  then show ?thesis by (auto simp: is_dot_def DOTS_def)
qed

lemma is_dot_segment_iff: "is_dot_segment s \<longleftrightarrow> s \<in> DOTS \<or> (\<exists>a \<in> DOTS. \<exists>b \<in> DOTS. s = a @ b)"
proof -
  have "is_char_boundary (a @ b) (length a)" if "b \<in> DOTS" for a b
    using that by (auto simp: is_char_boundary_def DOTS_def nth_append is_continuation_def)
  moreover have "length a \<in> {1, 3}" if "a \<in> DOTS" for a using that by (auto simp: DOTS_def)
  ultimately have "(\<exists>a \<in> DOTS. \<exists>b \<in> DOTS. s = a @ b) \<longleftrightarrow>
      (\<exists>n \<in> {1, 3}. is_char_boundary s n \<and> take n s \<in> DOTS \<and> drop n s \<in> DOTS)"
    by (metis append_eq_conv_conj append_take_drop_id)
  then show ?thesis by (auto simp: is_dot_segment_def is_dot_iff)
qed

lemma valid_file_path_iff:
  "valid_file_path f \<longleftrightarrow>
     f \<noteq> [] \<and> CHR 0x5C \<notin> set f \<and> (\<forall>s \<in> set (split_on CHR ''/'' f). s \<notin> DOTS \<and> (\<forall>a \<in> DOTS. \<forall>b \<in> DOTS. s \<noteq> a @ b))"
  by (auto simp: valid_file_path_def list_all_iff is_dot_segment_iff)

lemma strip_prefix_None_iff: "strip_prefix p s = None \<longleftrightarrow> (\<forall>r. s \<noteq> p @ r)"
  by (metis not_None_eq strip_prefix_Some_iff)

lemma token_segment_Some:
  "token_segment decode seg = Some t \<longleftrightarrow> (\<exists>enc. seg = ''bot'' @ enc \<and> decode enc = Some t \<and> gateway_token t)"
proof (cases "strip_prefix ''bot'' seg")
  case None
  then have "seg \<noteq> ''bot'' @ enc" for enc unfolding strip_prefix_None_iff by blast
  then show ?thesis unfolding token_segment_def None by simp
next
  case (Some a)
  then have "seg = ''bot'' @ a" by (simp add: strip_prefix_Some_iff)
  then have "seg = ''bot'' @ enc \<longleftrightarrow> enc = a" for enc by auto
  then show ?thesis unfolding token_segment_def Some by (auto simp: bind_eq_Some_conv split: if_splits)
qed

text \<open>What is left after the consumer: the path without its consumer, from the last segment on.\<close>

definition render_rest :: "gateway_path \<Rightarrow> string \<Rightarrow> string" where
  "render_rest p enc = (case p of PathMethod _ _ m \<Rightarrow> ''bot'' @ enc @ ''/'' @ m | PathFile _ _ f \<Rightarrow> ''file/bot'' @ enc @ ''/'' @ f)"

lemma parse_rest_exact:
  "parse_rest decode c rest = Some p \<longleftrightarrow>
     path_consumer p = c \<and> gateway_token (path_token p) \<and> (case p of PathMethod _ _ m \<Rightarrow> valid_method m | PathFile _ _ f \<Rightarrow> valid_file_path f) \<and>
     (\<exists>enc. decode enc = Some (path_token p) \<and> CHR ''/'' \<notin> set enc \<and> rest = render_rest p enc)"
  (is "_ \<longleftrightarrow> ?R")
proof
  assume "parse_rest decode c rest = Some p"
  then show ?R
    by (cases "strip_prefix ''file/'' rest")
      (auto simp: parse_rest_def render_rest_def bind_eq_Some_conv token_segment_Some split_once_Some_iff strip_prefix_Some_iff
        split: if_splits)
next
  assume r: ?R
  then obtain enc where e: "decode enc = Some (path_token p)" "CHR ''/'' \<notin> set enc" "rest = render_rest p enc" by blast
  have sp: "split_once CHR ''/'' (''bot'' @ enc @ ''/'' @ x) = Some (''bot'' @ enc, x)" for x
    using e(2) by (simp add: split_once_Some_iff)
  have ts: "token_segment decode (''bot'' @ enc) = Some (path_token p)" using r e(1) by (simp add: token_segment_Some)
  show "parse_rest decode c rest = Some p"
  proof (cases p)
    case (PathMethod c' t m)
    then have "strip_prefix ''file/'' rest = None" using e(3) by (simp add: render_rest_def strip_prefix_None_iff)
    then show ?thesis using PathMethod r e(3) sp [of m] ts by (simp add: parse_rest_def render_rest_def)
  next
    case (PathFile c' t f)
    then have "strip_prefix ''file/'' rest = Some (''bot'' @ enc @ ''/'' @ f)"
      using e(3) by (simp add: render_rest_def strip_prefix_Some_iff)
    then show ?thesis using PathFile r sp [of f] ts by (simp add: parse_rest_def)
  qed
qed

lemma name_no_slash: "valid_name c \<Longrightarrow> CHR ''/'' \<notin> set c"
  by (auto simp: valid_name_def list_all_iff name_char_def is_ascii_digit_def)

text \<open>
  C8. A path is read as a gateway path exactly if it is one, written in any way: a consumer with a
  valid name or none, a token of the form Telegram issues behind any percent-encoding without a slash, and
  a method, or a file path with no segment that is, or decodes to, a dot or two. So reading the path of a
  request gives the request, and no other path is served.
\<close>

theorem gateway_path_exact:
  "parse_path decode path = Some p \<longleftrightarrow>
     path_ok p \<and> (\<exists>enc. decode enc = Some (path_token p) \<and> CHR ''/'' \<notin> set enc \<and> path = render_path p enc)"
proof -
  have rp: "render_path p enc = ''/'' @ (case path_consumer p of None \<Rightarrow> [] | Some c \<Rightarrow> ''c/'' @ c @ ''/'') @ render_rest p enc" for enc
    by (simp add: render_path_def render_rest_def split: gateway_path.splits)
  have nc: "render_rest p enc \<noteq> ''c/'' @ x" for enc x by (simp add: render_rest_def split: gateway_path.splits)
  have ok: "path_ok p \<longleftrightarrow> (case path_consumer p of None \<Rightarrow> True | Some c \<Rightarrow> valid_name c) \<and> gateway_token (path_token p) \<and>
      (case p of PathMethod _ _ m \<Rightarrow> valid_method m | PathFile _ _ f \<Rightarrow> valid_file_path f)"
    by (auto simp: path_ok_def valid_file_path_iff split: gateway_path.splits)
  show ?thesis
  proof (cases "path_consumer p")
    case None
    have "parse_path decode path = Some p \<longleftrightarrow> (\<exists>rest. path = ''/'' @ rest \<and> (\<forall>x. rest \<noteq> ''c/'' @ x) \<and> parse_rest decode None rest = Some p)"
      using None unfolding parse_path_def
      by (auto simp: parse_rest_exact bind_eq_Some_conv strip_prefix_Some_iff strip_prefix_None_iff
          split: option.splits if_splits)
    then show ?thesis using None nc by (auto simp: rp ok parse_rest_exact)
  next
    case (Some c)
    have "parse_path decode path = Some p \<longleftrightarrow>
        valid_name c \<and> (\<exists>rest. path = ''/'' @ ''c/'' @ c @ ''/'' @ rest \<and> CHR ''/'' \<notin> set c \<and> parse_rest decode (Some c) rest = Some p)"
      using Some unfolding parse_path_def
      by (auto simp: parse_rest_exact bind_eq_Some_conv strip_prefix_Some_iff strip_prefix_None_iff split_once_Some_iff
          split: option.splits if_splits)
    then show ?thesis using Some name_no_slash [of c] by (auto simp: rp ok parse_rest_exact)
  qed
qed

end
