(* ===== verification/Gateway_Params.thy ===== *)
theory Gateway_Params
  imports Scan_Guard Facts_Extract Chat_Key
begin

text \<open>
  Parameters of a gateway request, \<open>crates/tgin-botapi/src/gateway/params.rs\<close>, and the chat it goes to,
  \<open>chat_key.rs\<close>. The encodings of \<open>Scan_Guard\<close> and the parts of \<open>Multipart\<close> are used as they are; percent-decoding
  to UTF-8 and the JSON reader are arguments.
\<close>

section \<open>Definitions\<close>

record param_env =
  pe_decode :: "bytes \<Rightarrow> string option"
  pe_parse :: "bytes \<Rightarrow> json_value option"

text \<open>\<open>str::from_utf8\<close>: well-formed UTF-8.\<close>

definition byte_in :: "nat \<Rightarrow> nat \<Rightarrow> byte \<Rightarrow> bool" where
  "byte_in a b c \<longleftrightarrow> a \<le> (of_char c :: nat) \<and> (of_char c :: nat) \<le> b"

fun valid_utf8 :: "bytes \<Rightarrow> bool" where
  "valid_utf8 [] = True"
| "valid_utf8 (a # s) =
     (if byte_in 0 127 a then valid_utf8 s
      else (case s of
              [] \<Rightarrow> False
            | b # s \<Rightarrow>
                if byte_in 194 223 a then byte_in 128 191 b \<and> valid_utf8 s
                else (case s of
                        [] \<Rightarrow> False
                      | c # s \<Rightarrow>
                          if byte_in 224 239 a then
                            (if byte_in 224 224 a then byte_in 160 191 b else if byte_in 237 237 a then byte_in 128 159 b
                             else byte_in 128 191 b) \<and> byte_in 128 191 c \<and> valid_utf8 s
                          else (case s of
                                  [] \<Rightarrow> False
                                | d # s \<Rightarrow>
                                    (if byte_in 240 240 a then byte_in 144 191 b else if byte_in 241 243 a then byte_in 128 191 b
                                     else byte_in 244 244 a \<and> byte_in 128 143 b) \<and>
                                    byte_in 128 191 c \<and> byte_in 128 191 d \<and> valid_utf8 s))))"

definition from_utf8 :: "bytes \<Rightarrow> string option" where
  "from_utf8 s = (if valid_utf8 s then Some s else None)"

definition MULTIPART_FIELD_LIMIT :: nat where "MULTIPART_FIELD_LIMIT = 64 * 1024"

definition form_decode :: "param_env \<Rightarrow> bytes \<Rightarrow> string option" where
  "form_decode env encoded =
     (if CHR ''+'' \<notin> set encoded then pe_decode env encoded
      else pe_decode env (map (\<lambda>b. if b = CHR ''+'' then CHR '' '' else b) encoded))"

text \<open>The name and the value of a pair, split at the first \<open>=\<close>.\<close>

definition pair_of :: "bytes \<Rightarrow> bytes \<times> bytes" where
  "pair_of pair = (case split_once CHR ''='' pair of Some kv \<Rightarrow> kv | None \<Rightarrow> (pair, []))"

definition form_value :: "param_env \<Rightarrow> bytes \<Rightarrow> string \<Rightarrow> bytes option" where
  "form_value env body name =
     (case List.map_filter
             (\<lambda>pair. case pair_of pair of (key, v) \<Rightarrow> if form_decode env key = Some name then Some v else None)
             (filter (\<lambda>pair. pair \<noteq> []) (split_on CHR ''&'' body)) of
        [] \<Rightarrow> None | v # _ \<Rightarrow> Some v)"

definition form_param :: "param_env \<Rightarrow> bytes \<Rightarrow> string \<Rightarrow> string option" where
  "form_param env body name = Option.bind (form_value env body name) (form_decode env)"

text \<open>\<open>None\<close>: the object could not be read.\<close>

fun find_member :: "string \<Rightarrow> json_fields \<Rightarrow> (string \<times> json_value) option \<Rightarrow> (string \<times> json_value) option option" where
  "find_member name [] found = Some found"
| "find_member name (((_, k), raw, v) # es) found =
     (case k of
        None \<Rightarrow> None
      | Some key \<Rightarrow>
          if key = name \<and> found = None
          then (case raw of None \<Rightarrow> None | Some r \<Rightarrow> find_member name es (Some (r, v)))
          else find_member name es found)"

definition json_text :: "string \<Rightarrow> json_value \<Rightarrow> string option" where
  "json_text raw v =
     (if raw = [] then None
      else if hd raw = CHR 0x22 then (case v of JString (_, s) \<Rightarrow> s | _ \<Rightarrow> None)
      else if hd raw = CHR ''-'' \<or> is_ascii_digit (hd raw) \<or> hd raw = CHR ''t'' \<or> hd raw = CHR ''f'' then Some raw
      else None)"

definition json_param :: "param_env \<Rightarrow> bytes \<Rightarrow> string \<Rightarrow> string option" where
  "json_param env body name =
     (case pe_parse env body of
        Some (JObject es) \<Rightarrow>
          (case find_member name es None of Some (Some (raw, v)) \<Rightarrow> json_text raw v | _ \<Rightarrow> None)
      | _ \<Rightarrow> None)"

definition multipart_param :: "param_env \<Rightarrow> bytes \<Rightarrow> bytes \<Rightarrow> string \<Rightarrow> string option" where
  "multipart_param env content_type body name =
     (case boundary content_type of
        None \<Rightarrow> None
      | Some bnd \<Rightarrow>
          (case parts bnd body of
             None \<Rightarrow> None
           | Some ps \<Rightarrow>
               (case List.map_filter
                       (\<lambda>p. case pt_kind p of
                              KFile \<Rightarrow> None
                            | KText \<Rightarrow>
                                if part_named name p
                                then Some (if length (pt_value p) \<le> MULTIPART_FIELD_LIMIT then from_utf8 (pt_value p) else None)
                                else None
                            | KForm \<Rightarrow> map_option (form_decode env) (form_value env (pt_value p) name)) ps of
                  [] \<Rightarrow> None | r # _ \<Rightarrow> r)))"

definition text_param :: "param_env \<Rightarrow> bytes option \<Rightarrow> bytes \<Rightarrow> string \<Rightarrow> string option" where
  "text_param env content_type body name =
     (case content_type of
        None \<Rightarrow> None
      | Some ct \<Rightarrow>
          (case encoding_of ct of
             None \<Rightarrow> None
           | Some EMultipart \<Rightarrow> multipart_param env ct body name
           | Some EJson \<Rightarrow> json_param env body name
           | Some EForm \<Rightarrow> form_param env body name))"

definition chat_key_of :: "param_env \<Rightarrow> bytes option \<Rightarrow> bytes \<Rightarrow> chat_key option" where
  "chat_key_of env content_type body =
     (case Option.bind content_type encoding_of of
        None \<Rightarrow> None
      | Some EMultipart \<Rightarrow> None
      | Some _ \<Rightarrow>
          (case text_param env content_type body ''chat_id'' of
             None \<Rightarrow> None
           | Some chat_id \<Rightarrow>
               (case strip_prefix ''@'' chat_id of
                  Some u \<Rightarrow> if u = [] then None else Some (Username (map ascii_lower u))
                | None \<Rightarrow> map_option ChatId (parse_i64 chat_id))))"

section \<open>Written parameters\<close>

fun form_body :: "(bytes \<times> bytes) list \<Rightarrow> bytes" where
  "form_body [] = []"
| "form_body [(k, v)] = k @ ''='' @ v"
| "form_body ((k, v) # p # ps) = k @ ''='' @ v @ ''&'' @ form_body (p # ps)"

text \<open>One pair, with its name and value encoded in some way.\<close>

definition pair_written :: "param_env \<Rightarrow> bytes \<times> bytes \<Rightarrow> string \<times> string \<Rightarrow> bool" where
  "pair_written env e p \<longleftrightarrow>
     CHR ''='' \<notin> set (fst e) \<and> CHR ''&'' \<notin> set (fst e) \<union> set (snd e) \<and>
     form_decode env (fst e) = Some (fst p) \<and> form_decode env (snd e) = Some (snd p)"

lemma split_form:
  assumes "list_all2 (pair_written env) es ps"
  shows "filter (\<lambda>pair. pair \<noteq> []) (split_on CHR ''&'' (form_body es)) = map (\<lambda>(k, v). k @ ''='' @ v) es"
  using assms
proof (induction es arbitrary: ps rule: form_body.induct)
  case (2 k v)
  then have "CHR ''&'' \<notin> set (k @ ''='' @ v)" by (auto simp: list_all2_Cons1 pair_written_def)
  from split_on_none [OF this] show ?case by simp
next
  case (3 k v p es)
  then have "CHR ''&'' \<notin> set (k @ ''='' @ v)" by (auto simp: list_all2_Cons1 pair_written_def)
  from split_on_unique [OF this, of "form_body (p # es)"] 3 show ?case by (auto simp: list_all2_Cons1)
qed simp

lemma pair_of_written: "CHR ''='' \<notin> set k \<Longrightarrow> pair_of (k @ ''='' @ v) = (k, v)"
proof -
  assume "CHR ''='' \<notin> set k"
  then have "split_once CHR ''='' (k @ ''='' @ v) = Some (k, v)" by (simp add: split_once_Some_iff)
  then show ?thesis by (simp add: pair_of_def)
qed

lemma form_param_written:
  assumes "list_all2 (pair_written env) es ps"
  shows "form_param env (form_body es) name = map_of ps name"
proof -
  let ?f = "\<lambda>pair. case pair_of pair of (key, v) \<Rightarrow> if form_decode env key = Some name then Some v else None"
  have "Option.bind (case List.map_filter ?f (map (\<lambda>(k, v). k @ ''='' @ v) es) of [] \<Rightarrow> None | v # _ \<Rightarrow> Some v) (form_decode env) = map_of ps name"
    using assms
  proof (induction es ps rule: list_all2_induct)
    case (Cons e es p ps)
    obtain k v n w where e: "e = (k, v)" "p = (n, w)" by (cases e; cases p) auto
    have w: "CHR ''='' \<notin> set k" "form_decode env k = Some n" "form_decode env v = Some w"
      using Cons(1) by (auto simp: pair_written_def e)
    show ?case using Cons(3) pair_of_written [OF w(1), of v] w(2,3) by (simp add: e List.map_filter_def)
  qed (simp add: List.map_filter_def)
  then show ?thesis by (simp add: form_param_def form_value_def split_form [OF assms])
qed

text \<open>The first member of an object with a name.\<close>

definition first_member :: "string \<Rightarrow> json_fields \<Rightarrow> (string option \<times> json_value) option" where
  "first_member name es = map_option snd (List.find (\<lambda>e. snd (fst e) = Some name) es)"

lemma find_member_first:
  assumes "list_all (\<lambda>e. snd (fst e) \<noteq> None \<and> fst (snd e) \<noteq> None) es"
  shows "find_member name es found =
    Some (case found of Some x \<Rightarrow> Some x | None \<Rightarrow> map_option (\<lambda>(raw, v). (the raw, v)) (first_member name es))"
  using assms
proof (induction es arbitrary: found)
  case (Cons e es)
  obtain b k raw v where e: "e = ((b, Some k), Some raw, v)" using Cons.prems by (cases e) auto
  show ?case using Cons by (auto simp: e first_member_def split: option.splits)
qed (simp add: first_member_def split: option.split)

section \<open>Chats\<close>

definition show_int :: "int \<Rightarrow> string" where
  "show_int i = (if i < 0 then CHR ''-'' # show_nat (nat (- i)) else show_nat (nat i))"

lemma show_nat_value: "digits_value (show_nat n) = n \<and> show_nat n \<noteq> [] \<and> list_all is_ascii_digit (show_nat n)"
proof (induction n rule: show_nat.induct)
  case (1 n)
  have d: "(of_char (char_of (48 + k) :: char) :: nat) - 48 = k \<and> is_ascii_digit (char_of (48 + k))" if "k < 10" for k :: nat
    using that by (simp add: is_ascii_digit_def)
  show ?case
  proof (cases "n < 10")
    case True
    then show ?thesis using d [OF True] by (simp add: show_nat.simps [of n] digits_value_def)
  next
    case False
    have "n mod 10 < 10" by simp
    from d [OF this] 1 [OF False] False show ?thesis by (simp add: show_nat.simps [of n] digits_value_def)
  qed
qed

lemma parse_show_int:
  assumes "- I64_MAX - 1 \<le> i" "i \<le> I64_MAX"
  shows "parse_i64 (show_int i) = Some i"
proof -
  have c: "hd (show_nat n) \<noteq> CHR ''-'' \<and> hd (show_nat n) \<noteq> CHR ''+''" for n
    using show_nat_value [of n] by (cases "show_nat n") (auto simp: is_ascii_digit_def)
  obtain b bs where bs: "show_nat (nat i) = b # bs" using show_nat_value [of "nat i"] by (cases "show_nat (nat i)") auto
  show ?thesis
  proof (cases "i < 0")
    case True
    then show ?thesis using assms show_nat_value [of "nat (- i)"] by (simp add: parse_i64_def show_int_def)
  next
    case False
    then show ?thesis using assms c [of "nat i"] show_nat_value [of "nat i"] by (simp add: parse_i64_def show_int_def bs)
  qed
qed


text \<open>A form with an encoded name, and an object.\<close>

definition demo_params :: param_env where
  "demo_params =
     \<lparr>pe_decode = (\<lambda>s. Some (if s = ''c%68at_id'' then ''chat_id'' else s)),
      pe_parse = (\<lambda>_. Some (JObject [((True, Some ''chat_id''), Some ''-5'', JNumber (Some (JI64 (- 5))))]))\<rparr>"


end
