(* ===== verification/Interp.thy ===== *)
theory Interp
  imports Facts_Extract
begin

text \<open>
  References in configuration values, \<open>crates/tgin-runtime/src/config/interp.rs\<close>: \<open>${env:NAME}\<close> and
  \<open>${file:PATH}\<close>. The process environment and the file system are arguments, as the trait \<open>Env\<close> has them; a
  message is a constructor with what it quotes.
\<close>

section \<open>Definitions\<close>

datatype bad_syntax = NoClosing string | Nested string | NoScheme string | NamesNothing string string

datatype interp_error = MissingVar string | UnreadableFile string string | BadSyntax bad_syntax | UnknownScheme string

record interp_env =
  ie_var :: "string \<Rightarrow> string option"
  ie_read_file :: "string \<Rightarrow> string + string"

text \<open>\<open>Path::join\<close> on Unix.\<close>

definition path_join :: "string \<Rightarrow> string \<Rightarrow> string" where
  "path_join base arg =
     (if arg \<noteq> [] \<and> hd arg = CHR ''/'' \<or> base = [] then arg
      else if last base = CHR ''/'' then base @ arg else base @ ''/'' @ arg)"

definition strip_suffix :: "'a list \<Rightarrow> 'a list \<Rightarrow> 'a list option" where
  "strip_suffix p s = map_option rev (strip_prefix (rev p) (rev s))"

text \<open>The start of a text: at most 40 chars, up to the first line break.\<close>

fun nth_char :: "nat \<Rightarrow> nat \<Rightarrow> string \<Rightarrow> nat option" where
  "nth_char n i [] = None"
| "nth_char n i (b # s) =
     (if is_continuation b then nth_char n (Suc i) s
      else (case n of 0 \<Rightarrow> Some i | Suc n \<Rightarrow> nth_char n (Suc i) s))"

definition excerpt :: "string \<Rightarrow> string" where
  "excerpt s =
     (let stop = (case nth_char 40 0 s of None \<Rightarrow> length s | Some i \<Rightarrow> i);
          stop = (case index_where (\<lambda>c. c = CHR 0x0A) (take stop s) of None \<Rightarrow> stop | Some i \<Rightarrow> i)
      in take stop s)"

definition resolve_ref :: "interp_env \<Rightarrow> string \<Rightarrow> string \<Rightarrow> interp_error + string" where
  "resolve_ref env base body =
     (if sublist ''${'' body then Inl (BadSyntax (Nested body))
      else
        (case split_once CHR '':'' body of
           None \<Rightarrow> Inl (BadSyntax (NoScheme body))
         | Some (scheme, arg) \<Rightarrow>
             if scheme = [] then Inl (BadSyntax (NoScheme body))
             else if scheme \<noteq> ''env'' \<and> scheme \<noteq> ''file'' then Inl (UnknownScheme scheme)
             else if arg = [] then Inl (BadSyntax (NamesNothing body (if scheme = ''env'' then ''variable'' else ''file'')))
             else if scheme = ''env'' then (case ie_var env arg of Some v \<Rightarrow> Inr v | None \<Rightarrow> Inl (MissingVar arg))
             else
               (let path = path_join base arg
                in case ie_read_file env path of
                     Inl err \<Rightarrow> Inl (UnreadableFile path err)
                   | Inr content \<Rightarrow>
                       (case strip_suffix [CHR 0x0D, CHR 0x0A] content of
                          Some c \<Rightarrow> Inr c
                        | None \<Rightarrow> (case strip_suffix [CHR 0x0A] content of Some c \<Rightarrow> Inr c | None \<Rightarrow> Inr content)))))"

lemma after_prefix_shorter:
  assumes "index_where P rest = Some d" and "strip_prefix p (drop d rest) = Some after" and "p \<noteq> []"
  shows "length after < length rest"
proof -
  have "drop d rest = p @ after" using assms(2) by (simp add: strip_prefix_Some_iff)
  then have "length p + length after = length rest - d" by (metis length_append length_drop)
  then show ?thesis using assms(3) index_where_length [OF assms(1)] by (cases p) auto
qed

function interp_loop :: "interp_env \<Rightarrow> string \<Rightarrow> string \<Rightarrow> string \<Rightarrow> interp_error + string" where
  "interp_loop env base out rest =
     (case index_where (\<lambda>c. c = CHR ''$'') rest of
        None \<Rightarrow> Inr (out @ rest)
      | Some dollar \<Rightarrow>
          (let out = out @ take dollar rest;
               tail = drop dollar rest
           in case strip_prefix ''$${'' tail of
                Some after \<Rightarrow> interp_loop env base (out @ ''${'') after
              | None \<Rightarrow>
                  (case strip_prefix ''${'' tail of
                     Some after \<Rightarrow>
                       (case index_where (\<lambda>c. c = CHR ''}'') after of
                          None \<Rightarrow> Inl (BadSyntax (NoClosing (excerpt tail)))
                        | Some stop \<Rightarrow>
                            (case resolve_ref env base (take stop after) of
                               Inl err \<Rightarrow> Inl err
                             | Inr v \<Rightarrow> interp_loop env base (out @ v) (drop (stop + 1) after)))
                   | None \<Rightarrow> interp_loop env base (out @ ''$'') (drop 1 tail))))"
  by pat_completeness auto
termination
  by (relation "measure (\<lambda>(env, base, out, rest). length rest)")
    (auto dest: after_prefix_shorter index_where_length simp: less_imp_diff_less)

declare interp_loop.simps [simp del]

definition interpolate :: "string \<Rightarrow> interp_env \<Rightarrow> string \<Rightarrow> interp_error + string" where
  "interpolate template env base = interp_loop env base [] template"

section \<open>Templates\<close>

text \<open>A text as a template: every \<open>${\<close> with another dollar before it.\<close>

fun escape_text :: "string \<Rightarrow> string" where
  "escape_text [] = []"
| "escape_text [c] = [c]"
| "escape_text (c # d # s) = (if c = CHR ''$'' \<and> d = CHR ''{'' then ''$${'' @ escape_text s else c # escape_text (d # s))"

text \<open>Texts, each with the reference after it, and the value they stand for or the first error.\<close>

definition template_of :: "(string \<times> string) list \<Rightarrow> string" where
  "template_of refs = concat (map (\<lambda>(t, body). escape_text t @ ''${'' @ body @ ''}'') refs)"

fun values_of :: "interp_env \<Rightarrow> string \<Rightarrow> (string \<times> string) list \<Rightarrow> interp_error + string" where
  "values_of env base [] = Inr []"
| "values_of env base ((t, body) # refs) =
     (case resolve_ref env base body of
        Inl e \<Rightarrow> Inl e
      | Inr v \<Rightarrow> (case values_of env base refs of Inl e \<Rightarrow> Inl e | Inr r \<Rightarrow> Inr (t @ v @ r)))"

definition ends_plain :: "string \<Rightarrow> bool" where
  "ends_plain t \<longleftrightarrow> t = [] \<or> last t \<noteq> CHR ''$''"

definition refs_ok :: "(string \<times> string) list \<Rightarrow> bool" where
  "refs_ok refs = list_all (\<lambda>(t, body). ends_plain t \<and> CHR ''}'' \<notin> set body) refs"

lemma loop_char: "c \<noteq> CHR ''$'' \<Longrightarrow> interp_loop env base out (c # r) = interp_loop env base (out @ [c]) r"
  unfolding interp_loop.simps [of env base out "c # r"] interp_loop.simps [of env base "out @ [c]" r]
  by (cases "index_where (\<lambda>c. c = CHR ''$'') r") (simp_all add: Let_def)

lemma loop_dollar:
  "\<not> prefix ''{'' r \<Longrightarrow> \<not> prefix ''${'' r \<Longrightarrow> interp_loop env base out (CHR ''$'' # r) = interp_loop env base (out @ ''$'') r"
  unfolding interp_loop.simps [of env base out "CHR ''$'' # r"]
  by (cases r; cases "tl r") (auto simp: Let_def strip_prefix_def)

lemma loop_escape: "interp_loop env base out (''$${'' @ r) = interp_loop env base (out @ ''${'') r"
  unfolding interp_loop.simps [of env base out "''$${'' @ r"] by (simp add: Let_def strip_prefix_def)

lemma loop_ref:
  "interp_loop env base out (''${'' @ r) =
     (case index_where (\<lambda>c. c = CHR ''}'') r of
        None \<Rightarrow> Inl (BadSyntax (NoClosing (excerpt (''${'' @ r))))
      | Some stop \<Rightarrow>
          (case resolve_ref env base (take stop r) of
             Inl err \<Rightarrow> Inl err | Inr v \<Rightarrow> interp_loop env base (out @ v) (drop (stop + 1) r)))"
  unfolding interp_loop.simps [of env base out "''${'' @ r"] by (simp add: Let_def strip_prefix_def split: option.split)

lemma escaped_head:
  assumes "s = [] \<or> ends_plain t" and "t \<noteq> []" and "hd t \<noteq> CHR ''{''"
  shows "\<not> prefix ''{'' (escape_text t @ s) \<and> \<not> prefix ''${'' (escape_text t @ s)"
proof (cases t rule: escape_text.cases)
  case (3 c d u)
  show ?thesis
  proof (cases "c = CHR ''$'' \<and> d = CHR ''{''")
    case False
    have "\<exists>e x. escape_text (d # u) = d # x" if "d \<noteq> CHR ''$''" for e using that by (cases u) auto
    moreover have "hd (escape_text (d # u)) = d" "escape_text (d # u) \<noteq> []" by (cases u; auto)+
    ultimately show ?thesis using 3 False assms(3) by (cases "escape_text (d # u)") auto
  qed (use 3 in simp)
qed (use assms in \<open>auto simp: ends_plain_def\<close>)

lemma loop_text:
  assumes "s = [] \<or> ends_plain t"
  shows "interp_loop env base out (escape_text t @ s) = interp_loop env base (out @ t) s"
  using assms
proof (induction t arbitrary: out rule: escape_text.induct)
  case (2 c)
  then show ?case
    by (cases "c = CHR ''$''") (auto simp: ends_plain_def loop_char loop_dollar)
next
  case (3 c d u)
  note ih = 3(1,2)
  have e: "s = [] \<or> ends_plain (d # u)" "s = [] \<or> ends_plain u" using 3(3) by (auto simp: ends_plain_def split: if_splits)
  consider "c = CHR ''$'' \<and> d = CHR ''{''" | "c = CHR ''$''" "d \<noteq> CHR ''{''" | "c \<noteq> CHR ''$''" by blast
  then show ?case
  proof cases
    case 1
    then show ?thesis using ih(1) [OF 1 e(2), of "out @ ''${''"] loop_escape [of env base out "escape_text u @ s"] by simp
  next
    case 2
    then have n: "\<not> (c = CHR ''$'' \<and> d = CHR ''{'')" by simp
    from escaped_head [OF e(1)] 2 have "\<not> prefix ''{'' (escape_text (d # u) @ s)" "\<not> prefix ''${'' (escape_text (d # u) @ s)" by auto
    from loop_dollar [OF this] ih(2) [OF n e(1), of "out @ ''$''"] 2 show ?thesis by simp
  next
    case 3
    then have n: "\<not> (c = CHR ''$'' \<and> d = CHR ''{'')" by simp
    from loop_char [OF 3] ih(2) [OF n e(1), of "out @ [c]"] n show ?thesis by auto
  qed
qed simp

lemma loop_refs:
  assumes "refs_ok refs"
  shows "interp_loop env base out (template_of refs @ s) =
    (case values_of env base refs of Inl e \<Rightarrow> Inl e | Inr v \<Rightarrow> interp_loop env base (out @ v) s)"
  using assms
proof (induction refs arbitrary: out)
  case (Cons x refs)
  obtain t body where x: "x = (t, body)" by (cases x) auto
  have ok: "ends_plain t" "CHR ''}'' \<notin> set body" "refs_ok refs" using Cons.prems by (auto simp: refs_ok_def x)
  have tm: "template_of (x # refs) @ s = escape_text t @ ''${'' @ body @ CHR ''}'' # template_of refs @ s" by (simp add: template_of_def x)
  have i: "index_where (\<lambda>c. c = CHR ''}'') (body @ CHR ''}'' # template_of refs @ s) = Some (length body)"
    using ok(2) by (induction body) auto
  have "interp_loop env base out (template_of (x # refs) @ s) =
      interp_loop env base (out @ t) (''${'' @ body @ CHR ''}'' # template_of refs @ s)"
    unfolding tm by (rule loop_text) (use ok(1) in simp)
  also have "\<dots> = (case resolve_ref env base body of
      Inl e \<Rightarrow> Inl e | Inr v \<Rightarrow> interp_loop env base ((out @ t) @ v) (template_of refs @ s))"
    unfolding loop_ref i by (simp split: sum.split)
  also have "\<dots> = (case values_of env base (x # refs) of Inl e \<Rightarrow> Inl e | Inr v \<Rightarrow> interp_loop env base (out @ v) s)"
    using Cons.IH [OF ok(3)] by (simp add: x split: sum.split)
  finally show ?case .
qed (simp add: template_of_def)

text \<open>
  C19. Interpolation replaces exactly the references: a template made of texts, written with \<open>$${\<close> for \<open>${\<close>, and
  references between them gives the texts with the values in their places, or the error of the first
  reference that has one; values are not scanned again. A reference that is not closed is an
  error, unless one before it failed. Every text can be written as a template.
\<close>

theorem interpolate_exact:
  assumes "refs_ok refs"
  shows "interpolate (template_of refs @ escape_text t) env base =
      (case values_of env base refs of Inl e \<Rightarrow> Inl e | Inr v \<Rightarrow> Inr (v @ t)) \<and>
    (ends_plain t \<and> CHR ''}'' \<notin> set body \<longrightarrow>
       interpolate (template_of refs @ escape_text t @ ''${'' @ body) env base =
         (case values_of env base refs of
            Inl e \<Rightarrow> Inl e | Inr _ \<Rightarrow> Inl (BadSyntax (NoClosing (excerpt (''${'' @ body))))))"
proof -
  have fin: "interp_loop env base out [] = Inr out" for out by (simp add: interp_loop.simps)
  have i: "CHR ''}'' \<notin> set body \<Longrightarrow> index_where (\<lambda>c. c = CHR ''}'') body = None"
    unfolding index_where_None_iff by blast
  have l: "interp_loop env base out (escape_text t) = Inr (out @ t)" for out
    using loop_text [of "[]" t env base out] fin by simp
  have u: "interp_loop env base out (escape_text t @ ''${'' @ body) = Inl (BadSyntax (NoClosing (excerpt (''${'' @ body))))"
    if "ends_plain t" "CHR ''}'' \<notin> set body" for out
    using loop_text [of "''${'' @ body" t env base out] that loop_ref [of env base "out @ t" body] i by simp
  show ?thesis unfolding interpolate_def loop_refs [OF assms] using l u by (auto split: sum.split)
qed

definition demo_interp :: interp_env where
  "demo_interp = \<lparr>ie_var = (\<lambda>n. if n = ''A'' then Some ''${env:B}'' else None),
     ie_read_file = (\<lambda>p. if p = ''/etc/x'' then Inr (''f'' @ [CHR 0x0A]) else Inl ''not found'')\<rparr>"

theorem interpolate_exact_witness:
  "interpolate ''a $${b} ${env:A}-${file:x}$'' demo_interp ''/etc'' = Inr ''a ${b} ${env:B}-f$''"
proof -
  let ?refs = "[(''a ${b} '', ''env:A''), (''-'', ''file:x'')]"
  have ok: "refs_ok ?refs" by code_simp
  have t: "template_of ?refs @ escape_text ''$'' = ''a $${b} ${env:A}-${file:x}$''" by code_simp
  have v: "values_of demo_interp ''/etc'' ?refs = Inr ''a ${b} ${env:B}-f''" by code_simp
  from interpolate_exact [OF ok, of "''$''" demo_interp "''/etc''"] show ?thesis unfolding t v by simp
qed

end
