(* ===== verification/Spec2Isabelle.thy ===== *)
theory Spec2Isabelle
  imports Lease_Queue_Props Rate_Limit Slot_Calendar Breaker Backoff Lifecycle Supervisor Rules_Props Scan_Guard
    Bot_Limiter Slot_Retire Pull_Consumer Push_Main Reload_Main Long_Poll_Props Facts_Props Webhook_Props
    Gateway_Path Gateway_Params Interp
begin

text \<open>
  tgin sits between Telegram and a bot's own services. It receives updates for several bots,
  routes each by rules to consumers, queues it there under a capacity, and hands it out: to
  instances that poll (pull consumers) or by posting it to HTTP endpoints (push consumers).
  In the other direction a gateway forwards Bot API calls, keeping to Telegram's rate limits
  and refusing bodies that would make a local Bot API server read its own files. This
  development models those parts from the Rust sources under \<open>src/crates\<close> and proves what makes
  them correct. Every theory names the file it models; definitions keep the names of the
  functions, with a prefix where two parts use the same name.

  \<^bold>\<open>How the parts fit.\<close> Updates come in by long polling (\<open>Long_Poll\<close>, over the client of
  \<open>Bot_Client\<close>) or as webhook posts (\<open>Webhook\<close>); \<open>Facts_Extract\<close> reads from each the facts the rules
  look at. Admission (\<open>Admission\<close>) routes an update with the compiled rules
  (\<open>Rules*\<close>), reserves room in the lease queue of every target (\<open>Lease_Queue*\<close>), and commits.
  Consumers lease from that queue: a pull consumer for the instances that poll
  (\<open>Pull_Consumer\<close>), a push consumer for its own dispatcher (\<open>Push_*\<close>), which asks a circuit
  breaker per endpoint (\<open>Breaker\<close>) and waits by a backoff (\<open>Backoff\<close>) between attempts.
  \<open>Engine\<close> holds the consumer instances of one configuration and the operations on them, \<open>Reload\<close>
  moves a running engine to a new configuration: it keeps, revives, starts or drains each
  instance. Retirement (\<open>Slot_Retire\<close>) closes a drained instance while admissions still run.
  The gateway's \<open>Bot_Limiter\<close> books a call on every quota that covers it, over the keyed GCRA
  limiter (\<open>Rate_Limit\<close>) and the slot calendar (\<open>Slot_Calendar\<close>); \<open>Methods\<close> recognises the method
  and \<open>Chat_Key\<close> is the chat it goes to. \<open>Scan_Guard\<close> wraps a request body and runs the scanners
  of \<open>Form_Scan\<close>, \<open>Local_Values\<close>, \<open>Multipart\<close> and \<open>Delimiter\<close> over its bytes. \<open>Supervisor\<close> restarts
  the long-running tasks and \<open>Lifecycle\<close> holds the phase of the process. \<open>Gateway_Path\<close> reads the path of a
  gateway request and \<open>Gateway_Params\<close> its parameters, \<open>Interp\<close> the references in configuration values, and \<open>Redactor\<close> keeps secrets out of
  the logs.

  \<^bold>\<open>The library.\<close>
  \<^item> \<open>Prelude\<close>: machine integers, durations and instants with the saturating, wrapping and checked
    operations of Rust, ordered sets, sums over finite maps. \<open>Bytes\<close>: slices, windows, searching
    and ASCII case.
  \<^item> \<open>Lease_Queue\<close> (\<open>tgin-runtime/src/queue.rs\<close>): \<open>Inner\<close> and \<open>LeaseQueue\<close> with all indexes.
    \<open>Lease_Queue_Inv\<close> relates the indexes to one map of entries, \<open>Lease_Queue_Ops\<close> and
    \<open>Lease_Queue_Holders\<close> specify every operation on that map, \<open>Lease_Queue_System\<close> is the
    relation of all operations with outstanding permits and the abstract specification
    \<open>spec_step\<close>, \<open>Lease_Queue_Props\<close> holds C1 to C5 and C7.
  \<^item> \<open>Lease_Queue_Notify\<close>: the interface \<open>notified_source\<close> of anything that is waited for and
    counts its notifications: a locale that shows once that a waiter which registers before it
    looks cannot sleep through what it waits for. It is interpreted for the queue (\<open>lq\<close>) and, in
    \<open>Pull_Consumer\<close>, for the whole pull consumer (\<open>pull\<close>).
  \<^item> \<open>Rate_Limit\<close>, \<open>Slot_Calendar\<close> (\<open>tgin-runtime/src/limit.rs\<close>): C10, C11, C14 and C15. \<open>Bot_Limiter\<close>
    (\<open>tgin-botapi/src/gateway/limit.rs\<close>): the locale \<open>quota_slots\<close> states what a quota that can be
    booked and undone promises; both kinds of quota interpret it (\<open>cal\<close>, \<open>key\<close>), and C29 follows
    for any mix of them.
  \<^item> \<open>Breaker\<close> (\<open>breaker.rs\<close>): the packed word, and the same operations as threads that interleave
    at every atomic access; C16. \<open>Backoff\<close> and \<open>Lifecycle\<close>: the bounds of delays and the order of phases.
    \<open>Supervisor\<close> (\<open>supervisor.rs\<close>): C40.
  \<^item> \<open>Rules\<close> (\<open>tgin-core/src/rules\<close>): specification, compilation and evaluation;
    \<open>Rules_Schedule\<close> the smooth weighted round robin (C21), \<open>Rules_Targets\<close> and \<open>Rules_Match\<close> the
    parts of the refinement, \<open>Rules_Props\<close> the refinement itself (C22).
  \<^item> \<open>Delimiter\<close>, \<open>Local_Values\<close>, \<open>Form_Scan\<close>, \<open>Multipart\<close>, \<open>Multipart_Props\<close>, \<open>Scan_Guard\<close>
    (\<open>tgin-botapi/src/gateway/local_files.rs\<close> and \<open>local_files/http_reader.rs\<close>): each streaming scanner
    equals a definition over the whole body, whatever the frames: C23, C24, C27 and C28.
  \<^item> \<open>Methods\<close> (\<open>gateway/methods.rs\<close>): the table of methods and its binary search. \<open>Gateway_Path\<close>
    (\<open>gateway/path.rs\<close>, with the rules for names and tokens of \<open>config/mod.rs\<close>): C8.
    \<open>Gateway_Params\<close> (\<open>gateway/params.rs\<close>, \<open>chat_key.rs\<close>): the parameters of a body and its chat, C13.
  \<^item> \<open>Bot_Client\<close> (\<open>tgin-botapi/src/client.rs\<close>): calls, their errors and the masking of the token, C25.
    \<open>Long_Poll\<close> (\<open>longpoll.rs\<close>): the source cut at its awaits, with the server as Telegram documents
    \<open>getUpdates\<close>; \<open>Long_Poll_Props\<close> shows by an invariant on offsets that nothing is lost, C20.
  \<^item> \<open>Facts_Extract\<close> (\<open>facts.rs\<close>): the visitors over the JSON tree and the decoding of strings.
    \<open>Facts_Text\<close> has UTF-8, decoding under a cap (C17) and commands (C6), \<open>Facts_Props\<close> the facts as
    lookups in the tree (C12).
  \<^item> \<open>Webhook\<close> (\<open>webhook.rs\<close>): \<open>Webhook_Props\<close> shows when a post is acknowledged (C26) and that the client's
    address cannot be forged (C18).
  \<^item> \<open>Redactor\<close> (\<open>tgin-runtime/src/secret.rs\<close>): C30. \<open>Interp\<close> (\<open>tgin-runtime/src/config/interp.rs\<close>): C19.
  \<^item> \<open>Admission\<close> (\<open>admission.rs\<close>, \<open>sink.rs\<close>, \<open>engine.rs\<close>): all or nothing over the targets, C32.
    \<open>Slot_Retire\<close> (\<open>engine.rs\<close>, \<open>reload.rs\<close>): C33.
  \<^item> \<open>Pull_Consumer\<close> (\<open>consumer/pull.rs\<close>): C34 and C35.
  \<^item> \<open>Push_Consumer\<close> and \<open>Push_Delivery\<close> (\<open>consumer/push.rs\<close>, \<open>reply.rs\<close>): the state, and deliveries
    and dispatcher cut at their awaits. \<open>Push_Pick\<close> shows that choosing an endpoint ends (C39),
    \<open>Push_Inv\<close> and \<open>Push_Segments\<close> what leases, slots and logs do under one step, \<open>Push_Props\<close> the
    invariant and \<open>Push_Main\<close> C36 to C38.
  \<^item> \<open>Engine\<close> (\<open>engine.rs\<close>, with the configuration it reads from \<open>config/resolve.rs\<close>) and \<open>Reload\<close>
    (\<open>reload.rs\<close>): a generation, the store of instances, lookups and control calls; the plan of a
    reload and its commit. \<open>Reload_Inv\<close> has the locale \<open>slot_relation\<close>, which lifts what one
    instance keeps to the stages of a commit, interpreted for names, modes and updates (\<open>ev\<close>), for
    the owner of the runtime endpoint too (\<open>sy\<close>), and for the control calls (\<open>sd\<close>);
    \<open>Reload_Plan\<close> specifies the plan and the source ids, \<open>Reload_Props\<close> the steps of an engine and
    its invariant, \<open>Reload_Main\<close> holds C9 and C31.

  \<^bold>\<open>Conventions.\<close> Shared memory is explicit: atomics and mutexes are fields of the state, an
  \<open>Arc\<close> that is shared is an address in a store, \<open>Notify\<close> is a count of notifications. Concurrent
  code is a step relation whose steps are what runs between two awaits (or, in \<open>Breaker\<close>,
  between two atomic accesses). Errors are values: \<open>Inl\<close> of a sum or a constructor of their own;
  \<open>None\<close> of an operation is a panic or a loop that does not end, and the properties show that it
  does not occur. Clocks, random draws, answers of servers and the ends of attempts are
  arguments. Metrics and log lines that a property speaks about are lists and counters.

  \<^bold>\<open>Loops and fuel.\<close> Loops whose end depends on the data are \<open>partial_function\<close>s over \<open>option\<close>
  (eviction, the failure function and the steps of the delimiter automaton, the fixpoint of
  \<open>acquire\<close>, \<open>pick\<close>), and it is proved that they return. Walking the node arena takes fuel of one
  more than the number of nodes: children are compiled before their parents, so no path is
  longer. All other loops are structural or have a measure.

  \<^bold>\<open>Parameters.\<close> Code outside the repository is an argument with its documented behaviour as
  hypothesis: the Aho-Corasick and regex engines of the rules, header validity and URL origins of
  the HTTP crates, signal listeners, the random generator, the keyed hash of tokens, the JSON
  reader (a tree of what \<open>serde_json\<close> would give its visitors, or its result for a type), percent-decoding,
  IP networks, the constant-time comparison, the environment and the files. A
  configuration has distinct bot and distinct consumer names (\<open>config_named\<close>), which its parsing
  and validation ensure.

  \<^bold>\<open>Not modelled.\<close> The HTTP plumbing of gateway, sources and admin API (axum, hyper, reqwest),
  the configuration file (serde model,
  validation messages, watching), Prometheus families, tracing, the command line
  and the developer tools. The engine's control calls and reloads are single steps, as its write
  lock makes them; admission against a slot being retired is interleaved in \<open>Slot_Retire\<close> only.
\<close>

end
